(* ===== verification/Prelude.thy ===== *)
theory Prelude
  imports Main "HOL-Library.Word" "HOL-Library.Monad_Syntax"
begin

text \<open>
  The vocabulary every other theory shares.

  \<^item> A call of the library is a function into \<^typ>\<open>'a option\<close>: \<open>None\<close> says that the
    call never returns to its caller (a failed \<open>ASSERT\<close>, a \<open>FATAL_ABORT\<close>, an access
    outside the memory the model gives the program, a wait that nobody ends), \<open>Some\<close>
    carries the value the C function returns together with the state it leaves.
    Error \<^emph>\<open>returns\<close> (\<open>-1\<close>, \<open>NULL\<close>) are ordinary values.
  \<^item> \<open>size_t\<close> is \<^typ>\<open>nat\<close> with the wrap-around written out (\<open>addw\<close>, \<open>subw\<close>,
    \<open>mulw\<close>); status bytes and option words are words, because they are only used bitwise.
  \<^item> The operating system is the record \<open>os\<close>: the files, and scripts that say which
    of the coming calls fail and how many bytes the coming transfers move.  A theorem that
    holds for every script holds for every behaviour of those calls.
\<close>

unbundle bit_operations_syntax

named_theorems flag_bits \<open>status bytes as sets of bits\<close>
named_theorems size_simps \<open>size_t arithmetic that does not wrap\<close>

subsection \<open>Calls that may not return\<close>

definition ASSERT :: "bool \<Rightarrow> unit option" where
  "ASSERT b = (if b then Some () else None)"

lemma ASSERT_True [simp]: "ASSERT True = Some ()"
  by (simp add: ASSERT_def)

lemma ASSERT_False [simp]: "ASSERT False = None"
  by (simp add: ASSERT_def)

lemma ASSERT_eq_Some [simp]: "ASSERT b = Some u \<longleftrightarrow> b"
  by (simp add: ASSERT_def)

lemma ASSERT_eq_None [simp]: "ASSERT b = None \<longleftrightarrow> \<not> b"
  by (simp add: ASSERT_def)

lemma bind_ASSERT [simp]: "Option.bind (ASSERT b) f = (if b then f () else None)"
  by (simp add: ASSERT_def)

lemmas bind_SomeE = bind_eq_Some_conv [THEN iffD1, elim_format]

subsection \<open>Unsigned sizes\<close>

type_synonym byte = "8 word"
type_synonym cint = "32 word"

definition SIZE_MOD :: nat where
  "SIZE_MOD = 18446744073709551616"

definition SIZE_MAX :: nat where
  "SIZE_MAX = 18446744073709551615"

definition addw :: "nat \<Rightarrow> nat \<Rightarrow> nat" where
  "addw a b = (a + b) mod SIZE_MOD"

definition subw :: "nat \<Rightarrow> nat \<Rightarrow> nat" where
  "subw a b = (a + SIZE_MOD - b) mod SIZE_MOD"

definition mulw :: "nat \<Rightarrow> nat \<Rightarrow> nat" where
  "mulw a b = (a * b) mod SIZE_MOD"

lemma SIZE_MOD_pos [simp]: "0 < SIZE_MOD"
  by (simp add: SIZE_MOD_def)

lemma SIZE_MAX_less [simp]: "SIZE_MAX < SIZE_MOD"
  by (simp add: SIZE_MAX_def SIZE_MOD_def)

lemma addw_less [simp]: "addw a b < SIZE_MOD"
  by (simp add: addw_def)

lemma subw_less [simp]: "subw a b < SIZE_MOD"
  by (simp add: subw_def)

lemma mulw_less [simp]: "mulw a b < SIZE_MOD"
  by (simp add: mulw_def)

lemma addw_exact [size_simps]: "a + b < SIZE_MOD \<Longrightarrow> addw a b = a + b"
  by (simp add: addw_def)

lemma mulw_exact [size_simps]: "a * b < SIZE_MOD \<Longrightarrow> mulw a b = a * b"
  by (simp add: mulw_def)

lemma subw_exact [size_simps]:
  assumes "b \<le> a" and "a < SIZE_MOD"
  shows "subw a b = a - b"
proof -
  have "subw a b = ((a - b) + SIZE_MOD) mod SIZE_MOD"
    using assms(1) by (simp add: subw_def)
  also have "\<dots> = a - b"
    using assms(2) by (simp add: less_imp_diff_less)
  finally show ?thesis .
qed

lemma subw_self [simp]: "a < SIZE_MOD \<Longrightarrow> subw a a = 0"
  by (simp add: subw_exact)

lemma addw_0 [simp]: "a < SIZE_MOD \<Longrightarrow> addw a 0 = a"
  by (simp add: addw_def)

lemma subw_0 [simp]: "a < SIZE_MOD \<Longrightarrow> subw a 0 = a"
  by (simp add: subw_exact)

text \<open>Assigning a \<open>size_t\<close> to an \<open>int\<close>: the low 32 bits, read as two's complement.\<close>

definition to_int :: "nat \<Rightarrow> int" where
  "to_int n = (int n + 2147483648) mod 4294967296 - 2147483648"

lemma to_int_exact: "n < 2147483648 \<Longrightarrow> to_int n = int n"
  by (simp add: to_int_def)

subsection \<open>Bits of status bytes\<close>

text \<open>The source's test \<open>MASK == (byte & MASK)\<close>.\<close>

definition has :: "'a::len word \<Rightarrow> 'a word \<Rightarrow> bool" where
  "has f m \<longleftrightarrow> m = (f AND m)"

lemma has_exp:
  assumes "k < LENGTH('a)"
  shows "has (f :: 'a::len word) (2 ^ k) \<longleftrightarrow> bit f k"
proof
  assume "has f (2 ^ k)"
  then have "bit (2 ^ k :: 'a word) k = bit (f AND 2 ^ k) k"
    by (simp add: has_def)
  then show "bit f k"
    using assms by (simp add: bit_and_iff bit_exp_iff)
next
  assume "bit f k"
  then show "has f (2 ^ k)"
    unfolding has_def by (intro bit_word_eqI) (auto simp: bit_and_iff bit_exp_iff)
qed

lemma exp_and_pair:
  assumes i: "i < LENGTH('a)" and j: "j < LENGTH('a)" and ij: "i \<noteq> j"
  shows "(2 ^ j :: 'a::len word) = (w AND (2 ^ i OR 2 ^ j)) \<longleftrightarrow> bit w j \<and> \<not> bit w i"
proof
  assume eq: "(2 ^ j :: 'a word) = (w AND (2 ^ i OR 2 ^ j))"
  have "bit (2 ^ j :: 'a word) j = bit (w AND (2 ^ i OR 2 ^ j)) j"
    and "bit (2 ^ j :: 'a word) i = bit (w AND (2 ^ i OR 2 ^ j)) i"
    using arg_cong [OF eq, of "\<lambda>v. bit v j"] arg_cong [OF eq, of "\<lambda>v. bit v i"] by auto
  then show "bit w j \<and> \<not> bit w i"
    using i j ij by (simp add: bit_and_iff bit_or_iff bit_exp_iff)
next
  assume "bit w j \<and> \<not> bit w i"
  then show "(2 ^ j :: 'a word) = (w AND (2 ^ i OR 2 ^ j))"
    by (intro bit_word_eqI) (auto simp: bit_and_iff bit_or_iff bit_exp_iff)
qed

subsection \<open>Lists and ranges\<close>

text \<open>Apply \<open>f\<close> to the elements at the positions \<open>b, \<dots>, b + n - 1\<close>.\<close>

definition map_range :: "nat \<Rightarrow> nat \<Rightarrow> ('a \<Rightarrow> 'a) \<Rightarrow> 'a list \<Rightarrow> 'a list" where
  "map_range b n f xs = map (\<lambda>i. if b \<le> i \<and> i < b + n then f (xs ! i) else xs ! i) [0..<length xs]"

lemma length_map_range [simp]: "length (map_range b n f xs) = length xs"
  by (simp add: map_range_def)

lemma nth_map_range [simp]:
  "i < length xs \<Longrightarrow> map_range b n f xs ! i = (if b \<le> i \<and> i < b + n then f (xs ! i) else xs ! i)"
  by (simp add: map_range_def)

lemma map_range_0 [simp]: "map_range b 0 f xs = xs"
  by (rule nth_equalityI) auto

lemma map_range_Suc:
  "b < length xs \<Longrightarrow> map_range b (Suc n) f xs = map_range (Suc b) n f (xs[b := f (xs ! b)])"
  by (rule nth_equalityI) (auto simp: nth_list_update)

lemma filter_update:
  assumes "i < length xs"
  shows "length (filter P (xs[i := v])) + of_bool (P (xs ! i)) =
         length (filter P xs) + of_bool (P v)"
proof -
  have "filter P (xs[i := v]) = filter P (take i xs) @ filter P [v] @ filter P (drop (Suc i) xs)"
    using assms by (simp add: upd_conv_take_nth_drop)
  moreover have "filter P xs = filter P (take i xs) @ filter P [xs ! i] @ filter P (drop (Suc i) xs)"
    by (subst id_take_nth_drop [OF assms]) simp
  ultimately show ?thesis by simp
qed

lemma filter_update_same:
  "i < length xs \<Longrightarrow> P v = P (xs ! i) \<Longrightarrow> length (filter P (xs[i := v])) = length (filter P xs)"
  using filter_update [of i xs P v] by simp

lemma filter_pos: "i < length xs \<Longrightarrow> P (xs ! i) \<Longrightarrow> 0 < length (filter P xs)"
  by (metis filter_empty_conv length_greater_0_conv nth_mem)

lemma filter_less: "i < length xs \<Longrightarrow> \<not> P (xs ! i) \<Longrightarrow> length (filter P xs) < length xs"
  by (meson length_filter_less nth_mem)

text \<open>What holds of a call that may end the program: it returns when \<open>m\<close> holds, and whenever it
  returns its result satisfies \<open>P\<close>.\<close>

definition returns :: "bool \<Rightarrow> 'a option \<Rightarrow> ('a \<Rightarrow> bool) \<Rightarrow> bool" where
  "returns m x P \<longleftrightarrow> (case x of None \<Rightarrow> \<not> m | Some r \<Rightarrow> P r)"

lemma returns_simps [simp]: "returns m None P \<longleftrightarrow> \<not> m" "returns m (Some r) P \<longleftrightarrow> P r"
  by (simp_all add: returns_def)

lemma returns_mono: "returns m x P \<Longrightarrow> (m' \<Longrightarrow> m) \<Longrightarrow> (\<And>r. x = Some r \<Longrightarrow> P r \<Longrightarrow> Q r) \<Longrightarrow> returns m' x Q"
  by (cases x) auto

lemma returnsE: "returns m x P \<Longrightarrow> (x = None \<Longrightarrow> \<not> m \<Longrightarrow> R) \<Longrightarrow> (\<And>r. x = Some r \<Longrightarrow> P r \<Longrightarrow> R) \<Longrightarrow> R"
  by (cases x) auto

lemma returnsD: "returns m x P \<Longrightarrow> m \<Longrightarrow> \<exists>r. x = Some r \<and> P r" "returns m x P \<Longrightarrow> x = Some r \<Longrightarrow> P r"
  by (cases x; simp)+

lemma sum_list_update_nat:
  fixes xs :: "nat list"
  assumes "i < length xs"
  shows "sum_list (xs[i := v]) + xs ! i = sum_list xs + v"
  using assms by (induction xs arbitrary: i) (auto split: nat.splits)

subsection \<open>The operating system\<close>

record os =
  faults :: "bool list"               \<comment> \<open>coming calls: does the call fail?\<close>
  grants :: "nat list"                \<comment> \<open>coming transfers: how many bytes at most?\<close>
  places :: "nat list"                \<comment> \<open>coming successful mappings: their addresses\<close>
  files :: "string \<Rightarrow> byte list option"

text \<open>A call that either succeeds or returns \<open>-1\<close>.\<close>

definition sys_call :: "os \<Rightarrow> bool \<times> os" where
  "sys_call s = (case faults s of [] \<Rightarrow> (True, s) | f # fs \<Rightarrow> (\<not> f, s\<lparr>faults := fs\<rparr>))"

text \<open>The number of bytes that one \<open>read\<close> or \<open>write\<close> of \<open>len\<close> bytes moves: any number up to
  \<open>len\<close>, none as well.\<close>

definition os_xfer :: "nat \<Rightarrow> os \<Rightarrow> nat \<times> os" where
  "os_xfer len s = (case grants s of [] \<Rightarrow> (len, s) | g # gs \<Rightarrow> (min len g, s\<lparr>grants := gs\<rparr>))"

text \<open>No coming transfer moves nothing.\<close>

definition moves :: "os \<Rightarrow> bool" where
  "moves s \<longleftrightarrow> 0 \<notin> set (grants s)"

text \<open>\<open>open\<close> of an existing file.\<close>

definition os_open :: "string \<Rightarrow> os \<Rightarrow> bool \<times> os" where
  "os_open fname s = (case sys_call s of (ok, s') \<Rightarrow> (ok \<and> files s' fname \<noteq> None, s'))"

lemma sys_call_ok [simp]: "faults s = [] \<Longrightarrow> sys_call s = (True, s)"
  by (simp add: sys_call_def)

lemma os_xfer_full [simp]: "grants s = [] \<Longrightarrow> os_xfer len s = (len, s)"
  by (simp add: os_xfer_def)

lemma os_open_ok [simp]: "faults s = [] \<Longrightarrow> files s fname = Some f \<Longrightarrow> os_open fname s = (True, s)"
  by (simp add: os_open_def)

lemma sys_call_frame [simp]:
  "files (snd (sys_call s)) = files s" "grants (snd (sys_call s)) = grants s"
  "places (snd (sys_call s)) = places s"
  by (simp_all add: sys_call_def split: list.splits)

lemma sys_call_facts:
  assumes "sys_call s = (ok, t)"
  shows "files t = files s" "grants t = grants s" "places t = places s" "faults s = [] \<longrightarrow> ok \<and> t = s"
  using sys_call_frame [of s] assms by auto

lemma os_xfer_frame [simp]:
  "files (snd (os_xfer n s)) = files s" "faults (snd (os_xfer n s)) = faults s"
  by (simp_all add: os_xfer_def split: list.splits)

lemma os_xfer_bound: "fst (os_xfer len s) \<le> len"
  by (simp add: os_xfer_def split: list.splits)

lemma os_xfer_grants: "set (grants (snd (os_xfer n s))) \<subseteq> set (grants s)"
  by (auto simp: os_xfer_def split: list.splits)

lemma os_xfer_pos: "0 < len \<Longrightarrow> moves s \<Longrightarrow> 0 < fst (os_xfer len s)"
  by (auto simp: os_xfer_def moves_def split: list.splits)

lemma moves_quiet [simp]: "grants s = [] \<Longrightarrow> moves s"
  by (simp add: moves_def)

lemma moves_mono: "set (grants t) \<subseteq> set (grants s) \<Longrightarrow> moves s \<Longrightarrow> moves t"
  by (auto simp: moves_def)

text \<open>Contents of a file as the program sees them: bytes past the end read as zero.\<close>

definition byte_at :: "byte list \<Rightarrow> nat \<Rightarrow> byte" where
  "byte_at xs i = (if i < length xs then xs ! i else 0)"

text \<open>\<open>write\<close> at an offset: a gap before the offset is filled with zeros.\<close>

definition write_at :: "byte list \<Rightarrow> nat \<Rightarrow> byte list \<Rightarrow> byte list" where
  "write_at xs off ys = take off (xs @ replicate (off - length xs) 0) @ ys @ drop (off + length ys) xs"

lemma length_write_at: "length (write_at xs off ys) = max (length xs) (off + length ys)"
  by (auto simp: write_at_def)

lemma byte_at_write_at:
  "byte_at (write_at xs off ys) i =
     (if off \<le> i \<and> i < off + length ys then ys ! (i - off) else byte_at xs i)"
proof -
  define p where "p = take off (xs @ replicate (off - length xs) 0)"
  have len: "length p = off"
    by (simp add: p_def)
  have w: "write_at xs off ys = p @ ys @ drop (off + length ys) xs"
    by (simp add: write_at_def p_def)
  have "i < off \<Longrightarrow> write_at xs off ys ! i = byte_at xs i"
    by (simp add: w len nth_append) (auto simp: p_def byte_at_def nth_append)
  moreover have "off \<le> i \<Longrightarrow> i < off + length ys \<Longrightarrow> write_at xs off ys ! i = ys ! (i - off)"
    by (auto simp: w len nth_append)
  moreover have "off + length ys \<le> i \<Longrightarrow> i < length xs \<Longrightarrow> write_at xs off ys ! i = xs ! i"
    by (auto simp: w len nth_append)
  ultimately show ?thesis
    by (auto simp: byte_at_def length_write_at)
qed

end
