(* ===== verification/Mmu.thy ===== *)
theory Mmu
  imports Prelude
begin

text \<open>
  The memory management unit (\<open>src/include/mmu.h\<close>, \<open>src/mmu\<close>): the status bits of a
  page, the allocation table entry, and the allocation table itself.

  The table is modelled twice.  The first model is the code's: a doubly linked list through
  the \<open>prev\<close> and \<open>next\<close> fields of the entries, in an explicit store.  The second is the
  list of the entries in the order of the \<open>next\<close> pointers, which is what the rest of the
  library iterates over.  The relation \<open>table\<close> connects them, and the locale
  \<open>alloc_table\<close> states what the clients of the table rely on.
\<close>

subsection \<open>Page status\<close>

definition MMU_ZFILL :: byte where "MMU_ZFILL = push_bit 0 1"
definition MMU_RSDNT :: byte where "MMU_RSDNT = push_bit 1 1"
definition MMU_DIRTY :: byte where "MMU_DIRTY = push_bit 2 1"
definition MMU_CHRGD :: byte where "MMU_CHRGD = push_bit 3 1"

lemmas mmu_status_code = MMU_ZFILL_def MMU_RSDNT_def MMU_DIRTY_def MMU_CHRGD_def

text \<open>
  The four tests of the source, under the names its comments give them.  A set
  \<open>MMU_RSDNT\<close> bit means that the page is \<^emph>\<open>not\<close> resident, a set \<open>MMU_CHRGD\<close> bit
  that it is \<^emph>\<open>not\<close> charged, a set \<open>MMU_ZFILL\<close> bit that it must be read from disk.
\<close>

definition on_disk :: "byte \<Rightarrow> bool" where "on_disk f \<longleftrightarrow> has f MMU_ZFILL"
definition resident :: "byte \<Rightarrow> bool" where "resident f \<longleftrightarrow> \<not> has f MMU_RSDNT"
definition dirty :: "byte \<Rightarrow> bool" where "dirty f \<longleftrightarrow> has f MMU_DIRTY"
definition charged :: "byte \<Rightarrow> bool" where "charged f \<longleftrightarrow> \<not> has f MMU_CHRGD"

lemma status_bits [flag_bits]:
  "on_disk f \<longleftrightarrow> bit f 0" "resident f \<longleftrightarrow> \<not> bit f 1" "dirty f \<longleftrightarrow> bit f 2" "charged f \<longleftrightarrow> \<not> bit f 3"
  by (simp_all add: on_disk_def resident_def dirty_def charged_def mmu_status_code
      push_bit_of_1 flip: has_exp)

lemma mask_bits [flag_bits]:
  "bit MMU_ZFILL n \<longleftrightarrow> n = 0" "bit MMU_RSDNT n \<longleftrightarrow> n = 1"
  "bit MMU_DIRTY n \<longleftrightarrow> n = 2" "bit MMU_CHRGD n \<longleftrightarrow> n = 3"
  by (simp_all only: mmu_status_code bit_push_bit_iff bit_1_iff possible_bit_word) auto

lemmas flag_ops = flag_bits bit_and_iff bit_or_iff bit_not_iff

text \<open>The combinations of the status bits that the code ever produces.\<close>

definition page_ok :: "byte \<Rightarrow> bool" where
  "page_ok f \<longleftrightarrow> (resident f \<longrightarrow> charged f) \<and> (dirty f \<longrightarrow> resident f)"

subsection \<open>Allocation table entries\<close>

datatype prot = PROT_NONE | PROT_READ | PROT_WRITE | PROT_RW

text \<open>
  \<open>struct ate\<close>.  \<open>addr\<close> is the address of the structure itself, \<open>flags\<close> the array of
  status bytes the field of that name points to; \<open>prots\<close> and \<open>data\<close> are the protection
  of the application pages and their contents, by offset from \<open>base\<close>.  The links of the
  table are in the store below.
\<close>

record ate =
  addr :: nat
  n_pages :: nat
  l_pages :: nat
  c_pages :: nat
  d_pages :: nat
  base :: nat
  flags :: "byte list"
  prots :: "prot list"
  data :: "nat \<Rightarrow> byte"

text \<open>Reading \<open>ate->flags[ip]\<close>; outside the array the access is undefined.\<close>

definition flag_at :: "ate \<Rightarrow> nat \<Rightarrow> byte option" where
  "flag_at a ip = (if ip < length (flags a) then Some (flags a ! ip) else None)"

definition set_flag :: "ate \<Rightarrow> nat \<Rightarrow> byte \<Rightarrow> ate" where
  "set_flag a ip f = a\<lparr>flags := (flags a)[ip := f]\<rparr>"

text \<open>The counters agree with the status bytes; \<open>pend\<close> dirty pages are still counted
  although their status byte has been reset already.\<close>

definition counts_ok :: "nat \<Rightarrow> ate \<Rightarrow> bool" where
  "counts_ok pend a \<longleftrightarrow>
     length (flags a) = n_pages a \<and>
     l_pages a = length (filter resident (flags a)) \<and>
     c_pages a = length (filter charged (flags a)) \<and>
     d_pages a = length (filter dirty (flags a)) + pend"

definition prot_of :: "byte \<Rightarrow> prot" where
  "prot_of f = (if \<not> resident f then PROT_NONE else if dirty f then PROT_RW else PROT_READ)"

definition prots_ok :: "ate \<Rightarrow> bool" where
  "prots_ok a \<longleftrightarrow> prots a = map prot_of (flags a)"

definition pages_ok :: "ate \<Rightarrow> bool" where
  "pages_ok a \<longleftrightarrow> list_all page_ok (flags a)"

definition wf_ate :: "ate \<Rightarrow> bool" where
  "wf_ate a \<longleftrightarrow> counts_ok 0 a \<and> prots_ok a \<and> pages_ok a"

lemma pages_ok_nth: "pages_ok a \<Longrightarrow> i < length (flags a) \<Longrightarrow> page_ok (flags a ! i)"
  by (simp add: pages_ok_def list_all_length)

lemma flag_at_Some [simp]: "i < length (flags a) \<Longrightarrow> flag_at a i = Some (flags a ! i)"
  by (simp add: flag_at_def)

lemma flag_at_eq_Some: "flag_at a i = Some f \<longleftrightarrow> i < length (flags a) \<and> f = flags a ! i"
  by (auto simp: flag_at_def)

lemma set_flag_simps [simp]:
  "flags (set_flag a i f) = (flags a)[i := f]" "n_pages (set_flag a i f) = n_pages a"
  "l_pages (set_flag a i f) = l_pages a" "c_pages (set_flag a i f) = c_pages a"
  "d_pages (set_flag a i f) = d_pages a" "base (set_flag a i f) = base a"
  "addr (set_flag a i f) = addr a" "prots (set_flag a i f) = prots a"
  "data (set_flag a i f) = data a"
  by (simp_all add: set_flag_def)

lemma counts_ok_le:
  assumes "counts_ok p a"
  shows "l_pages a \<le> n_pages a" "c_pages a \<le> n_pages a"
  using assms by (auto simp: counts_ok_def intro: le_trans [OF length_filter_le])

text \<open>
  Changing one status byte and moving the counters with it keeps the counters right.
\<close>

lemma counts_ok_step:
  assumes ok: "counts_ok p a" and i: "i < length (flags a)"
    and l: "l + of_bool (resident (flags a ! i)) = l_pages a + of_bool (resident f)"
    and c: "c + of_bool (charged (flags a ! i)) = c_pages a + of_bool (charged f)"
    and d: "d + of_bool (dirty (flags a ! i)) + p = d_pages a + of_bool (dirty f) + q"
  shows "counts_ok q (set_flag (a\<lparr>l_pages := l, c_pages := c, d_pages := d\<rparr>) i f)"
proof -
  have "length (filter resident ((flags a)[i := f])) = l"
    using ok l filter_update [OF i, of resident f] by (simp add: counts_ok_def)
  moreover have "length (filter charged ((flags a)[i := f])) = c"
    using ok c filter_update [OF i, of charged f] by (simp add: counts_ok_def)
  moreover have "length (filter dirty ((flags a)[i := f])) + q = d"
    using ok d filter_update [OF i, of dirty f] by (simp add: counts_ok_def)
  ultimately show ?thesis using ok by (simp add: counts_ok_def)
qed

subsection \<open>The table as the code has it\<close>

text \<open>
  The store: \<open>prv\<close> and \<open>nxt\<close> are the fields \<open>ate->prev\<close> and \<open>ate->next\<close>,
  \<open>cell\<close> the rest of each structure, \<open>a_head\<close> the pointer \<open>mmu->a_tbl\<close>;
  address 0 is \<open>NULL\<close>.  In the default build (\<open>USE_THREAD\<close> undefined) \<open>lock_get\<close>
  and \<open>lock_let\<close> are the constant 0, so no operation of the table fails.
\<close>

record mmu =
  mmu_page_size :: nat
  a_head :: nat
  prv :: "nat \<Rightarrow> nat"
  nxt :: "nat \<Rightarrow> nat"
  cell :: "nat \<Rightarrow> ate option"

definition mmu_init :: "mmu \<Rightarrow> nat \<Rightarrow> int \<times> mmu" where
  "mmu_init m ps = (0, m\<lparr>a_head := 0, mmu_page_size := ps\<rparr>)"

definition mmu_destroy :: "mmu \<Rightarrow> int \<times> mmu" where
  "mmu_destroy m = (0, m)"

definition mmu_insert_ate :: "mmu \<Rightarrow> nat \<Rightarrow> int \<times> mmu" where
  "mmu_insert_ate m p =
     (if a_head m = 0
      then (0, m\<lparr>a_head := p, prv := (prv m)(p := 0), nxt := (nxt m)(p := 0)\<rparr>)
      else (0, m\<lparr>prv := (prv m)(p := prv m (a_head m), a_head m := p),
                 nxt := (nxt m)(p := a_head m), a_head := p\<rparr>))"

definition mmu_invalidate_ate :: "mmu \<Rightarrow> nat \<Rightarrow> int \<times> mmu" where
  "mmu_invalidate_ate m p =
     (let m1 = (if prv m p = 0 then m\<lparr>a_head := nxt m p\<rparr>
                else m\<lparr>nxt := (nxt m)(prv m p := nxt m p)\<rparr>)
      in (0, if nxt m1 p \<noteq> 0 then m1\<lparr>prv := (prv m1)(nxt m1 p := prv m1 p)\<rparr> else m1))"

text \<open>The test of the search loop: does the allocation contain the address?\<close>

definition contains :: "nat \<Rightarrow> ate \<Rightarrow> nat \<Rightarrow> bool" where
  "contains ps a x \<longleftrightarrow> base a \<le> x \<and> x < addw (base a) (mulw (n_pages a) ps)"

partial_function (option) mmu_lookup_loop :: "mmu \<Rightarrow> nat \<Rightarrow> nat \<Rightarrow> nat option" where
  "mmu_lookup_loop m x p =
     (if p = 0 then Some 0
      else case cell m p of
        None \<Rightarrow> None
      | Some a \<Rightarrow> if contains (mmu_page_size m) a x then Some p
                  else mmu_lookup_loop m x (nxt m p))"

text \<open>\<open>NULL\<close> is 0; the failure value \<open>(struct ate*)-1\<close> is not reached without threads.\<close>

definition mmu_lookup_ate :: "mmu \<Rightarrow> nat \<Rightarrow> nat option" where
  "mmu_lookup_ate m x = mmu_lookup_loop m x (a_head m)"

subsection \<open>The table as a list\<close>

text \<open>The segment from \<open>p\<close> to \<open>e\<close>, whose first entry has the predecessor \<open>q\<close>.\<close>

primrec dseg :: "mmu \<Rightarrow> nat \<Rightarrow> nat \<Rightarrow> nat list \<Rightarrow> nat \<Rightarrow> bool" where
  "dseg m q p [] e \<longleftrightarrow> p = e"
| "dseg m q p (x # xs) e \<longleftrightarrow> p = x \<and> x \<noteq> 0 \<and> prv m x = q \<and> dseg m x (nxt m x) xs e"

definition table :: "mmu \<Rightarrow> nat list \<Rightarrow> bool" where
  "table m xs \<longleftrightarrow> dseg m 0 (a_head m) xs 0 \<and> distinct xs \<and> (\<forall>x\<in>set xs. cell m x \<noteq> None)"

lemma dseg_append:
  "dseg m q p (xs @ ys) e \<longleftrightarrow> (\<exists>r. dseg m q p xs r \<and> dseg m (last (q # xs)) r ys e)"
  by (induction xs arbitrary: q p) auto

lemma dseg_cong:
  assumes "\<And>x. x \<in> set xs \<Longrightarrow> prv m' x = prv m x \<and> nxt m' x = nxt m x"
  shows "dseg m' q p xs e = dseg m q p xs e"
  using assms by (induction xs arbitrary: q p) auto

lemma dseg_head: "dseg m q p xs 0 \<Longrightarrow> xs \<noteq> [] \<Longrightarrow> p = hd xs \<and> p \<noteq> 0"
  by (cases xs) auto

text \<open>Redirecting the last \<open>next\<close> pointer of a segment.\<close>

lemma dseg_redirect:
  assumes "dseg m q p (xs @ [x]) e" and "distinct (xs @ [x])"
    and "prv m' = prv m" and "nxt m' = (nxt m)(x := e')"
  shows "dseg m' q p (xs @ [x]) e'"
  using assms by (induction xs arbitrary: q p) auto

text \<open>Changing the \<open>prev\<close> pointer of the first entry of a segment.\<close>

lemma dseg_retarget:
  assumes "dseg m q p xs 0" and "distinct xs"
    and "prv m' = (prv m)(p := q')" and "nxt m' = nxt m"
  shows "dseg m' q' p xs 0"
proof (cases xs)
  case (Cons x ys)
  with assms have "dseg m' x (nxt m x) ys 0 = dseg m x (nxt m x) ys 0"
    by (intro dseg_cong) auto
  with Cons assms show ?thesis by auto
qed (use assms in auto)

lemma table_insert:
  assumes t: "table m xs" and p: "p \<noteq> 0" "p \<notin> set xs" "cell m p \<noteq> None"
  shows "fst (mmu_insert_ate m p) = 0" "table (snd (mmu_insert_ate m p)) (p # xs)"
proof -
  show "fst (mmu_insert_ate m p) = 0" by (simp add: mmu_insert_ate_def)
  define m' where "m' = snd (mmu_insert_ate m p)"
  have seg: "dseg m 0 (a_head m) xs 0" and dist: "distinct xs"
    using t by (auto simp: table_def)
  show "table (snd (mmu_insert_ate m p)) (p # xs)"
  proof (cases xs)
    case Nil
    with seg p show ?thesis by (simp add: table_def mmu_insert_ate_def)
  next
    case (Cons x ys)
    with seg have hd: "a_head m = x" "x \<noteq> 0" "prv m x = 0" "dseg m x (nxt m x) ys 0"
      by auto
    have "dseg m' x (nxt m' x) ys 0 = dseg m x (nxt m x) ys 0"
    proof -
      have "nxt m' x = nxt m x" using Cons p hd by (auto simp: m'_def mmu_insert_ate_def)
      moreover have "dseg m' x (nxt m x) ys 0 = dseg m x (nxt m x) ys 0"
        using Cons p hd dist by (intro dseg_cong) (auto simp: m'_def mmu_insert_ate_def)
      ultimately show ?thesis by simp
    qed
    with Cons hd p t dist show ?thesis
      by (auto simp: table_def m'_def mmu_insert_ate_def)
  qed
qed

text \<open>The two halves of the unlinking: first the forward pointers, then the backward one.\<close>

definition unlink_next :: "mmu \<Rightarrow> nat \<Rightarrow> mmu" where
  "unlink_next m p = (if prv m p = 0 then m\<lparr>a_head := nxt m p\<rparr>
                      else m\<lparr>nxt := (nxt m)(prv m p := nxt m p)\<rparr>)"

definition unlink_prev :: "mmu \<Rightarrow> nat \<Rightarrow> mmu" where
  "unlink_prev m p = (if nxt m p \<noteq> 0 then m\<lparr>prv := (prv m)(nxt m p := prv m p)\<rparr> else m)"

lemma mmu_invalidate_ate_eq: "mmu_invalidate_ate m p = (0, unlink_prev (unlink_next m p) p)"
  by (simp add: mmu_invalidate_ate_def unlink_next_def unlink_prev_def Let_def)

lemma dseg_last_nonnull: "dseg m q p xs e \<Longrightarrow> xs \<noteq> [] \<Longrightarrow> last xs \<noteq> 0"
  by (induction xs arbitrary: q p) auto

lemma dseg_cell_nonnull: "dseg m q p xs e \<Longrightarrow> x \<in> set xs \<Longrightarrow> x \<noteq> 0"
  by (induction xs arbitrary: q p) auto

lemma unlink_next_dseg:
  assumes ys: "dseg m 0 (a_head m) ys p" and zs: "dseg m p (nxt m p) zs 0"
    and pq: "prv m p = last (0 # ys)" and dist: "distinct (ys @ p # zs)"
  shows "dseg (unlink_next m p) 0 (a_head (unlink_next m p)) ys (nxt m p)"
    and "dseg (unlink_next m p) p (nxt m p) zs 0"
    and "nxt (unlink_next m p) p = nxt m p"
proof (atomize (full), cases ys rule: rev_cases)
  case Nil
  have "dseg (unlink_next m p) p (nxt m p) zs 0 = dseg m p (nxt m p) zs 0"
    using Nil pq by (intro dseg_cong) (simp add: unlink_next_def)
  with Nil pq zs show "dseg (unlink_next m p) 0 (a_head (unlink_next m p)) ys (nxt m p) \<and>
      dseg (unlink_next m p) p (nxt m p) zs 0 \<and> nxt (unlink_next m p) p = nxt m p"
    by (simp add: unlink_next_def)
next
  case (snoc us u)
  with pq dseg_last_nonnull [OF ys] have u: "prv m p = u" "u \<noteq> 0" by auto
  then have m1: "unlink_next m p = m\<lparr>nxt := (nxt m)(u := nxt m p)\<rparr>"
    by (simp add: unlink_next_def)
  have "dseg (unlink_next m p) p (nxt m p) zs 0 = dseg m p (nxt m p) zs 0"
    using snoc dist by (intro dseg_cong) (auto simp: m1)
  moreover have "dseg (unlink_next m p) 0 (a_head m) (us @ [u]) (nxt m p)"
    by (rule dseg_redirect [of m _ _ _ _ p]) (use ys snoc dist in \<open>auto simp: m1\<close>)
  moreover have "a_head (unlink_next m p) = a_head m" "nxt (unlink_next m p) p = nxt m p"
    using snoc dist by (auto simp: m1)
  ultimately show "dseg (unlink_next m p) 0 (a_head (unlink_next m p)) ys (nxt m p) \<and>
      dseg (unlink_next m p) p (nxt m p) zs 0 \<and> nxt (unlink_next m p) p = nxt m p"
    using zs snoc by simp
qed

lemma unlink_prev_dseg:
  assumes ys: "dseg m 0 (a_head m) ys (nxt m p)" and zs: "dseg m p (nxt m p) zs 0"
    and pq: "prv m p = last (0 # ys)" and dist: "distinct (ys @ p # zs)"
  shows "dseg (unlink_prev m p) 0 (a_head (unlink_prev m p)) (ys @ zs) 0"
proof (cases zs)
  case Nil
  with zs ys show ?thesis by (simp add: unlink_prev_def)
next
  case (Cons z zs')
  with zs have z: "nxt m p = z" "z \<noteq> 0" by auto
  then have m2: "unlink_prev m p = m\<lparr>prv := (prv m)(z := last (0 # ys))\<rparr>"
    using pq by (simp add: unlink_prev_def)
  have "dseg (unlink_prev m p) 0 (a_head m) ys z = dseg m 0 (a_head m) ys z"
    using dist Cons by (intro dseg_cong) (auto simp: m2)
  moreover have "dseg (unlink_prev m p) (last (0 # ys)) z zs 0"
    by (rule dseg_retarget [of m p]) (use zs z dist in \<open>auto simp: m2\<close>)
  moreover have "a_head (unlink_prev m p) = a_head m" by (simp add: m2)
  ultimately show ?thesis using ys z by (auto simp: dseg_append)
qed

lemma table_invalidate:
  assumes t: "table m xs" and p: "p \<in> set xs"
  shows "fst (mmu_invalidate_ate m p) = 0" "table (snd (mmu_invalidate_ate m p)) (remove1 p xs)"
proof -
  show "fst (mmu_invalidate_ate m p) = 0" by (simp add: mmu_invalidate_ate_eq)
  obtain ys zs where xs: "xs = ys @ p # zs" using p by (auto dest: split_list)
  have dist: "distinct (ys @ p # zs)" and seg: "dseg m 0 (a_head m) (ys @ p # zs) 0"
    using t xs by (auto simp: table_def)
  have ys: "dseg m 0 (a_head m) ys p" and pq: "prv m p = last (0 # ys)"
    and zs: "dseg m p (nxt m p) zs 0"
    using seg by (auto simp: dseg_append)
  let ?m1 = "unlink_next m p"
  have m1: "prv ?m1 = prv m" "cell ?m1 = cell m" by (auto simp: unlink_next_def)
  have "dseg (unlink_prev ?m1 p) 0 (a_head (unlink_prev ?m1 p)) (ys @ zs) 0"
    using unlink_next_dseg [OF ys zs pq dist] pq dist m1
    by (intro unlink_prev_dseg) auto
  moreover have "cell (unlink_prev ?m1 p) = cell m" using m1 by (simp add: unlink_prev_def)
  moreover have "remove1 p xs = ys @ zs" using xs dist by (simp add: remove1_append)
  ultimately show "table (snd (mmu_invalidate_ate m p)) (remove1 p xs)"
    using t dist xs by (auto simp: table_def mmu_invalidate_ate_eq)
qed

lemma lookup_loop_dseg:
  assumes "dseg m q p xs 0" and "\<forall>y\<in>set xs. cell m y \<noteq> None"
  shows "mmu_lookup_loop m x p =
    Some (case find (\<lambda>y. contains (mmu_page_size m) (the (cell m y)) x) xs of None \<Rightarrow> 0 | Some y \<Rightarrow> y)"
  using assms
  by (induction xs arbitrary: q p) (auto simp: mmu_lookup_loop.simps [of m x])

text \<open>The search over the list of the entries.\<close>

definition mmu_lookup :: "nat \<Rightarrow> ate list \<Rightarrow> nat \<Rightarrow> ate option" where
  "mmu_lookup ps tbl x = find (\<lambda>a. contains ps a x) tbl"

definition represents :: "mmu \<Rightarrow> ate list \<Rightarrow> bool" where
  "represents m tbl \<longleftrightarrow> table m (map addr tbl) \<and> (\<forall>a\<in>set tbl. cell m (addr a) = Some a)"

text \<open>The regions of the entries neither overlap nor leave the address space.\<close>

definition region_end :: "nat \<Rightarrow> ate \<Rightarrow> nat" where
  "region_end ps a = base a + n_pages a * ps"

fun apart :: "nat \<Rightarrow> ate list \<Rightarrow> bool" where
  "apart ps [] \<longleftrightarrow> True"
| "apart ps (a # as) \<longleftrightarrow> region_end ps a < SIZE_MOD \<and>
     list_all (\<lambda>b. region_end ps a \<le> base b \<or> region_end ps b \<le> base a) as \<and> apart ps as"

lemma contains_iff:
  "region_end ps a < SIZE_MOD \<Longrightarrow> contains ps a x \<longleftrightarrow> base a \<le> x \<and> x < region_end ps a"
  by (simp add: contains_def region_end_def addw_exact mulw_exact)

lemma apart_range: "apart ps tbl \<Longrightarrow> a \<in> set tbl \<Longrightarrow> region_end ps a < SIZE_MOD"
  by (induction tbl) auto

lemma apart_unique:
  assumes "apart ps tbl" "a \<in> set tbl" "b \<in> set tbl" "contains ps a x" "contains ps b x"
  shows "a = b"
  using assms
proof (induction tbl)
  case (Cons c cs)
  have rng: "\<And>d. d \<in> set (c # cs) \<Longrightarrow> contains ps d x \<longleftrightarrow> base d \<le> x \<and> x < region_end ps d"
    using apart_range [OF Cons.prems(1)] contains_iff by blast
  from Cons.prems rng [of a] rng [of b] have xs: "base a \<le> x" "x < region_end ps a"
      "base b \<le> x" "x < region_end ps b" by auto
  show ?case
    using Cons.prems Cons.IH xs by (fastforce simp: list_all_iff)
qed simp

lemma apart_remove1: "apart ps tbl \<Longrightarrow> apart ps (remove1 a tbl)"
  by (induction tbl) (auto simp: list_all_iff dest: subsetD [OF set_remove1_subset])

lemma find_eq_unique:
  assumes "a \<in> set xs" "P a" "\<And>b. b \<in> set xs \<Longrightarrow> P b \<Longrightarrow> b = a"
  shows "find P xs = Some a"
proof -
  obtain b where "find P xs = Some b"
    using assms(1,2) by (metis find_None_iff option.exhaust)
  moreover from this have "b = a" using assms(3) by (auto simp: find_Some_iff)
  ultimately show ?thesis by simp
qed

lemma mmu_lookup_unique:
  "apart ps tbl \<Longrightarrow> a \<in> set tbl \<Longrightarrow> contains ps a x \<Longrightarrow> mmu_lookup ps tbl x = Some a"
  unfolding mmu_lookup_def by (rule find_eq_unique) (auto dest: apart_unique)

lemma mmu_lookup_SomeD: "mmu_lookup ps tbl x = Some a \<Longrightarrow> a \<in> set tbl \<and> contains ps a x"
  by (auto simp: mmu_lookup_def find_Some_iff)

lemma mmu_lookup_None: "mmu_lookup ps tbl x = None \<longleftrightarrow> (\<forall>a\<in>set tbl. \<not> contains ps a x)"
  by (auto simp: mmu_lookup_def find_None_iff)

lemma represents_insert:
  assumes "represents m tbl" "addr a \<noteq> 0" "addr a \<notin> addr ` set tbl" "cell m (addr a) = Some a"
  shows "fst (mmu_insert_ate m (addr a)) = 0" "represents (snd (mmu_insert_ate m (addr a))) (a # tbl)"
  using assms table_insert [of m "map addr tbl" "addr a"]
  by (auto simp: represents_def mmu_insert_ate_def)

lemma represents_remove:
  assumes r: "represents m tbl" and a: "a \<in> set tbl"
  shows "fst (mmu_invalidate_ate m (addr a)) = 0"
    "represents (snd (mmu_invalidate_ate m (addr a))) (remove1 a tbl)"
proof -
  have dist: "distinct (map addr tbl)" using r by (simp add: represents_def table_def)
  have "remove1 (addr a) (map addr tbl) = map addr (remove1 a tbl)"
    using a dist by (induction tbl) (auto, metis imageI)
  moreover have "cell (snd (mmu_invalidate_ate m (addr a))) = cell m"
    by (simp add: mmu_invalidate_ate_def Let_def)
  ultimately show "fst (mmu_invalidate_ate m (addr a)) = 0"
    "represents (snd (mmu_invalidate_ate m (addr a))) (remove1 a tbl)"
    using r a table_invalidate [of m "map addr tbl" "addr a"]
    by (auto simp: represents_def dest: subsetD [OF set_remove1_subset])
qed

lemma represents_lookup:
  assumes r: "represents m tbl"
  shows "mmu_lookup_ate m x =
    Some (case mmu_lookup (mmu_page_size m) tbl x of None \<Rightarrow> 0 | Some a \<Rightarrow> addr a)"
proof -
  have "\<forall>a\<in>set tbl. cell m (addr a) = Some a" using r by (simp add: represents_def)
  then have "find (\<lambda>y. contains (mmu_page_size m) (the (cell m y)) x) (map addr tbl) =
        map_option addr (mmu_lookup (mmu_page_size m) tbl x)"
    unfolding mmu_lookup_def by (induction tbl) auto
  then show ?thesis
    using r lookup_loop_dseg [of m 0 "a_head m" "map addr tbl" x]
    by (auto simp: represents_def table_def mmu_lookup_ate_def split: option.splits)
qed

lemma mmu_page_size_frame:
  "mmu_page_size (snd (mmu_insert_ate m p)) = mmu_page_size m"
  "mmu_page_size (snd (mmu_invalidate_ate m p)) = mmu_page_size m"
  by (simp_all add: mmu_insert_ate_def mmu_invalidate_ate_def Let_def)

subsection \<open>The interface of the table\<close>

locale alloc_table =
  fixes rep :: "'m \<Rightarrow> ate list \<Rightarrow> bool"
    and put :: "'m \<Rightarrow> nat \<Rightarrow> int \<times> 'm"
    and del :: "'m \<Rightarrow> nat \<Rightarrow> int \<times> 'm"
    and look :: "'m \<Rightarrow> nat \<Rightarrow> nat option"
    and psize :: "'m \<Rightarrow> nat"
    and at :: "'m \<Rightarrow> nat \<Rightarrow> ate option"
  assumes put_rep: "rep m tbl \<Longrightarrow> addr a \<noteq> 0 \<Longrightarrow> addr a \<notin> addr ` set tbl \<Longrightarrow> at m (addr a) = Some a \<Longrightarrow>
      fst (put m (addr a)) = 0 \<and> rep (snd (put m (addr a))) (a # tbl)"
    and del_rep: "rep m tbl \<Longrightarrow> a \<in> set tbl \<Longrightarrow>
      fst (del m (addr a)) = 0 \<and> rep (snd (del m (addr a))) (remove1 a tbl)"
    and look_rep: "rep m tbl \<Longrightarrow>
      look m x = Some (case mmu_lookup (psize m) tbl x of None \<Rightarrow> 0 | Some a \<Rightarrow> addr a)"
    and put_psize: "psize (snd (put m p)) = psize m"
    and del_psize: "psize (snd (del m p)) = psize m"
    and rep_nonnull: "rep m tbl \<Longrightarrow> a \<in> set tbl \<Longrightarrow> addr a \<noteq> 0"
begin

lemma look_hit:
  assumes "rep m tbl" "apart (psize m) tbl" "a \<in> set tbl" "contains (psize m) a x"
  shows "look m x = Some (addr a)"
  using assms by (simp add: look_rep mmu_lookup_unique)

lemma look_miss:
  assumes "rep m tbl" "\<And>a. a \<in> set tbl \<Longrightarrow> \<not> contains (psize m) a x"
  shows "look m x = Some 0"
  using assms mmu_lookup_None [of "psize m" tbl x] by (simp add: look_rep)

lemma look_iff:
  assumes "rep m tbl" "apart (psize m) tbl" "p \<noteq> 0"
  shows "look m x = Some p \<longleftrightarrow> (\<exists>a\<in>set tbl. addr a = p \<and> contains (psize m) a x)"
proof
  assume "look m x = Some p"
  then have "(case mmu_lookup (psize m) tbl x of None \<Rightarrow> 0 | Some a \<Rightarrow> addr a) = p"
    using assms(1) by (simp add: look_rep)
  then obtain a where "mmu_lookup (psize m) tbl x = Some a" "addr a = p"
    using assms(3) by (auto split: option.splits)
  then show "\<exists>a\<in>set tbl. addr a = p \<and> contains (psize m) a x"
    by (auto dest: mmu_lookup_SomeD)
qed (use assms in \<open>auto simp: look_hit\<close>)

lemma look_after_put:
  assumes "rep m tbl" "addr a \<noteq> 0" "addr a \<notin> addr ` set tbl" "at m (addr a) = Some a"
    and "apart (psize m) (a # tbl)" "contains (psize m) a x"
  shows "look (snd (put m (addr a))) x = Some (addr a)"
  using put_rep [OF assms(1-4)] assms(5,6) by (auto simp: put_psize intro: look_hit)

lemma look_after_del:
  assumes r: "rep m tbl" and a: "a \<in> set tbl" "apart (psize m) tbl" "distinct tbl"
    and x: "contains (psize m) a x"
  shows "look (snd (del m (addr a))) x = Some 0"
proof (rule look_miss)
  show "rep (snd (del m (addr a))) (remove1 a tbl)" using del_rep [OF r a(1)] by simp
  fix b assume "b \<in> set (remove1 a tbl)"
  then have b: "b \<in> set tbl" "b \<noteq> a"
    using a(3) by auto
  then show "\<not> contains (psize (snd (del m (addr a)))) b x"
    using apart_unique [OF a(2) b(1) a(1)] x by (auto simp: del_psize)
qed

lemma put_del:
  assumes "rep m tbl" "addr a \<noteq> 0" "addr a \<notin> addr ` set tbl" "at m (addr a) = Some a"
  shows "rep (snd (del (snd (put m (addr a))) (addr a))) tbl"
  using put_rep [OF assms] del_rep [of "snd (put m (addr a))" "a # tbl" a] by auto

end

interpretation tbl: alloc_table represents mmu_insert_ate mmu_invalidate_ate mmu_lookup_ate
  mmu_page_size cell
proof unfold_locales
  fix m :: mmu and tbl a
  assume "represents m tbl" "a \<in> set tbl"
  then have "addr a \<in> set (map addr tbl)" "dseg m 0 (a_head m) (map addr tbl) 0"
    by (auto simp: represents_def table_def)
  then show "addr a \<noteq> 0" using dseg_cell_nonnull by blast
qed (simp_all add: represents_insert represents_remove represents_lookup mmu_page_size_frame)


subsection \<open>Properties\<close>

definition tiny_ate :: ate where
  "tiny_ate = \<lparr>addr = 64, n_pages = 2, l_pages = 0, c_pages = 0, d_pages = 0, base = 68,
     flags = [], prots = [], data = (\<lambda>_. 0)\<rparr>"

definition tiny_mmu :: mmu where
  "tiny_mmu = \<lparr>mmu_page_size = 4, a_head = 0, prv = (\<lambda>_. 0), nxt = (\<lambda>_. 0), cell = [64 \<mapsto> tiny_ate]\<rparr>"

lemma tiny_pre:
  "represents tiny_mmu []" "addr tiny_ate \<noteq> 0" "addr tiny_ate \<notin> addr ` set []"
  "cell tiny_mmu (addr tiny_ate) = Some tiny_ate" "apart (mmu_page_size tiny_mmu) [tiny_ate]"
  "contains (mmu_page_size tiny_mmu) tiny_ate 70" "addr tiny_ate = 64"
  by (simp_all add: represents_def table_def tiny_mmu_def tiny_ate_def region_end_def contains_def
      addw_def mulw_def SIZE_MOD_def)



text \<open>C8: Inserting an entry makes its addresses found, and removing it restores the table:
  after \<open>mmu_insert_ate\<close> every address of the new allocation is found there, after a
  following \<open>mmu_invalidate_ate\<close> none is, and the table is again the list it was, the
  links of all other entries included.\<close>
theorem insert_then_invalidate:
  assumes "represents m tbl" and "addr a \<noteq> 0" and "addr a \<notin> addr ` set tbl" and "cell m (addr a) = Some a"
    and "apart (mmu_page_size m) (a # tbl)" and "contains (mmu_page_size m) a x"
  shows "mmu_lookup_ate (snd (mmu_insert_ate m (addr a))) x = Some (addr a) \<and>
         represents (snd (mmu_insert_ate m (addr a))) (a # tbl) \<and>
         mmu_lookup_ate (snd (mmu_invalidate_ate (snd (mmu_insert_ate m (addr a))) (addr a))) x = Some 0 \<and>
         represents (snd (mmu_invalidate_ate (snd (mmu_insert_ate m (addr a))) (addr a))) tbl"
proof -
  let ?m1 = "snd (mmu_insert_ate m (addr a))"
  have r1: "represents ?m1 (a # tbl)" using tbl.put_rep [OF assms(1-4)] by blast
  have ps: "mmu_page_size ?m1 = mmu_page_size m" by (rule tbl.put_psize)
  have "distinct (map addr (a # tbl))" using r1 by (simp add: represents_def table_def)
  then have d: "distinct (a # tbl)" by (metis distinct_map)
  have "mmu_lookup_ate (snd (mmu_invalidate_ate ?m1 (addr a))) x = Some 0"
    by (rule tbl.look_after_del [OF r1 _ _ d]) (use assms(5,6) ps in simp_all)
  then show ?thesis
    using r1 tbl.look_after_put [OF assms] tbl.put_del [OF assms(1-4)] by blast
qed

theorem insert_then_invalidate_witness:
  "mmu_lookup_ate (snd (mmu_insert_ate tiny_mmu 64)) 70 = Some 64 \<and>
   mmu_lookup_ate (snd (mmu_invalidate_ate (snd (mmu_insert_ate tiny_mmu 64)) 64)) 70 = Some 0"
  using insert_then_invalidate [OF tiny_pre(1-6)] by (simp add: tiny_pre(7))

text \<open>Removing an entry anywhere in a longer table unlinks exactly that entry: the doubly
  linked list afterwards is the old one without it, in the same order.\<close>
theorem invalidate_unlinks:
  assumes "represents m tbl" and "a \<in> set tbl"
  shows "fst (mmu_invalidate_ate m (addr a)) = 0 \<and>
         represents (snd (mmu_invalidate_ate m (addr a))) (remove1 a tbl)"
  using assms by (rule tbl.del_rep)

theorem invalidate_unlinks_witness:
  "represents (snd (mmu_invalidate_ate (snd (mmu_insert_ate tiny_mmu 64)) 64)) []"
proof -
  have "represents (snd (mmu_insert_ate tiny_mmu 64)) [tiny_ate]"
    using tbl.put_rep [OF tiny_pre(1-4)] by (simp add: tiny_pre)
  from invalidate_unlinks [OF this, of tiny_ate] show ?thesis by (simp add: tiny_pre)
qed

end
