(* ===== verification/Options.thy ===== *)
theory Options
  imports Prelude
begin

text \<open>
  Run-time options (\<open>enum sbma_vmm_opt_code\<close> of \<open>src/include/sbma.h\<close>) and the parser
  of option strings (\<open>src/api/parse_optstr.c\<close>).  The specification (\<open>doc_opts\<close>) is written from the
  documentation of the options in \<open>src/include/sbma.h\<close> (lines 77 to 176): the table of the option bits by
  number, the alternatives of each option, what \<open>default\<close> stands for, and which choices are valid
  together.  It shares no table with the parser.  The lemmas in between read the parser's own
  table as a function of the tokens (\<open>opts_spec\<close>).
\<close>

subsection \<open>Option codes\<close>

definition VMM_RSDNT :: cint where "VMM_RSDNT = push_bit 0 1"
definition VMM_LZYRD :: cint where "VMM_LZYRD = push_bit 1 1"
definition VMM_ADMITD :: cint where "VMM_ADMITD = push_bit 2 1"
definition VMM_AGGCH :: cint where "VMM_AGGCH = push_bit 3 1"
definition VMM_GHOST :: cint where "VMM_GHOST = push_bit 4 1"
definition VMM_MERGE :: cint where "VMM_MERGE = push_bit 5 1"
definition VMM_METACH :: cint where "VMM_METACH = push_bit 6 1"
definition VMM_MLOCK :: cint where "VMM_MLOCK = push_bit 7 1"
definition VMM_CHECK :: cint where "VMM_CHECK = push_bit 8 1"
definition VMM_EXTRA :: cint where "VMM_EXTRA = push_bit 9 1"
definition VMM_OSVMM :: cint where "VMM_OSVMM = push_bit 10 1"
definition VMM_INVLD :: cint where "VMM_INVLD = push_bit 11 1"

lemmas vmm_opt_code =
  VMM_RSDNT_def VMM_LZYRD_def VMM_ADMITD_def VMM_AGGCH_def VMM_GHOST_def VMM_MERGE_def
  VMM_METACH_def VMM_MLOCK_def VMM_CHECK_def VMM_EXTRA_def VMM_OSVMM_def VMM_INVLD_def

lemma opt_bits [flag_bits]:
  "bit VMM_RSDNT n \<longleftrightarrow> n = 0" "bit VMM_LZYRD n \<longleftrightarrow> n = 1" "bit VMM_ADMITD n \<longleftrightarrow> n = 2"
  "bit VMM_AGGCH n \<longleftrightarrow> n = 3" "bit VMM_GHOST n \<longleftrightarrow> n = 4" "bit VMM_MERGE n \<longleftrightarrow> n = 5"
  "bit VMM_METACH n \<longleftrightarrow> n = 6" "bit VMM_MLOCK n \<longleftrightarrow> n = 7" "bit VMM_CHECK n \<longleftrightarrow> n = 8"
  "bit VMM_EXTRA n \<longleftrightarrow> n = 9" "bit VMM_OSVMM n \<longleftrightarrow> n = 10" "bit VMM_INVLD n \<longleftrightarrow> n = 11"
  by (simp_all only: vmm_opt_code bit_push_bit_iff bit_1_iff possible_bit_word) auto

lemma has_opt [flag_bits]:
  "has f VMM_RSDNT \<longleftrightarrow> bit f 0" "has f VMM_LZYRD \<longleftrightarrow> bit f 1" "has f VMM_ADMITD \<longleftrightarrow> bit f 2"
  "has f VMM_AGGCH \<longleftrightarrow> bit f 3" "has f VMM_GHOST \<longleftrightarrow> bit f 4" "has f VMM_MERGE \<longleftrightarrow> bit f 5"
  "has f VMM_METACH \<longleftrightarrow> bit f 6" "has f VMM_MLOCK \<longleftrightarrow> bit f 7" "has f VMM_CHECK \<longleftrightarrow> bit f 8"
  "has f VMM_EXTRA \<longleftrightarrow> bit f 9" "has f VMM_OSVMM \<longleftrightarrow> bit f 10" "has f VMM_INVLD \<longleftrightarrow> bit f 11"
  by (simp_all add: vmm_opt_code push_bit_of_1 flip: has_exp)

subsection \<open>Tokens\<close>

text \<open>
  \<open>strtok(str, ",")\<close>: skip delimiters, then the longest run without one; the rest of the
  string is what the next call continues with.
\<close>

definition strtok :: "string \<Rightarrow> (string \<times> string) option" where
  "strtok s = (let r = dropWhile (\<lambda>c. c = CHR '','') s in
     if r = [] then None
     else Some (takeWhile (\<lambda>c. c \<noteq> CHR '','') r, dropWhile (\<lambda>c. c \<noteq> CHR '','') r))"

lemma strtok_shorter: "strtok s = Some (t, r) \<Longrightarrow> length r < length s"
proof -
  assume "strtok s = Some (t, r)"
  then have d: "dropWhile (\<lambda>c. c = CHR '','') s \<noteq> []"
    and r: "r = dropWhile (\<lambda>c. c \<noteq> CHR '','') (dropWhile (\<lambda>c. c = CHR '','') s)"
    by (auto simp: strtok_def Let_def split: if_splits)
  let ?d = "dropWhile (\<lambda>c. c = CHR '','') s"
  have "hd ?d \<noteq> CHR '',''" using hd_dropWhile [OF d] by simp
  then have "r = dropWhile (\<lambda>c. c \<noteq> CHR '','') (tl ?d)" using d r by (cases ?d) auto
  then have "length r \<le> length (tl ?d)" by (metis length_dropWhile_le)
  also have "\<dots> < length ?d" using d by (cases ?d) auto
  also have "\<dots> \<le> length s" by (simp add: length_dropWhile_le)
  finally show ?thesis .
qed

text \<open>
  \<open>SBMA_OPTCMP\<close>: the string comparison, then the end-of-token test, then (only if both
  hold) the toggling of the group in \<open>seen\<close> and its test.  The result pairs the truth value
  with the new \<open>seen\<close>.
\<close>

definition strncmp_eq :: "string \<Rightarrow> string \<Rightarrow> nat \<Rightarrow> bool" where
  "strncmp_eq tok str num \<longleftrightarrow> take num tok = take num str"

definition SBMA_OPTCMP :: "cint \<Rightarrow> cint \<Rightarrow> string \<Rightarrow> string \<Rightarrow> nat \<Rightarrow> bool \<times> cint" where
  "SBMA_OPTCMP opt seen tok str num =
     (if strncmp_eq tok str num \<and> length tok = num
      then let seen' = seen XOR opt in (opt = (seen' AND opt), seen')
      else (False, seen))"

definition all_opts :: cint where
  "all_opts = VMM_RSDNT OR VMM_LZYRD OR VMM_AGGCH OR VMM_GHOST OR VMM_MERGE OR VMM_METACH OR
     VMM_MLOCK OR VMM_CHECK OR VMM_EXTRA OR VMM_OSVMM"

text \<open>The else-if chain: group, spelling, its length, and the bits the branch sets.\<close>

definition opt_chain :: "(cint \<times> string \<times> nat \<times> cint) list" where
  "opt_chain =
    [(VMM_RSDNT, ''evict'', 5, 0),
     (VMM_RSDNT, ''rsdnt'', 5, VMM_RSDNT),
     (VMM_LZYRD, ''aggrd'', 5, 0),
     (VMM_LZYRD, ''lzyrd'', 5, VMM_LZYRD),
     (VMM_ADMITD, ''admitr'', 6, 0),
     (VMM_ADMITD, ''admitd'', 6, VMM_ADMITD),
     (VMM_AGGCH, ''noaggch'', 7, 0),
     (VMM_AGGCH, ''aggch'', 5, VMM_AGGCH),
     (VMM_GHOST, ''noghost'', 7, 0),
     (VMM_GHOST, ''ghost'', 5, VMM_GHOST),
     (VMM_MERGE, ''nomerge'', 7, 0),
     (VMM_MERGE, ''merge'', 5, VMM_MERGE),
     (VMM_METACH, ''nometach'', 8, 0),
     (VMM_METACH, ''metach'', 6, VMM_METACH),
     (VMM_MLOCK, ''nomlock'', 7, 0),
     (VMM_MLOCK, ''mlock'', 5, VMM_MLOCK),
     (VMM_CHECK OR VMM_EXTRA, ''nocheck'', 7, 0),
     (VMM_CHECK OR VMM_EXTRA, ''check'', 5, VMM_CHECK),
     (VMM_CHECK OR VMM_EXTRA, ''extra'', 5, VMM_CHECK OR VMM_EXTRA),
     (VMM_OSVMM, ''noosvmm'', 7, 0),
     (VMM_OSVMM, ''osvmm'', 5, VMM_OSVMM),
     (all_opts, ''default'', 7, VMM_LZYRD OR VMM_MERGE)]"

text \<open>One pass of the loop over the tokens: \<open>None\<close> is the jump to \<open>CLEANUP\<close>.\<close>

fun opt_step :: "(cint \<times> string \<times> nat \<times> cint) list \<Rightarrow> string \<Rightarrow> cint \<Rightarrow> cint \<Rightarrow> (cint \<times> cint) option" where
  "opt_step [] tok opts seen = None"
| "opt_step ((m, str, n, v) # es) tok opts seen =
     (case SBMA_OPTCMP m seen tok str n of
        (True, seen') \<Rightarrow> Some (opts OR v, seen')
      | (False, seen') \<Rightarrow> opt_step es tok opts seen')"

function parse_loop :: "string \<Rightarrow> cint \<Rightarrow> cint \<Rightarrow> cint option" where
  "parse_loop s opts seen =
     (case strtok s of
        None \<Rightarrow> Some opts
      | Some (tok, rest) \<Rightarrow>
          (case opt_step opt_chain tok opts seen of
             None \<Rightarrow> None
           | Some (opts', seen') \<Rightarrow> parse_loop rest opts' seen'))"
  by pat_completeness auto
termination
  by (relation "measure (\<lambda>(s, opts, seen). length s)") (auto dest: strtok_shorter)

declare parse_loop.simps [simp del]

definition sbma_parse_optstr :: "string \<Rightarrow> cint" where
  "sbma_parse_optstr opt_str =
     (if length opt_str > 512 - 1 then VMM_INVLD
      else case parse_loop opt_str 0 0 of
        None \<Rightarrow> VMM_INVLD
      | Some opts \<Rightarrow>
          if VMM_OSVMM = (opts AND VMM_OSVMM) \<and> VMM_OSVMM \<noteq> opts then VMM_INVLD
          else if VMM_AGGCH = (opts AND (VMM_LZYRD OR VMM_AGGCH)) then VMM_INVLD
          else if VMM_EXTRA = (opts AND (VMM_CHECK OR VMM_EXTRA)) then VMM_INVLD
          else opts)"

subsection \<open>What an option string means\<close>

function tokens :: "string \<Rightarrow> string list" where
  "tokens s = (case strtok s of None \<Rightarrow> [] | Some (tok, rest) \<Rightarrow> tok # tokens rest)"
  by pat_completeness auto
termination
  by (relation "measure length") (auto dest: strtok_shorter)

declare tokens.simps [simp del]

definition entry :: "string \<Rightarrow> (cint \<times> string \<times> nat \<times> cint) option" where
  "entry t = find (\<lambda>(m, str, n, v). str = t) opt_chain"

definition known :: "string \<Rightarrow> bool" where
  "known t \<longleftrightarrow> entry t \<noteq> None"

definition group :: "string \<Rightarrow> cint" where
  "group t = (case entry t of Some (m, str, n, v) \<Rightarrow> m | None \<Rightarrow> 0)"

definition sets :: "string \<Rightarrow> cint" where
  "sets t = (case entry t of Some (m, str, n, v) \<Rightarrow> v | None \<Rightarrow> 0)"

definition apart_groups :: "string list \<Rightarrow> bool" where
  "apart_groups ts \<longleftrightarrow> sorted_wrt (\<lambda>s t. group s AND group t = 0) ts"

definition opts_spec :: "string list \<Rightarrow> cint option" where
  "opts_spec ts = (if list_all known ts \<and> apart_groups ts then Some (foldr (OR) (map sets ts) 0) else None)"

text \<open>What the tests at the end of the parser let through, as the code has them; the comment at the second
  test says the opposite (\<open>accepted_combinations\<close>).  The rules of the documentation are \<open>doc_valid\<close> below.\<close>

definition valid_opts :: "cint \<Rightarrow> bool" where
  "valid_opts w \<longleftrightarrow> \<not> has w VMM_INVLD \<and>
     (has w VMM_OSVMM \<longrightarrow> w = VMM_OSVMM) \<and>
     (has w VMM_AGGCH \<longrightarrow> has w VMM_LZYRD) \<and>
     (has w VMM_EXTRA \<longrightarrow> has w VMM_CHECK)"

lemma toggle_test: "(m :: cint) = ((seen XOR m) AND m) \<longleftrightarrow> seen AND m = 0"
  by (auto simp: bit_eq_iff bit_xor_iff bit_and_iff)

lemma toggle_fresh: "(seen :: cint) AND m = 0 \<Longrightarrow> seen XOR m = seen OR m"
  by (auto simp: bit_eq_iff bit_xor_iff bit_and_iff bit_or_iff)

lemma fresh_or: "((a :: cint) OR b) AND m = 0 \<longleftrightarrow> a AND m = 0 \<and> b AND m = 0"
  by (auto simp: bit_eq_iff bit_and_iff bit_or_iff)

lemma SBMA_OPTCMP_eq:
  "n = length str \<Longrightarrow> SBMA_OPTCMP m seen tok str n =
     (if tok = str then (seen AND m = 0, seen XOR m) else (False, seen))"
  by (auto simp: SBMA_OPTCMP_def strncmp_eq_def toggle_test Let_def)

lemma opt_step_unknown:
  "\<forall>(m, str, n, v)\<in>set es. n = length str \<and> str \<noteq> tok \<Longrightarrow> opt_step es tok opts seen = None"
  by (induction es arbitrary: seen) (auto simp: SBMA_OPTCMP_eq)

lemma opt_step_find:
  assumes "\<forall>(m, str, n, v)\<in>set es. n = length str" and "distinct (map (\<lambda>(m, str, n, v). str) es)"
  shows "opt_step es tok opts seen =
    (case find (\<lambda>(m, str, n, v). str = tok) es of
       None \<Rightarrow> None
     | Some (m, str, n, v) \<Rightarrow> if seen AND m = 0 then Some (opts OR v, seen OR m) else None)"
  using assms
proof (induction es arbitrary: seen)
  case (Cons e es)
  obtain m str n v where e: "e = (m, str, n, v)" by (cases e)
  show ?case
  proof (cases "str = tok")
    case True
    have "opt_step es tok opts (seen XOR m) = None"
      by (rule opt_step_unknown) (use Cons.prems e True in \<open>force simp: image_iff\<close>)
    with Cons.prems e True show ?thesis by (simp add: SBMA_OPTCMP_eq toggle_fresh)
  next
    case False
    with Cons e show ?thesis by (simp add: SBMA_OPTCMP_eq)
  qed
qed simp

lemma opt_chain_lengths: "\<forall>(m, str, n, v)\<in>set opt_chain. n = length str"
  by (simp add: opt_chain_def)

lemma opt_chain_distinct: "distinct (map (\<lambda>(m, str, n, v). str) opt_chain)"
  by (simp add: opt_chain_def)

lemma opt_step_eq:
  "opt_step opt_chain tok opts seen =
     (if known tok \<and> seen AND group tok = 0 then Some (opts OR sets tok, seen OR group tok) else None)"
  by (simp add: opt_step_find [OF opt_chain_lengths opt_chain_distinct] known_def group_def sets_def
      flip: entry_def split: option.splits)

lemma parse_loop_eq:
  "parse_loop s opts seen =
     (if list_all known (tokens s) \<and> apart_groups (tokens s) \<and>
         (\<forall>t\<in>set (tokens s). seen AND group t = 0)
      then Some (opts OR foldr (OR) (map sets (tokens s)) 0) else None)"
proof (induction s opts seen rule: parse_loop.induct)
  case (1 s opts seen)
  show ?case
  proof (cases "strtok s")
    case None
    then show ?thesis by (simp add: parse_loop.simps [of s] tokens.simps [of s] apart_groups_def)
  next
    case (Some tr)
    obtain tok rest where tr: "tr = (tok, rest)" by (cases tr)
    have toks: "tokens s = tok # tokens rest" using Some tr by (simp add: tokens.simps [of s])
    show ?thesis
    proof (cases "known tok \<and> seen AND group tok = 0")
      case True
      then have "opt_step opt_chain tok opts seen = Some (opts OR sets tok, seen OR group tok)"
        by (simp add: opt_step_eq)
      from 1 [OF Some tr [symmetric] this refl] this True Some tr show ?thesis
        by (auto simp: parse_loop.simps [of s] toks apart_groups_def fresh_or or.assoc)
    next
      case False
      with Some tr show ?thesis
        by (auto simp: parse_loop.simps [of s] opt_step_eq toks)
    qed
  qed
qed

lemma parse_loop_spec: "parse_loop s 0 0 = opts_spec (tokens s)"
  by (simp add: parse_loop_eq opts_spec_def)

lemma bit_foldr_or: "bit (foldr (OR) ws (0 :: cint)) n \<longleftrightarrow> (\<exists>w\<in>set ws. bit w n)"
  by (induction ws) (auto simp: bit_or_iff)

lemma sets_small: "bit (sets t) n \<Longrightarrow> n < 11"
proof -
  have "\<forall>(m, str, n, v)\<in>set opt_chain. \<forall>n. bit v n \<longrightarrow> n < 11"
    by (simp add: opt_chain_def bit_or_iff flag_bits)
  then have "\<And>m str k v. (m, str, k, v) \<in> set opt_chain \<Longrightarrow> bit v n \<Longrightarrow> n < 11"
    by blast
  moreover have "entry t = Some e \<Longrightarrow> e \<in> set opt_chain" for e
    unfolding entry_def by (metis find_Some_iff nth_mem)
  ultimately show "bit (sets t) n \<Longrightarrow> n < 11"
    by (auto simp: sets_def split: option.splits)
qed

lemma opts_spec_small: "opts_spec ts = Some w \<Longrightarrow> bit w n \<Longrightarrow> n < 11"
  by (auto simp: opts_spec_def bit_foldr_or split: if_splits dest: sets_small)

lemma aggch_test: "VMM_AGGCH = (w AND (VMM_LZYRD OR VMM_AGGCH)) \<longleftrightarrow> bit w 3 \<and> \<not> bit w 1"
  unfolding VMM_AGGCH_def VMM_LZYRD_def push_bit_of_1 by (rule exp_and_pair) simp_all

lemma extra_test: "VMM_EXTRA = (w AND (VMM_CHECK OR VMM_EXTRA)) \<longleftrightarrow> bit w 9 \<and> \<not> bit w 8"
  unfolding VMM_EXTRA_def VMM_CHECK_def push_bit_of_1 by (rule exp_and_pair) simp_all

lemma osvmm_test: "VMM_OSVMM = (w AND VMM_OSVMM) \<longleftrightarrow> bit w 10"
  by (simp add: flag_bits flip: has_def)

lemma parse_optstr_eq:
  "sbma_parse_optstr s =
     (case opts_spec (tokens s) of
        Some w \<Rightarrow> if length s \<le> 511 \<and> valid_opts w then w else VMM_INVLD
      | None \<Rightarrow> VMM_INVLD)"
  by (auto simp: sbma_parse_optstr_def parse_loop_spec valid_opts_def aggch_test extra_test osvmm_test
      has_opt split: option.splits dest: opts_spec_small)

subsection \<open>Printing an option word\<close>

fun join :: "string list \<Rightarrow> string" where
  "join [] = []"
| "join [t] = t"
| "join (t # ts) = t @ CHR '','' # join ts"

definition plain :: "string \<Rightarrow> bool" where
  "plain t \<longleftrightarrow> t \<noteq> [] \<and> CHR '','' \<notin> set t"

lemma strtok_plain: "plain t \<Longrightarrow> strtok (t @ r) =
    (if r = [] \<or> hd r = CHR '','' then Some (t, r) else strtok (t @ r))"
  by (cases r; cases t) (auto simp: plain_def strtok_def Let_def takeWhile_append dropWhile_append)

lemma tokens_comma: "tokens (CHR '','' # r) = tokens r"
  by (simp add: tokens.simps [of "CHR '','' # r"] tokens.simps [of r] strtok_def)

lemma tokens_join: "list_all plain ts \<Longrightarrow> tokens (join ts) = ts"
proof (induction ts rule: join.induct)
  case 1
  show ?case by (simp add: tokens.simps strtok_def)
next
  case (2 t)
  then have "strtok t = Some (t, [])" using strtok_plain [of t "[]"] by simp
  moreover have "strtok [] = None" by (simp add: strtok_def)
  ultimately show ?case by (simp add: tokens.simps [of t] tokens.simps [of "[]"])
next
  case (3 t u us)
  then have "strtok (join (t # u # us)) = Some (t, CHR '','' # join (u # us))"
    using strtok_plain [of t "CHR '','' # join (u # us)"] by simp
  with 3 show ?case by (simp add: tokens.simps [of "t @ CHR '','' # join (u # us)"] tokens_comma)
qed

lemma length_join: "length (join ts) \<le> sum_list (map (\<lambda>t. Suc (length t)) ts)"
  by (induction ts rule: join.induct) auto

definition pick :: "cint \<Rightarrow> nat \<Rightarrow> string \<Rightarrow> string list" where
  "pick w n t = (if bit w n then [t] else [])"

definition pick_check :: "cint \<Rightarrow> string list" where
  "pick_check w = (if bit w 9 then [''extra''] else pick w 8 ''check'')"

lemma pick_simps [simp]:
  "sorted_wrt P (pick w n t)" "(\<forall>x\<in>set (pick w n t). Q x) \<longleftrightarrow> (bit w n \<longrightarrow> Q t)"
  "sorted_wrt P (pick_check w)"
  "(\<forall>x\<in>set (pick_check w). Q x) \<longleftrightarrow> (if bit w 9 then Q ''extra'' else bit w 8 \<longrightarrow> Q ''check'')"
  by (simp_all add: pick_def pick_check_def)

definition opt_tokens :: "cint \<Rightarrow> string list" where
  "opt_tokens w =
     pick w 0 ''rsdnt'' @ pick w 1 ''lzyrd'' @ pick w 2 ''admitd'' @ pick w 3 ''aggch'' @
     pick w 4 ''ghost'' @ pick w 5 ''merge'' @ pick w 6 ''metach'' @ pick w 7 ''mlock'' @
     pick_check w @ pick w 10 ''osvmm''"

definition show_opts :: "cint \<Rightarrow> string" where
  "show_opts w = join (opt_tokens w)"

lemma entries:
  "entry ''rsdnt'' = Some (VMM_RSDNT, ''rsdnt'', 5, VMM_RSDNT)"
  "entry ''lzyrd'' = Some (VMM_LZYRD, ''lzyrd'', 5, VMM_LZYRD)"
  "entry ''admitd'' = Some (VMM_ADMITD, ''admitd'', 6, VMM_ADMITD)"
  "entry ''aggch'' = Some (VMM_AGGCH, ''aggch'', 5, VMM_AGGCH)"
  "entry ''ghost'' = Some (VMM_GHOST, ''ghost'', 5, VMM_GHOST)"
  "entry ''merge'' = Some (VMM_MERGE, ''merge'', 5, VMM_MERGE)"
  "entry ''metach'' = Some (VMM_METACH, ''metach'', 6, VMM_METACH)"
  "entry ''mlock'' = Some (VMM_MLOCK, ''mlock'', 5, VMM_MLOCK)"
  "entry ''check'' = Some (VMM_CHECK OR VMM_EXTRA, ''check'', 5, VMM_CHECK)"
  "entry ''extra'' = Some (VMM_CHECK OR VMM_EXTRA, ''extra'', 5, VMM_CHECK OR VMM_EXTRA)"
  "entry ''osvmm'' = Some (VMM_OSVMM, ''osvmm'', 5, VMM_OSVMM)"
  by (simp_all add: entry_def opt_chain_def)

definition print_tokens :: "string list" where
  "print_tokens = [''rsdnt'', ''lzyrd'', ''admitd'', ''aggch'', ''ghost'', ''merge'', ''metach'',
     ''mlock'', ''extra'', ''check'', ''osvmm'']"

lemma opt_tokens_set: "set (opt_tokens w) \<subseteq> set print_tokens"
  by (auto simp: opt_tokens_def pick_def pick_check_def print_tokens_def)

lemma opt_tokens_plain: "list_all plain (opt_tokens w)"
proof -
  have "list_all plain print_tokens" by (simp add: print_tokens_def plain_def)
  then show ?thesis using opt_tokens_set [of w] by (auto simp: list_all_iff)
qed

lemma opt_tokens_known: "list_all known (opt_tokens w)"
proof -
  have "list_all known print_tokens" by (simp add: print_tokens_def known_def entries)
  then show ?thesis using opt_tokens_set [of w] by (auto simp: list_all_iff)
qed

lemma opt_tokens_apart: "apart_groups (opt_tokens w)"
  by (simp add: apart_groups_def opt_tokens_def sorted_wrt_append ball_Un group_def entries vmm_opt_code)

lemma opt_tokens_length: "sum_list (map (\<lambda>t. Suc (length t)) (opt_tokens w)) \<le> 70"
  by (simp add: opt_tokens_def pick_def pick_check_def)

lemma bex_pick [simp]:
  "(\<exists>x\<in>set (pick w n t). Q x) \<longleftrightarrow> bit w n \<and> Q t"
  "(\<exists>x\<in>set (pick_check w). Q x) \<longleftrightarrow> bit w 9 \<and> Q ''extra'' \<or> \<not> bit w 9 \<and> bit w 8 \<and> Q ''check''"
  by (simp_all add: pick_def pick_check_def)

lemma opt_tokens_bits:
  "bit (foldr (OR) (map sets (opt_tokens w)) 0) n \<longleftrightarrow>
     bit w 0 \<and> n = 0 \<or> bit w 1 \<and> n = 1 \<or> bit w 2 \<and> n = 2 \<or> bit w 3 \<and> n = 3 \<or>
     bit w 4 \<and> n = 4 \<or> bit w 5 \<and> n = 5 \<or> bit w 6 \<and> n = 6 \<or> bit w 7 \<and> n = 7 \<or>
     (bit w 9 \<and> (n = 8 \<or> n = 9) \<or> \<not> bit w 9 \<and> bit w 8 \<and> n = 8) \<or> bit w 10 \<and> n = 10"
  unfolding bit_foldr_or opt_tokens_def set_map bex_simps set_append bex_Un bex_pick
  by (simp only: sets_def entries option.case prod.case bit_or_iff flag_bits)

lemma opt_tokens_sets:
  assumes small: "\<And>n. bit w n \<Longrightarrow> n < 11" and extra: "bit w 9 \<Longrightarrow> bit w 8"
  shows "foldr (OR) (map sets (opt_tokens w)) 0 = w"
proof (rule bit_word_eqI)
  fix n assume "n < LENGTH(32)"
  show "bit (foldr (OR) (map sets (opt_tokens w)) 0) n \<longleftrightarrow> bit w n"
  proof (cases "n < 11")
    case True
    then have "n \<in> {10, 9, 8, 7, 6, 5, 4, 3, 2, 1, 0}" by (simp, arith)
    with extra show ?thesis unfolding opt_tokens_bits by (elim insertE) auto
  qed (use small in \<open>auto simp: opt_tokens_bits\<close>)
qed

lemma parse_show:
  assumes v: "valid_opts w" and small: "\<And>n. bit w n \<Longrightarrow> n < 11"
  shows "sbma_parse_optstr (show_opts w) = w"
proof -
  have "foldr (OR) (map sets (opt_tokens w)) 0 = w"
    by (rule opt_tokens_sets) (use small v in \<open>auto simp: valid_opts_def has_opt\<close>)
  then have "opts_spec (tokens (show_opts w)) = Some w"
    by (simp add: opts_spec_def show_opts_def tokens_join opt_tokens_plain opt_tokens_known
        opt_tokens_apart)
  moreover have "length (show_opts w) \<le> 511"
    using length_join [of "opt_tokens w"] opt_tokens_length [of w] by (simp add: show_opts_def)
  ultimately show ?thesis using v by (simp add: parse_optstr_eq)
qed


subsection \<open>The options as documented\<close>

text \<open>The alternatives of each option with the numbers of the bits that they set.\<close>

definition doc_groups :: "(string \<times> nat list) list list" where
  "doc_groups =
    [[(''evict'', []), (''rsdnt'', [0])],
     [(''aggrd'', []), (''lzyrd'', [1])],
     [(''admitr'', []), (''admitd'', [2])],
     [(''noaggch'', []), (''aggch'', [3])],
     [(''noghost'', []), (''ghost'', [4])],
     [(''nomerge'', []), (''merge'', [5])],
     [(''nometach'', []), (''metach'', [6])],
     [(''nomlock'', []), (''mlock'', [7])],
     [(''nocheck'', []), (''check'', [8]), (''extra'', [8, 9])],
     [(''noosvmm'', []), (''osvmm'', [10])]]"

definition doc_default :: "string list" where
  "doc_default = [''evict'', ''lzyrd'', ''admitr'', ''noaggch'', ''noghost'', ''merge'', ''nometach'', ''nomlock'', ''nocheck'',
     ''noosvmm'']"

definition doc_choices :: "string \<Rightarrow> string list" where
  "doc_choices t = (if t = ''default'' then doc_default else [t])"

definition doc_alternative :: "string \<Rightarrow> bool" where
  "doc_alternative t \<longleftrightarrow> t \<in> fst ` set (concat doc_groups)"

definition same_option :: "string \<Rightarrow> string \<Rightarrow> bool" where
  "same_option x y \<longleftrightarrow> list_ex (\<lambda>g. x \<in> fst ` set g \<and> y \<in> fst ` set g) doc_groups"

definition doc_bits :: "string \<Rightarrow> nat list" where
  "doc_bits x = concat (map snd (filter (\<lambda>e. fst e = x) (concat doc_groups)))"

definition doc_valid :: "string list \<Rightarrow> bool" where
  "doc_valid cs \<longleftrightarrow>
     (''osvmm'' \<in> set cs \<longrightarrow> list_all (\<lambda>x. doc_bits x = [] \<or> x = ''osvmm'') cs) \<and>
     (''aggch'' \<in> set cs \<longrightarrow> ''lzyrd'' \<in> set cs)"

definition bits_word :: "nat list \<Rightarrow> cint" where
  "bits_word ns = foldr (\<lambda>n w. push_bit n 1 OR w) ns 0"

definition doc_opts :: "string list \<Rightarrow> cint" where
  "doc_opts ts = (let cs = concat (map doc_choices ts) in
     if list_all doc_alternative cs \<and> sorted_wrt (\<lambda>x y. \<not> same_option x y) cs \<and> doc_valid cs
     then bits_word (concat (map doc_bits cs))
     else VMM_INVLD)"

text \<open>A string cut at its commas, empty pieces left out.\<close>

fun doc_cut :: "string \<Rightarrow> string list" where
  "doc_cut [] = [[]]"
| "doc_cut (c # cs) = (if c = CHR '','' then [] # doc_cut cs else (case doc_cut cs of [] \<Rightarrow> [[c]] | t # ts \<Rightarrow> (c # t) # ts))"

definition doc_fields :: "string \<Rightarrow> string list" where
  "doc_fields s = filter (\<lambda>t. t \<noteq> []) (doc_cut s)"

lemma cut_run: "doc_cut s = takeWhile (\<lambda>c. c \<noteq> CHR '','') s #
    (case dropWhile (\<lambda>c. c \<noteq> CHR '','') s of [] \<Rightarrow> [] | c # r \<Rightarrow> doc_cut r)"
  by (induction s) (auto split: list.splits)

lemma tokens_run:
  "c \<noteq> CHR '','' \<Longrightarrow> tokens (c # s) =
     (c # takeWhile (\<lambda>c. c \<noteq> CHR '','') s) # tokens (dropWhile (\<lambda>c. c \<noteq> CHR '','') s)"
  by (simp add: tokens.simps [of "c # s"] strtok_def)

lemma tokens_fields: "tokens s = doc_fields s"
proof (induction s rule: length_induct)
  case (1 s)
  show ?case
  proof (cases s)
    case Nil
    then show ?thesis by (simp add: tokens.simps strtok_def doc_fields_def)
  next
    case (Cons c r)
    show ?thesis
    proof (cases "c = CHR '',''")
      case True
      then show ?thesis using 1 Cons by (simp add: tokens_comma doc_fields_def)
    next
      case False
      let ?d = "dropWhile (\<lambda>c. c \<noteq> CHR '','') r"
      have "length ?d < length s" using Cons by (simp add: less_Suc_eq_le length_dropWhile_le)
      then have "tokens ?d = doc_fields ?d" using 1 by blast
      moreover have "doc_fields ?d = filter (\<lambda>t. t \<noteq> []) (case ?d of [] \<Rightarrow> [] | c # r \<Rightarrow> doc_cut r)"
      proof (cases ?d)
        case (Cons e t)
        then have "e = CHR '',''" using hd_dropWhile [of "\<lambda>c. c \<noteq> CHR '',''" r] by auto
        with Cons show ?thesis by (simp add: doc_fields_def)
      next
        case Nil
        then show ?thesis by (simp only: doc_fields_def doc_cut.simps list.case) simp
      qed
      ultimately show ?thesis using False Cons by (simp add: tokens_run doc_fields_def cut_run [of r])
    qed
  qed
qed

text \<open>The parser's table against the documented one, token by token.\<close>

definition doc_names :: "string list" where
  "doc_names = ''default'' # map fst (concat doc_groups)"

lemma known_names: "known t \<longleftrightarrow> t \<in> set doc_names"
  by (auto simp: known_def entry_def opt_chain_def doc_names_def doc_groups_def)

lemma known_doc: "known t \<longleftrightarrow> list_all doc_alternative (doc_choices t)"
proof -
  have "list_all doc_alternative doc_default" by code_simp
  then show ?thesis by (auto simp: known_names doc_names_def doc_choices_def doc_alternative_def image_iff)
qed

lemma group_names:
  "group ''default'' = 2043" "group ''evict'' = 1" "group ''rsdnt'' = 1" "group ''aggrd'' = 2" "group ''lzyrd'' = 2"
  "group ''admitr'' = 4" "group ''admitd'' = 4" "group ''noaggch'' = 8" "group ''aggch'' = 8" "group ''noghost'' = 16"
  "group ''ghost'' = 16" "group ''nomerge'' = 32" "group ''merge'' = 32" "group ''nometach'' = 64" "group ''metach'' = 64"
  "group ''nomlock'' = 128" "group ''mlock'' = 128" "group ''nocheck'' = 768" "group ''check'' = 768" "group ''extra'' = 768"
  "group ''noosvmm'' = 1024" "group ''osvmm'' = 1024"
  by (simp_all add: group_def entry_def opt_chain_def all_opts_def vmm_opt_code)

lemma sets_names:
  "sets ''default'' = 34" "sets ''evict'' = 0" "sets ''rsdnt'' = 1" "sets ''aggrd'' = 0" "sets ''lzyrd'' = 2"
  "sets ''admitr'' = 0" "sets ''admitd'' = 4" "sets ''noaggch'' = 0" "sets ''aggch'' = 8" "sets ''noghost'' = 0"
  "sets ''ghost'' = 16" "sets ''nomerge'' = 0" "sets ''merge'' = 32" "sets ''nometach'' = 0" "sets ''metach'' = 64"
  "sets ''nomlock'' = 0" "sets ''mlock'' = 128" "sets ''nocheck'' = 0" "sets ''check'' = 256" "sets ''extra'' = 768"
  "sets ''noosvmm'' = 0" "sets ''osvmm'' = 1024"
  by (simp_all add: sets_def entry_def opt_chain_def vmm_opt_code)

lemma doc_bits_names:
  "doc_bits ''evict'' = []" "doc_bits ''rsdnt'' = [0]" "doc_bits ''aggrd'' = []" "doc_bits ''lzyrd'' = [1]"
  "doc_bits ''admitr'' = []" "doc_bits ''admitd'' = [2]" "doc_bits ''noaggch'' = []" "doc_bits ''aggch'' = [3]"
  "doc_bits ''noghost'' = []" "doc_bits ''ghost'' = [4]" "doc_bits ''nomerge'' = []" "doc_bits ''merge'' = [5]"
  "doc_bits ''nometach'' = []" "doc_bits ''metach'' = [6]" "doc_bits ''nomlock'' = []" "doc_bits ''mlock'' = [7]"
  "doc_bits ''nocheck'' = []" "doc_bits ''check'' = [8]" "doc_bits ''extra'' = [8, 9]" "doc_bits ''noosvmm'' = []"
  "doc_bits ''osvmm'' = [10]"
  by (simp_all add: doc_bits_def doc_groups_def)

lemma same_option_names:
  "same_option ''evict'' y \<longleftrightarrow> y = ''evict'' \<or> y = ''rsdnt''"
  "same_option ''rsdnt'' y \<longleftrightarrow> y = ''evict'' \<or> y = ''rsdnt''"
  "same_option ''aggrd'' y \<longleftrightarrow> y = ''aggrd'' \<or> y = ''lzyrd''"
  "same_option ''lzyrd'' y \<longleftrightarrow> y = ''aggrd'' \<or> y = ''lzyrd''"
  "same_option ''admitr'' y \<longleftrightarrow> y = ''admitr'' \<or> y = ''admitd''"
  "same_option ''admitd'' y \<longleftrightarrow> y = ''admitr'' \<or> y = ''admitd''"
  "same_option ''noaggch'' y \<longleftrightarrow> y = ''noaggch'' \<or> y = ''aggch''"
  "same_option ''aggch'' y \<longleftrightarrow> y = ''noaggch'' \<or> y = ''aggch''"
  "same_option ''noghost'' y \<longleftrightarrow> y = ''noghost'' \<or> y = ''ghost''"
  "same_option ''ghost'' y \<longleftrightarrow> y = ''noghost'' \<or> y = ''ghost''"
  "same_option ''nomerge'' y \<longleftrightarrow> y = ''nomerge'' \<or> y = ''merge''"
  "same_option ''merge'' y \<longleftrightarrow> y = ''nomerge'' \<or> y = ''merge''"
  "same_option ''nometach'' y \<longleftrightarrow> y = ''nometach'' \<or> y = ''metach''"
  "same_option ''metach'' y \<longleftrightarrow> y = ''nometach'' \<or> y = ''metach''"
  "same_option ''nomlock'' y \<longleftrightarrow> y = ''nomlock'' \<or> y = ''mlock''"
  "same_option ''mlock'' y \<longleftrightarrow> y = ''nomlock'' \<or> y = ''mlock''"
  "same_option ''nocheck'' y \<longleftrightarrow> y = ''nocheck'' \<or> y = ''check'' \<or> y = ''extra''"
  "same_option ''check'' y \<longleftrightarrow> y = ''nocheck'' \<or> y = ''check'' \<or> y = ''extra''"
  "same_option ''extra'' y \<longleftrightarrow> y = ''nocheck'' \<or> y = ''check'' \<or> y = ''extra''"
  "same_option ''noosvmm'' y \<longleftrightarrow> y = ''noosvmm'' \<or> y = ''osvmm''"
  "same_option ''osvmm'' y \<longleftrightarrow> y = ''noosvmm'' \<or> y = ''osvmm''"
  by (auto simp: same_option_def doc_groups_def)

definition doc_outside :: "string \<Rightarrow> string \<Rightarrow> bool" where
  "doc_outside s t \<longleftrightarrow> s = ''default'' \<and> (t = ''admitr'' \<or> t = ''admitd'')"

definition doc_clash :: "string \<Rightarrow> string \<Rightarrow> bool" where
  "doc_clash s t \<longleftrightarrow> list_ex (\<lambda>x. list_ex (same_option x) (doc_choices t)) (doc_choices s)"

lemma names_groups:
  "s \<in> set doc_names \<Longrightarrow> t \<in> set doc_names \<Longrightarrow> \<not> doc_outside s t \<Longrightarrow> \<not> doc_outside t s \<Longrightarrow> group s AND group t = 0 \<longleftrightarrow> \<not> doc_clash s t"
proof -
  have "list_all (\<lambda>s. list_all (\<lambda>t. doc_outside s t \<or> doc_outside t s \<or> (group s AND group t = 0 \<longleftrightarrow> \<not> doc_clash s t)) doc_names) doc_names"
    by (simp add: doc_names_def doc_groups_def group_names doc_clash_def same_option_names doc_choices_def doc_default_def doc_outside_def)
  then show "s \<in> set doc_names \<Longrightarrow> t \<in> set doc_names \<Longrightarrow> \<not> doc_outside s t \<Longrightarrow> \<not> doc_outside t s \<Longrightarrow> group s AND group t = 0 \<longleftrightarrow> \<not> doc_clash s t"
    unfolding list_all_iff by blast
qed

lemma sorted_wrt_concat:
  "sorted_wrt P (concat xss) \<longleftrightarrow> list_all (sorted_wrt P) xss \<and> sorted_wrt (\<lambda>xs ys. \<forall>x\<in>set xs. \<forall>y\<in>set ys. P x y) xss"
  by (induction xss) (auto simp: sorted_wrt_append)

lemma choices_apart: "sorted_wrt (\<lambda>x y. \<not> same_option x y) (doc_choices t)"
proof -
  have "sorted_wrt (\<lambda>x y. \<not> same_option x y) doc_default" by code_simp
  then show ?thesis by (simp add: doc_choices_def)
qed

lemma apart_doc:
  assumes "list_all known ts" and "\<not> (''default'' \<in> set ts \<and> (''admitr'' \<in> set ts \<or> ''admitd'' \<in> set ts))"
  shows "apart_groups ts \<longleftrightarrow> sorted_wrt (\<lambda>x y. \<not> same_option x y) (concat (map doc_choices ts))"
proof -
  have "group s AND group t = 0 \<longleftrightarrow> (\<forall>x\<in>set (doc_choices s). \<forall>y\<in>set (doc_choices t). \<not> same_option x y)"
    if "s \<in> set ts" "t \<in> set ts" for s t
    using names_groups [of s t] that assms by (auto simp: list_all_iff list_ex_iff known_names doc_outside_def doc_clash_def)
  then have "apart_groups ts \<longleftrightarrow> sorted_wrt (\<lambda>s t. \<forall>x\<in>set (doc_choices s). \<forall>y\<in>set (doc_choices t). \<not> same_option x y) ts"
    unfolding apart_groups_def by (auto intro: sorted_wrt_mono_rel [rotated])
  then show ?thesis by (simp add: sorted_wrt_concat sorted_wrt_map list_all_iff choices_apart)
qed

lemma bit_bits_word: "bit (bits_word ns) k \<longleftrightarrow> k \<in> set ns \<and> k < 32"
  unfolding bits_word_def by (induction ns) (auto simp: bit_or_iff bit_exp_iff)

lemma names_sets: "t \<in> set doc_names \<Longrightarrow> sets t = bits_word (concat (map doc_bits (doc_choices t)))"
proof -
  have "\<forall>t\<in>set doc_names. sets t = bits_word (concat (map doc_bits (doc_choices t)))"
    by (simp add: doc_names_def doc_groups_def sets_names doc_bits_names doc_choices_def doc_default_def bits_word_def)
  then show "t \<in> set doc_names \<Longrightarrow> sets t = bits_word (concat (map doc_bits (doc_choices t)))" by blast
qed

lemma doc_bits_iff:
  "n \<in> set (doc_bits x) \<longleftrightarrow>
     x = ''rsdnt'' \<and> n = 0 \<or> x = ''lzyrd'' \<and> n = 1 \<or> x = ''admitd'' \<and> n = 2 \<or> x = ''aggch'' \<and> n = 3 \<or> x = ''ghost'' \<and> n = 4 \<or>
     x = ''merge'' \<and> n = 5 \<or> x = ''metach'' \<and> n = 6 \<or> x = ''mlock'' \<and> n = 7 \<or> x = ''check'' \<and> n = 8 \<or>
     x = ''extra'' \<and> (n = 8 \<or> n = 9) \<or> x = ''osvmm'' \<and> n = 10"
proof -
  have "n \<in> set (doc_bits x) \<longleftrightarrow> (\<exists>ns. (x, ns) \<in> set (concat doc_groups) \<and> n \<in> set ns)"
    unfolding doc_bits_def by (force simp: image_iff)
  then show ?thesis by (simp add: doc_groups_def conj_disj_distribR ex_disj_distrib)
qed

lemma doc_bits_small: "n \<in> set (doc_bits x) \<Longrightarrow> n < 11"
  unfolding doc_bits_iff by (elim disjE conjE) simp_all

lemma doc_bits_of:
  "10 \<in> set (doc_bits x) \<longleftrightarrow> x = ''osvmm''" "3 \<in> set (doc_bits x) \<longleftrightarrow> x = ''aggch''" "1 \<in> set (doc_bits x) \<longleftrightarrow> x = ''lzyrd''"
  "9 \<in> set (doc_bits x) \<Longrightarrow> 8 \<in> set (doc_bits x)" "n \<in> set (doc_bits ''osvmm'') \<Longrightarrow> n = 10"
  by (simp_all add: doc_bits_iff)

lemma doc_word_sets:
  assumes "list_all known ts"
  shows "foldr (OR) (map sets ts) 0 = bits_word (concat (map doc_bits (concat (map doc_choices ts))))"
proof (rule bit_word_eqI)
  fix n
  show "bit (foldr (OR) (map sets ts) 0) n \<longleftrightarrow> bit (bits_word (concat (map doc_bits (concat (map doc_choices ts))))) n"
    using assms unfolding bit_foldr_or bit_bits_word by (auto simp: list_all_iff known_names names_sets bit_bits_word)
qed

lemma doc_alone:
  assumes b: "\<And>n. bit w n \<longleftrightarrow> (\<exists>x\<in>set cs. n \<in> set (doc_bits x))" and "''osvmm'' \<in> set cs"
  shows "w = VMM_OSVMM \<longleftrightarrow> (\<forall>x\<in>set cs. doc_bits x = [] \<or> x = ''osvmm'')"
proof
  assume w: "w = VMM_OSVMM"
  have "x = ''osvmm''" if "x \<in> set cs" "n \<in> set (doc_bits x)" for x n
  proof -
    have "bit w n" using b that by blast
    then show ?thesis using that(2) by (simp add: w opt_bits doc_bits_of(1))
  qed
  then show "\<forall>x\<in>set cs. doc_bits x = [] \<or> x = ''osvmm''" by (metis list.set_intros(1) neq_Nil_conv)
next
  assume a: "\<forall>x\<in>set cs. doc_bits x = [] \<or> x = ''osvmm''"
  have "bit w n \<longleftrightarrow> n = 10" for n
  proof
    assume "bit w n"
    then obtain x where x: "x \<in> set cs" "n \<in> set (doc_bits x)" using b by blast
    then have "x = ''osvmm''" using a by auto
    then show "n = 10" using x doc_bits_of(5) by simp
  next
    assume "n = 10"
    then show "bit w n" using b assms(2) doc_bits_of(1) [of "''osvmm''"] by blast
  qed
  then show "w = VMM_OSVMM" by (simp add: bit_eq_iff opt_bits)
qed

lemma valid_doc: "valid_opts (bits_word (concat (map doc_bits cs))) \<longleftrightarrow> doc_valid cs"
proof -
  define w where "w = bits_word (concat (map doc_bits cs))"
  have b: "bit w n \<longleftrightarrow> (\<exists>x\<in>set cs. n \<in> set (doc_bits x))" for n
    using doc_bits_small unfolding w_def bit_bits_word by fastforce
  have "\<not> bit w 11" "bit w 10 \<longleftrightarrow> ''osvmm'' \<in> set cs" "bit w 3 \<longleftrightarrow> ''aggch'' \<in> set cs"
    "bit w 1 \<longleftrightarrow> ''lzyrd'' \<in> set cs" "bit w 9 \<Longrightarrow> bit w 8"
    using doc_bits_small [of 11] doc_bits_of(1-3) unfolding b by (auto intro: doc_bits_of(4))
  with doc_alone [OF b] show ?thesis
    by (auto simp: valid_opts_def doc_valid_def has_opt list_all_iff simp flip: w_def)
qed

lemma opts_spec_doc:
  assumes "\<not> (''default'' \<in> set ts \<and> (''admitr'' \<in> set ts \<or> ''admitd'' \<in> set ts))"
  shows "(case opts_spec ts of Some w \<Rightarrow> if P \<and> valid_opts w then w else VMM_INVLD | None \<Rightarrow> VMM_INVLD) =
    (if P then doc_opts ts else VMM_INVLD)"
proof -
  have k: "list_all known ts \<longleftrightarrow> list_all doc_alternative (concat (map doc_choices ts))"
    by (auto simp: known_doc list_all_iff)
  show ?thesis
  proof (cases "list_all known ts")
    case True
    with apart_doc [OF True assms] doc_word_sets [OF True] k show ?thesis
      by (simp add: opts_spec_def doc_opts_def Let_def valid_doc)
  qed (use k in \<open>simp add: opts_spec_def doc_opts_def Let_def\<close>)
qed

subsection \<open>Properties\<close>

text \<open>C9: On every option string in which \<open>default\<close> does not stand beside \<open>admitr\<close> or \<open>admitd\<close>,
  \<open>sbma_parse_optstr\<close> returns what the documentation in \<open>sbma.h\<close> says: the string is a list of choices separated
  by commas, each choice is an alternative of one of the ten options or \<open>default\<close>, no option is chosen twice, and the result
  has exactly the bits that the table of \<open>sbma.h\<close> gives for the choices; the error code is returned for a string that does not
  fit the buffer, for an unknown or repeated choice, for \<open>osvmm\<close> together with another option that is switched on, and
  for \<open>aggch\<close> without \<open>lzyrd\<close>.  On the last rule the sources disagree: \<open>sbma.h\<close> calls aggressive charging
  meaningful with lazy reading (line 80) and valid only with the lazy modes (line 126), the comment at the test (\<open>parse_optstr.c\<close>, line
  128) says the opposite; the specification is that of \<open>sbma.h\<close>.\<close>
theorem parse_optstr_correct:
  assumes "\<not> (''default'' \<in> set (doc_fields s) \<and> (''admitr'' \<in> set (doc_fields s) \<or> ''admitd'' \<in> set (doc_fields s)))"
  shows "sbma_parse_optstr s = (if length s \<le> 511 then doc_opts (doc_fields s) else VMM_INVLD)"
  unfolding parse_optstr_eq tokens_fields by (rule opts_spec_doc [OF assms])

theorem parse_optstr_correct_witness:
  "sbma_parse_optstr ''admitd,lzyrd,aggch,extra'' = 782 \<and> sbma_parse_optstr ''default,check'' = VMM_INVLD \<and>
   sbma_parse_optstr ''default'' = 34 \<and> sbma_parse_optstr ''osvmm,evict'' = 1024"
proof -
  have "doc_opts (doc_fields ''admitd,lzyrd,aggch,extra'') = 782" "doc_opts (doc_fields ''default,check'') = VMM_INVLD"
    "doc_opts (doc_fields ''default'') = 34" "doc_opts (doc_fields ''osvmm,evict'') = 1024" by code_simp+
  moreover have "doc_fields ''admitd,lzyrd,aggch,extra'' = [''admitd'', ''lzyrd'', ''aggch'', ''extra'']"
    "doc_fields ''default,check'' = [''default'', ''check'']" "doc_fields ''default'' = [''default'']"
    "doc_fields ''osvmm,evict'' = [''osvmm'', ''evict'']" by code_simp+
  ultimately show ?thesis
    using parse_optstr_correct [of "''admitd,lzyrd,aggch,extra''"] parse_optstr_correct [of "''default,check''"]
      parse_optstr_correct [of "''default''"] parse_optstr_correct [of "''osvmm,evict''"] by simp
qed

text \<open>The exception: the mask \<open>all\<close> of \<open>default\<close> (\<open>parse_optstr.c\<close>, line 49) lacks \<open>VMM_ADMITD\<close>, so \<open>default\<close>
  may stand beside \<open>admitd\<close> although it stands for \<open>admitr\<close> too.\<close>

lemma default_admits: "sbma_parse_optstr ''default,admitd'' = 38 \<and> doc_opts (doc_fields ''default,admitd'') = VMM_INVLD"
  by code_simp

text \<open>Every valid option word can be written as an option string that parses back to it.\<close>
theorem parse_show_round_trip:
  assumes "valid_opts w" and "\<And>n. bit w n \<Longrightarrow> n < 11"
  shows "sbma_parse_optstr (show_opts w) = w"
  using assms by (rule parse_show)

theorem parse_show_round_trip_witness:
  "sbma_parse_optstr (show_opts (VMM_LZYRD OR VMM_AGGCH)) = VMM_LZYRD OR VMM_AGGCH"
  by (rule parse_show_round_trip) (auto simp: valid_opts_def has_opt bit_or_iff flag_bits)

text \<open>The combinations that are accepted.  An accepted word never has \<open>VMM_OSVMM\<close> together
  with another option, and it has \<open>VMM_AGGCH\<close> only together with \<open>VMM_LZYRD\<close>; the
  comment at the test says that aggressive charging is valid only \<^emph>\<open>without\<close> lazy
  reading.\<close>
theorem accepted_combinations:
  assumes "sbma_parse_optstr s = w" and "w \<noteq> VMM_INVLD"
  shows "(has w VMM_AGGCH \<longrightarrow> has w VMM_LZYRD) \<and> (has w VMM_EXTRA \<longrightarrow> has w VMM_CHECK) \<and>
         (has w VMM_OSVMM \<longrightarrow> w = VMM_OSVMM)"
  using assms by (auto simp: parse_optstr_eq valid_opts_def split: option.splits if_splits)

theorem accepted_combinations_witness:
  "\<exists>w. sbma_parse_optstr ''lzyrd,aggch'' = w \<and> has w VMM_AGGCH \<and> has w VMM_LZYRD \<and>
     sbma_parse_optstr ''aggch'' = VMM_INVLD"
proof -
  have "sbma_parse_optstr ''lzyrd,aggch'' \<noteq> VMM_INVLD \<and> has (sbma_parse_optstr ''lzyrd,aggch'') VMM_AGGCH \<and>
      sbma_parse_optstr ''aggch'' = VMM_INVLD" by code_simp
  with accepted_combinations [OF refl, of "''lzyrd,aggch''"] show ?thesis by simp
qed

end
