(* ===== verification/Swap.thy ===== *)
theory Swap
  imports Mmu Options
begin

text \<open>
  Moving pages between memory and the backing file of an allocation
  (\<open>src/vmm/swap_i.c\<close>, \<open>src/vmm/swap_o.c\<close>, \<open>src/vmm/swap_x.c\<close>).

  Each function gets the fields of \<open>_vmm_\<close> it reads (\<open>page_size\<close>, \<open>opts\<close>, the
  backing file's name) as arguments and returns its return value, the entry and the
  operating system's state.  The variable \<open>ipfirst\<close> of the loops, \<open>-1\<close> or the first page
  of the pending run, is an option; the counter \<open>k\<close> of a loop is \<open>end-ip\<close>, so that the
  iteration with \<open>ip == end\<close> is the base case.  Descriptors are not modelled: a file is
  open while the function that opened it runs.
\<close>

subsection \<open>The backing file\<close>

definition digit :: "nat \<Rightarrow> char" where
  "digit d = char_of (if d < 10 then 48 + d else 87 + d)"

fun number :: "nat \<Rightarrow> nat \<Rightarrow> string" where
  "number b n = (if b < 2 \<or> n < b then [digit n] else number b (n div b) @ [digit (n mod b)])"

declare number.simps [simp del]

definition FILENAME_MAX :: nat where "FILENAME_MAX = 4096"

text \<open>\<open>snprintf(fname, FILENAME_MAX, "%s%d-%zx", fstem, pid, ate)\<close>.\<close>

definition swap_name :: "string \<Rightarrow> nat \<Rightarrow> nat \<Rightarrow> string" where
  "swap_name fstem pid adr = take (FILENAME_MAX - 1) (fstem @ number 10 pid @ ''-'' @ number 16 adr)"

definition digit_val :: "char \<Rightarrow> nat" where
  "digit_val c = (if (of_char c :: nat) < 58 then of_char c - 48 else of_char c - 87)"

lemma digit_val_digit: "d < 16 \<Longrightarrow> digit_val (digit d) = d"
  by (simp add: digit_val_def digit_def)

definition number_val :: "nat \<Rightarrow> string \<Rightarrow> nat" where
  "number_val b cs = foldl (\<lambda>acc c. acc * b + digit_val c) 0 cs"

lemma number_val_number: "2 \<le> b \<Longrightarrow> b \<le> 16 \<Longrightarrow> number_val b (number b n) = n"
proof (induction b n rule: number.induct)
  case (1 b n)
  show ?case
  proof (cases "n < b")
    case True
    then show ?thesis using 1 by (simp add: number.simps [of b n] number_val_def digit_val_digit)
  next
    case False
    then have "number_val b (number b (n div b)) = n div b" using 1 by simp
    moreover have "digit_val (digit (n mod b)) = n mod b"
      using 1(2,3) by (intro digit_val_digit) (rule less_le_trans [OF mod_less_divisor], simp_all)
    ultimately show ?thesis using False 1(2,3)
      by (simp add: number.simps [of b n] number_val_def digit_val_digit)
  qed
qed

subsection \<open>Reading and writing\<close>

text \<open>
  \<open>vmm_read\<close>: \<open>m\<close> is the memory the buffer is in and \<open>b\<close> the position of the buffer
  there.  A \<open>read\<close> at the end of the file moves no byte, which the assertion catches.
\<close>

function vmm_read_loop ::
  "string \<Rightarrow> (nat \<Rightarrow> byte) \<Rightarrow> nat \<Rightarrow> nat \<Rightarrow> nat \<Rightarrow> os \<Rightarrow> (int \<times> (nat \<Rightarrow> byte) \<times> os) option" where
  "vmm_read_loop fname m b len off s =
     (case sys_call s of
        (False, s) \<Rightarrow> Some (-1, m, s)
      | (True, s) \<Rightarrow>
          (case files s fname of
             None \<Rightarrow> None
           | Some f \<Rightarrow>
               (case os_xfer (min len (length f - off)) s of
                  (n, s) \<Rightarrow>
                    if n = 0 then None
                    else
                      let m = (\<lambda>i. if b \<le> i \<and> i < b + n then f ! (off + (i - b)) else m i);
                          len' = len - n
                      in if 0 < len' then vmm_read_loop fname m (b + n) len' (off + n) s
                         else Some (0, m, s))))"
  by pat_completeness auto

termination
  by (relation "measure (\<lambda>(fname, m, b, len, off, s). len)") auto

declare vmm_read_loop.simps [simp del]

definition vmm_read ::
  "string \<Rightarrow> (nat \<Rightarrow> byte) \<Rightarrow> nat \<Rightarrow> nat \<Rightarrow> nat \<Rightarrow> os \<Rightarrow> (int \<times> (nat \<Rightarrow> byte) \<times> os) option" where
  "vmm_read fname m b len off s =
     (case sys_call s of                                       \<comment> \<open>lseek\<close>
        (False, s) \<Rightarrow> Some (-1, m, s)
      | (True, s) \<Rightarrow> vmm_read_loop fname m b len off s)"

text \<open>
  \<open>vmm_write\<close>.  The loop's last statement is \<open>len -= len\<close>, so one \<open>write\<close> is all
  that is ever made.
\<close>

function vmm_write_loop ::
  "string \<Rightarrow> (nat \<Rightarrow> byte) \<Rightarrow> nat \<Rightarrow> nat \<Rightarrow> nat \<Rightarrow> os \<Rightarrow> (int \<times> os) option" where
  "vmm_write_loop fname m b len off s =
     (case sys_call s of
        (False, s) \<Rightarrow> Some (-1, s)
      | (True, s) \<Rightarrow>
          (case files s fname of
             None \<Rightarrow> None
           | Some f \<Rightarrow>
               (case os_xfer len s of
                  (n, s) \<Rightarrow>
                    if n = 0 then None
                    else
                      let s = s\<lparr>files := (files s)(fname \<mapsto> write_at f off (map m [b..<b + n]))\<rparr>;
                          len' = len - len
                      in if 0 < len' then vmm_write_loop fname m (b + n) len' (off + n) s
                         else Some (0, s))))"
  by pat_completeness auto

termination
  by (relation "measure (\<lambda>(fname, m, b, len, off, s). len)") auto

declare vmm_write_loop.simps [simp del]

definition vmm_write ::
  "string \<Rightarrow> (nat \<Rightarrow> byte) \<Rightarrow> nat \<Rightarrow> nat \<Rightarrow> nat \<Rightarrow> os \<Rightarrow> (int \<times> os) option" where
  "vmm_write fname m b len off s =
     (case sys_call s of                                       \<comment> \<open>lseek\<close>
        (False, s) \<Rightarrow> Some (-1, s)
      | (True, s) \<Rightarrow> vmm_write_loop fname m b len off s)"

subsection \<open>Memory protection and advice\<close>

definition set_prot :: "nat \<Rightarrow> nat \<Rightarrow> prot \<Rightarrow> ate \<Rightarrow> ate" where
  "set_prot beg num p a = a\<lparr>prots := map_range beg num (\<lambda>_. p) (prots a)\<rparr>"

text \<open>\<open>madvise(MADV_DONTNEED)\<close> on an anonymous mapping: the pages read as zero again.\<close>

definition drop_pages :: "nat \<Rightarrow> nat \<Rightarrow> nat \<Rightarrow> ate \<Rightarrow> ate" where
  "drop_pages ps beg num a =
     a\<lparr>data := (\<lambda>i. if beg * ps \<le> i \<and> i < (beg + num) * ps then 0 else data a i)\<rparr>"

subsection \<open>Swapping out\<close>

definition swap_o_clean :: "nat \<Rightarrow> ate \<Rightarrow> ate option" where
  "swap_o_clean ip a = do {
     f \<leftarrow> flag_at a ip;
     a \<leftarrow> (if charged f
           then do {
             a \<leftarrow> (if resident f
                   then do { ASSERT (0 < l_pages a); Some (a\<lparr>l_pages := l_pages a - 1\<rparr>) }
                   else Some a);
             ASSERT (0 < c_pages a);
             Some (a\<lparr>c_pages := c_pages a - 1\<rparr>)
           }
           else Some a);
     Some (set_flag a ip ((f AND MMU_ZFILL) OR (MMU_CHRGD OR MMU_RSDNT)))
   }"

definition swap_o_dirty :: "nat \<Rightarrow> ate \<Rightarrow> ate option" where
  "swap_o_dirty ip a = do {
     f \<leftarrow> flag_at a ip;
     ASSERT (resident f);
     ASSERT (charged f);
     ASSERT (0 < l_pages a);
     a \<leftarrow> Some (a\<lparr>l_pages := l_pages a - 1\<rparr>);
     ASSERT (0 < c_pages a);
     a \<leftarrow> Some (a\<lparr>c_pages := c_pages a - 1\<rparr>);
     Some (set_flag a ip (MMU_CHRGD OR MMU_RSDNT OR MMU_ZFILL))
   }"

text \<open>Write the pending run \<open>p, \<dots>, ip - 1\<close>; the first component of the result says
  whether the loop goes on.\<close>

definition swap_o_flush ::
  "nat \<Rightarrow> string \<Rightarrow> nat \<Rightarrow> nat \<Rightarrow> ate \<Rightarrow> os \<Rightarrow> nat \<Rightarrow> (bool \<times> nat \<times> ate \<times> os) option" where
  "swap_o_flush ps fname p ip a s numwr = do {
     (ret, s) \<leftarrow> vmm_write fname (data a) (p * ps) ((ip - p) * ps) (p * ps) s;
     if ret = -1 then Some (False, numwr, a, s)
     else do {
       ASSERT (ip - p \<le> d_pages a);
       Some (True, numwr + (ip - p), a\<lparr>d_pages := d_pages a - (ip - p)\<rparr>, s)
     }
   }"

fun swap_o_loop ::
  "nat \<Rightarrow> string \<Rightarrow> nat \<Rightarrow> nat \<Rightarrow> nat option \<Rightarrow> ate \<Rightarrow> os \<Rightarrow> nat \<Rightarrow> (bool \<times> nat \<times> ate \<times> os) option" where
  "swap_o_loop ps fname 0 ip ipfirst a s numwr =
     (case ipfirst of
        None \<Rightarrow> Some (True, numwr, a, s)
      | Some p \<Rightarrow> swap_o_flush ps fname p ip a s numwr)"
| "swap_o_loop ps fname (Suc k) ip ipfirst a s numwr = do {
     f \<leftarrow> flag_at a ip;
     a \<leftarrow> (if \<not> dirty f then swap_o_clean ip a else Some a);
     f \<leftarrow> flag_at a ip;
     if dirty f then do {
       a \<leftarrow> swap_o_dirty ip a;
       swap_o_loop ps fname k (Suc ip) (Some (case ipfirst of None \<Rightarrow> ip | Some p \<Rightarrow> p)) a s numwr
     }
     else (case ipfirst of
         None \<Rightarrow> swap_o_loop ps fname k (Suc ip) None a s numwr
       | Some p \<Rightarrow> do {
           (go, numwr, a, s) \<leftarrow> swap_o_flush ps fname p ip a s numwr;
           if go then swap_o_loop ps fname k (Suc ip) None a s numwr
           else Some (False, numwr, a, s)
         })
   }"

text \<open>The calls after the loop: close, unlock, protect and drop the pages.\<close>

definition swap_o_drop :: "nat \<Rightarrow> cint \<Rightarrow> nat \<Rightarrow> nat \<Rightarrow> ate \<Rightarrow> os \<Rightarrow> bool \<times> ate \<times> os" where
  "swap_o_drop ps opts beg num a s =
     (case sys_call s of                                       \<comment> \<open>close\<close>
        (False, s) \<Rightarrow> (False, a, s)
      | (True, s) \<Rightarrow>
     (case (if has opts VMM_MLOCK then sys_call s else (True, s)) of   \<comment> \<open>munlock\<close>
        (False, s) \<Rightarrow> (False, a, s)
      | (True, s) \<Rightarrow>
     (case sys_call s of                                       \<comment> \<open>mprotect\<close>
        (False, s) \<Rightarrow> (False, a, s)
      | (True, s) \<Rightarrow>
     (case sys_call s of                                       \<comment> \<open>madvise\<close>
        (False, s) \<Rightarrow> (False, set_prot beg num PROT_NONE a, s)
      | (True, s) \<Rightarrow> (True, drop_pages ps beg num (set_prot beg num PROT_NONE a), s)))))"

definition vmm_swap_o ::
  "nat \<Rightarrow> cint \<Rightarrow> string \<Rightarrow> ate \<Rightarrow> nat \<Rightarrow> nat \<Rightarrow> os \<Rightarrow> (int \<times> ate \<times> os) option" where
  "vmm_swap_o ps opts fname a beg num s = do {
     ASSERT (num \<le> n_pages a);
     ASSERT (beg \<le> n_pages a - num);
     if num = 0 then Some (0, a, s)
     else if l_pages a = 0 then Some (0, a, s)
     else (case os_open fname s of
         (False, s) \<Rightarrow> Some (-1, a, s)
       | (True, s) \<Rightarrow> do {
           (go, numwr, a, s) \<leftarrow> swap_o_loop ps fname num beg None a s 0;
           if \<not> go then Some (-1, a, s)
           else (case swap_o_drop ps opts beg num a s of
               (False, a, s) \<Rightarrow> Some (-1, a, s)
             | (True, a, s) \<Rightarrow> Some (to_int numwr, a, s))
         })
   }"

subsection \<open>Swapping in\<close>

definition swap_i_flush ::
  "nat \<Rightarrow> string \<Rightarrow> cint \<Rightarrow> nat \<Rightarrow> nat \<Rightarrow> nat \<Rightarrow> ate \<Rightarrow> (nat \<Rightarrow> byte) \<Rightarrow> os \<Rightarrow> nat \<Rightarrow>
     (bool \<times> nat \<times> ate \<times> (nat \<Rightarrow> byte) \<times> os) option" where
  "swap_i_flush ps fname ghost beg p ip a tmp s numrd =
     (if ghost = VMM_GHOST then do {
        (ret, tmp, s) \<leftarrow> vmm_read fname tmp ((p - beg) * ps) ((ip - p) * ps) (p * ps) s;
        if ret = -1 then Some (False, numrd, a, tmp, s)
        else (case sys_call s of                               \<comment> \<open>mprotect of the temporary pages\<close>
          (False, s) \<Rightarrow> Some (False, numrd, a, tmp, s)
        | (True, s) \<Rightarrow>
          (case sys_call s of                                  \<comment> \<open>mremap\<close>
            (False, s) \<Rightarrow> Some (False, numrd, a, tmp, s)
          | (True, s) \<Rightarrow>
              Some (True, numrd + (ip - p),
                (set_prot p (ip - p) PROT_READ a)
                  \<lparr>data := (\<lambda>i. if p * ps \<le> i \<and> i < ip * ps then tmp (i - beg * ps) else data a i)\<rparr>,
                tmp, s)))
      }
      else do {
        (ret, m, s) \<leftarrow> vmm_read fname (data a) (beg * ps + (p - beg) * ps) ((ip - p) * ps) (p * ps) s;
        if ret = -1 then Some (False, numrd, a\<lparr>data := m\<rparr>, tmp, s)
        else Some (True, numrd + (ip - p), a\<lparr>data := m\<rparr>, tmp, s)
      })"

text \<open>The second half of the loop body: the page becomes resident and charged.\<close>

definition swap_i_mark :: "nat \<Rightarrow> ate \<Rightarrow> ate option" where
  "swap_i_mark ip a = do {
     f \<leftarrow> flag_at a ip;
     if \<not> resident f then do {
       ASSERT (l_pages a < n_pages a);
       a \<leftarrow> Some (a\<lparr>l_pages := l_pages a + 1\<rparr>);
       a \<leftarrow> (if \<not> charged f
             then do { ASSERT (c_pages a < n_pages a); Some (a\<lparr>c_pages := c_pages a + 1\<rparr>) }
             else Some a);
       Some (set_flag a ip (f AND NOT (MMU_CHRGD OR MMU_RSDNT)))
     }
     else do { ASSERT (charged f); Some a }
   }"

fun swap_i_loop ::
  "nat \<Rightarrow> string \<Rightarrow> cint \<Rightarrow> nat \<Rightarrow> nat \<Rightarrow> nat \<Rightarrow> nat option \<Rightarrow> ate \<Rightarrow> (nat \<Rightarrow> byte) \<Rightarrow> os \<Rightarrow> nat \<Rightarrow>
     (bool \<times> nat \<times> ate \<times> (nat \<Rightarrow> byte) \<times> os) option" where
  "swap_i_loop ps fname ghost beg 0 ip ipfirst a tmp s numrd =
     (case ipfirst of
        None \<Rightarrow> Some (True, numrd, a, tmp, s)
      | Some p \<Rightarrow> swap_i_flush ps fname ghost beg p ip a tmp s numrd)"
| "swap_i_loop ps fname ghost beg (Suc k) ip ipfirst a tmp s numrd = do {
     f \<leftarrow> flag_at a ip;
     (if \<not> resident f \<and> on_disk f \<and> \<not> dirty f then do {
        a \<leftarrow> swap_i_mark ip a;
        swap_i_loop ps fname ghost beg k (Suc ip) (Some (case ipfirst of None \<Rightarrow> ip | Some p \<Rightarrow> p))
          a tmp s numrd
      }
      else (case ipfirst of
          None \<Rightarrow> do {
            a \<leftarrow> swap_i_mark ip a;
            swap_i_loop ps fname ghost beg k (Suc ip) None a tmp s numrd
          }
        | Some p \<Rightarrow> do {
            (go, numrd, a, tmp, s) \<leftarrow> swap_i_flush ps fname ghost beg p ip a tmp s numrd;
            if \<not> go then Some (False, numrd, a, tmp, s)
            else do {
              a \<leftarrow> swap_i_mark ip a;
              swap_i_loop ps fname ghost beg k (Suc ip) None a tmp s numrd
            }
          }))
   }"

text \<open>Give the dirty pages of the range their write permission back.\<close>

fun swap_i_reprotect :: "nat \<Rightarrow> nat \<Rightarrow> ate \<Rightarrow> os \<Rightarrow> (bool \<times> ate \<times> os) option" where
  "swap_i_reprotect 0 ip a s = Some (True, a, s)"
| "swap_i_reprotect (Suc k) ip a s = do {
     f \<leftarrow> flag_at a ip;
     if dirty f
     then (case sys_call s of
         (False, s) \<Rightarrow> Some (False, a, s)
       | (True, s) \<Rightarrow> swap_i_reprotect k (Suc ip) (set_prot ip 1 PROT_RW a) s)
     else swap_i_reprotect k (Suc ip) a s
   }"

text \<open>The calls after the loop.\<close>

definition swap_i_finish :: "cint \<Rightarrow> nat \<Rightarrow> nat \<Rightarrow> ate \<Rightarrow> os \<Rightarrow> (bool \<times> ate \<times> os) option" where
  "swap_i_finish ghost beg num a s =
     (case sys_call s of                                       \<comment> \<open>close\<close>
        (False, s) \<Rightarrow> Some (False, a, s)
      | (True, s) \<Rightarrow>
          (case sys_call s of                                  \<comment> \<open>munmap or mprotect\<close>
             (False, s) \<Rightarrow> Some (False, a, s)
           | (True, s) \<Rightarrow>
               if ghost = VMM_GHOST then Some (True, a, s)
               else swap_i_reprotect num beg (set_prot beg num PROT_READ a) s))"

definition vmm_swap_i ::
  "nat \<Rightarrow> string \<Rightarrow> ate \<Rightarrow> nat \<Rightarrow> nat \<Rightarrow> cint \<Rightarrow> os \<Rightarrow> (int \<times> ate \<times> os) option" where
  "vmm_swap_i ps fname a beg num ghost s = do {
     ASSERT (num \<le> n_pages a);
     ASSERT (beg \<le> n_pages a - num);
     if num = 0 then Some (0, a, s)
     else if l_pages a = n_pages a then do { ASSERT (c_pages a = n_pages a); Some (0, a, s) }
     else (case sys_call s of                                  \<comment> \<open>mmap or mprotect\<close>
         (False, s) \<Rightarrow> Some (-1, a, s)
       | (True, s) \<Rightarrow>
           (let a = (if ghost = VMM_GHOST then a else set_prot beg num PROT_WRITE a)
            in case os_open fname s of
               (False, s) \<Rightarrow> Some (-1, a, s)
             | (True, s) \<Rightarrow> do {
                 (go, numrd, a, tmp, s) \<leftarrow> swap_i_loop ps fname ghost beg num beg None a (\<lambda>_. 0) s 0;
                 if \<not> go then Some (-1, a, s)
                 else do {
                   (go, a, s) \<leftarrow> swap_i_finish ghost beg num a s;
                   if go then Some (to_int numrd, a, s) else Some (-1, a, s)
                 }
               }))
   }"

subsection \<open>Discarding\<close>

fun swap_x_loop :: "nat \<Rightarrow> nat \<Rightarrow> ate \<Rightarrow> os \<Rightarrow> (bool \<times> ate \<times> os) option" where
  "swap_x_loop 0 ip a s = Some (True, a, s)"
| "swap_x_loop (Suc k) ip a s = do {
     f \<leftarrow> flag_at a ip;
     if dirty f
     then (case sys_call s of                                  \<comment> \<open>mprotect\<close>
         (False, s) \<Rightarrow> Some (False, a, s)
       | (True, s) \<Rightarrow> do {
           a \<leftarrow> Some (set_prot ip 1 PROT_READ a);
           ASSERT (0 < d_pages a);
           a \<leftarrow> Some (a\<lparr>d_pages := d_pages a - 1\<rparr>);
           swap_x_loop k (Suc ip) (set_flag a ip (f AND NOT (MMU_DIRTY OR MMU_ZFILL))) s
         })
     else swap_x_loop k (Suc ip) (set_flag a ip (f AND NOT (MMU_DIRTY OR MMU_ZFILL))) s
   }"

definition vmm_swap_x :: "ate \<Rightarrow> nat \<Rightarrow> nat \<Rightarrow> os \<Rightarrow> (int \<times> ate \<times> os) option" where
  "vmm_swap_x a beg num s = do {
     ASSERT (num \<le> n_pages a);
     ASSERT (beg \<le> n_pages a - num);
     if num = 0 then Some (0, a, s)
     else do {
       (go, a, s) \<leftarrow> swap_x_loop num beg a s;
       Some (if go then 0 else -1, a, s)
     }
   }"

subsection \<open>Transfers\<close>

text \<open>What a sequence of writes of the bytes \<open>W\<close> of the memory \<open>m\<close>, each byte at its
  own position, does to the file \<open>fname\<close> and to no other.\<close>

definition wrote :: "string \<Rightarrow> (nat \<Rightarrow> bool) \<Rightarrow> (nat \<Rightarrow> byte) \<Rightarrow> os \<Rightarrow> os \<Rightarrow> bool" where
  "wrote fname W m s s' \<longleftrightarrow>
     (\<exists>f f'. files s fname = Some f \<and> files s' = (files s)(fname \<mapsto> f') \<and> length f \<le> length f' \<and>
        (\<forall>i. byte_at f' i = (if W i then m i else byte_at f i)) \<and> (\<forall>i. W i \<longrightarrow> i < length f'))"

lemma wrote_none: "files s fname = Some f \<Longrightarrow> files s' = files s \<Longrightarrow> wrote fname (\<lambda>_. False) m s s'"
  unfolding wrote_def by (intro exI [of _ f]) (auto simp: fun_upd_idem)

lemma wrote_trans:
  assumes "wrote fname W m s s'" and "wrote fname V m s' s''" and "\<And>i. U i \<longleftrightarrow> W i \<or> V i"
  shows "wrote fname U m s s''"
proof -
  obtain f f' where 1: "files s fname = Some f" "files s' = (files s)(fname \<mapsto> f')" "length f \<le> length f'"
    "\<And>i. byte_at f' i = (if W i then m i else byte_at f i)" "\<And>i. W i \<Longrightarrow> i < length f'"
    using assms(1) unfolding wrote_def by blast
  obtain g f'' where 2: "files s' fname = Some g" "files s'' = (files s')(fname \<mapsto> f'')" "length g \<le> length f''"
    "\<And>i. byte_at f'' i = (if V i then m i else byte_at g i)" "\<And>i. V i \<Longrightarrow> i < length f''"
    using assms(2) unfolding wrote_def by blast
  have "g = f'" using 1 2 by simp
  then show ?thesis
    unfolding wrote_def
    by (intro exI [of _ f] exI [of _ f'']) (use 1 2 assms(3) in \<open>auto intro: less_le_trans\<close>)
qed

definition has_written :: "string \<Rightarrow> os \<Rightarrow> int \<times> os \<Rightarrow> bool" where
  "has_written fname s r \<longleftrightarrow> (case r of (ret, s') \<Rightarrow>
     files s' fname \<noteq> None \<and> (\<forall>g. g \<noteq> fname \<longrightarrow> files s' g = files s g) \<and> (ret = 0 \<or> ret = -1) \<and>
     (faults s = [] \<longrightarrow> ret = 0 \<and> faults s' = []) \<and> set (grants s') \<subseteq> set (grants s))"

lemma vmm_write_returns:
  assumes "files s fname \<noteq> None" and "0 < len"
  shows "returns (moves s) (vmm_write fname m b len off s) (has_written fname s)"
proof -
  obtain ok t where 1: "sys_call s = (ok, t)" by fastforce
  obtain ok' u where 2: "sys_call t = (ok', u)" by fastforce
  obtain n v where 3: "os_xfer len u = (n, v)" by fastforce
  have fr: "files t = files s" "files u = files s" "files v = files s" "grants t = grants s" "grants u = grants s"
    "set (grants v) \<subseteq> set (grants s)"
    using sys_call_frame [of s] sys_call_frame [of t] os_xfer_frame(1) [of len u] os_xfer_grants [of len u] 1 2 3
    by simp_all
  have ft: "faults s = [] \<Longrightarrow> ok \<and> ok' \<and> faults v = []"
    using os_xfer_frame(2) [of len u] 1 2 3 by auto
  have pos: "moves s \<Longrightarrow> 0 < n" using os_xfer_pos [OF assms(2), of u] 3 fr(5) by (simp add: moves_def)
  show ?thesis
    using assms(1) pos 1 2 3 fr ft
    by (cases ok; cases ok'; cases "n = 0")
      (auto simp: vmm_write_def vmm_write_loop.simps Let_def has_written_def split: option.splits)
qed

text \<open>A \<open>write\<close> that moves nothing fails the assertion and ends the program.\<close>

lemma zero_write_aborts:
  assumes "faults s = []" and "grants s = 0 # gs"
  shows "vmm_write fname m b len off s = None"
  using assms by (simp add: vmm_write_def vmm_write_loop.simps os_xfer_def split: option.splits)

lemma vmm_write_full:
  assumes "vmm_write fname m off len off s = Some (ret, s')" and "grants s = []" and "ret \<noteq> -1"
  shows "wrote fname (\<lambda>i. off \<le> i \<and> i < off + len) m s s'" and "grants s' = []"
proof -
  obtain ok t where 1: "sys_call s = (ok, t)" by fastforce
  obtain ok' u where 2: "sys_call t = (ok', u)" by fastforce
  have fr: "files t = files s" "files u = files s" "grants u = []"
    using sys_call_frame [of s] sys_call_frame [of t] 1 2 assms(2) by simp_all
  obtain f where f: "files s fname = Some f"
    and s': "s' = u\<lparr>files := (files u)(fname \<mapsto> write_at f off (map m [off..<off + len]))\<rparr>"
    using assms 1 2 fr
    by (cases ok; cases ok')
      (auto simp: vmm_write_def vmm_write_loop.simps Let_def split: option.splits if_splits)
  show "grants s' = []" using s' fr by simp
  show "wrote fname (\<lambda>i. off \<le> i \<and> i < off + len) m s s'"
    unfolding wrote_def
    by (intro exI [of _ f] exI [of _ "write_at f off (map m [off..<off + len])"])
      (auto simp: f s' fr byte_at_write_at length_write_at)
qed

text \<open>The one \<open>write\<close> may move fewer bytes than it was asked to; the rest is lost although
  the call reports success.\<close>

lemma vmm_write_short:
  assumes "faults s = []" and "grants s = g # gs" and "files s fname = Some f" and "0 < g" and "g < len"
  shows "vmm_write fname m b len off s =
           Some (0, s\<lparr>grants := gs, files := (files s)(fname \<mapsto> write_at f off (map m [b..<b + g]))\<rparr>)"
  using assms by (simp add: vmm_write_def vmm_write_loop.simps os_xfer_def)

text \<open>\<open>vmm_read\<close>, in contrast, gathers short transfers.\<close>

definition has_read ::
  "byte list \<Rightarrow> (nat \<Rightarrow> byte) \<Rightarrow> nat \<Rightarrow> nat \<Rightarrow> nat \<Rightarrow> os \<Rightarrow> int \<times> (nat \<Rightarrow> byte) \<times> os \<Rightarrow> bool" where
  "has_read f m b len off s r \<longleftrightarrow> (case r of (ret, m', s') \<Rightarrow>
     files s' = files s \<and> set (grants s') \<subseteq> set (grants s) \<and> (faults s = [] \<longrightarrow> ret = 0 \<and> faults s' = []) \<and>
     (ret = 0 \<or> ret = -1) \<and>
     (\<forall>i. \<not> (b \<le> i \<and> i < b + len) \<longrightarrow> m' i = m i) \<and>
     (ret = 0 \<longrightarrow> (\<forall>i. b \<le> i \<and> i < b + len \<longrightarrow> m' i = byte_at f (off + (i - b)))))"

text \<open>One turn: the first \<open>n\<close> bytes, then the rest.\<close>

lemma has_read_more:
  assumes rest: "has_read f m1 (b + n) (len - n) (off + n) u r" and n: "n \<le> len" and off: "off + len \<le> length f"
    and m1: "m1 = (\<lambda>i. if b \<le> i \<and> i < b + n then f ! (off + (i - b)) else m i)"
    and u: "files u = files s" "set (grants u) \<subseteq> set (grants s)" "faults s = [] \<longrightarrow> faults u = []"
  shows "has_read f m b len off s r"
proof -
  obtain ret m' s' where r: "r = (ret, m', s')" by (cases r)
  note h = rest [unfolded r has_read_def, simplified]
  have "m' i = byte_at f (off + (i - b))" if "ret = 0" "b \<le> i" "i < b + len" for i
    using h that n off by (cases "b + n \<le> i") (auto simp: m1 byte_at_def)
  moreover have "m' i = m i" if "\<not> (b \<le> i \<and> i < b + len)" for i
    using h that n by (auto simp: m1)
  ultimately show ?thesis using h u by (auto simp: r has_read_def)
qed

lemma vmm_read_loop_spec:
  assumes "files s fname = Some f" and "0 < len" and "off + len \<le> length f"
  shows "returns (moves s) (vmm_read_loop fname m b len off s) (has_read f m b len off s)"
  using assms
proof (induction fname m b len off s rule: vmm_read_loop.induct)
  case (1 fname m b len off s)
  obtain ok t where c: "sys_call s = (ok, t)" by fastforce
  obtain n u where x: "os_xfer (min len (length f - off)) t = (n, u)" by fastforce
  have fr: "files t = files s" "files u = files s" "grants t = grants s" "set (grants u) \<subseteq> set (grants s)"
    using sys_call_frame [of s] os_xfer_frame(1) [of "min len (length f - off)" t]
      os_xfer_grants [of "min len (length f - off)" t] c x by simp_all
  have fu: "faults s = [] \<longrightarrow> ok \<and> faults u = []"
    using os_xfer_frame(2) [of "min len (length f - off)" t] c x by auto
  have n: "n \<le> len" "moves s \<Longrightarrow> 0 < n"
    using os_xfer_pos [of "min len (length f - off)" t] os_xfer_bound [of "min len (length f - off)" t] 1 x fr(3)
    by (auto simp: moves_def)
  define m1 where "m1 = (\<lambda>i. if b \<le> i \<and> i < b + n then f ! (off + (i - b)) else m i)"
  have unf: "vmm_read_loop fname m b len off s =
       (if \<not> ok then Some (-1, m, t) else if n = 0 then None
        else if n < len then vmm_read_loop fname m1 (b + n) (len - n) (off + n) u else Some (0, m1, u))"
    using c x fr 1 by (subst vmm_read_loop.simps) (simp add: m1_def Let_def)
  consider "\<not> ok" | "ok" "n = 0" | "ok" "0 < n" "n = len" | "ok" "0 < n" "n < len" using n(1) by linarith
  then show ?case
  proof cases
    case 3
    have "has_read f m1 (b + n) (len - n) (off + n) u (0, m1, u)" using 3 fu by (auto simp: has_read_def)
    then have "has_read f m b len off s (0, m1, u)"
      by (rule has_read_more) (use 1(4) 3 fr fu in \<open>simp_all add: m1_def\<close>)
    with 3 unf show ?thesis by simp
  next
    case 4
    have "returns (moves u) (vmm_read_loop fname m1 (b + n) (len - n) (off + n) u) (has_read f m1 (b + n) (len - n) (off + n) u)"
      unfolding m1_def by (rule 1(1) [OF c [symmetric]]) (use 4 c fr 1 x in auto)
    then have "returns (moves s) (vmm_read_loop fname m1 (b + n) (len - n) (off + n) u) (has_read f m b len off s)"
      by (rule returns_mono) (use has_read_more [OF _ n(1) 1(4) m1_def fr(2,4)] fu moves_mono [OF fr(4)] in blast)+
    with 4 unf show ?thesis by simp
  qed (use unf fr fu n in \<open>auto simp: has_read_def\<close>)
qed

lemma vmm_read_spec:
  assumes "files s fname = Some f" and "0 < len" and "off + len \<le> length f"
  shows "returns (moves s) (vmm_read fname m b len off s) (has_read f m b len off s)"
proof -
  obtain ok t where c: "sys_call s = (ok, t)" by fastforce
  have fr: "files t = files s" "grants t = grants s" "faults s = [] \<longrightarrow> ok \<and> faults t = []"
    using sys_call_facts [OF c] by auto
  show ?thesis
  proof (cases ok)
    case True
    with c have eq: "vmm_read fname m b len off s = vmm_read_loop fname m b len off t"
      by (simp add: vmm_read_def)
    have "files t fname = Some f" using fr assms by simp
    from vmm_read_loop_spec [OF this assms(2,3), of m b] show ?thesis
      unfolding eq by (rule returns_mono) (use fr in \<open>auto simp: has_read_def moves_def\<close>)
  next
    case False
    with c fr show ?thesis by (auto simp: vmm_read_def has_read_def)
  qed
qed

subsection \<open>Swapping out: the loop\<close>

text \<open>What the eviction of a page does to its status byte.\<close>

definition evict_flag :: "byte \<Rightarrow> byte" where
  "evict_flag f =
     (if dirty f then MMU_CHRGD OR MMU_RSDNT OR MMU_ZFILL
      else (f AND MMU_ZFILL) OR (MMU_CHRGD OR MMU_RSDNT))"

lemma evict_flag_bits [simp]:
  "\<not> resident (evict_flag f)" "\<not> charged (evict_flag f)" "\<not> dirty (evict_flag f)"
  "on_disk (evict_flag f) \<longleftrightarrow> on_disk f \<or> dirty f" "page_ok (evict_flag f)"
  by (auto simp: evict_flag_def flag_ops page_ok_def)

definition evict_page :: "nat \<Rightarrow> ate \<Rightarrow> ate" where
  "evict_page i a =
     set_flag (a\<lparr>l_pages := l_pages a - of_bool (resident (flags a ! i)),
                c_pages := c_pages a - of_bool (charged (flags a ! i))\<rparr>) i (evict_flag (flags a ! i))"

lemma evict_page_simps [simp]:
  "flags (evict_page i a) = (flags a)[i := evict_flag (flags a ! i)]" "n_pages (evict_page i a) = n_pages a"
  "data (evict_page i a) = data a" "prots (evict_page i a) = prots a" "d_pages (evict_page i a) = d_pages a"
  "base (evict_page i a) = base a" "addr (evict_page i a) = addr a"
  by (simp_all add: evict_page_def)

lemma counts_ok_pos:
  assumes "counts_ok p a" and "i < length (flags a)"
  shows "resident (flags a ! i) \<Longrightarrow> 0 < l_pages a" and "charged (flags a ! i) \<Longrightarrow> 0 < c_pages a"
    and "dirty (flags a ! i) \<Longrightarrow> 0 < d_pages a"
  using assms filter_pos [of i "flags a"] by (auto simp: counts_ok_def)

lemma evict_page_counts:
  assumes "counts_ok p a" and "i < length (flags a)"
  shows "counts_ok (p + of_bool (dirty (flags a ! i))) (evict_page i a)"
proof -
  have "counts_ok (p + of_bool (dirty (flags a ! i)))
     (set_flag (a\<lparr>l_pages := l_pages a - of_bool (resident (flags a ! i)),
                  c_pages := c_pages a - of_bool (charged (flags a ! i)), d_pages := d_pages a\<rparr>)
        i (evict_flag (flags a ! i)))"
    by (rule counts_ok_step [OF assms]) (use counts_ok_pos [OF assms] in \<open>auto simp: Suc_leI\<close>)
  then show ?thesis by (simp add: evict_page_def)
qed

lemma evict_page_pages: "pages_ok a \<Longrightarrow> pages_ok (evict_page i a)"
  by (cases "i < length (flags a)") (auto simp: pages_ok_def list_all_length nth_list_update)

lemma swap_o_clean_eq:
  assumes "counts_ok p a" and "i < length (flags a)" and "page_ok (flags a ! i)" and "\<not> dirty (flags a ! i)"
  shows "swap_o_clean i a = Some (evict_page i a)"
  using assms(2-) counts_ok_pos [OF assms(1,2)]
  by (auto simp: swap_o_clean_def evict_page_def evict_flag_def set_flag_def page_ok_def)

lemma swap_o_dirty_eq:
  assumes "counts_ok p a" and "i < length (flags a)" and "page_ok (flags a ! i)" and "dirty (flags a ! i)"
  shows "swap_o_dirty i a = Some (evict_page i a)"
  using assms(2-) counts_ok_pos [OF assms(1,2)]
  by (auto simp: swap_o_dirty_def evict_page_def evict_flag_def set_flag_def page_ok_def)

definition pending :: "nat option \<Rightarrow> nat \<Rightarrow> nat" where
  "pending ipfirst ip = (case ipfirst of None \<Rightarrow> 0 | Some p \<Rightarrow> ip - p)"

definition o_flushed ::
  "nat \<Rightarrow> string \<Rightarrow> nat \<Rightarrow> nat \<Rightarrow> ate \<Rightarrow> os \<Rightarrow> nat \<Rightarrow> bool \<times> nat \<times> ate \<times> os \<Rightarrow> bool" where
  "o_flushed ps fname p ip a s numwr r \<longleftrightarrow> (case r of (go, nw, a', s') \<Rightarrow>
     files s' fname \<noteq> None \<and> (\<forall>g. g \<noteq> fname \<longrightarrow> files s' g = files s g) \<and>
     set (grants s') \<subseteq> set (grants s) \<and>
     a' = (if go then a\<lparr>d_pages := d_pages a - (ip - p)\<rparr> else a) \<and> (faults s = [] \<longrightarrow> go \<and> faults s' = []) \<and>
     (go \<longrightarrow> nw = numwr + (ip - p) \<and> counts_ok 0 a' \<and>
        (grants s = [] \<longrightarrow>
           grants s' = [] \<and> wrote fname (\<lambda>i. p \<le> i div ps \<and> i div ps < ip) (data a) s s')))"

lemma page_le: "0 < ps \<Longrightarrow> p * ps \<le> i \<longleftrightarrow> p \<le> i div ps" for ps :: nat
  by (simp add: less_eq_div_iff_mult_less_eq)

lemma page_less: "0 < ps \<Longrightarrow> i < p * ps \<longleftrightarrow> i div ps < p" for ps :: nat
  by (simp add: div_less_iff_less_mult)

lemma swap_o_flush_spec:
  assumes "files s fname \<noteq> None" and "p < ip" and "0 < ps" and "counts_ok (ip - p) a"
  shows "returns (moves s) (swap_o_flush ps fname p ip a s numwr) (o_flushed ps fname p ip a s numwr)"
proof -
  have len: "0 < (ip - p) * ps" "p * ps + (ip - p) * ps = ip * ps"
    using assms(2,3) by (auto simp flip: add_mult_distrib)
  show ?thesis
  proof (rule returnsE [OF vmm_write_returns [OF assms(1) len(1), of "data a" "p * ps" "p * ps"]])
    assume "vmm_write fname (data a) (p * ps) ((ip - p) * ps) (p * ps) s = None" "\<not> moves s"
    then show ?thesis by (simp add: swap_o_flush_def)
  next
    fix r assume "vmm_write fname (data a) (p * ps) ((ip - p) * ps) (p * ps) s = Some r" and "has_written fname s r"
    then obtain ret s' where w: "vmm_write fname (data a) (p * ps) ((ip - p) * ps) (p * ps) s = Some (ret, s')"
      and h: "has_written fname s (ret, s')" by (cases r) auto
    have d: "ip - p \<le> d_pages a" using assms(4) by (simp add: counts_ok_def)
    from vmm_write_full [OF w] h len(2)
    have full: "ret = 0 \<Longrightarrow> grants s = [] \<Longrightarrow>
        grants s' = [] \<and> wrote fname (\<lambda>i. p \<le> i div ps \<and> i div ps < ip) (data a) s s'"
      by (auto simp: page_le page_less assms(3))
    have co: "counts_ok 0 (a\<lparr>d_pages := d_pages a - (ip - p)\<rparr>)" using assms(4) by (simp add: counts_ok_def)
    consider "ret = 0" | "ret = -1" using h by (auto simp: has_written_def)
    then show ?thesis
      by cases (use w d h co full in \<open>simp_all add: swap_o_flush_def o_flushed_def has_written_def\<close>)
  qed
qed

definition span :: "nat \<Rightarrow> nat \<Rightarrow> 'a list \<Rightarrow> 'a list" where
  "span b n xs = take n (drop b xs)"

lemma span_0 [simp]: "span b 0 xs = []"
  by (simp add: span_def)

lemma span_Suc: "b < length xs \<Longrightarrow> span b (Suc n) xs = xs ! b # span (Suc b) n xs"
  by (simp add: span_def Cons_nth_drop_Suc [symmetric])

lemma span_update [simp]: "b < c \<Longrightarrow> span c n (xs[b := v]) = span c n xs"
  by (simp add: span_def)

text \<open>The pages that a loop transfers from the state with \<open>k\<close> pages to go: the pending
  run and the coming pages with property \<open>P\<close>.\<close>

definition run_page :: "(byte \<Rightarrow> bool) \<Rightarrow> nat \<Rightarrow> nat \<Rightarrow> nat option \<Rightarrow> byte list \<Rightarrow> nat \<Rightarrow> bool" where
  "run_page P k ip ipfirst fs q \<longleftrightarrow>
     (case ipfirst of None \<Rightarrow> False | Some p \<Rightarrow> p \<le> q \<and> q < ip) \<or>
     (ip \<le> q \<and> q < ip + k \<and> P (fs ! q))"

lemma run_page_0 [simp]:
  "run_page P 0 ip None fs q = False" "run_page P 0 ip (Some p) fs q \<longleftrightarrow> p \<le> q \<and> q < ip"
  by (auto simp: run_page_def)

lemma run_page_step:
  "ip < length fs \<Longrightarrow> (\<And>p. ipfirst = Some p \<Longrightarrow> p < ip) \<Longrightarrow> P (fs ! ip) \<Longrightarrow>
     run_page P k (Suc ip) (Some (case ipfirst of None \<Rightarrow> ip | Some p \<Rightarrow> p)) (fs[ip := v]) q =
     run_page P (Suc k) ip ipfirst fs q"
  "\<not> P (fs ! ip) \<Longrightarrow> run_page P k (Suc ip) None (fs[ip := v]) q = run_page P (Suc k) ip None fs q"
  "\<not> P (fs ! ip) \<Longrightarrow>
     run_page P (Suc k) ip (Some p) fs q \<longleftrightarrow> p \<le> q \<and> q < ip \<or> run_page P k (Suc ip) None (fs[ip := v]) q"
  by (cases "q = ip"; force simp: run_page_def less_Suc_eq split: option.splits)+

lemma pending_run:
  "(\<And>p. ipfirst = Some p \<Longrightarrow> p < ip) \<Longrightarrow>
     pending (Some (case ipfirst of None \<Rightarrow> ip | Some p \<Rightarrow> p)) (Suc ip) = Suc (pending ipfirst ip)"
  by (auto simp: pending_def Suc_diff_le order.strict_implies_order split: option.splits)

text \<open>The loop fails no assertion but that of a write that moves nothing; when every write succeeds
  it evicts exactly the range, and when no write is short the file afterwards has the bytes of the dirty pages.\<close>

definition o_post ::
  "nat \<Rightarrow> string \<Rightarrow> nat \<Rightarrow> nat \<Rightarrow> nat option \<Rightarrow> ate \<Rightarrow> os \<Rightarrow> nat \<Rightarrow> bool \<times> nat \<times> ate \<times> os \<Rightarrow> bool" where
  "o_post ps fname k ip ipfirst a s numwr r \<longleftrightarrow> (case r of (go, nw, a', s') \<Rightarrow>
     n_pages a' = n_pages a \<and> data a' = data a \<and> prots a' = prots a \<and> base a' = base a \<and> addr a' = addr a \<and>
     files s' fname \<noteq> None \<and> (\<forall>g. g \<noteq> fname \<longrightarrow> files s' g = files s g) \<and>
     set (grants s') \<subseteq> set (grants s) \<and> (faults s = [] \<longrightarrow> go \<and> faults s' = []) \<and>
     (go \<longrightarrow> flags a' = map_range ip k evict_flag (flags a) \<and> counts_ok 0 a' \<and>
        nw = numwr + pending ipfirst ip + length (filter dirty (span ip k (flags a))) \<and>
        (grants s = [] \<longrightarrow>
           grants s' = [] \<and> wrote fname (\<lambda>i. run_page dirty k ip ipfirst (flags a) (i div ps)) (data a) s s')))"

lemma o_post_dirty:
  assumes post: "o_post ps fname k (Suc ip) (Some (case ipfirst of None \<Rightarrow> ip | Some p \<Rightarrow> p)) (evict_page ip a) s numwr r"
    and "ip < length (flags a)" and "\<And>p. ipfirst = Some p \<Longrightarrow> p < ip" and "dirty (flags a ! ip)"
  shows "o_post ps fname (Suc k) ip ipfirst a s numwr r"
proof -
  have "pending (Some (case ipfirst of None \<Rightarrow> ip | Some p \<Rightarrow> p)) (Suc ip) = Suc (pending ipfirst ip)"
    using assms(3) by (rule pending_run)
  with post assms(2-) show ?thesis
    by (simp add: o_post_def map_range_Suc span_Suc run_page_step split: prod.splits)
qed

lemma o_post_clean:
  assumes "o_post ps fname k (Suc ip) None (evict_page ip a) s numwr r"
    and "ip < length (flags a)" and "\<not> dirty (flags a ! ip)"
  shows "o_post ps fname (Suc k) ip None a s numwr r"
  using assms by (simp add: o_post_def map_range_Suc span_Suc pending_def run_page_step)

lemma o_post_flush:
  assumes post: "o_post ps fname k (Suc ip) None a' s' nw r"
    and a': "a' = (evict_page ip a)\<lparr>d_pages := d\<rparr>"
    and "ip < length (flags a)" and "\<not> dirty (flags a ! ip)" and nw: "nw = numwr + (ip - p)"
    and s': "\<And>g. g \<noteq> fname \<Longrightarrow> files s' g = files s g" "faults s = [] \<Longrightarrow> faults s' = []" "set (grants s') \<subseteq> set (grants s)"
    and w: "grants s = [] \<Longrightarrow> grants s' = [] \<and> wrote fname (\<lambda>i. p \<le> i div ps \<and> i div ps < ip) (data a) s s'"
  shows "o_post ps fname (Suc k) ip (Some p) a s numwr r"
proof -
  obtain go n b t where r: "r = (go, n, b, t)" by (cases r)
  note po = post [unfolded r o_post_def, simplified]
  have "wrote fname (\<lambda>i. run_page dirty (Suc k) ip (Some p) (flags a) (i div ps)) (data a) s t"
    if "go" "grants s = []"
  proof (rule wrote_trans)
    show "wrote fname (\<lambda>i. p \<le> i div ps \<and> i div ps < ip) (data a) s s'" using w that by simp
    show "wrote fname (\<lambda>i. run_page dirty k (Suc ip) None (flags a') (i div ps)) (data a) s' t"
      using po w that a' by simp
  qed (use assms(4) a' in \<open>auto simp: run_page_step(3)\<close>)
  then show ?thesis
    using po assms(3-4) s' w by (auto simp: r o_post_def map_range_Suc span_Suc pending_def nw a')
qed

lemma swap_o_loop_spec:
  assumes "counts_ok (pending ipfirst ip) a" and "pages_ok a" and "ip + k \<le> n_pages a" and "0 < ps"
    and "files s fname \<noteq> None" and "\<And>p. ipfirst = Some p \<Longrightarrow> p < ip"
  shows "returns (moves s) (swap_o_loop ps fname k ip ipfirst a s numwr) (o_post ps fname k ip ipfirst a s numwr)"
  using assms
proof (induction k arbitrary: ip ipfirst a s numwr)
  case 0
  show ?case
  proof (cases ipfirst)
    case None
    with 0 show ?thesis
      using wrote_none [of s fname _ s "data a"] by (auto simp: o_post_def pending_def)
  next
    case (Some p)
    then have p: "p < ip" "counts_ok (ip - p) a" using 0 by (auto simp: pending_def)
    from swap_o_flush_spec [OF 0(5) p(1) 0(4) p(2), of numwr]
    have "returns (moves s) (swap_o_flush ps fname p ip a s numwr) (o_post ps fname 0 ip (Some p) a s numwr)"
      by (rule returns_mono) (auto simp: o_post_def o_flushed_def pending_def)
    with Some show ?thesis by simp
  qed
next
  case (Suc k)
  let ?f = "flags a ! ip"
  have ip: "ip < length (flags a)" using Suc.prems(1,3) by (simp add: counts_ok_def)
  have pg: "page_ok ?f" using Suc.prems(2) ip by (rule pages_ok_nth)
  have ev: "pages_ok (evict_page ip a)" using Suc.prems(2) by (rule evict_page_pages)
  have co: "counts_ok (pending ipfirst ip + of_bool (dirty ?f)) (evict_page ip a)"
    using Suc.prems(1) ip by (rule evict_page_counts)
  have nxt: "\<not> dirty ?f \<Longrightarrow> ((flags a)[ip := evict_flag ?f]) ! ip = evict_flag ?f" using ip by simp
  show ?case
  proof (cases "dirty ?f")
    case True
    let ?q = "Some (case ipfirst of None \<Rightarrow> ip | Some p \<Rightarrow> p)"
    have "counts_ok (pending ?q (Suc ip)) (evict_page ip a)"
      using co True pending_run [OF Suc.prems(6)] by simp
    then have "returns (moves s) (swap_o_loop ps fname k (Suc ip) ?q (evict_page ip a) s numwr)
        (o_post ps fname k (Suc ip) ?q (evict_page ip a) s numwr)"
      by (rule Suc.IH) (use Suc.prems ev in \<open>auto split: option.splits dest: less_SucI\<close>)
    then have "returns (moves s) (swap_o_loop ps fname k (Suc ip) ?q (evict_page ip a) s numwr)
        (o_post ps fname (Suc k) ip ipfirst a s numwr)"
      by (rule returns_mono) (use o_post_dirty ip Suc.prems(6) True in blast)+
    with True ip swap_o_dirty_eq [OF Suc.prems(1) ip pg True] show ?thesis by simp
  next
    case False
    note cl = swap_o_clean_eq [OF Suc.prems(1) ip pg False]
    show ?thesis
    proof (cases ipfirst)
      case None
      have "returns (moves s) (swap_o_loop ps fname k (Suc ip) None (evict_page ip a) s numwr)
          (o_post ps fname k (Suc ip) None (evict_page ip a) s numwr)"
        by (rule Suc.IH) (use Suc.prems ev co None False in \<open>auto simp: pending_def\<close>)
      then have "returns (moves s) (swap_o_loop ps fname k (Suc ip) None (evict_page ip a) s numwr)
          (o_post ps fname (Suc k) ip None a s numwr)"
        by (rule returns_mono) (use o_post_clean ip False in blast)+
      with None False cl ip show ?thesis by simp
    next
      case (Some p)
      then have p: "p < ip" "counts_ok (ip - p) (evict_page ip a)"
        using co False Suc.prems(6) by (auto simp: pending_def)
      show ?thesis
      proof (rule returnsE [OF swap_o_flush_spec [OF Suc.prems(5) p(1) Suc.prems(4) p(2), of numwr]])
        assume "swap_o_flush ps fname p ip (evict_page ip a) s numwr = None" "\<not> moves s"
        with Some False cl ip show ?thesis by simp
      next
        fix r assume "swap_o_flush ps fname p ip (evict_page ip a) s numwr = Some r"
          and "o_flushed ps fname p ip (evict_page ip a) s numwr r"
        then obtain go nw a' s' where fl: "swap_o_flush ps fname p ip (evict_page ip a) s numwr = Some (go, nw, a', s')"
          and po: "o_flushed ps fname p ip (evict_page ip a) s numwr (go, nw, a', s')" by (cases r) auto
        note po = po [unfolded o_flushed_def, simplified]
        show ?thesis
        proof (cases go)
          case True
          have "pages_ok a'" using ev po True by (simp add: pages_ok_def)
          then have "returns (moves s') (swap_o_loop ps fname k (Suc ip) None a' s' nw) (o_post ps fname k (Suc ip) None a' s' nw)"
            by (intro Suc.IH) (use Suc.prems po True in \<open>auto simp: pending_def\<close>)
          then have "returns (moves s) (swap_o_loop ps fname k (Suc ip) None a' s' nw) (o_post ps fname (Suc k) ip (Some p) a s numwr)"
          proof (rule returns_mono)
            show "moves s'" if "moves s" using moves_mono [OF _ that] po by simp
            show "o_post ps fname (Suc k) ip (Some p) a s numwr r" if "o_post ps fname k (Suc ip) None a' s' nw r" for r
              by (rule o_post_flush [OF that]) (use True ip False po in auto)
          qed
          with True Some False cl ip fl show ?thesis by simp
        next
          case go: False
          with Some False cl ip fl po show ?thesis by (simp add: o_post_def)
        qed
      qed
    qed
  qed
qed

subsection \<open>What an allocation holds\<close>

text \<open>
  The bytes of an allocation, wherever they are: \<open>disk_byte\<close> is what a later swap-in
  would fetch, \<open>holds\<close> that position \<open>i\<close> has the value \<open>v\<close> now and keeps it when its
  page is evicted.  \<open>sound\<close> is the invariant of an entry and its file: the counters,
  protections and status bytes agree, every page that must be read from disk is within
  the file, and a page that is not resident has no contents in memory.
\<close>

definition disk_byte :: "byte list \<Rightarrow> byte \<Rightarrow> nat \<Rightarrow> byte" where
  "disk_byte f fl i = (if on_disk fl then byte_at f i else 0)"

definition holds :: "nat \<Rightarrow> byte list \<Rightarrow> ate \<Rightarrow> nat \<Rightarrow> byte \<Rightarrow> bool" where
  "holds ps f a i v \<longleftrightarrow>
     (let fl = flags a ! (i div ps) in
      (resident fl \<longrightarrow> data a i = v) \<and> (\<not> (resident fl \<and> dirty fl) \<longrightarrow> disk_byte f fl i = v))"

definition filed :: "nat \<Rightarrow> byte list \<Rightarrow> ate \<Rightarrow> bool" where
  "filed ps f a \<longleftrightarrow> (\<forall>q < length (flags a). on_disk (flags a ! q) \<longrightarrow> Suc q * ps \<le> length f)"

definition zeroed :: "nat \<Rightarrow> ate \<Rightarrow> bool" where
  "zeroed ps a \<longleftrightarrow> (\<forall>i. i div ps < length (flags a) \<longrightarrow> \<not> resident (flags a ! (i div ps)) \<longrightarrow> data a i = 0)"

definition sound :: "nat \<Rightarrow> byte list \<Rightarrow> ate \<Rightarrow> bool" where
  "sound ps f a \<longleftrightarrow> wf_ate a \<and> filed ps f a \<and> zeroed ps a"

lemma swap_o_drop_cases:
  obtains "fst (swap_o_drop ps opts beg num a s) = False"
  | s' where "swap_o_drop ps opts beg num a s = (True, drop_pages ps beg num (set_prot beg num PROT_NONE a), s')"
proof (cases "swap_o_drop ps opts beg num a s")
  case (fields ok b t)
  then show ?thesis
    by (cases ok) (auto simp: swap_o_drop_def intro: that split: prod.splits bool.splits)
qed

lemma swap_o_drop_same:
  assumes "swap_o_drop ps opts beg num a s = (ok, b, t)"
  shows "n_pages b = n_pages a" and "base b = base a" and "addr b = addr a"
  using assms by (auto simp: swap_o_drop_def drop_pages_def set_prot_def split: prod.splits bool.splits)

lemma swap_o_drop_frame:
  "files (snd (snd (swap_o_drop ps opts beg num a s))) = files s"
  "grants (snd (snd (swap_o_drop ps opts beg num a s))) = grants s"
  "faults s = [] \<Longrightarrow> fst (swap_o_drop ps opts beg num a s) \<and> faults (snd (snd (swap_o_drop ps opts beg num a s))) = []"
proof -
  obtain o1 s1 where 1: "sys_call s = (o1, s1)" by fastforce
  obtain o2 s2 where 2: "(if has opts VMM_MLOCK then sys_call s1 else (True, s1)) = (o2, s2)" by fastforce
  obtain o3 s3 where 3: "sys_call s2 = (o3, s3)" by fastforce
  obtain o4 s4 where 4: "sys_call s3 = (o4, s4)" by fastforce
  have f2: "files s2 = files s1" "grants s2 = grants s1" "faults s1 = [] \<longrightarrow> o2 \<and> s2 = s1"
    using 2 sys_call_facts [of s1 o2 s2] by (auto split: if_splits)
  note f = sys_call_facts [OF 1] f2 sys_call_facts [OF 3] sys_call_facts [OF 4]
  show "files (snd (snd (swap_o_drop ps opts beg num a s))) = files s"
    "grants (snd (snd (swap_o_drop ps opts beg num a s))) = grants s"
    by (cases o1; cases o2; cases o3; cases o4; simp add: swap_o_drop_def 1 2 3 4 f)+
  show "faults s = [] \<Longrightarrow> fst (swap_o_drop ps opts beg num a s) \<and> faults (snd (snd (swap_o_drop ps opts beg num a s))) = []"
    by (simp add: swap_o_drop_def)
qed

definition evicted :: "nat \<Rightarrow> nat \<Rightarrow> ate \<Rightarrow> ate \<Rightarrow> bool" where
  "evicted beg num a a' \<longleftrightarrow>
     flags a' = map_range beg num evict_flag (flags a) \<and> counts_ok 0 a' \<and> n_pages a' = n_pages a \<and>
     data a' = data a \<and> prots a' = prots a \<and> base a' = base a \<and> addr a' = addr a"

lemma evicted_wf:
  assumes "wf_ate a" and "evicted beg num a a'"
  shows "wf_ate (drop_pages ps beg num (set_prot beg num PROT_NONE a'))"
proof -
  have "prots a = map prot_of (flags a)" using assms(1) by (simp add: wf_ate_def prots_ok_def)
  then have "map_range beg num (\<lambda>_. PROT_NONE) (prots a) = map prot_of (map_range beg num evict_flag (flags a))"
    by (intro nth_equalityI) (auto simp: prot_of_def)
  moreover have "list_all page_ok (map_range beg num evict_flag (flags a))"
    using assms(1) by (auto simp: wf_ate_def pages_ok_def list_all_length)
  ultimately show ?thesis
    using assms by (auto simp: wf_ate_def evicted_def prots_ok_def pages_ok_def counts_ok_def
        drop_pages_def set_prot_def)
qed

lemma page_end: "(\<And>j. j div ps = p \<Longrightarrow> j < L) \<Longrightarrow> 0 < ps \<Longrightarrow> Suc p * ps \<le> L" for ps :: nat
proof -
  assume *: "\<And>j. j div ps = p \<Longrightarrow> j < L" and ps: "0 < ps"
  have "(Suc p * ps - 1) div ps = p"
    using ps by (intro div_nat_eqI) (auto simp: algebra_simps)
  from * [OF this] show ?thesis using ps by simp
qed

lemma evicted_sound:
  assumes sd: "sound ps f a" and ev: "evicted beg num a a'" and ps: "0 < ps"
    and fs: "files s fname = Some f"
    and w: "wrote fname (\<lambda>i. run_page dirty num beg None (flags a) (i div ps)) (data a) s s'"
  shows "\<exists>f'. files s' fname = Some f' \<and>
           sound ps f' (drop_pages ps beg num (set_prot beg num PROT_NONE a')) \<and>
           (\<forall>i v. i div ps < n_pages a \<longrightarrow> holds ps f a i v \<longrightarrow>
              holds ps f' (drop_pages ps beg num (set_prot beg num PROT_NONE a')) i v)"
proof -
  let ?b = "drop_pages ps beg num (set_prot beg num PROT_NONE a')"
  have n: "n_pages a = length (flags a)" using sd by (simp add: sound_def wf_ate_def counts_ok_def)
  obtain f' where f': "files s' fname = Some f'" "length f \<le> length f'"
    "\<And>i. byte_at f' i = (if run_page dirty num beg None (flags a) (i div ps) then data a i else byte_at f i)"
    "\<And>i. run_page dirty num beg None (flags a) (i div ps) \<Longrightarrow> i < length f'"
    using w fs by (auto simp: wrote_def)
  have fl: "flags ?b = map_range beg num evict_flag (flags a)"
    and dt: "data ?b = (\<lambda>i. if beg \<le> i div ps \<and> i div ps < beg + num then 0 else data a i)"
    using ev ps by (auto simp: drop_pages_def set_prot_def evicted_def page_le page_less fun_eq_iff)
  have "Suc q * ps \<le> length f'" if q: "q < length (flags a)" "on_disk (flags ?b ! q)" for q
  proof (cases "run_page dirty num beg None (flags a) q")
    case True
    then show ?thesis using page_end [of ps q "length f'"] f'(4) ps by simp
  next
    case False
    then have "on_disk (flags a ! q)" using q by (auto simp: fl run_page_def split: if_splits)
    then show ?thesis using sd q f'(2) by (auto simp: sound_def filed_def intro: order_trans)
  qed
  moreover have "zeroed ps ?b"
    using sd by (auto simp: zeroed_def fl dt sound_def)
  ultimately have "sound ps f' ?b"
    using evicted_wf [OF _ ev] sd by (simp add: sound_def filed_def fl)
  moreover have "holds ps f' ?b i v" if "i div ps < n_pages a" "holds ps f a i v" for i v
    using that n pages_ok_nth [of a "i div ps"] sd
    by (auto simp: holds_def fl dt disk_byte_def f'(3) run_page_def Let_def sound_def wf_ate_def page_ok_def)
  ultimately show ?thesis using f'(1) by blast
qed

text \<open>The result of \<open>vmm_swap_o\<close>, for every behaviour of the operating system.\<close>

definition swapped_out ::
  "nat \<Rightarrow> string \<Rightarrow> byte list \<Rightarrow> nat \<Rightarrow> nat \<Rightarrow> ate \<Rightarrow> os \<Rightarrow> int \<times> ate \<times> os \<Rightarrow> bool" where
  "swapped_out ps fname f beg num a s r \<longleftrightarrow> (case r of (ret, a', s') \<Rightarrow>
     n_pages a' = n_pages a \<and> base a' = base a \<and> addr a' = addr a \<and>
     (\<forall>g. g \<noteq> fname \<longrightarrow> files s' g = files s g) \<and>
     (faults s = [] \<longrightarrow> faults s' = [] \<and> ret = to_int (length (filter dirty (span beg num (flags a))))) \<and>
     (ret \<noteq> -1 \<longrightarrow>
        wf_ate a' \<and> ret = to_int (length (filter dirty (span beg num (flags a)))) \<and>
        flags a' = (if l_pages a = 0 then flags a else map_range beg num evict_flag (flags a)) \<and>
        (grants s = [] \<longrightarrow>
           grants s' = [] \<and> (\<exists>f'. files s' fname = Some f' \<and> sound ps f' a' \<and>
             (\<forall>i v. i div ps < n_pages a \<longrightarrow> holds ps f a i v \<longrightarrow> holds ps f' a' i v)))))"

lemma no_resident:
  assumes "wf_ate a" and "l_pages a = 0"
  shows "filter dirty (span beg num (flags a)) = []"
proof -
  have "\<not> dirty f" if "f \<in> set (flags a)" for f
    using assms that by (auto simp: wf_ate_def counts_ok_def pages_ok_def list_all_iff page_ok_def
        filter_empty_conv)
  moreover have "set (span beg num (flags a)) \<subseteq> set (flags a)"
    by (auto simp: span_def dest: in_set_takeD in_set_dropD)
  ultimately show ?thesis by (auto simp: filter_empty_conv)
qed

lemma os_open_frame:
  assumes "os_open fname s = (ok, t)"
  shows "files t = files s" and "grants t = grants s"
    and "faults s = [] \<Longrightarrow> faults t = [] \<and> (files s fname \<noteq> None \<longrightarrow> ok)"
  using sys_call_frame [of s] assms by (cases "sys_call s"; force simp add: os_open_def; fail)+

lemma swap_o_spec:
  assumes sd: "sound ps f a" and ps: "0 < ps" and fs: "files s fname = Some f"
    and rng: "beg + num \<le> n_pages a"
  shows "returns (moves s) (vmm_swap_o ps opts fname a beg num s) (swapped_out ps fname f beg num a s)"
proof -
  have wf: "wf_ate a" using sd by (simp add: sound_def)
  have pre: "num \<le> n_pages a" "beg \<le> n_pages a - num" using rng by auto
  obtain ok t where op: "os_open fname s = (ok, t)" by fastforce
  have t: "files t = files s" "grants t = grants s" "faults s = [] \<Longrightarrow> faults t = [] \<and> ok"
    using os_open_frame [OF op] fs by auto
  consider "num = 0" | "l_pages a = 0" | "0 < num" "0 < l_pages a" "\<not> ok" | "0 < num" "0 < l_pages a" "ok" by auto
  then show ?thesis
  proof cases
    case 4
    have "counts_ok (pending None beg) a" "pages_ok a" "files t fname \<noteq> None"
      using wf fs t by (simp_all add: wf_ate_def pending_def)
    from swap_o_loop_spec [OF this(1,2) rng ps this(3), of 0]
    have lps: "returns (moves t) (swap_o_loop ps fname num beg None a t 0) (o_post ps fname num beg None a t 0)" by simp
    show ?thesis
    proof (rule returnsE [OF lps])
      assume "swap_o_loop ps fname num beg None a t 0 = None" and "\<not> moves t"
      then show ?thesis using 4 pre op t by (simp add: vmm_swap_o_def moves_def)
    next
      fix r assume "swap_o_loop ps fname num beg None a t 0 = Some r" and "o_post ps fname num beg None a t 0 r"
      then obtain go nw a' s' where lp: "swap_o_loop ps fname num beg None a t 0 = Some (go, nw, a', s')"
        and post: "o_post ps fname num beg None a t 0 (go, nw, a', s')" by (cases r) auto
      note po = post [unfolded o_post_def pending_def, simplified]
      show ?thesis
      proof (cases go)
        case True
        have ev: "evicted beg num a a'" using po True by (simp add: evicted_def)
        have u: "files (snd (snd (swap_o_drop ps opts beg num a' s'))) = files s'"
          "grants (snd (snd (swap_o_drop ps opts beg num a' s'))) = grants s'" by (rule swap_o_drop_frame)+
        have nf: "faults s = [] \<Longrightarrow> fst (swap_o_drop ps opts beg num a' s') \<and>
            faults (snd (snd (swap_o_drop ps opts beg num a' s'))) = []"
          using po t swap_o_drop_frame(3) by blast
        show ?thesis
        proof (cases rule: swap_o_drop_cases [of ps opts beg num a' s'])
          case 1
          then show ?thesis using 4 pre op lp True po u t nf
            by (cases "swap_o_drop ps opts beg num a' s'")
              (auto simp: vmm_swap_o_def swapped_out_def dest: swap_o_drop_same)
        next
          case (2 u')
          let ?b = "drop_pages ps beg num (set_prot beg num PROT_NONE a')"
          have b: "wf_ate ?b" using wf ev by (rule evicted_wf)
          moreover have "\<exists>f'. files u' fname = Some f' \<and> sound ps f' ?b \<and>
              (\<forall>i v. i div ps < n_pages a \<longrightarrow> holds ps f a i v \<longrightarrow> holds ps f' ?b i v)" if "grants s = []"
            using evicted_sound [OF sd ev ps, of t fname s'] that fs po t True u 2 by auto
          ultimately have "swapped_out ps fname f beg num a s (to_int nw, ?b, u')"
            using po True u 2 t 4 nf by (auto simp: swapped_out_def drop_pages_def set_prot_def)
          then show ?thesis using 4 pre op lp True 2 by (simp add: vmm_swap_o_def)
        qed
      next
        case False
        then show ?thesis using 4 pre op lp po t by (auto simp: vmm_swap_o_def swapped_out_def)
      qed
    qed
  qed (use pre wf sd fs no_resident [OF wf] op t in \<open>auto simp: vmm_swap_o_def swapped_out_def to_int_def\<close>)
qed

subsection \<open>Swapping in: the loop\<close>

definition touch_flag :: "byte \<Rightarrow> byte" where
  "touch_flag f = (if resident f then f else f AND NOT (MMU_CHRGD OR MMU_RSDNT))"

definition fetch :: "byte \<Rightarrow> bool" where
  "fetch f \<longleftrightarrow> \<not> resident f \<and> on_disk f \<and> \<not> dirty f"

lemma touch_flag_bits [simp]:
  "resident (touch_flag f)" "dirty (touch_flag f) = dirty f" "on_disk (touch_flag f) = on_disk f"
  "page_ok f \<Longrightarrow> charged (touch_flag f)" "page_ok f \<Longrightarrow> page_ok (touch_flag f)"
  by (auto simp: touch_flag_def flag_ops page_ok_def)

definition touch_page :: "nat \<Rightarrow> ate \<Rightarrow> ate" where
  "touch_page i a =
     set_flag (a\<lparr>l_pages := l_pages a + of_bool (\<not> resident (flags a ! i)),
                c_pages := c_pages a + of_bool (\<not> charged (flags a ! i))\<rparr>) i (touch_flag (flags a ! i))"

lemma touch_page_simps [simp]:
  "flags (touch_page i a) = (flags a)[i := touch_flag (flags a ! i)]" "n_pages (touch_page i a) = n_pages a"
  "data (touch_page i a) = data a" "prots (touch_page i a) = prots a" "d_pages (touch_page i a) = d_pages a"
  "base (touch_page i a) = base a" "addr (touch_page i a) = addr a"
  by (simp_all add: touch_page_def)

lemma touch_page_counts:
  assumes "counts_ok 0 a" and "i < length (flags a)" and "page_ok (flags a ! i)"
  shows "counts_ok 0 (touch_page i a)"
proof -
  have "counts_ok 0
     (set_flag (a\<lparr>l_pages := l_pages a + of_bool (\<not> resident (flags a ! i)),
                  c_pages := c_pages a + of_bool (\<not> charged (flags a ! i)), d_pages := d_pages a\<rparr>)
        i (touch_flag (flags a ! i)))"
    by (rule counts_ok_step [OF assms(1,2)]) (use assms(3) in auto)
  then show ?thesis by (simp add: touch_page_def)
qed

lemma touch_page_pages: "pages_ok a \<Longrightarrow> pages_ok (touch_page i a)"
  by (cases "i < length (flags a)") (auto simp: pages_ok_def list_all_length nth_list_update)

lemma swap_i_mark_eq:
  assumes "counts_ok 0 a" and "i < length (flags a)" and "page_ok (flags a ! i)"
  shows "swap_i_mark i a = Some (touch_page i a)"
proof -
  have "\<not> resident (flags a ! i) \<Longrightarrow> l_pages a < n_pages a" "\<not> charged (flags a ! i) \<Longrightarrow> c_pages a < n_pages a"
    using assms(1) filter_less [OF assms(2)] by (auto simp: counts_ok_def)
  then show ?thesis
    using assms(2,3) by (auto simp: swap_i_mark_def touch_page_def touch_flag_def set_flag_def page_ok_def)
qed

definition i_flushed ::
  "nat \<Rightarrow> byte list \<Rightarrow> cint \<Rightarrow> nat \<Rightarrow> nat \<Rightarrow> ate \<Rightarrow> os \<Rightarrow> nat \<Rightarrow> bool \<times> nat \<times> ate \<times> (nat \<Rightarrow> byte) \<times> os \<Rightarrow> bool" where
  "i_flushed ps f ghost p ip a s numrd r \<longleftrightarrow> (case r of (go, nr, a', tmp, s') \<Rightarrow>
     files s' = files s \<and> set (grants s') \<subseteq> set (grants s) \<and> (faults s = [] \<longrightarrow> go \<and> faults s' = []) \<and>
     a' = a\<lparr>data := data a', prots := prots a'\<rparr> \<and>
     (go \<longrightarrow> nr = numrd + (ip - p) \<and>
        data a' = (\<lambda>i. if p \<le> i div ps \<and> i div ps < ip then byte_at f i else data a i) \<and>
        prots a' = (if ghost = VMM_GHOST then map_range p (ip - p) (\<lambda>_. PROT_READ) (prots a) else prots a)))"

lemma run_length:
  assumes "0 < ps" and "p < (ip::nat)"
  shows "0 < (ip - p) * ps" and "p * ps + (ip - p) * ps = ip * ps"
  using assms by (auto simp flip: add_mult_distrib)

lemma i_flushed_plain:
  assumes "vmm_read fname (data a) (p * ps) ((ip - p) * ps) (p * ps) s = Some (ret, m', s')"
    and "has_read f (data a) (p * ps) ((ip - p) * ps) (p * ps) s (ret, m', s')"
    and "ghost \<noteq> VMM_GHOST" and p: "p < ip" "beg \<le> p" and ps: "0 < ps"
  shows "returns m (swap_i_flush ps fname ghost beg p ip a tmp s numrd) (i_flushed ps f ghost p ip a s numrd)"
proof -
  have "beg * ps + (p - beg) * ps = p * ps" using p(2) by (simp flip: add_mult_distrib)
  with assms run_length(2) [OF ps p(1)] show ?thesis
    by (cases "ret = 0") (auto simp: swap_i_flush_def i_flushed_def has_read_def page_le page_less fun_eq_iff)
qed

lemma i_flushed_ghost:
  assumes rd: "vmm_read fname tmp ((p - beg) * ps) ((ip - p) * ps) (p * ps) s = Some (ret, m', s')"
      "has_read f tmp ((p - beg) * ps) ((ip - p) * ps) (p * ps) s (ret, m', s')"
    and g: "ghost = VMM_GHOST" and p: "p < ip" "beg \<le> p" and ps: "0 < ps"
  shows "returns m (swap_i_flush ps fname ghost beg p ip a tmp s numrd) (i_flushed ps f ghost p ip a s numrd)"
proof -
  note l = run_length [OF ps p(1)]
  have bp: "beg * ps + (p - beg) * ps = p * ps" using p(2) by (simp flip: add_mult_distrib)
  obtain ok t where t: "sys_call s' = (ok, t)" by fastforce
  obtain ok' u where u: "sys_call t = (ok', u)" by fastforce
  have fr: "files t = files s'" "grants t = grants s'" "files u = files s'" "grants u = grants s'"
    using sys_call_frame [of s'] sys_call_frame [of t] t u by simp_all
  have nf: "faults s' = [] \<longrightarrow> ok \<and> ok' \<and> faults t = [] \<and> faults u = []" using t u by auto
  have "m' (i - beg * ps) = byte_at f i" if "ret = 0" "p * ps \<le> i" "i < ip * ps" for i
  proof -
    have "(p - beg) * ps \<le> i - beg * ps" "i - beg * ps < (p - beg) * ps + (ip - p) * ps"
      "p * ps + (i - beg * ps) - (p - beg) * ps = i"
      using that bp l(2) by linarith+
    then show ?thesis using rd(2) that(1) by (simp add: has_read_def)
  qed
  then have m': "(\<lambda>i. if p * ps \<le> i \<and> i < ip * ps then m' (i - beg * ps) else data a i) =
      (\<lambda>i. if p \<le> i div ps \<and> i div ps < ip then byte_at f i else data a i)" if "ret = 0"
    using that ps by (auto simp: fun_eq_iff page_le page_less)
  consider "ret = -1" | "ret = 0" "\<not> ok" | "ret = 0" "ok" "\<not> ok'" | "ret = 0" "ok" "ok'"
    using rd(2) by (auto simp: has_read_def)
  then show ?thesis
    by cases (use g rd t u fr nf m' in \<open>auto simp: swap_i_flush_def i_flushed_def has_read_def set_prot_def\<close>)
qed

lemma swap_i_flush_spec:
  assumes fs: "files s fname = Some f" and p: "p < ip" "beg \<le> p" and ps: "0 < ps" and len: "ip * ps \<le> length f"
  shows "returns (moves s) (swap_i_flush ps fname ghost beg p ip a tmp s numrd) (i_flushed ps f ghost p ip a s numrd)"
proof -
  have l: "0 < (ip - p) * ps" and le: "p * ps + (ip - p) * ps \<le> length f"
    using run_length [OF ps p(1)] len by simp_all
  have bp: "beg * ps + (p - beg) * ps = p * ps" using p(2) by (simp flip: add_mult_distrib)
  show ?thesis
  proof (cases "ghost = VMM_GHOST")
    case False
    note fin = i_flushed_plain [OF _ _ False p ps]
    show ?thesis
    proof (rule returnsE [OF vmm_read_spec [OF fs l le, of "data a" "p * ps"]])
      fix r assume "vmm_read fname (data a) (p * ps) ((ip - p) * ps) (p * ps) s = Some r"
        and "has_read f (data a) (p * ps) ((ip - p) * ps) (p * ps) s r"
      then show ?thesis using fin by (cases r) blast
    qed (use False bp in \<open>simp add: swap_i_flush_def\<close>)
  next
    case True
    note fin = i_flushed_ghost [OF _ _ True p ps]
    show ?thesis
    proof (rule returnsE [OF vmm_read_spec [OF fs l le, of tmp "(p - beg) * ps"]])
      fix r assume "vmm_read fname tmp ((p - beg) * ps) ((ip - p) * ps) (p * ps) s = Some r"
        and "has_read f tmp ((p - beg) * ps) ((ip - p) * ps) (p * ps) s r"
      then show ?thesis using fin by (cases r) blast
    qed (use True in \<open>simp add: swap_i_flush_def\<close>)
  qed
qed

definition i_post ::
  "nat \<Rightarrow> byte list \<Rightarrow> cint \<Rightarrow> nat \<Rightarrow> nat \<Rightarrow> nat option \<Rightarrow> ate \<Rightarrow> os \<Rightarrow> nat \<Rightarrow>
     bool \<times> nat \<times> ate \<times> (nat \<Rightarrow> byte) \<times> os \<Rightarrow> bool" where
  "i_post ps f ghost k ip ipfirst a s numrd r \<longleftrightarrow> (case r of (go, nr, a', tmp, s') \<Rightarrow>
     files s' = files s \<and> set (grants s') \<subseteq> set (grants s) \<and> (faults s = [] \<longrightarrow> go \<and> faults s' = []) \<and>
     n_pages a' = n_pages a \<and> base a' = base a \<and> addr a' = addr a \<and>
     (go \<longrightarrow> flags a' = map_range ip k touch_flag (flags a) \<and> counts_ok 0 a' \<and>
        nr = numrd + pending ipfirst ip + length (filter fetch (span ip k (flags a))) \<and>
        data a' = (\<lambda>i. if run_page fetch k ip ipfirst (flags a) (i div ps) then byte_at f i else data a i) \<and>
        prots a' = (if ghost = VMM_GHOST
          then map (\<lambda>q. if run_page fetch k ip ipfirst (flags a) q then PROT_READ else prots a ! q)
                 [0..<length (prots a)]
          else prots a)))"

lemma i_post_grants: "i_post ps f ghost k ip ipfirst a s numrd (go, nr, a', tmp, s') \<Longrightarrow> grants s = [] \<longrightarrow> grants s' = []"
  by (auto simp: i_post_def)

lemma i_post_fetch:
  assumes "i_post ps f ghost k (Suc ip) (Some (case ipfirst of None \<Rightarrow> ip | Some p \<Rightarrow> p)) (touch_page ip a) s numrd r"
    and "ip < length (flags a)" and "\<And>p. ipfirst = Some p \<Longrightarrow> p < ip" and "fetch (flags a ! ip)"
  shows "i_post ps f ghost (Suc k) ip ipfirst a s numrd r"
  using assms pending_run [of ipfirst ip] by (auto simp: i_post_def map_range_Suc span_Suc run_page_step)

lemma i_post_other:
  assumes "i_post ps f ghost k (Suc ip) None (touch_page ip a) s numrd r"
    and "ip < length (flags a)" and "\<not> fetch (flags a ! ip)"
  shows "i_post ps f ghost (Suc k) ip None a s numrd r"
  using assms by (auto simp: i_post_def map_range_Suc span_Suc pending_def run_page_step)

lemma i_post_flush:
  assumes post: "i_post ps f ghost k (Suc ip) None (touch_page ip a') s' nr r"
    and fl: "i_flushed ps f ghost p ip a s numrd (True, nr, a', tmp, s')"
    and "ip < length (flags a)" and "\<not> fetch (flags a ! ip)" and "p < ip"
  shows "i_post ps f ghost (Suc k) ip (Some p) a s numrd r"
proof -
  obtain m pr where a': "a' = a\<lparr>data := m, prots := pr\<rparr>" using fl unfolding i_flushed_def by blast
  show ?thesis
    using post fl assms(3-)
    by (cases r) (auto simp: a' i_post_def i_flushed_def map_range_Suc span_Suc pending_def fun_eq_iff
        run_page_step(3) [where v = "touch_flag (flags a ! ip)"] intro!: nth_equalityI)
qed

lemma i_post_last:
  assumes fl: "i_flushed ps f ghost p ip a s numrd r" and "counts_ok 0 a" and "p < ip"
  shows "i_post ps f ghost 0 ip (Some p) a s numrd r"
proof -
  obtain go nr a' t s' where r: "r = (go, nr, a', t, s')" by (cases r)
  from fl r obtain m pr where a': "a' = a\<lparr>data := m, prots := pr\<rparr>" unfolding i_flushed_def by blast
  have "map_range p (ip - p) (\<lambda>_. PROT_READ) (prots a) =
      map (\<lambda>q. if p \<le> q \<and> q < ip then PROT_READ else prots a ! q) [0..<length (prots a)]"
    using assms(3) by (auto intro!: nth_equalityI)
  then show ?thesis
    using fl assms(2) by (simp add: r a' i_post_def i_flushed_def counts_ok_def pending_def)
qed

definition i_pre :: "nat \<Rightarrow> byte list \<Rightarrow> nat \<Rightarrow> nat \<Rightarrow> nat \<Rightarrow> nat option \<Rightarrow> ate \<Rightarrow> bool" where
  "i_pre ps f beg k ip ipfirst a \<longleftrightarrow>
     counts_ok 0 a \<and> pages_ok a \<and> ip + k \<le> n_pages a \<and> 0 < ps \<and> filed ps f a \<and> beg \<le> ip \<and>
     (\<forall>p. ipfirst = Some p \<longrightarrow> p < ip \<and> beg \<le> p \<and> ip * ps \<le> length f)"

lemma i_pre_next:
  assumes pre: "i_pre ps f beg (Suc k) ip ipfirst a"
    and q: "q = None \<or> q = Some (case ipfirst of None \<Rightarrow> ip | Some p \<Rightarrow> p) \<and> fetch (flags a ! ip)"
  shows "ip < length (flags a)" "page_ok (flags a ! ip)" "i_pre ps f beg k (Suc ip) q (touch_page ip a)"
proof -
  show ip: "ip < length (flags a)" using pre by (simp add: i_pre_def counts_ok_def)
  show pg: "page_ok (flags a ! ip)" using pre ip by (simp add: i_pre_def pages_ok_nth)
  have "filed ps f (touch_page ip a)"
    using pre ip by (auto simp: i_pre_def filed_def nth_list_update)
  moreover have "fetch (flags a ! ip) \<Longrightarrow> Suc ip * ps \<le> length f"
    using pre ip by (auto simp: i_pre_def filed_def fetch_def)
  ultimately show "i_pre ps f beg k (Suc ip) q (touch_page ip a)"
    using pre q touch_page_counts [OF _ ip pg] touch_page_pages
    by (auto simp: i_pre_def split: option.splits)
qed

lemma swap_i_loop_spec:
  assumes "i_pre ps f beg k ip ipfirst a" and "files s fname = Some f"
  shows "returns (moves s) (swap_i_loop ps fname ghost beg k ip ipfirst a tmp s numrd) (i_post ps f ghost k ip ipfirst a s numrd)"
  using assms
proof (induction k arbitrary: ip ipfirst a tmp s numrd)
  case 0
  show ?case
  proof (cases ipfirst)
    case None
    then show ?thesis using 0 by (simp add: i_post_def i_pre_def pending_def map_nth)
  next
    case (Some p)
    then have p: "p < ip" "beg \<le> p" "0 < ps" "ip * ps \<le> length f" "counts_ok 0 a" using 0(1) by (auto simp: i_pre_def)
    from swap_i_flush_spec [OF 0(2) p(1-4), of ghost a tmp numrd]
    have "returns (moves s) (swap_i_flush ps fname ghost beg p ip a tmp s numrd) (i_post ps f ghost 0 ip (Some p) a s numrd)"
      by (rule returns_mono) (use i_post_last p in blast)+
    with Some show ?thesis by simp
  qed
next
  case (Suc k)
  let ?f = "flags a ! ip" and ?q = "Some (case ipfirst of None \<Rightarrow> ip | Some p \<Rightarrow> p)"
  note ip = i_pre_next(1) [OF Suc.prems(1), of None, simplified]
    and pg = i_pre_next(2) [OF Suc.prems(1), of None, simplified]
  have co: "counts_ok 0 a" and lt: "\<And>p. ipfirst = Some p \<Longrightarrow> p < ip" using Suc.prems(1) by (auto simp: i_pre_def)
  have mk: "swap_i_mark ip a = Some (touch_page ip a)" using co ip pg by (rule swap_i_mark_eq)
  show ?case
  proof (cases "fetch ?f")
    case True
    have "i_pre ps f beg k (Suc ip) ?q (touch_page ip a)" using i_pre_next(3) [OF Suc.prems(1)] True by blast
    from Suc.IH [OF this Suc.prems(2), of tmp numrd]
    have "returns (moves s) (swap_i_loop ps fname ghost beg k (Suc ip) ?q (touch_page ip a) tmp s numrd)
        (i_post ps f ghost (Suc k) ip ipfirst a s numrd)"
      by (rule returns_mono) (use i_post_fetch [OF _ ip lt True] in blast)+
    with mk True ip show ?thesis by (simp add: fetch_def)
  next
    case False
    then have nf: "(\<not> resident ?f \<and> on_disk ?f \<and> \<not> dirty ?f) = False" by (simp add: fetch_def)
    show ?thesis
    proof (cases ipfirst)
      case None
      have "i_pre ps f beg k (Suc ip) None (touch_page ip a)" using i_pre_next(3) [OF Suc.prems(1)] by blast
      from Suc.IH [OF this Suc.prems(2), of tmp numrd]
      have "returns (moves s) (swap_i_loop ps fname ghost beg k (Suc ip) None (touch_page ip a) tmp s numrd)
          (i_post ps f ghost (Suc k) ip None a s numrd)"
        by (rule returns_mono) (use i_post_other [OF _ ip False] in blast)+
      with mk nf ip None show ?thesis by auto
    next
      case (Some p)
      then have p: "p < ip" "beg \<le> p" "0 < ps" "ip * ps \<le> length f" using Suc.prems(1) by (auto simp: i_pre_def)
      show ?thesis
      proof (rule returnsE [OF swap_i_flush_spec [OF Suc.prems(2) p, of ghost a tmp numrd]])
        assume "swap_i_flush ps fname ghost beg p ip a tmp s numrd = None" "\<not> moves s"
        then show ?thesis using Some nf ip by auto
      next
        fix r assume fl: "swap_i_flush ps fname ghost beg p ip a tmp s numrd = Some r" and po: "i_flushed ps f ghost p ip a s numrd r"
        obtain go nr a' t s' where r: "r = (go, nr, a', t, s')" by (cases r)
        note po = po [unfolded r]
        obtain m pr where a': "a' = a\<lparr>data := m, prots := pr\<rparr>" using po unfolding i_flushed_def by blast
        show ?thesis
        proof (cases go)
          case True
          have "i_pre ps f beg (Suc k) ip ipfirst a'"
            using Suc.prems(1) by (simp add: a' i_pre_def counts_ok_def pages_ok_def filed_def)
          note nx = i_pre_next [OF this, of None, simplified]
          have mk': "swap_i_mark ip a' = Some (touch_page ip a')"
            using co nx by (intro swap_i_mark_eq) (simp_all add: a' counts_ok_def)
          have s': "files s' fname = Some f" "moves s \<Longrightarrow> moves s'"
            using po Suc.prems(2) moves_mono [of s' s] by (simp_all add: i_flushed_def)
          have pt: "i_flushed ps f ghost p ip a s numrd (True, nr, a', t, s')" using po True by simp
          from Suc.IH [OF nx(3) s'(1), of t nr]
          have "returns (moves s) (swap_i_loop ps fname ghost beg k (Suc ip) None (touch_page ip a') t s' nr)
              (i_post ps f ghost (Suc k) ip (Some p) a s numrd)"
            by (rule returns_mono) (rule s'(2), assumption, rule i_post_flush [OF _ pt ip False p(1)])
          moreover have "swap_i_loop ps fname ghost beg (Suc k) ip ipfirst a tmp s numrd =
              swap_i_loop ps fname ghost beg k (Suc ip) None (touch_page ip a') t s' nr"
            using True Some mk' nf fl r ip by auto
          ultimately show ?thesis using Some by simp
        next
          case no: False
          then have "i_post ps f ghost (Suc k) ip (Some p) a s numrd (go, nr, a', t, s')"
            using po by (simp add: i_flushed_def i_post_def a')
          with no show ?thesis using fl r Some nf ip by auto
        qed
      qed
    qed
  qed
qed

subsection \<open>Swapping in: the whole call\<close>

lemma set_prot_same [simp]:
  "flags (set_prot b n p a) = flags a" "data (set_prot b n p a) = data a" "n_pages (set_prot b n p a) = n_pages a"
  "base (set_prot b n p a) = base a" "addr (set_prot b n p a) = addr a" "l_pages (set_prot b n p a) = l_pages a"
  "c_pages (set_prot b n p a) = c_pages a" "d_pages (set_prot b n p a) = d_pages a"
  "prots (set_prot b n p a) = map_range b n (\<lambda>_. p) (prots a)"
  by (simp_all add: set_prot_def)

lemma counts_pages_prot [simp]:
  "counts_ok p (set_prot b n pr a) = counts_ok p a" "pages_ok (set_prot b n pr a) = pages_ok a"
  "filed ps f (set_prot b n pr a) = filed ps f a"
  by (simp_all add: counts_ok_def pages_ok_def filed_def)

lemma set_prot_twice: "set_prot b n p (set_prot b n q a) = set_prot b n p a"
  by (simp add: set_prot_def) (auto intro!: nth_equalityI arg_cong [where f = "\<lambda>x. a\<lparr>prots := x\<rparr>"])

definition reprotected :: "nat \<Rightarrow> nat \<Rightarrow> ate \<Rightarrow> os \<Rightarrow> bool \<times> ate \<times> os \<Rightarrow> bool" where
  "reprotected k ip a s r \<longleftrightarrow> (case r of (go, a', s') \<Rightarrow>
     files s' = files s \<and> grants s' = grants s \<and> (faults s = [] \<longrightarrow> go \<and> faults s' = []) \<and>
     a' = a\<lparr>prots := prots a'\<rparr> \<and> length (prots a') = length (prots a) \<and>
     (go \<longrightarrow> (\<forall>q < length (prots a).
        prots a' ! q = (if ip \<le> q \<and> q < ip + k \<and> dirty (flags a ! q) then PROT_RW else prots a ! q))))"

lemma reprotected_step:
  assumes "reprotected k (Suc ip) (set_prot ip 1 PROT_RW a) s r" and "dirty (flags a ! ip)"
  shows "reprotected (Suc k) ip a s r"
proof -
  obtain go a' s' where r: "r = (go, a', s')" by (cases r)
  have "prots a' ! q = (if ip \<le> q \<and> q < ip + Suc k \<and> dirty (flags a ! q) then PROT_RW else prots a ! q)"
    if "go" "q < length (prots a)" for q
    using that assms by (cases "q = ip") (simp_all add: r reprotected_def Suc_le_eq le_less)
  moreover have "a' = a\<lparr>prots := prots a'\<rparr>"
    using assms(1) by (simp add: r reprotected_def set_prot_def)
  ultimately show ?thesis using assms(1) by (simp add: r reprotected_def)
qed

lemma reprotected_skip:
  assumes "reprotected k (Suc ip) a s r" and "\<not> dirty (flags a ! ip)"
  shows "reprotected (Suc k) ip a s r"
proof -
  have "(Suc ip \<le> q \<and> q < Suc ip + k \<and> dirty (flags a ! q)) = (ip \<le> q \<and> q < ip + Suc k \<and> dirty (flags a ! q))" for q
    using assms(2) by (cases "q = ip") auto
  with assms(1) show ?thesis unfolding reprotected_def by simp
qed

lemma swap_i_reprotect_spec:
  "ip + k \<le> length (flags a) \<Longrightarrow> \<exists>r. swap_i_reprotect k ip a s = Some r \<and> reprotected k ip a s r"
proof (induction k arbitrary: ip a s)
  case 0
  then show ?case by (auto simp: reprotected_def)
next
  case (Suc k)
  obtain ok t where t: "sys_call s = (ok, t)" by fastforce
  have fr: "files t = files s" "grants t = grants s" "faults s = [] \<longrightarrow> ok \<and> faults t = []"
    using sys_call_frame [of s] t by auto
  show ?case
  proof (cases "dirty (flags a ! ip)")
    case False
    with Suc.IH [of "Suc ip" a s] Suc.prems show ?thesis by (auto intro: reprotected_skip)
  next
    case True
    from Suc.IH [of "Suc ip" "set_prot ip 1 PROT_RW a" t] Suc.prems obtain r where
      r: "swap_i_reprotect k (Suc ip) (set_prot ip 1 PROT_RW a) t = Some r"
      "reprotected k (Suc ip) (set_prot ip 1 PROT_RW a) t r" by auto
    have "reprotected (Suc k) ip a s r"
      using reprotected_step [OF r(2) True] fr by (auto simp: reprotected_def)
    moreover have "\<not> ok \<Longrightarrow> reprotected (Suc k) ip a s (False, a, t)" using fr by (auto simp: reprotected_def)
    ultimately show ?thesis using r True Suc.prems t by (cases ok; cases r) auto
  qed
qed

text \<open>The entry after a swap-in, but for the protections.\<close>

definition loaded :: "nat \<Rightarrow> byte list \<Rightarrow> nat \<Rightarrow> nat \<Rightarrow> ate \<Rightarrow> ate \<Rightarrow> bool" where
  "loaded ps f beg num a a' \<longleftrightarrow>
     flags a' = map_range beg num touch_flag (flags a) \<and> counts_ok 0 a' \<and> n_pages a' = n_pages a \<and>
     base a' = base a \<and> addr a' = addr a \<and>
     data a' = (\<lambda>i. if run_page fetch num beg None (flags a) (i div ps) then byte_at f i else data a i)"

definition kept :: "nat \<Rightarrow> byte list \<Rightarrow> ate \<Rightarrow> byte list \<Rightarrow> ate \<Rightarrow> bool" where
  "kept ps f a f' a' \<longleftrightarrow> (\<forall>i v. i div ps < n_pages a \<longrightarrow> holds ps f a i v \<longrightarrow> holds ps f' a' i v)"

lemma kept_refl [simp]: "kept ps f a f a"
  by (simp add: kept_def)

lemma kept_trans: "kept ps f a f' a' \<Longrightarrow> kept ps f' a' f'' a'' \<Longrightarrow> n_pages a' = n_pages a \<Longrightarrow> kept ps f a f'' a''"
  by (simp add: kept_def)

lemma loaded_pages:
  assumes "loaded ps f beg num a a'" and "sound ps f a"
  shows "pages_ok a'" and "filed ps f a'" and "zeroed ps a'" and "kept ps f a f a'"
proof -
  have n: "n_pages a = length (flags a)" and po: "pages_ok a"
    using assms(2) by (simp_all add: sound_def wf_ate_def counts_ok_def)
  show "pages_ok a'" using assms(1) po by (simp add: loaded_def pages_ok_def list_all_length)
  show "filed ps f a'" using assms by (auto simp: loaded_def sound_def filed_def split: if_splits)
  show "zeroed ps a'" using assms by (auto simp: loaded_def sound_def zeroed_def run_page_def fetch_def)
  have z: "i div ps < length (flags a) \<Longrightarrow> \<not> resident (flags a ! (i div ps)) \<Longrightarrow> data a i = 0" for i
    using assms(2) by (simp add: sound_def zeroed_def)
  have "page_ok (flags a ! q)" if "q < n_pages a" for q using po that n by (simp add: pages_ok_nth)
  then show "kept ps f a f a'"
    using assms(1) z n
    by (auto simp: kept_def holds_def loaded_def run_page_def fetch_def Let_def disk_byte_def page_ok_def)
qed

lemma loaded_prots:
  assumes ld: "loaded ps f beg num a a'" and pr: "prots_ok a"
    and prots: "\<And>q. q < length (flags a) \<Longrightarrow> prots a' ! q =
      (if \<not> (beg \<le> q \<and> q < beg + num) then prots a ! q else if dirty (flags a ! q) then PROT_RW else PROT_READ)"
    and len: "length (prots a') = length (prots a)"
  shows "prots_ok a'"
  using assms by (auto simp: prots_ok_def loaded_def prot_of_def intro!: nth_equalityI)

definition swapped_in ::
  "nat \<Rightarrow> byte list \<Rightarrow> cint \<Rightarrow> nat \<Rightarrow> nat \<Rightarrow> ate \<Rightarrow> os \<Rightarrow> int \<times> ate \<times> os \<Rightarrow> bool" where
  "swapped_in ps f ghost beg num a s r \<longleftrightarrow> (case r of (ret, a', s') \<Rightarrow>
     files s' = files s \<and> (grants s = [] \<longrightarrow> grants s' = []) \<and>
     (faults s = [] \<longrightarrow> faults s' = [] \<and> ret = to_int (length (filter fetch (span beg num (flags a))))) \<and>
     n_pages a' = n_pages a \<and> base a' = base a \<and> addr a' = addr a \<and>
     (ret \<noteq> -1 \<longrightarrow>
        loaded ps f beg num a a' \<and> ret = to_int (length (filter fetch (span beg num (flags a)))) \<and>
        (ghost \<noteq> VMM_GHOST \<or> (\<forall>q. beg \<le> q \<and> q < beg + num \<longrightarrow> resident (flags a ! q) \<or> on_disk (flags a ! q)) \<longrightarrow>
           prots_ok a')))"

definition finished :: "cint \<Rightarrow> nat \<Rightarrow> nat \<Rightarrow> ate \<Rightarrow> os \<Rightarrow> bool \<times> ate \<times> os \<Rightarrow> bool" where
  "finished ghost beg num a s r \<longleftrightarrow> (case r of (go, a', s') \<Rightarrow>
     files s' = files s \<and> grants s' = grants s \<and> (faults s = [] \<longrightarrow> go \<and> faults s' = []) \<and>
     a' = a\<lparr>prots := prots a'\<rparr> \<and> length (prots a') = length (prots a) \<and>
     (go \<longrightarrow> (\<forall>q < length (prots a). prots a' ! q =
        (if ghost = VMM_GHOST \<or> \<not> (beg \<le> q \<and> q < beg + num) then prots a ! q
         else if dirty (flags a ! q) then PROT_RW else PROT_READ))))"

lemma swap_i_finish_spec:
  assumes "beg + num \<le> length (flags a)"
  shows "\<exists>r. swap_i_finish ghost beg num a s = Some r \<and> finished ghost beg num a s r"
proof -
  obtain ok t where t: "sys_call s = (ok, t)" by fastforce
  obtain ok' u where u: "sys_call t = (ok', u)" by fastforce
  have fr: "files t = files s" "grants t = grants s" "files u = files s" "grants u = grants s"
    "faults s = [] \<longrightarrow> ok \<and> ok' \<and> faults t = [] \<and> faults u = []"
    using sys_call_frame [of s] sys_call_frame [of t] t u by auto
  show ?thesis
  proof (cases "ok \<and> ok' \<and> ghost \<noteq> VMM_GHOST")
    case True
    from swap_i_reprotect_spec [of beg num "set_prot beg num PROT_READ a" u] assms obtain go a' s' where
      r: "swap_i_reprotect num beg (set_prot beg num PROT_READ a) u = Some (go, a', s')"
      and po: "reprotected num beg (set_prot beg num PROT_READ a) u (go, a', s')" by auto
    have "a' = a\<lparr>prots := prots a'\<rparr>" using po by (simp add: reprotected_def set_prot_def)
    moreover have "prots a' ! q = (if ghost = VMM_GHOST \<or> \<not> (beg \<le> q \<and> q < beg + num) then prots a ! q
         else if dirty (flags a ! q) then PROT_RW else PROT_READ)" if "go" "q < length (prots a)" for q
      using po that True by (simp add: reprotected_def)
    ultimately have "finished ghost beg num a s (go, a', s')"
      using po fr by (simp add: finished_def reprotected_def)
    with True r t u show ?thesis by (simp add: swap_i_finish_def)
  next
    case False
    with t u fr show ?thesis by (cases ok; cases ok') (auto simp: swap_i_finish_def finished_def)
  qed
qed

lemma all_loaded:
  assumes "wf_ate a" and "l_pages a = n_pages a"
  shows "map_range beg num touch_flag (flags a) = flags a" "filter fetch (span beg num (flags a)) = []"
    "c_pages a = n_pages a" "run_page fetch num beg None (flags a) q \<Longrightarrow> beg + num \<le> n_pages a \<Longrightarrow> False"
proof -
  have r: "resident (flags a ! i)" if "i < length (flags a)" for i
    using assms filter_less [OF that, of resident] by (auto simp: wf_ate_def counts_ok_def)
  then show "map_range beg num touch_flag (flags a) = flags a"
    by (auto simp: touch_flag_def intro!: nth_equalityI)
  have "set (span beg num (flags a)) \<subseteq> set (flags a)"
    by (auto simp: span_def dest: in_set_takeD in_set_dropD)
  then show "filter fetch (span beg num (flags a)) = []"
    using r by (fastforce simp: filter_empty_conv fetch_def in_set_conv_nth)
  have "charged f" if "f \<in> set (flags a)" for f
    using assms(1) r that by (auto simp: wf_ate_def pages_ok_def list_all_length page_ok_def in_set_conv_nth)
  then show "c_pages a = n_pages a" using assms(1) by (simp add: wf_ate_def counts_ok_def filter_True)
  show "run_page fetch num beg None (flags a) q \<Longrightarrow> beg + num \<le> n_pages a \<Longrightarrow> False"
    using r assms(1) by (auto simp: run_page_def fetch_def wf_ate_def counts_ok_def)
qed

lemma swapped_in_success:
  assumes wf: "wf_ate a" and len: "beg + num \<le> n_pages a"
    and a1: "a1 = (if ghost = VMM_GHOST then a else set_prot beg num PROT_WRITE a)"
    and post: "i_post ps f ghost num beg None a1 s 0 (True, nr, a2, tmp, s2)"
    and fin: "finished ghost beg num a2 s2 (True, a3, s3)"
  shows "swapped_in ps f ghost beg num a s (to_int nr, a3, s3)"
proof -
  have fl: "flags a1 = flags a" "data a1 = data a" "n_pages a1 = n_pages a" "base a1 = base a" "addr a1 = addr a"
    by (simp_all add: a1)
  obtain pr where a3: "a3 = a2\<lparr>prots := pr\<rparr>" using fin unfolding finished_def by blast
  have ld: "loaded ps f beg num a a3"
    using post wf by (auto simp: loaded_def a3 i_post_def fl(1,3-5) fun_cong [OF fl(2)] counts_ok_def wf_ate_def)
  have pr: "prots_ok a" and n: "length (flags a) = n_pages a" using wf by (simp_all add: wf_ate_def counts_ok_def)
  have lp: "length (prots a) = length (flags a)" using pr by (simp add: prots_ok_def)
  have p2: "prots a2 = (if ghost = VMM_GHOST
      then map (\<lambda>q. if run_page fetch num beg None (flags a) q then PROT_READ else prots a ! q) [0..<length (prots a)]
      else map_range beg num (\<lambda>_. PROT_WRITE) (prots a))"
    using post by (simp add: i_post_def fl) (simp add: a1)
  have f2: "flags a2 = map_range beg num touch_flag (flags a)" using post by (simp add: i_post_def fl)
  have p3: "length pr = length (prots a)" "\<And>q. q < length (prots a) \<Longrightarrow> pr ! q =
        (if ghost = VMM_GHOST \<or> \<not> (beg \<le> q \<and> q < beg + num) then prots a2 ! q
         else if dirty (flags a2 ! q) then PROT_RW else PROT_READ)"
    using fin p2 by (simp_all add: finished_def a3 split: if_splits)
  have "prots_ok a3" if c: "ghost \<noteq> VMM_GHOST \<or>
      (\<forall>q. beg \<le> q \<and> q < beg + num \<longrightarrow> resident (flags a ! q) \<or> on_disk (flags a ! q))"
  proof (rule loaded_prots [OF ld pr])
    fix q assume q: "q < length (flags a)"
    have "prots a ! q = prot_of (flags a ! q)" using pr q by (simp add: prots_ok_def)
    moreover have "page_ok (flags a ! q)" using wf q by (simp add: wf_ate_def pages_ok_nth)
    ultimately show "prots a3 ! q = (if \<not> (beg \<le> q \<and> q < beg + num) then prots a ! q
        else if dirty (flags a ! q) then PROT_RW else PROT_READ)"
      using c q lp len n p3(2) [of q]
      by (auto simp: a3 p2 f2 run_page_def fetch_def prot_of_def page_ok_def split: if_splits)
  qed (simp add: a3 p3)
  moreover have "nr = length (filter fetch (span beg num (flags a)))" "files s3 = files s"
    "grants s = [] \<longrightarrow> grants s3 = []" "faults s = [] \<longrightarrow> faults s3 = []"
    using post fin i_post_grants [OF post] by (simp_all add: i_post_def finished_def fl pending_def)
  ultimately show ?thesis using ld by (simp add: swapped_in_def loaded_def)
qed

lemma swap_i_spec:
  assumes sd: "sound ps f a" and ps: "0 < ps" and fs: "files s fname = Some f"
    and rng: "beg + num \<le> n_pages a"
  shows "returns (moves s) (vmm_swap_i ps fname a beg num ghost s) (swapped_in ps f ghost beg num a s)"
proof -
  have wf: "wf_ate a" and n: "length (flags a) = n_pages a"
    using sd by (simp_all add: sound_def wf_ate_def counts_ok_def)
  have pre: "num \<le> n_pages a" "beg \<le> n_pages a - num" using rng by auto
  obtain ok t where t: "sys_call s = (ok, t)" by fastforce
  define a1 where "a1 = (if ghost = VMM_GHOST then a else set_prot beg num PROT_WRITE a)"
  obtain ok' u where u: "os_open fname t = (ok', u)" by fastforce
  have fr: "files t = files s" "grants t = grants s" "files u = files s" "grants u = grants s"
    "faults s = [] \<longrightarrow> ok \<and> ok' \<and> faults u = []"
    using sys_call_facts [OF t] os_open_frame [OF u] fs by auto
  have a1: "n_pages a1 = n_pages a" "base a1 = base a" "addr a1 = addr a" by (simp_all add: a1_def)
  consider "num = 0 \<or> l_pages a = n_pages a" | "0 < num" "l_pages a \<noteq> n_pages a" "\<not> (ok \<and> ok')"
    | "0 < num" "l_pages a \<noteq> n_pages a" "ok" "ok'" by auto
  then show ?thesis
  proof cases
    case 1
    have nr: "\<not> run_page fetch num beg None (flags a) q" for q
      using 1 all_loaded(4) [OF wf, of num beg q] rng by (auto simp: run_page_def)
    have "loaded ps f beg num a a \<and> 0 = to_int (length (filter fetch (span beg num (flags a))))"
      using 1 wf all_loaded(1,2) [OF wf] by (auto simp: loaded_def to_int_def wf_ate_def nr)
    then have "swapped_in ps f ghost beg num a s (0, a, s)"
      using wf by (simp add: swapped_in_def wf_ate_def)
    with 1 pre all_loaded(3) [OF wf] show ?thesis by (auto simp: vmm_swap_i_def)
  next
    case 2
    with t u fr a1 pre show ?thesis
      by (cases ok; cases ok') (auto simp: vmm_swap_i_def swapped_in_def Let_def a1_def [symmetric])
  next
    case 3
    have "i_pre ps f beg num beg None a1"
      using sd ps rng by (simp add: i_pre_def a1_def sound_def wf_ate_def)
    moreover have "files u fname = Some f" using fs fr by simp
    ultimately have lps: "returns (moves u) (swap_i_loop ps fname ghost beg num beg None a1 (\<lambda>_. 0) u 0)
        (i_post ps f ghost num beg None a1 u 0)" by (rule swap_i_loop_spec)
    show ?thesis
    proof (rule returnsE [OF lps])
      assume "swap_i_loop ps fname ghost beg num beg None a1 (\<lambda>_. 0) u 0 = None" "\<not> moves u"
      then show ?thesis using 3 pre t u fr by (simp add: vmm_swap_i_def Let_def a1_def [symmetric] moves_def)
    next
      fix r assume "swap_i_loop ps fname ghost beg num beg None a1 (\<lambda>_. 0) u 0 = Some r"
        and "i_post ps f ghost num beg None a1 u 0 r"
      then obtain go nr a2 tmp s2 where
        lp: "swap_i_loop ps fname ghost beg num beg None a1 (\<lambda>_. 0) u 0 = Some (go, nr, a2, tmp, s2)"
        and post: "i_post ps f ghost num beg None a1 u 0 (go, nr, a2, tmp, s2)" by (cases r) auto
      have eq: "vmm_swap_i ps fname a beg num ghost s =
          (if go then do { (go, a, s) \<leftarrow> swap_i_finish ghost beg num a2 s2;
             if go then Some (to_int nr, a, s) else Some (-1, a, s) } else Some (-1, a2, s2))"
        using 3 pre t u lp by (simp add: vmm_swap_i_def Let_def a1_def [symmetric])
      show ?thesis
      proof (cases go)
        case True
        have "beg + num \<le> length (flags a2)" using post True n rng by (simp add: i_post_def a1_def)
        from swap_i_finish_spec [OF this, of ghost s2] obtain g3 a3 s3 where
          fin: "swap_i_finish ghost beg num a2 s2 = Some (g3, a3, s3)" "finished ghost beg num a2 s2 (g3, a3, s3)"
          by auto
        have "swapped_in ps f ghost beg num a u (if g3 then to_int nr else -1, a3, s3)"
        proof (cases g3)
          case g3: True
          then show ?thesis using swapped_in_success [OF wf rng a1_def, of ps f u nr a2 tmp s2] post fin True by auto
        next
          case False
          obtain pr where "a3 = a2\<lparr>prots := pr\<rparr>" using fin(2) unfolding finished_def by blast
          with False post fin(2) a1 i_post_grants [OF post] show ?thesis by (simp add: swapped_in_def i_post_def finished_def)
        qed
        with True eq fin(1) fr show ?thesis by (auto simp: swapped_in_def)
      next
        case False
        with post eq a1 fr i_post_grants [OF post] show ?thesis by (simp add: swapped_in_def i_post_def)
      qed
    qed
  qed
qed

subsection \<open>Discarding: the loop\<close>

definition clear_flag :: "byte \<Rightarrow> byte" where
  "clear_flag f = f AND NOT (MMU_DIRTY OR MMU_ZFILL)"

lemma clear_flag_bits [simp]:
  "resident (clear_flag f) = resident f" "charged (clear_flag f) = charged f" "\<not> dirty (clear_flag f)"
  "\<not> on_disk (clear_flag f)" "page_ok f \<Longrightarrow> page_ok (clear_flag f)"
  by (auto simp: clear_flag_def flag_ops page_ok_def)

text \<open>Every intermediate state is well-formed, so that a failing \<open>mprotect\<close> leaves a
  well-formed entry behind.\<close>

definition clear_page :: "nat \<Rightarrow> ate \<Rightarrow> ate" where
  "clear_page i a =
     set_flag ((if dirty (flags a ! i) then set_prot i 1 PROT_READ a else a)
         \<lparr>d_pages := d_pages a - of_bool (dirty (flags a ! i))\<rparr>) i (clear_flag (flags a ! i))"

lemma clear_page_simps [simp]:
  "flags (clear_page i a) = (flags a)[i := clear_flag (flags a ! i)]" "n_pages (clear_page i a) = n_pages a"
  "data (clear_page i a) = data a" "base (clear_page i a) = base a" "addr (clear_page i a) = addr a"
  "l_pages (clear_page i a) = l_pages a" "c_pages (clear_page i a) = c_pages a"
  "d_pages (clear_page i a) = d_pages a - of_bool (dirty (flags a ! i))"
  "length (prots (clear_page i a)) = length (prots a)"
  by (simp_all add: clear_page_def)

lemma clear_page_wf:
  assumes wf: "wf_ate a" and i: "i < length (flags a)"
  shows "wf_ate (clear_page i a)"
proof -
  have co: "counts_ok 0 a" and po: "page_ok (flags a ! i)" and pr: "prots a = map prot_of (flags a)"
    using wf i by (simp_all add: wf_ate_def pages_ok_nth prots_ok_def)
  have "counts_ok 0 (set_flag (a\<lparr>l_pages := l_pages a, c_pages := c_pages a,
      d_pages := d_pages a - of_bool (dirty (flags a ! i))\<rparr>) i (clear_flag (flags a ! i)))"
    by (rule counts_ok_step [OF co i]) (use counts_ok_pos(3) [OF co i] in \<open>auto simp: Suc_leI\<close>)
  then have "counts_ok 0 (clear_page i a)" by (simp add: counts_ok_def)
  moreover have "prots (clear_page i a) = map prot_of ((flags a)[i := clear_flag (flags a ! i)])"
    using pr i po by (intro nth_equalityI) (auto simp: clear_page_def nth_list_update prot_of_def page_ok_def le_less_Suc_eq)
  moreover have "pages_ok (clear_page i a)"
    using wf i po by (auto simp: wf_ate_def pages_ok_def list_all_length nth_list_update)
  ultimately show ?thesis by (simp add: wf_ate_def prots_ok_def)
qed

definition cleared :: "nat \<Rightarrow> nat \<Rightarrow> ate \<Rightarrow> os \<Rightarrow> bool \<times> ate \<times> os \<Rightarrow> bool" where
  "cleared beg num a s r \<longleftrightarrow> (case r of (go, a', s') \<Rightarrow>
     files s' = files s \<and> grants s' = grants s \<and> wf_ate a' \<and> n_pages a' = n_pages a \<and> base a' = base a \<and>
     addr a' = addr a \<and> data a' = data a \<and> c_pages a' = c_pages a \<and> l_pages a' = l_pages a \<and>
     (faults s = [] \<longrightarrow> go \<and> faults s' = []) \<and>
     (go \<longrightarrow> flags a' = map_range beg num clear_flag (flags a)))"

lemma swap_x_loop_spec:
  assumes "wf_ate a" and "ip + k \<le> n_pages a"
  shows "\<exists>r. swap_x_loop k ip a s = Some r \<and> cleared ip k a s r"
  using assms
proof (induction k arbitrary: ip a s)
  case 0
  then show ?case by (simp add: cleared_def)
next
  case (Suc k)
  have n: "length (flags a) = n_pages a" using Suc.prems by (simp add: wf_ate_def counts_ok_def)
  then have ip: "ip < length (flags a)" using Suc.prems by simp
  obtain ok t where t: "sys_call s = (ok, t)" by fastforce
  have fr: "files t = files s" "grants t = grants s" "faults s = [] \<longrightarrow> ok \<and> faults t = []"
    using sys_call_facts [OF t] by auto
  have step: "\<exists>r. swap_x_loop k (Suc ip) (clear_page ip a) u = Some r \<and> cleared (Suc ip) k (clear_page ip a) u r" for u
    by (rule Suc.IH) (use Suc.prems clear_page_wf ip in auto)
  have post: "cleared ip (Suc k) a s r"
    if "cleared (Suc ip) k (clear_page ip a) u r" "files u = files s" "grants u = grants s" "faults s = [] \<longrightarrow> faults u = []" for u r
    using that ip n by (cases r) (auto simp: cleared_def map_range_Suc nth_list_update)
  show ?case
  proof (cases "dirty (flags a ! ip)")
    case False
    then have "swap_x_loop (Suc k) ip a s = swap_x_loop k (Suc ip) (clear_page ip a) s"
      using ip by (simp add: clear_page_def clear_flag_def)
    with step [of s] post [of s] show ?thesis by auto
  next
    case True
    have d: "0 < d_pages a" using Suc.prems(1) ip True counts_ok_pos(3) by (auto simp: wf_ate_def)
    show ?thesis
    proof (cases ok)
      case ok: True
      have "swap_x_loop (Suc k) ip a s = swap_x_loop k (Suc ip) (clear_page ip a) t"
        using ip True ok d t by (simp add: clear_page_def clear_flag_def)
      with step [of t] post [of t] fr show ?thesis by auto
    next
      case False
      then have "swap_x_loop (Suc k) ip a s = Some (False, a, t)" using ip True t by simp
      moreover have "faults s \<noteq> []" using fr(3) False by blast
      ultimately show ?thesis using Suc.prems fr(1,2) by (simp add: cleared_def)
    qed
  qed
qed

lemma swap_x_spec:
  assumes wf: "wf_ate a" and rng: "beg + num \<le> n_pages a"
  shows "\<exists>go a' s'. vmm_swap_x a beg num s = Some (if go then 0 else -1, a', s') \<and> cleared beg num a s (go, a', s')"
proof (cases "num = 0")
  case True
  then show ?thesis using wf rng
    by (intro exI [of _ True] exI [of _ a] exI [of _ s]) (simp add: vmm_swap_x_def cleared_def)
next
  case False
  moreover obtain go a' s' where "swap_x_loop num beg a s = Some (go, a', s')" "cleared beg num a s (go, a', s')"
    using swap_x_loop_spec [OF wf rng, of s] by auto
  ultimately show ?thesis using rng
    by (intro exI [of _ go] exI [of _ a'] exI [of _ s']) (simp add: vmm_swap_x_def)
qed

subsection \<open>A small allocation\<close>

text \<open>Two pages of two bytes: the first dirty, the second resident and clean.  Used to
  apply the properties below to a concrete state.\<close>

definition small_ate :: ate where
  "small_ate = \<lparr>addr = 64, n_pages = 2, l_pages = 2, c_pages = 2, d_pages = 1, base = 66,
     flags = [MMU_DIRTY, 0], prots = [PROT_RW, PROT_READ], data = (\<lambda>i. if i = 1 then 7 else 0)\<rparr>"

definition small_os :: os where
  "small_os = \<lparr>faults = [], grants = [], places = [], files = [''f'' \<mapsto> []]\<rparr>"

lemma status_of_masks [simp]:
  "resident 0" "charged 0" "\<not> dirty 0" "\<not> on_disk 0"
  "resident MMU_DIRTY" "charged MMU_DIRTY" "dirty MMU_DIRTY" "\<not> on_disk MMU_DIRTY"
  by (simp_all add: flag_bits)

lemma small_sound: "sound 2 [] small_ate"
  by (auto simp: sound_def wf_ate_def counts_ok_def prots_ok_def pages_ok_def page_ok_def prot_of_def
      filed_def zeroed_def small_ate_def less_Suc_eq numeral_2_eq_2)

lemma small_simps [simp]:
  "files small_os ''f'' = Some []" "faults small_os = []" "grants small_os = []" "n_pages small_ate = 2"
  "flags small_ate = [MMU_DIRTY, 0]" "l_pages small_ate = 2"
  by (simp_all add: small_os_def small_ate_def)

lemma small_swap_o: "\<exists>a' s'. vmm_swap_o 2 0 ''f'' small_ate 0 2 small_os = Some (1, a', s')"
proof -
  have "vmm_swap_o 2 0 ''f'' small_ate 0 (Suc (Suc 0)) small_os \<noteq> None \<and>
      fst (the (vmm_swap_o 2 0 ''f'' small_ate 0 (Suc (Suc 0)) small_os)) = 1"
    by code_simp
  then show ?thesis by (cases "vmm_swap_o 2 0 ''f'' small_ate 0 (Suc (Suc 0)) small_os") (auto simp: numeral_2_eq_2)
qed

lemma small_swap_i: "\<exists>a' s'. vmm_swap_i 2 ''f'' small_ate 0 2 0 small_os = Some (0, a', s')"
  by (simp add: vmm_swap_i_def) (simp add: small_ate_def)

lemma small_there_and_back:
  "\<exists>a1 s1 a2 s2. vmm_swap_o 2 0 ''f'' small_ate 0 2 small_os = Some (1, a1, s1) \<and>
     vmm_swap_i 2 ''f'' a1 0 2 0 s1 = Some (1, a2, s2)"
proof -
  have "(case vmm_swap_o 2 0 ''f'' small_ate 0 2 small_os of
      None \<Rightarrow> False
    | Some (r, a1, s1) \<Rightarrow>
        r = 1 \<and> (case vmm_swap_i 2 ''f'' a1 0 2 0 s1 of None \<Rightarrow> False | Some (r2, a2, s2) \<Rightarrow> r2 = 1))"
    by code_simp
  then show ?thesis by (auto split: option.splits)
qed

subsection \<open>Properties\<close>

text \<open>C4: Evicting a range of pages keeps every byte.  When \<open>vmm_swap_o\<close> reports success and
  no \<open>write\<close> was short, each byte that had a definite value before (in memory, or on
  disk, or zero because it was never written) still has it afterwards, the entry and its
  file satisfy the invariant again, and the pages of the range are neither resident nor
  charged nor dirty; this includes every interleaving of dirty and clean pages, which the
  code writes in maximal runs.\<close>
theorem swap_out_keeps_contents:
  assumes "sound ps f a" and "0 < ps" and "files s fname = Some f" and "beg + num \<le> n_pages a"
    and "grants s = []" and "vmm_swap_o ps opts fname a beg num s = Some (ret, a', s')" and "ret \<noteq> -1"
  shows "(\<exists>f'. files s' fname = Some f' \<and> sound ps f' a' \<and> kept ps f a f' a') \<and>
         (0 < l_pages a \<longrightarrow> flags a' = map_range beg num evict_flag (flags a))"
  using returnsD(2) [OF swap_o_spec [OF assms(1-4)] assms(6)] assms(5,7) by (auto simp: swapped_out_def kept_def)

theorem swap_out_keeps_contents_witness:
  "\<exists>a' s' f'. vmm_swap_o 2 0 ''f'' small_ate 0 2 small_os = Some (1, a', s') \<and>
     files s' ''f'' = Some f' \<and> sound 2 f' a' \<and> kept 2 [] small_ate f' a' \<and>
     flags a' = map_range 0 2 evict_flag [MMU_DIRTY, 0]"
proof -
  obtain a' s' where r: "vmm_swap_o 2 0 ''f'' small_ate 0 2 small_os = Some (1, a', s')"
    using small_swap_o by blast
  from swap_out_keeps_contents [OF small_sound _ _ _ _ r] r show ?thesis by auto
qed

text \<open>C6: The one assertion of \<open>vmm_swap_o\<close> that can fail is \<open>ASSERT(0 != len_)\<close>, and it fails only
  when a \<open>write\<close> moves no byte.  In every other case, whichever of the system calls fail and however
  short the writes are, the call returns, touches no other allocation's file, and when it reports success
  the counters, protections and status bytes of the entry agree and the value returned is the number of dirty
  pages of the range.\<close>
theorem swap_out_returns:
  assumes "sound ps f a" and "0 < ps" and "files s fname = Some f" and "beg + num \<le> n_pages a"
  shows "case vmm_swap_o ps opts fname a beg num s of
      None \<Rightarrow> 0 \<in> set (grants s)
    | Some (ret, a', s') \<Rightarrow>
        (\<forall>g. g \<noteq> fname \<longrightarrow> files s' g = files s g) \<and> n_pages a' = n_pages a \<and> base a' = base a \<and>
        (ret \<noteq> -1 \<longrightarrow> wf_ate a' \<and> ret = to_int (length (filter dirty (span beg num (flags a)))))"
  using swap_o_spec [OF assms, of opts]
  by (rule returnsE) (auto simp: swapped_out_def moves_def)

theorem swap_out_returns_witness:
  "(\<exists>a' s'. vmm_swap_o 2 0 ''f'' small_ate 0 2 small_os = Some (1, a', s') \<and> wf_ate a' \<and>
      files s' ''g'' = files small_os ''g'') \<and>
   (\<exists>a' s'. vmm_swap_o 2 0 ''f'' small_ate 0 2 (small_os\<lparr>grants := [1]\<rparr>) = Some (1, a', s') \<and> wf_ate a') \<and>
   vmm_swap_o 2 0 ''f'' small_ate 0 2 (small_os\<lparr>grants := [0]\<rparr>) = None"
proof -
  have g: "''f'' \<noteq> ''g''" by simp
  have "vmm_swap_o 2 0 ''f'' small_ate 0 2 (small_os\<lparr>grants := [1]\<rparr>) \<noteq> None \<and>
      fst (the (vmm_swap_o 2 0 ''f'' small_ate 0 2 (small_os\<lparr>grants := [1]\<rparr>))) = 1 \<and>
      vmm_swap_o 2 0 ''f'' small_ate 0 2 (small_os\<lparr>grants := [0]\<rparr>) = None"
    by code_simp
  then show ?thesis
    using swap_out_returns [OF small_sound, of small_os "''f''" 0 2 0] small_swap_o g
      swap_out_returns [OF small_sound, of "small_os\<lparr>grants := [1]\<rparr>" "''f''" 0 2 0]
    by (fastforce split: option.splits)
qed

text \<open>C5: Loading a range of pages keeps every byte, for every pattern of short reads.  When
  \<open>vmm_swap_i\<close> reports success, every byte keeps its value, the pages of the range are
  resident and charged with their contents in memory, the counters agree with the status
  bytes, and the value returned is the number of pages that had to be read.  Outside ghost
  mode the protections agree with the status bytes too.\<close>
theorem swap_in_keeps_contents:
  assumes "sound ps f a" and "0 < ps" and "files s fname = Some f" and "beg + num \<le> n_pages a"
    and "ghost \<noteq> VMM_GHOST"
    and "vmm_swap_i ps fname a beg num ghost s = Some (ret, a', s')" and "ret \<noteq> -1"
  shows "sound ps f a' \<and> kept ps f a f a' \<and> files s' = files s \<and>
         flags a' = map_range beg num touch_flag (flags a) \<and>
         ret = to_int (length (filter fetch (span beg num (flags a))))"
proof -
  have in_: "loaded ps f beg num a a'" "prots_ok a'" "files s' = files s"
    "ret = to_int (length (filter fetch (span beg num (flags a))))"
    using returnsD(2) [OF swap_i_spec [OF assms(1-4)] assms(6)] assms(5,7) by (auto simp: swapped_in_def)
  then have "sound ps f a'"
    using loaded_pages [OF in_(1) assms(1)] by (simp add: sound_def wf_ate_def loaded_def)
  with in_ loaded_pages(4) [OF in_(1) assms(1)] show ?thesis by (simp add: loaded_def)
qed

theorem swap_in_keeps_contents_witness:
  "\<exists>a1 s1 f1 a2 s2. vmm_swap_o 2 0 ''f'' small_ate 0 2 small_os = Some (1, a1, s1) \<and>
     vmm_swap_i 2 ''f'' a1 0 2 0 s1 = Some (1, a2, s2) \<and> files s1 ''f'' = Some f1 \<and>
     sound 2 f1 a2 \<and> kept 2 f1 a1 f1 a2"
proof -
  obtain a1 s1 a2 s2 where r: "vmm_swap_o 2 0 ''f'' small_ate 0 2 small_os = Some (1, a1, s1)"
    "vmm_swap_i 2 ''f'' a1 0 2 0 s1 = Some (1, a2, s2)" using small_there_and_back by blast
  obtain f1 where f1: "files s1 ''f'' = Some f1" "sound 2 f1 a1" "n_pages a1 = 2"
    using returnsD(2) [OF swap_o_spec [OF small_sound, of small_os "''f''" 0 2 0] r(1)] by (auto simp: swapped_out_def)
  have "(0 :: cint) \<noteq> VMM_GHOST" by (simp add: vmm_opt_code)
  with swap_in_keeps_contents [OF f1(2) _ f1(1) _ _ r(2)] f1 r show ?thesis by auto
qed

text \<open>\<open>vmm_swap_i\<close> fails no assertion but \<open>ASSERT(0 != len_)\<close>, when a \<open>read\<close> moves no byte, and never
  changes a file, whichever of its system calls fail and in whatever pieces its reads deliver the data; in
  ghost mode as well.\<close>
lemma swap_in_returns:
  assumes "sound ps f a" and "0 < ps" and "files s fname = Some f" and "beg + num \<le> n_pages a"
  shows "case vmm_swap_i ps fname a beg num ghost s of
      None \<Rightarrow> 0 \<in> set (grants s)
    | Some (ret, a', s') \<Rightarrow> files s' = files s \<and> n_pages a' = n_pages a \<and> base a' = base a"
  using swap_i_spec [OF assms, of ghost] by (rule returnsE) (auto simp: swapped_in_def moves_def)

text \<open>C3: The round trip.  A range that is evicted and loaded again, both calls reporting
  success and no write being short, has in memory exactly the bytes it had before.\<close>
theorem swap_round_trip:
  assumes "sound ps f a" and "0 < ps" and "files s fname = Some f" and "beg + num \<le> n_pages a"
    and "grants s = []" and "ghost \<noteq> VMM_GHOST"
    and "vmm_swap_o ps opts fname a beg num s = Some (r1, a1, s1)" and "r1 \<noteq> -1"
    and "vmm_swap_i ps fname a1 beg num ghost s1 = Some (r2, a2, s2)" and "r2 \<noteq> -1"
    and "beg \<le> i div ps" and "i div ps < beg + num" and "holds ps f a i v"
  shows "resident (flags a2 ! (i div ps)) \<and> data a2 i = v"
proof -
  obtain f1 where f1: "files s1 fname = Some f1" "sound ps f1 a1" "kept ps f a f1 a1" "n_pages a1 = n_pages a"
    using returnsD(2) [OF swap_o_spec [OF assms(1-4)] assms(7)] assms(5,8) by (auto simp: swapped_out_def kept_def)
  have rng: "beg + num \<le> n_pages a1" using f1 assms(4) by simp
  have ld: "loaded ps f1 beg num a1 a2"
    using returnsD(2) [OF swap_i_spec [OF f1(2) assms(2) f1(1) rng] assms(9)] assms(10) by (auto simp: swapped_in_def)
  have "holds ps f1 a2 i v"
    using loaded_pages(4) [OF ld f1(2)] f1(3,4) assms(4,12,13) by (simp add: kept_def)
  moreover have "i div ps < length (flags a1)"
    using f1(2,4) assms(4,12) by (simp add: sound_def wf_ate_def counts_ok_def)
  then have "resident (flags a2 ! (i div ps))" using ld assms(11,12) by (simp add: loaded_def)
  ultimately show ?thesis by (simp add: holds_def Let_def)
qed

theorem swap_round_trip_witness:
  "\<exists>a1 s1 a2 s2. vmm_swap_o 2 0 ''f'' small_ate 0 2 small_os = Some (1, a1, s1) \<and>
     vmm_swap_i 2 ''f'' a1 0 2 0 s1 = Some (1, a2, s2) \<and> resident (flags a2 ! 0) \<and> data a2 1 = 7"
proof -
  obtain a1 s1 a2 s2 where r: "vmm_swap_o 2 0 ''f'' small_ate 0 2 small_os = Some (1, a1, s1)"
    "vmm_swap_i 2 ''f'' a1 0 2 0 s1 = Some (1, a2, s2)" using small_there_and_back by blast
  have "(0 :: cint) \<noteq> VMM_GHOST" by (simp add: vmm_opt_code)
  moreover have "holds 2 [] small_ate 1 7" by (simp add: holds_def Let_def) (simp add: small_ate_def)
  ultimately show ?thesis
    using swap_round_trip [OF small_sound _ _ _ _ _ r(1) _ r(2), of 1 7] r by simp
qed

text \<open>Discarding the contents of a range (\<open>vmm_swap_x\<close>) never fails an assertion and
  leaves a well-formed entry whichever \<open>mprotect\<close> fails; when it reports success the pages
  of the range are neither dirty nor on disk, residency and charges are as before, and no
  file is touched.\<close>
theorem swap_x_effect:
  assumes "wf_ate a" and "beg + num \<le> n_pages a"
  shows "\<exists>ret a' s'. vmm_swap_x a beg num s = Some (ret, a', s') \<and> (ret = 0 \<or> ret = -1) \<and> wf_ate a' \<and>
           files s' = files s \<and> data a' = data a \<and> c_pages a' = c_pages a \<and> l_pages a' = l_pages a \<and>
           (ret = 0 \<longrightarrow> flags a' = map_range beg num clear_flag (flags a))"
proof -
  obtain go a' s' where "vmm_swap_x a beg num s = Some (if go then 0 else -1, a', s')"
    "cleared beg num a s (go, a', s')" using swap_x_spec [OF assms] by blast
  then show ?thesis
    by (intro exI [of _ "if go then 0 else -1"] exI [of _ a'] exI [of _ s']) (auto simp: cleared_def)
qed

theorem swap_x_effect_witness:
  "\<exists>ret a' s'. vmm_swap_x small_ate 0 2 small_os = Some (ret, a', s') \<and> wf_ate a' \<and>
     files s' = files small_os"
  using swap_x_effect [of small_ate 0 2 small_os] small_sound by (auto simp: sound_def)

text \<open>The backing files of two allocations never collide: the name determines the address
  of the entry, because it is the address in hexadecimal after the process's prefix, as
  long as the name fits \<open>FILENAME_MAX\<close>.\<close>
theorem swap_name_inj:
  assumes "length (fstem @ number 10 pid @ ''-'' @ number 16 p) < FILENAME_MAX"
    and "length (fstem @ number 10 pid @ ''-'' @ number 16 q) < FILENAME_MAX"
    and "swap_name fstem pid p = swap_name fstem pid q"
  shows "p = q"
proof -
  have "number 16 p = number 16 q" using assms by (simp add: swap_name_def)
  then have "number_val 16 (number 16 p) = number_val 16 (number 16 q)" by (rule arg_cong)
  then show ?thesis by (simp add: number_val_number)
qed

theorem swap_name_inj_witness: "swap_name ''/tmp/sbma-'' 4711 4096 \<noteq> swap_name ''/tmp/sbma-'' 4711 65536"
  using swap_name_inj [of "''/tmp/sbma-''" 4711 4096 65536]
  by (auto simp: FILENAME_MAX_def number.simps [of 10] number.simps [of 16])

text \<open>C10: A short write is lost.  When \<open>write\<close> moves only \<open>g\<close> of the \<open>len\<close> bytes,
  \<open>vmm_write\<close> returns 0 without writing the rest: the file's bytes from \<open>off + g\<close> on are
  what they were (the loop ends because of \<open>len -= len\<close>).\<close>
theorem short_write_lost:
  assumes "faults s = []" and "grants s = g # gs" and "files s fname = Some f" and "0 < g" and "g < len"
  shows "\<exists>s' f'. vmm_write fname m b len off s = Some (0, s') \<and> files s' fname = Some f' \<and>
           (\<forall>i. off + g \<le> i \<longrightarrow> byte_at f' i = byte_at f i)"
  using vmm_write_short [OF assms, of m b off] by (simp add: byte_at_write_at)

theorem short_write_lost_witness:
  "\<exists>s' f'. vmm_write ''f'' (\<lambda>_. 7) 0 4 0 (small_os\<lparr>grants := [1]\<rparr>) = Some (0, s') \<and>
     files s' ''f'' = Some f' \<and> byte_at f' 3 = 0"
proof -
  obtain s' f' where "vmm_write ''f'' (\<lambda>_. 7) 0 4 0 (small_os\<lparr>grants := [1]\<rparr>) = Some (0, s')"
    "files s' ''f'' = Some f'" and f': "\<forall>i. 0 + 1 \<le> i \<longrightarrow> byte_at f' i = byte_at [] i"
    using short_write_lost [of "small_os\<lparr>grants := [1]\<rparr>" 1 "[]" "''f''" "[]" 4 "\<lambda>_. 7" 0 0] by auto
  moreover have "byte_at f' 3 = 0" using f' [rule_format, of 3] by (simp add: byte_at_def)
  ultimately show ?thesis by blast
qed

text \<open>A single page that was never touched.\<close>

definition fresh_ate :: ate where
  "fresh_ate = small_ate\<lparr>n_pages := 1, l_pages := 0, c_pages := 0, d_pages := 0,
     flags := [MMU_CHRGD OR MMU_RSDNT], prots := [PROT_NONE]\<rparr>"

text \<open>In ghost mode \<open>vmm_swap_i\<close> leaves a page that needs no disk access inaccessible:
  it reports success and marks the page resident, but only pages that are read from disk are
  remapped with read permission, so this one stays \<open>PROT_NONE\<close>.\<close>
theorem ghost_zero_page_inaccessible:
  "\<exists>a' s'. vmm_swap_i 2 ''f'' fresh_ate 0 1 VMM_GHOST small_os = Some (0, a', s') \<and>
     map resident (flags a') = [True] \<and> prots a' = [PROT_NONE]"
proof -
  have "case vmm_swap_i 2 ''f'' fresh_ate 0 1 VMM_GHOST small_os of
      None \<Rightarrow> False
    | Some (r, a', s') \<Rightarrow> r = 0 \<and> map resident (flags a') = [True] \<and> prots a' = [PROT_NONE]"
    by code_simp
  then show ?thesis by (auto split: option.splits)
qed

end
