(* ===== verification/Ipc.thy ===== *)
theory Ipc
  imports Options
begin

text \<open>
  The interprocess environment (\<open>src/include/ipc.h\<close>, \<open>src/ipc\<close>): the shared memory
  segment with the pages the system has left and the pages each process is charged for,
  admission of memory by asking other processes to release theirs, and the bookkeeping of
  evictions.

  The shared segment is an extensible record: the theories above add the processes to it.
  What a process does when it is signalled is a parameter of \<open>ipc_madmit\<close>
  (\<open>signal ii w\<close> delivers \<open>SIGIPC\<close> to the process with id \<open>ii\<close>, lets its handler run
  and waits on \<open>done\<close>; \<open>-1\<close> says that \<open>kill\<close> or \<open>sem_wait\<close> failed); its contract is
  the locale \<open>releasing\<close>, and the theory of the signal handlers interprets it.  A process
  waits forever on a semaphore with value 0 that nobody posts: the call is \<open>None\<close>.
  The intra-process mutex is not modelled (one thread per process).
\<close>

subsection \<open>The shared segment\<close>

record shm =
  s_mem :: nat
  c_mem :: "nat list"
  d_mem :: "nat list"
  pids :: "nat list"
  sigs :: "byte list"
  next_id :: nat
  inter_mtx :: nat
  sid :: nat
  shm_made :: bool

record ipc =
  iinit :: int
  iid :: nat
  n_procs :: nat
  uniq :: int
  curpages :: nat
  maxpages :: nat

definition IPC_SIGON :: byte where "IPC_SIGON = push_bit 0 1"

text \<open>The layout: \<open>sizeof(size_t)\<close> is 8, \<open>sizeof(int)\<close> is 4.\<close>

definition IPC_LEN :: "nat \<Rightarrow> nat" where
  "IPC_LEN n = 8 + n * (4 + 8 + 8 + 1) + 4"

definition off_idp :: "nat \<Rightarrow> nat" where "off_idp n = 8 + n * (4 + 8 + 8)"
definition off_s_mem :: nat where "off_s_mem = 0"
definition off_c_mem :: nat where "off_c_mem = off_s_mem + 8"
definition off_d_mem :: "nat \<Rightarrow> nat" where "off_d_mem n = off_c_mem + n * 8"
definition off_pid :: "nat \<Rightarrow> nat" where "off_pid n = off_d_mem n + n * 8"
definition off_flags :: "nat \<Rightarrow> nat" where "off_flags n = off_idp n + 4"

text \<open>The arrays of the segment have an element for every process; an access outside them
  is undefined.\<close>

definition in_shm :: "ipc \<Rightarrow> 'a shm_scheme \<Rightarrow> bool" where
  "in_shm i w \<longleftrightarrow> iid i < n_procs i \<and> length (c_mem w) = n_procs i \<and> length (d_mem w) = n_procs i \<and>
     length (pids w) = n_procs i \<and> length (sigs w) = n_procs i"

subsection \<open>Semaphores\<close>

definition sem_wait_inter :: "'a shm_scheme \<Rightarrow> 'a shm_scheme option" where
  "sem_wait_inter w = (if inter_mtx w = 0 then None else Some (w\<lparr>inter_mtx := inter_mtx w - 1\<rparr>))"

definition sem_post_inter :: "'a shm_scheme \<Rightarrow> 'a shm_scheme" where
  "sem_post_inter w = w\<lparr>inter_mtx := inter_mtx w + 1\<rparr>"

subsection \<open>Accounting\<close>

definition ipc_atomic_inc :: "ipc \<Rightarrow> nat \<Rightarrow> 'a shm_scheme \<Rightarrow> (ipc \<times> 'a shm_scheme) option" where
  "ipc_atomic_inc i value w = do {
     ASSERT (in_shm i w);
     ASSERT (value \<le> s_mem w);
     w \<leftarrow> Some (w\<lparr>s_mem := s_mem w - value\<rparr>);
     w \<leftarrow> Some (w\<lparr>c_mem := (c_mem w)[iid i := addw (c_mem w ! iid i) value]\<rparr>);
     Some (if c_mem w ! iid i > maxpages i then i\<lparr>maxpages := c_mem w ! iid i\<rparr> else i, w)
   }"

definition ipc_atomic_dec :: "ipc \<Rightarrow> nat \<Rightarrow> nat \<Rightarrow> 'a shm_scheme \<Rightarrow> 'a shm_scheme option" where
  "ipc_atomic_dec i c_pages d_pages w = do {
     ASSERT (in_shm i w);
     ASSERT (c_pages \<le> c_mem w ! iid i);
     ASSERT (d_pages \<le> d_mem w ! iid i);
     Some (w\<lparr>s_mem := addw (s_mem w) c_pages,
             c_mem := (c_mem w)[iid i := c_mem w ! iid i - c_pages],
             d_mem := (d_mem w)[iid i := d_mem w ! iid i - d_pages]\<rparr>)
   }"

definition ipc_mevict :: "ipc \<Rightarrow> nat \<Rightarrow> nat \<Rightarrow> 'a shm_scheme \<Rightarrow> (int \<times> 'a shm_scheme) option" where
  "ipc_mevict i c_pages d_pages w =
     (if c_pages = 0 \<and> d_pages = 0 then Some (0, w)
      else do {
        w \<leftarrow> sem_wait_inter w;
        w \<leftarrow> ipc_atomic_dec i c_pages d_pages w;
        Some (0, sem_post_inter w)
      })"

definition ipc_mdirty :: "ipc \<Rightarrow> int \<Rightarrow> 'a shm_scheme \<Rightarrow> (int \<times> 'a shm_scheme) option" where
  "ipc_mdirty i value w =
     (if value = 0 then Some (0, w)
      else do {
        ASSERT (in_shm i w);
        ASSERT (value < 0 \<longrightarrow> nat (- value) \<le> d_mem w ! iid i);
        Some (0, w\<lparr>d_mem := (d_mem w)[iid i := nat ((int (d_mem w ! iid i) + value) mod int SIZE_MOD)]\<rparr>)
      })"

definition ipc_sigon :: "ipc \<Rightarrow> 'a shm_scheme \<Rightarrow> 'a shm_scheme option" where
  "ipc_sigon i w = do {
     ASSERT (in_shm i w);
     Some (w\<lparr>sigs := (sigs w)[iid i := (sigs w ! iid i) OR IPC_SIGON]\<rparr>)
   }"

definition ipc_sigoff :: "ipc \<Rightarrow> 'a shm_scheme \<Rightarrow> 'a shm_scheme option" where
  "ipc_sigoff i w = do {
     ASSERT (in_shm i w);
     Some (w\<lparr>sigs := (sigs w)[iid i := (sigs w ! iid i) AND NOT IPC_SIGON]\<rparr>)
   }"

subsection \<open>Choosing a process to release memory\<close>

text \<open>The result is an \<open>int\<close>: \<open>c_mem[id]\<close> is truncated to 32 bits.\<close>

definition ipc_is_eligible :: "'a shm_scheme \<Rightarrow> nat \<Rightarrow> cint" where
  "ipc_is_eligible w j =
     ((0 OR of_nat (c_mem w ! j)) OR ucast ((sigs w ! j) AND IPC_SIGON))"

text \<open>One iteration of the search; the state is \<open>(ii, mx_c_mem, mx_d_mem)\<close>.\<close>

definition madmit_consider ::
  "ipc \<Rightarrow> cint \<Rightarrow> nat \<Rightarrow> 'a shm_scheme \<Rightarrow> nat \<Rightarrow> nat option \<times> nat \<times> nat \<Rightarrow> nat option \<times> nat \<times> nat" where
  "madmit_consider i admitd need w j st =
     (case st of (ii, mx_c_mem, mx_d_mem) \<Rightarrow>
        if j = iid i then st
        else if ipc_is_eligible w j = 0 then st
        else if (mx_c_mem < need \<and> c_mem w ! j > mx_c_mem) \<or>
                (c_mem w ! j \<ge> need \<and>
                  ((VMM_ADMITD \<noteq> admitd \<and> c_mem w ! j < mx_c_mem) \<or>
                   (VMM_ADMITD = admitd \<and> d_mem w ! j < mx_d_mem)))
             then (Some j, c_mem w ! j, d_mem w ! j)
             else st)"

definition madmit_candidate :: "ipc \<Rightarrow> cint \<Rightarrow> nat \<Rightarrow> 'a shm_scheme \<Rightarrow> nat option" where
  "madmit_candidate i admitd need w =
     fst (fold (madmit_consider i admitd need w) [0..<n_procs i] (None, 0, SIZE_MAX))"

subsection \<open>Admission\<close>

text \<open>The loop \<open>while (s_mem < value)\<close>; \<open>cur\<close> is the cached copy of \<open>*ipc->s_mem\<close>.  When
  there is no candidate the loop starts over from the same state.\<close>

partial_function (option) madmit_loop ::
  "(nat \<Rightarrow> 'a shm_scheme \<Rightarrow> (int \<times> 'a shm_scheme) option) \<Rightarrow> ipc \<Rightarrow> cint \<Rightarrow> nat \<Rightarrow> nat \<Rightarrow> 'a shm_scheme \<Rightarrow>
     (int \<times> nat \<times> 'a shm_scheme) option" where
  "madmit_loop signal i admitd value cur w =
     (if cur < value
      then case madmit_candidate i admitd (value - cur) w of
          None \<Rightarrow> madmit_loop signal i admitd value cur w
        | Some ii \<Rightarrow> do {
            (ret, w) \<leftarrow> signal ii w;
            if ret = -1 then Some (-1, cur, w)
            else madmit_loop signal i admitd value (s_mem w) w
          }
      else Some (0, cur, w))"

definition ipc_madmit ::
  "(nat \<Rightarrow> 'a shm_scheme \<Rightarrow> (int \<times> 'a shm_scheme) option) \<Rightarrow> ipc \<Rightarrow> nat \<Rightarrow> cint \<Rightarrow> 'a shm_scheme \<Rightarrow>
     (int \<times> ipc \<times> 'a shm_scheme) option" where
  "ipc_madmit signal i value admitd w =
     (if value = 0 then Some (0, i, w)
      else do {
        ASSERT (in_shm i w);
        w \<leftarrow> sem_wait_inter w;
        (ret, cur, w) \<leftarrow> madmit_loop signal i admitd value (s_mem w) w;
        if ret = -1 then Some (-1, i, w)
        else do {
          ASSERT (value \<le> cur);
          (i, w) \<leftarrow> ipc_atomic_inc i value w;
          Some (0, i, sem_post_inter w)
        }
      })"

subsection \<open>Joining and leaving\<close>

text \<open>
  A run of system calls each of which makes the caller return \<open>-1\<close> when it fails.
\<close>

primrec sys_calls :: "nat \<Rightarrow> os \<Rightarrow> bool \<times> os" where
  "sys_calls 0 s = (True, s)"
| "sys_calls (Suc n) s = (case sys_call s of (False, s) \<Rightarrow> (False, s) | (True, s) \<Rightarrow> sys_calls n s)"

text \<open>
  \<open>ipc_init\<close>.  Opening the four semaphores creates them with their initial values, which
  the record has from the start; a process that creates the segment clears it and stores
  \<open>max_mem\<close>; every process takes the next id.  \<open>pthread_mutex_init\<close> never returns -1.
\<close>

definition ipc_init ::
  "ipc \<Rightarrow> int \<Rightarrow> nat \<Rightarrow> nat \<Rightarrow> nat \<Rightarrow> 'a shm_scheme \<Rightarrow> os \<Rightarrow> (int \<times> ipc \<times> 'a shm_scheme \<times> os) option" where
  "ipc_init i unq n max_mem pid w s =
     (case sys_calls 4 s of                                    \<comment> \<open>sem_open\<close>
        (False, s) \<Rightarrow> Some (-1, i, w, s)
      | (True, s) \<Rightarrow>
     (case sys_call s of                                       \<comment> \<open>shm_open, of the existing segment if there is one\<close>
        (False, s) \<Rightarrow> Some (-1, i, w, s)
      | (True, s) \<Rightarrow>
     (let created = (\<not> shm_made w); w = w\<lparr>shm_made := True\<rparr> in
      case (if created then sys_calls 2 s else (True, s)) of   \<comment> \<open>ftruncate, write\<close>
        (False, s) \<Rightarrow> Some (-1, i, w, s)
      | (True, s) \<Rightarrow>
     (let w = (if created
               then w\<lparr>s_mem := max_mem, c_mem := replicate n 0, d_mem := replicate n 0,
                      pids := replicate n 0, sigs := replicate n 0, next_id := 0\<rparr>
               else w) in
      case sys_calls 2 s of                                    \<comment> \<open>mmap, close\<close>
        (False, s) \<Rightarrow> Some (-1, i, w, s)
      | (True, s) \<Rightarrow>
     (case sys_call s of                                       \<comment> \<open>sem_wait(sid)\<close>
        (False, s) \<Rightarrow> Some (-1, i, w, s)
      | (True, s) \<Rightarrow>
          if sid w = 0 then None
          else
     (let idn = next_id w; w = w\<lparr>sid := sid w - 1, next_id := Suc idn\<rparr> in
      case sys_call s of                                       \<comment> \<open>sem_post(sid)\<close>
        (False, s) \<Rightarrow> Some (-1, i, w, s)
      | (True, s) \<Rightarrow> do {
          ASSERT (idn < n);
          ASSERT (idn < length (pids w));
          Some (0, i\<lparr>iid := idn, n_procs := n, uniq := unq, curpages := 0, maxpages := 0\<rparr>,
                w\<lparr>sid := sid w + 1, pids := (pids w)[idn := pid]\<rparr>, s)
        }))))))"

definition ipc_destroy :: "ipc \<Rightarrow> 'a shm_scheme \<Rightarrow> os \<Rightarrow> (int \<times> ipc \<times> 'a shm_scheme \<times> os) option" where
  "ipc_destroy i w s = do {
     ASSERT (in_shm i w);
     i \<leftarrow> Some (i\<lparr>curpages := c_mem w ! iid i\<rparr>);
     (case sys_call s of                                       \<comment> \<open>munmap\<close>
        (False, s) \<Rightarrow> Some (-1, i, w, s)
      | (True, s) \<Rightarrow>
     (case sys_call s of                                       \<comment> \<open>shm_unlink\<close>
        (False, s) \<Rightarrow> Some (-1, i, w, s)
      | (True, s) \<Rightarrow>
     (let w = w\<lparr>shm_made := False\<rparr> in
      case sys_calls 8 s of                                    \<comment> \<open>sem_close, sem_unlink\<close>
        (False, s) \<Rightarrow> Some (-1, i, w, s)
      | (True, s) \<Rightarrow> Some (0, i, w, s))))
   }"


subsection \<open>Accounting lemmas\<close>

text \<open>The pages of the system: those that are left and those that some process is charged for.\<close>

definition total :: "'a shm_scheme \<Rightarrow> nat" where
  "total w = s_mem w + sum_list (c_mem w)"

definition wf_shm :: "ipc \<Rightarrow> 'a shm_scheme \<Rightarrow> bool" where
  "wf_shm i w \<longleftrightarrow> in_shm i w \<and> total w < SIZE_MOD"

lemma elem_le_total: "j < length (c_mem w) \<Longrightarrow> s_mem w + c_mem w ! j \<le> total w"
  by (simp add: total_def elem_le_sum_list)

lemma ipc_atomic_inc_eq:
  assumes "wf_shm i w" and "value \<le> s_mem w"
  shows "ipc_atomic_inc i value w =
     Some (i\<lparr>maxpages := max (maxpages i) (c_mem w ! iid i + value)\<rparr>,
           w\<lparr>s_mem := s_mem w - value, c_mem := (c_mem w)[iid i := c_mem w ! iid i + value]\<rparr>)"
proof -
  have "addw (c_mem w ! iid i) value = c_mem w ! iid i + value"
    using assms elem_le_total [of "iid i" w] by (intro addw_exact) (auto simp: wf_shm_def in_shm_def)
  with assms show ?thesis
    by (auto simp: ipc_atomic_inc_def wf_shm_def in_shm_def max_def)
qed

lemma ipc_atomic_dec_eq:
  assumes "wf_shm i w" and "c \<le> c_mem w ! iid i" and "d \<le> d_mem w ! iid i"
  shows "ipc_atomic_dec i c d w =
     Some (w\<lparr>s_mem := s_mem w + c, c_mem := (c_mem w)[iid i := c_mem w ! iid i - c],
             d_mem := (d_mem w)[iid i := d_mem w ! iid i - d]\<rparr>)"
proof -
  have "addw (s_mem w) c = s_mem w + c"
    using assms elem_le_total [of "iid i" w] by (intro addw_exact) (auto simp: wf_shm_def in_shm_def)
  with assms show ?thesis by (simp add: ipc_atomic_dec_def wf_shm_def)
qed

lemma total_inc:
  "j < length (c_mem w) \<Longrightarrow> v \<le> s_mem w \<Longrightarrow>
     total (w\<lparr>s_mem := s_mem w - v, c_mem := (c_mem w)[j := c_mem w ! j + v]\<rparr>) = total w"
  using sum_list_update_nat [of j "c_mem w" "c_mem w ! j + v"] by (simp add: total_def)

lemma total_dec:
  "j < length (c_mem w) \<Longrightarrow> c \<le> c_mem w ! j \<Longrightarrow>
     total (w\<lparr>s_mem := s_mem w + c, c_mem := (c_mem w)[j := c_mem w ! j - c], d_mem := d\<rparr>) = total w"
  using sum_list_update_nat [of j "c_mem w" "c_mem w ! j - c"] by (simp add: total_def)

lemma total_sem [simp]: "total (w\<lparr>inter_mtx := k\<rparr>) = total w" "total (sem_post_inter w) = total w"
  by (simp_all add: total_def sem_post_inter_def)

lemma sem_wait_inter_eq:
  "sem_wait_inter w = Some w' \<longleftrightarrow> inter_mtx w \<noteq> 0 \<and> w' = w\<lparr>inter_mtx := inter_mtx w - 1\<rparr>"
  by (auto simp: sem_wait_inter_def)

lemma ipc_mevict_eq:
  assumes "wf_shm i w" and "c \<le> c_mem w ! iid i" and "d \<le> d_mem w ! iid i" and "0 < inter_mtx w"
  shows "ipc_mevict i c d w =
     Some (0, w\<lparr>s_mem := s_mem w + c, c_mem := (c_mem w)[iid i := c_mem w ! iid i - c],
             d_mem := (d_mem w)[iid i := d_mem w ! iid i - d]\<rparr>)"
proof (cases "c = 0 \<and> d = 0")
  case False
  let ?w = "w\<lparr>inter_mtx := inter_mtx w - 1\<rparr>"
  have "wf_shm i ?w" using assms(1) by (simp add: wf_shm_def in_shm_def)
  from ipc_atomic_dec_eq [OF this, of c d] assms(2-) False show ?thesis
    by (auto simp: ipc_mevict_def sem_wait_inter_def sem_post_inter_def)
qed (simp add: ipc_mevict_def)

subsection \<open>The candidate\<close>

definition can_release :: "ipc \<Rightarrow> 'a shm_scheme \<Rightarrow> nat \<Rightarrow> bool" where
  "can_release i w j \<longleftrightarrow> j < n_procs i \<and> j \<noteq> iid i \<and> ipc_is_eligible w j \<noteq> 0 \<and> 0 < c_mem w ! j"

text \<open>Is \<open>m\<close> the best of the processes \<open>P\<close>?\<close>

definition best :: "(nat \<Rightarrow> bool) \<Rightarrow> cint \<Rightarrow> nat \<Rightarrow> 'a shm_scheme \<Rightarrow> nat \<Rightarrow> bool" where
  "best P admitd need w m \<longleftrightarrow> P m \<and>
     (if need \<le> c_mem w ! m
      then \<forall>j. P j \<longrightarrow> need \<le> c_mem w ! j \<longrightarrow>
             (if admitd = VMM_ADMITD then d_mem w ! m \<le> d_mem w ! j else c_mem w ! m \<le> c_mem w ! j)
      else \<forall>j. P j \<longrightarrow> c_mem w ! j \<le> c_mem w ! m)"

definition search_inv :: "(nat \<Rightarrow> bool) \<Rightarrow> cint \<Rightarrow> nat \<Rightarrow> 'a shm_scheme \<Rightarrow> nat option \<times> nat \<times> nat \<Rightarrow> bool" where
  "search_inv P admitd need w st \<longleftrightarrow> (case st of
       (None, c, d) \<Rightarrow> c = 0 \<and> d = SIZE_MAX \<and> (\<forall>j. \<not> P j)
     | (Some m, c, d) \<Rightarrow> c = c_mem w ! m \<and> d = d_mem w ! m \<and> best P admitd need w m)"

lemma search_step:
  assumes inv: "search_inv (\<lambda>j. j < k \<and> can_release i w j) admitd need w st" and "0 < need" and "k < n_procs i"
  shows "search_inv (\<lambda>j. j < Suc k \<and> can_release i w j) admitd need w (madmit_consider i admitd need w k st)"
proof -
  obtain ii c d where st: "st = (ii, c, d)" by (cases st)
  show ?thesis
  proof (cases "can_release i w k")
    case False
    then have "madmit_consider i admitd need w k st = st"
      using assms(2,3) inv by (auto simp: madmit_consider_def st can_release_def search_inv_def split: option.splits)
    moreover have "(j < Suc k \<and> can_release i w j) = (j < k \<and> can_release i w j)" for j
      using False by (auto simp: less_Suc_eq)
    ultimately show ?thesis using inv by simp
  next
    case True
    have set: "(j < Suc k \<and> can_release i w j) = (j = k \<or> j < k \<and> can_release i w j)" for j
      using True by (auto simp: less_Suc_eq)
    have step: "madmit_consider i admitd need w k st =
        (if (c < need \<and> c_mem w ! k > c) \<or>
            (c_mem w ! k \<ge> need \<and> ((VMM_ADMITD \<noteq> admitd \<and> c_mem w ! k < c) \<or> (VMM_ADMITD = admitd \<and> d_mem w ! k < d)))
         then (Some k, c_mem w ! k, d_mem w ! k) else st)"
      using True by (auto simp: madmit_consider_def st can_release_def)
    show ?thesis
    proof (cases ii)
      case None
      with inv assms(2) True show ?thesis
        unfolding step set by (auto simp: search_inv_def st best_def can_release_def)
    next
      case (Some m)
      with inv show ?thesis
        unfolding step set by (auto simp: search_inv_def st best_def split: if_splits)
    qed
  qed
qed

lemma search_all:
  assumes "0 < need" and "k \<le> n_procs i"
  shows "search_inv (\<lambda>j. j < k \<and> can_release i w j) admitd need w
           (fold (madmit_consider i admitd need w) [0..<k] (None, 0, SIZE_MAX))"
  using assms(2)
proof (induction k)
  case 0
  show ?case by (simp add: search_inv_def)
next
  case (Suc k)
  then show ?case using search_step [of k i w admitd need, OF _ assms(1)] by simp
qed

lemma candidate_spec:
  assumes "0 < need"
  shows "(case madmit_candidate i admitd need w of
            None \<Rightarrow> \<forall>j. \<not> can_release i w j
          | Some m \<Rightarrow> best (can_release i w) admitd need w m)"
proof -
  have "(\<lambda>j. j < n_procs i \<and> can_release i w j) = can_release i w" by (auto simp: can_release_def)
  with search_all [OF assms order_refl, of i w admitd] show ?thesis
    by (auto simp: madmit_candidate_def search_inv_def split: option.splits prod.splits)
qed


subsection \<open>What admission relies on\<close>

text \<open>The pages that the other processes can be made to release.\<close>

definition releasable :: "ipc \<Rightarrow> 'a shm_scheme \<Rightarrow> nat" where
  "releasable i w = (\<Sum>j | can_release i w j. c_mem w ! j)"

lemma finite_can_release [simp]: "finite {j. can_release i w j}"
  by (rule finite_subset [of _ "{..<n_procs i}"]) (auto simp: can_release_def)

text \<open>The contract of \<open>signal\<close>: the process \<open>j\<close> gives back everything it is charged for
  and nothing else of the accounts changes.\<close>

definition released :: "nat \<Rightarrow> 'a shm_scheme \<Rightarrow> 'a shm_scheme \<Rightarrow> bool" where
  "released j w w' \<longleftrightarrow> s_mem w' = s_mem w + c_mem w ! j \<and> c_mem w' = (c_mem w)[j := 0] \<and>
     sigs w' = sigs w \<and> inter_mtx w' = inter_mtx w"

lemma released_can_release:
  assumes "released m w w'" and "m < length (c_mem w)" and "can_release i w m"
  shows "{j. can_release i w' j} = {j. can_release i w j} - {m}"
    and "releasable i w = releasable i w' + c_mem w ! m"
proof -
  have "can_release i w' j \<longleftrightarrow> can_release i w j \<and> j \<noteq> m" for j
    using assms(1,2) by (cases "j = m") (auto simp: released_def can_release_def ipc_is_eligible_def)
  then show set: "{j. can_release i w' j} = {j. can_release i w j} - {m}" by auto
  have "(\<Sum>j\<in>{j. can_release i w j} - {m}. c_mem w' ! j) = (\<Sum>j\<in>{j. can_release i w j} - {m}. c_mem w ! j)"
    using assms(1) by (intro sum.cong) (auto simp: released_def)
  then show "releasable i w = releasable i w' + c_mem w ! m"
    using assms(3) by (simp add: releasable_def set sum.remove [of _ m])
qed

lemma released_total:
  "released m w w' \<Longrightarrow> m < length (c_mem w) \<Longrightarrow> total w' = total w"
  using sum_list_update_nat [of m "c_mem w" 0] by (simp add: released_def total_def)

locale releasing =
  fixes signal :: "nat \<Rightarrow> 'a shm_scheme \<Rightarrow> (int \<times> 'a shm_scheme) option"
    and ok :: "'a shm_scheme \<Rightarrow> bool"
    and me :: nat and n :: nat
  assumes release: "ok w \<Longrightarrow> j < n \<Longrightarrow> j \<noteq> me \<Longrightarrow> ipc_is_eligible w j \<noteq> 0 \<Longrightarrow>
      \<exists>w'. signal j w = Some (0, w') \<and> ok w' \<and> released j w w'"
    and ok_length: "ok w \<Longrightarrow> length (c_mem w) = n"
begin

text \<open>The loop ends, and with enough memory, when the others can release what is missing.\<close>

lemma madmit_loop_returns:
  assumes "ok w" "iid i = me" "n_procs i = n" "amount \<le> s_mem w + releasable i w"
  shows "\<exists>w'. madmit_loop signal i admitd amount (s_mem w) w = Some (0, s_mem w', w') \<and> amount \<le> s_mem w' \<and>
     ok w' \<and> total w' = total w \<and> inter_mtx w' = inter_mtx w \<and>
     (me < n \<longrightarrow> c_mem w' ! me = c_mem w ! me)"
  using assms
proof (induction "card {j. can_release i w j}" arbitrary: w rule: less_induct)
  case less
  show ?case
  proof (cases "s_mem w < amount")
    case False
    then show ?thesis using less.prems by (auto simp: madmit_loop.simps [of signal i admitd amount "s_mem w" w])
  next
    case True
    then have need: "0 < amount - s_mem w" and pos: "releasable i w \<noteq> 0" using less.prems(4) by auto
    then have ex: "\<exists>j. can_release i w j" by (auto simp: releasable_def)
    obtain m where m: "madmit_candidate i admitd (amount - s_mem w) w = Some m" "can_release i w m"
      using candidate_spec [OF need, where i = i and admitd = admitd and w = w] ex by (auto simp: best_def split: option.splits)
    then have mn: "m < n" "m \<noteq> me" "ipc_is_eligible w m \<noteq> 0" using less.prems(2,3) by (auto simp: can_release_def)
    obtain w1 where w1: "signal m w = Some (0, w1)" "ok w1" "released m w w1"
      using release [OF less.prems(1) mn] by blast
    have len: "m < length (c_mem w)" using mn ok_length [OF less.prems(1)] by simp
    note rc = released_can_release [OF w1(3) len m(2)]
    have "amount \<le> s_mem w1 + releasable i w1"
      using less.prems(4) rc(2) w1(3) by (simp add: released_def)
    moreover have "card {j. can_release i w1 j} < card {j. can_release i w j}"
      unfolding rc(1) using m(2) by (intro card_Diff1_less) auto
    ultimately obtain w' where w': "madmit_loop signal i admitd amount (s_mem w1) w1 = Some (0, s_mem w', w')"
      "amount \<le> s_mem w'" "ok w'" "total w' = total w1" "inter_mtx w' = inter_mtx w1"
      "me < n \<longrightarrow> c_mem w' ! me = c_mem w1 ! me"
      using less.hyps [of w1] w1(2) less.prems(2,3) by blast
    have "c_mem w1 ! me = c_mem w ! me" using w1(3) mn by (simp add: released_def)
    with w' True m w1 released_total [OF w1(3) len] show ?thesis
      by (auto simp: madmit_loop.simps [of signal i admitd amount "s_mem w" w] released_def)
  qed
qed

end

subsection \<open>Calls that do not return\<close>

lemma madmit_loop_stuck:
  assumes "madmit_loop signal i admitd value cur w = Some r"
  shows "\<not> (cur < value \<and> madmit_candidate i admitd (value - cur) w = None)"
proof (rule madmit_loop.raw_induct [OF _ assms], goal_cases)
  case (1 loop signal i admitd val cur w r)
  show ?case
  proof
    assume *: "cur < val \<and> madmit_candidate i admitd (val - cur) w = None"
    with 1(2) have "loop signal i admitd val cur w = Some r" by simp
    from 1(1) [OF this] * show False by simp
  qed
qed

lemma madmit_loop_inter:
  assumes "madmit_loop signal i admitd value cur w = Some r"
  shows "(\<forall>j w ret w'. signal j w = Some (ret, w') \<longrightarrow> inter_mtx w' = inter_mtx w) \<longrightarrow>
     inter_mtx (snd (snd r)) = inter_mtx w"
proof (rule madmit_loop.raw_induct [OF _ assms], goal_cases)
  case (1 loop signal i admitd val cur w r)
  show ?case
  proof (cases "cur < val")
    case True
    show ?thesis
    proof (cases "madmit_candidate i admitd (val - cur) w")
      case None
      with True 1(2) have "loop signal i admitd val cur w = Some r" by simp
      from 1(1) [OF this] show ?thesis .
    next
      case (Some m)
      with True 1(2) obtain ret w1 where s1: "signal m w = Some (ret, w1)"
        "(if ret = -1 then Some (-1, cur, w1) else loop signal i admitd val (s_mem w1) w1) = Some r"
        by (auto simp: bind_eq_Some_conv)
      then show ?thesis
        using 1(1) [of signal i admitd val "s_mem w1" w1 r] by (cases "ret = -1") auto
    qed
  qed (use 1(2) in auto)
qed

lemma mutex_blocks:
  assumes "inter_mtx w = 0"
  shows "value \<noteq> 0 \<Longrightarrow> ipc_madmit signal i value admitd w = None"
    and "c \<noteq> 0 \<or> d \<noteq> 0 \<Longrightarrow> ipc_mevict i c d w = None"
  using assms by (auto simp: ipc_madmit_def ipc_mevict_def sem_wait_inter_def)

lemma eligible_iff:
  "ipc_is_eligible w j \<noteq> 0 \<longleftrightarrow> c_mem w ! j mod 4294967296 \<noteq> 0 \<or> bit (sigs w ! j) 0"
proof -
  have sg: "(sigs w ! j) AND IPC_SIGON = (if bit (sigs w ! j) 0 then 1 else 0)"
    by (auto simp: IPC_SIGON_def and_one_eq mod_2_eq_odd bit_0)
  have z: "(a OR b = 0) \<longleftrightarrow> a = 0 \<and> b = (0 :: cint)" for a b
    by (auto simp: bit_eq_iff [where 'a = cint] bit_or_iff)
  have c: "(of_nat (c_mem w ! j) :: cint) = 0 \<longleftrightarrow> c_mem w ! j mod 4294967296 = 0"
    by (simp add: word_of_nat_eq_0_iff dvd_eq_mod_eq_0)
  show ?thesis unfolding ipc_is_eligible_def sg z c by auto
qed


subsection \<open>Properties\<close>

text \<open>Two processes, 10 pages left; process 1 is charged for 5 pages, 2 of them dirty.\<close>

definition two_procs :: shm where
  "two_procs = \<lparr>s_mem = 10, c_mem = [0, 5], d_mem = [0, 2], pids = [100, 101], sigs = [0, 0],
     next_id = 2, inter_mtx = 1, sid = 1, shm_made = True\<rparr>"

definition proc_ipc :: "nat \<Rightarrow> ipc" where
  "proc_ipc k = \<lparr>iinit = 0, iid = k, n_procs = 2, uniq = 1, curpages = 0, maxpages = 0\<rparr>"

lemma two_procs_simps [simp]:
  "s_mem two_procs = 10" "c_mem two_procs = [0, 5]" "d_mem two_procs = [0, 2]" "pids two_procs = [100, 101]"
  "sigs two_procs = [0, 0]" "next_id two_procs = 2" "inter_mtx two_procs = 1" "sid two_procs = 1"
  "shm_made two_procs" "iid (proc_ipc k) = k" "n_procs (proc_ipc k) = 2" "maxpages (proc_ipc k) = 0"
  by (simp_all add: two_procs_def proc_ipc_def)

lemma two_procs_wf [simp]: "k < 2 \<Longrightarrow> wf_shm (proc_ipc k) two_procs"
  by (simp add: wf_shm_def in_shm_def total_def SIZE_MOD_def)

lemma two_procs_candidate:
  "madmit_candidate (proc_ipc 0) 0 need (two_procs\<lparr>inter_mtx := k\<rparr>) = (if 0 < need then Some 1 else None)"
proof -
  have "[0..<2] = [0, 1 :: nat]" by (simp add: upt_rec)
  moreover have "VMM_ADMITD \<noteq> 0" by (simp add: vmm_opt_code)
  moreover have "ipc_is_eligible (two_procs\<lparr>inter_mtx := k\<rparr>) (Suc 0) \<noteq> 0" by (simp add: eligible_iff)
  ultimately show ?thesis
    by (auto simp: madmit_candidate_def madmit_consider_def)
qed

text \<open>C26: The one pass over the processes finds the best process to ask for memory, with respect to the amount
  \<open>need = value - s_mem\<close> that is missing.  If some other eligible process holds at least that amount, the choice is,
  among those, one with the least resident (or, with \<open>VMM_ADMITD\<close>, the least dirty) memory;
  otherwise it is one with the most resident memory.  There is no choice exactly when no
  other process holds anything.  This is the rule of the code's test, not that of the comment above it, which
  asks for more than the whole request (\<open>commented\<close>, with \<open>candidate_as_commented\<close> and \<open>candidate_differs\<close> below).\<close>
theorem candidate_correct:
  assumes "0 < need"
  shows "(madmit_candidate i admitd need w = None \<longleftrightarrow> (\<forall>j. \<not> can_release i w j)) \<and>
         (\<forall>m. madmit_candidate i admitd need w = Some m \<longrightarrow> can_release i w m \<and>
            ((\<exists>j. can_release i w j \<and> need \<le> c_mem w ! j) \<longrightarrow>
               need \<le> c_mem w ! m \<and>
               (\<forall>j. can_release i w j \<and> need \<le> c_mem w ! j \<longrightarrow>
                  (if admitd = VMM_ADMITD then d_mem w ! m \<le> d_mem w ! j else c_mem w ! m \<le> c_mem w ! j))) \<and>
            ((\<forall>j. can_release i w j \<longrightarrow> c_mem w ! j < need) \<longrightarrow>
               (\<forall>j. can_release i w j \<longrightarrow> c_mem w ! j \<le> c_mem w ! m)))"
proof -
  note c = candidate_spec [OF assms, where i = i and admitd = admitd and w = w]
  show ?thesis
  proof (cases "madmit_candidate i admitd need w")
    case None
    with c show ?thesis by simp
  next
    case (Some m)
    with c have b: "best (can_release i w) admitd need w m" by simp
    have "need \<le> c_mem w ! m" if "can_release i w j" "need \<le> c_mem w ! j" for j
      using b that by (auto simp: best_def split: if_splits dest: order_trans)
    then show ?thesis using Some b by (auto simp: best_def not_le split: if_splits)
  qed
qed

theorem candidate_correct_witness:
  "madmit_candidate (proc_ipc 0) 0 3 two_procs = Some 1 \<and> can_release (proc_ipc 0) two_procs 1"
proof -
  have "madmit_candidate (proc_ipc 0) 0 3 two_procs = Some 1"
    using two_procs_candidate [of 3 1] by (simp add: two_procs_def)
  with candidate_correct [of 3 "proc_ipc 0" 0 two_procs] show ?thesis by auto
qed

text \<open>The rule as the comment in \<open>madmit.c\<close> (lines 87 to 98) and \<open>sbma.h\<close> (line 120) have it: among the processes with
  resident memory greater than the requested memory, if there are any.  The code agrees with it when no memory is free
  and no process holds exactly the request; otherwise the two may choose different processes.\<close>

definition commented :: "ipc \<Rightarrow> cint \<Rightarrow> nat \<Rightarrow> 'a shm_scheme \<Rightarrow> nat \<Rightarrow> bool" where
  "commented i admitd req w m \<longleftrightarrow> can_release i w m \<and>
     (if \<exists>j. can_release i w j \<and> req < c_mem w ! j
      then req < c_mem w ! m \<and>
        (\<forall>j. can_release i w j \<and> req < c_mem w ! j \<longrightarrow>
           (if admitd = VMM_ADMITD then d_mem w ! m \<le> d_mem w ! j else c_mem w ! m \<le> c_mem w ! j))
      else \<forall>j. can_release i w j \<longrightarrow> c_mem w ! j \<le> c_mem w ! m)"

lemma candidate_as_commented:
  assumes "0 < req" and "s_mem w = 0" and "\<forall>j. can_release i w j \<longrightarrow> c_mem w ! j \<noteq> req"
    and "madmit_candidate i admitd (req - s_mem w) w = Some m"
  shows "commented i admitd req w m"
proof -
  have "best (can_release i w) admitd req w m"
    using candidate_spec [where need = req and i = i and admitd = admitd and w = w] assms(1,2,4) by simp
  with assms(3) show ?thesis
    by (auto simp: best_def commented_def le_less split: if_splits dest: order.strict_trans2)
qed

definition three_procs :: shm where
  "three_procs = \<lparr>s_mem = 3, c_mem = [0, 5, 9], d_mem = [0, 0, 0], pids = [100, 101, 102], sigs = [0, 0, 0],
     next_id = 3, inter_mtx = 1, sid = 1, shm_made = True\<rparr>"

lemma candidate_differs:
  "madmit_candidate ((proc_ipc 0)\<lparr>n_procs := 3\<rparr>) 0 (8 - s_mem three_procs) three_procs = Some 1"
  "commented ((proc_ipc 0)\<lparr>n_procs := 3\<rparr>) 0 8 three_procs m \<longleftrightarrow> m = 2"
proof -
  show "madmit_candidate ((proc_ipc 0)\<lparr>n_procs := 3\<rparr>) 0 (8 - s_mem three_procs) three_procs = Some 1"
  proof -
    have "[0..<3] = [0, 1, 2 :: nat]" by (simp add: upt_rec)
    moreover have "VMM_ADMITD \<noteq> 0" by (simp add: vmm_opt_code)
    moreover have "ipc_is_eligible three_procs (Suc 0) \<noteq> 0" "ipc_is_eligible three_procs 2 \<noteq> 0"
      by (simp_all add: eligible_iff three_procs_def)
    ultimately show ?thesis by (auto simp: madmit_candidate_def madmit_consider_def) (simp_all add: three_procs_def)
  qed
  have "can_release ((proc_ipc 0)\<lparr>n_procs := 3\<rparr>) three_procs j \<longleftrightarrow> j = 1 \<or> j = 2" for j
    by (auto simp: can_release_def eligible_iff three_procs_def less_Suc_eq numeral_3_eq_3 numeral_2_eq_2)
  then show "commented ((proc_ipc 0)\<lparr>n_procs := 3\<rparr>) 0 8 three_procs m \<longleftrightarrow> m = 2"
    by (auto simp: commented_def three_procs_def)
qed

text \<open>C27: The accounts balance.  Giving back memory (\<open>ipc_mevict\<close>, and \<open>ipc_atomic_dec\<close> in
  the signal handler) and taking it (\<open>ipc_atomic_inc\<close>) move exactly the named pages between
  the process and the system: the sum of the free pages and all charges never changes, no
  other process's account is touched, no counter wraps, and \<open>maxpages\<close> is the maximum.\<close>
theorem accounts_balance:
  assumes "wf_shm i w" and "c \<le> c_mem w ! iid i" and "d \<le> d_mem w ! iid i" and "0 < inter_mtx w"
    and "value \<le> s_mem w"
  shows "\<exists>w1 i2 w2. ipc_mevict i c d w = Some (0, w1) \<and> ipc_atomic_inc i value w = Some (i2, w2) \<and>
           wf_shm i w1 \<and> wf_shm i2 w2 \<and> total w1 = total w \<and> total w2 = total w \<and>
           s_mem w1 = s_mem w + c \<and> s_mem w2 = s_mem w - value \<and>
           c_mem w1 = (c_mem w)[iid i := c_mem w ! iid i - c] \<and> d_mem w1 = (d_mem w)[iid i := d_mem w ! iid i - d] \<and>
           c_mem w2 = (c_mem w)[iid i := c_mem w ! iid i + value] \<and> d_mem w2 = d_mem w \<and>
           inter_mtx w1 = inter_mtx w \<and> maxpages i2 = max (maxpages i) (c_mem w2 ! iid i)"
proof -
  have j: "iid i < length (c_mem w)" using assms(1) by (simp add: wf_shm_def in_shm_def)
  show ?thesis
    unfolding ipc_mevict_eq [OF assms(1-4)] ipc_atomic_inc_eq [OF assms(1,5)]
    using assms(1) total_dec [OF j assms(2)] total_inc [OF j assms(5)] j
    by (simp add: wf_shm_def in_shm_def)
qed

theorem accounts_balance_witness:
  "\<exists>w1. ipc_mevict (proc_ipc 1) 4 2 two_procs = Some (0, w1) \<and> s_mem w1 = 14 \<and> total w1 = total two_procs"
  using accounts_balance [of "proc_ipc 1" two_procs 4 2 3] by auto

text \<open>C28: Admission never returns when nobody can release memory: if the request exceeds the
  free pages and no other process holds any, \<open>ipc_madmit\<close> spins with the inter-process
  mutex held, whatever signals would do.\<close>
theorem admission_spins:
  assumes "s_mem w < value" and "\<And>j. j < n_procs i \<Longrightarrow> j \<noteq> iid i \<Longrightarrow> c_mem w ! j = 0"
  shows "ipc_madmit signal i value admitd w = None"
proof -
  have "\<not> can_release i (w\<lparr>inter_mtx := k\<rparr>) j" for j k using assms(2) by (auto simp: can_release_def)
  then have none: "madmit_candidate i admitd (value - s_mem w) (w\<lparr>inter_mtx := k\<rparr>) = None" for k
    using candidate_spec [where need = "value - s_mem w" and i = i and admitd = admitd and w = "w\<lparr>inter_mtx := k\<rparr>"] assms(1)
    by (auto simp: best_def split: option.splits)
  have "madmit_loop signal i admitd value (s_mem w) (w\<lparr>inter_mtx := k\<rparr>) = None" for k
    using madmit_loop_stuck [of signal i admitd "value" "s_mem w" "w\<lparr>inter_mtx := k\<rparr>"] none assms(1)
    by (cases "madmit_loop signal i admitd value (s_mem w) (w\<lparr>inter_mtx := k\<rparr>)") auto
  then show ?thesis using assms(1)
    by (auto simp: ipc_madmit_def sem_wait_inter_def)
qed

theorem admission_spins_witness:
  "ipc_madmit (\<lambda>j w. Some (0, w)) (proc_ipc 1) 11 0 two_procs = None"
  by (rule admission_spins) (auto simp: less_Suc_eq numeral_2_eq_2)

text \<open>An error during admission leaves the inter-process mutex locked: when \<open>kill\<close> or the
  wait on \<open>done\<close> fails, \<open>ipc_madmit\<close> returns -1 without \<open>sem_post\<close>, and from then on no
  process can admit or return memory.\<close>
theorem error_keeps_mutex:
  assumes "ipc_madmit signal i value admitd w = Some (-1, i', w')" and "inter_mtx w = 1"
    and "\<And>j w ret w'. signal j w = Some (ret, w') \<Longrightarrow> inter_mtx w' = inter_mtx w"
  shows "(v2 \<noteq> 0 \<longrightarrow> ipc_madmit signal2 i2 v2 admitd2 w' = None) \<and>
         (c \<noteq> 0 \<or> d \<noteq> 0 \<longrightarrow> ipc_mevict i2 c d w' = None)"
proof -
  from assms(1,2) obtain cur where
    "madmit_loop signal i admitd value (s_mem w) (w\<lparr>inter_mtx := 0\<rparr>) = Some (-1, cur, w')"
    by (auto simp: ipc_madmit_def sem_wait_inter_def bind_eq_Some_conv split: if_splits)
  then have "inter_mtx w' = 0" using madmit_loop_inter [of signal i admitd "value" "s_mem w"] assms(3) by fastforce
  then show ?thesis by (simp add: mutex_blocks)
qed

theorem error_keeps_mutex_witness:
  "\<exists>w'. ipc_madmit (\<lambda>j w. Some (-1, w)) (proc_ipc 0) 12 0 two_procs = Some (-1, proc_ipc 0, w') \<and>
     ipc_mevict (proc_ipc 1) 5 2 w' = None"
proof -
  have "ipc_madmit (\<lambda>j w. Some (-1, w)) (proc_ipc 0) 12 0 two_procs =
      Some (-1, proc_ipc 0, two_procs\<lparr>inter_mtx := 0\<rparr>)"
    by (simp add: ipc_madmit_def in_shm_def sem_wait_inter_def madmit_loop.simps two_procs_candidate)
  with error_keeps_mutex [OF this, of 0 "\<lambda>_ _. None" "proc_ipc 1" 0 5 2] show ?thesis by auto
qed

text \<open>Switching signals off does not protect a process that holds memory: after
  \<open>ipc_sigoff\<close> it is still eligible, because eligibility is the disjunction of the two
  conditions; and a process that holds a multiple of \<open>2\<^sup>32\<close> pages is not eligible on account
  of its memory.\<close>
theorem sigoff_still_eligible:
  assumes "in_shm i w"
  shows "\<exists>w'. ipc_sigoff i w = Some w' \<and>
           (ipc_is_eligible w' (iid i) \<noteq> 0 \<longleftrightarrow> c_mem w ! iid i mod 4294967296 \<noteq> 0)"
proof -
  have "\<not> bit ((sigs w ! iid i) AND NOT IPC_SIGON) 0" by (simp only: bit_and_iff bit_not_iff IPC_SIGON_def push_bit_0_id bit_1_iff) simp
  then show ?thesis using assms by (simp add: ipc_sigoff_def eligible_iff in_shm_def)
qed

theorem sigoff_still_eligible_witness:
  "\<exists>w'. ipc_sigoff (proc_ipc 1) two_procs = Some w' \<and> ipc_is_eligible w' 1 \<noteq> 0"
  using sigoff_still_eligible [of "proc_ipc 1" two_procs] by (auto simp: in_shm_def)


text \<open>C29: The arrays in the shared segment tile it: the scalar, the two counters, the process ids,
  the id cell and the status bytes follow one another without gap or overlap, each aligned
  for its type, and the last one ends at \<open>IPC_LEN\<close>.  The id cell is therefore not the last
  \<open>int\<close> of the segment, as the comment in \<open>ipc_init\<close> says.\<close>
theorem segment_layout:
  "off_c_mem = off_s_mem + 8 \<and> off_d_mem n = off_c_mem + n * 8 \<and> off_pid n = off_d_mem n + n * 8 \<and>
   off_idp n = off_pid n + n * 4 \<and> off_flags n = off_idp n + 4 \<and> IPC_LEN n = off_flags n + n \<and>
   8 dvd off_c_mem \<and> 8 dvd off_d_mem n \<and> 4 dvd off_pid n \<and> 4 dvd off_idp n \<and>
   (off_idp n + 4 = IPC_LEN n \<longleftrightarrow> n = 0)"
proof -
  have "off_d_mem n = 8 * (1 + n)" "off_pid n = 4 * (2 + 4 * n)" "off_idp n = 4 * (2 + 5 * n)"
    by (simp_all add: off_d_mem_def off_pid_def off_idp_def off_c_mem_def off_s_mem_def)
  then show ?thesis
    by (auto simp: off_flags_def IPC_LEN_def off_c_mem_def off_s_mem_def)
qed

lemma sys_calls_ok [simp]: "faults s = [] \<Longrightarrow> sys_calls n s = (True, s)"
  by (induction n) simp_all

lemma ipc_init_eq:
  assumes "faults s = []" and "sid w \<noteq> 0"
    and "w0 = (if shm_made w then w
               else w\<lparr>s_mem := max_mem, c_mem := replicate n 0, d_mem := replicate n 0,
                      pids := replicate n 0, sigs := replicate n 0, next_id := 0\<rparr>)"
    and "length (pids w0) = n"
  shows "ipc_init i unq n max_mem pid w s =
           (if next_id w0 < n
            then Some (0, i\<lparr>iid := next_id w0, n_procs := n, uniq := unq, curpages := 0, maxpages := 0\<rparr>,
                   w0\<lparr>shm_made := True, next_id := Suc (next_id w0), pids := (pids w0)[next_id w0 := pid]\<rparr>, s)
            else None)"
  using assms by (cases "shm_made w") (auto simp: ipc_init_def Let_def)

text \<open>Processes join with consecutive ids.  The process that creates the segment gets id 0
  and finds all of \<open>max_mem\<close> free; each later one gets the next id and leaves the accounts as
  they are; one process more than \<open>n_procs\<close> is stopped by the assertion.\<close>
theorem join_ids:
  assumes "faults s = []" and "sid w \<noteq> 0"
    and "w0 = (if shm_made w then w
               else w\<lparr>s_mem := max_mem, c_mem := replicate n 0, d_mem := replicate n 0,
                      pids := replicate n 0, sigs := replicate n 0, next_id := 0\<rparr>)"
    and "length (pids w0) = n"
  shows "ipc_init i unq n max_mem pid w s =
           (if next_id w0 < n
            then Some (0, i\<lparr>iid := next_id w0, n_procs := n, uniq := unq, curpages := 0, maxpages := 0\<rparr>,
                   w0\<lparr>shm_made := True, next_id := Suc (next_id w0), pids := (pids w0)[next_id w0 := pid]\<rparr>, s)
            else None)"
  using assms by (rule ipc_init_eq)

theorem join_ids_witness:
  "ipc_init (proc_ipc 9) 1 2 64 77 two_procs \<lparr>faults = [], grants = [], places = [], files = (\<lambda>_. None)\<rparr> = None"
  by (subst join_ids [OF _ _ refl]) simp_all

end
