(* ===== verification/Vmm.thy ===== *)
theory Vmm
  imports Swap Ipc
begin

text \<open>
  The virtual memory manager of one process (\<open>src/include/vmm.h\<close>), the world of all
  processes, the consistency check (\<open>src/api/mcheck.c\<close>) and eviction
  (\<open>src/api/mevict.c\<close>), up to the handler of \<open>SIGIPC\<close> (\<open>src/vmm/init.c\<close>) by which
  one process makes another release its memory.

  A function of the library gets the calling process's \<open>_vmm_\<close> and the world and returns
  its value with both.  The world extends the shared segment by the other processes (by
  ipc id), the operating system and the system's page size.  Allocation table entries are
  passed by value and put back into the table under their address.  Timers are not
  modelled; without threads the locks do nothing.
\<close>

subsection \<open>State\<close>

record vmm =
  vinit :: int
  opts :: cint
  page_size :: nat
  numipc :: nat
  numhipc :: nat
  numrf :: nat
  numwf :: nat
  numrd :: nat
  numwr :: nat
  numpages :: nat
  fstem :: string
  vpid :: nat
  a_tbl :: "ate list"
  vipc :: ipc

record world = shm +
  procs :: "nat \<Rightarrow> vmm option"
  sys :: os
  sc_page :: nat

definition to_ssize :: "nat \<Rightarrow> int" where
  "to_ssize n = (int n + 9223372036854775808) mod 18446744073709551616 - 9223372036854775808"

definition as_size :: "int \<Rightarrow> nat" where
  "as_size x = nat (x mod int SIZE_MOD)"

lemma to_ssize_exact: "n < 9223372036854775808 \<Longrightarrow> to_ssize n = int n"
  by (simp add: to_ssize_def)

lemma as_size_exact [simp]: "n < SIZE_MOD \<Longrightarrow> as_size (int n) = n"
  by (simp add: as_size_def flip: zmod_int)

definition VMM_TO_SYS :: "vmm \<Rightarrow> 'a world_scheme \<Rightarrow> nat \<Rightarrow> nat" where
  "VMM_TO_SYS v w n = mulw n (page_size v) div sc_page w"

definition vmm_fname :: "vmm \<Rightarrow> ate \<Rightarrow> string" where
  "vmm_fname v a = swap_name (fstem v) (vpid v) (addr a)"

definition put_ate :: "ate \<Rightarrow> ate list \<Rightarrow> ate list" where
  "put_ate a tbl = map (\<lambda>b. if addr b = addr a then a else b) tbl"

definition with_ate :: "ate \<Rightarrow> vmm \<Rightarrow> vmm" where
  "with_ate a v = v\<lparr>a_tbl := put_ate a (a_tbl v)\<rparr>"

definition with_sys :: "os \<Rightarrow> 'a world_scheme \<Rightarrow> 'a world_scheme" where
  "with_sys s w = w\<lparr>sys := s\<rparr>"

text \<open>The pages that the bytes \<open>[x, x + len)\<close> touch: \<open>beg\<close> is a floor, \<open>end\<close> a ceiling.\<close>

definition beg_page :: "vmm \<Rightarrow> ate \<Rightarrow> nat \<Rightarrow> nat" where
  "beg_page v a x = subw x (base a) div page_size v"

definition end_page :: "vmm \<Rightarrow> ate \<Rightarrow> nat \<Rightarrow> nat \<Rightarrow> nat" where
  "end_page v a x len = addw 1 (subw (subw (addw x len) (base a)) 1 div page_size v)"

text \<open>The status bytes that a loop from \<open>b\<close> to \<open>e\<close> reads.\<close>

definition flag_span :: "ate \<Rightarrow> nat \<Rightarrow> nat \<Rightarrow> byte list option" where
  "flag_span a b e =
     (if e \<le> b then Some [] else if e \<le> length (flags a) then Some (span b (e - b) (flags a)) else None)"

subsection \<open>The consistency check\<close>

definition sizeof_ate :: nat where "sizeof_ate = 64"

definition struct_pages :: "vmm \<Rightarrow> nat" where
  "struct_pages v = addw 1 (subw sizeof_ate 1 div page_size v)"

definition flag_pages :: "vmm \<Rightarrow> nat \<Rightarrow> nat" where
  "flag_pages v n = addw 1 (subw n 1 div page_size v)"

definition meta_pages :: "vmm \<Rightarrow> ate \<Rightarrow> nat" where
  "meta_pages v a = (if has (opts v) VMM_METACH then addw (struct_pages v) (flag_pages v (n_pages a)) else 0)"

fun mcheck_loop :: "vmm \<Rightarrow> ate list \<Rightarrow> nat \<Rightarrow> nat \<Rightarrow> (bool \<times> nat \<times> nat) option" where
  "mcheck_loop v [] c d = Some (True, c, d)"
| "mcheck_loop v (a # as) c d = do {
     c \<leftarrow> Some (addw c (addw (meta_pages v a) (c_pages a)));
     d \<leftarrow> Some (addw d (d_pages a));
     if has (opts v) VMM_EXTRA then do {
       fs \<leftarrow> flag_span a 0 (n_pages a);
       if length (filter resident fs) \<noteq> l_pages a then Some (False, c, d)
       else if length (filter charged fs) \<noteq> c_pages a then Some (False, c, d)
       else if length (filter dirty fs) \<noteq> d_pages a then Some (False, c, d)
       else mcheck_loop v as c d
     }
     else mcheck_loop v as c d
   }"

definition sbma_mcheck :: "vmm \<Rightarrow> 'a world_scheme \<Rightarrow> int option" where
  "sbma_mcheck v w =
     (if has (opts v) VMM_CHECK then do {
        (go, c, d) \<leftarrow> mcheck_loop v (a_tbl v) 0 0;
        if \<not> go then Some (-1)
        else do {
          ASSERT (in_shm (vipc v) w);
          Some (if VMM_TO_SYS v w c \<noteq> c_mem w ! iid (vipc v) \<or> VMM_TO_SYS v w d \<noteq> d_mem w ! iid (vipc v)
                then -1 else 0)
        }
      }
      else Some 0)"

definition SBMA_STATE_CHECK :: "vmm \<Rightarrow> 'a world_scheme \<Rightarrow> unit option" where
  "SBMA_STATE_CHECK v w = do { ret \<leftarrow> sbma_mcheck v w; ASSERT (ret \<noteq> -1) }"

subsection \<open>Eviction\<close>

definition sbma_mevict_probe :: "vmm \<Rightarrow> 'a world_scheme \<Rightarrow> ate \<Rightarrow> nat \<Rightarrow> nat \<Rightarrow> (nat \<times> nat) option" where
  "sbma_mevict_probe v w a x len = do {
     fs \<leftarrow> flag_span a (beg_page v a x) (end_page v a x len);
     Some (VMM_TO_SYS v w (length (filter charged fs)), VMM_TO_SYS v w (length (filter dirty fs)))
   }"

definition sbma_mevict_int ::
  "vmm \<Rightarrow> 'a world_scheme \<Rightarrow> ate \<Rightarrow> nat \<Rightarrow> nat \<Rightarrow> (int \<times> ate \<times> 'a world_scheme) option" where
  "sbma_mevict_int v w a x len = do {
     b \<leftarrow> Some (beg_page v a x);
     e \<leftarrow> Some (end_page v a x len);
     (wr, a, s) \<leftarrow> vmm_swap_o (page_size v) (opts v) (vmm_fname v a) a b (subw e b) (sys w);
     w \<leftarrow> Some (with_sys s w);
     if wr = -1 then Some (-1, a, w) else Some (to_ssize (VMM_TO_SYS v w (as_size wr)), a, w)
   }"

definition sbma_mevict ::
  "vmm \<Rightarrow> 'a world_scheme \<Rightarrow> nat \<Rightarrow> nat \<Rightarrow> (int \<times> vmm \<times> 'a world_scheme) option" where
  "sbma_mevict v w x len = do {
     SBMA_STATE_CHECK v w;
     case mmu_lookup (page_size v) (a_tbl v) x of
       None \<Rightarrow> Some (-1, v, w)
     | Some a \<Rightarrow> do {
         (c, d) \<leftarrow> sbma_mevict_probe v w a x len;
         (wr, a, w) \<leftarrow> sbma_mevict_int v w a x len;
         v \<leftarrow> Some (with_ate a v);
         if wr = -1 then Some (-1, v, w)
         else do {
           (ret, w) \<leftarrow> ipc_mevict (vipc v) c d w;
           if ret = -1 then Some (-1, v, w)
           else do {
             SBMA_STATE_CHECK v w;
             Some (to_ssize c, v\<lparr>numwr := addw (numwr v) (as_size wr)\<rparr>, w)
           }
         }
       }
   }"

text \<open>The loop of \<open>sbma_mevictall_int\<close> over the rest \<open>as\<close> of the table; the first component
  of the result is \<open>-1\<close> on error, the second the rest of the table as it is then.\<close>

fun mevictall_loop ::
  "vmm \<Rightarrow> 'a world_scheme \<Rightarrow> ate list \<Rightarrow> nat \<Rightarrow> nat \<Rightarrow> nat \<Rightarrow>
     (int \<times> ate list \<times> 'a world_scheme \<times> nat \<times> nat \<times> nat) option" where
  "mevictall_loop v w [] c d nw = Some (0, [], w, c, d, nw)"
| "mevictall_loop v w (a # as) c d nw = do {
     c \<leftarrow> Some (addw c (c_pages a));
     d \<leftarrow> Some (addw d (d_pages a));
     (ret, a, w) \<leftarrow> sbma_mevict_int v w a (base a) (mulw (n_pages a) (page_size v));
     if ret = -1 then Some (-1, a # as, w, c, d, nw)
     else do {
       nw \<leftarrow> Some (addw nw (as_size ret));
       ASSERT (l_pages a = 0);
       ASSERT (c_pages a = 0);
       ASSERT (d_pages a = 0);
       (ret, as, w, c, d, nw) \<leftarrow> mevictall_loop v w as c d nw;
       Some (ret, a # as, w, c, d, nw)
     }
   }"

definition sbma_mevictall_int ::
  "vmm \<Rightarrow> 'a world_scheme \<Rightarrow> (int \<times> vmm \<times> 'a world_scheme \<times> nat \<times> nat \<times> nat) option" where
  "sbma_mevictall_int v w = do {
     (ret, tbl, w, c, d, nw) \<leftarrow> mevictall_loop v w (a_tbl v) 0 0 0;
     v \<leftarrow> Some (v\<lparr>a_tbl := tbl\<rparr>);
     Some (ret, v, w, VMM_TO_SYS v w c, VMM_TO_SYS v w d, VMM_TO_SYS v w nw)
   }"

definition sbma_mevictall :: "vmm \<Rightarrow> 'a world_scheme \<Rightarrow> (int \<times> vmm \<times> 'a world_scheme) option" where
  "sbma_mevictall v w = do {
     SBMA_STATE_CHECK v w;
     (ret, v, w, c, d, nw) \<leftarrow> sbma_mevictall_int v w;
     if ret = -1 then Some (-1, v, w)
     else do {
       (ret, w) \<leftarrow> ipc_mevict (vipc v) c d w;
       if ret = -1 then Some (-1, v, w)
       else do {
         SBMA_STATE_CHECK v w;
         Some (to_ssize c, v\<lparr>numwr := addw (numwr v) nw\<rparr>, w)
       }
     }
   }"

subsection \<open>The handler of SIGIPC\<close>

definition vmm_sigipc :: "vmm \<Rightarrow> 'a world_scheme \<Rightarrow> (vmm \<times> 'a world_scheme) option" where
  "vmm_sigipc v w = do {
     (v, w) \<leftarrow> (if ipc_is_eligible w (iid (vipc v)) \<noteq> 0 then do {
         (ret, v, w, c, d, nw) \<leftarrow> sbma_mevictall_int v w;
         ASSERT (ret \<noteq> -1);
         w \<leftarrow> ipc_atomic_dec (vipc v) c d w;
         Some (v\<lparr>numwr := addw (numwr v) nw, numhipc := addw (numhipc v) 1\<rparr>, w)
       }
       else Some (v, w));
     Some (v\<lparr>numipc := addw (numipc v) 1\<rparr>, w)
   }"

text \<open>
  \<open>kill(pid[ii], SIGIPC)\<close> followed by \<open>sem_wait(ipc->done)\<close>: the handler of the process
  runs to the \<open>sem_post\<close> that ends the wait.
\<close>

definition deliver :: "nat \<Rightarrow> 'a world_scheme \<Rightarrow> (int \<times> 'a world_scheme) option" where
  "deliver ii w =
     (case sys_call (sys w) of                                 \<comment> \<open>kill\<close>
        (False, s) \<Rightarrow> Some (-1, with_sys s w)
      | (True, s) \<Rightarrow>
          (case procs w ii of
             None \<Rightarrow> Some (-1, with_sys s w)
           | Some v \<Rightarrow> do {
               (v, w) \<leftarrow> vmm_sigipc v (with_sys s w);
               w \<leftarrow> Some (w\<lparr>procs := (procs w)(ii \<mapsto> v)\<rparr>);
               (case sys_call (sys w) of                       \<comment> \<open>sem_wait\<close>
                  (False, s) \<Rightarrow> Some (-1, with_sys s w)
                | (True, s) \<Rightarrow> Some (0, with_sys s w))
             }))"

definition madmit :: "vmm \<Rightarrow> nat \<Rightarrow> 'a world_scheme \<Rightarrow> (int \<times> vmm \<times> 'a world_scheme) option" where
  "madmit v n w = do {
     (ret, i, w) \<leftarrow> ipc_madmit deliver (vipc v) n (opts v AND VMM_ADMITD) w;
     Some (ret, v\<lparr>vipc := i\<rparr>, w)
   }"


subsection \<open>The invariant of a process\<close>

definition csum :: "vmm \<Rightarrow> ate list \<Rightarrow> nat" where
  "csum v tbl = sum_list (map (\<lambda>a. meta_pages v a + c_pages a) tbl)"

definition dsum :: "ate list \<Rightarrow> nat" where
  "dsum tbl = sum_list (map d_pages tbl)"

definition nsum :: "vmm \<Rightarrow> ate list \<Rightarrow> nat" where
  "nsum v tbl = sum_list (map (\<lambda>a. meta_pages v a + n_pages a) tbl)"

text \<open>Sizes are such that no computation of the library wraps.\<close>

definition sized :: "vmm \<Rightarrow> 'a world_scheme \<Rightarrow> bool" where
  "sized v w \<longleftrightarrow> 0 < page_size v \<and> 2 \<le> sc_page w \<and> sc_page w dvd page_size v \<and>
     nsum v (a_tbl v) * page_size v < SIZE_MOD \<and> nsum v (a_tbl v) < 2147483648 \<and>
     nsum v (a_tbl v) * (page_size v div sc_page w) < 2147483647"

text \<open>Without aggressive charging a page is charged exactly when it is resident.\<close>

definition lean :: "ate \<Rightarrow> bool" where
  "lean a \<longleftrightarrow> list_all (\<lambda>f. charged f \<longrightarrow> resident f) (flags a)"

definition aggressive :: "vmm \<Rightarrow> bool" where
  "aggressive v \<longleftrightarrow> has (opts v) (VMM_AGGCH OR VMM_LZYRD)"

definition stored :: "vmm \<Rightarrow> 'a world_scheme \<Rightarrow> ate \<Rightarrow> byte list \<Rightarrow> bool" where
  "stored v w a f \<longleftrightarrow> files (sys w) (vmm_fname v a) = Some f \<and> sound (page_size v) f a"

text \<open>The charges of the process are what its allocations account for.\<close>

definition accounted :: "vmm \<Rightarrow> 'a world_scheme \<Rightarrow> bool" where
  "accounted v w \<longleftrightarrow>
     c_mem w ! iid (vipc v) = VMM_TO_SYS v w (csum v (a_tbl v)) \<and>
     d_mem w ! iid (vipc v) = VMM_TO_SYS v w (dsum (a_tbl v))"

definition entry_ok :: "vmm \<Rightarrow> 'a world_scheme \<Rightarrow> ate \<Rightarrow> bool" where
  "entry_ok v w a \<longleftrightarrow> 0 < n_pages a \<and> lean a \<and> (\<exists>f. stored v w a f)"

definition well_formed :: "vmm \<Rightarrow> 'a world_scheme \<Rightarrow> bool" where
  "well_formed v w \<longleftrightarrow> sized v w \<and> wf_shm (vipc v) w \<and> apart (page_size v) (a_tbl v) \<and>
     distinct (map addr (a_tbl v)) \<and> distinct (map (vmm_fname v) (a_tbl v)) \<and>
     list_all (entry_ok v w) (a_tbl v)"

definition proc_ok :: "vmm \<Rightarrow> 'a world_scheme \<Rightarrow> bool" where
  "proc_ok v w \<longleftrightarrow> well_formed v w \<and> accounted v w"

lemma TO_SYS_exact:
  assumes "sized v w" and "n \<le> nsum v (a_tbl v)"
  shows "VMM_TO_SYS v w n = n * (page_size v div sc_page w)"
proof -
  have "n * page_size v < SIZE_MOD"
    using assms by (auto simp: sized_def intro: le_less_trans [OF mult_le_mono1])
  then show ?thesis using assms(1)
    by (auto simp: VMM_TO_SYS_def mulw_exact sized_def dvd_def)
qed

lemma TO_SYS_0 [simp]: "VMM_TO_SYS v w 0 = 0"
  by (simp add: VMM_TO_SYS_def mulw_def)

lemma TO_SYS_small: "sized v w \<Longrightarrow> VMM_TO_SYS v w n < 9223372036854775808"
proof -
  assume "sized v w"
  then have "2 \<le> sc_page w" by (simp add: sized_def)
  then have "mulw n (page_size v) div sc_page w \<le> mulw n (page_size v) div 2"
    by (intro div_le_mono2) auto
  moreover have "mulw n (page_size v) div 2 < 9223372036854775808"
    using mulw_less [of n "page_size v"] by (simp add: SIZE_MOD_def)
  ultimately show ?thesis by (simp add: VMM_TO_SYS_def)
qed

lemma to_ssize_sys [simp]:
  "sized v w \<Longrightarrow> to_ssize (VMM_TO_SYS v w n) = int (VMM_TO_SYS v w n)"
  "sized v w \<Longrightarrow> as_size (int (VMM_TO_SYS v w n)) = VMM_TO_SYS v w n"
proof -
  assume "sized v w"
  from TO_SYS_small [OF this, of n] show "to_ssize (VMM_TO_SYS v w n) = int (VMM_TO_SYS v w n)"
    "as_size (int (VMM_TO_SYS v w n)) = VMM_TO_SYS v w n"
    by (simp_all add: to_ssize_exact SIZE_MOD_def)
qed

lemma sound_counts:
  assumes "sound ps f a"
  shows "length (flags a) = n_pages a" "c_pages a = length (filter charged (flags a))" "c_pages a \<le> n_pages a"
    "d_pages a = length (filter dirty (flags a))" "d_pages a \<le> n_pages a"
    "l_pages a = length (filter resident (flags a))"
  using assms by (auto simp: sound_def wf_ate_def counts_ok_def intro: le_trans [OF length_filter_le])

lemma sums_le:
  assumes "\<And>a. a \<in> set tbl \<Longrightarrow> c_pages a \<le> n_pages a" and "\<And>a. a \<in> set tbl \<Longrightarrow> d_pages a \<le> n_pages a"
  shows "csum v tbl \<le> nsum v tbl" and "dsum tbl \<le> nsum v tbl"
  using assms by (induction tbl) (auto simp: csum_def dsum_def nsum_def add_mono trans_le_add2)

lemma well_formed_counts:
  assumes "well_formed v w" and "a \<in> set (a_tbl v)"
  shows "length (flags a) = n_pages a" "c_pages a = length (filter charged (flags a))" "c_pages a \<le> n_pages a"
    "d_pages a = length (filter dirty (flags a))" "d_pages a \<le> n_pages a"
    "l_pages a = length (filter resident (flags a))"
proof -
  obtain f where "sound (page_size v) f a" using assms by (auto simp: well_formed_def entry_ok_def stored_def list_all_iff)
  then show "length (flags a) = n_pages a" "c_pages a = length (filter charged (flags a))" "c_pages a \<le> n_pages a"
    "d_pages a = length (filter dirty (flags a))" "d_pages a \<le> n_pages a"
    "l_pages a = length (filter resident (flags a))" by (rule sound_counts)+
qed

lemma well_formed_sums:
  assumes "well_formed v w"
  shows "csum v (a_tbl v) \<le> nsum v (a_tbl v)" "dsum (a_tbl v) \<le> nsum v (a_tbl v)"
  using sums_le [of "a_tbl v" v] well_formed_counts [OF assms] by auto

lemma nsum_mem: "a \<in> set tbl \<Longrightarrow> meta_pages v a + n_pages a \<le> nsum v tbl"
  unfolding nsum_def by (rule member_le_sum_list) auto

subsection \<open>The consistency check decides the accounting\<close>

lemma mcheck_loop_eq:
  assumes "\<And>a. a \<in> set tbl \<Longrightarrow> length (flags a) = n_pages a \<and> l_pages a = length (filter resident (flags a)) \<and>
      c_pages a = length (filter charged (flags a)) \<and> d_pages a = length (filter dirty (flags a))"
    and "c + csum v tbl < SIZE_MOD" and "d + dsum tbl < SIZE_MOD"
  shows "mcheck_loop v tbl c d = Some (True, c + csum v tbl, d + dsum tbl)"
  using assms
proof (induction tbl arbitrary: c d)
  case Nil
  then show ?case by (simp add: csum_def dsum_def)
next
  case (Cons a tbl)
  have c: "addw c (addw (meta_pages v a) (c_pages a)) = c + (meta_pages v a + c_pages a)"
    and d: "addw d (d_pages a) = d + d_pages a"
    using Cons.prems(2,3) by (simp_all add: csum_def dsum_def addw_exact)
  have fl: "flag_span a 0 (n_pages a) = Some (flags a)"
    using Cons.prems(1) [of a] by (auto simp: flag_span_def span_def)
  have "mcheck_loop v tbl (c + (meta_pages v a + c_pages a)) (d + d_pages a) =
      Some (True, c + csum v (a # tbl), d + dsum (a # tbl))"
    using Cons.IH [of "c + (meta_pages v a + c_pages a)" "d + d_pages a"] Cons.prems
    by (simp add: csum_def dsum_def add.assoc)
  with Cons.prems(1) [of a] c d fl show ?case by auto
qed

lemma sums_no_wrap:
  assumes "well_formed v w"
  shows "csum v (a_tbl v) < SIZE_MOD" "dsum (a_tbl v) < SIZE_MOD"
  using well_formed_sums [OF assms] assms by (auto simp: well_formed_def sized_def SIZE_MOD_def)

lemma mcheck_eq:
  assumes wf: "well_formed v w"
  shows "sbma_mcheck v w = Some (if has (opts v) VMM_CHECK \<and> \<not> accounted v w then -1 else 0)"
proof -
  have "mcheck_loop v (a_tbl v) 0 0 = Some (True, 0 + csum v (a_tbl v), 0 + dsum (a_tbl v))"
    by (rule mcheck_loop_eq) (use well_formed_counts [OF wf] sums_no_wrap [OF wf] in auto)
  moreover have "in_shm (vipc v) w" using wf by (simp add: well_formed_def wf_shm_def)
  ultimately show ?thesis by (auto simp: sbma_mcheck_def accounted_def)
qed

lemma STATE_CHECK_ok [simp]: "proc_ok v w \<Longrightarrow> SBMA_STATE_CHECK v w = Some ()"
  by (simp add: SBMA_STATE_CHECK_def proc_ok_def mcheck_eq)


subsection \<open>Ranges of pages\<close>

definition in_range :: "vmm \<Rightarrow> ate \<Rightarrow> nat \<Rightarrow> nat \<Rightarrow> bool" where
  "in_range v a x len \<longleftrightarrow> base a \<le> x \<and> 0 < len \<and> x + len \<le> region_end (page_size v) a"

lemma range_pages:
  assumes "in_range v a x len" and "region_end (page_size v) a < SIZE_MOD" and "0 < page_size v"
  shows "beg_page v a x = (x - base a) div page_size v"
    and "end_page v a x len = Suc ((x + len - base a - 1) div page_size v)"
    and "beg_page v a x < end_page v a x len" and "end_page v a x len \<le> n_pages a"
    and "subw (end_page v a x len) (beg_page v a x) = end_page v a x len - beg_page v a x"
proof -
  let ?ps = "page_size v"
  have x: "base a \<le> x" "0 < len" "x + len \<le> base a + n_pages a * ?ps" "base a + n_pages a * ?ps < SIZE_MOD"
    using assms(1,2) by (auto simp: in_range_def region_end_def)
  have b: "subw x (base a) = x - base a" using x by (intro subw_exact) auto
  have "addw x len = x + len" using x by (intro addw_exact) auto
  moreover have "subw (x + len) (base a) = x + len - base a" using x by (intro subw_exact) auto
  moreover have "subw (x + len - base a) 1 = x + len - base a - 1" using x by (intro subw_exact) auto
  ultimately have i: "subw (subw (addw x len) (base a)) 1 div ?ps = (x + len - base a - 1) div ?ps" by simp
  have lt: "(x + len - base a - 1) div ?ps < n_pages a"
    using x assms(3) by (simp add: div_less_iff_less_mult)
  moreover have n: "n_pages a < SIZE_MOD"
  proof -
    have "n_pages a \<le> n_pages a * ?ps" using assms(3) by simp
    then show ?thesis using x(4) by linarith
  qed
  ultimately have e: "addw 1 ((x + len - base a - 1) div ?ps) = Suc ((x + len - base a - 1) div ?ps)"
    by (subst addw_exact) auto
  show 1: "beg_page v a x = (x - base a) div ?ps" by (simp add: beg_page_def b)
  show 2: "end_page v a x len = Suc ((x + len - base a - 1) div ?ps)" by (simp only: end_page_def i e)
  show 3: "beg_page v a x < end_page v a x len"
    unfolding 1 2 using x by (intro le_imp_less_Suc div_le_mono) auto
  show 4: "end_page v a x len \<le> n_pages a" using lt by (simp add: 2)
  show "subw (end_page v a x len) (beg_page v a x) = end_page v a x len - beg_page v a x"
    using 3 4 n by (intro subw_exact) auto
qed

lemma flag_span_eq: "b \<le> e \<Longrightarrow> e \<le> length (flags a) \<Longrightarrow> flag_span a b e = Some (span b (e - b) (flags a))"
  by (auto simp: flag_span_def)

lemma whole_range:
  assumes "0 < n_pages a" and "0 < page_size v" and "region_end (page_size v) a < SIZE_MOD"
  shows "in_range v a (base a) (mulw (n_pages a) (page_size v))"
    and "beg_page v a (base a) = 0" and "end_page v a (base a) (mulw (n_pages a) (page_size v)) = n_pages a"
proof -
  have m: "mulw (n_pages a) (page_size v) = n_pages a * page_size v"
    using assms(3) by (intro mulw_exact) (simp add: region_end_def)
  show r: "in_range v a (base a) (mulw (n_pages a) (page_size v))"
    using assms by (simp add: in_range_def region_end_def m)
  show "beg_page v a (base a) = 0" by (simp add: range_pages(1) [OF r assms(3,2)])
  have "(n_pages a * page_size v - 1) div page_size v = n_pages a - 1"
    using assms(1,2) by (intro div_nat_eqI) (auto simp: algebra_simps)
  with range_pages(2) [OF r assms(3,2)] show "end_page v a (base a) (mulw (n_pages a) (page_size v)) = n_pages a"
    using assms(1) by (simp add: m)
qed

subsection \<open>Replacing an entry\<close>

lemma set_put_ate: "b \<in> set (put_ate a tbl) \<Longrightarrow> b = a \<or> b \<in> set tbl \<and> addr b \<noteq> addr a"
  by (auto simp: put_ate_def)

lemma map_put_ate:
  assumes "\<And>b. b \<in> set tbl \<Longrightarrow> addr b = addr a \<Longrightarrow> g b = g a"
  shows "map g (put_ate a tbl) = map g tbl"
  using assms by (auto simp: put_ate_def)

lemma sum_put_ate:
  fixes g :: "ate \<Rightarrow> nat"
  assumes "distinct (map addr tbl)" and "a \<in> set tbl" and "addr a' = addr a"
  shows "sum_list (map g (put_ate a' tbl)) + g a = sum_list (map g tbl) + g a'"
  using assms(1,2)
proof (induction tbl)
  case (Cons b tbl)
  show ?case
  proof (cases "b = a")
    case True
    then have "\<forall>c\<in>set tbl. addr c \<noteq> addr a'" using Cons.prems assms(3) by (auto simp: image_iff)
    then have "map (\<lambda>c. if addr c = addr a' then a' else c) tbl = tbl" by (simp add: map_idI)
    then show ?thesis using True assms(3) by (simp add: put_ate_def)
  next
    case False
    then have "addr b \<noteq> addr a'" using Cons.prems assms(3) by auto
    then show ?thesis using Cons False by (simp add: put_ate_def)
  qed
qed simp

lemma apart_map:
  assumes "apart ps tbl" and "\<And>b. b \<in> set tbl \<Longrightarrow> base (g b) = base b \<and> n_pages (g b) = n_pages b"
  shows "apart ps (map g tbl)"
  using assms
proof (induction tbl)
  case (Cons b tbl)
  then have "region_end ps (g c) = region_end ps c" if "c \<in> set (b # tbl)" for c
    using that by (simp add: region_end_def)
  with Cons show ?case by (auto simp: list_all_iff)
qed simp

definition same_place :: "ate \<Rightarrow> ate \<Rightarrow> bool" where
  "same_place a a' \<longleftrightarrow> addr a' = addr a \<and> base a' = base a \<and> n_pages a' = n_pages a"

lemma meta_pages_cong:
  assumes "opts v' = opts v" and "page_size v' = page_size v"
  shows "meta_pages v' = meta_pages v" "csum v' = csum v" "nsum v' = nsum v"
proof -
  show "meta_pages v' = meta_pages v"
    using assms by (simp add: fun_eq_iff meta_pages_def struct_pages_def flag_pages_def)
  then show "csum v' = csum v" "nsum v' = nsum v" by (simp_all add: fun_eq_iff csum_def nsum_def)
qed

lemma with_ate_simps [simp]:
  "page_size (with_ate a v) = page_size v" "opts (with_ate a v) = opts v" "vipc (with_ate a v) = vipc v"
  "a_tbl (with_ate a v) = put_ate a (a_tbl v)" "vmm_fname (with_ate a v) = vmm_fname v"
  "VMM_TO_SYS (with_ate a v) w n = VMM_TO_SYS v w n"
  by (simp_all add: with_ate_def vmm_fname_def VMM_TO_SYS_def fun_eq_iff)

lemma with_ate_sums [simp]:
  "meta_pages (with_ate a v) = meta_pages v" "csum (with_ate a v) = csum v" "nsum (with_ate a v) = nsum v"
  by (rule meta_pages_cong; simp)+

lemma well_formed_put:
  assumes wf: "well_formed v w" and a: "a \<in> set (a_tbl v)" and sp: "same_place a a'"
    and new: "lean a'" "stored v w' a' f'"
    and old: "\<And>g. g \<noteq> vmm_fname v a \<Longrightarrow> files (sys w') g = files (sys w) g"
    and shm: "wf_shm (vipc v) w'" "sc_page w' = sc_page w"
  shows "well_formed (with_ate a' v) w'"
proof -
  let ?t = "put_ate a' (a_tbl v)"
  have d: "distinct (map addr (a_tbl v))" using wf by (simp add: well_formed_def)
  have ad: "addr a' = addr a" "base a' = base a" "n_pages a' = n_pages a" using sp by (auto simp: same_place_def)
  have uniq: "b = a" if "b \<in> set (a_tbl v)" "addr b = addr a'" for b
    using d a that ad by (auto simp: distinct_map dest: inj_onD)
  have m: "map g ?t = map g (a_tbl v)" if "g a' = g a" for g :: "ate \<Rightarrow> nat"
    by (rule map_put_ate) (use uniq that in auto)
  have mf: "map (vmm_fname v) ?t = map (vmm_fname v) (a_tbl v)"
    by (rule map_put_ate) (use uniq ad in \<open>auto simp: vmm_fname_def\<close>)
  have meta: "meta_pages v a' = meta_pages v a" using ad by (simp add: meta_pages_def)
  have sz: "nsum v ?t = nsum v (a_tbl v)" by (simp add: nsum_def m meta ad)
  have ap: "apart (page_size v) ?t"
    unfolding put_ate_def using wf by (intro apart_map) (use uniq ad in \<open>auto simp: well_formed_def\<close>)
  have fn: "vmm_fname v b \<noteq> vmm_fname v a" if "b \<in> set (a_tbl v)" "addr b \<noteq> addr a'" for b
    using wf a that ad by (auto simp: well_formed_def distinct_map dest: inj_onD)
  have "entry_ok v w' b" if "b \<in> set ?t" for b
  proof (cases "b = a'")
    case True
    moreover have "0 < n_pages a" using wf a by (auto simp: well_formed_def entry_ok_def list_all_iff)
    ultimately show ?thesis using new ad by (auto simp: entry_ok_def)
  next
    case False
    then have b: "b \<in> set (a_tbl v)" "addr b \<noteq> addr a'" using set_put_ate [OF that] by auto
    then have "entry_ok v w b" using wf by (auto simp: well_formed_def list_all_iff)
    with old fn b show ?thesis by (auto simp: entry_ok_def stored_def)
  qed
  then have "list_all (entry_ok (with_ate a' v) w') ?t" by (simp add: list_all_iff entry_ok_def stored_def)
  with wf shm sz ap ad show ?thesis
    by (simp add: well_formed_def sized_def m mf)
qed

lemma sums_put:
  assumes "distinct (map addr (a_tbl v))" and "a \<in> set (a_tbl v)" and "same_place a a'"
  shows "csum v (put_ate a' (a_tbl v)) + c_pages a = csum v (a_tbl v) + c_pages a'"
    and "dsum (put_ate a' (a_tbl v)) + d_pages a = dsum (a_tbl v) + d_pages a'"
    and "nsum v (put_ate a' (a_tbl v)) = nsum v (a_tbl v)"
proof -
  have m: "meta_pages v a' = meta_pages v a" using assms(3) by (simp add: meta_pages_def same_place_def)
  from m show "nsum v (put_ate a' (a_tbl v)) = nsum v (a_tbl v)"
    using sum_put_ate [OF assms(1,2), of a' "\<lambda>a. meta_pages v a + n_pages a"] assms(3)
    by (simp add: nsum_def same_place_def)
  from m sum_put_ate [OF assms(1,2), of a' "\<lambda>a. meta_pages v a + c_pages a"] assms(3)
  show "csum v (put_ate a' (a_tbl v)) + c_pages a = csum v (a_tbl v) + c_pages a'"
    by (simp add: csum_def same_place_def)
  show "dsum (put_ate a' (a_tbl v)) + d_pages a = dsum (a_tbl v) + d_pages a'"
    using sum_put_ate [OF assms(1,2), of a' d_pages] assms(3) by (simp add: dsum_def same_place_def)
qed

subsection \<open>Evicting a range of an allocation\<close>

text \<open>No system call fails and no transfer is cut short from here on.\<close>

definition quiet :: "'a world_scheme \<Rightarrow> bool" where
  "quiet w \<longleftrightarrow> faults (sys w) = [] \<and> grants (sys w) = []"

lemma with_sys_simps [simp]:
  "sys (with_sys s w) = s" "sc_page (with_sys s w) = sc_page w" "procs (with_sys s w) = procs w"
  "s_mem (with_sys s w) = s_mem w" "c_mem (with_sys s w) = c_mem w" "d_mem (with_sys s w) = d_mem w"
  "sigs (with_sys s w) = sigs w" "inter_mtx (with_sys s w) = inter_mtx w" "total (with_sys s w) = total w"
  "pids (with_sys s w) = pids w" "VMM_TO_SYS v (with_sys s w) n = VMM_TO_SYS v w n" "with_sys (sys w) w = w"
  "with_sys s (with_sys t w) = with_sys s w" "wf_shm i (with_sys s w) = wf_shm i w" "in_shm i (with_sys s w) = in_shm i w"
  "sized v (with_sys s w) = sized v w"
  by (simp_all add: with_sys_def total_def VMM_TO_SYS_def wf_shm_def in_shm_def sized_def)

lemma filter_span_split:
  assumes "b + n \<le> length xs"
  shows "length (filter P xs) = length (filter P (take b xs)) + length (filter P (span b n xs)) +
           length (filter P (drop (b + n) xs))"
proof -
  have "drop (b + n) xs = drop n (drop b xs)" by (simp add: add.commute)
  then have "xs = take b xs @ span b n xs @ drop (b + n) xs" unfolding span_def by (metis append_take_drop_id)
  then have "length (filter P xs) = length (filter P (take b xs @ span b n xs @ drop (b + n) xs))" by simp
  then show ?thesis by simp
qed

lemma map_range_parts:
  assumes "b + n \<le> length xs"
  shows "take b (map_range b n g xs) = take b xs" "drop (b + n) (map_range b n g xs) = drop (b + n) xs"
    "span b n (map_range b n g xs) = map g (span b n xs)"
  using assms by (auto simp: span_def intro!: nth_equalityI)

lemma filter_map_range:
  assumes "b + n \<le> length xs" and "\<And>f. \<not> P (g f)"
  shows "length (filter P (map_range b n g xs)) + length (filter P (span b n xs)) = length (filter P xs)"
  using filter_span_split [of b n "map_range b n g xs" P] filter_span_split [of b n xs P] assms
  by (simp add: map_range_parts filter_map o_def)

text \<open>What evicting the pages \<open>b, \<dots>, b + n - 1\<close> of \<open>a\<close> does.\<close>

definition mevicted :: "vmm \<Rightarrow> 'a world_scheme \<Rightarrow> ate \<Rightarrow> byte list \<Rightarrow> nat \<Rightarrow> nat \<Rightarrow> ate \<Rightarrow> 'a world_scheme \<Rightarrow> bool" where
  "mevicted v w a f b n a' w' \<longleftrightarrow>
     same_place a a' \<and> lean a' \<and> quiet w' \<and> w' = with_sys (sys w') w \<and>
     (\<forall>g. g \<noteq> vmm_fname v a \<longrightarrow> files (sys w') g = files (sys w) g) \<and>
     (\<exists>f'. stored v w' a' f' \<and> kept (page_size v) f a f' a') \<and>
     (\<forall>q. b \<le> q \<and> q < b + n \<longrightarrow> \<not> resident (flags a' ! q)) \<and>
     (\<forall>q. q < n_pages a \<longrightarrow> on_disk (flags a' ! q) \<longrightarrow> on_disk (flags a ! q) \<or> dirty (flags a ! q)) \<and>
     l_pages a' + length (filter resident (span b n (flags a))) = l_pages a \<and>
     c_pages a' + length (filter charged (span b n (flags a))) = c_pages a \<and>
     d_pages a' + length (filter dirty (span b n (flags a))) = d_pages a"

lemma swapped_out_mevicted:
  assumes so: "swapped_out (page_size v) (vmm_fname v a) f b n a (sys w) (ret, a', s')" and q: "quiet w"
    and st: "stored v w a f" and lean: "lean a" and rng: "b + n \<le> n_pages a" and small: "n_pages a < 2147483648"
  shows "ret = int (length (filter dirty (span b n (flags a)))) \<and> mevicted v w a f b n a' (with_sys s' w)"
proof -
  let ?k = "length (filter dirty (span b n (flags a)))"
  have sd: "sound (page_size v) f a" using st by (simp add: stored_def)
  note ca = sound_counts [OF sd]
  have "?k \<le> n" by (rule le_trans [OF length_filter_le]) (simp add: span_def)
  then have k: "to_int ?k = int ?k" using small rng by (intro to_int_exact) linarith
  have fq: "faults (sys w) = []" "grants (sys w) = []" using q by (auto simp: quiet_def)
  note so = so [unfolded swapped_out_def prod.case k]
  have ret: "ret = int ?k" using so fq(1) by blast
  then have ret1: "ret \<noteq> -1" by simp
  have pl: "n_pages a' = n_pages a" "base a' = base a" "addr a' = addr a" "faults s' = []" "grants s' = []"
    "\<forall>g. g \<noteq> vmm_fname v a \<longrightarrow> files s' g = files (sys w) g"
    using so fq ret1 by blast+
  obtain f' where f': "files s' (vmm_fname v a) = Some f'" "sound (page_size v) f' a'"
    "kept (page_size v) f a f' a'" using so fq(2) ret1 unfolding kept_def by blast
  note ca' = sound_counts [OF f'(2)]
  have fl: "flags a' = (if l_pages a = 0 then flags a else map_range b n evict_flag (flags a))"
    using so ret1 by blast
  have nores: "\<not> resident x \<and> \<not> charged x \<and> \<not> dirty x" if "l_pages a = 0" "x \<in> set (flags a)" for x
  proof -
    have "\<not> resident x" using that ca(6) by (auto simp: filter_empty_conv)
    moreover have "page_ok x" using sd that by (auto simp: sound_def wf_ate_def pages_ok_def list_all_iff)
    ultimately show ?thesis using lean that by (auto simp: lean_def list_all_iff page_ok_def)
  qed
  have sub: "set (span b n (flags a)) \<subseteq> set (flags a)"
    by (auto simp: span_def dest: in_set_takeD in_set_dropD)
  have cnt: "length (filter P (flags a')) + length (filter P (span b n (flags a))) = length (filter P (flags a))"
    if "\<And>x. \<not> P (evict_flag x)" "\<And>x. l_pages a = 0 \<Longrightarrow> x \<in> set (flags a) \<Longrightarrow> \<not> P x" for P
  proof (cases "l_pages a = 0")
    case True
    then have "filter P (span b n (flags a)) = []" using that(2) sub by (auto simp: filter_empty_conv)
    with True show ?thesis by (simp add: fl)
  qed (use that rng ca in \<open>simp add: fl filter_map_range\<close>)
  have "lean a'" using lean by (auto simp: lean_def fl list_all_length)
  moreover have "\<not> resident (flags a' ! p)" if "b \<le> p" "p < b + n" for p
    using that rng ca nores [of "flags a ! p"] by (auto simp: fl)
  moreover have "\<forall>q. q < n_pages a \<longrightarrow> on_disk (flags a' ! q) \<longrightarrow> on_disk (flags a ! q) \<or> dirty (flags a ! q)"
    using ca(1) by (auto simp: fl split: if_splits)
  moreover have "stored v (with_sys s' w) a' f'" using f' pl by (simp add: stored_def vmm_fname_def)
  moreover have "l_pages a' + length (filter resident (span b n (flags a))) = l_pages a"
    "c_pages a' + length (filter charged (span b n (flags a))) = c_pages a"
    "d_pages a' + length (filter dirty (span b n (flags a))) = d_pages a"
    unfolding ca(2,4,6) ca'(2,4,6) using nores by (intro cnt; simp)+
  ultimately show ?thesis
    using pl ret f'(3) unfolding mevicted_def same_place_def quiet_def with_sys_simps by blast
qed

lemma well_formed_entry:
  assumes "well_formed v w" and "a \<in> set (a_tbl v)"
  shows "0 < n_pages a" "lean a" "\<exists>f. stored v w a f" "region_end (page_size v) a < SIZE_MOD"
    "0 < page_size v" "sized v w" "n_pages a < 2147483648" "n_pages a \<le> nsum v (a_tbl v)"
proof -
  have n: "n_pages a \<le> nsum v (a_tbl v)" using nsum_mem [OF assms(2), of v] by simp
  show "0 < n_pages a" "lean a" "\<exists>f. stored v w a f" "region_end (page_size v) a < SIZE_MOD"
    "0 < page_size v" "sized v w" "n_pages a < 2147483648" "n_pages a \<le> nsum v (a_tbl v)"
    using assms n apart_range [of "page_size v" "a_tbl v" a]
    by (auto simp: well_formed_def entry_ok_def list_all_iff sized_def)
qed

lemma mevict_int_ok:
  assumes sz: "sized v w" and q: "quiet w" and lean: "lean a" and st: "stored v w a f"
    and small: "n_pages a < 2147483648" and re: "region_end (page_size v) a < SIZE_MOD"
    and rng: "in_range v a x len"
  shows "\<exists>a' w'. sbma_mevict_int v w a x len =
             Some (int (VMM_TO_SYS v w (length (filter dirty
               (span (beg_page v a x) (end_page v a x len - beg_page v a x) (flags a))))), a', w') \<and>
           mevicted v w a f (beg_page v a x) (end_page v a x len - beg_page v a x) a' w'"
proof -
  let ?b = "beg_page v a x" and ?n = "end_page v a x len - beg_page v a x"
  have ps: "0 < page_size v" using sz by (simp add: sized_def)
  note r = range_pages [OF rng re ps]
  have sd: "sound (page_size v) f a" "files (sys w) (vmm_fname v a) = Some f" using st by (auto simp: stored_def)
  have bn: "?b + ?n \<le> n_pages a" using r by simp
  obtain ret a' s' where o: "vmm_swap_o (page_size v) (opts v) (vmm_fname v a) a ?b ?n (sys w) = Some (ret, a', s')"
    and so: "swapped_out (page_size v) (vmm_fname v a) f ?b ?n a (sys w) (ret, a', s')"
    using returnsD(1) [OF swap_o_spec [OF sd(1) ps sd(2) bn, of "opts v"]] q by (auto simp: quiet_def)
  note so = swapped_out_mevicted [OF so q st lean bn small]
  have "length (filter dirty (span ?b ?n (flags a))) < SIZE_MOD"
    by (rule le_less_trans [OF length_filter_le]) (use small bn in \<open>simp add: span_def SIZE_MOD_def\<close>)
  with so o sz show ?thesis
    by (intro exI [of _ a'] exI [of _ "with_sys s' w"]) (simp add: sbma_mevict_int_def r(5))
qed

lemma mevict_probe_ok:
  assumes "sized v w" and "length (flags a) = n_pages a"
    and "region_end (page_size v) a < SIZE_MOD" and "in_range v a x len"
  shows "sbma_mevict_probe v w a x len =
     Some (VMM_TO_SYS v w (length (filter charged (span (beg_page v a x) (end_page v a x len - beg_page v a x) (flags a)))),
           VMM_TO_SYS v w (length (filter dirty (span (beg_page v a x) (end_page v a x len - beg_page v a x) (flags a)))))"
proof -
  have "0 < page_size v" using assms(1) by (simp add: sized_def)
  from range_pages [OF assms(4,3) this] assms(2) show ?thesis
    by (simp add: sbma_mevict_probe_def flag_span_eq)
qed

subsection \<open>Giving memory back\<close>

definition credit :: "nat \<Rightarrow> nat \<Rightarrow> nat \<Rightarrow> 'a world_scheme \<Rightarrow> 'a world_scheme" where
  "credit j c d w = w\<lparr>s_mem := s_mem w + c, c_mem := (c_mem w)[j := c_mem w ! j - c],
     d_mem := (d_mem w)[j := d_mem w ! j - d]\<rparr>"

lemma credit_simps [simp]:
  "sys (credit j c d w) = sys w" "sc_page (credit j c d w) = sc_page w" "procs (credit j c d w) = procs w"
  "s_mem (credit j c d w) = s_mem w + c" "c_mem (credit j c d w) = (c_mem w)[j := c_mem w ! j - c]"
  "d_mem (credit j c d w) = (d_mem w)[j := d_mem w ! j - d]" "sigs (credit j c d w) = sigs w"
  "pids (credit j c d w) = pids w" "inter_mtx (credit j c d w) = inter_mtx w"
  "VMM_TO_SYS v (credit j c d w) n = VMM_TO_SYS v w n" "sized v (credit j c d w) = sized v w"
  "stored v (credit j c d w) a f = stored v w a f" "entry_ok v (credit j c d w) = entry_ok v w"
  "in_shm i (credit j c d w) = in_shm i w" "quiet (credit j c d w) = quiet w"
  by (simp_all add: credit_def VMM_TO_SYS_def sized_def stored_def entry_ok_def in_shm_def quiet_def fun_eq_iff)

lemma total_credit [simp]: "j < length (c_mem w) \<Longrightarrow> c \<le> c_mem w ! j \<Longrightarrow> total (credit j c d w) = total w"
  by (simp add: credit_def total_dec)

text \<open>The charges exceed what the table accounts for by \<open>kc\<close> and \<open>kd\<close> pages.\<close>

definition owing :: "nat \<Rightarrow> nat \<Rightarrow> vmm \<Rightarrow> 'a world_scheme \<Rightarrow> bool" where
  "owing kc kd v w \<longleftrightarrow>
     csum v (a_tbl v) + kc \<le> nsum v (a_tbl v) \<and> dsum (a_tbl v) + kd \<le> nsum v (a_tbl v) \<and>
     c_mem w ! iid (vipc v) = VMM_TO_SYS v w (csum v (a_tbl v) + kc) \<and>
     d_mem w ! iid (vipc v) = VMM_TO_SYS v w (dsum (a_tbl v) + kd)"

lemma owing_0: "proc_ok v w \<Longrightarrow> owing 0 0 v w"
  using well_formed_sums [of v w] by (simp add: owing_def proc_ok_def accounted_def)

lemma owing_credit:
  assumes wf: "well_formed v w" and ow: "owing kc kd v w"
  shows "VMM_TO_SYS v w kc \<le> c_mem w ! iid (vipc v)" "VMM_TO_SYS v w kd \<le> d_mem w ! iid (vipc v)"
    and "proc_ok v (credit (iid (vipc v)) (VMM_TO_SYS v w kc) (VMM_TO_SYS v w kd) w)"
proof -
  have sz: "sized v w" using wf by (simp add: well_formed_def)
  have id: "iid (vipc v) < length (c_mem w)" "iid (vipc v) < length (d_mem w)"
    using wf by (auto simp: well_formed_def wf_shm_def in_shm_def)
  note ex = TO_SYS_exact [OF sz]
  have *: "VMM_TO_SYS v w (csum v (a_tbl v) + kc) = VMM_TO_SYS v w (csum v (a_tbl v)) + VMM_TO_SYS v w kc"
    "VMM_TO_SYS v w (dsum (a_tbl v) + kd) = VMM_TO_SYS v w (dsum (a_tbl v)) + VMM_TO_SYS v w kd"
    using ow by (simp_all add: ex owing_def add_mult_distrib)
  show c: "VMM_TO_SYS v w kc \<le> c_mem w ! iid (vipc v)" and "VMM_TO_SYS v w kd \<le> d_mem w ! iid (vipc v)"
    using ow * by (simp_all add: owing_def)
  have "total (credit (iid (vipc v)) (VMM_TO_SYS v w kc) (VMM_TO_SYS v w kd) w) = total w" using id c by simp
  then show "proc_ok v (credit (iid (vipc v)) (VMM_TO_SYS v w kc) (VMM_TO_SYS v w kd) w)"
    using wf ow id by (simp add: proc_ok_def well_formed_def wf_shm_def accounted_def owing_def *)
qed

lemma mevict_credit:
  assumes wf: "well_formed v w" and ow: "owing kc kd v w" and m: "0 < inter_mtx w"
  shows "ipc_mevict (vipc v) (VMM_TO_SYS v w kc) (VMM_TO_SYS v w kd) w =
           Some (0, credit (iid (vipc v)) (VMM_TO_SYS v w kc) (VMM_TO_SYS v w kd) w)"
  using ipc_mevict_eq [OF _ owing_credit(1,2) [OF wf ow] m] wf
  by (simp add: well_formed_def credit_def)

lemma atomic_dec_credit:
  assumes wf: "well_formed v w" and ow: "owing kc kd v w"
  shows "ipc_atomic_dec (vipc v) (VMM_TO_SYS v w kc) (VMM_TO_SYS v w kd) w =
           Some (credit (iid (vipc v)) (VMM_TO_SYS v w kc) (VMM_TO_SYS v w kd) w)"
  using ipc_atomic_dec_eq [OF _ owing_credit(1,2) [OF wf ow]] wf
  by (simp add: well_formed_def credit_def)

lemma evicted_entry:
  assumes ok: "proc_ok v w" and a: "a \<in> set (a_tbl v)" and ev: "mevicted v w a f b n a' w'"
  shows "well_formed (with_ate a' v) w'"
    and "owing (length (filter charged (span b n (flags a)))) (length (filter dirty (span b n (flags a)))) (with_ate a' v) w'"
proof -
  have wf: "well_formed v w" and ac: "accounted v w" using ok by (auto simp: proc_ok_def)
  have sp: "same_place a a'" and w': "w' = with_sys (sys w') w" using ev by (auto simp: mevicted_def)
  have sh: "wf_shm (vipc v) w'" "sc_page w' = sc_page w" "c_mem w' = c_mem w" "d_mem w' = d_mem w"
    "VMM_TO_SYS v w' k = VMM_TO_SYS v w k" for k
    using wf by (subst w'; simp add: well_formed_def)+
  show wf': "well_formed (with_ate a' v) w'"
    using ev by (auto simp: mevicted_def intro!: well_formed_put [OF wf a sp] sh)
  have d: "distinct (map addr (a_tbl v))" using wf by (simp add: well_formed_def)
  have "c_pages a' + length (filter charged (span b n (flags a))) = c_pages a"
    "d_pages a' + length (filter dirty (span b n (flags a))) = d_pages a" using ev by (auto simp: mevicted_def)
  with sums_put [OF d a sp] have
    "csum v (put_ate a' (a_tbl v)) + length (filter charged (span b n (flags a))) = csum v (a_tbl v)"
    "dsum (put_ate a' (a_tbl v)) + length (filter dirty (span b n (flags a))) = dsum (a_tbl v)" by linarith+
  with sums_put(3) [OF d a sp] show "owing (length (filter charged (span b n (flags a)))) (length (filter dirty (span b n (flags a)))) (with_ate a' v) w'"
    using well_formed_sums [OF wf] ac by (simp add: owing_def accounted_def sh)
qed

text \<open>Processes that differ in their statistics only.\<close>

definition alike :: "vmm \<Rightarrow> vmm \<Rightarrow> bool" where
  "alike v v' \<longleftrightarrow> opts v' = opts v \<and> page_size v' = page_size v \<and> fstem v' = fstem v \<and> vpid v' = vpid v \<and>
     a_tbl v' = a_tbl v \<and> iid (vipc v') = iid (vipc v) \<and> n_procs (vipc v') = n_procs (vipc v)"

lemma alike_proc:
  assumes "alike v v'"
  shows "well_formed v' w = well_formed v w" "proc_ok v' w = proc_ok v w" "vmm_fname v' = vmm_fname v"
    "stored v' w = stored v w" "VMM_TO_SYS v' w = VMM_TO_SYS v w"
proof -
  note c = meta_pages_cong [of v' v]
  note e = assms [unfolded alike_def]
  show n: "vmm_fname v' = vmm_fname v" and t: "VMM_TO_SYS v' w = VMM_TO_SYS v w"
    using e by (simp_all add: vmm_fname_def VMM_TO_SYS_def fun_eq_iff)
  then show st: "stored v' w = stored v w" using e by (simp add: stored_def fun_eq_iff)
  have en: "entry_ok v' w = entry_ok v w" by (simp add: entry_ok_def st fun_eq_iff)
  have sz: "sized v' w = sized v w" using e c by (simp add: sized_def)
  show wf: "well_formed v' w = well_formed v w"
    unfolding well_formed_def sz en n using e by (simp add: wf_shm_def in_shm_def)
  then show "proc_ok v' w = proc_ok v w"
    using e c t by (simp add: proc_ok_def accounted_def)
qed

lemma alike_counters [simp]: "alike v (v\<lparr>numwr := k\<rparr>)" "alike v (v\<lparr>numrd := k\<rparr>)" "alike v (v\<lparr>numipc := k\<rparr>)"
  "alike v (v\<lparr>numwr := k, numhipc := l\<rparr>)"
  by (simp_all add: alike_def)

lemmas proc_ok_counters [simp] = alike_counters [THEN alike_proc(2)]

definition frame :: "'a world_scheme \<Rightarrow> 'a world_scheme \<Rightarrow> bool" where
  "frame w w' \<longleftrightarrow> sigs w' = sigs w \<and> inter_mtx w' = inter_mtx w \<and> sc_page w' = sc_page w \<and> procs w' = procs w \<and>
     pids w' = pids w \<and> length (c_mem w') = length (c_mem w) \<and> length (d_mem w') = length (d_mem w) \<and> total w' = total w"

text \<open>A successful eviction: the process stays consistent, the range is no longer resident,
  every byte is kept, and exactly the charged pages go back to the system.\<close>

definition evict_post ::
  "vmm \<Rightarrow> 'a world_scheme \<Rightarrow> ate \<Rightarrow> byte list \<Rightarrow> nat \<Rightarrow> nat \<Rightarrow> vmm \<Rightarrow> 'a world_scheme \<Rightarrow> bool" where
  "evict_post v w a f b n v' w' \<longleftrightarrow> proc_ok v' w' \<and> quiet w' \<and> frame w w' \<and>
     s_mem w' = s_mem w + VMM_TO_SYS v w (length (filter charged (span b n (flags a)))) \<and>
     (\<forall>j. j \<noteq> iid (vipc v) \<longrightarrow> c_mem w' ! j = c_mem w ! j \<and> d_mem w' ! j = d_mem w ! j) \<and>
     (\<forall>g. g \<noteq> vmm_fname v a \<longrightarrow> files (sys w') g = files (sys w) g) \<and>
     (\<exists>a' f'. alike (with_ate a' v) v' \<and> same_place a a' \<and> stored v' w' a' f' \<and>
        kept (page_size v) f a f' a' \<and> (\<forall>q. b \<le> q \<and> q < b + n \<longrightarrow> \<not> resident (flags a' ! q)) \<and>
        (\<forall>q. q < n_pages a \<longrightarrow> on_disk (flags a' ! q) \<longrightarrow> on_disk (flags a ! q) \<or> dirty (flags a ! q)))"

lemma mevict_ok:
  assumes ok: "proc_ok v w" and q: "quiet w" and m: "0 < inter_mtx w"
    and l: "mmu_lookup (page_size v) (a_tbl v) x = Some a" and st: "stored v w a f" and rng: "in_range v a x len"
  shows "\<exists>v' w'. sbma_mevict v w x len = Some (int (VMM_TO_SYS v w (length (filter charged
             (span (beg_page v a x) (end_page v a x len - beg_page v a x) (flags a))))), v', w') \<and>
           evict_post v w a f (beg_page v a x) (end_page v a x len - beg_page v a x) v' w'"
proof -
  let ?b = "beg_page v a x" and ?n = "end_page v a x len - beg_page v a x"
  let ?c = "length (filter charged (span ?b ?n (flags a)))" and ?d = "length (filter dirty (span ?b ?n (flags a)))"
  have a: "a \<in> set (a_tbl v)" using mmu_lookup_SomeD [OF l] by simp
  have wf: "well_formed v w" using ok by (simp add: proc_ok_def)
  note e = well_formed_entry [OF wf a]
  obtain a' w1 where i: "sbma_mevict_int v w a x len = Some (int (VMM_TO_SYS v w ?d), a', w1)"
    and ev: "mevicted v w a f ?b ?n a' w1"
    using mevict_int_ok [OF e(6) q e(2) st e(7,4) rng] by blast
  note en = evicted_entry [OF ok a ev]
  have w1: "w1 = with_sys (sys w1) w" using ev by (simp add: mevicted_def)
  have sh: "VMM_TO_SYS v w1 k = VMM_TO_SYS v w k" "inter_mtx w1 = inter_mtx w" "total w1 = total w"
    "s_mem w1 = s_mem w" "c_mem w1 = c_mem w" "d_mem w1 = d_mem w" "sigs w1 = sigs w" "sc_page w1 = sc_page w"
    "procs w1 = procs w" "pids w1 = pids w" for k by (subst w1; simp)+
  let ?v = "with_ate a' v" and ?w = "credit (iid (vipc v)) (VMM_TO_SYS v w ?c) (VMM_TO_SYS v w ?d) w1"
  have ok': "proc_ok ?v ?w" using owing_credit(3) [OF en] by (simp add: sh)
  have mv: "ipc_mevict (vipc v) (VMM_TO_SYS v w ?c) (VMM_TO_SYS v w ?d) w1 = Some (0, ?w)"
    using mevict_credit [OF en] m by (simp add: sh)
  have pr: "sbma_mevict_probe v w a x len = Some (VMM_TO_SYS v w ?c, VMM_TO_SYS v w ?d)"
    by (rule mevict_probe_ok [OF e(6) _ e(4) rng]) (rule well_formed_counts(1) [OF wf a])
  let ?v' = "?v\<lparr>numwr := addw (numwr v) (VMM_TO_SYS v w ?d)\<rparr>"
  have "iid (vipc v) < length (c_mem w)" using wf by (simp add: well_formed_def wf_shm_def in_shm_def)
  then have "total ?w = total w" using owing_credit(1) [OF en] by (simp add: sh)
  then have fr: "frame w ?w" by (simp add: frame_def sh)
  have al: "alike ?v ?v'" by simp
  have cd: "c_mem ?w ! j = c_mem w ! j \<and> d_mem ?w ! j = d_mem w ! j" if "j \<noteq> iid (vipc v)" for j
    using that by (simp add: sh)
  obtain f' where f': "stored v w1 a' f'" "kept (page_size v) f a f' a'" using ev unfolding mevicted_def by blast
  have "stored ?v' ?w a' f'" using f'(1) unfolding alike_proc(4) [OF al] by (simp add: stored_def)
  moreover have "same_place a a'" "quiet ?w" "\<forall>g. g \<noteq> vmm_fname v a \<longrightarrow> files (sys ?w) g = files (sys w) g"
    "\<forall>q. ?b \<le> q \<and> q < ?b + ?n \<longrightarrow> \<not> resident (flags a' ! q)"
    "\<forall>q. q < n_pages a \<longrightarrow> on_disk (flags a' ! q) \<longrightarrow> on_disk (flags a ! q) \<or> dirty (flags a ! q)"
    using ev unfolding mevicted_def credit_simps by blast+
  moreover have "proc_ok ?v' ?w" using ok' by simp
  moreover have "s_mem ?w = s_mem w + VMM_TO_SYS v w ?c" by (simp add: sh)
  ultimately have "evict_post v w a f ?b ?n ?v' ?w"
    unfolding evict_post_def using fr cd al f'(2) by blast
  moreover have "sbma_mevict v w x len = Some (int (VMM_TO_SYS v w ?c), ?v', ?w)"
    using ok ok' e(6) by (simp add: sbma_mevict_def l pr i mv) (simp add: with_ate_def)
  ultimately show ?thesis by blast
qed

subsection \<open>Evicting everything\<close>

definition emptied :: "vmm \<Rightarrow> 'a world_scheme \<Rightarrow> 'a world_scheme \<Rightarrow> ate \<Rightarrow> ate \<Rightarrow> bool" where
  "emptied v w w' a a' \<longleftrightarrow> same_place a a' \<and> lean a' \<and> l_pages a' = 0 \<and> c_pages a' = 0 \<and> d_pages a' = 0 \<and>
     (\<forall>f. stored v w a f \<longrightarrow> (\<exists>f'. stored v w' a' f' \<and> kept (page_size v) f a f' a'))"

lemma stored_cong:
  "files (sys w') (vmm_fname v a) = files (sys w) (vmm_fname v a) \<Longrightarrow> stored v w' a f = stored v w a f"
  by (simp add: stored_def)

lemma stored_unique: "stored v w a f \<Longrightarrow> stored v w a f' \<Longrightarrow> f' = f"
  by (simp add: stored_def)

lemma emptied_cong:
  assumes "emptied v w w' a a'" and "files (sys w0) (vmm_fname v a) = files (sys w) (vmm_fname v a)"
    and "files (sys w1) (vmm_fname v a) = files (sys w') (vmm_fname v a)"
  shows "emptied v w0 w1 a a'"
proof -
  have "vmm_fname v a' = vmm_fname v a" using assms(1) by (simp add: emptied_def same_place_def vmm_fname_def)
  with stored_cong [OF assms(2)] stored_cong [of w1 v a' w'] assms show ?thesis by (simp add: emptied_def)
qed

lemma mevict_int_all:
  assumes sz: "sized v w" and q: "quiet w" and e: "entry_ok v w a"
    and re: "region_end (page_size v) a < SIZE_MOD" and small: "n_pages a < 2147483648"
  shows "\<exists>r a' w'. sbma_mevict_int v w a (base a) (mulw (n_pages a) (page_size v)) = Some (int r, a', w') \<and>
           emptied v w w' a a' \<and> quiet w' \<and> w' = with_sys (sys w') w \<and>
           (\<forall>g. g \<noteq> vmm_fname v a \<longrightarrow> files (sys w') g = files (sys w) g)"
proof -
  have ps: "0 < page_size v" "0 < n_pages a" using sz e by (auto simp: sized_def entry_ok_def)
  obtain f where f: "stored v w a f" "lean a" using e by (auto simp: entry_ok_def)
  note wr = whole_range [OF ps(2,1) re]
  have cnt: "l_pages a = length (filter resident (flags a))" "c_pages a = length (filter charged (flags a))"
    "d_pages a = length (filter dirty (flags a))" "span 0 (n_pages a) (flags a) = flags a"
    using sound_counts [of "page_size v" f a] f by (auto simp: stored_def span_def)
  obtain r a' w' where i: "sbma_mevict_int v w a (base a) (mulw (n_pages a) (page_size v)) = Some (int r, a', w')"
    and ev: "mevicted v w a f 0 (n_pages a) a' w'"
    using mevict_int_ok [OF sz q f(2,1) small re wr(1)] wr(2,3) by auto
  have "emptied v w w' a a'"
    using ev cnt stored_unique [OF f(1)] by (auto simp: emptied_def mevicted_def)
  with i ev show ?thesis by (auto simp: mevicted_def)
qed

definition evicted_all :: "vmm \<Rightarrow> 'a world_scheme \<Rightarrow> ate list \<Rightarrow> ate list \<Rightarrow> 'a world_scheme \<Rightarrow> bool" where
  "evicted_all v w tbl tbl' w' \<longleftrightarrow> quiet w' \<and> w' = with_sys (sys w') w \<and> list_all2 (emptied v w w') tbl tbl' \<and>
     (\<forall>g. g \<notin> vmm_fname v ` set tbl \<longrightarrow> files (sys w') g = files (sys w) g)"

lemma evicted_all_Cons:
  assumes e: "emptied v w w1 a a'" and w1: "w1 = with_sys (sys w1) w"
    and fr: "\<forall>g. g \<noteq> vmm_fname v a \<longrightarrow> files (sys w1) g = files (sys w) g"
    and all: "evicted_all v w1 tbl tbl' w'" and d: "distinct (map (vmm_fname v) (a # tbl))"
  shows "evicted_all v w (a # tbl) (a' # tbl') w'"
proof -
  have w': "w' = with_sys (sys w') w1" using all by (simp add: evicted_all_def)
  have na: "vmm_fname v a \<notin> vmm_fname v ` set tbl" using d by auto
  have "emptied v w w' a a'"
    using all na by (intro emptied_cong [OF e]) (auto simp: evicted_all_def)
  moreover have "list_all2 (emptied v w w') tbl tbl'"
  proof (rule list.rel_mono_strong [of "emptied v w1 w'"])
    show "list_all2 (emptied v w1 w') tbl tbl'" using all unfolding evicted_all_def by blast
    fix b b'
    assume "b \<in> set tbl" and em: "emptied v w1 w' b b'"
    then have "vmm_fname v b \<noteq> vmm_fname v a" using na by (metis image_eqI)
    then show "emptied v w w' b b'" using fr by (intro emptied_cong [OF em]) auto
  qed
  moreover have "w' = with_sys (sys w') w" by (subst w', subst w1) simp
  moreover have "\<forall>g. g \<notin> vmm_fname v ` set (a # tbl) \<longrightarrow> files (sys w') g = files (sys w) g"
    using all fr by (simp add: evicted_all_def)
  ultimately show ?thesis using all by (simp add: evicted_all_def)
qed

lemma mevictall_loop_ok:
  assumes "sized v w" and "quiet w" and "list_all (entry_ok v w) tbl"
    and "list_all (\<lambda>a. region_end (page_size v) a < SIZE_MOD \<and> n_pages a < 2147483648) tbl"
    and "distinct (map (vmm_fname v) tbl)"
    and "c + sum_list (map c_pages tbl) < SIZE_MOD" and "d + dsum tbl < SIZE_MOD"
  shows "\<exists>tbl' w' nw'. mevictall_loop v w tbl c d nw =
           Some (0, tbl', w', c + sum_list (map c_pages tbl), d + dsum tbl, nw') \<and> evicted_all v w tbl tbl' w'"
  using assms
proof (induction tbl arbitrary: w c d nw)
  case Nil
  then show ?case by (simp add: evicted_all_def dsum_def)
next
  case (Cons a tbl)
  obtain r a' w1 where i: "sbma_mevict_int v w a (base a) (mulw (n_pages a) (page_size v)) = Some (int r, a', w1)"
    and e: "emptied v w w1 a a'" and q: "quiet w1" and w1: "w1 = with_sys (sys w1) w"
    and fr: "\<forall>g. g \<noteq> vmm_fname v a \<longrightarrow> files (sys w1) g = files (sys w) g"
    using mevict_int_all [of v w a] Cons.prems by auto
  have cd: "addw c (c_pages a) = c + c_pages a" "addw d (d_pages a) = d + d_pages a"
    using Cons.prems(6,7) by (simp_all add: dsum_def addw_exact)
  have sz: "sized v w1" using Cons.prems(1) by (subst w1) simp
  have "vmm_fname v b \<noteq> vmm_fname v a" if "b \<in> set tbl" for b using that Cons.prems(5) by (auto simp: image_iff)
  then have "list_all (entry_ok v w1) tbl"
    using Cons.prems(3) fr by (simp add: list_all_iff entry_ok_def stored_def)
  from Cons.IH [OF sz q this, of "c + c_pages a" "d + d_pages a" "addw nw (as_size (int r))"] Cons.prems(4-7)
  obtain tbl' w' nw' where l: "mevictall_loop v w1 tbl (c + c_pages a) (d + d_pages a) (addw nw (as_size (int r))) =
      Some (0, tbl', w', c + sum_list (map c_pages (a # tbl)), d + dsum (a # tbl), nw')" "evicted_all v w1 tbl tbl' w'"
    by (auto simp: dsum_def add.assoc)
  have "evicted_all v w (a # tbl) (a' # tbl') w'" by (rule evicted_all_Cons [OF e w1 fr l(2) Cons.prems(5)])
  with e l(1) show ?case by (simp add: cd i emptied_def)
qed

lemma same_places:
  assumes "list_all2 same_place tbl tbl'"
  shows "map addr tbl' = map addr tbl" "map (vmm_fname v) tbl' = map (vmm_fname v) tbl"
    "map n_pages tbl' = map n_pages tbl" "map (meta_pages v) tbl' = map (meta_pages v) tbl"
    "nsum v tbl' = nsum v tbl" "apart ps tbl \<Longrightarrow> apart ps tbl'"
proof -
  show "map addr tbl' = map addr tbl" "map (vmm_fname v) tbl' = map (vmm_fname v) tbl"
    "map n_pages tbl' = map n_pages tbl" "map (meta_pages v) tbl' = map (meta_pages v) tbl" "nsum v tbl' = nsum v tbl"
    using assms by (induction rule: list_all2_induct; simp add: same_place_def vmm_fname_def meta_pages_def nsum_def)+
  have re: "region_end ps b = region_end ps a \<and> base b = base a" if "same_place a b" for a b
    using that by (simp add: same_place_def region_end_def)
  have all: "list_all (\<lambda>b. region_end ps a \<le> base b \<or> region_end ps b \<le> base a) ys"
    if "list_all2 same_place xs ys" "list_all (\<lambda>b. region_end ps a \<le> base b \<or> region_end ps b \<le> base a) xs" for a xs ys
    using that by (induction rule: list_all2_induct) (auto dest: re)
  show "apart ps tbl'" if "apart ps tbl"
    using assms that
  proof (induction rule: list_all2_induct)
    case (Cons a xs b ys)
    then show ?case using all [OF Cons.hyps(2), of a] re [OF Cons.hyps(1)] by simp
  qed simp
qed

lemma with_tbl_simps [simp]:
  "vmm_fname (v\<lparr>a_tbl := t\<rparr>) = vmm_fname v" "stored (v\<lparr>a_tbl := t\<rparr>) = stored v" "entry_ok (v\<lparr>a_tbl := t\<rparr>) = entry_ok v"
  "VMM_TO_SYS (v\<lparr>a_tbl := t\<rparr>) = VMM_TO_SYS v" "meta_pages (v\<lparr>a_tbl := t\<rparr>) = meta_pages v"
  "csum (v\<lparr>a_tbl := t\<rparr>) = csum v" "nsum (v\<lparr>a_tbl := t\<rparr>) = nsum v"
proof -
  show 1: "vmm_fname (v\<lparr>a_tbl := t\<rparr>) = vmm_fname v" "VMM_TO_SYS (v\<lparr>a_tbl := t\<rparr>) = VMM_TO_SYS v"
    by (simp_all add: vmm_fname_def VMM_TO_SYS_def fun_eq_iff)
  show 2: "stored (v\<lparr>a_tbl := t\<rparr>) = stored v" by (simp add: stored_def fun_eq_iff 1)
  show "entry_ok (v\<lparr>a_tbl := t\<rparr>) = entry_ok v" by (simp add: entry_ok_def fun_eq_iff 2)
  show "meta_pages (v\<lparr>a_tbl := t\<rparr>) = meta_pages v" "csum (v\<lparr>a_tbl := t\<rparr>) = csum v"
    "nsum (v\<lparr>a_tbl := t\<rparr>) = nsum v" by (rule meta_pages_cong; simp)+
qed

lemma evicted_all_ok:
  assumes ok: "proc_ok v w" and ev: "evicted_all v w (a_tbl v) tbl' w'"
  shows "well_formed (v\<lparr>a_tbl := tbl'\<rparr>) w'"
    and "owing (sum_list (map c_pages (a_tbl v))) (dsum (a_tbl v)) (v\<lparr>a_tbl := tbl'\<rparr>) w'"
    and "dsum tbl' = 0" "csum v tbl' = sum_list (map (meta_pages v) (a_tbl v))"
proof -
  have wf: "well_formed v w" and ac: "accounted v w" using ok by (auto simp: proc_ok_def)
  have em: "list_all2 (emptied v w w') (a_tbl v) tbl'" and w': "w' = with_sys (sys w') w"
    using ev by (auto simp: evicted_all_def)
  have sh: "wf_shm (vipc v) w'" "sc_page w' = sc_page w" "c_mem w' = c_mem w" "d_mem w' = d_mem w"
    "VMM_TO_SYS v w' k = VMM_TO_SYS v w k" for k
    using wf by (subst w'; simp add: well_formed_def)+
  have "list_all2 same_place (a_tbl v) tbl'" using em by (rule list.rel_mono_strong) (simp add: emptied_def)
  note sp = same_places [OF this]
  have "list_all (entry_ok v w') tbl'"
    using em wf [unfolded well_formed_def, THEN conjunct2, THEN conjunct2, THEN conjunct2, THEN conjunct2, THEN conjunct2]
    by (induction rule: list_all2_induct) (auto simp: entry_ok_def emptied_def same_place_def)
  then show "well_formed (v\<lparr>a_tbl := tbl'\<rparr>) w'"
    using wf sh sp by (simp add: well_formed_def sized_def)
  show d: "dsum tbl' = 0" and c: "csum v tbl' = sum_list (map (meta_pages v) (a_tbl v))"
    using em by (induction rule: list_all2_induct; simp add: dsum_def csum_def emptied_def same_place_def meta_pages_def)+
  have "csum v (a_tbl v) = sum_list (map (meta_pages v) (a_tbl v)) + sum_list (map c_pages (a_tbl v))"
    by (simp add: csum_def sum_list_addf)
  then show "owing (sum_list (map c_pages (a_tbl v))) (dsum (a_tbl v)) (v\<lparr>a_tbl := tbl'\<rparr>) w'"
    using ac well_formed_sums [OF wf] by (simp add: owing_def accounted_def c d sp sh)
qed

lemma mevictall_int_ok:
  assumes ok: "proc_ok v w" and q: "quiet w"
  shows "\<exists>tbl' w' nw. sbma_mevictall_int v w = Some (0, v\<lparr>a_tbl := tbl'\<rparr>, w',
             VMM_TO_SYS v w (sum_list (map c_pages (a_tbl v))), VMM_TO_SYS v w (dsum (a_tbl v)), nw) \<and>
           evicted_all v w (a_tbl v) tbl' w'"
proof -
  have wf: "well_formed v w" using ok by (simp add: proc_ok_def)
  have pre: "sized v w" "list_all (entry_ok v w) (a_tbl v)" "distinct (map (vmm_fname v) (a_tbl v))"
    using wf by (auto simp: well_formed_def)
  have re: "list_all (\<lambda>a. region_end (page_size v) a < SIZE_MOD \<and> n_pages a < 2147483648) (a_tbl v)"
    using well_formed_entry [OF wf] by (simp add: list_all_iff)
  have "sum_list (map c_pages (a_tbl v)) \<le> csum v (a_tbl v)" by (simp add: csum_def sum_list_addf)
  then have c: "0 + sum_list (map c_pages (a_tbl v)) < SIZE_MOD" and d: "0 + dsum (a_tbl v) < SIZE_MOD"
    using sums_no_wrap [OF wf] by simp_all
  obtain tbl' w' nw where l: "mevictall_loop v w (a_tbl v) 0 0 0 =
      Some (0, tbl', w', sum_list (map c_pages (a_tbl v)), dsum (a_tbl v), nw)" and ev: "evicted_all v w (a_tbl v) tbl' w'"
    using mevictall_loop_ok [OF pre(1) q pre(2) re pre(3) c d, of 0] by auto
  have "VMM_TO_SYS v w' k = VMM_TO_SYS v w k" for k
    using ev unfolding evicted_all_def VMM_TO_SYS_def by (metis with_sys_simps(2))
  with l ev show ?thesis
    by (intro exI [of _ tbl'] exI [of _ w'] exI [of _ "VMM_TO_SYS v w nw"]) (simp add: sbma_mevictall_int_def)
qed

text \<open>Everything of the process \<open>v\<close> has been evicted and discharged.\<close>

definition all_out :: "vmm \<Rightarrow> 'a world_scheme \<Rightarrow> vmm \<Rightarrow> 'a world_scheme \<Rightarrow> bool" where
  "all_out v w v' w' \<longleftrightarrow> proc_ok v' w' \<and> quiet w' \<and> frame w w' \<and>
     alike (v\<lparr>a_tbl := a_tbl v'\<rparr>) v' \<and> list_all2 (emptied v w w') (a_tbl v) (a_tbl v') \<and>
     (\<forall>g. g \<notin> vmm_fname v ` set (a_tbl v) \<longrightarrow> files (sys w') g = files (sys w) g) \<and>
     s_mem w' = s_mem w + VMM_TO_SYS v w (sum_list (map c_pages (a_tbl v))) \<and>
     c_mem w' = (c_mem w)[iid (vipc v) := VMM_TO_SYS v w (sum_list (map (meta_pages v) (a_tbl v)))] \<and>
     d_mem w' = (d_mem w)[iid (vipc v) := 0]"

lemma all_outI:
  assumes ok: "proc_ok v w" and ev: "evicted_all v w (a_tbl v) tbl' w1"
    and al: "alike (v\<lparr>a_tbl := tbl'\<rparr>) v'"
    and w': "w' = credit (iid (vipc v)) (VMM_TO_SYS v w (sum_list (map c_pages (a_tbl v)))) (VMM_TO_SYS v w (dsum (a_tbl v))) w1"
  shows "all_out v w v' w'"
proof -
  let ?v = "v\<lparr>a_tbl := tbl'\<rparr>"
  note en = evicted_all_ok [OF ok ev]
  have w1: "w1 = with_sys (sys w1) w" using ev unfolding evicted_all_def by blast
  have sh: "VMM_TO_SYS v w1 k = VMM_TO_SYS v w k" "c_mem w1 = c_mem w" "d_mem w1 = d_mem w" "s_mem w1 = s_mem w"
    "sigs w1 = sigs w" "inter_mtx w1 = inter_mtx w" "sc_page w1 = sc_page w" "procs w1 = procs w" "pids w1 = pids w"
    "total w1 = total w" for k by (subst w1; simp)+
  have wf: "well_formed v w" using ok by (simp add: proc_ok_def)
  have id: "iid (vipc v) < length (c_mem w)" "iid (vipc v) < length (d_mem w)"
    using wf by (auto simp: well_formed_def wf_shm_def in_shm_def)
  have ok': "proc_ok ?v w'" using owing_credit(3) [OF en(1,2)] by (simp add: w' sh)
  then have pv: "proc_ok v' w'" by (simp add: alike_proc(2) [OF al])
  have "accounted ?v w'" using ok' by (simp add: proc_ok_def)
  then have cd: "c_mem w' ! iid (vipc v) = VMM_TO_SYS v w (sum_list (map (meta_pages v) (a_tbl v)))"
    "d_mem w' ! iid (vipc v) = 0"
    using en(3,4) by (simp_all add: accounted_def w' sh VMM_TO_SYS_def [of _ _ 0] mulw_def)
  have tot: "total w' = total w"
    using owing_credit(1) [OF en(1,2)] id by (simp add: w' sh)
  have "emptied v w w' = emptied v w w1" by (simp add: emptied_def w' fun_eq_iff)
  then have "list_all2 (emptied v w w') (a_tbl v) tbl'" using ev unfolding evicted_all_def by presburger
  moreover have "quiet w'" "\<forall>g. g \<notin> vmm_fname v ` set (a_tbl v) \<longrightarrow> files (sys w') g = files (sys w) g"
    using ev unfolding evicted_all_def by (simp_all add: w')
  moreover have "a_tbl v' = tbl'" using al by (simp add: alike_def)
  moreover have "frame w w'" using tot by (simp add: frame_def w' sh)
  ultimately show ?thesis
    using pv al cd id unfolding all_out_def by (simp add: w' sh)
qed

lemma mevictall_ok:
  assumes ok: "proc_ok v w" and q: "quiet w" and m: "0 < inter_mtx w"
  shows "\<exists>v' w'. sbma_mevictall v w = Some (int (VMM_TO_SYS v w (sum_list (map c_pages (a_tbl v)))), v', w') \<and>
           all_out v w v' w'"
proof -
  obtain tbl' w1 nw where i: "sbma_mevictall_int v w = Some (0, v\<lparr>a_tbl := tbl'\<rparr>, w1,
      VMM_TO_SYS v w (sum_list (map c_pages (a_tbl v))), VMM_TO_SYS v w (dsum (a_tbl v)), nw)"
    and ev: "evicted_all v w (a_tbl v) tbl' w1" using mevictall_int_ok [OF ok q] by blast
  let ?w = "credit (iid (vipc v)) (VMM_TO_SYS v w (sum_list (map c_pages (a_tbl v)))) (VMM_TO_SYS v w (dsum (a_tbl v))) w1"
  let ?v = "v\<lparr>a_tbl := tbl'\<rparr>"
  note en = evicted_all_ok [OF ok ev]
  have w1: "w1 = with_sys (sys w1) w" using ev unfolding evicted_all_def by blast
  have sh: "VMM_TO_SYS v w1 k = VMM_TO_SYS v w k" "inter_mtx w1 = inter_mtx w" for k by (subst w1; simp)+
  have mv: "ipc_mevict (vipc v) (VMM_TO_SYS v w (sum_list (map c_pages (a_tbl v)))) (VMM_TO_SYS v w (dsum (a_tbl v))) w1
      = Some (0, ?w)"
    using mevict_credit [OF en(1,2)] m by (simp add: sh)
  have sz: "sized v w" and ok': "proc_ok ?v ?w"
    using ok owing_credit(3) [OF en(1,2)] by (simp_all add: proc_ok_def well_formed_def sh)
  have "sbma_mevictall v w = Some (int (VMM_TO_SYS v w (sum_list (map c_pages (a_tbl v)))),
      ?v\<lparr>numwr := addw (numwr v) nw\<rparr>, ?w)"
    using ok ok' sz by (simp add: sbma_mevictall_def i mv)
  with all_outI [OF ok ev alike_counters(1) refl] show ?thesis by blast
qed

lemma sigipc_ok:
  assumes ok: "proc_ok v w" and q: "quiet w" and el: "ipc_is_eligible w (iid (vipc v)) \<noteq> 0"
  shows "\<exists>v' w'. vmm_sigipc v w = Some (v', w') \<and> all_out v w v' w'"
proof -
  obtain tbl' w1 nw where i: "sbma_mevictall_int v w = Some (0, v\<lparr>a_tbl := tbl'\<rparr>, w1,
      VMM_TO_SYS v w (sum_list (map c_pages (a_tbl v))), VMM_TO_SYS v w (dsum (a_tbl v)), nw)"
    and ev: "evicted_all v w (a_tbl v) tbl' w1" using mevictall_int_ok [OF ok q] by blast
  let ?w = "credit (iid (vipc v)) (VMM_TO_SYS v w (sum_list (map c_pages (a_tbl v)))) (VMM_TO_SYS v w (dsum (a_tbl v))) w1"
  let ?v = "v\<lparr>a_tbl := tbl', numwr := addw (numwr v) nw, numhipc := addw (numhipc v) 1, numipc := addw (numipc v) 1\<rparr>"
  note en = evicted_all_ok [OF ok ev]
  have w1: "w1 = with_sys (sys w1) w" using ev unfolding evicted_all_def by blast
  have sh: "VMM_TO_SYS v w1 k = VMM_TO_SYS v w k" for k by (subst w1; simp)
  have mv: "ipc_atomic_dec (vipc v) (VMM_TO_SYS v w (sum_list (map c_pages (a_tbl v)))) (VMM_TO_SYS v w (dsum (a_tbl v))) w1
      = Some ?w"
    using atomic_dec_credit [OF en(1,2)] by (simp add: sh)
  have "vmm_sigipc v w = Some (?v, ?w)" using el by (simp add: vmm_sigipc_def i mv)
  moreover have "all_out v w ?v ?w" by (rule all_outI [OF ok ev _ refl]) (simp add: alike_def)
  ultimately show ?thesis by blast
qed

subsection \<open>Two processes\<close>

text \<open>Process 0 has no allocations, process 1 the small one of two resident pages, one of them
  dirty; the system has one page left.\<close>

definition demo_vmm :: "nat \<Rightarrow> ate list \<Rightarrow> vmm" where
  "demo_vmm j tbl = \<lparr>vinit = 1, opts = VMM_CHECK, page_size = 2, numipc = 0, numhipc = 0, numrf = 0, numwf = 0,
     numrd = 0, numwr = 0, numpages = 0, fstem = ''s'', vpid = 100 + j, a_tbl = tbl, vipc = proc_ipc j\<rparr>"

definition demo_world :: world where
  "demo_world = \<lparr>s_mem = 1, c_mem = [0, 2], d_mem = [0, 1], pids = [100, 101], sigs = [0, 0], next_id = 2,
     inter_mtx = 1, sid = 1, shm_made = True, procs = [1 \<mapsto> demo_vmm 1 [small_ate]],
     sys = \<lparr>faults = [], grants = [], places = [], files = [swap_name ''s'' 101 64 \<mapsto> []]\<rparr>, sc_page = 2\<rparr>"

lemma demo_simps [simp]:
  "a_tbl (demo_vmm j tbl) = tbl" "page_size (demo_vmm j tbl) = 2" "opts (demo_vmm j tbl) = VMM_CHECK" "vipc (demo_vmm j tbl) = proc_ipc j"
  "vmm_fname (demo_vmm j tbl) = (\<lambda>a. swap_name ''s'' (100 + j) (addr a))" "c_mem demo_world = [0, 2]" "d_mem demo_world = [0, 1]"
  "s_mem demo_world = 1" "sigs demo_world = [0, 0]" "pids demo_world = [100, 101]" "inter_mtx demo_world = 1"
  "procs demo_world = [1 \<mapsto> demo_vmm 1 [small_ate]]" "files (sys demo_world) = [swap_name ''s'' 101 64 \<mapsto> []]"
  "sc_page demo_world = 2" "quiet demo_world" "in_shm (proc_ipc j) demo_world \<longleftrightarrow> j < 2" "\<not> has VMM_CHECK VMM_METACH"
  by (simp_all add: demo_vmm_def demo_world_def vmm_fname_def fun_eq_iff quiet_def in_shm_def vmm_opt_code has_def)

lemma demo_sys [simp]: "n < 100 \<Longrightarrow> VMM_TO_SYS (demo_vmm j tbl) demo_world n = n"
  by (simp add: VMM_TO_SYS_def mulw_def SIZE_MOD_def)

lemma demo_sums [simp]:
  "csum (demo_vmm j tbl) tbl' = sum_list (map c_pages tbl')" "nsum (demo_vmm j tbl) tbl' = sum_list (map n_pages tbl')"
  by (simp_all add: csum_def nsum_def meta_pages_def)

lemma demo_shm [simp]: "j < 2 \<Longrightarrow> wf_shm (proc_ipc j) demo_world"
  by (simp add: wf_shm_def total_def SIZE_MOD_def)

lemma demo_stored [simp]: "stored (demo_vmm 1 tbl) demo_world small_ate f \<longleftrightarrow> f = []"
  using small_sound by (auto simp: stored_def small_ate_def)

lemma demo_proc_ok [simp]: "proc_ok (demo_vmm 0 []) demo_world" "proc_ok (demo_vmm 1 [small_ate]) demo_world"
proof -
  show "proc_ok (demo_vmm 0 []) demo_world"
    by (simp add: proc_ok_def well_formed_def accounted_def sized_def dsum_def SIZE_MOD_def)
  have "lean small_ate" by (simp add: lean_def small_ate_def status_bits mmu_status_code)
  then have "list_all (entry_ok (demo_vmm 1 [small_ate]) demo_world) [small_ate]"
    using demo_stored by (simp add: entry_ok_def)
  then show "proc_ok (demo_vmm 1 [small_ate]) demo_world"
    by (simp add: proc_ok_def well_formed_def accounted_def sized_def dsum_def SIZE_MOD_def region_end_def)
       (simp add: small_ate_def)
qed

lemma small_counts [simp]: "c_pages small_ate = 2" "d_pages small_ate = 1" "base small_ate = 66" "addr small_ate = 64"
  by (simp_all add: small_ate_def)

lemma demo_lookup [simp]: "mmu_lookup 2 [small_ate] 66 = Some small_ate"
  by (simp add: mmu_lookup_def contains_iff region_end_def SIZE_MOD_def small_ate_def)

lemma demo_range [simp]: "in_range (demo_vmm j tbl) small_ate 66 3"
  by (simp add: in_range_def region_end_def small_ate_def)

subsection \<open>Properties\<close>

text \<open>C25: \<open>sbma_mcheck\<close> decides the accounting invariant.  On a table of well-formed entries it
  never aborts, and with \<open>VMM_CHECK\<close> it returns 0 exactly when the charges recorded in the
  shared segment are the sums over the allocations, in system pages (with \<open>VMM_METACH\<close>
  including the pages of the entries and their status bytes), and -1 otherwise.\<close>
theorem mcheck_decides:
  assumes "well_formed v w"
  shows "sbma_mcheck v w = Some (if has (opts v) VMM_CHECK \<and> \<not> accounted v w then -1 else 0)"
  using assms by (rule mcheck_eq)

theorem mcheck_decides_witness:
  "sbma_mcheck (demo_vmm 1 [small_ate]) demo_world = Some 0"
  using mcheck_decides [of "demo_vmm 1 [small_ate]" demo_world] demo_proc_ok by (simp add: proc_ok_def)

text \<open>C12: \<open>sbma_mevict\<close> on a range inside an allocation.  While system calls succeed it always
  returns, with the number of charged system pages of the range; the invariant of the process
  holds again, no page that intersects the range is resident, every byte of the allocation
  is kept, the system gets back exactly the pages that were charged, and the state checks
  before and after do not abort.\<close>
theorem mevict_correct:
  assumes "proc_ok v w" and "quiet w" and "0 < inter_mtx w"
    and "mmu_lookup (page_size v) (a_tbl v) x = Some a" and "stored v w a f" and "in_range v a x len"
    and "b = (x - base a) div page_size v" and "e = Suc ((x + len - base a - 1) div page_size v)"
  shows "\<exists>v' w'. sbma_mevict v w x len =
             Some (int (VMM_TO_SYS v w (length (filter charged (span b (e - b) (flags a))))), v', w') \<and>
           evict_post v w a f b (e - b) v' w'"
proof -
  have a: "a \<in> set (a_tbl v)" using mmu_lookup_SomeD [OF assms(4)] by simp
  note e = well_formed_entry [OF _ a, of w]
  have wf: "well_formed v w" using assms(1) by (simp add: proc_ok_def)
  have "b = beg_page v a x" "e = end_page v a x len"
    using range_pages(1,2) [OF assms(6) e(4,5) [OF wf]] assms(7,8) by simp_all
  then show ?thesis using mevict_ok [OF assms(1-6)] by simp
qed

theorem mevict_correct_witness:
  "\<exists>v' w'. sbma_mevict (demo_vmm 1 [small_ate]) demo_world 66 3 = Some (2, v', w') \<and>
     proc_ok v' w' \<and> s_mem w' = 3"
proof -
  have len: "length (filter charged (span 0 2 (flags small_ate))) = 2" by (simp add: span_def)
  have "\<exists>v' w'. sbma_mevict (demo_vmm 1 [small_ate]) demo_world 66 3 =
      Some (int (VMM_TO_SYS (demo_vmm 1 [small_ate]) demo_world (length (filter charged (span 0 (2 - 0) (flags small_ate))))), v', w') \<and>
      evict_post (demo_vmm 1 [small_ate]) demo_world small_ate [] 0 (2 - 0) v' w'"
    by (rule mevict_correct) (simp_all del: One_nat_def)
  then obtain v' w' where "sbma_mevict (demo_vmm 1 [small_ate]) demo_world 66 3 = Some (2, v', w')"
    "evict_post (demo_vmm 1 [small_ate]) demo_world small_ate [] 0 2 v' w'"
    unfolding minus_nat.diff_0 len by (simp del: One_nat_def) blast
  moreover from this(2) have "proc_ok v' w' \<and> s_mem w' = 3"
    unfolding evict_post_def len by simp
  ultimately show ?thesis by blast
qed

text \<open>\<open>sbma_mevictall\<close> empties every allocation and returns the discharged system pages.  All
  counters are zero, contents are kept, and the process is left charged for its meta data
  pages only (none without \<open>VMM_METACH\<close>) and for no dirty page.\<close>
theorem mevictall_correct:
  assumes "proc_ok v w" and "quiet w" and "0 < inter_mtx w"
  shows "\<exists>v' w'. sbma_mevictall v w = Some (int (VMM_TO_SYS v w (sum_list (map c_pages (a_tbl v)))), v', w') \<and>
           proc_ok v' w' \<and> list_all2 (emptied v w w') (a_tbl v) (a_tbl v') \<and> total w' = total w \<and>
           c_mem w' ! iid (vipc v) = VMM_TO_SYS v w (sum_list (map (meta_pages v) (a_tbl v))) \<and>
           d_mem w' ! iid (vipc v) = 0"
proof -
  have "iid (vipc v) < length (c_mem w)" "iid (vipc v) < length (d_mem w)"
    using assms(1) by (auto simp: proc_ok_def well_formed_def wf_shm_def in_shm_def)
  with mevictall_ok [OF assms] show ?thesis by (auto simp: all_out_def frame_def)
qed

theorem mevictall_correct_witness:
  "\<exists>v' w'. sbma_mevictall (demo_vmm 1 [small_ate]) demo_world = Some (2, v', w') \<and> d_mem w' ! 1 = 0"
  using mevictall_correct [of "demo_vmm 1 [small_ate]" demo_world] by (auto simp del: One_nat_def)

end
