(* ===== verification/Admission.thy ===== *)
theory Admission
  imports Vmm
begin

text \<open>
  The processes beside one another: what one process keeps while another is made to release
  its memory, and that admission (\<open>src/ipc/madmit.c\<close>) with the handlers of \<open>SIGIPC\<close>
  (\<open>src/vmm/init.c\<close>) on the other side succeeds.  The locale \<open>releasing\<close> is interpreted
  here, on the delivery of the signal.
\<close>

subsection \<open>No mapping is made by another process\<close>

text \<open>Eviction, and with it the delivery of a signal, leaves the addresses of the coming
  mappings alone, on every path.\<close>

lemma os_open_places: "os_open f s = (ok, t) \<Longrightarrow> places t = places s"
  by (auto simp: os_open_def dest: sys_call_facts split: prod.splits)

lemma os_xfer_places: "os_xfer n s = (k, t) \<Longrightarrow> places t = places s"
  by (auto simp: os_xfer_def split: list.splits)

lemma write_places: "vmm_write f m b len off s = Some (r, t) \<Longrightarrow> places t = places s"
  by (auto simp: vmm_write_def vmm_write_loop.simps [of f m b len off] Let_def
      dest!: sys_call_facts(3) os_xfer_places split: prod.splits bool.splits option.splits if_splits)

lemma swap_o_flush_places: "swap_o_flush ps f p ip a s n = Some (go, n', a', t) \<Longrightarrow> places t = places s"
  by (auto simp: swap_o_flush_def bind_eq_Some_conv ASSERT_def dest!: write_places split: if_splits)

lemma swap_o_loop_places: "swap_o_loop ps f k ip pf a s n = Some (go, n', a', t) \<Longrightarrow> places t = places s"
proof (induction k arbitrary: ip pf a s n)
  case 0
  then show ?case by (auto dest: swap_o_flush_places split: option.splits)
next
  case (Suc k)
  note IH = Suc.IH and fl = swap_o_flush_places
  from Suc.prems show ?case
    by (auto simp: bind_eq_Some_conv split: if_splits option.splits dest!: IH fl)
qed

lemma swap_o_places: "vmm_swap_o ps op f a b n s = Some (r, a', t) \<Longrightarrow> places t = places s"
  by (auto simp: vmm_swap_o_def bind_eq_Some_conv ASSERT_def swap_o_drop_def
      dest!: swap_o_loop_places os_open_places sys_call_facts(3) split: if_splits prod.splits bool.splits)

lemma mevictall_loop_places: "mevictall_loop v w as c d n = Some (r, as', w', k) \<Longrightarrow> places (sys w') = places (sys w)"
proof (induction as arbitrary: w c d n r as' k)
  case (Cons a as)
  note IH = Cons.IH
  from Cons.prems show ?case
    by (auto simp: bind_eq_Some_conv sbma_mevict_int_def ASSERT_def dest!: swap_o_places IH split: if_splits)
qed simp

lemma sigipc_places: "vmm_sigipc v w = Some (v', w') \<Longrightarrow> places (sys w') = places (sys w)"
  by (auto simp: vmm_sigipc_def sbma_mevictall_int_def ipc_atomic_dec_def bind_eq_Some_conv ASSERT_def
      dest!: mevictall_loop_places split: if_splits)

lemma deliver_places:
  assumes d: "deliver j w = Some (r, w')"
  shows "places (sys w') = places (sys w)"
proof -
  obtain ok s where s: "sys_call (sys w) = (ok, s)" by fastforce
  note p = sys_call_facts(3) [OF s]
  show ?thesis
  proof (cases "ok \<and> procs w j \<noteq> None")
    case True
    then obtain v where v1: "procs w j = Some v" by blast
    then obtain v1 w1 where v: "procs w j = Some v" "vmm_sigipc v (with_sys s w) = Some (v1, w1)"
      using d s True by (cases "vmm_sigipc v (with_sys s w)") (auto simp: deliver_def)
    obtain ok2 t where t: "sys_call (sys w1) = (ok2, t)" by fastforce
    then have "sys w' = t" using d s True v by (cases ok2) (auto simp: deliver_def)
    then show ?thesis using sys_call_facts(3) [OF t] sigipc_places [OF v(2)] p by simp
  next
    case False
    then have "sys w' = s" using d s by (cases ok) (auto simp: deliver_def)
    then show ?thesis using p by simp
  qed
qed

subsection \<open>Processes beside one another\<close>

definition names :: "vmm \<Rightarrow> string set" where
  "names v = vmm_fname v ` set (a_tbl v)"

lemma proc_ok_frame:
  assumes "proc_ok v w" and "\<And>g. g \<in> names v \<Longrightarrow> files (sys w') g = files (sys w) g"
    and "c_mem w' ! iid (vipc v) = c_mem w ! iid (vipc v)" and "d_mem w' ! iid (vipc v) = d_mem w ! iid (vipc v)"
    and "sc_page w' = sc_page w" "total w' = total w" "pids w' = pids w" "sigs w' = sigs w"
      "length (c_mem w') = length (c_mem w)" "length (d_mem w') = length (d_mem w)"
  shows "proc_ok v w'"
proof -
  have "list_all (entry_ok v w') (a_tbl v)"
    using assms(1,2) by (auto simp: proc_ok_def well_formed_def list_all_iff entry_ok_def stored_def names_def)
  with assms show ?thesis
    by (simp add: proc_ok_def well_formed_def accounted_def sized_def wf_shm_def in_shm_def VMM_TO_SYS_def)
qed

definition proc_at :: "vmm \<Rightarrow> 'a world_scheme \<Rightarrow> nat \<Rightarrow> vmm option" where
  "proc_at me w j = (if j = iid (vipc me) then Some me else procs w j)"

text \<open>All processes are consistent, their swap files are different ones, and the others do
  not charge for their meta data (which they would not release).\<close>

definition obliging :: "vmm \<Rightarrow> 'a world_scheme \<Rightarrow> nat \<Rightarrow> vmm \<Rightarrow> bool" where
  "obliging me w j v \<longleftrightarrow> proc_at me w j = Some v \<and> proc_ok v w \<and> iid (vipc v) = j \<and>
     (j \<noteq> iid (vipc me) \<longrightarrow> \<not> has (opts v) VMM_METACH)"

definition company :: "vmm \<Rightarrow> 'a world_scheme \<Rightarrow> bool" where
  "company me w \<longleftrightarrow> quiet w \<and> iid (vipc me) < n_procs (vipc me) \<and> length (c_mem w) = n_procs (vipc me) \<and>
     (\<forall>j < n_procs (vipc me). \<exists>v. obliging me w j v) \<and>
     (\<forall>j k v v'. j < n_procs (vipc me) \<longrightarrow> k < n_procs (vipc me) \<longrightarrow> j \<noteq> k \<longrightarrow>
        proc_at me w j = Some v \<longrightarrow> proc_at me w k = Some v' \<longrightarrow> names v \<inter> names v' = {})"

text \<open>No allocation of a process is lost, and none of its contents.\<close>

definition intact :: "vmm \<Rightarrow> 'a world_scheme \<Rightarrow> vmm \<Rightarrow> 'a world_scheme \<Rightarrow> bool" where
  "intact v w v' w' \<longleftrightarrow> page_size v' = page_size v \<and>
     (\<forall>a\<in>set (a_tbl v). \<exists>a'\<in>set (a_tbl v'). same_place a a' \<and>
        (\<forall>f. stored v w a f \<longrightarrow> (\<exists>f'. stored v' w' a' f' \<and> kept (page_size v) f a f' a')))"

lemma same_place_refl [simp]: "same_place a a"
  by (simp add: same_place_def)

lemma intact_refl:
  assumes "\<And>g. g \<in> names v \<Longrightarrow> files (sys w') g = files (sys w) g"
  shows "intact v w v w'"
proof -
  have "stored v w' a f" if "a \<in> set (a_tbl v)" "stored v w a f" for a f
    using that assms [of "vmm_fname v a"] by (simp add: names_def stored_def)
  then show ?thesis unfolding intact_def by (meson kept_refl same_place_refl)
qed

lemma intact_trans:
  assumes "intact v w v1 w1" and "intact v1 w1 v2 w2"
  shows "intact v w v2 w2"
  unfolding intact_def
proof (intro conjI ballI)
  show "page_size v2 = page_size v" using assms by (simp add: intact_def)
  fix a
  assume "a \<in> set (a_tbl v)"
  then obtain a1 where a1: "a1 \<in> set (a_tbl v1)" "same_place a a1"
    "\<forall>f. stored v w a f \<longrightarrow> (\<exists>f'. stored v1 w1 a1 f' \<and> kept (page_size v) f a f' a1)"
    using assms(1) unfolding intact_def by blast
  then obtain a2 where a2: "a2 \<in> set (a_tbl v2)" "same_place a1 a2"
    "\<forall>f. stored v1 w1 a1 f \<longrightarrow> (\<exists>f'. stored v2 w2 a2 f' \<and> kept (page_size v) f a1 f' a2)"
    using assms unfolding intact_def by metis
  have "same_place a a2" "n_pages a1 = n_pages a" using a1(2) a2(2) by (simp_all add: same_place_def)
  with a1 a2 show "\<exists>a'\<in>set (a_tbl v2). same_place a a' \<and>
      (\<forall>f. stored v w a f \<longrightarrow> (\<exists>f'. stored v2 w2 a' f' \<and> kept (page_size v) f a f' a'))"
    using kept_trans by meson
qed

lemma all_out_intact: "all_out v w v' w' \<Longrightarrow> intact v w v' w'"
proof -
  assume ao: "all_out v w v' w'"
  have ps: "vmm_fname v' = vmm_fname v" "page_size v' = page_size v"
    using ao by (simp_all add: all_out_def alike_def vmm_fname_def fun_eq_iff)
  then have st: "stored v' w' = stored v w'" by (simp add: stored_def fun_eq_iff)
  have l: "list_all2 (emptied v w w') (a_tbl v) (a_tbl v')" using ao by (simp add: all_out_def)
  have "\<exists>a'\<in>set (a_tbl v'). emptied v w w' a a'" if "a \<in> set (a_tbl v)" for a
    using l that by (induction rule: list_all2_induct) auto
  then show ?thesis unfolding intact_def st using ps(2) unfolding emptied_def by meson
qed

text \<open>Neither the options nor the places of the allocations have changed.\<close>

definition shape :: "vmm \<Rightarrow> vmm \<Rightarrow> bool" where
  "shape v v' \<longleftrightarrow> alike (v\<lparr>a_tbl := a_tbl v'\<rparr>) v' \<and> list_all2 same_place (a_tbl v) (a_tbl v')"

lemma same_place_map:
  "list_all2 same_place xs ys \<longleftrightarrow>
     map (\<lambda>a. (addr a, base a, n_pages a)) ys = map (\<lambda>a. (addr a, base a, n_pages a)) xs"
  by (auto simp: list_all2_conv_all_nth list_eq_iff_nth_eq same_place_def)

lemma shape_refl [simp]: "shape v v"
  by (simp add: shape_def alike_def list_all2_same)

lemma shape_trans:
  assumes "shape u v" and "shape v w"
  shows "shape u w"
proof -
  have "list_all2 same_place (a_tbl u) (a_tbl w)" using assms by (simp add: shape_def same_place_map)
  then show ?thesis using assms by (simp add: shape_def alike_def)
qed

definition since :: "vmm \<Rightarrow> 'a world_scheme \<Rightarrow> vmm \<Rightarrow> 'a world_scheme \<Rightarrow> bool" where
  "since me w me' w' \<longleftrightarrow> sc_page w' = sc_page w \<and> (\<forall>j v v'. j < n_procs (vipc me) \<longrightarrow>
     proc_at me w j = Some v \<longrightarrow> proc_at me' w' j = Some v' \<longrightarrow>
       intact v w v' w' \<and> (j \<noteq> iid (vipc me) \<longrightarrow> shape v v'))"

lemma since_refl: "since me w me w"
  by (simp add: since_def intact_refl)

lemma since_trans:
  assumes "since me w me1 w1" and "since me1 w1 me2 w2" and "n_procs (vipc me1) = n_procs (vipc me)"
    and "iid (vipc me1) = iid (vipc me)"
    and "\<And>j. j < n_procs (vipc me) \<Longrightarrow> \<exists>v. proc_at me1 w1 j = Some v"
  shows "since me w me2 w2"
proof -
  have "intact v w v2 w2 \<and> (j \<noteq> iid (vipc me) \<longrightarrow> shape v v2)"
    if j: "j < n_procs (vipc me)" "proc_at me w j = Some v" "proc_at me2 w2 j = Some v2" for j v v2
  proof -
    obtain v1 where "proc_at me1 w1 j = Some v1" using assms(5) j(1) by blast
    with assms(1-4) j have "intact v w v1 w1" "intact v1 w1 v2 w2"
      "j \<noteq> iid (vipc me) \<longrightarrow> shape v v1 \<and> shape v1 v2" by (auto simp: since_def)
    then show ?thesis using intact_trans shape_trans by blast
  qed
  moreover have "sc_page w2 = sc_page w" using assms by (simp add: since_def)
  ultimately show ?thesis by (simp add: since_def)
qed

lemma all_out_shape: "all_out v w v' w' \<Longrightarrow> shape v v'"
  by (auto simp: shape_def all_out_def emptied_def elim!: list.rel_mono_strong)

lemma all_out_released:
  assumes ok: "proc_ok v w" and m: "\<not> has (opts v) VMM_METACH" and ao: "all_out v w v' w'"
  shows "released (iid (vipc v)) w w'"
proof -
  have z: "meta_pages v = (\<lambda>a. 0)" using m by (simp add: meta_pages_def fun_eq_iff)
  then have "csum v (a_tbl v) = sum_list (map c_pages (a_tbl v))" by (simp add: csum_def)
  moreover have "VMM_TO_SYS v w 0 = 0" by (simp add: VMM_TO_SYS_def mulw_def)
  ultimately show ?thesis
    using ao ok by (simp add: released_def all_out_def frame_def proc_ok_def accounted_def z)
qed

lemma all_out_others:
  assumes ao: "all_out v w v' w'" and ok: "proc_ok u w" and nu: "names u \<inter> names v = {}" and j: "iid (vipc u) \<noteq> iid (vipc v)"
  shows "proc_ok u w'" and "intact u w u w'"
proof -
  have fr: "files (sys w') g = files (sys w) g" if "g \<in> names u" for g
    using ao nu that unfolding all_out_def names_def [symmetric] by blast
  then show "intact u w u w'" by (rule intact_refl)
  show "proc_ok u w'"
    using ao j by (intro proc_ok_frame [OF ok fr]) (auto simp: all_out_def frame_def)
qed

lemma all_out_names: "all_out v w v' w' \<Longrightarrow> names v' = names v"
proof -
  assume ao: "all_out v w v' w'"
  have "vmm_fname v' = vmm_fname v" using ao by (simp add: all_out_def alike_def vmm_fname_def fun_eq_iff)
  moreover have "list_all2 same_place (a_tbl v) (a_tbl v')"
    using ao unfolding all_out_def by (auto simp: emptied_def elim!: list.rel_mono_strong)
  note same_places(2) [OF this, of v]
  ultimately show ?thesis unfolding names_def by (metis list.set_map)
qed

lemma with_procs_simps [simp]:
  "proc_ok v (w\<lparr>procs := p\<rparr>) = proc_ok v w" "quiet (w\<lparr>procs := p\<rparr>) = quiet w" "stored v (w\<lparr>procs := p\<rparr>) = stored v w"
  "intact v w0 v' (w\<lparr>procs := p\<rparr>) = intact v w0 v' w" "released j w0 (w\<lparr>procs := p\<rparr>) = released j w0 w"
proof -
  show st: "stored v (w\<lparr>procs := p\<rparr>) = stored v w" for v by (simp add: stored_def fun_eq_iff)
  have "entry_ok v (w\<lparr>procs := p\<rparr>) = entry_ok v w" by (simp add: entry_ok_def st fun_eq_iff)
  then show "proc_ok v (w\<lparr>procs := p\<rparr>) = proc_ok v w"
    by (simp add: proc_ok_def well_formed_def accounted_def sized_def wf_shm_def in_shm_def VMM_TO_SYS_def total_def)
  show "quiet (w\<lparr>procs := p\<rparr>) = quiet w" "intact v w0 v' (w\<lparr>procs := p\<rparr>) = intact v w0 v' w"
    "released j w0 (w\<lparr>procs := p\<rparr>) = released j w0 w"
    by (simp_all add: quiet_def intact_def st released_def)
qed

lemma deliver_ok:
  assumes co: "company me w" and j: "j < n_procs (vipc me)" "j \<noteq> iid (vipc me)" and el: "ipc_is_eligible w j \<noteq> 0"
  shows "\<exists>w'. deliver j w = Some (0, w') \<and> company me w' \<and> released j w w' \<and> since me w me w' \<and>
     (\<forall>g. g \<in> names me \<or> files (sys w) g = None \<longrightarrow> files (sys w') g = files (sys w) g)"
proof -
  let ?n = "n_procs (vipc me)"
  obtain v where "obliging me w j v" using co j(1) unfolding company_def by blast
  then have v: "procs w j = Some v" "proc_at me w j = Some v" "proc_ok v w" "iid (vipc v) = j" "\<not> has (opts v) VMM_METACH"
    using j(2) by (auto simp: obliging_def proc_at_def)
  have q: "quiet w" using co by (simp add: company_def)
  obtain v' w1 where si: "vmm_sigipc v w = Some (v', w1)" and ao: "all_out v w v' w1"
    using sigipc_ok [OF v(3) q] el v(4) by auto
  let ?w = "w1\<lparr>procs := (procs w1)(j \<mapsto> v')\<rparr>"
  have w1: "quiet w1" "procs w1 = procs w" "sc_page w1 = sc_page w" "length (c_mem w1) = length (c_mem w)" "proc_ok v' w1"
    "iid (vipc v') = j" "opts v' = opts v"
    using ao v(4) by (auto simp: all_out_def frame_def alike_def)
  have rl: "released j w w1" using all_out_released [OF v(3,5) ao] v(4) by simp
  have pa: "proc_at me ?w k = (if k = j then Some v' else proc_at me w k)" for k
    using j(2) w1(2) by (simp add: proc_at_def)
  have oth: "proc_ok u w1 \<and> intact u w u w1" if k: "k < ?n" "k \<noteq> j" "proc_at me w k = Some u" for k u
  proof -
    obtain u' where "obliging me w k u'" using co k(1) unfolding company_def by blast
    then have "proc_ok u w" "iid (vipc u) = k" using that(3) by (auto simp: obliging_def)
    moreover have "names u \<inter> names v = {}" using co that v(2) j(1) unfolding company_def by blast
    ultimately show ?thesis using all_out_others [OF ao] that(2) v(4) by auto
  qed
  have ob: "\<exists>u. obliging me ?w k u" if "k < ?n" for k
  proof (cases "k = j")
    case True
    then have "obliging me ?w k v'" using w1(5-7) v(5) pa [of j] by (simp add: obliging_def)
    then show ?thesis by blast
  next
    case False
    obtain u where "obliging me w k u" using co \<open>k < ?n\<close> unfolding company_def by blast
    then have "obliging me ?w k u" using False oth [OF \<open>k < ?n\<close> False, of u] pa [of k] by (simp add: obliging_def)
    then show ?thesis by blast
  qed
  have "names u \<inter> names u' = {}" if k: "k < ?n" "l < ?n" "k \<noteq> l" "proc_at me ?w k = Some u" "proc_at me ?w l = Some u'" for k l u u'
  proof -
    obtain x y where "proc_at me w k = Some x" "names x = names u" "proc_at me w l = Some y" "names y = names u'"
      using k(4,5) v(2) all_out_names [OF ao] unfolding pa by (metis option.inject)
    then show ?thesis using co that(1-3) unfolding company_def by blast
  qed
  then have "company me ?w" using co ob w1 unfolding company_def by simp
  moreover have "since me w me ?w"
    using oth all_out_intact [OF ao] all_out_shape [OF ao] v(2) w1(3) by (auto simp: since_def pa)
  moreover have "proc_at me w (iid (vipc me)) = Some me" "iid (vipc me) < ?n"
    using co by (simp_all add: proc_at_def company_def)
  then have nn: "names me \<inter> names v = {}" using co v(2) j unfolding company_def by blast
  have "g \<notin> names v" if "files (sys w) g = None" for g
    using v(3) that by (auto simp: names_def proc_ok_def well_formed_def list_all_iff entry_ok_def stored_def)
  with nn have "\<forall>g. g \<in> names me \<or> files (sys w) g = None \<longrightarrow> files (sys ?w) g = files (sys w) g"
    using ao unfolding all_out_def names_def [symmetric] by auto
  moreover have "deliver j w = Some (0, ?w)"
    using q w1 v(1) si by (simp add: deliver_def quiet_def) (simp add: with_sys_def)
  ultimately show ?thesis using rl by auto
qed

definition held :: "vmm \<Rightarrow> 'a world_scheme \<Rightarrow> 'a world_scheme \<Rightarrow> bool" where
  "held me w0 w \<longleftrightarrow> company me w \<and> since me w0 me w \<and> places (sys w) = places (sys w0) \<and>
     (\<forall>g. g \<in> names me \<or> files (sys w0) g = None \<longrightarrow> files (sys w) g = files (sys w0) g)"

interpretation others: releasing deliver "held me w0" "iid (vipc me)" "n_procs (vipc me)" for me w0
proof
  show "\<exists>w'. deliver j w = Some (0, w') \<and> held me w0 w' \<and> released j w w'"
    if h: "held me w0 w" "j < n_procs (vipc me)" "j \<noteq> iid (vipc me)" "ipc_is_eligible w j \<noteq> 0" for w j
  proof -
    have "\<exists>v. proc_at me w j = Some v" if "j < n_procs (vipc me)" for j
      using h(1) that unfolding held_def company_def obliging_def by blast
    then have tr: "since me w0 me w'" if "since me w me w'" for w'
      using that h(1) since_trans [of me w0 me w me] by (simp add: held_def)
    obtain w' where d: "deliver j w = Some (0, w')" "company me w'" "released j w w'" "since me w me w'"
      "\<forall>g. g \<in> names me \<or> files (sys w) g = None \<longrightarrow> files (sys w') g = files (sys w) g"
      using deliver_ok [of me w j] h by (auto simp: held_def)
    then have "held me w0 w'" using h(1) tr deliver_places [OF d(1)] unfolding held_def by simp
    then show ?thesis using d by blast
  qed
qed (simp add: held_def company_def)

subsection \<open>A step of one process\<close>

lemma company_upd:
  assumes co: "company me w" and ok: "proc_ok me' w'" and q: "quiet w'" and fr: "frame w w'"
    and id: "iid (vipc me') = iid (vipc me)" "n_procs (vipc me') = n_procs (vipc me)"
    and cd: "\<And>j. j \<noteq> iid (vipc me) \<Longrightarrow> c_mem w' ! j = c_mem w ! j \<and> d_mem w' ! j = d_mem w ! j"
    and oth: "\<And>j v g. j < n_procs (vipc me) \<Longrightarrow> j \<noteq> iid (vipc me) \<Longrightarrow> procs w j = Some v \<Longrightarrow> g \<in> names v \<Longrightarrow>
      files (sys w') g = files (sys w) g \<and> g \<notin> names me'"
  shows "company me' w'" and "intact me w me' w' \<Longrightarrow> since me w me' w'"
proof -
  let ?n = "n_procs (vipc me)"
  have fr': "procs w' = procs w" "sc_page w' = sc_page w" "length (c_mem w') = length (c_mem w)" "total w' = total w"
    "pids w' = pids w" "sigs w' = sigs w" "length (d_mem w') = length (d_mem w)"
    using fr by (auto simp: frame_def)
  have pa: "proc_at me' w' j = (if j = iid (vipc me) then Some me' else proc_at me w j)" for j
    using fr'(1) id(1) by (simp add: proc_at_def)
  have ob: "\<exists>v. obliging me' w' j v" if j: "j < ?n" for j
  proof (cases "j = iid (vipc me)")
    case True
    then have "obliging me' w' j me'" using ok id by (simp add: obliging_def proc_at_def)
    then show ?thesis by blast
  next
    case False
    obtain v where v: "obliging me w j v" using co j unfolding company_def by blast
    then have p: "procs w j = Some v" "proc_ok v w" "iid (vipc v) = j" using False by (auto simp: obliging_def proc_at_def)
    have "proc_ok v w'"
      by (rule proc_ok_frame [OF p(2)]) (use oth [OF j False p(1)] cd [OF False] p(3) fr' in auto)
    then have "obliging me' w' j v" using v False id pa [of j] by (simp add: obliging_def)
    then show ?thesis by blast
  qed
  have "names v \<inter> names v' = {}"
    if jk: "j < ?n" "k < ?n" "j \<noteq> k" "proc_at me' w' j = Some v" "proc_at me' w' k = Some v'" for j k v v'
  proof -
    consider "j = iid (vipc me)" | "k = iid (vipc me)" | "j \<noteq> iid (vipc me)" "k \<noteq> iid (vipc me)" by blast
    then show ?thesis
    proof cases
      case 1
      then have "v = me'" "procs w k = Some v'" using jk(3-5) unfolding pa by (auto simp: proc_at_def)
      then show ?thesis using oth [OF jk(2)] 1 jk(3) by blast
    next
      case 2
      then have "v' = me'" "procs w j = Some v" using jk(3-5) unfolding pa by (auto simp: proc_at_def)
      then show ?thesis using oth [OF jk(1)] 2 jk(3) by blast
    next
      case 3
      then show ?thesis using jk co unfolding pa company_def by simp
    qed
  qed
  then show "company me' w'" using co ob q id fr' unfolding company_def by simp
  show "since me w me' w'" if "intact me w me' w'"
  proof -
    have "intact v w v' w' \<and> (j \<noteq> iid (vipc me) \<longrightarrow> shape v v')"
      if "j < ?n" "proc_at me w j = Some v" "proc_at me' w' j = Some v'" for j v v'
    proof (cases "j = iid (vipc me)")
      case True
      then show ?thesis using that \<open>intact me w me' w'\<close> unfolding pa by (simp add: proc_at_def)
    next
      case False
      then have "v' = v" "procs w j = Some v" using that unfolding pa by (simp_all add: proc_at_def)
      then show ?thesis using oth [OF that(1) False] by (auto intro: intact_refl)
    qed
    then show ?thesis using fr'(2) by (simp add: since_def)
  qed
qed

lemma company_self: "company me w \<Longrightarrow> proc_ok me w"
  unfolding company_def obliging_def proc_at_def by auto

lemma company_others:
  assumes "company me w" and "j < n_procs (vipc me)" and "j \<noteq> iid (vipc me)" and "procs w j = Some v"
  shows "names v \<inter> names me = {}"
proof -
  have "proc_at me w j = Some v" "proc_at me w (iid (vipc me)) = Some me" using assms(3,4) by (simp_all add: proc_at_def)
  then show ?thesis using assms(1-3) unfolding company_def by blast
qed

text \<open>The step changes neither the names of the caller's files nor any other file.\<close>

lemma company_step:
  assumes co: "company me w" and ok: "proc_ok me' w'" and q: "quiet w'" and fr: "frame w w'"
    and id: "iid (vipc me') = iid (vipc me)" "n_procs (vipc me') = n_procs (vipc me)"
    and cd: "\<And>j. j \<noteq> iid (vipc me) \<Longrightarrow> c_mem w' ! j = c_mem w ! j \<and> d_mem w' ! j = d_mem w ! j"
    and nm: "names me' = names me" and fi: "\<And>g. g \<notin> names me \<Longrightarrow> files (sys w') g = files (sys w) g"
    and it: "intact me w me' w'"
  shows "company me' w'" and "since me w me' w'"
proof -
  have oth: "files (sys w') g = files (sys w) g \<and> g \<notin> names me'"
    if "j < n_procs (vipc me)" "j \<noteq> iid (vipc me)" "procs w j = Some v" "g \<in> names v" for j v g
    using company_others [OF co that(1-3)] that(4) nm fi by blast
  show "company me' w'" by (rule company_upd(1) [OF co ok q fr id cd oth])
  show "since me w me' w'" by (rule company_upd(2) [OF co ok q fr id cd oth it])
qed

lemma alike_names: "alike v v' \<Longrightarrow> names v' = names v"
  using alike_proc(3) [of v v'] by (simp add: names_def alike_def)

lemma company_alike:
  assumes co: "company me w" and al: "alike me me'"
  shows "company me' w" and "since me w me' w"
proof -
  have e: "iid (vipc me') = iid (vipc me)" "n_procs (vipc me') = n_procs (vipc me)" "page_size me' = page_size me"
    "a_tbl me' = a_tbl me" using al by (auto simp: alike_def)
  have ok: "proc_ok me' w" using company_self [OF co] by (simp add: alike_proc(2) [OF al])
  have q: "quiet w" using co by (simp add: company_def)
  have it: "intact me w me' w"
    unfolding intact_def alike_proc(4) [OF al] e by (metis kept_refl same_place_refl)
  show "company me' w" and "since me w me' w"
    by (rule company_step [OF co ok q _ e(1,2) _ alike_names [OF al] _ it]; simp add: frame_def)+
qed

subsection \<open>Taking memory\<close>

definition debit :: "nat \<Rightarrow> nat \<Rightarrow> 'a world_scheme \<Rightarrow> 'a world_scheme" where
  "debit j c w = w\<lparr>s_mem := s_mem w - c, c_mem := (c_mem w)[j := c_mem w ! j + c]\<rparr>"

lemma debit_simps [simp]:
  "sys (debit j c w) = sys w" "sc_page (debit j c w) = sc_page w" "procs (debit j c w) = procs w"
  "s_mem (debit j c w) = s_mem w - c" "c_mem (debit j c w) = (c_mem w)[j := c_mem w ! j + c]"
  "d_mem (debit j c w) = d_mem w" "sigs (debit j c w) = sigs w"
  "pids (debit j c w) = pids w" "inter_mtx (debit j c w) = inter_mtx w"
  "VMM_TO_SYS v (debit j c w) n = VMM_TO_SYS v w n" "sized v (debit j c w) = sized v w"
  "stored v (debit j c w) a f = stored v w a f" "entry_ok v (debit j c w) = entry_ok v w"
  "in_shm i (debit j c w) = in_shm i w" "quiet (debit j c w) = quiet w"
  by (simp_all add: debit_def VMM_TO_SYS_def sized_def stored_def entry_ok_def in_shm_def quiet_def fun_eq_iff)

lemma total_debit [simp]: "j < length (c_mem w) \<Longrightarrow> c \<le> s_mem w \<Longrightarrow> total (debit j c w) = total w"
  by (simp add: debit_def total_inc)

lemma well_formed_debit:
  "well_formed v w \<Longrightarrow> c \<le> s_mem w \<Longrightarrow> well_formed v (debit (iid (vipc v)) c w)"
  by (simp add: well_formed_def wf_shm_def in_shm_def)

lemma with_inter_parts [simp]:
  "stored v (w\<lparr>inter_mtx := k\<rparr>) = stored v w" "proc_at v (w\<lparr>inter_mtx := k\<rparr>) = proc_at v w"
  by (simp_all add: stored_def proc_at_def fun_eq_iff)

lemma with_inter_simps [simp]:
  "proc_ok v (w\<lparr>inter_mtx := k\<rparr>) = proc_ok v w" "quiet (w\<lparr>inter_mtx := k\<rparr>) = quiet w"
  "company v (w\<lparr>inter_mtx := k\<rparr>) = company v w" "since u w0 v (w\<lparr>inter_mtx := k\<rparr>) = since u w0 v w"
  "since v (w\<lparr>inter_mtx := k\<rparr>) u w0 = since v w u w0"
proof -
  have "entry_ok v (w\<lparr>inter_mtx := k\<rparr>) = entry_ok v w" for v by (simp add: entry_ok_def fun_eq_iff)
  then show ok: "proc_ok v (w\<lparr>inter_mtx := k\<rparr>) = proc_ok v w" for v
    by (simp add: proc_ok_def well_formed_def accounted_def sized_def wf_shm_def in_shm_def VMM_TO_SYS_def)
  show qu: "quiet (w\<lparr>inter_mtx := k\<rparr>) = quiet w" by (simp add: quiet_def)
  show "company v (w\<lparr>inter_mtx := k\<rparr>) = company v w" "since u w0 v (w\<lparr>inter_mtx := k\<rparr>) = since u w0 v w"
    "since v (w\<lparr>inter_mtx := k\<rparr>) u w0 = since v w u w0"
    unfolding company_def obliging_def since_def by (simp_all add: ok qu intact_def)
qed

lemma releasable_inter [simp]: "releasable i (w\<lparr>inter_mtx := k\<rparr>) = releasable i w"
  by (simp add: releasable_def can_release_def ipc_is_eligible_def)

text \<open>Admission of \<open>n\<close> pages succeeds when the system and the other processes have them: the
  others keep their contents, nothing happens to the caller's allocations, and the caller is
  charged for exactly \<open>n\<close> pages.\<close>

lemma madmit_ok:
  assumes co: "company me w" and m: "0 < inter_mtx w" and n: "n \<le> s_mem w + releasable (vipc me) w"
  shows "\<exists>v' w1. madmit me n w = Some (0, v', debit (iid (vipc me)) n w1) \<and> alike me v' \<and>
           held me w w1 \<and> n \<le> s_mem w1 \<and> total w1 = total w \<and> inter_mtx w1 = inter_mtx w"
proof (cases "n = 0")
  case True
  have "debit (iid (vipc me)) 0 w = w" by (simp add: debit_def)
  then show ?thesis using True co since_refl [of me w]
    by (intro exI [of _ me] exI [of _ w]) (simp add: madmit_def ipc_madmit_def alike_def held_def)
next
  case False
  let ?w = "w\<lparr>inter_mtx := inter_mtx w - 1\<rparr>"
  obtain w' where l: "madmit_loop deliver (vipc me) (opts me AND VMM_ADMITD) n (s_mem w) ?w = Some (0, s_mem w', w')"
    and w': "n \<le> s_mem w'" "held me w w'" "total w' = total w" "inter_mtx w' = inter_mtx w - 1"
    using others.madmit_loop_returns [where w = ?w and me = me and ?w0.0 = w and i = "vipc me" and amount = n]
      co n since_refl [of me w] by (auto simp: held_def)
  have "proc_ok me w'" using w'(2) company_self by (auto simp: held_def)
  then have sh: "wf_shm (vipc me) w'" by (simp add: proc_ok_def well_formed_def)
  have sh0: "in_shm (vipc me) w"
    using co by (auto simp: company_def obliging_def proc_at_def proc_ok_def well_formed_def wf_shm_def)
  let ?w1 = "w'\<lparr>inter_mtx := inter_mtx w\<rparr>"
  have "sem_post_inter (debit (iid (vipc me)) n w') = debit (iid (vipc me)) n ?w1"
    using w'(4) m by (simp add: sem_post_inter_def debit_def)
  then have "madmit me n w = Some (0, me\<lparr>vipc := (vipc me)\<lparr>maxpages := max (maxpages (vipc me))
      (c_mem w' ! iid (vipc me) + n)\<rparr>\<rparr>, debit (iid (vipc me)) n ?w1)"
    using False m l w'(1) sh0
    by (simp add: madmit_def ipc_madmit_def sem_wait_inter_def ipc_atomic_inc_eq [OF sh w'(1)] debit_def)
  then show ?thesis using w'
    by (intro exI conjI) (assumption | simp add: alike_def held_def)+
qed

lemma demo_company [simp]: "company (demo_vmm 0 []) demo_world"
proof -
  have "\<exists>v. obliging (demo_vmm 0 []) demo_world j v" if "j < 2" for j
    using that by (cases "j = 0") (auto simp: obliging_def proc_at_def less_2_cases_iff simp del: One_nat_def)
  then show ?thesis by (auto simp: company_def proc_at_def names_def)
qed

subsection \<open>Properties\<close>

text \<open>C13: The handler of \<open>SIGIPC\<close> of an eligible process releases everything but the meta data
  charge, without waiting for the inter-process mutex, which the process that asks holds.  So
  a process that charges for meta data stays charged, and eligible, after it was asked.\<close>
theorem sigipc_releases:
  assumes "proc_ok v w" and "quiet w" and "ipc_is_eligible w (iid (vipc v)) \<noteq> 0"
  shows "\<exists>v' w'. vmm_sigipc v w = Some (v', w') \<and> proc_ok v' w' \<and> intact v w v' w' \<and>
           total w' = total w \<and> inter_mtx w' = inter_mtx w \<and>
           c_mem w' ! iid (vipc v) = VMM_TO_SYS v w (sum_list (map (meta_pages v) (a_tbl v))) \<and>
           (\<not> has (opts v) VMM_METACH \<longrightarrow> released (iid (vipc v)) w w')"
proof -
  obtain v' w' where r: "vmm_sigipc v w = Some (v', w')" "all_out v w v' w'" using sigipc_ok [OF assms] by blast
  have "iid (vipc v) < length (c_mem w)"
    using assms(1) by (auto simp: proc_ok_def well_formed_def wf_shm_def in_shm_def)
  then show ?thesis using r all_out_intact [OF r(2)] all_out_released [OF assms(1) _ r(2)]
    by (auto simp: all_out_def frame_def)
qed

theorem sigipc_releases_witness:
  "\<exists>v' w'. vmm_sigipc (demo_vmm 1 [small_ate]) demo_world = Some (v', w') \<and> c_mem w' ! 1 = 0"
  using sigipc_releases [of "demo_vmm 1 [small_ate]" demo_world]
  by (auto simp: eligible_iff meta_pages_def simp del: One_nat_def)

text \<open>C11: Admission succeeds when it can.  If all processes are consistent, the others do not
  charge for meta data, and the free pages together with those the others can release cover the
  request, then \<open>ipc_madmit\<close> with the real signal handlers on the other side returns 0,
  the caller is charged for exactly the request, the sum of the accounts is unchanged, every
  other process is consistent again, and no process loses a byte.\<close>
theorem admission_succeeds:
  assumes "company me w" and "0 < inter_mtx w" and "n \<le> s_mem w + releasable (vipc me) w"
  shows "\<exists>v' w1. madmit me n w = Some (0, v', debit (iid (vipc me)) n w1) \<and> alike me v' \<and>
           company me w1 \<and> since me w me w1 \<and> n \<le> s_mem w1 \<and> total w1 = total w \<and> inter_mtx w1 = inter_mtx w"
  using madmit_ok [OF assms] unfolding held_def by blast

theorem admission_succeeds_witness:
  "\<exists>v' w1. madmit (demo_vmm 0 []) 3 demo_world = Some (0, v', debit 0 3 w1) \<and> 3 \<le> s_mem w1"
proof -
  have "can_release (proc_ipc 0) demo_world j \<longleftrightarrow> j = 1" for j
    by (cases "j < 2") (auto simp: can_release_def eligible_iff less_2_cases_iff)
  then have "releasable (proc_ipc 0) demo_world = 2" by (simp add: releasable_def)
  then show ?thesis using admission_succeeds [of "demo_vmm 0 []" demo_world 3] by auto
qed

end
