(* ===== verification/Touch.thy ===== *)
theory Touch
  imports Admission
begin

text \<open>
  Loading (\<open>src/api/mtouch.c\<close>) and the handler of \<open>SIGSEGV\<close> (\<open>src/vmm/init.c\<close>): the
  functions that admit memory and make pages resident, and through which a program that
  just reads and writes its memory drives the library.

  The loops \<open>for (;;)\<close> around \<open>ipc_madmit\<close> repeat only when it returns -2, which it never
  does, so the model has one round.  The variable argument list of
  \<open>sbma_mtouch_atomic\<close> is the list of its ranges up to \<open>SBMA_ATOMIC_END\<close>.  A pointer to
  an allocation table entry is the address of the entry.
\<close>

subsection \<open>Touching a range\<close>

definition sbma_mtouch_probe :: "vmm \<Rightarrow> 'a world_scheme \<Rightarrow> ate \<Rightarrow> nat \<Rightarrow> nat \<Rightarrow> int option" where
  "sbma_mtouch_probe v w a x len =
     (if has (opts v) (VMM_AGGCH OR VMM_LZYRD) \<and> c_pages a = 0 then Some (to_ssize (VMM_TO_SYS v w (n_pages a)))
      else do {
        fs \<leftarrow> flag_span a (beg_page v a x) (end_page v a x len);
        ASSERT (list_all (\<lambda>f. \<not> charged f \<longrightarrow> \<not> resident f) fs);
        Some (to_ssize (VMM_TO_SYS v w (length (filter (\<lambda>f. \<not> charged f) fs))))
      })"

definition sbma_mtouch_int ::
  "vmm \<Rightarrow> 'a world_scheme \<Rightarrow> ate \<Rightarrow> nat \<Rightarrow> nat \<Rightarrow> (int \<times> ate \<times> 'a world_scheme) option" where
  "sbma_mtouch_int v w a x len = do {
     a \<leftarrow> (if has (opts v) (VMM_AGGCH OR VMM_LZYRD) \<and> c_pages a = 0 then do {
              ASSERT (n_pages a \<le> length (flags a));
              Some (a\<lparr>flags := map_range 0 (n_pages a) (\<lambda>f. f AND NOT MMU_CHRGD) (flags a), c_pages := n_pages a\<rparr>)
            }
            else Some a);
     b \<leftarrow> Some (beg_page v a x);
     e \<leftarrow> Some (end_page v a x len);
     (rd, a, s) \<leftarrow> vmm_swap_i (page_size v) (vmm_fname v a) a b (subw e b) (opts v AND VMM_GHOST) (sys w);
     w \<leftarrow> Some (with_sys s w);
     if rd = -1 then Some (-1, a, w) else Some (to_ssize (VMM_TO_SYS v w (as_size rd)), a, w)
   }"

text \<open>Admission as the three callers do it: nothing is asked for when nothing is missing.\<close>

definition admit :: "vmm \<Rightarrow> 'a world_scheme \<Rightarrow> nat \<Rightarrow> (int \<times> vmm \<times> 'a world_scheme) option" where
  "admit v w c = (if c = 0 then Some (0, v, w) else madmit v c w)"

definition ate_at :: "vmm \<Rightarrow> nat \<Rightarrow> ate option" where
  "ate_at v p = find (\<lambda>a. addr a = p) (a_tbl v)"

text \<open>The part of \<open>sbma_mtouch\<close> after the entry is known.\<close>

definition mtouch_entry ::
  "vmm \<Rightarrow> 'a world_scheme \<Rightarrow> ate \<Rightarrow> nat \<Rightarrow> nat \<Rightarrow> (int \<times> vmm \<times> 'a world_scheme) option" where
  "mtouch_entry v w a x len = do {
     c \<leftarrow> sbma_mtouch_probe v w a x len;
     if c = -1 then Some (-1, v, w)
     else do {
       (ret, v, w) \<leftarrow> admit v w (as_size c);
       if ret = -1 then Some (-1, v, w)
       else do {
         (rd, a, w) \<leftarrow> sbma_mtouch_int v w a x len;
         v \<leftarrow> Some (with_ate a v);
         if rd = -1 then Some (-1, v, w)
         else do {
           SBMA_STATE_CHECK v w;
           Some (c, v\<lparr>numrd := addw (numrd v) (as_size rd)\<rparr>, w)
         }
       }
     }
   }"

definition sbma_mtouch ::
  "vmm \<Rightarrow> 'a world_scheme \<Rightarrow> nat option \<Rightarrow> nat \<Rightarrow> nat \<Rightarrow> (int \<times> vmm \<times> 'a world_scheme) option" where
  "sbma_mtouch v w p x len = do {
     SBMA_STATE_CHECK v w;
     (case p of
        None \<Rightarrow> (case mmu_lookup (page_size v) (a_tbl v) x of
                   None \<Rightarrow> Some (-1, v, w)
                 | Some a \<Rightarrow> mtouch_entry v w a x len)
      | Some p \<Rightarrow> do { a \<leftarrow> ate_at v p; mtouch_entry v w a x len })
   }"

subsection \<open>Touching several ranges\<close>

definition SBMA_ATOMIC_MAX :: nat where "SBMA_ATOMIC_MAX = 256"

text \<open>An element of the parallel arrays \<open>dup\<close>, \<open>addr\<close>, \<open>len\<close> and \<open>ate\<close>.\<close>

record slot =
  s_dup :: bool
  s_addr :: nat
  s_len :: nat
  s_ate :: nat

text \<open>The comparison of the range \<open>(x, len)\<close> of the entry \<open>a\<close> with a slot of the same entry:
  the slot it becomes when the page ranges meet, \<open>None\<close> when they are distinct.\<close>

definition atomic_meet :: "vmm \<Rightarrow> ate \<Rightarrow> nat \<Rightarrow> nat \<Rightarrow> slot \<Rightarrow> slot option" where
  "atomic_meet v a x len s =
     (let mn = (if x < s_addr s then x else s_addr s);
          mx = (if x \<noteq> mn then x else s_addr s);
          mnlen = (if x = mn then len else s_len s);
          mxlen = (if x = mx then len else s_len s);
          mnend = addw 1 (subw (subw (addw mn mnlen) (base a)) 1 div page_size v);
          mxbeg = subw mx (base a) div page_size v
      in if mnend \<ge> mxbeg
         then if addw mn mnlen \<ge> addw mx mxlen
              then Some (s\<lparr>s_addr := mn, s_len := mnlen\<rparr>)
              else Some (s\<lparr>s_addr := mn, s_len := subw (addw mx mxlen) mn\<rparr>)
         else None)"

text \<open>The search for the first slot of the same entry, and what is done with it: \<open>Inl\<close> the
  updated slots, \<open>Inr dup\<close> when a new slot is to be added.\<close>

fun atomic_scan :: "vmm \<Rightarrow> ate \<Rightarrow> nat \<Rightarrow> nat \<Rightarrow> slot list \<Rightarrow> slot list + bool" where
  "atomic_scan v a x len [] = Inr False"
| "atomic_scan v a x len (s # ss) =
     (if addr a = s_ate s
      then (case atomic_meet v a x len s of Some s \<Rightarrow> Inl (s # ss) | None \<Rightarrow> Inr True)
      else (case atomic_scan v a x len ss of Inl ss \<Rightarrow> Inl (s # ss) | Inr d \<Rightarrow> Inr d))"

definition atomic_add :: "vmm \<Rightarrow> nat \<times> nat \<Rightarrow> slot list \<Rightarrow> slot list option" where
  "atomic_add v r ss =
     (case r of (x, len) \<Rightarrow>
        case mmu_lookup (page_size v) (a_tbl v) x of
          None \<Rightarrow> Some ss
        | Some a \<Rightarrow>
            (case atomic_scan v a x len ss of
               Inl ss \<Rightarrow> Some ss
             | Inr d \<Rightarrow> do {
                 ASSERT (length ss < SBMA_ATOMIC_MAX);
                 Some (ss @ [\<lparr>s_dup = d, s_addr = x, s_len = len, s_ate = addr a\<rparr>])
               }))"

fun atomic_collect :: "vmm \<Rightarrow> (nat \<times> nat) list \<Rightarrow> slot list \<Rightarrow> slot list option" where
  "atomic_collect v [] ss = Some ss"
| "atomic_collect v (r # rs) ss = do { ss \<leftarrow> atomic_add v r ss; atomic_collect v rs ss }"

fun atomic_probe :: "vmm \<Rightarrow> 'a world_scheme \<Rightarrow> slot list \<Rightarrow> nat \<Rightarrow> (bool \<times> nat) option" where
  "atomic_probe v w [] c = Some (True, c)"
| "atomic_probe v w (s # ss) c = do {
     a \<leftarrow> ate_at v (s_ate s);
     ASSERT (\<not> has (opts v) (VMM_AGGCH OR VMM_LZYRD) \<or> \<not> s_dup s \<or> c_pages a \<noteq> 0);
     k \<leftarrow> sbma_mtouch_probe v w a (s_addr s) (s_len s);
     if k = -1 then Some (False, c) else atomic_probe v w ss (addw c (as_size k))
   }"

fun atomic_touch ::
  "vmm \<Rightarrow> 'a world_scheme \<Rightarrow> slot list \<Rightarrow> nat \<Rightarrow> (bool \<times> nat \<times> vmm \<times> 'a world_scheme) option" where
  "atomic_touch v w [] rd = Some (True, rd, v, w)"
| "atomic_touch v w (s # ss) rd = do {
     a \<leftarrow> ate_at v (s_ate s);
     (k, a, w) \<leftarrow> sbma_mtouch_int v w a (s_addr s) (s_len s);
     v \<leftarrow> Some (with_ate a v);
     if k = -1 then Some (False, rd, v, w) else atomic_touch v w ss (addw rd (as_size k))
   }"

definition sbma_mtouch_atomic ::
  "vmm \<Rightarrow> 'a world_scheme \<Rightarrow> (nat \<times> nat) list \<Rightarrow> (int \<times> vmm \<times> 'a world_scheme) option" where
  "sbma_mtouch_atomic v w rs =
     (if rs \<noteq> [] \<and> fst (hd rs) = 0 then Some (0, v, w)
      else do {
        SBMA_STATE_CHECK v w;
        ss \<leftarrow> atomic_collect v rs [];
        (go, c) \<leftarrow> atomic_probe v w ss 0;
        if \<not> go then Some (-1, v, w)
        else do {
          (ret, v, w) \<leftarrow> admit v w c;
          if ret = -1 then Some (-1, v, w)
          else do {
            (go, rd, v, w) \<leftarrow> atomic_touch v w ss 0;
            if \<not> go then Some (-1, v, w)
            else do {
              SBMA_STATE_CHECK v w;
              Some (to_ssize c, v\<lparr>numrd := addw (numrd v) rd\<rparr>, w)
            }
          }
        }
      })"

subsection \<open>Touching everything\<close>

fun mtouchall_probe :: "vmm \<Rightarrow> 'a world_scheme \<Rightarrow> ate list \<Rightarrow> nat \<Rightarrow> (bool \<times> nat) option" where
  "mtouchall_probe v w [] c = Some (True, c)"
| "mtouchall_probe v w (a # as) c = do {
     k \<leftarrow> sbma_mtouch_probe v w a (base a) (mulw (n_pages a) (page_size v));
     if k = -1 then Some (False, c) else mtouchall_probe v w as (addw c (as_size k))
   }"

fun mtouchall_loop ::
  "vmm \<Rightarrow> 'a world_scheme \<Rightarrow> ate list \<Rightarrow> nat \<Rightarrow> (bool \<times> ate list \<times> 'a world_scheme \<times> nat) option" where
  "mtouchall_loop v w [] rd = Some (True, [], w, rd)"
| "mtouchall_loop v w (a # as) rd = do {
     (k, a, w) \<leftarrow> sbma_mtouch_int v w a (base a) (mulw (n_pages a) (page_size v));
     if k = -1 then Some (False, a # as, w, rd)
     else do {
       ASSERT (l_pages a = n_pages a);
       ASSERT (c_pages a = n_pages a);
       (go, as, w, rd) \<leftarrow> mtouchall_loop v w as (addw rd (as_size k));
       Some (go, a # as, w, rd)
     }
   }"

definition sbma_mtouchall :: "vmm \<Rightarrow> 'a world_scheme \<Rightarrow> (int \<times> vmm \<times> 'a world_scheme) option" where
  "sbma_mtouchall v w = do {
     SBMA_STATE_CHECK v w;
     (go, c) \<leftarrow> mtouchall_probe v w (a_tbl v) 0;
     if \<not> go then Some (-1, v, w)
     else do {
       (ret, v, w) \<leftarrow> admit v w c;
       if ret = -1 then Some (-1, v, w)
       else do {
         (go, tbl, w, rd) \<leftarrow> mtouchall_loop v w (a_tbl v) 0;
         v \<leftarrow> Some (v\<lparr>a_tbl := tbl\<rparr>);
         if \<not> go then Some (-1, v, w)
         else do {
           SBMA_STATE_CHECK v w;
           Some (to_ssize c, v\<lparr>numrd := addw (numrd v) rd\<rparr>, w)
         }
       }
     }
   }"

subsection \<open>The handler of SIGSEGV\<close>

text \<open>Assigning the result of \<open>sbma_mtouch\<close> to an \<open>int\<close>.\<close>

definition int_of :: "int \<Rightarrow> int" where
  "int_of x = (x + 2147483648) mod 4294967296 - 2147483648"

definition vmm_sigsegv :: "vmm \<Rightarrow> 'a world_scheme \<Rightarrow> nat \<Rightarrow> (vmm \<times> 'a world_scheme) option" where
  "vmm_sigsegv v w x = do {
     a \<leftarrow> mmu_lookup (page_size v) (a_tbl v) x;
     ip \<leftarrow> Some (subw x (base a) div page_size v);
     f \<leftarrow> flag_at a ip;
     if \<not> resident f then do {
       (y, len) \<leftarrow> Some (if has (opts v) VMM_LZYRD then (addw (base a) (mulw ip (page_size v)), page_size v)
                          else (base a, mulw (n_pages a) (page_size v)));
       (ret, v, w) \<leftarrow> sbma_mtouch v w (Some (addr a)) y len;
       ASSERT (int_of ret \<noteq> -1);
       Some (v\<lparr>numrf := addw (numrf v) 1\<rparr>, w)
     }
     else do {
       ASSERT (\<not> dirty f);
       a \<leftarrow> Some (set_flag a ip MMU_DIRTY);
       (ok, s) \<leftarrow> Some (sys_call (sys w));                     \<comment> \<open>mprotect\<close>
       ASSERT ok;
       w \<leftarrow> Some (with_sys s w);
       a \<leftarrow> Some (set_prot ip 1 PROT_RW a);
       a \<leftarrow> Some (a\<lparr>d_pages := addw (d_pages a) 1\<rparr>);
       v \<leftarrow> Some (with_ate a v);
       (ret, w) \<leftarrow> ipc_mdirty (vipc v) (to_ssize (VMM_TO_SYS v w 1)) w;
       ASSERT (ret \<noteq> -1);
       Some (v\<lparr>numwf := addw (numwf v) 1\<rparr>, w)
     }
   }"


subsection \<open>Loading a range of an allocation\<close>

text \<open>What loading the pages \<open>b, \<dots>, b + n - 1\<close> of \<open>a\<close> does.\<close>

definition mtouched :: "vmm \<Rightarrow> 'a world_scheme \<Rightarrow> ate \<Rightarrow> byte list \<Rightarrow> nat \<Rightarrow> nat \<Rightarrow> ate \<Rightarrow> 'a world_scheme \<Rightarrow> bool" where
  "mtouched v w a f b n a' w' \<longleftrightarrow>
     same_place a a' \<and> lean a' \<and> quiet w' \<and> w' = with_sys (sys w') w \<and> files (sys w') = files (sys w) \<and>
     stored v w' a' f \<and> kept (page_size v) f a f a' \<and>
     (\<forall>q. b \<le> q \<and> q < b + n \<longrightarrow> resident (flags a' ! q)) \<and>
     (\<forall>q < n_pages a. resident (flags a ! q) \<longrightarrow> resident (flags a' ! q)) \<and>
     (\<forall>q < n_pages a. \<not> (b \<le> q \<and> q < b + n) \<longrightarrow> flags a' ! q = flags a ! q) \<and>
     c_pages a' = c_pages a + length (filter (\<lambda>f. \<not> charged f) (span b n (flags a))) \<and>
     d_pages a' = d_pages a"

lemma filter_map_range_all:
  assumes "b + n \<le> length xs" and "\<And>x. x \<in> set xs \<Longrightarrow> P (g x)"
  shows "length (filter P (map_range b n g xs)) = length (filter P xs) + length (filter (\<lambda>x. \<not> P x) (span b n xs))"
proof -
  have sub: "set (span b n xs) \<subseteq> set xs" by (auto simp: span_def dest: in_set_takeD in_set_dropD)
  then have "filter P (map g (span b n xs)) = map g (span b n xs)" using assms(2) by (auto simp: filter_id_conv)
  then show ?thesis
    using filter_span_split [of b n "map_range b n g xs" P] filter_span_split [of b n xs P] assms(1)
      sum_length_filter_compl [of P "span b n xs"]
    by (simp add: map_range_parts)
qed

lemma filter_map_range_same:
  assumes "\<And>x. x \<in> set xs \<Longrightarrow> P (g x) = P x"
  shows "length (filter P (map_range b n g xs)) = length (filter P xs)"
proof -
  have "map P (map_range b n g xs) = map P xs"
    by (rule nth_equalityI) (auto simp: assms)
  moreover have "length (filter P ys) = length (filter id (map P ys))" for ys by (simp add: filter_map o_def)
  ultimately show ?thesis by metis
qed

lemma swapped_in_mtouched:
  assumes si: "swapped_in (page_size v) f g b n a (sys w) (ret, a', s')" and q: "quiet w" and g: "g \<noteq> VMM_GHOST"
    and st: "stored v w a f" and lean: "lean a" and rng: "b + n \<le> n_pages a" and small: "n_pages a < 2147483648"
  shows "ret = int (length (filter fetch (span b n (flags a)))) \<and> mtouched v w a f b n a' (with_sys s' w)"
proof -
  let ?k = "length (filter fetch (span b n (flags a)))"
  have sd: "sound (page_size v) f a" using st by (simp add: stored_def)
  note ca = sound_counts [OF sd]
  have "?k \<le> n" by (rule le_trans [OF length_filter_le]) (simp add: span_def)
  then have k: "to_int ?k = int ?k" using small rng by (intro to_int_exact) linarith
  have fq: "faults (sys w) = []" "grants (sys w) = []" using q by (auto simp: quiet_def)
  note si = si [unfolded swapped_in_def prod.case k]
  have ret: "ret = int ?k" using si fq(1) by blast
  then have ret1: "ret \<noteq> -1" by simp
  have pl: "n_pages a' = n_pages a" "base a' = base a" "addr a' = addr a" "faults s' = []" "grants s' = []"
    "files s' = files (sys w)" "loaded (page_size v) f b n a a'" "prots_ok a'"
    using si fq ret1 g by blast+
  note lp = loaded_pages [OF pl(7) sd]
  have fl: "flags a' = map_range b n touch_flag (flags a)" and co: "counts_ok 0 a'" using pl(7) by (auto simp: loaded_def)
  have sd': "sound (page_size v) f a'" using lp pl(8) co by (simp add: sound_def wf_ate_def)
  note ca' = sound_counts [OF sd']
  have po: "page_ok x" if "x \<in> set (flags a)" for x
    using sd that by (auto simp: sound_def wf_ate_def pages_ok_def list_all_iff)
  have "c_pages a' = c_pages a + length (filter (\<lambda>f. \<not> charged f) (span b n (flags a)))"
    unfolding ca(2) ca'(2) fl using rng ca(1) po by (intro filter_map_range_all) auto
  moreover have "d_pages a' = d_pages a"
    unfolding ca(4) ca'(4) fl by (rule filter_map_range_same) simp
  moreover have "lean a'" using lean by (auto simp: lean_def fl list_all_length)
  moreover have "stored v (with_sys s' w) a' f" using sd' pl st by (simp add: stored_def vmm_fname_def)
  moreover have "resident (flags a' ! p)" if "b \<le> p" "p < b + n" for p
    using that rng ca(1) by (simp add: fl)
  moreover have "resident (flags a' ! p)" if "p < n_pages a" "resident (flags a ! p)" for p
    using that ca(1) by (simp add: fl)
  moreover have "flags a' ! p = flags a ! p" if "p < n_pages a" "\<not> (b \<le> p \<and> p < b + n)" for p
    using that ca(1) by (auto simp: fl)
  ultimately show ?thesis
    using pl ret lp(4) unfolding mtouched_def same_place_def quiet_def with_sys_simps by blast
qed

text \<open>Reading without ghost mode and charging page by page.\<close>

definition plain :: "vmm \<Rightarrow> bool" where
  "plain v \<longleftrightarrow> \<not> has (opts v) VMM_GHOST \<and> \<not> has (opts v) (VMM_AGGCH OR VMM_LZYRD)"

lemma mtouch_int_ok:
  assumes sz: "sized v w" and q: "quiet w" and lean: "lean a" and st: "stored v w a f" and pv: "plain v"
    and small: "n_pages a < 2147483648" and re: "region_end (page_size v) a < SIZE_MOD"
    and rng: "in_range v a x len"
  shows "\<exists>r a' w'. sbma_mtouch_int v w a x len = Some (int r, a', w') \<and>
           mtouched v w a f (beg_page v a x) (end_page v a x len - beg_page v a x) a' w'"
proof -
  let ?b = "beg_page v a x" and ?n = "end_page v a x len - beg_page v a x"
  have ps: "0 < page_size v" using sz by (simp add: sized_def)
  note r = range_pages [OF rng re ps]
  have sd: "sound (page_size v) f a" "files (sys w) (vmm_fname v a) = Some f" using st by (auto simp: stored_def)
  have bn: "?b + ?n \<le> n_pages a" using r by simp
  let ?g = "opts v AND VMM_GHOST"
  have g: "?g \<noteq> VMM_GHOST" using pv by (auto simp: plain_def has_def)
  obtain ret a' s' where o: "vmm_swap_i (page_size v) (vmm_fname v a) a ?b ?n ?g (sys w) = Some (ret, a', s')"
    and so: "swapped_in (page_size v) f ?g ?b ?n a (sys w) (ret, a', s')"
    using returnsD(1) [OF swap_i_spec [OF sd(1) ps sd(2) bn, of ?g]] q by (auto simp: quiet_def)
  note so = swapped_in_mtouched [OF so q g st lean bn small]
  have "length (filter fetch (span ?b ?n (flags a))) < SIZE_MOD"
    by (rule le_less_trans [OF length_filter_le]) (use small bn in \<open>simp add: span_def SIZE_MOD_def\<close>)
  with so o sz pv show ?thesis
    by (intro exI [of _ "VMM_TO_SYS v w (length (filter fetch (span ?b ?n (flags a))))"] exI [of _ a'] exI [of _ "with_sys s' w"])
      (simp add: sbma_mtouch_int_def plain_def r(5))
qed

lemma mtouch_probe_ok:
  assumes sz: "sized v w" and st: "stored v w a f" and pv: "plain v"
    and re: "region_end (page_size v) a < SIZE_MOD" and rng: "in_range v a x len"
  shows "sbma_mtouch_probe v w a x len = Some (int (VMM_TO_SYS v w (length (filter (\<lambda>f. \<not> charged f)
     (span (beg_page v a x) (end_page v a x len - beg_page v a x) (flags a))))))"
proof -
  have ps: "0 < page_size v" using sz by (simp add: sized_def)
  have sd: "sound (page_size v) f a" using st by (simp add: stored_def)
  have "set (span (beg_page v a x) (end_page v a x len - beg_page v a x) (flags a)) \<subseteq> set (flags a)"
    by (auto simp: span_def dest: in_set_takeD in_set_dropD)
  then have "list_all (\<lambda>f. \<not> charged f \<longrightarrow> \<not> resident f) (span (beg_page v a x) (end_page v a x len - beg_page v a x) (flags a))"
    using sd by (auto simp: sound_def wf_ate_def pages_ok_def list_all_iff page_ok_def)
  with range_pages [OF rng re ps] sound_counts(1) [OF sd] sz pv show ?thesis
    by (simp add: sbma_mtouch_probe_def plain_def flag_span_eq)
qed

subsection \<open>Admission and loading together\<close>

lemma admit_ok:
  assumes co: "company me w" and m: "0 < inter_mtx w" and n: "n \<le> s_mem w + releasable (vipc me) w"
  shows "\<exists>v' w1. admit me w n = Some (0, v', debit (iid (vipc me)) n w1) \<and> alike me v' \<and>
           held me w w1 \<and> n \<le> s_mem w1 \<and> total w1 = total w \<and> inter_mtx w1 = inter_mtx w"
proof (cases "n = 0")
  case True
  have "debit (iid (vipc me)) 0 w = w" by (simp add: debit_def)
  then show ?thesis using True co since_refl [of me w]
    by (intro exI [of _ me] exI [of _ w]) (simp add: admit_def alike_def held_def)
qed (use madmit_ok [OF assms] in \<open>simp add: admit_def\<close>)

text \<open>The process has been charged for \<open>k\<close> pages that it has not loaded yet.\<close>

definition prepaid :: "nat \<Rightarrow> vmm \<Rightarrow> 'a world_scheme \<Rightarrow> bool" where
  "prepaid k v w \<longleftrightarrow> well_formed v w \<and>
     c_mem w ! iid (vipc v) = VMM_TO_SYS v w (csum v (a_tbl v)) + VMM_TO_SYS v w k \<and>
     d_mem w ! iid (vipc v) = VMM_TO_SYS v w (dsum (a_tbl v))"

lemma prepaid_debit:
  assumes ok: "proc_ok me w" and n: "VMM_TO_SYS me w k \<le> s_mem w" and al: "alike me v"
  shows "prepaid k v (debit (iid (vipc me)) (VMM_TO_SYS me w k) w)"
proof -
  let ?w = "debit (iid (vipc me)) (VMM_TO_SYS me w k) w"
  have wf: "well_formed me w" and ac: "accounted me w" using ok by (auto simp: proc_ok_def)
  have id: "iid (vipc me) < length (c_mem w)" using wf by (simp add: well_formed_def wf_shm_def in_shm_def)
  have e: "opts v = opts me" "page_size v = page_size me" "a_tbl v = a_tbl me" "iid (vipc v) = iid (vipc me)"
    using al by (auto simp: alike_def)
  have "VMM_TO_SYS v w = VMM_TO_SYS me w" "csum v = csum me"
    using alike_proc(5) [OF al] meta_pages_cong(2) [OF e(1,2)] by auto
  moreover have "well_formed v ?w" unfolding alike_proc(1) [OF al] by (rule well_formed_debit [OF wf n])
  ultimately show ?thesis using ac id e by (simp add: prepaid_def accounted_def)
qed

lemma touched_prepaid:
  assumes pp: "prepaid (length (filter (\<lambda>f. \<not> charged f) (span b n (flags a))) + k) v w"
    and a: "a \<in> set (a_tbl v)" and t: "mtouched v w a f b n a' w'"
    and small: "csum v (a_tbl v) + (length (filter (\<lambda>f. \<not> charged f) (span b n (flags a))) + k) \<le> nsum v (a_tbl v)"
  shows "prepaid k (with_ate a' v) w'"
proof -
  let ?j = "length (filter (\<lambda>f. \<not> charged f) (span b n (flags a)))"
  have wf: "well_formed v w" using pp by (simp add: prepaid_def)
  then have sz: "sized v w" by (simp add: well_formed_def)
  have sp: "same_place a a'" and w': "w' = with_sys (sys w') w" using t by (auto simp: mtouched_def)
  have sh: "wf_shm (vipc v) w'" "sc_page w' = sc_page w" "c_mem w' = c_mem w" "d_mem w' = d_mem w"
    "VMM_TO_SYS v w' k = VMM_TO_SYS v w k" for k
    using wf by (subst w'; simp add: well_formed_def)+
  have wf': "well_formed (with_ate a' v) w'"
    using t by (auto simp: mtouched_def intro!: well_formed_put [OF wf a sp] sh)
  have d: "distinct (map addr (a_tbl v))" using wf by (simp add: well_formed_def)
  have cd: "c_pages a' = c_pages a + ?j" "d_pages a' = d_pages a" using t by (auto simp: mtouched_def)
  have c: "csum v (put_ate a' (a_tbl v)) = csum v (a_tbl v) + ?j" and "dsum (put_ate a' (a_tbl v)) = dsum (a_tbl v)"
    using sums_put [OF d a sp] cd by linarith+
  moreover have "VMM_TO_SYS v w (csum v (a_tbl v) + ?j) + VMM_TO_SYS v w k = VMM_TO_SYS v w (csum v (a_tbl v)) + VMM_TO_SYS v w (?j + k)"
    using small by (simp add: TO_SYS_exact [OF sz] add_mult_distrib)
  ultimately show ?thesis using wf' pp by (simp add: prepaid_def sh)
qed

lemma prepaid_0: "prepaid 0 v w \<longleftrightarrow> proc_ok v w"
  by (simp add: prepaid_def proc_ok_def accounted_def VMM_TO_SYS_def [of _ _ 0] mulw_def)

lemma uncharged_room:
  assumes wf: "well_formed v w" and a: "a \<in> set (a_tbl v)" and rng: "b + n \<le> n_pages a"
  shows "csum v (a_tbl v) + length (filter (\<lambda>f. \<not> charged f) (span b n (flags a))) \<le> nsum v (a_tbl v)"
proof -
  note ca = well_formed_counts [OF wf a]
  have d: "distinct (map addr (a_tbl v))" using wf by (simp add: well_formed_def)
  let ?k = "length (filter (\<lambda>f. \<not> charged f) (span b n (flags a)))" and ?a = "a\<lparr>c_pages := n_pages a\<rparr>"
  have sp: "same_place a ?a" by (simp add: same_place_def)
  have "?k \<le> length (filter (\<lambda>f. \<not> charged f) (flags a))"
    using filter_span_split [of b n "flags a" "\<lambda>f. \<not> charged f"] rng ca(1) by simp
  then have "c_pages a + ?k \<le> n_pages a" using sum_length_filter_compl [of charged "flags a"] ca(1,2) by simp
  moreover have "csum v (put_ate ?a (a_tbl v)) \<le> nsum v (put_ate ?a (a_tbl v))"
    by (rule sums_le) (auto dest!: set_put_ate intro: well_formed_counts(3,5) [OF wf] well_formed_counts(5) [OF wf a])
  ultimately show ?thesis using sums_put(1,3) [OF d a sp] by simp
qed

lemma page_cong:
  "page_size v' = page_size v \<Longrightarrow> beg_page v' a x = beg_page v a x"
  "page_size v' = page_size v \<Longrightarrow> end_page v' a x len = end_page v a x len"
  "page_size v' = page_size v \<Longrightarrow> in_range v' a x len = in_range v a x len"
  by (simp_all add: beg_page_def end_page_def in_range_def)

lemma names_put: "a \<in> set (a_tbl v) \<Longrightarrow> addr a' = addr a \<Longrightarrow> names (with_ate a' v) = names v"
proof -
  assume a: "a \<in> set (a_tbl v)" "addr a' = addr a"
  have "map (vmm_fname v) (put_ate a' (a_tbl v)) = map (vmm_fname v) (a_tbl v)"
    by (rule map_put_ate) (simp add: vmm_fname_def)
  then have "vmm_fname v ` set (put_ate a' (a_tbl v)) = vmm_fname v ` set (a_tbl v)" by (metis list.set_map)
  then show ?thesis by (simp add: names_def)
qed

lemma mem_put: "a \<in> set (a_tbl v) \<Longrightarrow> addr a' = addr a \<Longrightarrow> a' \<in> set (put_ate a' (a_tbl v))"
  by (force simp: put_ate_def)

lemma intact_put:
  assumes d: "distinct (map addr (a_tbl v))" and a: "a \<in> set (a_tbl v)" and sp: "same_place a a'"
    and st: "stored v w a f" and new: "stored v w' a' f'" "kept (page_size v) f a f' a'"
    and oth: "\<And>b. b \<in> set (a_tbl v) \<Longrightarrow> addr b \<noteq> addr a \<Longrightarrow> files (sys w') (vmm_fname v b) = files (sys w) (vmm_fname v b)"
    and al: "alike (with_ate a' v) v'"
  shows "intact v w v' w'"
  unfolding intact_def
proof (intro conjI ballI)
  have e: "page_size v' = page_size v" "a_tbl v' = put_ate a' (a_tbl v)" "vmm_fname v' = vmm_fname v"
    using al by (simp_all add: alike_def with_ate_def vmm_fname_def fun_eq_iff)
  then have stc: "stored v' = stored v" by (simp add: stored_def fun_eq_iff)
  show "page_size v' = page_size v" by (rule e)
  have ad: "addr a' = addr a" using sp by (simp add: same_place_def)
  fix b
  assume b: "b \<in> set (a_tbl v)"
  show "\<exists>b'\<in>set (a_tbl v'). same_place b b' \<and>
      (\<forall>g. stored v w b g \<longrightarrow> (\<exists>g'. stored v' w' b' g' \<and> kept (page_size v) g b g' b'))"
  proof (cases "addr b = addr a")
    case True
    then have "b = a" using d a b by (auto simp: distinct_map dest: inj_onD)
    then show ?thesis
      using mem_put [OF a ad] sp new stored_unique [OF st] unfolding e(2) stc by blast
  next
    case False
    then have "b \<in> set (put_ate a' (a_tbl v))" using b ad by (force simp: put_ate_def)
    moreover have "stored v w' b g" if "stored v w b g" for g using that oth [OF b False] by (simp add: stored_def)
    ultimately show ?thesis unfolding e(2) stc by (meson kept_refl same_place_refl)
  qed
qed

text \<open>The result of a successful touch.\<close>

definition touch_post ::
  "vmm \<Rightarrow> 'a world_scheme \<Rightarrow> ate \<Rightarrow> byte list \<Rightarrow> nat \<Rightarrow> nat \<Rightarrow> vmm \<Rightarrow> 'a world_scheme \<Rightarrow> bool" where
  "touch_post me w a f b n me' w' \<longleftrightarrow> company me' w' \<and> since me w me' w' \<and> total w' = total w \<and> inter_mtx w' = inter_mtx w \<and>
     (\<exists>a'. alike (with_ate a' me) me' \<and> same_place a a' \<and> stored me' w' a' f \<and> kept (page_size me) f a f a' \<and>
        (\<forall>q. b \<le> q \<and> q < b + n \<longrightarrow> resident (flags a' ! q)) \<and>
        (\<forall>q < n_pages a. resident (flags a ! q) \<longrightarrow> resident (flags a' ! q)) \<and>
        (\<forall>q < n_pages a. \<not> (b \<le> q \<and> q < b + n) \<longrightarrow> flags a' ! q = flags a ! q))"

lemma touch_postI:
  assumes h: "held me w w1" and al: "alike me v" and a: "a \<in> set (a_tbl me)" and st: "stored me w a f"
    and t: "mtouched v (debit (iid (vipc me)) c w1) a f b n a' w'" and ok: "proc_ok (with_ate a' v) w'"
    and tot: "total w1 = total w" "inter_mtx w1 = inter_mtx w" "c \<le> s_mem w1"
    and al': "alike (with_ate a' v) me'"
  shows "touch_post me w a f b n me' w'"
proof -
  let ?w2 = "debit (iid (vipc me)) c w1"
  have co: "company me w1" and s1: "since me w me w1" and fi: "\<forall>g\<in>names me. files (sys w1) g = files (sys w) g"
    using h by (auto simp: held_def)
  have e: "opts v = opts me" "page_size v = page_size me" "a_tbl v = a_tbl me" "iid (vipc v) = iid (vipc me)"
    "n_procs (vipc v) = n_procs (vipc me)" "vmm_fname v = vmm_fname me"
    using al by (auto simp: alike_def vmm_fname_def fun_eq_iff)
  have stv: "stored v w' = stored me w'" using e by (simp add: stored_def fun_eq_iff)
  have w': "w' = with_sys (sys w') ?w2" "same_place a a'" "quiet w'" "files (sys w') = files (sys w1)"
    "stored v w' a' f" "kept (page_size v) f a f a'" using t by (auto simp: mtouched_def)
  have id: "iid (vipc me) < length (c_mem w1)"
    using company_self [OF co] by (simp add: proc_ok_def well_formed_def wf_shm_def in_shm_def)
  have fr: "frame w1 w'" "inter_mtx w' = inter_mtx w1" using id tot(3) by (subst w'(1); simp add: frame_def)+
  have cd: "c_mem w' ! j = c_mem w1 ! j \<and> d_mem w' ! j = d_mem w1 ! j" if "j \<noteq> iid (vipc me)" for j
    using that by (subst (1 2) w'(1)) simp
  have alm: "alike (with_ate a' me) me'" using al al' by (simp add: alike_def with_ate_def)
  have d: "distinct (map addr (a_tbl me))" using company_self [OF co] by (simp add: proc_ok_def well_formed_def)
  have "stored me w1 a f" using st fi a by (auto simp: stored_def names_def)
  then have it: "intact me w1 me' w'"
    by (rule intact_put [OF d a w'(2)]) (use w'(4-6) alm stv e in auto)
  have em: "iid (vipc me') = iid (vipc me)" "n_procs (vipc me') = n_procs (vipc me)"
    using alm by (auto simp: alike_def)
  have "names me' = names (with_ate a' me)" by (rule alike_names [OF alm])
  also have "\<dots> = names me" using a w'(2) by (intro names_put) (auto simp: same_place_def)
  finally have nm: "names me' = names me" .
  have okm: "proc_ok me' w'" using ok by (simp add: alike_proc(2) [OF al'])
  have co': "company me' w'" and "since me w1 me' w'"
    by (rule company_step [OF co okm w'(3) fr(1) em cd nm _ it]; use w'(4) in simp)+
  then have "since me w me' w'"
    using co by (intro since_trans [OF s1]) (auto simp: company_def obliging_def)
  moreover have "stored me' w' a' f" using w'(5) unfolding alike_proc(4) [OF al'] by (simp add: stored_def)
  moreover have "total w' = total w" "inter_mtx w' = inter_mtx w" using fr tot by (auto simp: frame_def)
  moreover have "(\<forall>q. b \<le> q \<and> q < b + n \<longrightarrow> resident (flags a' ! q)) \<and>
      (\<forall>q < n_pages a. resident (flags a ! q) \<longrightarrow> resident (flags a' ! q)) \<and>
      (\<forall>q < n_pages a. \<not> (b \<le> q \<and> q < b + n) \<longrightarrow> flags a' ! q = flags a ! q)"
    using t unfolding mtouched_def by blast
  ultimately show ?thesis
    using co' alm w'(2,6) e(2) unfolding touch_post_def by auto
qed

lemma mtouch_entry_ok:
  assumes co: "company me w" and pv: "plain me" and m: "0 < inter_mtx w" and a: "a \<in> set (a_tbl me)"
    and st: "stored me w a f" and rng: "in_range me a x len"
    and b: "b = beg_page me a x" and n: "n = end_page me a x len - b"
    and k: "k = length (filter (\<lambda>f. \<not> charged f) (span b n (flags a)))"
    and en: "VMM_TO_SYS me w k \<le> s_mem w + releasable (vipc me) w"
  shows "\<exists>me' w'. mtouch_entry me w a x len = Some (int (VMM_TO_SYS me w k), me', w') \<and> touch_post me w a f b n me' w'"
proof -
  have wf: "well_formed me w" using company_self [OF co] by (simp add: proc_ok_def)
  note e = well_formed_entry [OF wf a]
  have pr: "sbma_mtouch_probe me w a x len = Some (int (VMM_TO_SYS me w k))"
    using mtouch_probe_ok [OF e(6) st pv e(4) rng] by (simp add: b n k)
  obtain v w1 where ad: "admit me w (VMM_TO_SYS me w k) = Some (0, v, debit (iid (vipc me)) (VMM_TO_SYS me w k) w1)"
    and al: "alike me v" and h: "held me w w1" and w1: "VMM_TO_SYS me w k \<le> s_mem w1" "total w1 = total w" "inter_mtx w1 = inter_mtx w"
    using admit_ok [OF co m en] by blast
  let ?w2 = "debit (iid (vipc me)) (VMM_TO_SYS me w k) w1"
  have ts: "VMM_TO_SYS me w1 k = VMM_TO_SYS me w k" using h by (simp add: held_def since_def VMM_TO_SYS_def)
  have ok1: "proc_ok me w1" using h by (simp add: held_def company_self)
  have pp: "prepaid k v ?w2" using prepaid_debit [OF ok1 _ al, of k] w1(1) by (simp add: ts)
  have ev: "page_size v = page_size me" "a_tbl v = a_tbl me" "opts v = opts me" using al by (auto simp: alike_def)
  have wf2: "well_formed v ?w2" using pp by (simp add: prepaid_def)
  have a2: "a \<in> set (a_tbl v)" using a ev by simp
  have "stored me w1 a f" using st h a by (auto simp: held_def stored_def names_def)
  then have st2: "stored v ?w2 a f" unfolding debit_simps alike_proc(4) [OF al] .
  have q2: "quiet ?w2" using h by (simp add: held_def company_def)
  have pv2: "plain v" using pv ev by (simp add: plain_def)
  note e2 = well_formed_entry [OF wf2 a2]
  note pc = page_cong [OF ev(1)]
  obtain r a' w3 where i: "sbma_mtouch_int v ?w2 a x len = Some (int r, a', w3)" and t: "mtouched v ?w2 a f b n a' w3"
    using mtouch_int_ok [OF e2(6) q2 e2(2) st2 pv2 e2(7,4), of x len] rng unfolding pc b n by blast
  have "b + n \<le> n_pages a" using range_pages [OF rng e(4,5)] by (simp add: b n)
  then have "prepaid 0 (with_ate a' v) w3"
    by (intro touched_prepaid [OF _ a2 t]) (use pp uncharged_room [OF wf2 a2] in \<open>simp_all add: k\<close>)
  then have ok3: "proc_ok (with_ate a' v) w3" by (simp add: prepaid_0)
  let ?me = "(with_ate a' v)\<lparr>numrd := addw (numrd v) (as_size (int r))\<rparr>"
  have "touch_post me w a f b n ?me w3"
    using touch_postI [OF h al a st t ok3 w1(2,3,1)] alike_counters(2) by blast
  moreover have "mtouch_entry me w a x len = Some (int (VMM_TO_SYS me w k), ?me, w3)"
    using ad i ok3 e(6) by (simp add: mtouch_entry_def pr) (simp add: with_ate_def)
  ultimately show ?thesis by blast
qed

lemma ate_at_mem:
  assumes "distinct (map addr (a_tbl v))" and "a \<in> set (a_tbl v)"
  shows "ate_at v (addr a) = Some a"
  unfolding ate_at_def using assms by (intro find_eq_unique) (auto simp: distinct_map dest: inj_onD)

lemma mtouch_ok:
  assumes co: "company me w" and pv: "plain me" and m: "0 < inter_mtx w"
    and l: "p = None \<and> mmu_lookup (page_size me) (a_tbl me) x = Some a \<or> p = Some (addr a) \<and> a \<in> set (a_tbl me)"
    and st: "stored me w a f" and rng: "in_range me a x len"
    and b: "b = beg_page me a x" and n: "n = end_page me a x len - b"
    and k: "k = length (filter (\<lambda>f. \<not> charged f) (span b n (flags a)))"
    and en: "VMM_TO_SYS me w k \<le> s_mem w + releasable (vipc me) w"
  shows "\<exists>me' w'. sbma_mtouch me w p x len = Some (int (VMM_TO_SYS me w k), me', w') \<and> touch_post me w a f b n me' w'"
proof -
  have a: "a \<in> set (a_tbl me)" using l mmu_lookup_SomeD by blast
  have ok: "proc_ok me w" by (rule company_self [OF co])
  have "distinct (map addr (a_tbl me))" using ok by (simp add: proc_ok_def well_formed_def)
  then have "ate_at me (addr a) = Some a" by (rule ate_at_mem [OF _ a])
  then have "sbma_mtouch me w p x len = mtouch_entry me w a x len"
    using l ok by (auto simp: sbma_mtouch_def)
  then show ?thesis using mtouch_entry_ok [OF co pv m a st rng b n k en] by simp
qed

subsection \<open>Enough memory\<close>

lemma sys_bound:
  assumes "well_formed v w" and "n \<le> nsum v (a_tbl v)"
  shows "VMM_TO_SYS v w n < 2147483647" and "VMM_TO_SYS v w n \<le> VMM_TO_SYS v w (nsum v (a_tbl v))"
proof -
  have sz: "sized v w" using assms(1) by (simp add: well_formed_def)
  show m: "VMM_TO_SYS v w n \<le> VMM_TO_SYS v w (nsum v (a_tbl v))"
    using assms(2) by (simp add: TO_SYS_exact [OF sz])
  have "VMM_TO_SYS v w (nsum v (a_tbl v)) < 2147483647" using sz by (simp add: TO_SYS_exact [OF sz]) (simp add: sized_def)
  with m show "VMM_TO_SYS v w n < 2147483647" by linarith
qed

text \<open>The pages a process can get are all that it does not have.\<close>

lemma obtainable:
  assumes co: "company me w"
  shows "s_mem w + releasable (vipc me) w + c_mem w ! iid (vipc me) = total w"
proof -
  let ?n = "n_procs (vipc me)" and ?i = "iid (vipc me)"
  have n: "length (c_mem w) = ?n" "?i < ?n" using co by (simp_all add: company_def)
  have el: "ipc_is_eligible w j \<noteq> 0" if j: "j < ?n" "0 < c_mem w ! j" for j
  proof -
    obtain v where "obliging me w j v" using co j(1) unfolding company_def by blast
    then have "proc_ok v w" "iid (vipc v) = j" by (auto simp: obliging_def)
    then have "c_mem w ! j < 2147483647"
      using sys_bound(1) [of v w "csum v (a_tbl v)"] well_formed_sums(1) [of v w] by (auto simp: proc_ok_def accounted_def)
    then show ?thesis using j(2) by (simp add: eligible_iff)
  qed
  have "sum_list (c_mem w) = (\<Sum>j<?n. c_mem w ! j)" using n(1) by (simp add: sum_list_sum_nth atLeast0LessThan)
  also have "\<dots> = (\<Sum>j\<in>{..<?n} - {?i}. c_mem w ! j) + c_mem w ! ?i" using n(2) by (simp add: sum.remove [of _ ?i])
  also have "(\<Sum>j\<in>{..<?n} - {?i}. c_mem w ! j) = releasable (vipc me) w"
    unfolding releasable_def by (rule sum.mono_neutral_right) (auto simp: can_release_def el)
  finally show ?thesis by (simp add: total_def)
qed

definition fits :: "vmm \<Rightarrow> 'a world_scheme \<Rightarrow> bool" where
  "fits v w \<longleftrightarrow> VMM_TO_SYS v w (nsum v (a_tbl v)) \<le> total w"

lemma enough:
  assumes co: "company me w" and f: "fits me w" and k: "csum me (a_tbl me) + k \<le> nsum me (a_tbl me)"
  shows "VMM_TO_SYS me w k \<le> s_mem w + releasable (vipc me) w"
proof -
  have ok: "proc_ok me w" by (rule company_self [OF co])
  then have wf: "well_formed me w" and sz: "sized me w" by (simp_all add: proc_ok_def well_formed_def)
  have "VMM_TO_SYS me w (csum me (a_tbl me)) + VMM_TO_SYS me w k \<le> total w"
    using sys_bound(2) [OF wf k] f k by (simp add: fits_def TO_SYS_exact [OF sz] add_mult_distrib)
  then show ?thesis using obtainable [OF co] ok by (simp add: proc_ok_def accounted_def)
qed

subsection \<open>Faults\<close>

lemma lookup_page:
  assumes wf: "well_formed v w" and l: "mmu_lookup (page_size v) (a_tbl v) x = Some a"
  shows "a \<in> set (a_tbl v)" "base a \<le> x" "x < region_end (page_size v) a" "subw x (base a) = x - base a"
    "(x - base a) div page_size v < n_pages a"
proof -
  show a: "a \<in> set (a_tbl v)" using mmu_lookup_SomeD [OF l] by simp
  note e = well_formed_entry [OF wf a]
  have c: "contains (page_size v) a x" using mmu_lookup_SomeD [OF l] by simp
  then show x: "base a \<le> x" "x < region_end (page_size v) a" using contains_iff [OF e(4)] by auto
  then show "subw x (base a) = x - base a" using e(4) by (intro subw_exact) auto
  show "(x - base a) div page_size v < n_pages a"
    using x e(5) by (simp add: region_end_def div_less_iff_less_mult)
qed

lemma page_range:
  assumes wf: "well_formed v w" and a: "a \<in> set (a_tbl v)" and p: "p < n_pages a"
  shows "addw (base a) (mulw p (page_size v)) = base a + p * page_size v"
    and "in_range v a (base a + p * page_size v) (page_size v)"
    and "beg_page v a (base a + p * page_size v) = p"
    and "end_page v a (base a + p * page_size v) (page_size v) = Suc p"
proof -
  let ?ps = "page_size v"
  note e = well_formed_entry [OF wf a]
  have "Suc p * ?ps \<le> n_pages a * ?ps" using p by (intro mult_le_mono1) simp
  then have r: "base a + p * ?ps + ?ps \<le> region_end ?ps a" by (simp add: region_end_def)
  then have "mulw p ?ps = p * ?ps" using e(4,5) by (intro mulw_exact) linarith
  then show "addw (base a) (mulw p ?ps) = base a + p * ?ps" using r e(4) by (simp add: addw_exact)
  show ir: "in_range v a (base a + p * ?ps) ?ps" using r e(5) by (simp add: in_range_def)
  show "beg_page v a (base a + p * ?ps) = p" using range_pages(1) [OF ir e(4,5)] e(5) by simp
  have "(base a + p * ?ps + ?ps - base a - 1) div ?ps = p"
    using e(5) by (intro div_nat_eqI) (auto simp: algebra_simps)
  then show "end_page v a (base a + p * ?ps) ?ps = Suc p" by (simp only: range_pages(2) [OF ir e(4,5)])
qed

lemma int_of_exact: "n < 2147483647 \<Longrightarrow> int_of (int n) \<noteq> -1"
  by (simp add: int_of_def)

lemma touch_post_alike:
  assumes tp: "touch_post me w a f b n me' w'" and al: "alike me' me''"
  shows "touch_post me w a f b n me'' w'"
proof -
  have co: "company me' w'" and si: "since me w me' w'" using tp by (auto simp: touch_post_def)
  note al' = company_alike [OF co al]
  have "n_procs (vipc me') = n_procs (vipc me)" "iid (vipc me') = iid (vipc me)"
    using tp by (auto simp: touch_post_def alike_def)
  then have "since me w me'' w'"
    using co by (intro since_trans [OF si al'(2)]) (auto simp: company_def obliging_def)
  moreover have "alike (with_ate a' me) me''" if "alike (with_ate a' me) me'" for a'
    using that al by (simp add: alike_def)
  ultimately show ?thesis using tp al'(1) unfolding touch_post_def alike_proc(4) [OF al] by blast
qed

lemma sigsegv_read_ok:
  assumes co: "company me w" and pv: "plain me" and m: "0 < inter_mtx w" and fi: "fits me w"
    and l: "mmu_lookup (page_size me) (a_tbl me) x = Some a" and st: "stored me w a f"
    and ip: "ip = (x - base a) div page_size me" and nr: "\<not> resident (flags a ! ip)"
  shows "\<exists>b n me' w'. vmm_sigsegv me w x = Some (me', w') \<and> touch_post me w a f b n me' w' \<and> b \<le> ip \<and> ip < b + n"
proof -
  have wf: "well_formed me w" using company_self [OF co] by (simp add: proc_ok_def)
  note lp = lookup_page [OF wf l]
  note e = well_formed_entry [OF wf lp(1)]
  have ipn: "ip < n_pages a" using lp(5) ip by simp
  have fl: "flag_at a ip = Some (flags a ! ip)" using ipn well_formed_counts(1) [OF wf lp(1)] by simp
  define y len where "y = (if has (opts me) VMM_LZYRD then base a + ip * page_size me else base a)"
    and "len = (if has (opts me) VMM_LZYRD then page_size me else mulw (n_pages a) (page_size me))"
  define b n where "b = beg_page me a y" and "n = end_page me a y len - b"
  note pr = page_range [OF wf lp(1) ipn] and wr = whole_range [OF e(1,5,4)]
  have rng: "in_range me a y len" using pr(2) wr(1) by (simp add: y_def len_def)
  have bi: "b \<le> ip" "ip < b + n" using pr(3,4) wr(2,3) ipn by (auto simp: b_def n_def y_def len_def)
  have bn: "b + n \<le> n_pages a" using range_pages(3,4) [OF rng e(4,5)] by (simp add: b_def n_def)
  let ?k = "length (filter (\<lambda>f. \<not> charged f) (span b n (flags a)))"
  note room = uncharged_room [OF wf lp(1) bn]
  obtain me' w' where t: "sbma_mtouch me w (Some (addr a)) y len = Some (int (VMM_TO_SYS me w ?k), me', w')"
    and tp: "touch_post me w a f b n me' w'"
    using mtouch_ok [OF co pv m _ st rng b_def n_def refl enough [OF co fi room], of "Some (addr a)"] lp(1) by blast
  have "VMM_TO_SYS me w ?k < 2147483647" using room by (intro sys_bound(1) [OF wf]) simp
  then have ret: "int_of (int (VMM_TO_SYS me w ?k)) \<noteq> -1" by (rule int_of_exact)
  have ip': "subw x (base a) div page_size me = ip" using ip lp(4) by simp
  have "vmm_sigsegv me w x = Some (me'\<lparr>numrf := addw (numrf me') 1\<rparr>, w')"
  proof (cases "has (opts me) VMM_LZYRD")
    case True
    then have "y = base a + ip * page_size me" "len = page_size me" by (simp_all add: y_def len_def)
    with True show ?thesis using t ret by (simp add: vmm_sigsegv_def l ip' fl nr pr(1))
  next
    case False
    then have "y = base a" "len = mulw (n_pages a) (page_size me)" by (simp_all add: y_def len_def)
    with False show ?thesis using t ret by (simp add: vmm_sigsegv_def l ip' fl nr)
  qed
  moreover have "touch_post me w a f b n (me'\<lparr>numrf := addw (numrf me') 1\<rparr>) w'"
    by (rule touch_post_alike [OF tp]) (simp add: alike_def)
  ultimately show ?thesis using bi by blast
qed

definition dirtied :: "nat \<Rightarrow> ate \<Rightarrow> ate" where
  "dirtied ip a = (set_prot ip 1 PROT_RW (set_flag a ip MMU_DIRTY))\<lparr>d_pages := d_pages a + 1\<rparr>"

lemma dirtied_simps [simp]:
  "flags (dirtied ip a) = (flags a)[ip := MMU_DIRTY]" "d_pages (dirtied ip a) = d_pages a + 1" "c_pages (dirtied ip a) = c_pages a"
  "l_pages (dirtied ip a) = l_pages a" "n_pages (dirtied ip a) = n_pages a" "base (dirtied ip a) = base a"
  "addr (dirtied ip a) = addr a" "data (dirtied ip a) = data a" "prots (dirtied ip a) = map_range ip 1 (\<lambda>_. PROT_RW) (prots a)"
  by (simp_all add: dirtied_def set_prot_def)

lemma dirtied_ok:
  assumes sd: "sound ps f a" and ip: "ip < n_pages a" and r: "resident (flags a ! ip)" "\<not> dirty (flags a ! ip)"
    and lean: "lean a"
  shows "sound ps f (dirtied ip a)" "kept ps f a f (dirtied ip a)" "lean (dirtied ip a)"
proof -
  have len: "length (flags a) = n_pages a" by (rule sound_counts [OF sd])
  have i: "ip < length (flags a)" using ip len by simp
  have wf: "counts_ok 0 a" "prots a = map prot_of (flags a)" "pages_ok a"
    using sd by (simp_all add: sound_def wf_ate_def prots_ok_def)
  have ch: "charged (flags a ! ip)" using pages_ok_nth [OF wf(3) i] r by (simp add: page_ok_def)
  have "counts_ok 0 (set_flag (a\<lparr>l_pages := l_pages a, c_pages := c_pages a, d_pages := d_pages a + 1\<rparr>) ip MMU_DIRTY)"
    by (rule counts_ok_step [OF wf(1) i]) (use r ch in auto)
  then have "counts_ok 0 (dirtied ip a)" by (simp add: counts_ok_def)
  moreover have "prots (dirtied ip a) = map prot_of ((flags a)[ip := MMU_DIRTY])"
    using wf(2) by (intro nth_equalityI) (auto simp: nth_list_update prot_of_def)
  moreover have "pages_ok (dirtied ip a)"
    using wf(3) i by (auto simp: pages_ok_def list_all_length nth_list_update page_ok_def)
  ultimately have "wf_ate (dirtied ip a)" by (simp add: wf_ate_def prots_ok_def)
  moreover have "filed ps f (dirtied ip a)" "zeroed ps (dirtied ip a)"
    using sd r i by (auto simp: sound_def filed_def zeroed_def nth_list_update split: if_splits)
  ultimately show "sound ps f (dirtied ip a)" by (simp add: sound_def)
  show "kept ps f a f (dirtied ip a)"
    using r i len by (auto simp: kept_def holds_def nth_list_update Let_def)
  show "lean (dirtied ip a)" using lean i by (auto simp: lean_def list_all_length nth_list_update)
qed

lemma sigsegv_write_ok:
  assumes co: "company me w"
    and l: "mmu_lookup (page_size me) (a_tbl me) x = Some a" and st: "stored me w a f"
    and ip: "ip = (x - base a) div page_size me" and r: "resident (flags a ! ip)" "\<not> dirty (flags a ! ip)"
  shows "\<exists>me' w'. vmm_sigsegv me w x = Some (me', w') \<and> company me' w' \<and> since me w me' w' \<and>
           total w' = total w \<and> inter_mtx w' = inter_mtx w \<and> alike (with_ate (dirtied ip a) me) me' \<and>
           stored me' w' (dirtied ip a) f \<and> kept (page_size me) f a f (dirtied ip a)"
proof -
  let ?i = "iid (vipc me)" and ?a = "dirtied ip a" and ?ps = "page_size me"
  have ok: "proc_ok me w" by (rule company_self [OF co])
  then have wf: "well_formed me w" and ac: "accounted me w" by (auto simp: proc_ok_def)
  note lp = lookup_page [OF wf l]
  note e = well_formed_entry [OF wf lp(1)]
  have ipn: "ip < n_pages a" using lp(5) ip by simp
  have sd: "sound ?ps f a" using st by (simp add: stored_def)
  note dk = dirtied_ok [OF sd ipn r e(2)]
  have fl: "flag_at a ip = Some (flags a ! ip)" using ipn well_formed_counts(1) [OF wf lp(1)] by simp
  have q: "quiet w" using co by (simp add: company_def)
  have id: "?i < length (c_mem w)" "?i < length (d_mem w)" "in_shm (vipc me) w"
    using wf by (auto simp: well_formed_def wf_shm_def in_shm_def)
  have sp: "same_place a ?a" by (simp add: same_place_def)
  have d: "distinct (map addr (a_tbl me))" using wf by (simp add: well_formed_def)
  note sm = sums_put [OF d lp(1) sp]
  let ?t = "VMM_TO_SYS me w 1"
  let ?w = "w\<lparr>d_mem := (d_mem w)[?i := d_mem w ! ?i + ?t]\<rparr>"
  have st': "stored me ?w ?a f" using st dk(1) by (simp add: stored_def vmm_fname_def)
  have wf': "well_formed (with_ate ?a me) ?w"
    by (rule well_formed_put [OF wf lp(1) sp dk(3) st']) (use wf in \<open>simp_all add: well_formed_def wf_shm_def in_shm_def total_def\<close>)
  have ds: "dsum (put_ate ?a (a_tbl me)) = dsum (a_tbl me) + 1" "csum me (put_ate ?a (a_tbl me)) = csum me (a_tbl me)"
    using sm(1,2) by simp_all
  have le: "dsum (a_tbl me) + 1 \<le> nsum me (a_tbl me)" using well_formed_sums(2) [OF wf'] ds sm(3) by simp
  then have dd: "VMM_TO_SYS me w (dsum (a_tbl me) + 1) = d_mem w ! ?i + ?t"
    using ac TO_SYS_exact [OF e(6)] by (simp add: accounted_def add_mult_distrib)
  have "accounted (with_ate ?a me) ?w"
    using ac dd id ds by (simp add: accounted_def VMM_TO_SYS_def)
  then have ok': "proc_ok (with_ate ?a me) ?w" using wf' by (simp add: proc_ok_def)
  have "d_mem w ! ?i + ?t < SIZE_MOD" using sys_bound(1) [OF wf le] dd by (simp add: SIZE_MOD_def)
  then have "nat ((int (d_mem w ! ?i) + int ?t) mod int SIZE_MOD) = d_mem w ! ?i + ?t"
    by (simp flip: of_nat_add zmod_int)
  then have mdi: "ipc_mdirty (vipc me) (int ?t) w = Some (0, ?w)"
    using id(3) by (auto simp: ipc_mdirty_def)
  have ad: "addw (d_pages a) 1 = d_pages a + 1"
    using sound_counts(5) [OF sd] e(7) by (intro addw_exact) (simp add: SIZE_MOD_def)
  have ip': "subw x (base a) div ?ps = ip" using ip lp(4) by simp
  let ?me = "(with_ate ?a me)\<lparr>numwf := addw (numwf me) 1\<rparr>"
  have al: "alike (with_ate ?a me) ?me" by (simp add: alike_def)
  have "vmm_sigsegv me w x = Some (?me, ?w)"
    using r q e(6)
    by (simp add: vmm_sigsegv_def l ip' fl quiet_def mdi ad with_ate_def dirtied_def del: One_nat_def)
  moreover have it: "intact me w ?me ?w"
    by (rule intact_put [OF d lp(1) sp st st' dk(2) _ al]) simp
  have okm: "proc_ok ?me ?w" unfolding alike_proc(2) [OF al] by (rule ok')
  have nm: "names ?me = names me" using alike_names [OF al] names_put [OF lp(1), of ?a] by simp
  have "company ?me ?w" "since me w ?me ?w"
    by (rule company_step [OF co okm _ _ _ _ _ nm _ it]; use q in \<open>simp add: quiet_def frame_def total_def with_ate_def\<close>)+
  moreover have "stored ?me ?w ?a f" using st' by (simp add: stored_def vmm_fname_def with_ate_def)
  ultimately show ?thesis using al dk(2)
    by (intro exI [of _ ?me] exI [of _ ?w]) (simp add: total_def)
qed

subsection \<open>Loading everything\<close>

definition all_in :: "vmm \<Rightarrow> 'a world_scheme \<Rightarrow> 'a world_scheme \<Rightarrow> ate \<Rightarrow> ate \<Rightarrow> bool" where
  "all_in v w w' a a' \<longleftrightarrow> same_place a a' \<and> lean a' \<and> l_pages a' = n_pages a' \<and> c_pages a' = n_pages a' \<and>
     d_pages a' = d_pages a \<and>
     (\<forall>f. stored v w a f \<longrightarrow> stored v w' a' f \<and> kept (page_size v) f a f a')"

definition touched_all :: "vmm \<Rightarrow> 'a world_scheme \<Rightarrow> ate list \<Rightarrow> ate list \<Rightarrow> 'a world_scheme \<Rightarrow> bool" where
  "touched_all v w tbl tbl' w' \<longleftrightarrow> quiet w' \<and> w' = with_sys (sys w') w \<and> files (sys w') = files (sys w) \<and>
     list_all2 (all_in v w w') tbl tbl'"

lemma mtouch_int_all:
  assumes sz: "sized v w" and q: "quiet w" and e: "entry_ok v w a" and pv: "plain v"
    and re: "region_end (page_size v) a < SIZE_MOD" and small: "n_pages a < 2147483648"
  shows "\<exists>r a' w'. sbma_mtouch_int v w a (base a) (mulw (n_pages a) (page_size v)) = Some (int r, a', w') \<and>
           all_in v w w' a a' \<and> quiet w' \<and> w' = with_sys (sys w') w \<and> files (sys w') = files (sys w)"
proof -
  have ps: "0 < page_size v" "0 < n_pages a" using sz e by (auto simp: sized_def entry_ok_def)
  obtain f where f: "stored v w a f" "lean a" using e by (auto simp: entry_ok_def)
  note wr = whole_range [OF ps(2,1) re]
  note ca = sound_counts [of "page_size v" f a]
  have cnt: "span 0 (n_pages a) (flags a) = flags a" "length (flags a) = n_pages a" "c_pages a = length (filter charged (flags a))"
    using ca f by (auto simp: stored_def span_def)
  obtain r a' w' where i: "sbma_mtouch_int v w a (base a) (mulw (n_pages a) (page_size v)) = Some (int r, a', w')"
    and t: "mtouched v w a f 0 (n_pages a) a' w'"
    using mtouch_int_ok [OF sz q f(2,1) pv small re wr(1)] wr(2,3) by auto
  have sd: "sound (page_size v) f a'" and n: "n_pages a' = n_pages a" using t by (auto simp: mtouched_def stored_def same_place_def)
  have "c_pages a' = n_pages a'"
    using t cnt n sum_length_filter_compl [of charged "flags a"] by (simp add: mtouched_def)
  moreover have "\<forall>q < n_pages a. resident (flags a' ! q)" using t by (simp add: mtouched_def)
  then have "filter resident (flags a') = flags a'"
    using sound_counts(1) [OF sd] n by (auto simp: filter_id_conv in_set_conv_nth)
  then have "l_pages a' = n_pages a'" using sound_counts(1,6) [OF sd] by simp
  moreover have "same_place a a'" "lean a'" "d_pages a' = d_pages a" "stored v w' a' f" "kept (page_size v) f a f a'"
    "quiet w'" "w' = with_sys (sys w') w" "files (sys w') = files (sys w)"
    using t unfolding mtouched_def by blast+
  ultimately show ?thesis using i stored_unique [OF f(1)] unfolding all_in_def by blast
qed

lemma all_in_cong:
  assumes "all_in v w w' a a'" and "files (sys w0) = files (sys w)" and "files (sys w1) = files (sys w')"
  shows "all_in v w0 w1 a a'"
  using assms by (simp add: all_in_def stored_def)

lemma touched_all_Cons:
  assumes e: "all_in v w w1 a a'" and w1: "w1 = with_sys (sys w1) w" and fr: "files (sys w1) = files (sys w)"
    and all: "touched_all v w1 tbl tbl' w'"
  shows "touched_all v w (a # tbl) (a' # tbl') w'"
proof -
  have w': "w' = with_sys (sys w') w1" "files (sys w') = files (sys w1)" "quiet w'" "list_all2 (all_in v w1 w') tbl tbl'"
    using all unfolding touched_all_def by blast+
  have "all_in v w w' a a'" by (rule all_in_cong [OF e refl w'(2)])
  moreover have "list_all2 (all_in v w w') tbl tbl'"
    using w'(4) by (rule list.rel_mono_strong) (use all_in_cong [OF _ fr [symmetric] refl] in blast)
  moreover have "w' = with_sys (sys w') w" by (subst w'(1), subst w1) simp
  ultimately show ?thesis unfolding touched_all_def using w'(2,3) fr by simp
qed

lemma mtouchall_loop_ok:
  assumes "sized v w" and "quiet w" and "plain v" and "list_all (entry_ok v w) tbl"
    and "list_all (\<lambda>a. region_end (page_size v) a < SIZE_MOD \<and> n_pages a < 2147483648) tbl"
  shows "\<exists>tbl' w' rd'. mtouchall_loop v w tbl rd = Some (True, tbl', w', rd') \<and> touched_all v w tbl tbl' w'"
  using assms
proof (induction tbl arbitrary: w rd)
  case Nil
  then show ?case by (simp add: touched_all_def)
next
  case (Cons a tbl)
  obtain r a' w1 where i: "sbma_mtouch_int v w a (base a) (mulw (n_pages a) (page_size v)) = Some (int r, a', w1)"
    and e: "all_in v w w1 a a'" and q: "quiet w1" and w1: "w1 = with_sys (sys w1) w" and fr: "files (sys w1) = files (sys w)"
    using mtouch_int_all [of v w a] Cons.prems by auto
  have sz: "sized v w1" using Cons.prems(1) by (subst w1) simp
  have "list_all (entry_ok v w1) tbl" using Cons.prems(4) fr by (simp add: list_all_iff entry_ok_def stored_def)
  from Cons.IH [OF sz q Cons.prems(3) this, of "addw rd (as_size (int r))"] Cons.prems(5)
  obtain tbl' w' rd' where l: "mtouchall_loop v w1 tbl (addw rd (as_size (int r))) = Some (True, tbl', w', rd')"
    "touched_all v w1 tbl tbl' w'" by auto
  have "touched_all v w (a # tbl) (a' # tbl') w'" by (rule touched_all_Cons [OF e w1 fr l(2)])
  with e l(1) show ?case by (simp add: i all_in_def)
qed

text \<open>The pages that are not charged yet.\<close>

definition usum :: "ate list \<Rightarrow> nat" where
  "usum tbl = sum_list (map (\<lambda>a. n_pages a - c_pages a) tbl)"

lemma usum_csum:
  assumes "\<And>a. a \<in> set tbl \<Longrightarrow> c_pages a \<le> n_pages a"
  shows "csum v tbl + usum tbl = nsum v tbl"
  using assms
proof (induction tbl)
  case (Cons a tbl)
  have "c_pages a \<le> n_pages a" using Cons.prems [of a] by simp
  moreover have "csum v tbl + usum tbl = nsum v tbl" using Cons by simp
  moreover have "csum v (a # tbl) = meta_pages v a + c_pages a + csum v tbl"
    "usum (a # tbl) = n_pages a - c_pages a + usum tbl" "nsum v (a # tbl) = meta_pages v a + n_pages a + nsum v tbl"
    by (simp_all add: csum_def usum_def nsum_def)
  ultimately show ?case by linarith
qed (simp add: csum_def usum_def nsum_def)

lemma mtouch_probe_all:
  assumes sz: "sized v w" and e: "entry_ok v w a" and pv: "plain v" and re: "region_end (page_size v) a < SIZE_MOD"
  shows "sbma_mtouch_probe v w a (base a) (mulw (n_pages a) (page_size v)) = Some (int (VMM_TO_SYS v w (n_pages a - c_pages a)))"
proof -
  have ps: "0 < page_size v" "0 < n_pages a" using sz e by (auto simp: sized_def entry_ok_def)
  obtain f where f: "stored v w a f" using e by (auto simp: entry_ok_def)
  note wr = whole_range [OF ps(2,1) re]
  have cnt: "span 0 (n_pages a) (flags a) = flags a" "length (flags a) = n_pages a" "c_pages a = length (filter charged (flags a))"
    using sound_counts [of "page_size v" f a] f by (auto simp: stored_def span_def)
  then have "length (filter (\<lambda>f. \<not> charged f) (flags a)) = n_pages a - c_pages a"
    using sum_length_filter_compl [of charged "flags a"] by simp
  then show ?thesis using mtouch_probe_ok [OF sz f pv re wr(1)] wr(2,3) cnt(1) by simp
qed

lemma mtouchall_probe_ok:
  assumes "sized v w" and "plain v" and "list_all (entry_ok v w) tbl"
    and "list_all (\<lambda>a. region_end (page_size v) a < SIZE_MOD) tbl"
    and "usum tbl \<le> nsum v (a_tbl v)" and "c + VMM_TO_SYS v w (usum tbl) < SIZE_MOD"
  shows "mtouchall_probe v w tbl c = Some (True, c + VMM_TO_SYS v w (usum tbl))"
  using assms
proof (induction tbl arbitrary: c)
  case Nil
  then show ?case by (simp add: usum_def VMM_TO_SYS_def mulw_def)
next
  case (Cons a tbl)
  let ?k = "n_pages a - c_pages a"
  have u: "usum (a # tbl) = ?k + usum tbl" by (simp add: usum_def)
  have t: "VMM_TO_SYS v w (usum (a # tbl)) = VMM_TO_SYS v w ?k + VMM_TO_SYS v w (usum tbl)"
    using Cons.prems(5) by (simp add: u TO_SYS_exact [OF Cons.prems(1)] add_mult_distrib)
  have "as_size (int (VMM_TO_SYS v w ?k)) = VMM_TO_SYS v w ?k" using Cons.prems(1) by simp
  moreover have "addw c (VMM_TO_SYS v w ?k) = c + VMM_TO_SYS v w ?k" using Cons.prems(6) t by (simp add: addw_exact)
  moreover have "mtouchall_probe v w tbl (c + VMM_TO_SYS v w ?k) = Some (True, c + VMM_TO_SYS v w (usum (a # tbl)))"
    using Cons.IH [of "c + VMM_TO_SYS v w ?k"] Cons.prems u t by simp
  ultimately show ?case using mtouch_probe_all [of v w a] Cons.prems by simp
qed

lemma touched_all_ok:
  assumes pp: "prepaid (usum (a_tbl v)) v w" and t: "touched_all v w (a_tbl v) tbl' w'"
  shows "proc_ok (v\<lparr>a_tbl := tbl'\<rparr>) w'"
proof -
  have wf: "well_formed v w" using pp by (simp add: prepaid_def)
  have al: "list_all2 (all_in v w w') (a_tbl v) tbl'" and w': "w' = with_sys (sys w') w"
    using t unfolding touched_all_def by blast+
  have sh: "wf_shm (vipc v) w'" "sc_page w' = sc_page w" "c_mem w' = c_mem w" "d_mem w' = d_mem w"
    "VMM_TO_SYS v w' k = VMM_TO_SYS v w k" for k
    using wf by (subst w'; simp add: well_formed_def)+
  have "list_all2 same_place (a_tbl v) tbl'" using al by (rule list.rel_mono_strong) (simp add: all_in_def)
  note sp = same_places [OF this]
  have "list_all (entry_ok v w) (a_tbl v)" using wf by (simp add: well_formed_def)
  with al have "list_all (entry_ok v w') tbl'"
    by (induction rule: list_all2_induct) (auto simp: entry_ok_def all_in_def same_place_def)
  then have wf': "well_formed (v\<lparr>a_tbl := tbl'\<rparr>) w'"
    using wf sh sp by (simp add: well_formed_def sized_def)
  have d: "dsum tbl' = dsum (a_tbl v)" and c: "csum v tbl' = nsum v tbl'"
    using al by (induction rule: list_all2_induct; simp add: dsum_def csum_def nsum_def all_in_def)+
  have u: "csum v (a_tbl v) + usum (a_tbl v) = nsum v (a_tbl v)"
    by (rule usum_csum) (rule well_formed_counts(3) [OF wf])
  have sz: "sized v w" using wf by (simp add: well_formed_def)
  have "VMM_TO_SYS v w (csum v (a_tbl v)) + VMM_TO_SYS v w (usum (a_tbl v)) = VMM_TO_SYS v w (nsum v (a_tbl v))"
    using u TO_SYS_exact [OF sz] by (simp flip: u add: add_mult_distrib)
  then have "accounted (v\<lparr>a_tbl := tbl'\<rparr>) w'"
    using pp by (simp add: prepaid_def accounted_def sh c d sp)
  with wf' show ?thesis by (simp add: proc_ok_def)
qed

lemma intact_list:
  assumes "list_all2 (\<lambda>a a'. same_place a a' \<and> (\<forall>f. stored v w a f \<longrightarrow> (\<exists>f'. stored v w' a' f' \<and> kept (page_size v) f a f' a')))
      (a_tbl v) tbl'" and al: "alike (v\<lparr>a_tbl := tbl'\<rparr>) v'"
  shows "intact v w v' w'"
proof -
  have "\<exists>a'\<in>set tbl'. same_place a a' \<and> (\<forall>f. stored v w a f \<longrightarrow> (\<exists>f'. stored v w' a' f' \<and> kept (page_size v) f a f' a'))"
    if "a \<in> set (a_tbl v)" for a
    using assms(1) that by (induction rule: list_all2_induct) auto
  moreover have "a_tbl v' = tbl'" "page_size v' = page_size v" using al by (simp_all add: alike_def)
  ultimately show ?thesis unfolding intact_def alike_proc(4) [OF al] with_tbl_simps by simp
qed

lemma mtouchall_ok:
  assumes co: "company me w" and pv: "plain me" and m: "0 < inter_mtx w" and fi: "fits me w"
  shows "\<exists>me' w'. sbma_mtouchall me w = Some (int (VMM_TO_SYS me w (usum (a_tbl me))), me', w') \<and>
           company me' w' \<and> since me w me' w' \<and> total w' = total w \<and> inter_mtx w' = inter_mtx w \<and>
           alike (me\<lparr>a_tbl := a_tbl me'\<rparr>) me' \<and> list_all2 same_place (a_tbl me) (a_tbl me') \<and>
           list_all (\<lambda>a. l_pages a = n_pages a \<and> c_pages a = n_pages a) (a_tbl me')"
proof -
  let ?k = "usum (a_tbl me)" and ?i = "iid (vipc me)"
  have ok: "proc_ok me w" by (rule company_self [OF co])
  then have wf: "well_formed me w" by (simp add: proc_ok_def)
  have pre: "sized me w" "list_all (entry_ok me w) (a_tbl me)" using wf by (auto simp: well_formed_def)
  have re: "list_all (\<lambda>a. region_end (page_size me) a < SIZE_MOD) (a_tbl me)"
    using well_formed_entry(4) [OF wf] by (simp add: list_all_iff)
  have u: "csum me (a_tbl me) + ?k = nsum me (a_tbl me)"
    by (rule usum_csum) (rule well_formed_counts(3) [OF wf])
  then have kn: "?k \<le> nsum me (a_tbl me)" by simp
  have sm: "0 + VMM_TO_SYS me w ?k < SIZE_MOD" using sys_bound(1) [OF wf kn] by (simp add: SIZE_MOD_def)
  have pr: "mtouchall_probe me w (a_tbl me) 0 = Some (True, VMM_TO_SYS me w ?k)"
    using mtouchall_probe_ok [OF pre(1) pv pre(2) re kn sm] by simp
  obtain v w1 where ad: "admit me w (VMM_TO_SYS me w ?k) = Some (0, v, debit ?i (VMM_TO_SYS me w ?k) w1)"
    and al: "alike me v" and h: "held me w w1" and w1: "VMM_TO_SYS me w ?k \<le> s_mem w1" "total w1 = total w" "inter_mtx w1 = inter_mtx w"
    using admit_ok [OF co m enough [OF co fi eq_imp_le [OF u]]] by blast
  let ?w2 = "debit ?i (VMM_TO_SYS me w ?k) w1"
  have ts: "VMM_TO_SYS me w1 ?k = VMM_TO_SYS me w ?k" using h by (simp add: held_def since_def VMM_TO_SYS_def)
  have h': "company me w1" "since me w me w1" using h by (auto simp: held_def)
  have ev: "page_size v = page_size me" "a_tbl v = a_tbl me" "opts v = opts me" using al by (auto simp: alike_def)
  have pp: "prepaid (usum (a_tbl v)) v ?w2"
    using prepaid_debit [OF company_self [OF h'(1)] _ al, of ?k] w1(1) ev(2) by (simp add: ts)
  then have wf2: "well_formed v ?w2" by (simp add: prepaid_def)
  have "list_all (\<lambda>a. region_end (page_size v) a < SIZE_MOD \<and> n_pages a < 2147483648) (a_tbl v)"
    using well_formed_entry [OF wf2] by (simp add: list_all_iff)
  moreover have "sized v ?w2" "list_all (entry_ok v ?w2) (a_tbl v)" using wf2 unfolding well_formed_def by blast+
  moreover have "quiet ?w2" "plain v" using h' pv ev by (simp_all add: company_def plain_def)
  ultimately obtain tbl' w3 rd where lp: "mtouchall_loop v ?w2 (a_tbl v) 0 = Some (True, tbl', w3, rd)"
    and t: "touched_all v ?w2 (a_tbl v) tbl' w3" using mtouchall_loop_ok [of v ?w2 "a_tbl v" 0] by blast
  have ok3: "proc_ok (v\<lparr>a_tbl := tbl'\<rparr>) w3" by (rule touched_all_ok [OF pp t])
  let ?me = "v\<lparr>a_tbl := tbl', numrd := addw (numrd v) rd\<rparr>"
  have al3: "alike (v\<lparr>a_tbl := tbl'\<rparr>) ?me" by (simp add: alike_def)
  have okm: "proc_ok ?me w3" unfolding alike_proc(2) [OF al3] by (rule ok3)
  have w3: "quiet w3" "w3 = with_sys (sys w3) ?w2" "files (sys w3) = files (sys w1)" "list_all2 (all_in v ?w2 w3) (a_tbl v) tbl'"
    using t unfolding touched_all_def debit_simps by blast+
  have sp: "list_all2 same_place (a_tbl me) tbl'" using w3(4) ev(2) by (auto simp: all_in_def elim!: list.rel_mono_strong)
  have id: "?i < length (c_mem w1)" using company_self [OF h'(1)] by (simp add: proc_ok_def well_formed_def wf_shm_def in_shm_def)
  have fr: "frame w1 w3" "inter_mtx w3 = inter_mtx w1" using id w1(1) by (subst w3(2); simp add: frame_def)+
  have cd: "c_mem w3 ! j = c_mem w1 ! j \<and> d_mem w3 ! j = d_mem w1 ! j" if "j \<noteq> ?i" for j
    using that by (subst (1 2) w3(2)) simp
  have alm: "alike (me\<lparr>a_tbl := tbl'\<rparr>) ?me" using al by (simp add: alike_def)
  have "stored v = (stored me :: 'a world_scheme \<Rightarrow> _)" by (simp add: fun_eq_iff alike_proc(4) [OF al])
  then have it: "intact me w1 ?me w3"
    using w3(3,4) ev by (intro intact_list [OF _ alm]) (auto 4 5 simp: all_in_def elim!: list.rel_mono_strong)
  have em: "iid (vipc ?me) = ?i" "n_procs (vipc ?me) = n_procs (vipc me)" using alm by (auto simp: alike_def)
  have "names ?me = names (me\<lparr>a_tbl := tbl'\<rparr>)" by (rule alike_names [OF alm])
  also have "\<dots> = names me"
    using arg_cong [OF same_places(2) [OF sp, of me], of set] by (simp add: names_def)
  finally have nm: "names ?me = names me" .
  have co': "company ?me w3" and "since me w1 ?me w3"
    by (rule company_step [OF h'(1) okm w3(1) fr(1) em cd nm _ it]; use w3(3) in simp)+
  then have "since me w ?me w3" using h'(1) by (intro since_trans [OF h'(2)]) (auto simp: company_def obliging_def)
  moreover have "list_all (\<lambda>a. l_pages a = n_pages a \<and> c_pages a = n_pages a) tbl'"
    using w3(4) by (induction rule: list_all2_induct) (auto simp: all_in_def)
  moreover have "sbma_mtouchall me w = Some (int (VMM_TO_SYS me w ?k), ?me, w3)"
    using ok ok3 ad lp pre(1) by (simp add: sbma_mtouchall_def pr)
  ultimately show ?thesis using co' alm sp fr w1
    by (intro exI [of _ ?me] exI [of _ w3]) (simp add: frame_def)
qed

subsection \<open>Properties\<close>

lemma demo_plain [simp]: "plain (demo_vmm j tbl)"
  by (simp add: plain_def vmm_opt_code has_def)

lemma small_lookup_range: "in_range (demo_vmm j tbl) small_ate 66 4"
  by (simp add: in_range_def region_end_def)

text \<open>Process 1 of the two runs, process 0 waits.\<close>

definition demo_world1 :: world where
  "demo_world1 = demo_world\<lparr>procs := [0 \<mapsto> demo_vmm 0 []]\<rparr>"

lemma demo_company1 [simp]: "company (demo_vmm 1 [small_ate]) demo_world1"
proof -
  have "\<exists>v. obliging (demo_vmm 1 [small_ate]) demo_world1 j v" if "j < 2" for j
    using that by (cases "j = 0") (auto simp: obliging_def proc_at_def demo_world1_def less_2_cases_iff simp del: One_nat_def)
  moreover have "quiet demo_world1" "c_mem demo_world1 = [0, 2]" by (simp_all add: demo_world1_def)
  ultimately show ?thesis by (auto simp: company_def proc_at_def names_def demo_world1_def split: if_splits)
qed

lemma demo1_simps [simp]: "stored (demo_vmm 1 tbl) demo_world1 small_ate f \<longleftrightarrow> f = []" "inter_mtx demo_world1 = 1"
  "fits (demo_vmm 1 [small_ate]) demo_world1"
  using demo_stored by (simp_all add: demo_world1_def fits_def VMM_TO_SYS_def mulw_def total_def SIZE_MOD_def)

text \<open>C14: \<open>sbma_mtouch\<close> on a range inside an allocation, in a system of consistent processes whose
  memory suffices for the allocations of the caller.  While system calls succeed it always
  returns, with the number of system pages it was admitted; the pages of the range are
  resident, every byte of every process is kept, all processes are consistent again and the
  sum of the accounts is unchanged.\<close>
theorem mtouch_correct:
  assumes "company me w" and "plain me" and "0 < inter_mtx w" and "fits me w"
    and "mmu_lookup (page_size me) (a_tbl me) x = Some a" and "stored me w a f" and "in_range me a x len"
    and "b = (x - base a) div page_size me" and "e = Suc ((x + len - base a - 1) div page_size me)"
  shows "\<exists>me' w'. sbma_mtouch me w None x len =
             Some (int (VMM_TO_SYS me w (length (filter (\<lambda>f. \<not> charged f) (span b (e - b) (flags a))))), me', w') \<and>
           touch_post me w a f b (e - b) me' w'"
proof -
  have wf: "well_formed me w" using company_self [OF assms(1)] by (simp add: proc_ok_def)
  note lp = lookup_page [OF wf assms(5)]
  note en = well_formed_entry [OF wf lp(1)]
  note r = range_pages [OF assms(7) en(4,5)]
  have be: "b = beg_page me a x" "e = end_page me a x len" using r(1,2) assms(8,9) by simp_all
  then have "b + (e - b) \<le> n_pages a" using r(3,4) by simp
  note room = uncharged_room [OF wf lp(1) this]
  show ?thesis
    by (rule mtouch_ok [OF assms(1-3) _ assms(6,7) be(1) _ refl enough [OF assms(1,4) room]])
      (use assms(5) be in simp_all)
qed

theorem mtouch_correct_witness:
  "\<exists>me' w'. sbma_mtouch (demo_vmm 1 [small_ate]) demo_world1 None 66 4 = Some (0, me', w') \<and> company me' w'"
proof -
  have "\<exists>me' w'. sbma_mtouch (demo_vmm 1 [small_ate]) demo_world1 None 66 4 =
      Some (int (VMM_TO_SYS (demo_vmm 1 [small_ate]) demo_world1 (length (filter (\<lambda>f. \<not> charged f) (span 0 (2 - 0) (flags small_ate))))), me', w') \<and>
      touch_post (demo_vmm 1 [small_ate]) demo_world1 small_ate [] 0 (2 - 0) me' w'"
    by (rule mtouch_correct) (simp_all add: small_lookup_range del: One_nat_def)
  moreover have "length (filter (\<lambda>f. \<not> charged f) (span 0 (2 - 0) (flags small_ate))) = 0" by (simp add: span_def)
  ultimately show ?thesis by (auto simp: touch_post_def VMM_TO_SYS_def mulw_def simp del: One_nat_def)
qed

text \<open>\<open>sbma_mtouchall\<close> makes every page of every allocation resident and charged (its
  assertions hold), returns the number of system pages that were missing, and keeps all
  contents and accounts.\<close>
theorem mtouchall_correct:
  assumes "company me w" and "plain me" and "0 < inter_mtx w" and "fits me w"
  shows "\<exists>me' w'. sbma_mtouchall me w = Some (int (VMM_TO_SYS me w (usum (a_tbl me))), me', w') \<and>
           company me' w' \<and> since me w me' w' \<and> total w' = total w \<and> shape me me' \<and>
           list_all (\<lambda>a. l_pages a = n_pages a \<and> c_pages a = n_pages a) (a_tbl me')"
  using mtouchall_ok [OF assms] unfolding shape_def by blast

theorem mtouchall_correct_witness:
  "\<exists>me' w'. sbma_mtouchall (demo_vmm 1 [small_ate]) demo_world1 = Some (0, me', w') \<and> company me' w'"
  using mtouchall_correct [of "demo_vmm 1 [small_ate]" demo_world1]
  by (auto simp: usum_def VMM_TO_SYS_def mulw_def simp del: One_nat_def)

text \<open>Touching one range atomically is touching it: on a consistent process
  \<open>sbma_mtouch_atomic\<close> with a single range does exactly what \<open>sbma_mtouch\<close> does, including
  what it returns when admission or loading fails.\<close>
theorem atomic_single:
  assumes "proc_ok v w" and "plain v" and "mmu_lookup (page_size v) (a_tbl v) x = Some a"
    and "in_range v a x len" and "x \<noteq> 0"
  shows "sbma_mtouch_atomic v w [(x, len)] = sbma_mtouch v w None x len"
proof -
  have wf: "well_formed v w" using assms(1) by (simp add: proc_ok_def)
  have a: "a \<in> set (a_tbl v)" by (rule lookup_page [OF wf assms(3)])
  note e = well_formed_entry [OF wf a]
  obtain f where f: "stored v w a f" using e(3) by blast
  define k where "k = VMM_TO_SYS v w (length (filter (\<lambda>f. \<not> charged f)
     (span (beg_page v a x) (end_page v a x len - beg_page v a x) (flags a))))"
  have pr: "sbma_mtouch_probe v w a x len = Some (int k)"
    unfolding k_def by (rule mtouch_probe_ok [OF e(6) f assms(2) e(4) assms(4)])
  have k: "as_size (int k) = k" "to_ssize k = int k" "addw 0 k = k"
    using e(6) TO_SYS_small [OF e(6), folded k_def] by (simp_all add: k_def addw_def SIZE_MOD_def less_trans [OF TO_SYS_small])
  have at: "ate_at u (addr a) = Some a" if "a_tbl u = a_tbl v" for u
    unfolding ate_at_def that using a wf
    by (intro find_eq_unique) (auto simp: well_formed_def distinct_map dest: inj_onD)
  have tb: "a_tbl v1 = a_tbl v" if "admit v w k = Some (r, v1, w1)" for r v1 w1
    using that by (auto simp: admit_def madmit_def bind_eq_Some_conv split: if_splits)
  have ad: "addw 0 (as_size i) = as_size i" for i
    by (simp add: addw_def as_size_def SIZE_MOD_def nat_mod_distrib)
  have "sbma_mtouch_atomic v w [(x, len)] = mtouch_entry v w a x len"
  proof (cases "admit v w k")
    case None
    then show ?thesis using assms k at [OF refl] pr
      by (simp add: sbma_mtouch_atomic_def mtouch_entry_def atomic_add_def SBMA_ATOMIC_MAX_def plain_def)
  next
    case (Some r)
    then obtain ret v1 w1 where r: "admit v w k = Some (ret, v1, w1)" by (cases r) auto
    show ?thesis using assms k at [OF refl] at [OF tb [OF r]] pr r
      by (cases "sbma_mtouch_int v1 w1 a x len")
        (auto simp: sbma_mtouch_atomic_def mtouch_entry_def atomic_add_def SBMA_ATOMIC_MAX_def plain_def ad)
  qed
  then show ?thesis using assms(1,3) by (simp add: sbma_mtouch_def)
qed

theorem atomic_single_witness:
  "sbma_mtouch_atomic (demo_vmm 1 [small_ate]) demo_world [(66, 3)] = sbma_mtouch (demo_vmm 1 [small_ate]) demo_world None 66 3"
  by (rule atomic_single [where a = small_ate]) (simp_all del: One_nat_def)

text \<open>Two ranges with the same start are merged wrongly: \<open>sbma_mtouch_atomic\<close> keeps the length
  that was given last, also when the first was longer, so that the rest of the first range is
  neither admitted nor loaded.\<close>
theorem atomic_same_start:
  assumes "well_formed v w" and "mmu_lookup (page_size v) (a_tbl v) x = Some a"
    and "in_range v a x len" and "in_range v a x len'"
  shows "atomic_collect v [(x, len), (x, len')] [] =
           Some [\<lparr>s_dup = False, s_addr = x, s_len = len', s_ate = addr a\<rparr>]"
proof -
  have a: "a \<in> set (a_tbl v)" by (rule lookup_page [OF assms(1,2)])
  note e = well_formed_entry [OF assms(1) a]
  have "beg_page v a x < end_page v a x len'" by (rule range_pages(3) [OF assms(4) e(4,5)])
  then show ?thesis using assms(2)
    by (simp add: atomic_add_def atomic_meet_def SBMA_ATOMIC_MAX_def beg_page_def end_page_def Let_def)
qed

theorem atomic_same_start_witness:
  "atomic_collect (demo_vmm 1 [small_ate]) [(66, 4), (66, 3)] [] =
     Some [\<lparr>s_dup = False, s_addr = 66, s_len = 3, s_ate = 64\<rparr>]"
  using atomic_same_start [of "demo_vmm 1 [small_ate]" demo_world 66 small_ate 4 3] demo_proc_ok small_lookup_range
  by (simp add: proc_ok_def del: One_nat_def)

end
