(* ===== verification/Program.thy ===== *)
theory Program
  imports Touch
begin

text \<open>
  What a program sees: loads and stores through the page protections, the handler of
  \<open>SIGSEGV\<close> (\<open>src/vmm/init.c\<close>) on a fault, and explicit calls of the library in between,
  in several processes that take memory from each other.  The specification is a flat memory
  per process, of which no operation but a store changes anything; the theorem is that the
  library implements it, and that no operation gets stuck.
\<close>

subsection \<open>Loads and stores\<close>

text \<open>An access that the protection does not allow raises \<open>SIGSEGV\<close>; when the handler
  returns, the instruction starts over.\<close>

definition readable :: "prot \<Rightarrow> bool" where
  "readable p \<longleftrightarrow> p = PROT_READ \<or> p = PROT_RW"

definition writable :: "prot \<Rightarrow> bool" where
  "writable p \<longleftrightarrow> p = PROT_WRITE \<or> p = PROT_RW"

partial_function (option) load :: "vmm \<Rightarrow> 'a world_scheme \<Rightarrow> nat \<Rightarrow> (byte \<times> vmm \<times> 'a world_scheme) option" where
  "load v w x =
     (case mmu_lookup (page_size v) (a_tbl v) x of
        None \<Rightarrow> None
      | Some a \<Rightarrow>
          if readable (prots a ! ((x - base a) div page_size v)) then Some (data a (x - base a), v, w)
          else do { (v, w) \<leftarrow> vmm_sigsegv v w x; load v w x })"

partial_function (option) store ::
  "vmm \<Rightarrow> 'a world_scheme \<Rightarrow> nat \<Rightarrow> byte \<Rightarrow> (vmm \<times> 'a world_scheme) option" where
  "store v w x b =
     (case mmu_lookup (page_size v) (a_tbl v) x of
        None \<Rightarrow> None
      | Some a \<Rightarrow>
          if writable (prots a ! ((x - base a) div page_size v))
          then Some (with_ate (a\<lparr>data := (data a)(x - base a := b)\<rparr>) v, w)
          else do { (v, w) \<leftarrow> vmm_sigsegv v w x; store v w x b })"

subsection \<open>The memory a process has\<close>

definition byte_of :: "nat \<Rightarrow> byte list \<Rightarrow> ate \<Rightarrow> nat \<Rightarrow> byte" where
  "byte_of ps f a i =
     (if resident (flags a ! (i div ps)) then data a i else disk_byte f (flags a ! (i div ps)) i)"

definition peek :: "vmm \<Rightarrow> 'a world_scheme \<Rightarrow> nat \<Rightarrow> byte option" where
  "peek v w x =
     (case mmu_lookup (page_size v) (a_tbl v) x of
        None \<Rightarrow> None
      | Some a \<Rightarrow> map_option (\<lambda>f. byte_of (page_size v) f a (x - base a)) (files (sys w) (vmm_fname v a)))"

text \<open>A resident clean page agrees with its copy on disk.\<close>

definition coherent :: "vmm \<Rightarrow> 'a world_scheme \<Rightarrow> bool" where
  "coherent v w \<longleftrightarrow> (\<forall>a\<in>set (a_tbl v). \<forall>f i. stored v w a f \<longrightarrow> i div page_size v < n_pages a \<longrightarrow>
     holds (page_size v) f a i (byte_of (page_size v) f a i))"

definition region :: "vmm \<Rightarrow> nat \<Rightarrow> (nat \<times> nat) option" where
  "region v x = map_option (\<lambda>a. (base a, region_end (page_size v) a)) (mmu_lookup (page_size v) (a_tbl v) x)"

lemma holds_byte: "holds ps f a i b \<Longrightarrow> byte_of ps f a i = b"
  by (auto simp: holds_def byte_of_def Let_def)

lemma lookup_place:
  assumes wf: "well_formed v w" and wf': "well_formed v' w'" and sh: "shape v v'"
  shows "rel_option same_place (mmu_lookup (page_size v) (a_tbl v) x) (mmu_lookup (page_size v') (a_tbl v') x)"
proof -
  have ps: "page_size v' = page_size v" using sh by (simp add: shape_def alike_def)
  have "list_all2 same_place (a_tbl v) (a_tbl v')" using sh by (simp add: shape_def)
  then show ?thesis unfolding mmu_lookup_def ps
    by (induction rule: list_all2_induct) (auto simp: same_place_def contains_def)
qed

lemma list_all2_preimage:
  assumes "list_all2 P xs ys" and "y \<in> set ys"
  shows "\<exists>x\<in>set xs. P x y"
  using assms by (induction rule: list_all2_induct) auto

lemma peek_intact:
  assumes wf: "well_formed v w" and wf': "well_formed v' w'" and sh: "shape v v'" and it: "intact v w v' w'"
    and co: "coherent v w"
  shows "coherent v' w'" and "peek v' w' = peek v w" and "region v' = region v"
proof -
  have ps: "page_size v' = page_size v" and pl: "list_all2 same_place (a_tbl v) (a_tbl v')"
    using sh by (simp_all add: shape_def alike_def)
  have d: "distinct (map addr (a_tbl v'))" using wf' by (simp add: well_formed_def)
  have img: "\<forall>f. stored v w a f \<longrightarrow> (\<exists>f'. stored v' w' a' f' \<and> kept (page_size v) f a f' a')"
    if a: "a \<in> set (a_tbl v)" "a' \<in> set (a_tbl v')" "same_place a a'" for a a'
  proof -
    obtain a2 where "a2 \<in> set (a_tbl v')" "same_place a a2"
      "\<forall>f. stored v w a f \<longrightarrow> (\<exists>f'. stored v' w' a2 f' \<and> kept (page_size v) f a f' a2)"
      using it a(1) unfolding intact_def by blast
    moreover have "inj_on addr (set (a_tbl v'))" using d by (simp add: distinct_map)
    moreover have "addr a2 = addr a'" using calculation(2) a(3) by (simp add: same_place_def)
    ultimately have "a2 = a'" using a(2) by (metis inj_onD)
    moreover note \<open>\<forall>f. stored v w a f \<longrightarrow> (\<exists>f'. stored v' w' a2 f' \<and> kept (page_size v) f a f' a2)\<close>
    ultimately show ?thesis by simp
  qed
  have hb: "holds (page_size v) f' a' i (byte_of (page_size v) f a i)"
    if h: "a \<in> set (a_tbl v)" "a' \<in> set (a_tbl v')" "same_place a a'" "stored v w a f" "stored v' w' a' f'"
      "i div page_size v < n_pages a" for a a' f f' i
  proof -
    obtain f2 where "stored v' w' a' f2" "kept (page_size v) f a f2 a'" using img [OF h(1-3)] h(4) by blast
    moreover from this(1) have "f2 = f'" by (rule stored_unique [OF h(5)])
    moreover have "holds (page_size v) f a i (byte_of (page_size v) f a i)" using co h(1,4,6) by (simp add: coherent_def)
    ultimately show ?thesis using h(6) by (simp add: kept_def)
  qed
  show "coherent v' w'"
    unfolding coherent_def
  proof (intro ballI allI impI)
    fix a' f' i
    assume a': "a' \<in> set (a_tbl v')" "stored v' w' a' f'" "i div page_size v' < n_pages a'"
    obtain a where a: "a \<in> set (a_tbl v)" "same_place a a'"
      using list_all2_preimage [OF pl a'(1)] by blast
    obtain f where f: "stored v w a f" using well_formed_entry(3) [OF wf a(1)] by blast
    have "holds (page_size v) f' a' i (byte_of (page_size v) f a i)"
      using hb [OF a(1) a'(1) a(2) f a'(2)] a'(3) a(2) ps by (simp add: same_place_def)
    then show "holds (page_size v') f' a' i (byte_of (page_size v') f' a' i)" using holds_byte ps by simp
  qed
  show "region v' = region v"
  proof
    fix x
    from lookup_place [OF wf wf' sh, of x] show "region v' x = region v x"
      by (cases rule: option.rel_cases) (auto simp: region_def same_place_def region_end_def ps)
  qed
  show "peek v' w' = peek v w"
  proof
    fix x
    from lookup_place [OF wf wf' sh, of x] show "peek v' w' x = peek v w x"
    proof (cases rule: option.rel_cases)
      case None
      then show ?thesis by (simp add: peek_def)
    next
      case (Some a a')
      note lp = lookup_page [OF wf Some(1)] and lp' = lookup_page [OF wf' Some(2)]
      obtain f f' where f: "stored v w a f" "stored v' w' a' f'"
        using well_formed_entry(3) [OF wf lp(1)] well_formed_entry(3) [OF wf' lp'(1)] by blast
      have "base a' = base a" using Some(3) by (simp add: same_place_def)
      then show ?thesis
        using hb [OF lp(1) lp'(1) Some(3) f lp(5)] f Some holds_byte by (simp add: peek_def stored_def ps)
    qed
  qed
qed

subsection \<open>The system\<close>

definition proc_fine :: "nat \<Rightarrow> vmm \<Rightarrow> 'a world_scheme \<Rightarrow> bool" where
  "proc_fine n v w \<longleftrightarrow> plain v \<and> fits v w \<and> coherent v w \<and> \<not> has (opts v) VMM_METACH \<and> n_procs (vipc v) = n"

definition sys_ok :: "vmm \<Rightarrow> 'a world_scheme \<Rightarrow> bool" where
  "sys_ok v w \<longleftrightarrow> company v w \<and> 0 < inter_mtx w \<and>
     (\<forall>j u. j < n_procs (vipc v) \<longrightarrow> proc_at v w j = Some u \<longrightarrow> proc_fine (n_procs (vipc v)) u w)"

definition memories :: "vmm \<Rightarrow> 'a world_scheme \<Rightarrow> nat \<Rightarrow> nat \<Rightarrow> byte option" where
  "memories v w j x = (if j < n_procs (vipc v) then Option.bind (proc_at v w j) (\<lambda>u. peek u w x) else None)"

definition regions :: "vmm \<Rightarrow> 'a world_scheme \<Rightarrow> nat \<Rightarrow> nat \<Rightarrow> (nat \<times> nat) option" where
  "regions v w j x = (if j < n_procs (vipc v) then Option.bind (proc_at v w j) (\<lambda>u. region u x) else None)"

lemma company_proc:
  assumes "company v w" and "j < n_procs (vipc v)"
  shows "\<exists>u. proc_at v w j = Some u \<and> proc_ok u w \<and> well_formed u w \<and> iid (vipc u) = j"
proof -
  obtain u where "obliging v w j u" using assms unfolding company_def by blast
  then show ?thesis by (auto simp: obliging_def proc_ok_def)
qed

lemma fits_shape:
  assumes sh: "shape v v'" and w: "sc_page w' = sc_page w" "total w' = total w"
  shows "fits v' w' = fits v w" "plain v' = plain v" "has (opts v') m = has (opts v) m" "n_procs (vipc v') = n_procs (vipc v)"
proof -
  have al: "alike (v\<lparr>a_tbl := a_tbl v'\<rparr>) v'" and sp: "list_all2 same_place (a_tbl v) (a_tbl v')"
    using sh by (auto simp: shape_def)
  have e: "opts v' = opts v" "page_size v' = page_size v" using al by (simp_all add: alike_def)
  have "nsum v' (a_tbl v') = nsum v (a_tbl v)" using same_places(5) [OF sp] meta_pages_cong(3) [OF e] by simp
  then show "fits v' w' = fits v w" using e w by (simp add: fits_def VMM_TO_SYS_def)
  show "plain v' = plain v" "has (opts v') m = has (opts v) m" "n_procs (vipc v') = n_procs (vipc v)"
    using e al by (simp_all add: plain_def alike_def)
qed

text \<open>An operation that keeps everybody's contents.\<close>

lemma sys_step:
  assumes ok: "sys_ok v w" and co: "company v' w'" and si: "since v w v' w'" and sh: "shape v v'"
    and w: "total w' = total w" "inter_mtx w' = inter_mtx w"
  shows "sys_ok v' w'" and "memories v' w' = memories v w" and "regions v' w' = regions v w"
proof -
  have co0: "company v w" using ok by (simp add: sys_ok_def)
  have n: "n_procs (vipc v') = n_procs (vipc v)" "iid (vipc v') = iid (vipc v)" using sh by (auto simp: shape_def alike_def)
  have one: "proc_fine (n_procs (vipc v)) u' w' \<and> peek u' w' = peek u w \<and> region u' = region u"
    if j: "j < n_procs (vipc v)" "proc_at v w j = Some u" "proc_at v' w' j = Some u'" for j u u'
  proof -
    have fn: "proc_fine (n_procs (vipc v)) u w" using ok j by (simp add: sys_ok_def)
    have s: "shape u u'" using si sh j n by (cases "j = iid (vipc v)") (auto simp: since_def proc_at_def)
    have it: "intact u w u' w'" and sc: "sc_page w' = sc_page w" using si j by (auto simp: since_def)
    have wf: "well_formed u w" "well_formed u' w'"
      using company_proc [OF co0 j(1)] company_proc [OF co, of j] j n by auto
    have c: "coherent u w" using fn by (simp add: proc_fine_def)
    show ?thesis using peek_intact [OF wf s it c] fn fits_shape [OF s sc w(1)] by (simp add: proc_fine_def)
  qed
  have ex: "\<exists>u u'. proc_at v w j = Some u \<and> proc_at v' w' j = Some u'" if "j < n_procs (vipc v)" for j
    using company_proc [OF co0 that] company_proc [OF co, of j] that n by auto
  show "sys_ok v' w'" using ok co w ex one n unfolding sys_ok_def by (metis option.inject)
  show "memories v' w' = memories v w" "regions v' w' = regions v w"
    using ex one n by (fastforce simp: memories_def regions_def fun_eq_iff)+
qed

lemma shape_put: "a \<in> set (a_tbl v) \<Longrightarrow> distinct (map addr (a_tbl v)) \<Longrightarrow> same_place a a' \<Longrightarrow> alike (with_ate a' v) v' \<Longrightarrow> shape v v'"
proof -
  assume a: "a \<in> set (a_tbl v)" "distinct (map addr (a_tbl v))" "same_place a a'" "alike (with_ate a' v) v'"
  have "list_all2 same_place (a_tbl v) (put_ate a' (a_tbl v))"
    unfolding put_ate_def list.rel_map list_all2_same
  proof (intro ballI)
    fix b
    assume b: "b \<in> set (a_tbl v)"
    have "b = a" if "addr b = addr a'"
      using that a b by (metis distinct_map inj_onD same_place_def)
    then show "same_place b (if addr b = addr a' then a' else b)" using a(3) by auto
  qed
  then show ?thesis using a(4) by (simp add: shape_def alike_def with_ate_def)
qed

subsection \<open>Loads and stores succeed\<close>

lemma sys_okD:
  assumes "sys_ok v w"
  shows "company v w" "0 < inter_mtx w" "proc_ok v w" "well_formed v w" "plain v" "fits v w" "coherent v w"
    "proc_at v w (iid (vipc v)) = Some v" "iid (vipc v) < n_procs (vipc v)"
proof -
  show co: "company v w" "0 < inter_mtx w" using assms by (simp_all add: sys_ok_def)
  show p: "proc_at v w (iid (vipc v)) = Some v" by (simp add: proc_at_def)
  show n: "iid (vipc v) < n_procs (vipc v)" using co(1) by (simp add: company_def)
  show "proc_ok v w" by (rule company_self [OF co(1)])
  then show "well_formed v w" by (simp add: proc_ok_def)
  have "proc_fine (n_procs (vipc v)) v w" using assms n p by (simp add: sys_ok_def)
  then show "plain v" "fits v w" "coherent v w" by (simp_all add: proc_fine_def)
qed

text \<open>The state after a fault: the same memories, and a page that is further on.\<close>

definition fault_post :: "vmm \<Rightarrow> 'a world_scheme \<Rightarrow> nat \<Rightarrow> vmm \<Rightarrow> 'a world_scheme \<Rightarrow> (byte \<Rightarrow> bool) \<Rightarrow> bool" where
  "fault_post v w x v' w' P \<longleftrightarrow> sys_ok v' w' \<and> memories v' w' = memories v w \<and> regions v' w' = regions v w \<and>
     iid (vipc v') = iid (vipc v) \<and> n_procs (vipc v') = n_procs (vipc v) \<and>
     (\<exists>a'. mmu_lookup (page_size v') (a_tbl v') x = Some a' \<and> P (flags a' ! ((x - base a') div page_size v')))"

lemma fault_postI:
  assumes ok: "sys_ok v w" and co: "company v' w'" and si: "since v w v' w'"
    and w: "total w' = total w" "inter_mtx w' = inter_mtx w"
    and l: "mmu_lookup (page_size v) (a_tbl v) x = Some a" and sp: "same_place a a'" and al: "alike (with_ate a' v) v'"
    and P: "P (flags a' ! ((x - base a) div page_size v))"
  shows "fault_post v w x v' w' P"
proof -
  note o = sys_okD [OF ok]
  have a: "a \<in> set (a_tbl v)" by (rule lookup_page [OF o(4) l])
  have d: "distinct (map addr (a_tbl v))" using o(4) by (simp add: well_formed_def)
  have sh: "shape v v'" by (rule shape_put [OF a d sp al])
  have wf': "well_formed v' w'" using company_self [OF co] by (simp add: proc_ok_def)
  obtain a2 where a2: "mmu_lookup (page_size v') (a_tbl v') x = Some a2" "same_place a a2"
    using lookup_place [OF o(4) wf' sh, of x] l by (auto simp: option_rel_Some1)
  have "a2 \<in> set (put_ate a' (a_tbl v))" using mmu_lookup_SomeD [OF a2(1)] al by (simp add: alike_def with_ate_def)
  moreover have "addr a2 = addr a'" using a2(2) sp by (simp add: same_place_def)
  ultimately have "a2 = a'" using set_put_ate by blast
  moreover have "page_size v' = page_size v" "iid (vipc v') = iid (vipc v)" "n_procs (vipc v') = n_procs (vipc v)"
    using al by (simp_all add: alike_def with_ate_def)
  moreover have "base a' = base a" using sp by (simp add: same_place_def)
  ultimately show ?thesis using sys_step [OF ok co si sh w] a2(1) P by (simp add: fault_post_def)
qed

lemma read_fault:
  assumes ok: "sys_ok v w" and l: "mmu_lookup (page_size v) (a_tbl v) x = Some a"
    and nr: "\<not> resident (flags a ! ((x - base a) div page_size v))"
  shows "\<exists>v' w'. vmm_sigsegv v w x = Some (v', w') \<and> fault_post v w x v' w' resident"
proof -
  note o = sys_okD [OF ok]
  have a: "a \<in> set (a_tbl v)" by (rule lookup_page [OF o(4) l])
  obtain f where f: "stored v w a f" using well_formed_entry(3) [OF o(4) a] by blast
  obtain b n v' w' where r: "vmm_sigsegv v w x = Some (v', w')" "touch_post v w a f b n v' w'"
    "b \<le> (x - base a) div page_size v" "(x - base a) div page_size v < b + n"
    using sigsegv_read_ok [OF o(1,5,2,6) l f refl nr] by blast
  then obtain a' where a': "alike (with_ate a' v) v'" "same_place a a'" "resident (flags a' ! ((x - base a) div page_size v))"
    unfolding touch_post_def by blast
  have "fault_post v w x v' w' resident"
    using r(2) a' unfolding touch_post_def by (intro fault_postI [OF ok _ _ _ _ l]) auto
  then show ?thesis using r(1) by blast
qed

lemma write_fault:
  assumes ok: "sys_ok v w" and l: "mmu_lookup (page_size v) (a_tbl v) x = Some a"
    and r: "resident (flags a ! ((x - base a) div page_size v))" "\<not> dirty (flags a ! ((x - base a) div page_size v))"
  shows "\<exists>v' w'. vmm_sigsegv v w x = Some (v', w') \<and> fault_post v w x v' w' (\<lambda>f. resident f \<and> dirty f)"
proof -
  note o = sys_okD [OF ok]
  let ?ip = "(x - base a) div page_size v"
  note lp = lookup_page [OF o(4) l]
  obtain f where f: "stored v w a f" using well_formed_entry(3) [OF o(4) lp(1)] by blast
  obtain v' w' where s: "vmm_sigsegv v w x = Some (v', w')" "company v' w'" "since v w v' w'" "total w' = total w"
    "inter_mtx w' = inter_mtx w" "alike (with_ate (dirtied ?ip a) v) v'"
    using sigsegv_write_ok [OF o(1) l f refl r] by blast
  have "?ip < length (flags a)" using lp(5) well_formed_counts(1) [OF o(4) lp(1)] by simp
  then have "fault_post v w x v' w' (\<lambda>f. resident f \<and> dirty f)"
    by (intro fault_postI [OF ok s(2-5) l _ s(6)]) (simp_all add: same_place_def)
  then show ?thesis using s(1) by blast
qed

lemma prot_flag:
  assumes "well_formed v w" and "mmu_lookup (page_size v) (a_tbl v) x = Some a"
  shows "prots a ! ((x - base a) div page_size v) = prot_of (flags a ! ((x - base a) div page_size v))"
proof -
  note lp = lookup_page [OF assms]
  obtain f where "stored v w a f" using well_formed_entry(3) [OF assms(1) lp(1)] by blast
  then have "prots a = map prot_of (flags a)" "length (flags a) = n_pages a"
    by (auto simp: stored_def sound_def wf_ate_def prots_ok_def counts_ok_def)
  then show ?thesis using lp(5) by simp
qed

lemma memories_self: "sys_ok v w \<Longrightarrow> memories v w (iid (vipc v)) x = peek v w x"
  using sys_okD(8,9) [of v w] by (simp add: memories_def)

lemma load_resident:
  assumes ok: "sys_ok v w" and l: "mmu_lookup (page_size v) (a_tbl v) x = Some a"
    and r: "resident (flags a ! ((x - base a) div page_size v))"
  shows "\<exists>b. load v w x = Some (b, v, w) \<and> memories v w (iid (vipc v)) x = Some b"
proof -
  note o = sys_okD [OF ok]
  have a: "a \<in> set (a_tbl v)" by (rule lookup_page [OF o(4) l])
  obtain f where "stored v w a f" using well_formed_entry(3) [OF o(4) a] by blast
  then have "peek v w x = Some (data a (x - base a))" using r l by (simp add: peek_def stored_def byte_of_def)
  moreover have "readable (prots a ! ((x - base a) div page_size v))"
    using r by (simp add: prot_flag [OF o(4) l] prot_of_def readable_def)
  ultimately show ?thesis using memories_self [OF ok] l by (simp add: load.simps)
qed

lemma load_ok:
  assumes ok: "sys_ok v w" and l: "region v x \<noteq> None"
  shows "\<exists>b v' w'. load v w x = Some (b, v', w') \<and> memories v w (iid (vipc v)) x = Some b \<and> sys_ok v' w' \<and>
           memories v' w' = memories v w \<and> regions v' w' = regions v w \<and> iid (vipc v') = iid (vipc v) \<and>
           n_procs (vipc v') = n_procs (vipc v)"
proof -
  note o = sys_okD [OF ok]
  obtain a where a: "mmu_lookup (page_size v) (a_tbl v) x = Some a" using l by (auto simp: region_def)
  show ?thesis
  proof (cases "resident (flags a ! ((x - base a) div page_size v))")
    case True
    then show ?thesis using load_resident [OF ok a] ok by blast
  next
    case False
    obtain v1 w1 a1 where s: "vmm_sigsegv v w x = Some (v1, w1)" "fault_post v w x v1 w1 resident"
      "mmu_lookup (page_size v1) (a_tbl v1) x = Some a1" "resident (flags a1 ! ((x - base a1) div page_size v1))"
      using read_fault [OF ok a False] unfolding fault_post_def by blast
    then obtain b where "load v1 w1 x = Some (b, v1, w1)" "memories v1 w1 (iid (vipc v1)) x = Some b"
      using load_resident [of v1 w1 x a1] unfolding fault_post_def by blast
    moreover have "\<not> readable (prots a ! ((x - base a) div page_size v))"
      using False by (simp add: prot_flag [OF o(4) a] prot_of_def readable_def)
    ultimately show ?thesis using s a by (auto simp: load.simps [of v w] fault_post_def)
  qed
qed

definition stored_byte :: "nat \<Rightarrow> byte \<Rightarrow> ate \<Rightarrow> ate" where
  "stored_byte i b a = a\<lparr>data := (data a)(i := b)\<rparr>"

lemma stored_byte_simps [simp]:
  "addr (stored_byte i b a) = addr a" "base (stored_byte i b a) = base a" "n_pages (stored_byte i b a) = n_pages a"
  "flags (stored_byte i b a) = flags a" "prots (stored_byte i b a) = prots a" "c_pages (stored_byte i b a) = c_pages a"
  "d_pages (stored_byte i b a) = d_pages a" "l_pages (stored_byte i b a) = l_pages a"
  "data (stored_byte i b a) = (data a)(i := b)" "lean (stored_byte i b a) = lean a"
  by (simp_all add: stored_byte_def lean_def)

lemma stored_byte_ok:
  assumes "sound ps f a" and "resident (flags a ! (i div ps))"
  shows "sound ps f (stored_byte i b a)"
  using assms by (auto simp: sound_def wf_ate_def counts_ok_def prots_ok_def pages_ok_def filed_def zeroed_def)

lemma stored_byte_holds:
  assumes "resident (flags a ! (i div ps))" and "dirty (flags a ! (i div ps))"
  shows "holds ps f (stored_byte i b a) k c \<longleftrightarrow> (if k = i then c = b else holds ps f a k c)"
    and "byte_of ps f (stored_byte i b a) k = (if k = i then b else byte_of ps f a k)"
  using assms by (auto simp: holds_def byte_of_def Let_def)

lemma store_dirty:
  assumes ok: "sys_ok v w" and l: "mmu_lookup (page_size v) (a_tbl v) x = Some a"
    and r: "resident (flags a ! ((x - base a) div page_size v))" "dirty (flags a ! ((x - base a) div page_size v))"
    and v': "v' = with_ate (stored_byte (x - base a) b a) v"
  shows "store v w x b = Some (v', w)" and "sys_ok v' w"
    and "memories v' w = (memories v w)(iid (vipc v) := (memories v w (iid (vipc v)))(x \<mapsto> b))"
    and "regions v' w = regions v w" and "iid (vipc v') = iid (vipc v)" and "n_procs (vipc v') = n_procs (vipc v)"
proof -
  let ?a = "stored_byte (x - base a) b a" and ?ps = "page_size v" and ?i = "iid (vipc v)" and ?n = "n_procs (vipc v)"
  note o = sys_okD [OF ok]
  note lp = lookup_page [OF o(4) l]
  have "writable (prots a ! ((x - base a) div ?ps))"
    using r by (simp add: prot_flag [OF o(4) l] prot_of_def writable_def)
  then show "store v w x b = Some (v', w)" using l by (simp add: store.simps v' stored_byte_def)
  obtain f where f: "stored v w a f" using well_formed_entry(3) [OF o(4) lp(1)] by blast
  have sp: "same_place a ?a" by (simp add: same_place_def)
  have d: "distinct (map addr (a_tbl v))" using o(4) by (simp add: well_formed_def)
  have sh: "shape v v'" by (rule shape_put [OF lp(1) d sp]) (simp add: v' alike_def)
  have e: "page_size v' = ?ps" "vipc v' = vipc v" "a_tbl v' = put_ate ?a (a_tbl v)" "vmm_fname v' = vmm_fname v"
    by (simp_all add: v')
  then have st: "stored v' w = stored v w" by (simp add: stored_def fun_eq_iff)
  show "iid (vipc v') = ?i" "n_procs (vipc v') = ?n" by (simp_all add: e)
  have f2: "stored v w ?a f" using f r stored_byte_ok by (simp add: stored_def vmm_fname_def)
  have wf': "well_formed v' w" unfolding v'
    using o(4) by (intro well_formed_put [OF o(4) lp(1) sp _ f2]) (auto simp: well_formed_entry(2) [OF o(4) lp(1)] well_formed_def)
  have ok': "proc_ok v' w"
    using wf' o(3) sums_put(1,2) [OF d lp(1) sp] by (simp add: proc_ok_def accounted_def v')
  have nm: "names v' = names v" unfolding v' by (rule names_put [OF lp(1)]) simp
  have oth: "files (sys w) g = files (sys w) g \<and> g \<notin> names v'"
    if "j < ?n" "j \<noteq> ?i" "procs w j = Some u" "g \<in> names u" for j u g
    using company_others [OF o(1) that(1-3)] that(4) nm by blast
  have co: "company v' w"
    by (rule company_upd(1) [OF o(1) ok' _ _ _ _ _ oth]) (use o(1) in \<open>simp_all add: frame_def company_def e\<close>)
  have old: "c \<in> set (a_tbl v)" if "c \<in> set (put_ate ?a (a_tbl v))" "c \<noteq> ?a" for c using set_put_ate [OF that(1)] that(2) by blast
  have hb: "holds ?ps g c k (byte_of ?ps g c k)" if "c \<in> set (a_tbl v)" "stored v w c g" "k div ?ps < n_pages c" for c g k
    using o(7) that by (simp add: coherent_def)
  have hn: "holds ?ps g c k (byte_of ?ps g c k)"
    if c: "c \<in> set (put_ate ?a (a_tbl v))" "stored v w c g" "k div ?ps < n_pages c" for c g k
  proof (cases "c = ?a")
    case True
    then have "g = f" using c(2) stored_unique [OF f2] by simp
    then show ?thesis using True c(3) hb [OF lp(1) f, of k] by (simp add: stored_byte_holds [OF r])
  next
    case False
    then show ?thesis by (intro hb old c)
  qed
  have "coherent v' w" unfolding coherent_def e st by (intro ballI allI impI) (rule hn)
  moreover have "proc_fine ?n v w" using ok o(8,9) unfolding sys_ok_def by blast
  ultimately have fine: "proc_fine ?n v' w"
    unfolding proc_fine_def fits_shape [OF sh refl refl] by blast
  have pa: "proc_at v' w j = (if j = ?i then Some v' else proc_at v w j)" for j by (simp add: proc_at_def e)
  show "sys_ok v' w" using ok co fine unfolding sys_ok_def pa e by (simp split: if_splits)
  have pk: "peek v' w y = (if y = x then Some b else peek v w y)" for y
  proof -
    from lookup_place [OF o(4) wf' sh, of y] show ?thesis
    proof (cases rule: option.rel_cases)
      case None
      then show ?thesis using l by (auto simp: peek_def)
    next
      case (Some c c')
      note lc = lookup_page [OF o(4) Some(1)] and lc' = lookup_page [OF wf' Some(2)]
      have ad: "addr c' = addr c" "base c' = base c" using Some(3) by (auto simp: same_place_def)
      show ?thesis
      proof (cases "addr c = addr a")
        case True
        then have "c = a" using d lc(1) lp(1) by (metis distinct_map inj_onD)
        moreover have "c' = ?a" using set_put_ate [of c' ?a "a_tbl v"] lc'(1) ad True e(3) by auto
        ultimately show ?thesis
          using Some f2 lp(2) lc(2) by (auto simp: peek_def e stored_def vmm_fname_def stored_byte_holds(2) [OF r])
      next
        case False
        then have "c' \<in> set (a_tbl v)" using set_put_ate [of c' ?a "a_tbl v"] lc'(1) ad e(3) by auto
        then have "c' = c" using d lc(1) ad by (metis distinct_map inj_onD)
        moreover have "y \<noteq> x" using Some(1) l False by auto
        ultimately show ?thesis using Some by (simp add: peek_def e)
      qed
    qed
  qed
  show "memories v' w = (memories v w)(?i := (memories v w ?i)(x \<mapsto> b))"
    using o(8,9) pk by (auto simp: memories_def fun_eq_iff pa e)
  have "region v' = region v"
  proof
    fix y
    from lookup_place [OF o(4) wf' sh, of y] show "region v' y = region v y"
      by (cases rule: option.rel_cases) (auto simp: region_def same_place_def region_end_def e)
  qed
  then show "regions v' w = regions v w" using o(8) by (auto simp: regions_def fun_eq_iff pa e)
qed

text \<open>The result of a store.\<close>

definition store_post :: "vmm \<Rightarrow> 'a world_scheme \<Rightarrow> nat \<Rightarrow> byte \<Rightarrow> (vmm \<times> 'a world_scheme) option \<Rightarrow> bool" where
  "store_post v w x b r \<longleftrightarrow> (\<exists>v' w'. r = Some (v', w') \<and> sys_ok v' w' \<and>
     memories v' w' = (memories v w)(iid (vipc v) := (memories v w (iid (vipc v)))(x \<mapsto> b)) \<and>
     regions v' w' = regions v w \<and> iid (vipc v') = iid (vipc v) \<and> n_procs (vipc v') = n_procs (vipc v))"

lemma store_post_dirty:
  assumes "sys_ok v w" and "mmu_lookup (page_size v) (a_tbl v) x = Some a"
    and "resident (flags a ! ((x - base a) div page_size v))" "dirty (flags a ! ((x - base a) div page_size v))"
  shows "store_post v w x b (store v w x b)"
  using store_dirty [OF assms refl, of b] unfolding store_post_def by blast

lemma store_post_fault:
  assumes fp: "fault_post v w x v1 w1 P" and s: "vmm_sigsegv v w x = Some (v1, w1)"
    and l: "mmu_lookup (page_size v) (a_tbl v) x = Some a" and nw: "\<not> writable (prots a ! ((x - base a) div page_size v))"
    and st: "store_post v1 w1 x b (store v1 w1 x b)"
  shows "store_post v w x b (store v w x b)"
proof -
  have "store v w x b = store v1 w1 x b" using s l nw by (simp add: store.simps [of v w])
  then show ?thesis using st fp by (simp add: store_post_def fault_post_def)
qed

lemma store_resident:
  assumes ok: "sys_ok v w" and l: "mmu_lookup (page_size v) (a_tbl v) x = Some a"
    and r: "resident (flags a ! ((x - base a) div page_size v))"
  shows "store_post v w x b (store v w x b)"
proof (cases "dirty (flags a ! ((x - base a) div page_size v))")
  case True
  then show ?thesis by (rule store_post_dirty [OF ok l r])
next
  case False
  have nw: "\<not> writable (prots a ! ((x - base a) div page_size v))"
    using r False by (simp add: prot_flag [OF sys_okD(4) [OF ok] l] prot_of_def writable_def)
  obtain v1 w1 where s: "vmm_sigsegv v w x = Some (v1, w1)" "fault_post v w x v1 w1 (\<lambda>f. resident f \<and> dirty f)"
    using write_fault [OF ok l r False] by blast
  then have "store_post v1 w1 x b (store v1 w1 x b)"
    unfolding fault_post_def using store_post_dirty by blast
  then show ?thesis by (rule store_post_fault [OF s(2,1) l nw])
qed

lemma store_ok:
  assumes ok: "sys_ok v w" and l: "region v x \<noteq> None"
  shows "store_post v w x b (store v w x b)"
proof -
  obtain a where a: "mmu_lookup (page_size v) (a_tbl v) x = Some a" using l by (auto simp: region_def)
  show ?thesis
  proof (cases "resident (flags a ! ((x - base a) div page_size v))")
    case True
    then show ?thesis by (rule store_resident [OF ok a])
  next
    case False
    have nw: "\<not> writable (prots a ! ((x - base a) div page_size v))"
      using False by (simp add: prot_flag [OF sys_okD(4) [OF ok] a] prot_of_def writable_def)
    obtain v1 w1 where s: "vmm_sigsegv v w x = Some (v1, w1)" "fault_post v w x v1 w1 resident"
      using read_fault [OF ok a False] by blast
    then have "store_post v1 w1 x b (store v1 w1 x b)"
      unfolding fault_post_def using store_resident by blast
    then show ?thesis by (rule store_post_fault [OF s(2,1) a nw])
  qed
qed

subsection \<open>Programs\<close>

datatype act =
  Load nat | Store nat byte | Mtouch nat nat | Mevict nat nat | Mtouchall | Mevictall | Switch nat

text \<open>One action of the running process; the result of a load is returned.  With \<open>Switch j\<close>
  process \<open>j\<close> runs from then on.\<close>

fun exec :: "act \<Rightarrow> vmm \<Rightarrow> 'a world_scheme \<Rightarrow> (byte option \<times> vmm \<times> 'a world_scheme) option" where
  "exec (Load x) v w = do { (b, v, w) \<leftarrow> load v w x; Some (Some b, v, w) }"
| "exec (Store x b) v w = do { (v, w) \<leftarrow> store v w x b; Some (None, v, w) }"
| "exec (Mtouch x len) v w = do { (r, v, w) \<leftarrow> sbma_mtouch v w None x len; Some (None, v, w) }"
| "exec (Mevict x len) v w = do { (r, v, w) \<leftarrow> sbma_mevict v w x len; Some (None, v, w) }"
| "exec Mtouchall v w = do { (r, v, w) \<leftarrow> sbma_mtouchall v w; Some (None, v, w) }"
| "exec Mevictall v w = do { (r, v, w) \<leftarrow> sbma_mevictall v w; Some (None, v, w) }"
| "exec (Switch j) v w = do {
     u \<leftarrow> proc_at v w j;
     Some (None, u, w\<lparr>procs := (procs w)(iid (vipc v) \<mapsto> v)\<rparr>)
   }"

text \<open>The specification: a memory for each process.\<close>

fun aexec :: "act \<Rightarrow> nat \<Rightarrow> (nat \<Rightarrow> nat \<Rightarrow> byte option) \<Rightarrow> byte option \<times> nat \<times> (nat \<Rightarrow> nat \<Rightarrow> byte option)" where
  "aexec (Load x) i m = (m i x, i, m)"
| "aexec (Store x b) i m = (None, i, m(i := (m i)(x \<mapsto> b)))"
| "aexec (Switch j) i m = (None, j, m)"
| "aexec _ i m = (None, i, m)"

text \<open>Addresses are those of allocations, ranges lie within one.\<close>

fun allowed :: "nat \<Rightarrow> (nat \<Rightarrow> nat \<Rightarrow> (nat \<times> nat) option) \<Rightarrow> nat \<Rightarrow> act \<Rightarrow> bool" where
  "allowed n R i (Load x) \<longleftrightarrow> R i x \<noteq> None"
| "allowed n R i (Store x b) \<longleftrightarrow> R i x \<noteq> None"
| "allowed n R i (Mtouch x len) \<longleftrightarrow> (case R i x of None \<Rightarrow> False | Some (lo, hi) \<Rightarrow> 0 < len \<and> x + len \<le> hi)"
| "allowed n R i (Mevict x len) \<longleftrightarrow> (case R i x of None \<Rightarrow> False | Some (lo, hi) \<Rightarrow> 0 < len \<and> x + len \<le> hi)"
| "allowed n R i (Switch j) \<longleftrightarrow> j < n"
| "allowed n R i _ \<longleftrightarrow> True"

definition simulates :: "act \<Rightarrow> vmm \<Rightarrow> 'a world_scheme \<Rightarrow> (byte option \<times> vmm \<times> 'a world_scheme) option \<Rightarrow> bool" where
  "simulates c v w r \<longleftrightarrow> (\<exists>out v' w'. r = Some (out, v', w') \<and> sys_ok v' w' \<and> regions v' w' = regions v w \<and>
     n_procs (vipc v') = n_procs (vipc v) \<and>
     aexec c (iid (vipc v)) (memories v w) = (out, iid (vipc v'), memories v' w'))"

lemma regions_self: "sys_ok v w \<Longrightarrow> regions v w (iid (vipc v)) x = region v x"
  using sys_okD(8,9) [of v w] by (simp add: regions_def)

lemma allowed_range:
  assumes ok: "sys_ok v w" and l: "regions v w (iid (vipc v)) x = Some (lo, hi)" "0 < len" "x + len \<le> hi"
  shows "\<exists>a f. mmu_lookup (page_size v) (a_tbl v) x = Some a \<and> stored v w a f \<and> in_range v a x len"
proof -
  note o = sys_okD [OF ok]
  obtain a where a: "mmu_lookup (page_size v) (a_tbl v) x = Some a" "hi = region_end (page_size v) a"
    using l(1) regions_self [OF ok] by (auto simp: region_def)
  note lp = lookup_page [OF o(4) a(1)]
  obtain f where "stored v w a f" using well_formed_entry(3) [OF o(4) lp(1)] by blast
  then show ?thesis using a lp(2) l(2,3) by (auto simp: in_range_def)
qed

lemma n_procs_sys: "sys_ok v w \<Longrightarrow> n_procs (vipc v) = length (c_mem w)"
  by (simp add: sys_ok_def company_def)

lemma simulates_shape:
  assumes ok: "sys_ok v w" and co: "company v' w'" "since v w v' w'" "shape v v'" "total w' = total w" "inter_mtx w' = inter_mtx w"
    and c: "aexec c (iid (vipc v)) (memories v w) = (None, iid (vipc v), memories v w)"
  shows "simulates c v w (Some (None, v', w'))"
proof -
  have "iid (vipc v') = iid (vipc v)" "n_procs (vipc v') = n_procs (vipc v)" using co(3) by (auto simp: shape_def alike_def)
  then show ?thesis using sys_step [OF ok co] c by (simp add: simulates_def)
qed

lemma sim_mtouch:
  assumes ok: "sys_ok v w" and al: "allowed n (regions v w) (iid (vipc v)) (Mtouch x len)"
  shows "simulates (Mtouch x len) v w (exec (Mtouch x len) v w)"
proof -
  note o = sys_okD [OF ok]
  obtain lo hi where "regions v w (iid (vipc v)) x = Some (lo, hi)" "0 < len" "x + len \<le> hi"
    using al by (cases "regions v w (iid (vipc v)) x") auto
  from allowed_range [OF ok this] obtain a f where l: "mmu_lookup (page_size v) (a_tbl v) x = Some a"
    and f: "stored v w a f" and r: "in_range v a x len" by blast
  have a: "a \<in> set (a_tbl v)" by (rule lookup_page [OF o(4) l])
  note e = well_formed_entry [OF o(4) a]
  define b n where "b = beg_page v a x" and "n = end_page v a x len - b"
  have bn: "b + n \<le> n_pages a" using range_pages(3,4) [OF r e(4,5)] by (simp add: b_def n_def)
  obtain k v' w' where t: "sbma_mtouch v w None x len = Some (k, v', w')" "touch_post v w a f b n v' w'"
    using mtouch_ok [OF o(1,5,2) _ f r b_def n_def refl enough [OF o(1,6) uncharged_room [OF o(4) a bn]], of None] l by blast
  then obtain a' where a': "alike (with_ate a' v) v'" "same_place a a'" unfolding touch_post_def by blast
  have d: "distinct (map addr (a_tbl v))" using o(4) by (simp add: well_formed_def)
  have "shape v v'" by (rule shape_put [OF a d a'(2,1)])
  then have "simulates (Mtouch x len) v w (Some (None, v', w'))"
    using t(2) unfolding touch_post_def by (intro simulates_shape [OF ok]) auto
  then show ?thesis using t(1) by simp
qed

lemma sim_mevict:
  assumes ok: "sys_ok v w" and al: "allowed n (regions v w) (iid (vipc v)) (Mevict x len)"
  shows "simulates (Mevict x len) v w (exec (Mevict x len) v w)"
proof -
  note o = sys_okD [OF ok]
  have q: "quiet w" using o(1) by (simp add: company_def)
  obtain lo hi where "regions v w (iid (vipc v)) x = Some (lo, hi)" "0 < len" "x + len \<le> hi"
    using al by (cases "regions v w (iid (vipc v)) x") auto
  from allowed_range [OF ok this] obtain a f where l: "mmu_lookup (page_size v) (a_tbl v) x = Some a"
    and f: "stored v w a f" and r: "in_range v a x len" by blast
  have a: "a \<in> set (a_tbl v)" by (rule lookup_page [OF o(4) l])
  obtain k b n v' w' where t: "sbma_mevict v w x len = Some (k, v', w')" and p: "evict_post v w a f b n v' w'"
    using mevict_ok [OF o(3) q o(2) l f r] by blast
  have p': "proc_ok v' w'" "quiet w'" "frame w w'" "\<And>j. j \<noteq> iid (vipc v) \<Longrightarrow> c_mem w' ! j = c_mem w ! j \<and> d_mem w' ! j = d_mem w ! j"
    "\<And>g. g \<noteq> vmm_fname v a \<Longrightarrow> files (sys w') g = files (sys w) g"
    using p unfolding evict_post_def by blast+
  obtain a' f' where a': "alike (with_ate a' v) v'" "same_place a a'" "stored v' w' a' f'" "kept (page_size v) f a f' a'"
    using p unfolding evict_post_def by blast
  have d: "distinct (map addr (a_tbl v))" "inj_on (vmm_fname v) (set (a_tbl v))"
    using o(4) by (simp_all add: well_formed_def distinct_map)
  have sh: "shape v v'" by (rule shape_put [OF a d(1) a'(2,1)])
  have st: "stored v w' a' f'" using a'(3) unfolding alike_proc(4) [OF a'(1)] by (simp add: stored_def)
  have it: "intact v w v' w'"
    by (rule intact_put [OF d(1) a a'(2) f st a'(4) _ a'(1)]) (use p'(5) d(2) a in \<open>metis inj_onD\<close>)
  have ad: "addr a' = addr a" using a'(2) by (simp add: same_place_def)
  have nm: "names v' = names v" using alike_names [OF a'(1)] names_put [OF a ad] by simp
  have em: "iid (vipc v') = iid (vipc v)" "n_procs (vipc v') = n_procs (vipc v)" using a'(1) by (auto simp: alike_def)
  have fi: "files (sys w') g = files (sys w) g" if "g \<notin> names v" for g using that a by (intro p'(5)) (auto simp: names_def)
  have "company v' w'" "since v w v' w'" by (rule company_step [OF o(1) p'(1-3) em p'(4) nm fi it]; assumption)+
  then have "simulates (Mevict x len) v w (Some (None, v', w'))"
    using p'(3) sh by (intro simulates_shape [OF ok]) (auto simp: frame_def)
  then show ?thesis using t by simp
qed

lemma sim_mtouchall: "sys_ok v w \<Longrightarrow> simulates Mtouchall v w (exec Mtouchall v w)"
proof -
  assume ok: "sys_ok v w"
  note o = sys_okD [OF ok]
  obtain k v' w' where "sbma_mtouchall v w = Some (k, v', w')" "company v' w'" "since v w v' w'" "total w' = total w"
    "inter_mtx w' = inter_mtx w" "shape v v'"
    using mtouchall_ok [OF o(1,5,2,6)] unfolding shape_def by blast
  then show ?thesis using simulates_shape [OF ok, of v' w' Mtouchall] by simp
qed

lemma sim_mevictall: "sys_ok v w \<Longrightarrow> simulates Mevictall v w (exec Mevictall v w)"
proof -
  assume ok: "sys_ok v w"
  note o = sys_okD [OF ok]
  have q: "quiet w" using o(1) by (simp add: company_def)
  obtain k v' w' where t: "sbma_mevictall v w = Some (k, v', w')" "all_out v w v' w'"
    using mevictall_ok [OF o(3) q o(2)] by blast
  have sh: "shape v v'" by (rule all_out_shape [OF t(2)])
  have em: "iid (vipc v') = iid (vipc v)" "n_procs (vipc v') = n_procs (vipc v)" using sh by (auto simp: shape_def alike_def)
  have p: "proc_ok v' w'" "quiet w'" "frame w w'" "\<And>g. g \<notin> names v \<Longrightarrow> files (sys w') g = files (sys w) g"
    using t(2) unfolding all_out_def names_def [symmetric] by blast+
  have cd: "c_mem w' ! j = c_mem w ! j \<and> d_mem w' ! j = d_mem w ! j" if "j \<noteq> iid (vipc v)" for j
    using t(2) that unfolding all_out_def by simp
  have "company v' w'" "since v w v' w'"
    by (rule company_step [OF o(1) p(1-3) em cd all_out_names [OF t(2)] p(4) all_out_intact [OF t(2)]]; assumption)+
  then have "simulates Mevictall v w (Some (None, v', w'))"
    using p(3) sh by (intro simulates_shape [OF ok]) (auto simp: frame_def)
  then show ?thesis using t by simp
qed

lemma with_procs_parts [simp]:
  "fits u (w\<lparr>procs := p\<rparr>) = fits u w" "coherent u (w\<lparr>procs := p\<rparr>) = coherent u w" "peek u (w\<lparr>procs := p\<rparr>) = peek u w"
  "proc_fine n u (w\<lparr>procs := p\<rparr>) = proc_fine n u w"
  by (simp_all add: fits_def VMM_TO_SYS_def total_def coherent_def peek_def proc_fine_def fun_eq_iff split: option.split)

lemma sim_switch:
  assumes ok: "sys_ok v w" and j: "j < n_procs (vipc v)"
  shows "simulates (Switch j) v w (exec (Switch j) v w)"
proof -
  note o = sys_okD [OF ok]
  let ?n = "n_procs (vipc v)"
  obtain u where u: "proc_at v w j = Some u" "proc_ok u w" "iid (vipc u) = j" using company_proc [OF o(1) j] by blast
  let ?w = "w\<lparr>procs := (procs w)(iid (vipc v) \<mapsto> v)\<rparr>"
  have fine: "proc_fine ?n x w" if "k < ?n" "proc_at v w k = Some x" for k x using ok that unfolding sys_ok_def by blast
  have n: "n_procs (vipc u) = ?n" using fine [OF j u(1)] by (simp add: proc_fine_def)
  have pa: "proc_at u ?w k = proc_at v w k" for k
  proof -
    consider "k = j" | "k \<noteq> j" "k = iid (vipc v)" | "k \<noteq> j" "k \<noteq> iid (vipc v)" by blast
    then show ?thesis by cases (use u in \<open>simp_all add: proc_at_def\<close>)
  qed
  have "\<exists>x. obliging u ?w k x" if k: "k < ?n" for k
  proof -
    obtain x where "proc_at v w k = Some x" "proc_ok x w" "iid (vipc x) = k" using company_proc [OF o(1) k] by blast
    then show ?thesis using fine [OF k] by (auto simp: obliging_def pa proc_fine_def)
  qed
  then have "company u ?w" using o(1) u(3) n j pa unfolding company_def by simp
  moreover have "0 < inter_mtx ?w" using o(2) by simp
  ultimately have "sys_ok u ?w" using fine n unfolding sys_ok_def pa with_procs_parts by simp
  moreover have "memories u ?w = memories v w" "regions u ?w = regions v w"
    by (auto simp: memories_def regions_def pa n fun_eq_iff)
  ultimately show ?thesis using u n by (simp add: simulates_def)
qed

lemma exec_simulates:
  assumes ok: "sys_ok v w" and al: "allowed (n_procs (vipc v)) (regions v w) (iid (vipc v)) c"
  shows "simulates c v w (exec c v w)"
proof (cases c)
  case (Load x)
  then have "region v x \<noteq> None" using al regions_self [OF ok] by simp
  from load_ok [OF ok this] obtain b v' w' where "load v w x = Some (b, v', w')" "memories v w (iid (vipc v)) x = Some b"
    "sys_ok v' w'" "memories v' w' = memories v w" "regions v' w' = regions v w" "iid (vipc v') = iid (vipc v)"
    "n_procs (vipc v') = n_procs (vipc v)" by blast
  then show ?thesis using Load by (simp add: simulates_def)
next
  case (Store x b)
  then have "region v x \<noteq> None" using al regions_self [OF ok] by simp
  from store_ok [OF ok this, of b] obtain v' w' where "store v w x b = Some (v', w')" "sys_ok v' w'"
    "memories v' w' = (memories v w)(iid (vipc v) := (memories v w (iid (vipc v)))(x \<mapsto> b))" "regions v' w' = regions v w"
    "iid (vipc v') = iid (vipc v)" "n_procs (vipc v') = n_procs (vipc v)" unfolding store_post_def by blast
  then show ?thesis using Store by (simp add: simulates_def)
next
  case (Mtouch x len)
  then show ?thesis using sim_mtouch [OF ok] al by blast
next
  case (Mevict x len)
  then show ?thesis using sim_mevict [OF ok] al by blast
next
  case (Switch j)
  then show ?thesis using sim_switch [OF ok] al by simp
qed (use sim_mtouchall [OF ok] sim_mevictall [OF ok] in simp_all)

text \<open>Runs, and the results of their loads.\<close>

fun run :: "act list \<Rightarrow> vmm \<Rightarrow> 'a world_scheme \<Rightarrow> (byte option list \<times> vmm \<times> 'a world_scheme) option" where
  "run [] v w = Some ([], v, w)"
| "run (c # cs) v w = do {
     (out, v, w) \<leftarrow> exec c v w;
     (outs, v, w) \<leftarrow> run cs v w;
     Some (out # outs, v, w)
   }"

fun arun :: "act list \<Rightarrow> nat \<Rightarrow> (nat \<Rightarrow> nat \<Rightarrow> byte option) \<Rightarrow> byte option list" where
  "arun [] i m = []"
| "arun (c # cs) i m = (case aexec c i m of (out, i, m) \<Rightarrow> out # arun cs i m)"

fun running :: "nat \<Rightarrow> act \<Rightarrow> nat" where
  "running i (Switch j) = j"
| "running i _ = i"

fun all_allowed :: "nat \<Rightarrow> (nat \<Rightarrow> nat \<Rightarrow> (nat \<times> nat) option) \<Rightarrow> nat \<Rightarrow> act list \<Rightarrow> bool" where
  "all_allowed n R i [] \<longleftrightarrow> True"
| "all_allowed n R i (c # cs) \<longleftrightarrow> allowed n R i c \<and> all_allowed n R (running i c) cs"

lemma aexec_running: "fst (snd (aexec c i m)) = running i c"
  by (cases c) auto

lemma run_refines:
  assumes "sys_ok v w" and "all_allowed (n_procs (vipc v)) (regions v w) (iid (vipc v)) cs"
  shows "\<exists>v' w'. run cs v w = Some (arun cs (iid (vipc v)) (memories v w), v', w') \<and> sys_ok v' w'"
  using assms
proof (induction cs arbitrary: v w)
  case (Cons c cs)
  obtain out v1 w1 where s: "exec c v w = Some (out, v1, w1)" "sys_ok v1 w1" "regions v1 w1 = regions v w"
    "n_procs (vipc v1) = n_procs (vipc v)" "aexec c (iid (vipc v)) (memories v w) = (out, iid (vipc v1), memories v1 w1)"
    using exec_simulates [of v w c] Cons.prems by (auto simp: simulates_def)
  have "running (iid (vipc v)) c = iid (vipc v1)" using aexec_running [of c "iid (vipc v)" "memories v w"] s(5) by simp
  then have "all_allowed (n_procs (vipc v1)) (regions v1 w1) (iid (vipc v1)) cs" using Cons.prems(2) s(3,4) by simp
  from Cons.IH [OF s(2) this] show ?case using s by auto
qed simp

subsection \<open>Properties\<close>

lemma demo_coherent: "coherent (demo_vmm 1 [small_ate]) demo_world"
proof -
  have "holds 2 [] small_ate i (byte_of 2 [] small_ate i)" if "i div 2 < 2" for i
  proof -
    have "i div 2 = 0 \<or> i div 2 = 1" using that by linarith
    moreover have "data small_ate i = 0" if "i div 2 = 1" using that by (auto simp: small_ate_def)
    ultimately show ?thesis by (auto simp: holds_def byte_of_def disk_byte_def Let_def)
  qed
  then show ?thesis by (simp add: coherent_def del: One_nat_def)
qed

lemma demo_sys_ok: "sys_ok (demo_vmm 0 []) demo_world"
proof -
  have f: "fits (demo_vmm 0 []) demo_world" "fits (demo_vmm 1 [small_ate]) demo_world"
    by (simp_all add: fits_def total_def del: One_nat_def)
  have c0: "coherent (demo_vmm 0 []) demo_world" by (simp add: coherent_def)
  have "proc_fine 2 u demo_world" if "j < 2" "proc_at (demo_vmm 0 []) demo_world j = Some u" for j u
    using that f c0 demo_coherent by (auto simp: proc_at_def proc_fine_def simp del: One_nat_def split: if_splits)
  then show ?thesis by (simp add: sys_ok_def)
qed

lemma demo_memory:
  "regions (demo_vmm 0 []) demo_world 1 67 = Some (66, 70)" "memories (demo_vmm 0 []) demo_world 1 67 = Some 7"
  "regions (demo_vmm 0 []) demo_world 1 69 = Some (66, 70)" "memories (demo_vmm 0 []) demo_world 1 69 = Some 0"
proof -
  have p: "proc_at (demo_vmm 0 []) demo_world 1 = Some (demo_vmm 1 [small_ate])" by (simp add: proc_at_def)
  have l: "mmu_lookup 2 [small_ate] 67 = Some small_ate" "mmu_lookup 2 [small_ate] 69 = Some small_ate"
    by (simp_all add: mmu_lookup_def contains_iff region_end_def SIZE_MOD_def)
  have dt: "data small_ate 1 = 7" "data small_ate 3 = 0" by (simp_all add: small_ate_def)
  show "regions (demo_vmm 0 []) demo_world 1 67 = Some (66, 70)" "regions (demo_vmm 0 []) demo_world 1 69 = Some (66, 70)"
    unfolding regions_def p by (simp_all add: region_def l region_end_def)
  show "memories (demo_vmm 0 []) demo_world 1 67 = Some 7" "memories (demo_vmm 0 []) demo_world 1 69 = Some 0"
    unfolding memories_def p by (simp_all add: peek_def l byte_of_def dt del: One_nat_def) (simp_all add: dt [simplified])
qed

text \<open>C1: The library is transparent.  In a system of processes that each fit into memory, every
  program of loads and stores, of explicit touching and evicting of ranges or of everything,
  and of switches between the processes, runs to its end while system calls succeed: no access
  gets stuck on a fault, no assertion fails, admission always succeeds.  Every load returns
  what it would return if each process simply had its own memory: the value of the last store of
  the process to that address, or the value that was there at the beginning, although pages of
  all processes are written to disk, read back and taken from one process for another on the way.\<close>
theorem transparent_memory:
  assumes "sys_ok v w" and "all_allowed (n_procs (vipc v)) (regions v w) (iid (vipc v)) cs"
  shows "\<exists>v' w'. run cs v w = Some (arun cs (iid (vipc v)) (memories v w), v', w') \<and> sys_ok v' w'"
  using assms by (rule run_refines)

theorem transparent_memory_witness:
  "\<exists>v' w'. run [Switch 1, Load 67, Store 69 5, Mevictall, Load 67, Mevict 66 4, Load 69] (demo_vmm 0 []) demo_world =
     Some ([None, Some 7, None, None, Some 7, None, Some 5], v', w')"
proof -
  let ?cs = "[Switch 1, Load 67, Store 69 5, Mevictall, Load 67, Mevict 66 4, Load 69]"
  have r66: "regions (demo_vmm 0 []) demo_world 1 66 = Some (66, 70)"
  proof -
    have "proc_at (demo_vmm 0 []) demo_world 1 = Some (demo_vmm 1 [small_ate])" by (simp add: proc_at_def)
    then show ?thesis unfolding regions_def by (simp add: region_def region_end_def)
  qed
  have "all_allowed (n_procs (vipc (demo_vmm 0 []))) (regions (demo_vmm 0 []) demo_world) (iid (vipc (demo_vmm 0 []))) ?cs"
    using demo_memory r66 by (simp del: One_nat_def)
  moreover have "arun ?cs 0 (memories (demo_vmm 0 []) demo_world) = [None, Some 7, None, None, Some 7, None, Some 5]"
    using demo_memory by (simp del: One_nat_def)
  ultimately show ?thesis using transparent_memory [OF demo_sys_ok, of ?cs] by auto
qed

end
