(* ===== verification/Clear.thy ===== *)
theory Clear
  imports Touch
begin

text \<open>
  Discarding contents (\<open>src/api/mclear.c\<close>): a page that lies inside the range is no longer
  dirty and no longer read from disk.  Pages that the range covers only in part keep their
  contents.
\<close>

subsection \<open>Operations\<close>

text \<open>The pages fully inside \<open>[x, x + len)\<close>: \<open>beg\<close> is a ceiling, \<open>end\<close> a floor.\<close>

definition inner_beg :: "vmm \<Rightarrow> ate \<Rightarrow> nat \<Rightarrow> nat" where
  "inner_beg v a x = (if x = base a then 0 else addw 1 (subw (subw x (base a)) 1 div page_size v))"

definition inner_end :: "vmm \<Rightarrow> ate \<Rightarrow> nat \<Rightarrow> nat \<Rightarrow> nat" where
  "inner_end v a x len = subw (addw x len) (base a) div page_size v"

definition sbma_mclear_probe :: "vmm \<Rightarrow> 'a world_scheme \<Rightarrow> ate \<Rightarrow> nat \<Rightarrow> nat \<Rightarrow> nat option" where
  "sbma_mclear_probe v w a x len = do {
     fs \<leftarrow> flag_span a (inner_beg v a x) (inner_end v a x len);
     Some (VMM_TO_SYS v w (length (filter dirty fs)))
   }"

definition sbma_mclear_int ::
  "vmm \<Rightarrow> 'a world_scheme \<Rightarrow> ate \<Rightarrow> nat \<Rightarrow> nat \<Rightarrow> (int \<times> ate \<times> 'a world_scheme) option" where
  "sbma_mclear_int v w a x len = do {
     b \<leftarrow> Some (inner_beg v a x);
     e \<leftarrow> Some (inner_end v a x len);
     if b \<le> e then do {
       (ret, a, s) \<leftarrow> vmm_swap_x a b (subw e b) (sys w);
       Some (if ret = -1 then -1 else 0, a, with_sys s w)
     }
     else Some (0, a, w)
   }"

definition sbma_mclear ::
  "vmm \<Rightarrow> 'a world_scheme \<Rightarrow> nat \<Rightarrow> nat \<Rightarrow> (int \<times> vmm \<times> 'a world_scheme) option" where
  "sbma_mclear v w x len = do {
     SBMA_STATE_CHECK v w;
     case mmu_lookup (page_size v) (a_tbl v) x of
       None \<Rightarrow> Some (-1, v, w)
     | Some a \<Rightarrow> do {
         d \<leftarrow> sbma_mclear_probe v w a x len;
         (ret, a, w) \<leftarrow> sbma_mclear_int v w a x len;
         v \<leftarrow> Some (with_ate a v);
         if ret = -1 then Some (-1, v, w)
         else do {
           (ret, w) \<leftarrow> ipc_mevict (vipc v) 0 d w;
           if ret = -1 then Some (-1, v, w)
           else do {
             SBMA_STATE_CHECK v w;
             Some (0, v, w)
           }
         }
       }
   }"

text \<open>The loop of \<open>sbma_mclearall\<close> over the entries with the addresses \<open>ps\<close>.\<close>

fun mclearall_loop ::
  "vmm \<Rightarrow> 'a world_scheme \<Rightarrow> nat list \<Rightarrow> nat \<Rightarrow> (bool \<times> nat \<times> vmm \<times> 'a world_scheme) option" where
  "mclearall_loop v w [] d = Some (True, d, v, w)"
| "mclearall_loop v w (p # ps) d = do {
     a \<leftarrow> ate_at v p;
     d \<leftarrow> Some (addw d (d_pages a));
     (ret, v, w) \<leftarrow> sbma_mclear v w (base a) (mulw (n_pages a) (page_size v));
     if ret = -1 then Some (False, d, v, w)
     else do {
       a \<leftarrow> ate_at v p;
       ASSERT (d_pages a = 0);
       mclearall_loop v w ps d
     }
   }"

definition sbma_mclearall :: "vmm \<Rightarrow> 'a world_scheme \<Rightarrow> (int \<times> vmm \<times> 'a world_scheme) option" where
  "sbma_mclearall v w = do {
     SBMA_STATE_CHECK v w;
     (go, d, v, w) \<leftarrow> mclearall_loop v w (map addr (a_tbl v)) 0;
     if \<not> go then Some (-1, v, w)
     else do {
       (ret, w) \<leftarrow> ipc_mdirty (vipc v) (to_ssize (subw 0 (VMM_TO_SYS v w d))) w;
       if ret = -1 then Some (-1, v, w)
       else do {
         SBMA_STATE_CHECK v w;
         Some (0, v, w)
       }
     }
   }"

subsection \<open>Clearing a range\<close>

lemma inner_pages:
  assumes "in_range v a x len" and "region_end (page_size v) a < SIZE_MOD" and ps: "0 < page_size v"
  shows "inner_end v a x len = (x + len - base a) div page_size v" and "inner_end v a x len \<le> n_pages a"
    and "inner_beg v a x * page_size v < x - base a + page_size v" "x - base a \<le> inner_beg v a x * page_size v"
proof -
  let ?ps = "page_size v"
  have x: "base a \<le> x" "0 < len" "x + len \<le> base a + n_pages a * ?ps" "base a + n_pages a * ?ps < SIZE_MOD"
    using assms(1,2) by (auto simp: in_range_def region_end_def)
  have b: "subw x (base a) = x - base a" using x by (intro subw_exact) auto
  have "addw x len = x + len" "subw (x + len) (base a) = x + len - base a"
    using x by (auto intro!: addw_exact subw_exact)
  then show e: "inner_end v a x len = (x + len - base a) div ?ps" by (simp add: inner_end_def)
  have "x + len - base a \<le> n_pages a * ?ps" using x by linarith
  then show "inner_end v a x len \<le> n_pages a" unfolding e using ps div_le_mono [of "x + len - base a" "n_pages a * ?ps" ?ps] by simp
  have "inner_beg v a x * ?ps < x - base a + ?ps \<and> x - base a \<le> inner_beg v a x * ?ps"
  proof (cases "x = base a")
    case True
    then show ?thesis using ps by (simp add: inner_beg_def)
  next
    case False
    then have y: "0 < x - base a" using x(1) by simp
    have s: "subw (x - base a) 1 = x - base a - 1" using x y by (intro subw_exact) auto
    have "(x - base a - 1) div ?ps \<le> x - base a - 1" by (rule div_le_dividend)
    then have "1 + (x - base a - 1) div ?ps < SIZE_MOD" using x y by linarith
    then have "addw 1 ((x - base a - 1) div ?ps) = Suc ((x - base a - 1) div ?ps)" by (subst addw_exact) auto
    then have ib: "inner_beg v a x = Suc ((x - base a - 1) div ?ps)" using False b s by (simp add: inner_beg_def)
    define q r where "q = (x - base a - 1) div ?ps" and "r = (x - base a - 1) mod ?ps"
    have "x - base a - 1 = q * ?ps + r" "r < ?ps" using ps by (simp_all add: q_def r_def)
    then have "x - base a = q * ?ps + r + 1" "r < ?ps" using y by linarith+
    then show ?thesis unfolding ib by (fold q_def) simp
  qed
  then show "inner_beg v a x * ?ps < x - base a + ?ps" "x - base a \<le> inner_beg v a x * ?ps" by simp_all
qed


text \<open>What discarding the pages \<open>b, \<dots>, e - 1\<close> of \<open>a\<close> does.\<close>

definition discarded :: "vmm \<Rightarrow> 'a world_scheme \<Rightarrow> ate \<Rightarrow> byte list \<Rightarrow> nat \<Rightarrow> nat \<Rightarrow> ate \<Rightarrow> 'a world_scheme \<Rightarrow> bool" where
  "discarded v w a f b e a' w' \<longleftrightarrow>
     same_place a a' \<and> lean a' \<and> quiet w' \<and> w' = with_sys (sys w') w \<and> files (sys w') = files (sys w) \<and>
     stored v w' a' f \<and> data a' = data a \<and> flags a' = map_range b (e - b) clear_flag (flags a) \<and>
     c_pages a' = c_pages a \<and> d_pages a' + length (filter dirty (span b (e - b) (flags a))) = d_pages a"

lemma cleared_sound:
  assumes cl: "cleared b n a s (True, a', s')" and sd: "sound ps f a"
  shows "sound ps f a'"
proof -
  have fl: "flags a' = map_range b n clear_flag (flags a)" and "wf_ate a'" "data a' = data a"
    using cl by (auto simp: cleared_def)
  moreover have "filed ps f a'" using sd by (auto simp: sound_def filed_def fl)
  moreover have "zeroed ps a'" using sd \<open>data a' = data a\<close> by (auto simp: sound_def zeroed_def fl)
  ultimately show ?thesis by (simp add: sound_def)
qed

lemma swap_x_discarded:
  assumes sz: "sized v w" and q: "quiet w" and lean: "lean a" and st: "stored v w a f"
    and be: "b \<le> e" "e \<le> n_pages a"
  shows "\<exists>a' s'. vmm_swap_x a b (e - b) (sys w) = Some (0, a', s') \<and> discarded v w a f b e a' (with_sys s' w)"
proof -
  have sd: "sound (page_size v) f a" using st by (simp add: stored_def)
  then have wf: "wf_ate a" by (simp add: sound_def)
  note ca = sound_counts [OF sd]
  obtain go a' s' where x: "vmm_swap_x a b (e - b) (sys w) = Some (if go then 0 else -1, a', s')"
    and cl: "cleared b (e - b) a (sys w) (go, a', s')"
    using swap_x_spec [OF wf, of b "e - b" "sys w"] be by auto
  have go: "go" "faults s' = []" using cl q by (auto simp: cleared_def quiet_def)
  note sd' = cleared_sound [OF cl [unfolded eqTrueI [OF go(1)]] sd]
  note ca' = sound_counts [OF sd']
  have f: "flags a' = map_range b (e - b) clear_flag (flags a)" "addr a' = addr a" "base a' = base a"
    "n_pages a' = n_pages a" "data a' = data a" "c_pages a' = c_pages a" "files s' = files (sys w)" "grants s' = grants (sys w)"
    using cl go by (auto simp: cleared_def)
  have "d_pages a' + length (filter dirty (span b (e - b) (flags a))) = d_pages a"
    unfolding ca(4) ca'(4) f(1) by (rule filter_map_range) (use be ca in auto)
  moreover have "lean a'" using lean by (auto simp: lean_def f(1) list_all_length)
  moreover have "stored v (with_sys s' w) a' f" using st sd' f by (simp add: stored_def vmm_fname_def)
  ultimately have "discarded v w a f b e a' (with_sys s' w)"
    using f go q by (simp add: discarded_def same_place_def quiet_def)
  with x go show ?thesis by auto
qed

lemma mclear_int_ok:
  assumes sz: "sized v w" and q: "quiet w" and lean: "lean a" and st: "stored v w a f"
    and re: "region_end (page_size v) a < SIZE_MOD" and rng: "in_range v a x len" and small: "n_pages a < 2147483648"
  shows "\<exists>a' w'. sbma_mclear_int v w a x len = Some (0, a', w') \<and>
           discarded v w a f (inner_beg v a x) (inner_end v a x len) a' w'"
proof (cases "inner_beg v a x \<le> inner_end v a x len")
  case True
  have ps: "0 < page_size v" using sz by (simp add: sized_def)
  note i = inner_pages(2) [OF rng re ps]
  have "subw (inner_end v a x len) (inner_beg v a x) = inner_end v a x len - inner_beg v a x"
    using True i small by (intro subw_exact) (auto simp: SIZE_MOD_def)
  moreover obtain a' s' where "vmm_swap_x a (inner_beg v a x) (inner_end v a x len - inner_beg v a x) (sys w) = Some (0, a', s')"
    "discarded v w a f (inner_beg v a x) (inner_end v a x len) a' (with_sys s' w)"
    using swap_x_discarded [OF sz q lean st True i] by blast
  ultimately show ?thesis using True
    by (intro exI [of _ a'] exI [of _ "with_sys s' w"]) (simp add: sbma_mclear_int_def)
next
  case False
  have "discarded v w a f (inner_beg v a x) (inner_end v a x len) a w"
    using False q lean st by (simp add: discarded_def same_place_def span_def)
  with False show ?thesis by (auto simp: sbma_mclear_int_def)
qed

lemma discarded_entry:
  assumes ok: "proc_ok v w" and a: "a \<in> set (a_tbl v)" and di: "discarded v w a f b e a' w'"
  shows "well_formed (with_ate a' v) w'"
    and "owing 0 (length (filter dirty (span b (e - b) (flags a)))) (with_ate a' v) w'"
proof -
  have wf: "well_formed v w" and ac: "accounted v w" using ok by (auto simp: proc_ok_def)
  have di': "same_place a a'" "w' = with_sys (sys w') w" "lean a'" "stored v w' a' f" "files (sys w') = files (sys w)"
    "c_pages a' = c_pages a" "d_pages a' + length (filter dirty (span b (e - b) (flags a))) = d_pages a"
    using di unfolding discarded_def by blast+
  have sh: "wf_shm (vipc v) w'" "sc_page w' = sc_page w" "c_mem w' = c_mem w" "d_mem w' = d_mem w"
    "VMM_TO_SYS v w' k = VMM_TO_SYS v w k" for k
    using wf by (subst di'(2); simp add: well_formed_def)+
  show "well_formed (with_ate a' v) w'"
    by (rule well_formed_put [OF wf a di'(1,3,4)]) (simp_all add: di'(5) sh)
  have d: "distinct (map addr (a_tbl v))" using wf by (simp add: well_formed_def)
  note s = sums_put [OF d a di'(1)]
  then have "csum v (put_ate a' (a_tbl v)) = csum v (a_tbl v)"
    "dsum (put_ate a' (a_tbl v)) + length (filter dirty (span b (e - b) (flags a))) = dsum (a_tbl v)"
    using di'(6,7) by linarith+
  with s(3) show "owing 0 (length (filter dirty (span b (e - b) (flags a)))) (with_ate a' v) w'"
    using well_formed_sums [OF wf] ac by (simp add: owing_def accounted_def sh)
qed

text \<open>A successful discard of the pages \<open>b, \<dots>, e - 1\<close>: the process stays consistent, the pages
  are clean and no longer read from disk, all others are as they were, and no memory changes.\<close>

definition clear_post ::
  "vmm \<Rightarrow> 'a world_scheme \<Rightarrow> ate \<Rightarrow> byte list \<Rightarrow> nat \<Rightarrow> nat \<Rightarrow> vmm \<Rightarrow> 'a world_scheme \<Rightarrow> bool" where
  "clear_post v w a f b e v' w' \<longleftrightarrow> proc_ok v' w' \<and> quiet w' \<and> frame w w' \<and> s_mem w' = s_mem w \<and>
     c_mem w' = c_mem w \<and> files (sys w') = files (sys w) \<and>
     (\<exists>a'. v' = with_ate a' v \<and> same_place a a' \<and> stored v' w' a' f \<and> data a' = data a \<and>
        flags a' = map_range b (e - b) clear_flag (flags a) \<and>
        d_pages a' + length (filter dirty (span b (e - b) (flags a))) = d_pages a)"

lemma mclear_ok:
  assumes ok: "proc_ok v w" and q: "quiet w" and m: "0 < inter_mtx w"
    and l: "mmu_lookup (page_size v) (a_tbl v) x = Some a" and st: "stored v w a f" and rng: "in_range v a x len"
  shows "\<exists>v' w'. sbma_mclear v w x len = Some (0, v', w') \<and>
           clear_post v w a f (inner_beg v a x) (inner_end v a x len) v' w'"
proof -
  let ?b = "inner_beg v a x" and ?e = "inner_end v a x len"
  let ?d = "length (filter dirty (span ?b (?e - ?b) (flags a)))"
  have a: "a \<in> set (a_tbl v)" using mmu_lookup_SomeD [OF l] by simp
  have wf: "well_formed v w" using ok by (simp add: proc_ok_def)
  note e = well_formed_entry [OF wf a]
  obtain a' w1 where i: "sbma_mclear_int v w a x len = Some (0, a', w1)" and di: "discarded v w a f ?b ?e a' w1"
    using mclear_int_ok [OF e(6) q e(2) st e(4) rng e(7)] by blast
  note en = discarded_entry [OF ok a di]
  have d': "w1 = with_sys (sys w1) w" "same_place a a'" "quiet w1" "files (sys w1) = files (sys w)"
    "stored v w1 a' f" "data a' = data a" "flags a' = map_range ?b (?e - ?b) clear_flag (flags a)"
    "d_pages a' + ?d = d_pages a"
    using di unfolding discarded_def by blast+
  have sh: "VMM_TO_SYS v w1 k = VMM_TO_SYS v w k" "inter_mtx w1 = inter_mtx w" "total w1 = total w"
    "s_mem w1 = s_mem w" "c_mem w1 = c_mem w" "d_mem w1 = d_mem w" "sigs w1 = sigs w" "sc_page w1 = sc_page w"
    "procs w1 = procs w" "pids w1 = pids w" for k by (subst d'(1); simp)+
  let ?v = "with_ate a' v" and ?w = "credit (iid (vipc v)) 0 (VMM_TO_SYS v w ?d) w1"
  have ok': "proc_ok ?v ?w" using owing_credit(3) [OF en] by (simp add: sh)
  have mv: "ipc_mevict (vipc v) 0 (VMM_TO_SYS v w ?d) w1 = Some (0, ?w)"
    using mevict_credit [OF en] m by (simp add: sh)
  have "flag_span a ?b ?e = Some (span ?b (?e - ?b) (flags a))"
    using inner_pages(2) [OF rng e(4,5)] well_formed_counts(1) [OF wf a] by (auto simp: flag_span_def span_def)
  then have pr: "sbma_mclear_probe v w a x len = Some (VMM_TO_SYS v w ?d)" by (simp add: sbma_mclear_probe_def)
  have "iid (vipc v) < length (c_mem w)" using wf by (simp add: well_formed_def wf_shm_def in_shm_def)
  then have "total ?w = total w" "c_mem ?w = c_mem w" by (simp_all add: sh)
  then have "clear_post v w a f ?b ?e ?v ?w"
    unfolding clear_post_def frame_def using ok' d' by (simp add: sh stored_def) blast
  moreover have "sbma_mclear v w x len = Some (0, ?v, ?w)"
    using ok l pr i mv ok' by (simp add: sbma_mclear_def)
  ultimately show ?thesis by blast
qed

subsection \<open>Clearing everything\<close>

lemma whole_inner:
  assumes "0 < page_size v" and "region_end (page_size v) a < SIZE_MOD"
  shows "inner_beg v a (base a) = 0" "inner_end v a (base a) (mulw (n_pages a) (page_size v)) = n_pages a"
proof -
  have "mulw (n_pages a) (page_size v) = n_pages a * page_size v"
    using assms(2) by (intro mulw_exact) (simp add: region_end_def)
  moreover have "addw (base a) (n_pages a * page_size v) = base a + n_pages a * page_size v"
    using assms(2) by (intro addw_exact) (simp add: region_end_def)
  moreover have "subw (base a + n_pages a * page_size v) (base a) = n_pages a * page_size v"
    using assms(2) by (subst subw_exact) (auto simp: region_end_def)
  ultimately show "inner_end v a (base a) (mulw (n_pages a) (page_size v)) = n_pages a"
    using assms(1) by (simp add: inner_end_def)
qed (simp add: inner_beg_def)

lemma mclear_whole:
  assumes ok: "proc_ok v w" and q: "quiet w" and m: "0 < inter_mtx w" and a: "a \<in> set (a_tbl v)"
  shows "\<exists>v' w' a'. sbma_mclear v w (base a) (mulw (n_pages a) (page_size v)) = Some (0, v', w') \<and>
           proc_ok v' w' \<and> quiet w' \<and> frame w w' \<and> v' = with_ate a' v \<and> addr a' = addr a \<and> d_pages a' = 0"
proof -
  have wf: "well_formed v w" using ok by (simp add: proc_ok_def)
  note e = well_formed_entry [OF wf a]
  obtain f where st: "stored v w a f" using e(3) by blast
  note wr = whole_range [OF e(1,5,4)] and wi = whole_inner [OF e(5,4)]
  have "contains (page_size v) a (base a)" using e(1,5) by (simp add: contains_iff [OF e(4)] region_end_def)
  then have l: "mmu_lookup (page_size v) (a_tbl v) (base a) = Some a"
    using wf a by (intro mmu_lookup_unique) (auto simp: well_formed_def)
  obtain v' w' where c: "sbma_mclear v w (base a) (mulw (n_pages a) (page_size v)) = Some (0, v', w')"
    and p: "clear_post v w a f 0 (n_pages a) v' w'"
    using mclear_ok [OF ok q m l st wr(1)] unfolding wi by blast
  have "span 0 (n_pages a - 0) (flags a) = flags a" using well_formed_counts(1) [OF wf a] by (simp add: span_def)
  moreover obtain a' where "v' = with_ate a' v" "same_place a a'"
    "d_pages a' + length (filter dirty (span 0 (n_pages a - 0) (flags a))) = d_pages a"
    using p unfolding clear_post_def by blast
  ultimately have "v' = with_ate a' v" "addr a' = addr a" "d_pages a' = 0"
    using well_formed_counts(4) [OF wf a] by (simp_all add: same_place_def)
  with c p show ?thesis unfolding clear_post_def by blast
qed

lemma put_ate_mid:
  assumes "distinct (map addr (xs @ a # ys))" and "addr a' = addr a"
  shows "put_ate a' (xs @ a # ys) = xs @ a' # ys"
proof -
  have "map (\<lambda>b. if addr b = addr a' then a' else b) zs = zs" if "addr a \<notin> addr ` set zs" for zs
    by (rule map_idI) (use that assms(2) in \<open>auto simp: image_iff\<close>)
  with assms show ?thesis by (simp add: put_ate_def)
qed

lemma ate_at_mid: "distinct (map addr (xs @ a # ys)) \<Longrightarrow> a_tbl v = xs @ a # ys \<Longrightarrow> ate_at v (addr a) = Some a"
  unfolding ate_at_def by (rule find_eq_unique) (auto simp: image_iff)

lemma mclearall_loop_ok:
  assumes "proc_ok v w" and "quiet w" and "0 < inter_mtx w" and "a_tbl v = xs @ ys" and "d + dsum ys < SIZE_MOD"
  shows "\<exists>v' w'. mclearall_loop v w (map addr ys) d = Some (True, d + dsum ys, v', w') \<and> proc_ok v' w' \<and> quiet w' \<and>
           dsum (a_tbl v') = dsum xs \<and> frame w w' \<and> page_size v' = page_size v \<and> vipc v' = vipc v"
  using assms
proof (induction ys arbitrary: xs v w d)
  case Nil
  then show ?case by (simp add: dsum_def frame_def)
next
  case (Cons a ys)
  have dist: "distinct (map addr (xs @ a # ys))"
    using Cons.prems(1,4) by (simp add: proc_ok_def well_formed_def)
  obtain v1 w1 a' where c: "sbma_mclear v w (base a) (mulw (n_pages a) (page_size v)) = Some (0, v1, w1)"
    and p: "proc_ok v1 w1" "quiet w1" "frame w w1" "v1 = with_ate a' v" "addr a' = addr a" "d_pages a' = 0"
    using mclear_whole [OF Cons.prems(1-3), of a] Cons.prems(4) by auto
  have t: "a_tbl v1 = xs @ a' # ys" using p(4) Cons.prems(4) put_ate_mid [OF dist p(5)] by simp
  have dist1: "distinct (map addr (xs @ a' # ys))" using dist p(5) by simp
  have d: "addw d (d_pages a) = d + d_pages a" "d + d_pages a + dsum ys < SIZE_MOD"
    using Cons.prems(5) by (simp_all add: dsum_def addw_exact)
  have "\<exists>v' w'. mclearall_loop v1 w1 (map addr ys) (d + d_pages a) = Some (True, d + d_pages a + dsum ys, v', w') \<and>
      proc_ok v' w' \<and> quiet w' \<and> dsum (a_tbl v') = dsum (xs @ [a']) \<and> frame w1 w' \<and>
      page_size v' = page_size v1 \<and> vipc v' = vipc v1"
    by (rule Cons.IH) (use p t d Cons.prems(3) in \<open>auto simp: frame_def\<close>)
  with c p d ate_at_mid [OF dist Cons.prems(4)] ate_at_mid [OF dist1 t] show ?case
    by (auto simp: dsum_def frame_def add.assoc)
qed


lemma to_ssize_neg:
  assumes "k < 9223372036854775808"
  shows "to_ssize (subw 0 k) = - int k"
proof (cases "k = 0")
  case False
  have "int (18446744073709551616 - k) + 9223372036854775808 = (9223372036854775808 - int k) + 18446744073709551616"
    using assms by (simp add: of_nat_diff)
  then have "(int (18446744073709551616 - k) + 9223372036854775808) mod 18446744073709551616 = 9223372036854775808 - int k"
    using assms False by (simp only: mod_add_self2) simp
  with False assms show ?thesis by (simp add: to_ssize_def subw_def SIZE_MOD_def)
qed (simp add: to_ssize_def subw_def)

lemma mclearall_ok:
  assumes ok: "proc_ok v w" and "quiet w" and "0 < inter_mtx w"
  shows "if dsum (a_tbl v) = 0 then \<exists>v' w'. sbma_mclearall v w = Some (0, v', w') \<and> proc_ok v' w'
         else sbma_mclearall v w = None"
proof -
  have wf: "well_formed v w" using ok by (simp add: proc_ok_def)
  have sz: "sized v w" using wf by (simp add: well_formed_def)
  have "\<exists>v' w'. mclearall_loop v w (map addr (a_tbl v)) 0 = Some (True, 0 + dsum (a_tbl v), v', w') \<and> proc_ok v' w' \<and>
      quiet w' \<and> dsum (a_tbl v') = dsum [] \<and> frame w w' \<and> page_size v' = page_size v \<and> vipc v' = vipc v"
    by (rule mclearall_loop_ok [OF assms]) (use sums_no_wrap(2) [OF wf] in auto)
  then obtain v' w' where l: "mclearall_loop v w (map addr (a_tbl v)) 0 = Some (True, dsum (a_tbl v), v', w')"
    and p: "proc_ok v' w'" "dsum (a_tbl v') = 0" "frame w w'" "page_size v' = page_size v" "vipc v' = vipc v"
    by (auto simp: dsum_def)
  have T: "VMM_TO_SYS v' w' n = VMM_TO_SYS v w n" for n using p by (simp add: VMM_TO_SYS_def frame_def)
  have d0: "d_mem w' ! iid (vipc v') = 0" using p by (simp add: proc_ok_def accounted_def)
  have "0 < page_size v div sc_page w"
    using sz by (auto simp: sized_def dvd_def)
  then have pos: "0 < VMM_TO_SYS v w (dsum (a_tbl v)) \<longleftrightarrow> 0 < dsum (a_tbl v)"
    using TO_SYS_exact [OF sz well_formed_sums(2) [OF wf]] by simp
  have lt: "VMM_TO_SYS v w (dsum (a_tbl v)) < 9223372036854775808" by (rule TO_SYS_small [OF sz])
  have neg: "to_ssize (subw 0 (VMM_TO_SYS v w (dsum (a_tbl v)))) = - int (VMM_TO_SYS v w (dsum (a_tbl v)))"
    by (rule to_ssize_neg [OF lt])
  have "to_ssize 0 = 0" by (simp add: to_ssize_def)
  with ok l p(1) d0 pos show ?thesis by (auto simp: sbma_mclearall_def T neg ipc_mdirty_def)
qed

subsection \<open>Properties\<close>

text \<open>C23: \<open>sbma_mclear\<close> on a range inside an allocation.  While system calls succeed it returns 0;
  the pages that lie entirely inside the range (and no others) are clean and will not be
  read from disk any more, memory and files are unchanged, the invariant of the process
  holds again with the dirty pages of the range taken off its account, and the pages it is
  charged for stay the same.\<close>
theorem mclear_correct:
  assumes "proc_ok v w" and "quiet w" and "0 < inter_mtx w"
    and "mmu_lookup (page_size v) (a_tbl v) x = Some a" and "stored v w a f" and "in_range v a x len"
  shows "\<exists>v' w' b e. sbma_mclear v w x len = Some (0, v', w') \<and> clear_post v w a f b e v' w' \<and>
           (\<forall>q. b \<le> q \<and> q < e \<longleftrightarrow> x \<le> base a + q * page_size v \<and> base a + Suc q * page_size v \<le> x + len)"
proof -
  have a: "a \<in> set (a_tbl v)" using mmu_lookup_SomeD [OF assms(4)] by simp
  have wf: "well_formed v w" using assms(1) by (simp add: proc_ok_def)
  note e = well_formed_entry [OF wf a]
  note i = inner_pages [OF assms(6) e(4,5)]
  have x: "base a \<le> x" using assms(6) by (simp add: in_range_def)
  have "inner_beg v a x \<le> q \<longleftrightarrow> x - base a \<le> q * page_size v" for q
  proof
    assume "inner_beg v a x \<le> q"
    then show "x - base a \<le> q * page_size v" using i(4) mult_le_mono1 le_trans by blast
  next
    assume "x - base a \<le> q * page_size v"
    then have "inner_beg v a x * page_size v < Suc q * page_size v" using i(3) by simp
    then have "inner_beg v a x < Suc q" unfolding mult_less_cancel2 by blast
    then show "inner_beg v a x \<le> q" by simp
  qed
  moreover have "q < inner_end v a x len \<longleftrightarrow> Suc q * page_size v \<le> x + len - base a" for q
    unfolding i(1) using e(5) by (simp add: less_eq_div_iff_mult_less_eq flip: Suc_le_eq)
  ultimately have "\<forall>q. inner_beg v a x \<le> q \<and> q < inner_end v a x len \<longleftrightarrow>
      x \<le> base a + q * page_size v \<and> base a + Suc q * page_size v \<le> x + len"
    using x by auto
  with mclear_ok [OF assms] show ?thesis by blast
qed

theorem mclear_correct_witness:
  "\<exists>v' w' b e. sbma_mclear (demo_vmm 1 [small_ate]) demo_world 66 3 = Some (0, v', w') \<and>
     clear_post (demo_vmm 1 [small_ate]) demo_world small_ate [] b e v' w'"
  using mclear_correct [of "demo_vmm 1 [small_ate]" demo_world 66 small_ate "[]" 3] by (simp del: One_nat_def) blast

text \<open>C24: \<open>sbma_mclearall\<close> works only when there is nothing to clear.  It calls \<open>sbma_mclear\<close> for
  every allocation, which already takes the dirty pages off the process's account, and then
  takes them off a second time: with any dirty page the assertion in \<open>ipc_mdirty\<close> ends
  the program; without one it returns 0 and keeps the invariant.\<close>
theorem mclearall_aborts:
  assumes "proc_ok v w" and "quiet w" and "0 < inter_mtx w"
  shows "if dsum (a_tbl v) = 0 then \<exists>v' w'. sbma_mclearall v w = Some (0, v', w') \<and> proc_ok v' w'
         else sbma_mclearall v w = None"
  using assms by (rule mclearall_ok)

theorem mclearall_aborts_witness:
  "sbma_mclearall (demo_vmm 1 [small_ate]) demo_world = None"
  using mclearall_aborts [of "demo_vmm 1 [small_ate]" demo_world] by (simp add: dsum_def del: One_nat_def)

end
