(* ===== verification/Malloc.thy ===== *)
theory Malloc
  imports Touch
begin

text \<open>
  Allocating and freeing (\<open>src/api/malloc.c\<close>, \<open>calloc.c\<close>, \<open>free.c\<close>).

  An allocation is one mapping: the pages of \<open>struct ate\<close>, the application's pages and the
  pages of the status bytes.  The null pointer is 0.  The operating system chooses the
  address of a mapping: it is the next of the script \<open>places\<close>, and \<open>mmap\<close> fails when
  there is none.  New mappings are filled with zeros.  Inserting the entry into the table
  puts it in front and invalidating it removes it, as proved for the linked list in
  \<open>Mmu\<close>; without threads \<open>lock_init\<close> and \<open>lock_free\<close> return 0.  The loops
  \<open>for (;;)\<close> repeat only on the value -2, which \<open>ipc_madmit\<close> and \<open>ipc_mevict\<close> never
  return.
\<close>

subsection \<open>System calls\<close>

definition os_mmap :: "os \<Rightarrow> nat option \<times> os" where
  "os_mmap s =
     (case sys_call s of
        (False, s) \<Rightarrow> (None, s)
      | (True, s) \<Rightarrow> (case places s of [] \<Rightarrow> (None, s) | p # ps \<Rightarrow> (Some p, s\<lparr>places := ps\<rparr>)))"

text \<open>\<open>open\<close> with \<open>O_CREAT|O_EXCL\<close>, and \<open>unlink\<close>.\<close>

definition os_create :: "string \<Rightarrow> os \<Rightarrow> bool \<times> os" where
  "os_create g s =
     (case sys_call s of
        (False, s) \<Rightarrow> (False, s)
      | (True, s) \<Rightarrow> if files s g = None then (True, s\<lparr>files := (files s)(g \<mapsto> [])\<rparr>) else (False, s))"

definition os_unlink :: "string \<Rightarrow> os \<Rightarrow> bool \<times> os" where
  "os_unlink g s =
     (case sys_call s of
        (False, s) \<Rightarrow> (False, s)
      | (True, s) \<Rightarrow> if files s g = None then (False, s) else (True, s\<lparr>files := (files s)(g := None)\<rparr>))"

subsection \<open>Allocating\<close>

definition app_pages :: "vmm \<Rightarrow> nat \<Rightarrow> nat" where
  "app_pages v len = addw 1 (subw len 1 div page_size v)"

definition malloc_charge :: "vmm \<Rightarrow> nat \<Rightarrow> nat" where
  "malloc_charge v n =
     (if has (opts v) VMM_METACH
      then if has (opts v) VMM_RSDNT then addw (addw (struct_pages v) n) (flag_pages v n)
           else addw (struct_pages v) (flag_pages v n)
      else n)"

definition malloc_admit :: "vmm \<Rightarrow> 'a world_scheme \<Rightarrow> nat \<Rightarrow> (int \<times> vmm \<times> 'a world_scheme) option" where
  "malloc_admit v w n =
     (if has (opts v) VMM_METACH \<or> has (opts v) VMM_RSDNT then madmit v (VMM_TO_SYS v w (malloc_charge v n)) w
      else Some (0, v, w))"

text \<open>The entry at the address \<open>p\<close>; the mapping is zero.\<close>

definition malloc_ate :: "vmm \<Rightarrow> nat \<Rightarrow> nat \<Rightarrow> ate" where
  "malloc_ate v p n =
     \<lparr>addr = p, n_pages = n,
      l_pages = (if has (opts v) VMM_RSDNT then n else 0),
      c_pages = (if has (opts v) VMM_RSDNT then n else 0),
      d_pages = 0,
      base = addw p (mulw (struct_pages v) (page_size v)),
      flags = (if has (opts v) VMM_RSDNT then replicate n 0
               else map (\<lambda>f. f OR (MMU_CHRGD OR MMU_RSDNT)) (replicate n 0)),
      prots = replicate n (if has (opts v) VMM_RSDNT then PROT_READ else PROT_NONE),
      data = (\<lambda>_. 0)\<rparr>"

text \<open>\<open>RETURN\<close>, and the error exits from the last to the first.\<close>

definition malloc_return :: "nat \<Rightarrow> vmm \<Rightarrow> 'a world_scheme \<Rightarrow> (nat \<times> vmm \<times> 'a world_scheme) option" where
  "malloc_return retval v w = do { SBMA_STATE_CHECK v w; Some (retval, v, w) }"

definition malloc_cleanup1 :: "vmm \<Rightarrow> 'a world_scheme \<Rightarrow> nat \<Rightarrow> (nat \<times> vmm \<times> 'a world_scheme) option" where
  "malloc_cleanup1 v w n = do {
     (ret, w) \<leftarrow> (if has (opts v) VMM_METACH \<or> has (opts v) VMM_RSDNT
                   then ipc_mevict (vipc v) (VMM_TO_SYS v w (malloc_charge v n)) 0 w
                   else Some (0, w));
     malloc_return 0 v w
   }"

definition malloc_cleanup2 :: "vmm \<Rightarrow> 'a world_scheme \<Rightarrow> nat \<Rightarrow> (nat \<times> vmm \<times> 'a world_scheme) option" where
  "malloc_cleanup2 v w n = do {
     (ok, s) \<leftarrow> Some (sys_call (sys w));                       \<comment> \<open>munmap\<close>
     ASSERT ok;
     malloc_cleanup1 v (with_sys s w) n
   }"

definition malloc_cleanup3 ::
  "vmm \<Rightarrow> 'a world_scheme \<Rightarrow> nat \<Rightarrow> string \<Rightarrow> (nat \<times> vmm \<times> 'a world_scheme) option" where
  "malloc_cleanup3 v w n g = do {
     (ok, s) \<leftarrow> Some (sys_call (sys w));                       \<comment> \<open>close\<close>
     ASSERT ok;
     (ok, s) \<leftarrow> Some (os_unlink g s);
     ASSERT ok;
     malloc_cleanup2 v (with_sys s w) n
   }"

text \<open>The part after the mapping at \<open>p\<close>.  When \<open>open\<close> fails, the error exit closes the
  descriptor -1, which fails, and the assertion after it ends the program.\<close>

definition malloc_mapped ::
  "vmm \<Rightarrow> 'a world_scheme \<Rightarrow> nat \<Rightarrow> nat \<Rightarrow> (nat \<times> vmm \<times> 'a world_scheme) option" where
  "malloc_mapped v w n p =
     (case sys_call (sys w) of                                 \<comment> \<open>mprotect\<close>
        (False, s) \<Rightarrow> malloc_cleanup2 v (with_sys s w) n
      | (True, s) \<Rightarrow>
     (let g = swap_name (fstem v) (vpid v) p in
      case os_create g s of
        (False, s) \<Rightarrow> None
      | (True, s) \<Rightarrow>
     (case sys_call s of                                       \<comment> \<open>close\<close>
        (False, s) \<Rightarrow> malloc_cleanup3 v (with_sys s w) n g
      | (True, s) \<Rightarrow>
          malloc_return (base (malloc_ate v p n)) (v\<lparr>a_tbl := malloc_ate v p n # a_tbl v\<rparr>) (with_sys s w))))"

definition sbma_malloc :: "vmm \<Rightarrow> 'a world_scheme \<Rightarrow> nat \<Rightarrow> (nat \<times> vmm \<times> 'a world_scheme) option" where
  "sbma_malloc v w len =
     (if len = 0 then Some (0, v, w)
      else do {
        SBMA_STATE_CHECK v w;
        n \<leftarrow> Some (app_pages v len);
        (ret, v, w) \<leftarrow> malloc_admit v w n;
        if ret = -1 then malloc_return 0 v w
        else (case os_mmap (sys w) of
            (None, s) \<Rightarrow> malloc_cleanup1 v (with_sys s w) n
          | (Some p, s) \<Rightarrow> malloc_mapped v (with_sys s w) n p)
      })"

definition sbma_calloc :: "vmm \<Rightarrow> 'a world_scheme \<Rightarrow> nat \<Rightarrow> nat \<Rightarrow> (nat \<times> vmm \<times> 'a world_scheme) option" where
  "sbma_calloc v w num len = sbma_malloc v w (mulw num len)"

subsection \<open>Freeing\<close>

text \<open>The entry is found by its address alone; where there is none, the access is undefined.
  What the calls before it stored in \<open>retval\<close> is overwritten by the result of
  \<open>ipc_mevict\<close>.\<close>

definition sbma_free :: "vmm \<Rightarrow> 'a world_scheme \<Rightarrow> nat \<Rightarrow> (int \<times> vmm \<times> 'a world_scheme) option" where
  "sbma_free v w ptr = do {
     SBMA_STATE_CHECK v w;
     a \<leftarrow> ate_at v (subw ptr (mulw (struct_pages v) (page_size v)));
     f \<leftarrow> Some (flag_pages v (n_pages a));
     (ok, s) \<leftarrow> Some (os_unlink (vmm_fname v a) (sys w));
     v \<leftarrow> Some (v\<lparr>a_tbl := remove1 a (a_tbl v)\<rparr>);
     (ok, s) \<leftarrow> Some (sys_call s);                             \<comment> \<open>munmap\<close>
     w \<leftarrow> Some (with_sys s w);
     (retval, w) \<leftarrow>
       (if has (opts v) VMM_METACH
        then ipc_mevict (vipc v) (VMM_TO_SYS v w (addw (addw (struct_pages v) (c_pages a)) f)) (VMM_TO_SYS v w (d_pages a)) w
        else ipc_mevict (vipc v) (VMM_TO_SYS v w (c_pages a)) (VMM_TO_SYS v w (d_pages a)) w);
     SBMA_STATE_CHECK v w;
     Some (retval, v, w)
   }"


subsection \<open>A new entry\<close>

text \<open>The pages that an allocation of \<open>n\<close> pages is charged for at first.\<close>

definition malloc_need :: "vmm \<Rightarrow> nat \<Rightarrow> nat" where
  "malloc_need v n = (if has (opts v) VMM_METACH \<or> has (opts v) VMM_RSDNT then malloc_charge v n else 0)"

text \<open>What \<open>mmap\<close> and the directory promise: the new mapping does not meet an allocation, and
  there is no file with its name.\<close>

definition fresh_at :: "vmm \<Rightarrow> 'a world_scheme \<Rightarrow> nat \<Rightarrow> nat \<Rightarrow> bool" where
  "fresh_at v w p n \<longleftrightarrow>
     p + (struct_pages v + n + flag_pages v n) * page_size v < SIZE_MOD \<and>
     files (sys w) (swap_name (fstem v) (vpid v) p) = None \<and>
     (\<forall>a\<in>set (a_tbl v). addr a \<noteq> p \<and>
        (p + (struct_pages v + n + flag_pages v n) * page_size v \<le> base a \<or> region_end (page_size v) a \<le> p))"

lemma malloc_ate_simps [simp]:
  "addr (malloc_ate v p n) = p" "n_pages (malloc_ate v p n) = n" "d_pages (malloc_ate v p n) = 0"
  "data (malloc_ate v p n) = (\<lambda>_. 0)" "c_pages (malloc_ate v p n) = (if has (opts v) VMM_RSDNT then n else 0)"
  "vmm_fname v (malloc_ate v' p n) = swap_name (fstem v) (vpid v) p"
  by (simp_all add: malloc_ate_def vmm_fname_def)

lemma zero_flag: "resident 0" "charged 0" "\<not> dirty 0" "\<not> on_disk 0"
  "\<not> resident (MMU_CHRGD OR MMU_RSDNT)" "\<not> charged (MMU_CHRGD OR MMU_RSDNT)" "\<not> dirty (MMU_CHRGD OR MMU_RSDNT)"
  "\<not> on_disk (MMU_CHRGD OR MMU_RSDNT)"
  by (simp_all add: flag_ops)

lemma malloc_ate_sound: "sound ps [] (malloc_ate v p n)" "lean (malloc_ate v p n)"
proof -
  let ?x = "if has (opts v) VMM_RSDNT then 0 else MMU_CHRGD OR MMU_RSDNT"
  have fl: "flags (malloc_ate v p n) = replicate n ?x" by (simp add: malloc_ate_def)
  have "wf_ate (malloc_ate v p n)"
    by (simp add: wf_ate_def counts_ok_def prots_ok_def pages_ok_def fl list_all_length page_ok_def zero_flag)
       (simp add: malloc_ate_def prot_of_def zero_flag)
  then show "sound ps [] (malloc_ate v p n)"
    by (auto simp: sound_def filed_def zeroed_def fl zero_flag)
  show "lean (malloc_ate v p n)" by (simp add: lean_def fl list_all_length zero_flag)
qed

lemma malloc_ate_zero: "i div ps < n \<Longrightarrow> holds ps [] (malloc_ate v p n) i 0"
  by (simp add: holds_def disk_byte_def Let_def malloc_ate_def zero_flag)

lemma fresh_region:
  assumes f: "fresh_at v w p n"
  shows "base (malloc_ate v p n) = p + struct_pages v * page_size v"
    and "region_end (page_size v) (malloc_ate v p n) = p + (struct_pages v + n) * page_size v"
    and "apart (page_size v) (a_tbl v) \<Longrightarrow> apart (page_size v) (malloc_ate v p n # a_tbl v)"
proof -
  let ?ps = "page_size v" and ?s = "struct_pages v"
  have e: "p + ?s * ?ps + n * ?ps + flag_pages v n * ?ps < SIZE_MOD"
    using f by (simp add: fresh_at_def algebra_simps)
  then have "mulw ?s ?ps = ?s * ?ps" by (intro mulw_exact) linarith
  then show b: "base (malloc_ate v p n) = p + ?s * ?ps" using e by (simp add: malloc_ate_def addw_exact)
  then show r: "region_end ?ps (malloc_ate v p n) = p + (?s + n) * ?ps" by (simp add: region_end_def algebra_simps)
  show "apart ?ps (malloc_ate v p n # a_tbl v)" if "apart ?ps (a_tbl v)"
    using that e f unfolding apart.simps r b by (auto simp: list_all_iff fresh_at_def algebra_simps)
qed

lemma malloc_need_eq:
  assumes f: "fresh_at v w p n" and ps: "0 < page_size v"
  shows "malloc_need v n = meta_pages v (malloc_ate v p n) + c_pages (malloc_ate v p n)"
proof -
  have "struct_pages v + n + flag_pages v n \<le> (struct_pages v + n + flag_pages v n) * page_size v" using ps by simp
  moreover have "p + (struct_pages v + n + flag_pages v n) * page_size v < SIZE_MOD" using f by (simp add: fresh_at_def)
  ultimately have "struct_pages v + n + flag_pages v n < SIZE_MOD" by linarith
  then show ?thesis by (simp add: malloc_need_def malloc_charge_def meta_pages_def addw_exact)
qed

lemma malloc_admit_eq: "malloc_admit v w n = admit v w (VMM_TO_SYS v w (malloc_need v n))"
  by (auto simp: malloc_admit_def malloc_need_def admit_def madmit_def ipc_madmit_def VMM_TO_SYS_def mulw_def)

lemma add_tbl_simps [simp]:
  "vmm_fname (v\<lparr>a_tbl := t\<rparr>) = vmm_fname v" "VMM_TO_SYS (v\<lparr>a_tbl := t\<rparr>) = VMM_TO_SYS v"
  "meta_pages (v\<lparr>a_tbl := t\<rparr>) = meta_pages v" "csum (v\<lparr>a_tbl := t\<rparr>) = csum v" "nsum (v\<lparr>a_tbl := t\<rparr>) = nsum v"
  "stored (v\<lparr>a_tbl := t\<rparr>) = stored v" "entry_ok (v\<lparr>a_tbl := t\<rparr>) = entry_ok v"
proof -
  show "vmm_fname (v\<lparr>a_tbl := t\<rparr>) = vmm_fname v" "VMM_TO_SYS (v\<lparr>a_tbl := t\<rparr>) = VMM_TO_SYS v"
    by (simp_all add: vmm_fname_def VMM_TO_SYS_def fun_eq_iff)
  then show st: "stored (v\<lparr>a_tbl := t\<rparr>) = stored v" for v :: vmm by (simp add: stored_def vmm_fname_def fun_eq_iff)
  show "entry_ok (v\<lparr>a_tbl := t\<rparr>) = entry_ok v" by (simp add: entry_ok_def st fun_eq_iff)
qed (rule meta_pages_cong; simp)+

lemma well_formed_add:
  assumes wf: "well_formed v w" and sz: "sized (v\<lparr>a_tbl := a # a_tbl v\<rparr>) w" and ap: "apart (page_size v) (a # a_tbl v)"
    and new: "addr a \<notin> addr ` set (a_tbl v)" "vmm_fname v a \<notin> names v" "entry_ok v w' a"
    and old: "\<And>g. g \<in> names v \<Longrightarrow> files (sys w') g = files (sys w) g"
    and shm: "wf_shm (vipc v) w'" "sc_page w' = sc_page w"
  shows "well_formed (v\<lparr>a_tbl := a # a_tbl v\<rparr>) w'"
proof -
  have "list_all (entry_ok v w') (a_tbl v)"
    using wf old by (auto simp: well_formed_def list_all_iff entry_ok_def stored_def names_def)
  moreover have "vmm_fname v a \<notin> set (map (vmm_fname v) (a_tbl v))" using new(2) by (simp add: names_def)
  ultimately show ?thesis
    using wf sz ap new shm by (simp add: well_formed_def sized_def)
qed

subsection \<open>Allocation succeeds\<close>

text \<open>A successful allocation: a new entry in front of the table whose bytes are all zero, and
  nothing else changes for any process.\<close>

definition malloc_post :: "vmm \<Rightarrow> 'a world_scheme \<Rightarrow> nat \<Rightarrow> nat \<Rightarrow> vmm \<Rightarrow> 'a world_scheme \<Rightarrow> bool" where
  "malloc_post v w p n v' w' \<longleftrightarrow> company v' w' \<and> since v w v' w' \<and> total w' = total w \<and> inter_mtx w' = inter_mtx w \<and>
     alike (v\<lparr>a_tbl := malloc_ate v p n # a_tbl v\<rparr>) v' \<and> stored v' w' (malloc_ate v p n) [] \<and>
     (\<forall>g\<in>names v. files (sys w') g = files (sys w) g)"

lemma company_fresh:
  assumes co: "company me w" and j: "j < n_procs (vipc me)" "j \<noteq> iid (vipc me)" "procs w j = Some v"
    and g: "files (sys w) g = None"
  shows "g \<notin> names v"
proof -
  obtain u where "obliging me w j u" using co j(1) unfolding company_def by blast
  then have "proc_ok v w" using j by (auto simp: obliging_def proc_at_def)
  then show ?thesis using g
    by (auto simp: names_def proc_ok_def well_formed_def list_all_iff entry_ok_def stored_def)
qed

lemma self_fresh: "well_formed v w \<Longrightarrow> files (sys w) g = None \<Longrightarrow> g \<notin> names v"
  by (auto simp: names_def well_formed_def list_all_iff entry_ok_def stored_def)

lemma intact_subset:
  assumes "page_size v' = page_size v" "vmm_fname v' = vmm_fname v" and "set (a_tbl v) \<subseteq> set (a_tbl v')"
    and "\<And>g. g \<in> names v \<Longrightarrow> files (sys w') g = files (sys w) g"
  shows "intact v w v' w'"
proof -
  have "stored v' w' a f" if "a \<in> set (a_tbl v)" "stored v w a f" for a f
    using that assms(1,2) assms(4) [of "vmm_fname v a"] by (simp add: names_def stored_def)
  then show ?thesis unfolding intact_def using assms(1,3) by (meson kept_refl same_place_refl subsetD)
qed

text \<open>The state after the entry has been put into the table, from the state after admission.\<close>

lemma malloc_postI:
  assumes h: "held me w w1" and al: "alike me v" and tot: "total w1 = total w" "inter_mtx w1 = inter_mtx w"
    and c: "VMM_TO_SYS me w (malloc_need me n) \<le> s_mem w1"
    and fr: "fresh_at me w p n" and n: "0 < n" and sz: "sized (me\<lparr>a_tbl := malloc_ate me p n # a_tbl me\<rparr>) w"
    and w': "w' = with_sys s (debit (iid (vipc me)) (VMM_TO_SYS me w (malloc_need me n)) w1)"
    and s: "faults s = []" "grants s = []" "files s = (files (sys w1))(swap_name (fstem me) (vpid me) p \<mapsto> [])"
  shows "malloc_post me w p n (v\<lparr>a_tbl := malloc_ate me p n # a_tbl me\<rparr>) w'"
proof -
  let ?a = "malloc_ate me p n" and ?c = "VMM_TO_SYS me w (malloc_need me n)" and ?g = "swap_name (fstem me) (vpid me) p"
  let ?me = "me\<lparr>a_tbl := malloc_ate me p n # a_tbl me\<rparr>" and ?v = "v\<lparr>a_tbl := malloc_ate me p n # a_tbl me\<rparr>"
  have co: "company me w1" and s1: "since me w me w1" and g: "files (sys w1) ?g = None"
    and sc: "sc_page w1 = sc_page w"
    using h fr by (auto simp: held_def since_def fresh_at_def)
  have ok1: "proc_ok me w1" by (rule company_self [OF co])
  then have wf1: "well_formed me w1" and ac1: "accounted me w1" by (simp_all add: proc_ok_def)
  have sz1: "sized ?me w1" using sz sc by (simp add: sized_def)
  have ps: "0 < page_size me" using sz by (simp add: sized_def)
  have ts: "VMM_TO_SYS me w1 = VMM_TO_SYS me w" using sc by (simp add: VMM_TO_SYS_def fun_eq_iff)
  have id: "iid (vipc me) < length (c_mem w1)" using wf1 by (simp add: well_formed_def wf_shm_def in_shm_def)
  have gn: "?g \<notin> names me" by (rule self_fresh [OF wf1 g])
  have eo: "entry_ok me w' ?a"
    using malloc_ate_sound s(3) n by (auto simp: entry_ok_def stored_def w')
  have wf': "well_formed ?me w'"
  proof (rule well_formed_add [OF wf1 sz1])
    show "apart (page_size me) (?a # a_tbl me)"
      using fresh_region(3) [OF fr] wf1 by (simp add: well_formed_def)
    show "addr ?a \<notin> addr ` set (a_tbl me)" using fr by (auto simp: fresh_at_def)
    show "files (sys w') g = files (sys w1) g" if "g \<in> names me" for g using that gn by (auto simp: w' s(3))
    show "wf_shm (vipc me) w'" using wf1 id c by (simp add: w' well_formed_def wf_shm_def)
  qed (use gn eo in \<open>simp_all add: w'\<close>)
  have "csum me (?a # a_tbl me) = malloc_need me n + csum me (a_tbl me)"
    by (simp add: csum_def malloc_need_eq [OF fr ps])
  moreover have "csum me (?a # a_tbl me) \<le> nsum me (?a # a_tbl me)" using well_formed_sums(1) [OF wf'] by simp
  ultimately have "VMM_TO_SYS me w (csum me (?a # a_tbl me)) = ?c + VMM_TO_SYS me w (csum me (a_tbl me))"
    using TO_SYS_exact [OF sz] by (simp add: add_mult_distrib)
  then have "accounted ?me w'"
    using ac1 id by (simp add: accounted_def w' ts dsum_def)
  with wf' have okm: "proc_ok ?me w'" by (simp add: proc_ok_def)
  have al': "alike ?me ?v" using al by (simp add: alike_def)
  have ok': "proc_ok ?v w'" using okm by (simp add: alike_proc(2) [OF al'])
  have nm: "names ?v = insert ?g (names me)"
    using alike_names [OF al'] by (simp add: names_def)
  have e: "iid (vipc ?v) = iid (vipc me)" "n_procs (vipc ?v) = n_procs (vipc me)" "page_size ?v = page_size me"
    "vmm_fname ?v = vmm_fname me"
    using al by (simp_all add: alike_def vmm_fname_def fun_eq_iff)
  have q': "quiet w'" using s by (simp add: quiet_def w')
  have fr': "frame w1 w'" using id c by (simp add: frame_def w')
  have cd: "c_mem w' ! j = c_mem w1 ! j \<and> d_mem w' ! j = d_mem w1 ! j" if "j \<noteq> iid (vipc me)" for j
    using that by (simp add: w')
  have oth: "files (sys w') g' = files (sys w1) g' \<and> g' \<notin> names ?v"
    if "j < n_procs (vipc me)" "j \<noteq> iid (vipc me)" "procs w1 j = Some u" "g' \<in> names u" for j u g'
    using company_fresh [OF co that(1-3) g] company_others [OF co that(1-3)] that(4) by (auto simp: nm w' s(3))
  have it: "intact me w1 ?v w'"
    by (rule intact_subset) (use e gn in \<open>auto simp: w' s(3)\<close>)
  have co': "company ?v w'" by (rule company_upd(1) [OF co ok' q' fr' e(1,2) cd oth])
  have "since me w1 ?v w'" by (rule company_upd(2) [OF co ok' q' fr' e(1,2) cd oth it])
  then have "since me w ?v w'" using co by (intro since_trans [OF s1]) (auto simp: company_def obliging_def)
  moreover have "stored me w' ?a []" using malloc_ate_sound s(3) by (simp add: stored_def w')
  then have "stored ?v w' ?a []" unfolding alike_proc(4) [OF al'] by simp
  moreover have "total w' = total w" "inter_mtx w' = inter_mtx w" using fr' tot by (auto simp: frame_def)
  moreover have "\<forall>g\<in>names me. files (sys w') g = files (sys w) g" using h gn by (auto simp: held_def w' s(3))
  ultimately show ?thesis using co' al' by (simp add: malloc_post_def)
qed

lemma app_pages_eq:
  assumes "0 < len" and "len < SIZE_MOD"
  shows "app_pages v len = Suc ((len - 1) div page_size v)"
proof -
  have "subw len 1 = len - 1" using assms by (intro subw_exact) auto
  moreover have "1 + (len - 1) div page_size v < SIZE_MOD" using div_le_dividend [of "len - 1" "page_size v"] assms by linarith
  ultimately show ?thesis by (simp add: app_pages_def addw_exact)
qed

lemma malloc_ok:
  assumes co: "company me w" and m: "0 < inter_mtx w" and len: "0 < len" "len < SIZE_MOD" and n: "n = app_pages me len"
    and pl: "places (sys w) = p # ps" and fr: "fresh_at me w p n"
    and sz: "sized (me\<lparr>a_tbl := malloc_ate me p n # a_tbl me\<rparr>) w"
    and en: "VMM_TO_SYS me w (malloc_need me n) \<le> s_mem w + releasable (vipc me) w"
  shows "\<exists>v' w'. sbma_malloc me w len = Some (p + struct_pages me * page_size me, v', w') \<and> malloc_post me w p n v' w'"
proof -
  let ?c = "VMM_TO_SYS me w (malloc_need me n)" and ?g = "swap_name (fstem me) (vpid me) p"
  obtain v w1 where ad: "admit me w ?c = Some (0, v, debit (iid (vipc me)) ?c w1)" and al: "alike me v"
    and h: "held me w w1" and w1: "?c \<le> s_mem w1" "total w1 = total w" "inter_mtx w1 = inter_mtx w"
    using admit_ok [OF co m en] by blast
  have q1: "faults (sys w1) = []" "grants (sys w1) = []" "places (sys w1) = p # ps" "files (sys w1) ?g = None"
    using h pl fr by (auto simp: held_def company_def quiet_def fresh_at_def)
  let ?s = "(sys w1)\<lparr>places := ps, files := (files (sys w1))(?g \<mapsto> [])\<rparr>"
  let ?w = "with_sys ?s (debit (iid (vipc me)) ?c w1)" and ?v = "v\<lparr>a_tbl := malloc_ate me p n # a_tbl me\<rparr>"
  have n0: "0 < n" using app_pages_eq [OF len] by (simp add: n)
  have po: "malloc_post me w p n ?v ?w"
    by (rule malloc_postI [OF h al w1(2,3,1) fr n0 sz refl]) (use q1 in simp_all)
  have ev: "fstem v = fstem me" "vpid v = vpid me" "a_tbl v = a_tbl me" "opts v = opts me" "page_size v = page_size me"
    using al by (auto simp: alike_def)
  then have ma: "malloc_ate v p n = malloc_ate me p n" by (simp add: malloc_ate_def struct_pages_def)
  have ok: "proc_ok ?v ?w" using po by (auto simp: malloc_post_def intro: company_self)
  have "malloc_mapped v (with_sys ((sys w1)\<lparr>places := ps\<rparr>) (debit (iid (vipc me)) ?c w1)) n p =
      Some (p + struct_pages me * page_size me, ?v, ?w)"
    using q1 ok fresh_region(1) [OF fr]
    by (simp add: malloc_mapped_def os_create_def Let_def ev ma malloc_return_def)
  then have "sbma_malloc me w len = Some (p + struct_pages me * page_size me, ?v, ?w)"
    using company_self [OF co] ad q1 len(1)
    by (simp add: sbma_malloc_def malloc_admit_eq os_mmap_def flip: n)
  with po show ?thesis by blast
qed

subsection \<open>Freeing succeeds\<close>

definition remove_ate :: "ate \<Rightarrow> vmm \<Rightarrow> vmm" where
  "remove_ate a v = v\<lparr>a_tbl := remove1 a (a_tbl v)\<rparr>"

lemma remove_ate_simps [simp]:
  "page_size (remove_ate a v) = page_size v" "opts (remove_ate a v) = opts v" "vipc (remove_ate a v) = vipc v"
  "a_tbl (remove_ate a v) = remove1 a (a_tbl v)" "vmm_fname (remove_ate a v) = vmm_fname v"
  "VMM_TO_SYS (remove_ate a v) = VMM_TO_SYS v" "csum (remove_ate a v) = csum v" "nsum (remove_ate a v) = nsum v"
  "entry_ok (remove_ate a v) = entry_ok v" "struct_pages (remove_ate a v) = struct_pages v"
  by (simp_all add: remove_ate_def struct_pages_def)

lemma sums_remove:
  assumes "a \<in> set tbl"
  shows "csum v tbl = meta_pages v a + c_pages a + csum v (remove1 a tbl)"
    "dsum tbl = d_pages a + dsum (remove1 a tbl)" "nsum v tbl = meta_pages v a + n_pages a + nsum v (remove1 a tbl)"
  using sum_list_map_remove1 [OF assms] by (simp_all add: csum_def dsum_def nsum_def)

lemma distinct_map_remove1: "distinct (map f xs) \<Longrightarrow> distinct (map f (remove1 x xs))"
  by (induction xs) (auto dest: subsetD [OF set_remove1_subset])

lemma well_formed_remove:
  assumes wf: "well_formed v w" and a: "a \<in> set (a_tbl v)" and shm: "wf_shm (vipc v) w'" "sc_page w' = sc_page w"
    and fi: "\<And>g. g \<noteq> vmm_fname v a \<Longrightarrow> files (sys w') g = files (sys w) g"
  shows "well_formed (remove_ate a v) w'"
proof -
  have le: "nsum v (remove1 a (a_tbl v)) \<le> nsum v (a_tbl v)" using sums_remove(3) [OF a] by simp
  have "sized (remove_ate a v) w'"
    using wf shm(2) le_less_trans [OF mult_le_mono1 [OF le]] le by (auto simp: well_formed_def sized_def)
  moreover have "vmm_fname v b \<noteq> vmm_fname v a" if "b \<in> set (remove1 a (a_tbl v))" for b
    using wf a that by (auto simp: well_formed_def distinct_map set_remove1_eq dest: inj_onD)
  then have "list_all (entry_ok v w') (remove1 a (a_tbl v))"
    using wf fi by (auto simp: well_formed_def list_all_iff entry_ok_def stored_def dest: subsetD [OF set_remove1_subset])
  ultimately show ?thesis
    using wf shm by (simp add: well_formed_def apart_remove1 distinct_map_remove1)
qed

text \<open>A successful \<open>free\<close>: the entry and its file are gone, its pages go back to the system, and
  nothing else changes for any process.\<close>

definition free_post :: "vmm \<Rightarrow> 'a world_scheme \<Rightarrow> ate \<Rightarrow> vmm \<Rightarrow> 'a world_scheme \<Rightarrow> bool" where
  "free_post v w a v' w' \<longleftrightarrow> v' = remove_ate a v \<and> company v' w' \<and> since v' w v' w' \<and>
     total w' = total w \<and> inter_mtx w' = inter_mtx w \<and> files (sys w') = (files (sys w))(vmm_fname v a := None) \<and>
     c_mem w' = (c_mem w)[iid (vipc v) := VMM_TO_SYS v w (csum v (remove1 a (a_tbl v)))] \<and>
     d_mem w' = (d_mem w)[iid (vipc v) := VMM_TO_SYS v w (dsum (remove1 a (a_tbl v)))] \<and>
     places (sys w') = places (sys w)"

lemma freed_accounts:
  assumes ok: "proc_ok v w" and a: "a \<in> set (a_tbl v)"
  shows "VMM_TO_SYS v w (meta_pages v a + c_pages a) \<le> c_mem w ! iid (vipc v)"
    "VMM_TO_SYS v w (d_pages a) \<le> d_mem w ! iid (vipc v)"
    "c_mem w ! iid (vipc v) - VMM_TO_SYS v w (meta_pages v a + c_pages a) = VMM_TO_SYS v w (csum v (remove1 a (a_tbl v)))"
    "d_mem w ! iid (vipc v) - VMM_TO_SYS v w (d_pages a) = VMM_TO_SYS v w (dsum (remove1 a (a_tbl v)))"
proof -
  have wf: "well_formed v w" and ac: "accounted v w" using ok by (simp_all add: proc_ok_def)
  have sz: "sized v w" using wf by (simp add: well_formed_def)
  note s = sums_remove [OF a] and b = well_formed_sums [OF wf]
  have "VMM_TO_SYS v w (csum v (a_tbl v)) =
      VMM_TO_SYS v w (meta_pages v a + c_pages a) + VMM_TO_SYS v w (csum v (remove1 a (a_tbl v)))"
    "VMM_TO_SYS v w (dsum (a_tbl v)) = VMM_TO_SYS v w (d_pages a) + VMM_TO_SYS v w (dsum (remove1 a (a_tbl v)))"
    using b by (simp_all add: TO_SYS_exact [OF sz] s add_mult_distrib)
  then show "VMM_TO_SYS v w (meta_pages v a + c_pages a) \<le> c_mem w ! iid (vipc v)"
    "VMM_TO_SYS v w (d_pages a) \<le> d_mem w ! iid (vipc v)"
    "c_mem w ! iid (vipc v) - VMM_TO_SYS v w (meta_pages v a + c_pages a) = VMM_TO_SYS v w (csum v (remove1 a (a_tbl v)))"
    "d_mem w ! iid (vipc v) - VMM_TO_SYS v w (d_pages a) = VMM_TO_SYS v w (dsum (remove1 a (a_tbl v)))"
    using ac by (simp_all add: accounted_def)
qed

text \<open>A step of the caller: the other processes are not affected.\<close>

lemma since_others:
  assumes it: "intact me w me' w'" and id: "iid (vipc me') = iid (vipc me)"
    and w': "procs w' = procs w" "sc_page w' = sc_page w"
    and oth: "\<And>j v g. j < n_procs (vipc me) \<Longrightarrow> j \<noteq> iid (vipc me) \<Longrightarrow> procs w j = Some v \<Longrightarrow> g \<in> names v \<Longrightarrow>
      files (sys w') g = files (sys w) g"
  shows "since me w me' w'"
proof -
  have "intact x w y w' \<and> (j \<noteq> iid (vipc me) \<longrightarrow> shape x y)"
    if j: "j < n_procs (vipc me)" "proc_at me w j = Some x" "proc_at me' w' j = Some y" for j x y
  proof (cases "j = iid (vipc me)")
    case True
    then have "x = me" "y = me'" using j id by (auto simp: proc_at_def)
    then show ?thesis using it True by simp
  next
    case False
    then have "y = x" "procs w j = Some x" using j id w' by (auto simp: proc_at_def)
    then show ?thesis using oth [OF j(1) False] by (auto intro: intact_refl)
  qed
  then show ?thesis using w' by (simp add: since_def)
qed

text \<open>The state after the entry is gone and its pages have been given back.\<close>

lemma free_postI:
  assumes co: "company v w" and a: "a \<in> set (a_tbl v)"
    and w': "w' = credit (iid (vipc v)) (VMM_TO_SYS v w (meta_pages v a + c_pages a)) (VMM_TO_SYS v w (d_pages a)) (with_sys s w)"
    and s: "faults s = []" "grants s = []" "places s = places (sys w)" "files s = (files (sys w))(vmm_fname v a := None)"
  shows "free_post v w a (remove_ate a v) w'"
proof -
  let ?v = "remove_ate a v"
  have ok: "proc_ok v w" by (rule company_self [OF co])
  then have wf: "well_formed v w" by (simp add: proc_ok_def)
  note ac = freed_accounts [OF ok a]
  have id: "iid (vipc v) < length (c_mem w)" "iid (vipc v) < length (d_mem w)"
    using wf by (auto simp: well_formed_def wf_shm_def in_shm_def)
  have tot: "total w' = total w" using id ac(1) by (simp add: w')
  have sub: "set (remove1 a (a_tbl v)) \<subseteq> set (a_tbl v)" by (rule set_remove1_subset)
  have nn: "vmm_fname v b \<noteq> vmm_fname v a" if "b \<in> set (remove1 a (a_tbl v))" for b
    using wf a that by (auto simp: well_formed_def distinct_map set_remove1_eq dest: inj_onD)
  have wf': "well_formed ?v w'"
    by (rule well_formed_remove [OF wf a]) (use wf tot s in \<open>auto simp: w' well_formed_def wf_shm_def\<close>)
  have ts: "VMM_TO_SYS v w' = VMM_TO_SYS v w" by (simp add: w' fun_eq_iff)
  have ok': "proc_ok ?v w'"
    using wf' ac(3,4) id by (simp add: proc_ok_def accounted_def ts) (simp add: w')
  have q': "quiet w'" using s by (simp add: quiet_def w')
  have fr: "frame w w'" using tot by (simp add: frame_def) (simp add: w')
  have cd: "c_mem w' ! j = c_mem w ! j \<and> d_mem w' ! j = d_mem w ! j" if "j \<noteq> iid (vipc v)" for j
    using that by (simp add: w')
  have oth: "files (sys w') g = files (sys w) g \<and> g \<notin> names ?v"
    if "j < n_procs (vipc v)" "j \<noteq> iid (vipc v)" "procs w j = Some u" "g \<in> names u" for j u g
    using company_others [OF co that(1-3)] that(4) a sub by (auto simp: names_def w' s(4))
  have co': "company ?v w'" by (rule company_upd(1) [OF co ok' q' fr _ _ cd oth]) simp_all
  have it: "intact ?v w ?v w'"
    by (rule intact_refl) (use nn in \<open>auto simp: names_def w' s(4)\<close>)
  have "since ?v w ?v w'"
    by (rule since_others [OF it]) (use fr oth in \<open>auto simp: frame_def\<close>)
  with co' tot fr show ?thesis
    using id ac(3,4) s(3,4) by (simp add: free_post_def frame_def w')
qed

lemma meta_charge:
  assumes wf: "well_formed v w" and a: "a \<in> set (a_tbl v)"
  shows "(if has (opts v) VMM_METACH then addw (addw (struct_pages v) (c_pages a)) (flag_pages v (n_pages a))
      else c_pages a) = meta_pages v a + c_pages a"
proof (cases "has (opts v) VMM_METACH")
  case True
  have "meta_pages v a + c_pages a < SIZE_MOD"
    using nsum_mem [OF a, of v] well_formed_counts(3) [OF wf a] wf by (simp add: well_formed_def sized_def SIZE_MOD_def)
  moreover have "addw (addw (struct_pages v) (c_pages a)) (flag_pages v (n_pages a)) =
      addw (addw (struct_pages v) (flag_pages v (n_pages a))) (c_pages a)"
    by (simp add: addw_def mod_simps) (simp add: ac_simps)
  ultimately show ?thesis using True by (simp add: meta_pages_def addw_exact)
qed (simp add: meta_pages_def)

lemma placed_lookup:
  assumes wf: "well_formed v w" and a: "a \<in> set (a_tbl v)" and b: "base a = addr a + struct_pages v * page_size v"
  shows "ate_at v (subw (base a) (mulw (struct_pages v) (page_size v))) = Some a"
proof -
  have "base a < SIZE_MOD" using well_formed_entry(4) [OF wf a] by (simp add: region_end_def)
  then have "subw (base a) (mulw (struct_pages v) (page_size v)) = addr a"
    using b by (simp add: mulw_exact subw_exact)
  moreover have "ate_at v (addr a) = Some a" using wf by (intro ate_at_mem [OF _ a]) (simp add: well_formed_def)
  ultimately show ?thesis by simp
qed

lemma free_ok:
  assumes co: "company v w" and m: "0 < inter_mtx w" and a: "a \<in> set (a_tbl v)"
    and b: "base a = addr a + struct_pages v * page_size v"
  shows "\<exists>w'. sbma_free v w (base a) = Some (0, remove_ate a v, w') \<and> free_post v w a (remove_ate a v) w'"
proof -
  have ok: "proc_ok v w" by (rule company_self [OF co])
  then have wf: "well_formed v w" by (simp add: proc_ok_def)
  note e = well_formed_entry [OF wf a]
  note at = placed_lookup [OF wf a b]
  obtain f where "files (sys w) (vmm_fname v a) = Some f" using e(3) by (auto simp: stored_def)
  moreover have q: "faults (sys w) = []" "grants (sys w) = []" using co by (auto simp: company_def quiet_def)
  ultimately have un: "os_unlink (vmm_fname v a) (sys w) =
      (True, (sys w)\<lparr>files := (files (sys w))(vmm_fname v a := None)\<rparr>)" by (simp add: os_unlink_def)
  let ?s = "(sys w)\<lparr>files := (files (sys w))(vmm_fname v a := None)\<rparr>"
  let ?c = "VMM_TO_SYS v w (meta_pages v a + c_pages a)" and ?d = "VMM_TO_SYS v w (d_pages a)"
  let ?w = "credit (iid (vipc v)) ?c ?d (with_sys ?s w)"
  have po: "free_post v w a (remove_ate a v) ?w" by (rule free_postI [OF co a refl]) (use q in simp_all)
  have ok': "proc_ok (remove_ate a v) ?w" using po by (auto simp: free_post_def intro: company_self)
  have ev: "ipc_mevict (vipc v) ?c ?d (with_sys ?s w) = Some (0, ?w)"
    using ipc_mevict_eq [of "vipc v" "with_sys ?s w" ?c ?d] freed_accounts(1,2) [OF ok a] m wf
    by (simp add: well_formed_def credit_def)
  have "(if has (opts v) VMM_METACH
         then ipc_mevict (vipc v) (VMM_TO_SYS v w (addw (addw (struct_pages v) (c_pages a)) (flag_pages v (n_pages a)))) ?d (with_sys ?s w)
         else ipc_mevict (vipc v) (VMM_TO_SYS v w (c_pages a)) ?d (with_sys ?s w)) = Some (0, ?w)"
    using meta_charge [OF wf a] ev by (cases "has (opts v) VMM_METACH") simp_all
  then have "sbma_free v w (base a) = Some (0, remove_ate a v, ?w)"
    using ok at un q ok' by (simp add: sbma_free_def flip: remove_ate_def split: if_splits)
  with po show ?thesis by blast
qed

subsection \<open>Allocation fails\<close>

lemma credit_debit:
  assumes "j < length (c_mem w)" "c \<le> s_mem w"
  shows "credit j c 0 (debit j c w) = w"
  using assms by (simp add: credit_def debit_def)

lemma undo_charge:
  assumes ok: "proc_ok v w" and c: "c \<le> s_mem w" and m: "0 < inter_mtx w"
  shows "ipc_mevict (vipc v) c 0 (debit (iid (vipc v)) c w) = Some (0, w)"
proof -
  have id: "iid (vipc v) < length (c_mem w)" using ok by (simp add: proc_ok_def well_formed_def wf_shm_def in_shm_def)
  have sh: "wf_shm (vipc v) (debit (iid (vipc v)) c w)"
    using ok id c by (simp add: proc_ok_def well_formed_def wf_shm_def)
  have "ipc_mevict (vipc v) c 0 (debit (iid (vipc v)) c w) =
      Some (0, credit (iid (vipc v)) c 0 (debit (iid (vipc v)) c w))"
    using ipc_mevict_eq [OF sh, of c 0] id m by (simp add: credit_def)
  then show ?thesis by (simp add: credit_debit [OF id c])
qed

lemma malloc_no_place:
  assumes co: "company me w" and m: "0 < inter_mtx w" and len: "0 < len" and n: "n = app_pages me len"
    and pl: "places (sys w) = []" and en: "VMM_TO_SYS me w (malloc_need me n) \<le> s_mem w + releasable (vipc me) w"
  shows "\<exists>v' w'. sbma_malloc me w len = Some (0, v', w') \<and> alike me v' \<and> held me w w' \<and> total w' = total w \<and>
           inter_mtx w' = inter_mtx w"
proof -
  let ?c = "VMM_TO_SYS me w (malloc_need me n)"
  obtain v w1 where ad: "admit me w ?c = Some (0, v, debit (iid (vipc me)) ?c w1)" and al: "alike me v"
    and h: "held me w w1" and w1: "?c \<le> s_mem w1" "total w1 = total w" "inter_mtx w1 = inter_mtx w"
    using admit_ok [OF co m en] by blast
  have q1: "faults (sys w1) = []" "places (sys w1) = []" and co1: "company me w1" and sc: "sc_page w1 = sc_page w"
    using h pl by (auto simp: held_def company_def quiet_def since_def)
  have ok1: "proc_ok v w1" using company_self [OF co1] by (simp add: alike_proc(2) [OF al])
  have e: "opts v = opts me" "page_size v = page_size me" "iid (vipc v) = iid (vipc me)" using al by (auto simp: alike_def)
  let ?w = "debit (iid (vipc me)) ?c w1"
  have nd: "malloc_need v n = malloc_need me n"
    using e by (simp add: malloc_need_def malloc_charge_def struct_pages_def flag_pages_def)
  have ts: "VMM_TO_SYS v ?w = VMM_TO_SYS me w" using e sc by (simp add: VMM_TO_SYS_def fun_eq_iff)
  have ev: "ipc_mevict (vipc v) ?c 0 ?w = Some (0, w1)"
    using undo_charge [OF ok1 w1(1)] m w1(3) e(3) by simp
  have "malloc_cleanup1 v ?w n = Some (0, v, w1)"
  proof (cases "has (opts v) VMM_METACH \<or> has (opts v) VMM_RSDNT")
    case True
    then have "malloc_charge v n = malloc_need v n" by (simp add: malloc_need_def)
    then show ?thesis using True ev ok1 by (simp add: malloc_cleanup1_def ts nd malloc_return_def)
  next
    case False
    then have "?c = 0" using nd by (simp add: malloc_need_def VMM_TO_SYS_def mulw_def)
    then show ?thesis using False ok1 by (simp add: malloc_cleanup1_def malloc_return_def debit_def)
  qed
  moreover have "with_sys (sys w1) ?w = ?w" by (simp add: with_sys_def debit_def)
  ultimately have "sbma_malloc me w len = Some (0, v, w1)"
    using company_self [OF co] ad q1 len by (simp add: sbma_malloc_def malloc_admit_eq os_mmap_def flip: n)
  then show ?thesis using al h w1 by blast
qed

subsection \<open>A process with room\<close>

definition with_places :: "nat list \<Rightarrow> 'a world_scheme \<Rightarrow> 'a world_scheme" where
  "with_places q w = w\<lparr>sys := (sys w)\<lparr>places := q\<rparr>\<rparr>"

lemma proc_ok_places [simp]: "proc_ok u (with_places q w) = proc_ok u w"
proof -
  have st: "stored u (with_places q w) = stored u w" by (simp add: stored_def with_places_def fun_eq_iff)
  have en: "entry_ok u (with_places q w) = entry_ok u w" by (simp add: entry_ok_def st fun_eq_iff)
  show ?thesis
    by (simp add: proc_ok_def well_formed_def accounted_def en) (simp add: with_places_def sized_def wf_shm_def in_shm_def VMM_TO_SYS_def total_def)
qed

lemma company_places [simp]: "company v (with_places q w) = company v w"
proof -
  have "proc_at u (with_places q w) = proc_at u w" for u by (simp add: proc_at_def with_places_def fun_eq_iff)
  then show ?thesis unfolding company_def obliging_def proc_ok_places by (simp add: with_places_def quiet_def)
qed

abbreviation roomy_world :: world where
  "roomy_world \<equiv> with_places [1000] demo_world"

lemma roomy_simps [simp]: "places (sys roomy_world) = [1000]" "inter_mtx roomy_world = 1" "sc_page roomy_world = 2"
  "files (sys roomy_world) = files (sys demo_world)"
  by (simp_all add: with_places_def)

lemma roomy_fresh [simp]: "fresh_at (demo_vmm 0 []) roomy_world 1000 3"
proof -
  have "swap_name ''s'' 100 1000 \<noteq> swap_name ''s'' 101 64" by code_simp
  then show ?thesis
    by (simp add: fresh_at_def struct_pages_def flag_pages_def sizeof_ate_def addw_def subw_def SIZE_MOD_def) (simp add: demo_vmm_def)
qed

lemma roomy_sized [simp]: "sized ((demo_vmm 0 [])\<lparr>a_tbl := [malloc_ate (demo_vmm 0 []) 1000 3]\<rparr>) roomy_world"
  by (simp add: sized_def SIZE_MOD_def)

lemma roomy_pages [simp]: "app_pages (demo_vmm 0 []) 5 = 3" "malloc_need (demo_vmm 0 []) n = 0"
  by (simp_all add: app_pages_def addw_def subw_def SIZE_MOD_def malloc_need_def has_def vmm_opt_code)

subsection \<open>Properties\<close>

text \<open>C15: Allocation.  When the system and the other processes have the pages that the allocation
  is charged for, \<open>mmap\<close> finds a place, and no file has its name, \<open>sbma_malloc\<close>
  returns the address of the application's pages: as many as the size needs, all zero, inside
  the mapping and apart from every other allocation.  All processes are consistent again and
  nobody loses a byte.\<close>
theorem malloc_correct:
  assumes "company me w" and "0 < inter_mtx w" and "0 < len" and "len < SIZE_MOD"
    and "n = Suc ((len - 1) div page_size me)" and "places (sys w) = p # ps" and "fresh_at me w p n"
    and "sized (me\<lparr>a_tbl := malloc_ate me p n # a_tbl me\<rparr>) w"
    and "VMM_TO_SYS me w (malloc_need me n) \<le> s_mem w + releasable (vipc me) w"
  shows "\<exists>v' w'. sbma_malloc me w len = Some (p + struct_pages me * page_size me, v', w') \<and> malloc_post me w p n v' w' \<and>
           len \<le> n * page_size me \<and> (\<forall>i < n * page_size me. holds (page_size me) [] (malloc_ate me p n) i 0) \<and>
           (\<forall>x. p + struct_pages me * page_size me \<le> x \<and> x < p + struct_pages me * page_size me + n * page_size me \<longrightarrow>
              mmu_lookup (page_size v') (a_tbl v') x = Some (malloc_ate me p n))"
proof -
  have n: "n = app_pages me len" using app_pages_eq [OF assms(3,4), of me] assms(5) by simp
  have ps: "0 < page_size me" using assms(8) by (simp add: sized_def)
  obtain v' w' where m: "sbma_malloc me w len = Some (p + struct_pages me * page_size me, v', w')" "malloc_post me w p n v' w'"
    using malloc_ok [OF assms(1-4) n assms(6-9)] by blast
  have "len - 1 < n * page_size me"
    unfolding assms(5) using ps dividend_less_div_times [of "page_size me" "len - 1"] by simp
  then have "len \<le> n * page_size me" using assms(3) by linarith
  moreover have "\<forall>i < n * page_size me. holds (page_size me) [] (malloc_ate me p n) i 0"
    using ps by (auto intro!: malloc_ate_zero simp: div_less_iff_less_mult)
  moreover have "mmu_lookup (page_size v') (a_tbl v') x = Some (malloc_ate me p n)"
    if "p + struct_pages me * page_size me \<le> x" "x < p + struct_pages me * page_size me + n * page_size me" for x
  proof -
    have "well_formed v' w'" using m(2) by (auto simp: malloc_post_def proc_ok_def dest: company_self)
    then have ap: "apart (page_size v') (a_tbl v')" by (simp add: well_formed_def)
    have e: "page_size v' = page_size me" "malloc_ate me p n \<in> set (a_tbl v')" using m(2) by (auto simp: malloc_post_def alike_def)
    have "contains (page_size v') (malloc_ate me p n) x"
      using that apart_range [OF ap e(2)] fresh_region(1,2) [OF assms(7)] e(1) by (simp add: contains_iff algebra_simps)
    then show ?thesis by (rule mmu_lookup_unique [OF ap e(2)])
  qed
  ultimately show ?thesis using m by blast
qed

theorem malloc_correct_witness:
  "\<exists>v' w'. sbma_malloc (demo_vmm 0 []) roomy_world 5 = Some (1064, v', w') \<and>
     malloc_post (demo_vmm 0 []) roomy_world 1000 3 v' w'"
proof -
  have "struct_pages (demo_vmm 0 []) = 32" by (simp add: struct_pages_def sizeof_ate_def addw_def subw_def SIZE_MOD_def)
  then show ?thesis
    using malloc_correct [of "demo_vmm 0 []" roomy_world 5 3 1000 "[]"] by (auto simp: SIZE_MOD_def)
qed

text \<open>C16: Freeing.  \<open>sbma_free\<close> of the address of an allocation returns 0; the entry and its
  swap file are gone, exactly what the process was charged for it, meta data included, goes
  back to the system, all processes are consistent, and no other allocation of any process
  loses a byte.\<close>
theorem free_correct:
  assumes "company v w" and "0 < inter_mtx w" and "a \<in> set (a_tbl v)"
    and "base a = addr a + struct_pages v * page_size v"
  shows "\<exists>w'. sbma_free v w (base a) = Some (0, remove_ate a v, w') \<and> free_post v w a (remove_ate a v) w'"
  using assms by (rule free_ok)

theorem free_correct_witness:
  "\<exists>v (w :: world) a w'. sbma_free v w (base a) = Some (0, remove_ate a v, w') \<and> a_tbl v \<noteq> []"
proof -
  obtain v w where m: "malloc_post (demo_vmm 0 []) roomy_world 1000 3 v w"
    using malloc_ok [of "demo_vmm 0 []" roomy_world 5 3 1000 "[]"] by (auto simp: SIZE_MOD_def)
  let ?a = "malloc_ate (demo_vmm 0 []) 1000 3"
  have "base ?a = addr ?a + struct_pages v * page_size v"
    using fresh_region(1) [OF roomy_fresh] m by (simp add: malloc_post_def alike_def struct_pages_def)
  moreover have "company v w" "?a \<in> set (a_tbl v)" "0 < inter_mtx w" using m by (auto simp: malloc_post_def alike_def)
  ultimately have "\<exists>w'. sbma_free v w (base ?a) = Some (0, remove_ate ?a v, w') \<and> free_post v w ?a (remove_ate ?a v) w'"
    by (intro free_correct)
  then show ?thesis using \<open>?a \<in> set (a_tbl v)\<close> by fastforce
qed

text \<open>Allocating and freeing again is a round trip: the table, the contents of its swap
  files and the process's charges are what they were.\<close>
theorem malloc_free_round_trip:
  assumes "company me w" and "0 < inter_mtx w" and "0 < len" and "len < SIZE_MOD"
    and "n = Suc ((len - 1) div page_size me)" and "places (sys w) = p # ps" and "fresh_at me w p n"
    and "sized (me\<lparr>a_tbl := malloc_ate me p n # a_tbl me\<rparr>) w"
    and "VMM_TO_SYS me w (malloc_need me n) \<le> s_mem w + releasable (vipc me) w"
  shows "\<exists>ptr v' w' v'' w''. sbma_malloc me w len = Some (ptr, v', w') \<and> sbma_free v' w' ptr = Some (0, v'', w'') \<and>
           alike me v'' \<and> company v'' w'' \<and> total w'' = total w \<and>
           files (sys w'') (swap_name (fstem me) (vpid me) p) = None \<and>
           (\<forall>g\<in>names me. files (sys w'') g = files (sys w) g) \<and>
           c_mem w'' ! iid (vipc me) = c_mem w ! iid (vipc me) \<and> d_mem w'' ! iid (vipc me) = d_mem w ! iid (vipc me)"
proof -
  let ?a = "malloc_ate me p n" and ?g = "swap_name (fstem me) (vpid me) p"
  have n: "n = app_pages me len" using app_pages_eq [OF assms(3,4), of me] assms(5) by simp
  obtain v' w' where m: "sbma_malloc me w len = Some (p + struct_pages me * page_size me, v', w')" "malloc_post me w p n v' w'"
    using malloc_ok [OF assms(1-4) n assms(6-9)] by blast
  have e: "alike (me\<lparr>a_tbl := ?a # a_tbl me\<rparr>) v'" "company v' w'" "total w' = total w" "inter_mtx w' = inter_mtx w"
    "\<forall>g\<in>names me. files (sys w') g = files (sys w) g" "sc_page w' = sc_page w"
    using m(2) by (auto simp: malloc_post_def since_def)
  have b: "base ?a = p + struct_pages me * page_size me" by (rule fresh_region(1) [OF assms(7)])
  have e1: "a_tbl v' = ?a # a_tbl me" "struct_pages v' = struct_pages me" "page_size v' = page_size me"
    "iid (vipc v') = iid (vipc me)" "vmm_fname v' = vmm_fname me" "csum v' = csum me" "VMM_TO_SYS v' w' = VMM_TO_SYS me w"
    using e(1,6) meta_pages_cong(2) [of v' me]
    by (auto simp: alike_def struct_pages_def vmm_fname_def VMM_TO_SYS_def fun_eq_iff)
  obtain w'' where f: "sbma_free v' w' (base ?a) = Some (0, remove_ate ?a v', w'')" "free_post v' w' ?a (remove_ate ?a v') w''"
    using free_ok [OF e(2), of ?a] e1 b e(4) assms(2) by auto
  have ok: "proc_ok me w" by (rule company_self [OF assms(1)])
  have ok': "proc_ok v' w'" by (rule company_self [OF e(2)])
  have id: "iid (vipc me) < length (c_mem w')" "iid (vipc me) < length (d_mem w')"
    using ok' e1(4) by (auto simp: proc_ok_def well_formed_def wf_shm_def in_shm_def)
  have fp: "files (sys w'') = (files (sys w'))(?g := None)"
    "c_mem w'' = (c_mem w')[iid (vipc me) := VMM_TO_SYS me w (csum me (a_tbl me))]"
    "d_mem w'' = (d_mem w')[iid (vipc me) := VMM_TO_SYS me w (dsum (a_tbl me))]" "company (remove_ate ?a v') w''" "total w'' = total w"
    using f(2) e1 e(3) by (auto simp: free_post_def)
  have gn: "?g \<notin> names me"
    using self_fresh [of me w ?g] ok assms(7) by (auto simp: proc_ok_def fresh_at_def)
  have "alike me (remove_ate ?a v')" using e(1) by (simp add: alike_def remove_ate_def)
  moreover have "\<forall>g\<in>names me. files (sys w'') g = files (sys w) g" using e(5) gn by (auto simp: fp(1))
  moreover have "c_mem w'' ! iid (vipc me) = c_mem w ! iid (vipc me)" "d_mem w'' ! iid (vipc me) = d_mem w ! iid (vipc me)"
    using id ok by (simp_all add: fp(2,3) proc_ok_def accounted_def)
  ultimately show ?thesis
    using m(1) f(1) b fp(1,4,5) by (intro exI [of _ "p + struct_pages me * page_size me"] exI [of _ v'] exI [of _ w']
      exI [of _ "remove_ate ?a v'"] exI [of _ w'']) simp
qed

theorem malloc_free_round_trip_witness:
  "\<exists>ptr v' w' v'' w''. sbma_malloc (demo_vmm 0 []) roomy_world 5 = Some (ptr, v', w') \<and>
     sbma_free v' w' ptr = Some (0, v'', w'') \<and> a_tbl v'' = []"
proof -
  have "alike (demo_vmm 0 []) v \<Longrightarrow> a_tbl v = []" for v by (simp add: alike_def)
  then show ?thesis
    using malloc_free_round_trip [of "demo_vmm 0 []" roomy_world 5 3 1000 "[]"] by (auto simp: SIZE_MOD_def)
qed

text \<open>When \<open>mmap\<close> fails, \<open>sbma_malloc\<close> returns the null pointer and undoes what it did:
  the process is charged for nothing new, the accounts add up, and no process has lost a byte
  (others may have been made to release memory for nothing).\<close>
theorem malloc_fails_cleanly:
  assumes "company me w" and "0 < inter_mtx w" and "0 < len" and "n = app_pages me len"
    and "places (sys w) = []" and "VMM_TO_SYS me w (malloc_need me n) \<le> s_mem w + releasable (vipc me) w"
  shows "\<exists>v' w'. sbma_malloc me w len = Some (0, v', w') \<and> alike me v' \<and> company v' w' \<and> since me w v' w' \<and>
           total w' = total w \<and> c_mem w' ! iid (vipc me) = c_mem w ! iid (vipc me)"
proof -
  obtain v' w' where m: "sbma_malloc me w len = Some (0, v', w')" and al: "alike me v'" and h: "held me w w'" and t: "total w' = total w"
    using malloc_no_place [OF assms] by blast
  have h': "company me w'" "since me w me w'" using h by (auto simp: held_def)
  have "since me w v' w'"
    by (rule since_trans [OF h'(2) company_alike(2) [OF h'(1) al]]) (use h'(1) in \<open>auto simp: company_def obliging_def\<close>)
  moreover have "c_mem w' ! iid (vipc me) = c_mem w ! iid (vipc me)"
    using company_self [OF h'(1)] company_self [OF assms(1)] h'(2)
    by (simp add: proc_ok_def accounted_def since_def VMM_TO_SYS_def)
  ultimately show ?thesis using m al t company_alike(1) [OF h'(1) al] by blast
qed

theorem malloc_fails_cleanly_witness:
  "\<exists>v' w'. sbma_malloc (demo_vmm 0 []) demo_world 5 = Some (0, v', w') \<and> company v' w'"
proof -
  have "places (sys demo_world) = []" by (simp add: demo_world_def)
  then show ?thesis using malloc_fails_cleanly [of "demo_vmm 0 []" demo_world 5 3] by auto
qed

text \<open>A swap file that is left over from an earlier process with the same id and address ends
  the program: \<open>open\<close> fails, the error exit of \<open>sbma_malloc\<close> closes the descriptor -1 and
  asserts that this succeeds.\<close>
theorem malloc_stale_file_aborts:
  assumes "proc_ok v w" and "quiet w" and "\<not> has (opts v) VMM_METACH" and "\<not> has (opts v) VMM_RSDNT" and "0 < len"
    and "places (sys w) = p # ps" and "files (sys w) (swap_name (fstem v) (vpid v) p) \<noteq> None"
  shows "sbma_malloc v w len = None"
  using assms by (auto simp: sbma_malloc_def malloc_admit_def os_mmap_def malloc_mapped_def os_create_def quiet_def Let_def)

theorem malloc_stale_file_aborts_witness:
  "sbma_malloc (demo_vmm 1 [small_ate]) (with_places [64] demo_world) 5 = None"
proof -
  have "proc_ok (demo_vmm 1 [small_ate]) (with_places [64] demo_world)" using demo_proc_ok(2) by (simp del: One_nat_def)
  moreover have "quiet (with_places [64] demo_world)" "places (sys (with_places [64] demo_world)) = [64]"
    "files (sys (with_places [64] demo_world)) = files (sys demo_world)" by (simp_all add: with_places_def quiet_def demo_world_def)
  ultimately show ?thesis
    using malloc_stale_file_aborts [of "demo_vmm 1 [small_ate]" "with_places [64] demo_world" 5 64 "[]"]
    by (simp add: has_def vmm_opt_code) (simp add: demo_vmm_def)
qed

end
