(* ===== verification/Realloc.thy ===== *)
theory Realloc
  imports Malloc
begin

text \<open>
  Changing the size of an allocation (\<open>src/api/realloc.c\<close>).

  A mapping is resized by \<open>mremap\<close>, which may move it: the new address is the next of the
  script \<open>places\<close>.  The status bytes lie behind the application's pages and move with
  them.  \<open>FATAL\<close> ends the program.

  Two details of the code need care.  After shrinking, \<open>ate->flags\<close> still points to where
  the status bytes were before; \<open>flags\<close> is what can be read there, so it may be shorter
  than \<open>n_pages\<close>.  After growing, the first new pages still hold the old status bytes.
\<close>

subsection \<open>Shrinking\<close>

text \<open>The loop over the pages that are cut off.\<close>

fun shrink_count :: "nat \<Rightarrow> nat \<Rightarrow> ate \<Rightarrow> ate option" where
  "shrink_count 0 i a = Some a"
| "shrink_count (Suc k) i a = do {
     f \<leftarrow> flag_at a i;
     a \<leftarrow> (if resident f then do { ASSERT (0 < l_pages a); Some (a\<lparr>l_pages := l_pages a - 1\<rparr>) } else Some a);
     a \<leftarrow> (if charged f then do { ASSERT (0 < c_pages a); Some (a\<lparr>c_pages := c_pages a - 1\<rparr>) } else Some a);
     a \<leftarrow> (if dirty f then do { ASSERT (0 < d_pages a); Some (a\<lparr>d_pages := d_pages a - 1\<rparr>) } else Some a);
     shrink_count k (Suc i) a
   }"

text \<open>The \<open>m\<close> bytes from the old position of the status bytes \<open>fl\<close>, after \<open>nf\<close> pages of them
  have been moved to a position that is \<open>d\<close> bytes before.\<close>

definition moved_flags :: "nat \<Rightarrow> nat \<Rightarrow> nat \<Rightarrow> byte list \<Rightarrow> byte list" where
  "moved_flags d nf m fl = map (\<lambda>i. if d + i < nf then byte_at fl (d + i) else byte_at fl i) [0..<m]"

text \<open>The mapping ends \<open>nf\<close> pages behind the \<open>nn\<close> application pages once \<open>munmap\<close> has
  succeeded; the old position of the status bytes is \<open>on\<close> pages behind them.\<close>

definition realloc_shrink ::
  "vmm \<Rightarrow> 'a world_scheme \<Rightarrow> ate \<Rightarrow> nat \<Rightarrow> (nat \<times> vmm \<times> 'a world_scheme) option" where
  "realloc_shrink v w a nn = do {
     ps \<leftarrow> Some (page_size v);
     on \<leftarrow> Some (n_pages a);
     of' \<leftarrow> Some (flag_pages v on);
     nf \<leftarrow> Some (flag_pages v nn);
     a \<leftarrow> shrink_count (on - nn) nn (a\<lparr>n_pages := nn\<rparr>);
     (case sys_call (sys w) of                                 \<comment> \<open>mprotect\<close>
        (False, s) \<Rightarrow> Some (0, with_ate a v, with_sys s w)
      | (True, s) \<Rightarrow>
     (case (if has (opts v) VMM_MLOCK then sys_call s else (True, s)) of   \<comment> \<open>mlock\<close>
        (False, s) \<Rightarrow> Some (0, with_ate a v, with_sys s w)
      | (True, s) \<Rightarrow> do {
          a \<leftarrow> Some (a\<lparr>flags := moved_flags ((on - nn) * ps) (nf * ps) (of' * ps) (flags a), prots := take nn (prots a)\<rparr>);
          (case sys_call s of                                  \<comment> \<open>munmap\<close>
             (False, s) \<Rightarrow> Some (0, with_ate a v, with_sys s w)
           | (True, s) \<Rightarrow> do {
               a \<leftarrow> Some (a\<lparr>flags := take ((nn + nf - on) * ps) (flags a)\<rparr>);
               v \<leftarrow> Some (with_ate a v);
               w \<leftarrow> Some (with_sys s w);
               oc \<leftarrow> Some (c_pages a);
               od \<leftarrow> Some (d_pages a);
               (ret, w) \<leftarrow> ipc_mevict (vipc v) (VMM_TO_SYS v w (addw (subw oc (c_pages a)) (subw of' nf))) (VMM_TO_SYS v w od) w;
               if ret = -1 then Some (0, v, w) else malloc_return (base a) v w
             })
        }))
   }"

subsection \<open>Growing\<close>

definition realloc_charge :: "vmm \<Rightarrow> nat \<Rightarrow> nat \<Rightarrow> nat" where
  "realloc_charge v on nn =
     (if has (opts v) VMM_METACH
      then if has (opts v) VMM_RSDNT then addw (subw nn on) (subw (flag_pages v nn) (flag_pages v on))
           else subw (flag_pages v nn) (flag_pages v on)
      else subw nn on)"

definition realloc_admit :: "vmm \<Rightarrow> 'a world_scheme \<Rightarrow> nat \<Rightarrow> nat \<Rightarrow> (int \<times> vmm \<times> 'a world_scheme) option" where
  "realloc_admit v w on nn =
     (if has (opts v) VMM_METACH \<or> has (opts v) VMM_RSDNT then madmit v (VMM_TO_SYS v w (realloc_charge v on nn)) w
      else Some (0, v, w))"

text \<open>\<open>CLEANUP\<close> and \<open>CLEANUP1\<close>; the old entry is in the table again.\<close>

definition realloc_cleanup ::
  "vmm \<Rightarrow> 'a world_scheme \<Rightarrow> nat \<Rightarrow> nat \<Rightarrow> (nat \<times> vmm \<times> 'a world_scheme) option" where
  "realloc_cleanup v w on nn = do {
     (ret, w) \<leftarrow> (if has (opts v) VMM_METACH \<or> has (opts v) VMM_RSDNT
                   then ipc_mevict (vipc v) (VMM_TO_SYS v w (realloc_charge v on nn)) 0 w
                   else Some (0, w));
     malloc_return 0 v w
   }"

definition realloc_cleanup1 ::
  "vmm \<Rightarrow> 'a world_scheme \<Rightarrow> ate \<Rightarrow> nat \<Rightarrow> nat \<Rightarrow> (nat \<times> vmm \<times> 'a world_scheme) option" where
  "realloc_cleanup1 v w a on nn = realloc_cleanup (v\<lparr>a_tbl := a # a_tbl v\<rparr>) w on nn"

text \<open>The loop of \<open>CLEANUP2\<close> that gives the pages their protection back.\<close>

fun restore_loop :: "nat \<Rightarrow> nat \<Rightarrow> ate \<Rightarrow> os \<Rightarrow> (ate \<times> os) option" where
  "restore_loop 0 i a s = Some (a, s)"
| "restore_loop (Suc k) i a s = do {
     f \<leftarrow> flag_at a i;
     if dirty f \<or> resident f then do {
       (ok, s) \<leftarrow> Some (sys_call s);                           \<comment> \<open>mprotect\<close>
       ASSERT ok;
       restore_loop k (Suc i) (set_prot i 1 (if dirty f then PROT_RW else PROT_READ) a) s
     }
     else restore_loop k (Suc i) a s
   }"

definition realloc_cleanup2 ::
  "vmm \<Rightarrow> 'a world_scheme \<Rightarrow> ate \<Rightarrow> nat \<Rightarrow> nat \<Rightarrow> (nat \<times> vmm \<times> 'a world_scheme) option" where
  "realloc_cleanup2 v w a on nn =
     (if has (opts v) VMM_MERGE then do {
        (ok, s) \<leftarrow> Some (sys_call (sys w));                    \<comment> \<open>mprotect\<close>
        ASSERT ok;
        (a, s) \<leftarrow> restore_loop on 0 (set_prot 0 on PROT_NONE a) s;
        realloc_cleanup1 v (with_sys s w) a on nn
      }
      else realloc_cleanup1 v w a on nn)"

text \<open>
  The loop that protects the existing pages again with \<open>VMM_MERGE\<close>: a run of pages with
  equal status ends at \<open>i\<close>.  A run of resident pages is protected from \<open>i\<close> on instead of
  from \<open>ifirst\<close>.  Where this reaches beyond the application's pages it either fails
  or makes the status bytes read-only, so that the next change of one ends the program; the
  model ends it at once.
\<close>

definition merge_run :: "nat \<Rightarrow> nat \<Rightarrow> byte \<Rightarrow> ate \<Rightarrow> os \<Rightarrow> (ate \<times> os) option" where
  "merge_run ifirst i oflag a s =
     (if dirty oflag then do {
        (ok, s) \<leftarrow> Some (sys_call s);                          \<comment> \<open>mprotect\<close>
        ASSERT ok;
        Some (set_prot ifirst (i - ifirst) PROT_RW a, s)
      }
      else if resident oflag then do {
        (ok, s) \<leftarrow> Some (sys_call s);                          \<comment> \<open>mprotect\<close>
        ASSERT ok;
        ASSERT (i + (i - ifirst) \<le> n_pages a);
        Some (set_prot i (i - ifirst) PROT_READ a, s)
      }
      else Some (a, s))"

fun merge_loop :: "nat \<Rightarrow> nat \<Rightarrow> nat \<Rightarrow> byte \<Rightarrow> ate \<Rightarrow> os \<Rightarrow> (ate \<times> os) option" where
  "merge_loop 0 i ifirst oflag a s = merge_run ifirst i oflag a s"
| "merge_loop (Suc k) i ifirst oflag a s = do {
     f \<leftarrow> flag_at a i;
     if oflag \<noteq> f AND (MMU_RSDNT OR MMU_DIRTY) then do {
       (a, s) \<leftarrow> merge_run ifirst i oflag a s;
       merge_loop k (Suc i) i f a s
     }
     else merge_loop k (Suc i) ifirst oflag a s
   }"

text \<open>The entry after \<open>mremap\<close> to \<open>q\<close> and after its fields have been set.\<close>

definition realloc_ate :: "vmm \<Rightarrow> nat \<Rightarrow> nat \<Rightarrow> ate \<Rightarrow> ate" where
  "realloc_ate v q nn a =
     (let on = n_pages a; res = has (opts v) VMM_RSDNT in
      a\<lparr>addr := q, n_pages := nn,
        l_pages := (if res then addw (l_pages a) (subw nn on) else l_pages a),
        c_pages := (if res then addw (c_pages a) (subw nn on) else c_pages a),
        base := addw q (mulw (struct_pages v) (page_size v)),
        flags := map (\<lambda>i. if on \<le> i \<and> \<not> res then byte_at (flags a) i OR (MMU_CHRGD OR MMU_RSDNT) else byte_at (flags a) i) [0..<nn],
        prots := take on (prots a) @ replicate (nn - on) (if res then PROT_READ else PROT_NONE),
        data := (\<lambda>i. if i < on * page_size v then data a i else byte_at (flags a) (i - on * page_size v))\<rparr>)"

text \<open>\<open>rename\<close>, which replaces the target.\<close>

definition os_rename :: "string \<Rightarrow> string \<Rightarrow> os \<Rightarrow> bool \<times> os" where
  "os_rename g h s =
     (case sys_call s of
        (False, s) \<Rightarrow> (False, s)
      | (True, s) \<Rightarrow>
          (case files s g of
             None \<Rightarrow> (False, s)
           | Some f \<Rightarrow> (True, s\<lparr>files := (files s)(g := None, h \<mapsto> f)\<rparr>)))"

definition realloc_rename :: "vmm \<Rightarrow> ate \<Rightarrow> nat \<Rightarrow> os \<Rightarrow> bool \<times> os" where
  "realloc_rename v a q s =
     (if addr a \<noteq> q then os_rename (vmm_fname v a) (swap_name (fstem v) (vpid v) q) s else (True, s))"

definition realloc_mlock :: "vmm \<Rightarrow> os \<Rightarrow> bool \<times> os" where
  "realloc_mlock v s =
     (if has (opts v) VMM_MLOCK then sys_calls (if has (opts v) VMM_RSDNT then 2 else 1) s else (True, s))"

text \<open>The part after \<open>mremap\<close> to \<open>q\<close>.\<close>

definition realloc_moved ::
  "vmm \<Rightarrow> 'a world_scheme \<Rightarrow> ate \<Rightarrow> nat \<Rightarrow> nat \<Rightarrow> (nat \<times> vmm \<times> 'a world_scheme) option" where
  "realloc_moved v w a nn q = do {
     a' \<leftarrow> Some (realloc_ate v q nn a);
     (ok, s) \<leftarrow> Some (sys_call (sys w));                       \<comment> \<open>mprotect\<close>
     ASSERT ok;
     (a', s) \<leftarrow> (if has (opts v) VMM_MERGE then do {
         a' \<leftarrow> Some (a'\<lparr>prots := replicate nn (if has (opts v) VMM_RSDNT then PROT_READ else PROT_NONE)\<rparr>);
         f \<leftarrow> flag_at a' 0;
         merge_loop (n_pages a) 0 0 f a' s
       }
       else Some (a', s));
     (ok, s) \<leftarrow> Some (realloc_mlock v s);
     ASSERT ok;
     (ok, s) \<leftarrow> Some (realloc_rename v a q s);
     ASSERT ok;
     malloc_return (base a') (v\<lparr>a_tbl := a' # a_tbl v\<rparr>) (with_sys s w)
   }"

definition realloc_grow ::
  "vmm \<Rightarrow> 'a world_scheme \<Rightarrow> ate \<Rightarrow> nat \<Rightarrow> (nat \<times> vmm \<times> 'a world_scheme) option" where
  "realloc_grow v w a nn = do {
     on \<leftarrow> Some (n_pages a);
     (ret, v, w) \<leftarrow> realloc_admit v w on nn;
     if ret = -1 then malloc_return 0 v w
     else do {
       v \<leftarrow> Some (v\<lparr>a_tbl := remove1 a (a_tbl v)\<rparr>);
       (ok, s) \<leftarrow> Some (if has (opts v) VMM_MERGE then sys_call (sys w) else (True, sys w));   \<comment> \<open>mprotect\<close>
       if \<not> ok then realloc_cleanup1 v (with_sys s w) a on nn
       else do {
         a \<leftarrow> Some (if has (opts v) VMM_MERGE then set_prot 0 on PROT_RW a else a);
         (case os_mmap s of                                    \<comment> \<open>mremap\<close>
            (None, s) \<Rightarrow> realloc_cleanup2 v (with_sys s w) a on nn
          | (Some q, s) \<Rightarrow> realloc_moved v (with_sys s w) a nn q)
       }
     }
   }"

definition sbma_realloc :: "vmm \<Rightarrow> 'a world_scheme \<Rightarrow> nat \<Rightarrow> nat \<Rightarrow> (nat \<times> vmm \<times> 'a world_scheme) option" where
  "sbma_realloc v w ptr len = do {
     SBMA_STATE_CHECK v w;
     if len = 0 then Some (0, v, w)
     else do {
       a \<leftarrow> ate_at v (subw ptr (mulw (struct_pages v) (page_size v)));
       nn \<leftarrow> Some (app_pages v len);
       if nn = n_pages a then malloc_return (base a) v w
       else if nn < n_pages a then realloc_shrink v w a nn
       else realloc_grow v w a nn
     }
   }"


subsection \<open>The grown entry\<close>

text \<open>What \<open>mremap\<close> and the directory promise for the new place.\<close>

definition resize_at :: "vmm \<Rightarrow> 'a world_scheme \<Rightarrow> ate \<Rightarrow> nat \<Rightarrow> nat \<Rightarrow> bool" where
  "resize_at v w a q nn \<longleftrightarrow>
     q + (struct_pages v + nn + flag_pages v nn) * page_size v < SIZE_MOD \<and>
     (q = addr a \<or> files (sys w) (swap_name (fstem v) (vpid v) q) = None) \<and>
     (\<forall>b\<in>set (remove1 a (a_tbl v)). addr b \<noteq> q \<and>
        (q + (struct_pages v + nn + flag_pages v nn) * page_size v \<le> base b \<or> region_end (page_size v) b \<le> q))"

lemma realloc_ate_simps [simp]:
  "addr (realloc_ate v q nn a) = q" "n_pages (realloc_ate v q nn a) = nn" "d_pages (realloc_ate v q nn a) = d_pages a"
  "vmm_fname u (realloc_ate v q nn a) = swap_name (fstem u) (vpid u) q"
  by (simp_all add: realloc_ate_def Let_def vmm_fname_def)

lemma realloc_flags:
  assumes "length (flags a) = n_pages a" and "n_pages a < nn"
  shows "flags (realloc_ate v q nn a) =
    flags a @ replicate (nn - n_pages a) (if has (opts v) VMM_RSDNT then 0 else MMU_CHRGD OR MMU_RSDNT)"
  using assms by (intro nth_equalityI) (auto simp: realloc_ate_def Let_def byte_at_def nth_append)

lemma realloc_counts:
  assumes "l_pages a \<le> n_pages a" "c_pages a \<le> n_pages a" "n_pages a < nn" "nn < SIZE_MOD"
  shows "l_pages (realloc_ate v q nn a) = l_pages a + (if has (opts v) VMM_RSDNT then nn - n_pages a else 0)"
    "c_pages (realloc_ate v q nn a) = c_pages a + (if has (opts v) VMM_RSDNT then nn - n_pages a else 0)"
  using assms by (simp_all add: realloc_ate_def Let_def subw_exact addw_exact)

lemma data_update [simp]:
  "vmm_fname u (a\<lparr>data := d\<rparr>) = vmm_fname u a" "meta_pages u (a\<lparr>data := d\<rparr>) = meta_pages u a"
  "region_end ps (a\<lparr>data := d\<rparr>) = region_end ps a"
  by (simp_all add: vmm_fname_def meta_pages_def region_end_def)

text \<open>What the grown entry may have in memory: the old bytes in the old pages, and nothing in new pages that are
  not resident.\<close>

definition grown_data :: "vmm \<Rightarrow> ate \<Rightarrow> nat \<Rightarrow> (nat \<Rightarrow> byte) \<Rightarrow> bool" where
  "grown_data v a nn d \<longleftrightarrow> (\<forall>i < n_pages a * page_size v. d i = data a i) \<and>
     (has (opts v) VMM_RSDNT \<or> (\<forall>i. n_pages a * page_size v \<le> i \<and> i < nn * page_size v \<longrightarrow> d i = 0))"

lemma realloc_ate_sound:
  assumes sd: "sound ps f a" and ps: "page_size v = ps" "0 < ps" and nn: "n_pages a < nn" "nn < SIZE_MOD" and lean: "lean a"
    and d: "grown_data v a nn d" and b: "b = (realloc_ate v q nn a)\<lparr>data := d\<rparr>"
  shows "sound ps f b" and "lean b" and "kept ps f a f b"
proof -
  let ?x = "if has (opts v) VMM_RSDNT then 0 else MMU_CHRGD OR MMU_RSDNT"
  note ca = sound_counts [OF sd]
  have wf: "wf_ate a" and fi: "filed ps f a" and ze: "zeroed ps a" using sd by (simp_all add: sound_def)
  have fl: "flags b = flags a @ replicate (nn - n_pages a) ?x" using realloc_flags [OF ca(1) nn(1)] by (simp add: b)
  have old: "flags b ! p = flags a ! p" if "p < n_pages a" for p using that ca(1) by (simp add: fl nth_append)
  have new: "flags b ! p = ?x" if "n_pages a \<le> p" "p < nn" for p using that ca(1) by (simp add: fl nth_append)
  have "l_pages a \<le> n_pages a" using ca(1,6) by (metis length_filter_le)
  note cn = realloc_counts [OF this ca(3) nn]
  have dt: "data b i = data a i" if "i div ps < n_pages a" for i
    using d ps that by (simp add: b grown_data_def div_less_iff_less_mult)
  have "counts_ok 0 (realloc_ate v q nn a)"
    using ca nn unfolding counts_ok_def realloc_flags [OF ca(1) nn(1)] cn by (simp add: zero_flag)
  then have co: "counts_ok 0 b" by (simp add: b counts_ok_def)
  have "length (prots a) = n_pages a" "prots a = map prot_of (flags a)"
    using wf ca(1) by (simp_all add: wf_ate_def prots_ok_def)
  then have "prots_ok b" unfolding prots_ok_def fl by (simp add: b realloc_ate_def Let_def prot_of_def zero_flag)
  moreover have "pages_ok b" using wf unfolding pages_ok_def fl by (auto simp: wf_ate_def pages_ok_def list_all_iff page_ok_def zero_flag)
  moreover have "filed ps f b" using fi ca(1) unfolding filed_def fl by (auto simp: nth_append zero_flag)
  moreover have "zeroed ps b"
    unfolding zeroed_def
  proof (intro allI impI)
    fix i
    assume i: "i div ps < length (flags b)" "\<not> resident (flags b ! (i div ps))"
    show "data b i = 0"
    proof (cases "i div ps < n_pages a")
      case True
      then show ?thesis using i ze ca(1) by (simp add: old dt zeroed_def)
    next
      case False
      then have "i div ps < nn" using i(1) nn(1) ca(1) by (simp add: fl)
      moreover have "\<not> has (opts v) VMM_RSDNT" using i False nn ca(1) new [of "i div ps"] by (auto simp: fl zero_flag)
      ultimately show ?thesis
        using False d ps by (simp add: b grown_data_def div_less_iff_less_mult not_less less_eq_div_iff_mult_less_eq)
    qed
  qed
  ultimately show "sound ps f b" using co by (simp add: sound_def wf_ate_def)
  show "lean b" using lean unfolding lean_def fl by (auto simp: list_all_iff zero_flag)
  show "kept ps f a f b" by (simp add: kept_def holds_def Let_def old dt)
qed

lemma flag_pages_eq:
  assumes "0 < n" and "n < SIZE_MOD"
  shows "flag_pages v n = Suc ((n - 1) div page_size v)"
  using app_pages_eq [OF assms, of v] by (simp add: app_pages_def flag_pages_def)

definition realloc_need :: "vmm \<Rightarrow> nat \<Rightarrow> nat \<Rightarrow> nat" where
  "realloc_need v on nn = (if has (opts v) VMM_METACH \<or> has (opts v) VMM_RSDNT then realloc_charge v on nn else 0)"

lemma realloc_admit_eq: "realloc_admit v w on nn = admit v w (VMM_TO_SYS v w (realloc_need v on nn))"
  by (auto simp: realloc_admit_def realloc_need_def admit_def madmit_def ipc_madmit_def)

lemma realloc_need_eq:
  assumes r: "resize_at v w a q nn" and ps: "0 < page_size v" and n: "0 < n_pages a" "n_pages a < nn"
    and cl: "l_pages a \<le> n_pages a" "c_pages a \<le> n_pages a"
  shows "meta_pages v (realloc_ate v q nn a) + c_pages (realloc_ate v q nn a) =
    meta_pages v a + c_pages a + realloc_need v (n_pages a) nn"
proof -
  let ?s = "struct_pages v" and ?f = "flag_pages v"
  have "?s + nn + ?f nn \<le> (?s + nn + ?f nn) * page_size v" using ps by simp
  moreover have "q + (?s + nn + ?f nn) * page_size v < SIZE_MOD" using r by (simp add: resize_at_def)
  ultimately have b: "?s + nn + ?f nn < SIZE_MOD" by linarith
  have mono: "?f (n_pages a) \<le> ?f nn"
    using n b by (simp add: flag_pages_eq div_le_mono)
  have "nn < SIZE_MOD" using b by simp
  note cn = realloc_counts(2) [OF cl n(2) this, of v q]
  have "subw nn (n_pages a) = nn - n_pages a" "subw (?f nn) (?f (n_pages a)) = ?f nn - ?f (n_pages a)"
    "addw (nn - n_pages a) (?f nn - ?f (n_pages a)) = (nn - n_pages a) + (?f nn - ?f (n_pages a))"
    "addw ?s (?f nn) = ?s + ?f nn" "addw ?s (?f (n_pages a)) = ?s + ?f (n_pages a)"
    using n b mono by (simp_all add: subw_exact addw_exact)
  then show ?thesis using mono cn by (simp add: meta_pages_def realloc_need_def realloc_charge_def)
qed

subsection \<open>Growing succeeds\<close>

lemma held_remove: "held me w w1 \<Longrightarrow> since (remove_ate a me) w (remove_ate a me) w1"
proof -
  assume h: "held me w w1"
  have "intact (remove_ate a me) w (remove_ate a me) w1"
    by (rule intact_refl) (use h in \<open>auto simp: held_def names_def dest: subsetD [OF set_remove1_subset]\<close>)
  moreover have "proc_at (remove_ate a me) u j = (if j = iid (vipc me) then Some (remove_ate a me) else proc_at me u j)"
    for u :: "'a world_scheme" and j by (simp add: proc_at_def)
  ultimately show ?thesis using h by (auto simp: held_def since_def)
qed

text \<open>A successful resize: the entry keeps its bytes at the new place.\<close>

definition grown_post ::
  "vmm \<Rightarrow> 'a world_scheme \<Rightarrow> ate \<Rightarrow> byte list \<Rightarrow> ate \<Rightarrow> vmm \<Rightarrow> 'a world_scheme \<Rightarrow> bool" where
  "grown_post me w a f b v' w' \<longleftrightarrow> company v' w' \<and> since (remove_ate a me) w v' w' \<and>
     total w' = total w \<and> inter_mtx w' = inter_mtx w \<and>
     alike (me\<lparr>a_tbl := b # remove1 a (a_tbl me)\<rparr>) v' \<and> stored v' w' b f \<and> kept (page_size me) f a f b"

lemma resize_region:
  assumes r: "resize_at v w a q nn"
  shows "base (realloc_ate v q nn a) = q + struct_pages v * page_size v"
    and "apart (page_size v) (a_tbl v) \<Longrightarrow> apart (page_size v) (realloc_ate v q nn a # remove1 a (a_tbl v))"
proof -
  let ?ps = "page_size v" and ?s = "struct_pages v"
  have e: "q + ?s * ?ps + nn * ?ps + flag_pages v nn * ?ps < SIZE_MOD"
    using r by (simp add: resize_at_def algebra_simps)
  then have "mulw ?s ?ps = ?s * ?ps" by (intro mulw_exact) linarith
  then show b: "base (realloc_ate v q nn a) = q + ?s * ?ps" using e by (simp add: realloc_ate_def Let_def addw_exact)
  show "apart ?ps (realloc_ate v q nn a # remove1 a (a_tbl v))" if "apart ?ps (a_tbl v)"
    using apart_remove1 [OF that, of a] e r
    unfolding apart.simps region_end_def b by (auto simp: list_all_iff resize_at_def region_end_def algebra_simps)
qed

lemma grown_postI:
  assumes h: "held me w w1" and al: "alike me v" and tot: "total w1 = total w" "inter_mtx w1 = inter_mtx w"
    and c: "VMM_TO_SYS me w (realloc_need me (n_pages a) nn) \<le> s_mem w1"
    and a: "a \<in> set (a_tbl me)" and st: "stored me w a f" and nn: "n_pages a < nn"
    and d: "grown_data me a nn d" and b: "b = (realloc_ate me q nn a)\<lparr>data := d\<rparr>" and r: "resize_at me w a q nn"
    and sz: "sized (me\<lparr>a_tbl := realloc_ate me q nn a # remove1 a (a_tbl me)\<rparr>) w"
    and w': "w' = with_sys s (debit (iid (vipc me)) (VMM_TO_SYS me w (realloc_need me (n_pages a) nn)) w1)"
    and s: "faults s = []" "grants s = []"
      "files s = (files (sys w1))(vmm_fname me a := None, swap_name (fstem me) (vpid me) q \<mapsto> f)"
  shows "grown_post me w a f b (v\<lparr>a_tbl := b # remove1 a (a_tbl me)\<rparr>) w'"
proof -
  let ?c = "VMM_TO_SYS me w (realloc_need me (n_pages a) nn)"
  let ?g = "swap_name (fstem me) (vpid me) q" and ?r = "remove1 a (a_tbl me)"
  let ?me = "me\<lparr>a_tbl := b # remove1 a (a_tbl me)\<rparr>" and ?v = "v\<lparr>a_tbl := b # remove1 a (a_tbl me)\<rparr>"
  have bs: "addr b = q" "n_pages b = nn" "d_pages b = d_pages a" "vmm_fname u b = swap_name (fstem u) (vpid u) q"
    "meta_pages u b = meta_pages u (realloc_ate me q nn a)" "c_pages b = c_pages (realloc_ate me q nn a)"
    "region_end ps b = region_end ps (realloc_ate me q nn a)" "base b = base (realloc_ate me q nn a)" for u ps
    by (simp_all add: b)
  have sz: "sized ?me w" using sz bs by (simp add: sized_def nsum_def)
  have co: "company me w1" and sc: "sc_page w1 = sc_page w" using h by (auto simp: held_def since_def)
  have ok1: "proc_ok me w1" by (rule company_self [OF co])
  then have wf1: "well_formed me w1" and ac1: "accounted me w1" by (simp_all add: proc_ok_def)
  note e = well_formed_entry [OF wf1 a] and ca = well_formed_counts [OF wf1 a]
  have ts: "VMM_TO_SYS me w1 = VMM_TO_SYS me w" using sc by (simp add: VMM_TO_SYS_def fun_eq_iff)
  have id: "iid (vipc me) < length (c_mem w1)" using wf1 by (simp add: well_formed_def wf_shm_def in_shm_def)
  have g: "?g = vmm_fname me a \<or> files (sys w1) ?g = None"
    using r h by (auto simp: resize_at_def held_def vmm_fname_def)
  have sub: "set ?r \<subseteq> set (a_tbl me)" by (rule set_remove1_subset)
  have nd: "vmm_fname me b \<noteq> vmm_fname me a" if "b \<in> set ?r" for b
    using wf1 a that by (auto simp: well_formed_def distinct_map set_remove1_eq dest: inj_onD)
  have an: "vmm_fname me a \<notin> names (remove_ate a me)" using nd by (auto simp: names_def dest: sym)
  then have gn: "?g \<notin> names (remove_ate a me)"
    using g self_fresh [OF wf1, of ?g] sub by (auto simp: names_def)
  have "nn < SIZE_MOD" using sz by (simp add: sized_def nsum_def SIZE_MOD_def bs)
  moreover have sd: "sound (page_size me) f a" using st by (simp add: stored_def)
  ultimately have so: "sound (page_size me) f b" "lean b" "kept (page_size me) f a f b"
    using realloc_ate_sound [OF _ refl e(5) nn _ e(2) d b] by blast+
  have stm: "stored me w' b f" using so(1) s(3) by (simp add: stored_def w' bs)
  let ?w0 = "with_sys (s\<lparr>files := (files (sys w1))(vmm_fname me a := None)\<rparr>) (debit (iid (vipc me)) ?c w1)"
  have shm: "wf_shm (vipc me) w'" "wf_shm (vipc me) ?w0" using wf1 id c by (simp_all add: w' well_formed_def wf_shm_def)
  have wf0: "well_formed (remove_ate a me) ?w0"
    by (rule well_formed_remove [OF wf1 a shm(2)]) simp_all
  have "well_formed ((remove_ate a me)\<lparr>a_tbl := b # a_tbl (remove_ate a me)\<rparr>) w'"
  proof (rule well_formed_add [OF wf0])
    show "sized ((remove_ate a me)\<lparr>a_tbl := b # a_tbl (remove_ate a me)\<rparr>) ?w0"
      using sz sc by (simp add: sized_def remove_ate_def)
    show "apart (page_size (remove_ate a me)) (b # a_tbl (remove_ate a me))"
      using resize_region(2) [OF r] wf1 by (simp add: well_formed_def bs)
    show "addr b \<notin> addr ` set (a_tbl (remove_ate a me))" using r by (auto simp: resize_at_def bs)
    show "vmm_fname (remove_ate a me) b \<notin> names (remove_ate a me)" using gn by (simp add: bs)
    show "entry_ok (remove_ate a me) w' b" using stm so(2) nn by (auto simp: entry_ok_def bs)
    show "files (sys w') g = files (sys ?w0) g" if "g \<in> names (remove_ate a me)" for g
      using that gn by (auto simp: w' s(3))
  qed (use shm in \<open>simp_all add: w'\<close>)
  then have wf': "well_formed ?me w'" by (simp add: remove_ate_def)
  have "l_pages a \<le> n_pages a" using ca(1,6) by (metis length_filter_le)
  note need = realloc_need_eq [OF r e(5,1) nn this ca(3)]
  have "csum me (b # ?r) = realloc_need me (n_pages a) nn + csum me (a_tbl me)"
    using need sums_remove(1) [OF a, of me] by (simp add: csum_def bs)
  moreover have "csum me (b # ?r) \<le> nsum me (b # ?r)" using well_formed_sums(1) [OF wf'] by simp
  ultimately have "VMM_TO_SYS me w (csum me (b # ?r)) = ?c + VMM_TO_SYS me w (csum me (a_tbl me))"
    using TO_SYS_exact [OF sz] by (simp add: add_mult_distrib)
  moreover have "dsum (b # ?r) = dsum (a_tbl me)" using sums_remove(2) [OF a] by (simp add: dsum_def bs)
  ultimately have "accounted ?me w'"
    using ac1 id by (simp add: accounted_def w' ts)
  with wf' have okm: "proc_ok ?me w'" by (simp add: proc_ok_def)
  have al': "alike ?me ?v" using al by (simp add: alike_def)
  have ok': "proc_ok ?v w'" using okm by (simp add: alike_proc(2) [OF al'])
  have nm: "names ?v = insert ?g (vmm_fname me ` set ?r)"
    using alike_names [OF al'] by (simp add: names_def bs)
  have ev: "iid (vipc ?v) = iid (vipc me)" "n_procs (vipc ?v) = n_procs (vipc me)" "page_size ?v = page_size me"
    "vmm_fname ?v = vmm_fname me"
    using al by (simp_all add: alike_def vmm_fname_def fun_eq_iff)
  have q': "quiet w'" using s by (simp add: quiet_def w')
  have fr': "frame w1 w'" using id c by (simp add: frame_def w')
  have cd: "c_mem w' ! j = c_mem w1 ! j \<and> d_mem w' ! j = d_mem w1 ! j" if "j \<noteq> iid (vipc me)" for j
    using that by (simp add: w')
  have oth: "files (sys w') g' = files (sys w1) g' \<and> g' \<notin> names ?v"
    if "j < n_procs (vipc me)" "j \<noteq> iid (vipc me)" "procs w1 j = Some u" "g' \<in> names u" for j u g'
  proof -
    have "names u \<inter> names me = {}" by (rule company_others [OF co that(1-3)])
    moreover have "vmm_fname me a \<in> names me" "vmm_fname me ` set ?r \<subseteq> names me" using a sub by (auto simp: names_def)
    moreover have "?g \<notin> names u"
      using g company_fresh [OF co that(1-3)] calculation(1,2) by auto
    ultimately show ?thesis using that(4) by (auto simp: nm w' s(3))
  qed
  have co': "company ?v w'" by (rule company_upd(1) [OF co ok' q' fr' ev(1,2) cd oth])
  have "files (sys w') g' = files (sys w1) g'" if "g' \<in> names (remove_ate a me)" for g'
    using that gn an by (auto simp: w' s(3))
  then have "intact (remove_ate a me) w1 ?v w'"
    by (intro intact_subset) (use ev in auto)
  then have "since (remove_ate a me) w1 ?v w'"
    by (rule since_others) (use fr' oth ev in \<open>auto simp: frame_def\<close>)
  then have "since (remove_ate a me) w ?v w'"
    by (intro since_trans [OF held_remove [OF h, of a]])
       (use co in \<open>auto simp: company_def obliging_def proc_at_def split: if_splits\<close>)
  moreover have "stored ?v w' b f" using stm unfolding alike_proc(4) [OF al'] by simp
  moreover have "total w' = total w" "inter_mtx w' = inter_mtx w" using fr' tot by (auto simp: frame_def)
  ultimately show ?thesis using co' al' so(3) by (simp add: grown_post_def)
qed

lemma realloc_ate_cong:
  assumes "opts u = opts v" and "page_size u = page_size v"
  shows "realloc_ate u = realloc_ate v"
  using assms by (simp add: realloc_ate_def struct_pages_def fun_eq_iff Let_def cong: if_cong)

text \<open>The loop of \<open>VMM_MERGE\<close> on pages of which none is both resident and clean: the dirty ones are writable
  again, the others are left alone.\<close>

definition reopened :: "nat \<Rightarrow> nat \<Rightarrow> ate \<Rightarrow> ate" where
  "reopened b e a = a\<lparr>prots := map (\<lambda>q. if b \<le> q \<and> q < e \<and> dirty (flags a ! q) then PROT_RW else prots a ! q) [0..<length (prots a)]\<rparr>"

lemma merge_run_eq:
  assumes "faults s = []" and "dirty x \<or> \<not> resident x" and "b \<le> i"
    and "\<forall>q. b \<le> q \<and> q < i \<longrightarrow> dirty (flags a ! q) = dirty x"
  shows "merge_run b i x a s = Some (reopened b i a, s)"
proof (cases "dirty x")
  case True
  have "map_range b (i - b) (\<lambda>_. PROT_RW) (prots a) =
      map (\<lambda>q. if b \<le> q \<and> q < i \<and> dirty (flags a ! q) then PROT_RW else prots a ! q) [0..<length (prots a)]"
    using assms(3,4) True by (intro nth_equalityI) auto
  with assms(1) True show ?thesis by (simp add: merge_run_def reopened_def set_prot_def)
next
  case False
  then have "map (\<lambda>q. if b \<le> q \<and> q < i \<and> dirty (flags a ! q) then PROT_RW else prots a ! q) [0..<length (prots a)] = prots a"
    using assms(4) by (intro nth_equalityI) auto
  with False assms(2) show ?thesis by (simp add: merge_run_def reopened_def)
qed

lemma reopened_simps [simp]:
  "flags (reopened b e a) = flags a" "length (prots (reopened b e a)) = length (prots a)"
  "b \<le> c \<Longrightarrow> c \<le> e \<Longrightarrow> reopened c e (reopened b c a) = reopened b e a"
  by (auto simp: reopened_def intro!: nth_equalityI)

lemma merge_loop_eq:
  assumes "faults s = []" and "dirty x \<or> \<not> resident x" and "b \<le> i" and "i + k \<le> length (flags a)"
    and "\<forall>q. b \<le> q \<and> q < i \<longrightarrow> dirty (flags a ! q) = dirty x" and "\<forall>y\<in>set (take (i + k) (flags a)). dirty y \<or> \<not> resident y"
  shows "merge_loop k i b x a s = Some (reopened b (i + k) a, s)"
  using assms
proof (induction k arbitrary: i b x a)
  case 0
  then show ?case by (simp add: merge_run_eq)
next
  case (Suc k)
  let ?f = "flags a ! i"
  have i: "i < length (flags a)" using Suc.prems(4) by simp
  then have "?f \<in> set (take (i + Suc k) (flags a))" by (auto simp: in_set_conv_nth intro!: exI [of _ i])
  then have f: "dirty ?f \<or> \<not> resident ?f" using Suc.prems(6) by blast
  show ?case
  proof (cases "x = ?f AND (MMU_RSDNT OR MMU_DIRTY)")
    case True
    then have "dirty x = dirty ?f" by (auto simp: flag_ops)
    then have fi: "\<forall>q. b \<le> q \<and> q < Suc i \<longrightarrow> dirty (flags a ! q) = dirty x" using Suc.prems(5) by (auto simp: less_Suc_eq)
    have "merge_loop k (Suc i) b x a s = Some (reopened b (Suc i + k) a, s)"
      by (rule Suc.IH [OF Suc.prems(1,2) _ _ fi]) (use Suc.prems(3,4,6) in simp_all)
    then show ?thesis using i True by simp
  next
    case False
    have fi: "\<forall>q. i \<le> q \<and> q < Suc i \<longrightarrow> dirty (flags (reopened b i a) ! q) = dirty ?f" by (auto simp: less_Suc_eq)
    have "merge_loop k (Suc i) i ?f (reopened b i a) s = Some (reopened i (Suc i + k) (reopened b i a), s)"
      by (rule Suc.IH [OF Suc.prems(1) f _ _ fi]) (use Suc.prems(4,6) in simp_all)
    moreover have "merge_run b i x a s = Some (reopened b i a, s)"
      using Suc.prems by (intro merge_run_eq) auto
    ultimately show ?thesis using False i Suc.prems(3) by simp
  qed
qed

text \<open>The pages for which the loop is right.\<close>

definition mergeable :: "vmm \<Rightarrow> ate \<Rightarrow> bool" where
  "mergeable v a \<longleftrightarrow> has (opts v) VMM_MERGE \<longrightarrow> (\<forall>x\<in>set (flags a). dirty x \<or> \<not> resident x \<and> \<not> has (opts v) VMM_RSDNT)"

lemma realloc_ate_prots:
  "(realloc_ate v q nn (set_prot b n p a))\<lparr>prots := x\<rparr> = (realloc_ate v q nn a)\<lparr>prots := x\<rparr>"
  "prots (realloc_ate v q nn a) =
     take (n_pages a) (prots a) @ replicate (nn - n_pages a) (if has (opts v) VMM_RSDNT then PROT_READ else PROT_NONE)"
  by (simp_all add: realloc_ate_def Let_def set_prot_def cong: if_cong)

lemma merge_entry:
  assumes wf: "wf_ate a" and n: "0 < n_pages a" "n_pages a < nn" and mg: "mergeable v a" and s: "faults s = []" and m: "has (opts v) VMM_MERGE"
  shows "do { a' \<leftarrow> Some ((realloc_ate v q nn (set_prot 0 (n_pages a) PROT_RW a))
              \<lparr>prots := replicate nn (if has (opts v) VMM_RSDNT then PROT_READ else PROT_NONE)\<rparr>);
            f \<leftarrow> flag_at a' 0; merge_loop (n_pages a) 0 0 f a' s } = Some (realloc_ate v q nn a, s)"
proof -
  let ?x = "if has (opts v) VMM_RSDNT then PROT_READ else PROT_NONE"
  define b where "b = (realloc_ate v q nn a)\<lparr>prots := replicate nn ?x\<rparr>"
  have l: "length (flags a) = n_pages a" "length (prots a) = n_pages a" and po: "prots a = map prot_of (flags a)"
    using wf by (simp_all add: wf_ate_def counts_ok_def prots_ok_def)
  have fl: "flags b = flags a @ replicate (nn - n_pages a) (if has (opts v) VMM_RSDNT then 0 else MMU_CHRGD OR MMU_RSDNT)"
    using realloc_flags [OF l(1) n(2)] by (simp add: b_def)
  have old: "\<forall>y\<in>set (flags a). dirty y \<or> \<not> resident y" using mg m by (auto simp: mergeable_def)
  have "flags b ! 0 = flags a ! 0" using n l by (simp add: fl nth_append)
  moreover have "flags a ! 0 \<in> set (flags a)" using n l by simp
  ultimately have "merge_loop (n_pages a) 0 0 (flags b ! 0) b s = Some (reopened 0 (0 + n_pages a) b, s)"
    using old l n by (intro merge_loop_eq [OF s]) (auto simp: fl)
  moreover have "reopened 0 (n_pages a) b = realloc_ate v q nn a"
  proof -
    have "(if dirty (flags a ! p) then PROT_RW else ?x) = prot_of (flags a ! p)" if "p < n_pages a" for p
    proof -
      have "flags a ! p \<in> set (flags a)" using that l by simp
      moreover from this have "page_ok (flags a ! p)" using wf by (simp add: wf_ate_def pages_ok_def list_all_iff)
      ultimately show ?thesis using mg m by (auto simp: mergeable_def prot_of_def page_ok_def)
    qed
    then have 1: "map (\<lambda>p. if p < n_pages a \<and> dirty (flags b ! p) then PROT_RW else ?x) [0..<nn] = take (n_pages a) (prots a) @ replicate (nn - n_pages a) ?x"
      using l n by (intro nth_equalityI) (auto simp: po fl nth_append)
    have 2: "map (\<lambda>q. if q < n_pages a \<and> dirty (flags b ! q) then PROT_RW else replicate nn ?x ! q) [0..<nn] =
        map (\<lambda>p. if p < n_pages a \<and> dirty (flags b ! p) then PROT_RW else ?x) [0..<nn]" by (rule map_cong) auto
    have "prots b = replicate nn ?x" by (simp add: b_def)
    then have "map (\<lambda>q. if q < n_pages a \<and> dirty (flags b ! q) then PROT_RW else prots b ! q) [0..<length (prots b)] =
        prots (realloc_ate v q nn a)" unfolding realloc_ate_prots(2) using trans [OF 2 1] by (simp only: length_replicate)
    then show ?thesis by (simp add: reopened_def) (simp add: b_def)
  qed
  moreover have "0 < length (flags b)" using n l by (simp add: fl)
  ultimately show ?thesis unfolding realloc_ate_prots(1) b_def [symmetric] by simp
qed

lemma mcheck_loop_tbl: "mcheck_loop (v\<lparr>a_tbl := t\<rparr>) as c d = mcheck_loop v as c d"
proof (induction as arbitrary: c d)
  case (Cons a as)
  have "meta_pages (v\<lparr>a_tbl := t\<rparr>) a = meta_pages v a" by (simp add: meta_pages_def struct_pages_def flag_pages_def)
  with Cons show ?case by (simp cong: if_cong)
qed simp

lemma mcheck_loop_data: "mcheck_loop v (b\<lparr>data := x\<rparr> # as) c d = mcheck_loop v (b # as) c d"
proof -
  have "flag_span (b\<lparr>data := x\<rparr>) 0 n = flag_span b 0 n" for n by (simp add: flag_span_def)
  then show ?thesis by (simp cong: if_cong)
qed

lemma state_check_data:
  "SBMA_STATE_CHECK (v\<lparr>a_tbl := b\<lparr>data := d\<rparr> # t\<rparr>) w = SBMA_STATE_CHECK (v\<lparr>a_tbl := b # t\<rparr>) w"
proof -
  have "VMM_TO_SYS (v\<lparr>a_tbl := x\<rparr>) w = VMM_TO_SYS v w" for x by (simp add: VMM_TO_SYS_def fun_eq_iff)
  then show ?thesis by (simp add: SBMA_STATE_CHECK_def sbma_mcheck_def mcheck_loop_tbl mcheck_loop_data del: mcheck_loop.simps cong: if_cong)
qed

text \<open>The grown entry when the new pages are wiped of the old status bytes.\<close>

definition wiped :: "vmm \<Rightarrow> nat \<Rightarrow> nat \<Rightarrow> ate \<Rightarrow> ate" where
  "wiped v q nn a = (realloc_ate v q nn a)\<lparr>data := (\<lambda>i. if i < n_pages a * page_size v then data a i else 0)\<rparr>"

lemma grown_data_wiped: "grown_data v a nn (\<lambda>i. if i < n_pages a * page_size v then data a i else 0)"
  by (simp add: grown_data_def)

lemma grown_data_zero:
  "has (opts v) VMM_RSDNT \<or> (\<forall>x\<in>set (flags a). x = 0) \<Longrightarrow> grown_data v a nn (data (realloc_ate v q nn a))"
  by (auto simp: grown_data_def realloc_ate_def Let_def byte_at_def)

lemma kept_wiped: "0 < page_size v \<Longrightarrow> kept (page_size v) f a f' (wiped v q nn a) \<Longrightarrow> kept (page_size v) f a f' (realloc_ate v q nn a)"
proof -
  assume ps: "0 < page_size v" and k: "kept (page_size v) f a f' (wiped v q nn a)"
  have "holds (page_size v) f' (realloc_ate v q nn a) i x = holds (page_size v) f' (wiped v q nn a) i x"
    if "i div page_size v < n_pages a" for i x
  proof -
    have "data (wiped v q nn a) i = data (realloc_ate v q nn a) i"
      using that ps by (simp add: wiped_def realloc_ate_def Let_def div_less_iff_less_mult)
    then show ?thesis by (simp add: holds_def wiped_def Let_def)
  qed
  with k show "kept (page_size v) f a f' (realloc_ate v q nn a)" unfolding kept_def by blast
qed

text \<open>After \<open>mremap\<close> has moved the mapping.\<close>

lemma realloc_moved_eq:
  assumes "sys_call (sys w) = (True, sys w)"
    and "(if has (opts v) VMM_MERGE then do {
         f \<leftarrow> flag_at ((realloc_ate v q nn a)\<lparr>prots := replicate nn (if has (opts v) VMM_RSDNT then PROT_READ else PROT_NONE)\<rparr>) 0;
         merge_loop (n_pages a) 0 0 f
           ((realloc_ate v q nn a)\<lparr>prots := replicate nn (if has (opts v) VMM_RSDNT then PROT_READ else PROT_NONE)\<rparr>) (sys w)
       }
       else Some (realloc_ate v q nn a, sys w)) = Some (b, sys w)"
    and "realloc_mlock v (sys w) = (True, sys w)" and "realloc_rename v a q (sys w) = (True, s)"
    and "SBMA_STATE_CHECK (v\<lparr>a_tbl := b # a_tbl v\<rparr>) (with_sys s w) = Some ()"
  shows "realloc_moved v w a nn q = Some (base b, v\<lparr>a_tbl := b # a_tbl v\<rparr>, with_sys s w)"
  unfolding realloc_moved_def malloc_return_def
  by (simp only: bind.bind_lunit assms prod.case ASSERT_True)

lemma realloc_moved_ok:
  assumes wf: "wf_ate a" and n: "0 < n_pages a" "n_pages a < nn" and mg: "mergeable v a"
    and fq: "faults (sys w) = []" and f: "files (sys w) (vmm_fname v a) = Some f"
    and s: "s = (sys w)\<lparr>files := (files (sys w))(vmm_fname v a := None, swap_name (fstem v) (vpid v) q \<mapsto> f)\<rparr>"
    and ck: "SBMA_STATE_CHECK (v\<lparr>a_tbl := realloc_ate v q nn a # a_tbl v\<rparr>) (with_sys s w) = Some ()"
    and a2: "a2 = (if has (opts v) VMM_MERGE then set_prot 0 (n_pages a) PROT_RW a else a)"
  shows "realloc_moved v w a2 nn q = Some (base (realloc_ate v q nn a), v\<lparr>a_tbl := realloc_ate v q nn a # a_tbl v\<rparr>, with_sys s w)"
proof (rule realloc_moved_eq [OF _ _ _ _ ck])
  show "sys_call (sys w) = (True, sys w)" using fq by simp
  show "realloc_mlock v (sys w) = (True, sys w)" using fq by (simp add: realloc_mlock_def numeral_2_eq_2)
  have pl: "n_pages a2 = n_pages a" "addr a2 = addr a" "vmm_fname v a2 = vmm_fname v a"
    by (simp_all add: a2 set_prot_def vmm_fname_def)
  have "s = sys w" if "addr a = q" using f that by (simp add: s vmm_fname_def fun_upd_idem_iff)
  then show "realloc_rename v a2 q (sys w) = (True, s)"
    using fq f by (simp add: realloc_rename_def os_rename_def pl) (simp add: s)
  show "(if has (opts v) VMM_MERGE then do {
         f \<leftarrow> flag_at ((realloc_ate v q nn a2)\<lparr>prots := replicate nn (if has (opts v) VMM_RSDNT then PROT_READ else PROT_NONE)\<rparr>) 0;
         merge_loop (n_pages a2) 0 0 f
           ((realloc_ate v q nn a2)\<lparr>prots := replicate nn (if has (opts v) VMM_RSDNT then PROT_READ else PROT_NONE)\<rparr>) (sys w)
       }
       else Some (realloc_ate v q nn a2, sys w)) = Some (realloc_ate v q nn a, sys w)"
  proof (cases "has (opts v) VMM_MERGE")
    case True
    then have "a2 = set_prot 0 (n_pages a) PROT_RW a" using a2 by simp
    with merge_entry [OF wf n mg fq True, of q] True show ?thesis unfolding bind.bind_lunit pl by simp
  qed (simp add: a2)
qed

lemma realloc_grow_ok:
  assumes co: "company me w" and m: "0 < inter_mtx w" and a: "a \<in> set (a_tbl me)"
    and b: "base a = addr a + struct_pages me * page_size me" and st: "stored me w a f"
    and len: "0 < len" "len < SIZE_MOD" and nn: "nn = Suc ((len - 1) div page_size me)" "n_pages a < nn"
    and mg: "mergeable me a" and pl: "places (sys w) = q # qs" and r: "resize_at me w a q nn"
    and sz: "sized (me\<lparr>a_tbl := realloc_ate me q nn a # remove1 a (a_tbl me)\<rparr>) w"
    and en: "VMM_TO_SYS me w (realloc_need me (n_pages a) nn) \<le> s_mem w + releasable (vipc me) w"
  shows "\<exists>v' w'. sbma_realloc me w (base a) len = Some (q + struct_pages me * page_size me, v', w') \<and>
           a_tbl v' = realloc_ate me q nn a # remove1 a (a_tbl me) \<and> kept (page_size me) f a f (realloc_ate me q nn a) \<and>
           grown_post me w a f (wiped me q nn a) (v'\<lparr>a_tbl := wiped me q nn a # remove1 a (a_tbl me)\<rparr>) w' \<and>
           (has (opts me) VMM_RSDNT \<or> (\<forall>x\<in>set (flags a). x = 0) \<longrightarrow> grown_post me w a f (realloc_ate me q nn a) v' w')"
proof -
  let ?c = "VMM_TO_SYS me w (realloc_need me (n_pages a) nn)" and ?g = "swap_name (fstem me) (vpid me) q"
  obtain v w1 where ad: "admit me w ?c = Some (0, v, debit (iid (vipc me)) ?c w1)" and al: "alike me v"
    and h: "held me w w1" and w1: "?c \<le> s_mem w1" "total w1 = total w" "inter_mtx w1 = inter_mtx w"
    using admit_ok [OF co m en] by blast
  have ok: "proc_ok me w" by (rule company_self [OF co])
  then have wf: "well_formed me w" by (simp add: proc_ok_def)
  have f: "files (sys w1) (vmm_fname me a) = Some f"
    using st h a by (auto simp: stored_def held_def names_def)
  have q1: "faults (sys w1) = []" "grants (sys w1) = []" "places (sys w1) = q # qs"
    using h pl by (auto simp: held_def company_def quiet_def)
  let ?s = "(sys w1)\<lparr>places := qs, files := (files (sys w1))(vmm_fname me a := None, ?g \<mapsto> f)\<rparr>"
  let ?w = "with_sys ?s (debit (iid (vipc me)) ?c w1)" and ?r = "remove1 a (a_tbl me)" and ?a = "realloc_ate me q nn a"
  let ?v = "v\<lparr>a_tbl := ?a # ?r\<rparr>" and ?u = "v\<lparr>a_tbl := wiped me q nn a # ?r\<rparr>"
  have po: "grown_post me w a f (?a\<lparr>data := d\<rparr>) (v\<lparr>a_tbl := ?a\<lparr>data := d\<rparr> # ?r\<rparr>) ?w" if "grown_data me a nn d" for d
    by (rule grown_postI [OF h al w1(2,3,1) a st nn(2) that refl r sz refl]) (use q1 in simp_all)
  have pw: "grown_post me w a f (wiped me q nn a) ?u ?w" unfolding wiped_def by (rule po [OF grown_data_wiped])
  have pa: "grown_post me w a f ?a ?v ?w" if "has (opts me) VMM_RSDNT \<or> (\<forall>x\<in>set (flags a). x = 0)"
    using po [OF grown_data_zero [OF that, of nn q]] by simp
  have e: "0 < page_size me" "0 < n_pages a" using well_formed_entry [OF wf a] by simp_all
  have kp: "kept (page_size me) f a f ?a" using pw e(1) by (auto simp: grown_post_def intro: kept_wiped)
  have "SBMA_STATE_CHECK ?u ?w = Some ()" using pw by (auto simp: grown_post_def dest: company_self)
  then have ck: "SBMA_STATE_CHECK ?v ?w = Some ()" unfolding wiped_def state_check_data .
  have ev: "fstem v = fstem me" "vpid v = vpid me" "a_tbl v = a_tbl me" "opts v = opts me" "page_size v = page_size me"
    using al by (auto simp: alike_def)
  let ?vr = "v\<lparr>a_tbl := ?r\<rparr>" and ?wr = "with_sys ((sys w1)\<lparr>places := qs\<rparr>) (debit (iid (vipc me)) ?c w1)"
  have ra: "realloc_ate ?vr = realloc_ate me" by (rule realloc_ate_cong) (simp_all add: ev)
  have fn: "vmm_fname v = vmm_fname me" using ev by (simp add: vmm_fname_def fun_eq_iff)
  have wa: "wf_ate a" using st by (simp add: stored_def sound_def)
  have mg0: "mergeable ?vr a" using mg ev by (simp add: mergeable_def)
  have "realloc_moved ?vr ?wr (if has (opts ?vr) VMM_MERGE then set_prot 0 (n_pages a) PROT_RW a else a) nn q = Some (base ?a, ?v, ?w)"
    unfolding ra [symmetric]
    by (rule trans [OF realloc_moved_ok [OF wa e(2) nn(2) mg0 _ _ refl _ refl, of _ f]]) (use ck f q1 in \<open>simp_all add: ra fn ev\<close>)
  then have "realloc_grow me w a nn = Some (base ?a, ?v, ?w)"
    using ad q1 by (simp add: realloc_grow_def realloc_admit_eq os_mmap_def ev split: if_splits)
  moreover have "app_pages me len = nn" using app_pages_eq [OF len, of me] nn(1) by simp
  ultimately have "sbma_realloc me w (base a) len = Some (q + struct_pages me * page_size me, ?v, ?w)"
    using ok placed_lookup [OF wf a b] len nn(2) resize_region(1) [OF r] by (simp add: sbma_realloc_def)
  then show ?thesis using pw pa kp by (intro exI [of _ ?v] exI [of _ ?w]) simp
qed

subsection \<open>Growing fails\<close>

text \<open>The table with the entry \<open>a\<close> in front.\<close>

definition to_front :: "ate \<Rightarrow> vmm \<Rightarrow> vmm" where
  "to_front a v = v\<lparr>a_tbl := a # remove1 a (a_tbl v)\<rparr>"

lemma apart_front:
  assumes "apart ps tbl" and "a \<in> set tbl" and "distinct tbl"
  shows "apart ps (a # remove1 a tbl)"
  using assms
proof (induction tbl)
  case (Cons b tbl)
  then show ?case by (cases "a = b") (auto simp: list_all_iff dest: subsetD [OF set_remove1_subset])
qed simp

lemma proc_ok_front:
  assumes ok: "proc_ok v w" and a: "a \<in> set (a_tbl v)"
  shows "proc_ok (to_front a v) w"
proof -
  have wf: "well_formed v w" and ac: "accounted v w" using ok by (simp_all add: proc_ok_def)
  have d: "distinct (map addr (a_tbl v))" "distinct (map (vmm_fname v) (a_tbl v))" using wf by (simp_all add: well_formed_def)
  have wf0: "well_formed (remove_ate a v) w" by (rule well_formed_remove [OF wf a]) (use wf in \<open>simp_all add: well_formed_def\<close>)
  have s: "csum v (a # remove1 a (a_tbl v)) = csum v (a_tbl v)" "dsum (a # remove1 a (a_tbl v)) = dsum (a_tbl v)"
    "nsum v (a # remove1 a (a_tbl v)) = nsum v (a_tbl v)"
    using sums_remove [OF a] by (simp_all add: csum_def dsum_def nsum_def)
  have "well_formed ((remove_ate a v)\<lparr>a_tbl := a # a_tbl (remove_ate a v)\<rparr>) w"
  proof (rule well_formed_add [OF wf0])
    show "sized ((remove_ate a v)\<lparr>a_tbl := a # a_tbl (remove_ate a v)\<rparr>) w"
      using wf s(3) by (simp add: well_formed_def sized_def)
    show "apart (page_size (remove_ate a v)) (a # a_tbl (remove_ate a v))"
      using apart_front [OF _ a] wf d(1) by (simp add: well_formed_def distinct_map)
    show "addr a \<notin> addr ` set (a_tbl (remove_ate a v))" "vmm_fname (remove_ate a v) a \<notin> names (remove_ate a v)"
      using d a by (auto simp: names_def distinct_map set_remove1_eq dest: inj_onD)
  qed (use wf a in \<open>auto simp: well_formed_def list_all_iff\<close>)
  then have "well_formed (to_front a v) w" by (simp add: to_front_def remove_ate_def)
  then show ?thesis using ac s by (simp add: proc_ok_def accounted_def to_front_def)
qed

lemma company_front:
  assumes co: "company v w" and a: "a \<in> set (a_tbl v)"
  shows "company (to_front a v) w" and "since v w (to_front a v) w"
proof -
  have q: "quiet w" using co by (simp add: company_def)
  have "distinct (map addr (a_tbl v))" using company_self [OF co] by (simp add: proc_ok_def well_formed_def)
  then have set: "set (a # remove1 a (a_tbl v)) = set (a_tbl v)"
    using a by (auto simp: distinct_map set_remove1_eq)
  then have nm: "names (to_front a v) = names v" by (simp add: to_front_def names_def)
  have it: "intact v w (to_front a v) w" by (rule intact_subset) (use set in \<open>auto simp: to_front_def\<close>)
  show "company (to_front a v) w" and "since v w (to_front a v) w"
    by (rule company_step [OF co proc_ok_front [OF company_self [OF co] a] q _ _ _ _ nm _ it]; simp add: frame_def to_front_def)+
qed

lemma realloc_no_place:
  assumes co: "company me w" and m: "0 < inter_mtx w" and a: "a \<in> set (a_tbl me)"
    and b: "base a = addr a + struct_pages me * page_size me"
    and len: "0 < len" and nn: "nn = app_pages me len" "n_pages a < nn"
    and mg: "\<not> has (opts me) VMM_MERGE" and pl: "places (sys w) = []"
    and en: "VMM_TO_SYS me w (realloc_need me (n_pages a) nn) \<le> s_mem w + releasable (vipc me) w"
  shows "\<exists>v' w'. sbma_realloc me w (base a) len = Some (0, v', w') \<and> alike (to_front a me) v' \<and> held me w w' \<and> total w' = total w"
proof -
  let ?c = "VMM_TO_SYS me w (realloc_need me (n_pages a) nn)"
  obtain v w1 where ad: "admit me w ?c = Some (0, v, debit (iid (vipc me)) ?c w1)" and al: "alike me v"
    and h: "held me w w1" and w1: "?c \<le> s_mem w1" "total w1 = total w" "inter_mtx w1 = inter_mtx w"
    using admit_ok [OF co m en] by blast
  have ok: "proc_ok me w" by (rule company_self [OF co])
  then have wf: "well_formed me w" by (simp add: proc_ok_def)
  have q1: "faults (sys w1) = []" "places (sys w1) = []" and co1: "company me w1" and sc: "sc_page w1 = sc_page w"
    using h pl by (auto simp: held_def company_def quiet_def since_def)
  have e: "opts v = opts me" "page_size v = page_size me" "iid (vipc v) = iid (vipc me)" "a_tbl v = a_tbl me"
    using al by (auto simp: alike_def)
  have alf: "alike (to_front a me) (to_front a v)" using al by (simp add: alike_def to_front_def)
  have ok1: "proc_ok (to_front a v) w1"
    using company_self [OF company_front(1) [OF co1 a]] by (simp add: alike_proc(2) [OF alf])
  let ?w = "debit (iid (vipc me)) ?c w1"
  have vi: "vipc (to_front a v) = vipc v" "opts (to_front a v) = opts me" by (simp_all add: to_front_def e)
  have nd: "realloc_need (to_front a v) (n_pages a) nn = realloc_need me (n_pages a) nn"
    using e by (simp add: realloc_need_def realloc_charge_def flag_pages_def to_front_def)
  have ts: "VMM_TO_SYS (to_front a v) ?w = VMM_TO_SYS me w" using e sc by (simp add: VMM_TO_SYS_def fun_eq_iff to_front_def)
  have ev: "ipc_mevict (vipc v) ?c 0 ?w = Some (0, w1)"
    using undo_charge [OF ok1 w1(1)] m w1(3) e(3) vi by simp
  have cl: "realloc_cleanup (to_front a v) ?w (n_pages a) nn = Some (0, to_front a v, w1)"
  proof (cases "has (opts me) VMM_METACH \<or> has (opts me) VMM_RSDNT")
    case True
    then have "realloc_charge (to_front a v) (n_pages a) nn = realloc_need (to_front a v) (n_pages a) nn"
      by (simp add: realloc_need_def vi)
    then show ?thesis using True ev ok1 by (simp add: realloc_cleanup_def ts nd malloc_return_def vi)
  next
    case False
    then have "?c = 0" by (simp add: realloc_need_def)
    then show ?thesis using False ok1 by (simp add: realloc_cleanup_def malloc_return_def debit_def vi)
  qed
  have "(v\<lparr>a_tbl := remove1 a (a_tbl me)\<rparr>)\<lparr>a_tbl := a # remove1 a (a_tbl me)\<rparr> = to_front a v" by (simp add: to_front_def e)
  moreover have "with_sys (sys w1) ?w = ?w" by (simp add: with_sys_def debit_def)
  ultimately have "realloc_grow me w a nn = Some (0, to_front a v, w1)"
    using ad q1 mg cl
    by (simp add: realloc_grow_def realloc_admit_eq os_mmap_def realloc_cleanup2_def realloc_cleanup1_def e)
  then have "sbma_realloc me w (base a) len = Some (0, to_front a v, w1)"
    using ok placed_lookup [OF wf a b] len nn by (simp add: sbma_realloc_def)
  then show ?thesis using alf h w1 by blast
qed

subsection \<open>Shrinking\<close>

lemma shrink_count_eq:
  assumes "i + k \<le> length (flags a)"
    and "length (filter resident (span i k (flags a))) \<le> l_pages a"
    and "length (filter charged (span i k (flags a))) \<le> c_pages a"
    and "length (filter dirty (span i k (flags a))) \<le> d_pages a"
  shows "shrink_count k i a =
    Some (a\<lparr>l_pages := l_pages a - length (filter resident (span i k (flags a))),
            c_pages := c_pages a - length (filter charged (span i k (flags a))),
            d_pages := d_pages a - length (filter dirty (span i k (flags a)))\<rparr>)"
  using assms
proof (induction k arbitrary: i a)
  case 0
  then show ?case by (simp add: span_def)
next
  case (Suc k)
  let ?f = "flags a ! i"
  let ?a = "a\<lparr>l_pages := l_pages a - of_bool (resident ?f), c_pages := c_pages a - of_bool (charged ?f),
      d_pages := d_pages a - of_bool (dirty ?f)\<rparr>"
  have sp: "span i (Suc k) (flags a) = ?f # span (Suc i) k (flags a)"
    using Suc.prems(1) by (simp add: span_def Cons_nth_drop_Suc [symmetric])
  have "shrink_count (Suc k) i a = shrink_count k (Suc i) ?a"
    using Suc.prems by (auto simp: sp)
  also have "\<dots> = Some (?a\<lparr>l_pages := l_pages ?a - length (filter resident (span (Suc i) k (flags ?a))),
            c_pages := c_pages ?a - length (filter charged (span (Suc i) k (flags ?a))),
            d_pages := d_pages ?a - length (filter dirty (span (Suc i) k (flags ?a)))\<rparr>)"
    by (rule Suc.IH) (use Suc.prems in \<open>auto simp: sp split: if_splits\<close>)
  finally show ?case by (simp add: sp)
qed

lemma filter_span_le:
  assumes "i + k \<le> length xs"
  shows "length (filter P (span i k xs)) \<le> length (filter P xs)"
  using filter_span_split [OF assms, of P] by simp

text \<open>The entry after shrinking to \<open>nn\<close> pages when none of the status bytes can be read any more.\<close>

lemma realloc_shrink_eq:
  assumes ok: "proc_ok v w" and q: "quiet w" and m: "0 < inter_mtx w" and a: "a \<in> set (a_tbl v)"
    and nn: "nn < n_pages a" "nn + flag_pages v nn \<le> n_pages a" "flag_pages v (n_pages a) = flag_pages v nn"
    and ck: "\<not> has (opts v) VMM_CHECK"
  shows "\<exists>a' w'. realloc_shrink v w a nn = Some (base a, with_ate a' v, w') \<and> n_pages a' = nn \<and> base a' = base a \<and>
           addr a' = addr a \<and> flags a' = [] \<and>
           c_pages a' = c_pages a - length (filter charged (drop nn (flags a))) \<and> c_mem w' = c_mem w"
proof -
  have wf: "well_formed v w" and ac: "accounted v w" using ok by (simp_all add: proc_ok_def)
  note ca = well_formed_counts [OF wf a] and e = well_formed_entry [OF wf a]
  let ?k = "n_pages a - nn"
  have sp: "span nn ?k (flags a) = drop nn (flags a)" using ca(1) nn(1) by (simp add: span_def)
  have r: "nn + ?k \<le> length (flags a)" using ca(1) nn(1) by simp
  let ?a = "a\<lparr>n_pages := nn, l_pages := l_pages a - length (filter resident (drop nn (flags a))),
      c_pages := c_pages a - length (filter charged (drop nn (flags a))),
      d_pages := d_pages a - length (filter dirty (drop nn (flags a)))\<rparr>"
  have sc: "shrink_count ?k nn (a\<lparr>n_pages := nn\<rparr>) = Some ?a"
    using shrink_count_eq [of nn ?k "a\<lparr>n_pages := nn\<rparr>"] filter_span_le [OF r] r ca(2,4,6) by (simp add: sp)
  let ?b = "?a\<lparr>prots := take nn (prots a), flags := []\<rparr>"
  have fq: "faults (sys w) = []" using q by (simp add: quiet_def)
  have sub0: "subw x x = 0" for x by (simp add: subw_def)
  have "dsum (a_tbl v) = d_pages a + dsum (remove1 a (a_tbl v))" by (rule sums_remove(2) [OF a])
  then have "d_pages ?b \<le> dsum (a_tbl v)" by simp
  moreover have sz: "sized v w" using wf by (simp add: well_formed_def)
  ultimately have d: "VMM_TO_SYS v w (d_pages ?b) \<le> d_mem w ! iid (vipc v)"
    using ac well_formed_sums(2) [OF wf] by (simp add: accounted_def TO_SYS_exact [OF sz])
  have sh: "wf_shm (vipc v) w" using wf by (simp add: well_formed_def)
  obtain w' where mv: "ipc_mevict (vipc v) 0 (VMM_TO_SYS v w (d_pages ?b)) w = Some (0, w')" "c_mem w' = c_mem w"
    using ipc_mevict_eq [OF sh _ d m, of 0] by auto
  have ck': "SBMA_STATE_CHECK (with_ate ?b v) w' = Some ()"
    using ck by (simp add: SBMA_STATE_CHECK_def sbma_mcheck_def)
  have "realloc_shrink v w a nn = Some (base a, with_ate ?b v, w')"
    using sc fq nn mv(1) ck'
    by (simp add: realloc_shrink_def sub0 malloc_return_def addw_def)
  then show ?thesis using mv(2) by auto
qed

subsection \<open>A process with given options\<close>

definition opt_vmm :: "cint \<Rightarrow> vmm" where
  "opt_vmm o' = (demo_vmm 0 [])\<lparr>opts := o'\<rparr>"

lemma opt_simps [simp]: "opts (opt_vmm o') = o'" "page_size (opt_vmm o') = 2" "a_tbl (opt_vmm o') = []" "vipc (opt_vmm o') = proc_ipc 0"
  "struct_pages (opt_vmm o') = 32" "fstem (opt_vmm o') = ''s''" "vpid (opt_vmm o') = 100"
  by (simp_all add: opt_vmm_def struct_pages_def sizeof_ate_def addw_def subw_def SIZE_MOD_def)
     (simp_all add: demo_vmm_def)

definition simple_opts :: "cint \<Rightarrow> bool" where
  "simple_opts o' \<longleftrightarrow> \<not> has o' VMM_METACH \<and> \<not> has o' VMM_CHECK"

lemma used_opts [simp]:
  "simple_opts VMM_RSDNT" "has VMM_RSDNT VMM_RSDNT" "\<not> has VMM_RSDNT VMM_MERGE" "\<not> has VMM_RSDNT VMM_METACH" "\<not> has VMM_RSDNT VMM_CHECK"
  "simple_opts (VMM_LZYRD OR VMM_MERGE)" "\<not> has (VMM_LZYRD OR VMM_MERGE) VMM_RSDNT" "has (VMM_LZYRD OR VMM_MERGE) VMM_MERGE"
  "\<not> has (VMM_LZYRD OR VMM_MERGE) VMM_METACH"
  by (simp_all add: simple_opts_def has_def vmm_opt_code)

lemma res_flag_pages [simp]: "flag_pages v (Suc 0) = 1" "page_size v = 2 \<Longrightarrow> flag_pages v 2 = 1"
  by (simp_all add: flag_pages_def addw_def subw_def SIZE_MOD_def)

lemma opt_company [simp]: "company (opt_vmm o') demo_world"
proof -
  have "proc_ok (opt_vmm o') demo_world"
    by (simp add: proc_ok_def well_formed_def accounted_def sized_def csum_def nsum_def dsum_def SIZE_MOD_def)
  then have "\<exists>v. obliging (opt_vmm o') demo_world j v" if "j < 2" for j
    using that by (cases "j = 0") (auto simp: obliging_def proc_at_def less_2_cases_iff simp del: One_nat_def)
  then show ?thesis by (auto simp: company_def proc_at_def names_def)
qed

lemma res_sys: "sc_page w = 2 \<Longrightarrow> page_size v = 2 \<Longrightarrow> n < 100 \<Longrightarrow> VMM_TO_SYS v w n = n"
  by (simp add: VMM_TO_SYS_def mulw_def SIZE_MOD_def)

lemma opt_malloc:
  assumes n: "n = 1 \<or> n = 2" and o': "simple_opts o'"
  obtains v w where "malloc_post (opt_vmm o') roomy_world 1000 n v w"
proof -
  have "swap_name ''s'' 100 1000 \<noteq> swap_name ''s'' 101 64" by code_simp
  then have fr: "fresh_at (opt_vmm o') roomy_world 1000 n" using n by (auto simp: fresh_at_def SIZE_MOD_def)
  have sz: "sized ((opt_vmm o')\<lparr>a_tbl := malloc_ate (opt_vmm o') 1000 n # a_tbl (opt_vmm o')\<rparr>) roomy_world"
    using n o' by (auto simp: sized_def nsum_def meta_pages_def SIZE_MOD_def simple_opts_def)
  have co: "company (opt_vmm o') roomy_world" by simp
  have "total roomy_world = 3" by (simp add: with_places_def total_def)
  then have ob: "s_mem roomy_world + releasable (vipc (opt_vmm o')) roomy_world = 3"
    using obtainable [OF co] by (simp add: with_places_def)
  have "VMM_TO_SYS (opt_vmm o') roomy_world k = k" if "k \<le> 2" for k using that by (intro res_sys) auto
  then have en: "VMM_TO_SYS (opt_vmm o') roomy_world (malloc_need (opt_vmm o') n) \<le> s_mem roomy_world + releasable (vipc (opt_vmm o')) roomy_world"
    unfolding ob using n o' by (auto simp: malloc_need_def malloc_charge_def simple_opts_def)
  have ap: "n = app_pages (opt_vmm o') (2 * n)" using n by (auto simp: app_pages_def addw_def subw_def SIZE_MOD_def)
  show thesis
    using malloc_ok [OF co _ _ _ ap _ fr sz en] n that by (auto simp: SIZE_MOD_def)
qed

lemma opt_post:
  assumes m: "malloc_post (opt_vmm o') roomy_world 1000 n v w"
  shows "company v w" "0 < inter_mtx w" "a_tbl v = [malloc_ate (opt_vmm o') 1000 n]" "page_size v = 2" "opts v = o'"
    "struct_pages v = 32" "sc_page w = 2" "total w = 3" "iid (vipc v) = 0" "stored v w (malloc_ate (opt_vmm o') 1000 n) []"
    "flag_pages v = flag_pages (opt_vmm o')" "quiet w"
proof -
  have al: "alike ((opt_vmm o')\<lparr>a_tbl := malloc_ate (opt_vmm o') 1000 n # a_tbl (opt_vmm o')\<rparr>) v" using m by (simp add: malloc_post_def)
  show e: "a_tbl v = [malloc_ate (opt_vmm o') 1000 n]" "page_size v = 2" "opts v = o'" "iid (vipc v) = 0"
    using al by (simp_all add: alike_def)
  show "struct_pages v = 32" using e(2) opt_simps(5) by (simp add: struct_pages_def)
  show "flag_pages v = flag_pages (opt_vmm o')" using e(2) by (simp add: flag_pages_def fun_eq_iff)
  show co: "company v w" and "0 < inter_mtx w" "stored v w (malloc_ate (opt_vmm o') 1000 n) []" using m by (simp_all add: malloc_post_def)
  show "quiet w" using co by (simp add: company_def)
  show "sc_page w = 2" using m by (simp add: malloc_post_def since_def)
  have "total roomy_world = 3" by (simp add: with_places_def total_def)
  then show "total w = 3" using m by (simp add: malloc_post_def)
qed

abbreviation res_vmm :: vmm where
  "res_vmm \<equiv> opt_vmm VMM_RSDNT"

lemmas res_malloc = opt_malloc [OF _ used_opts(1)]

subsection \<open>Properties\<close>

text \<open>The bug of the loop of \<open>VMM_MERGE\<close>: a page that is resident and clean stays inaccessible, and the page behind it becomes
  readable.\<close>

lemma merge_clean_page:
  assumes "flags a ! 0 = 0" and "0 < length (flags a)" and "2 \<le> n_pages a" and "faults s = []"
  shows "merge_loop 1 0 0 (flags a ! 0) a s = Some (set_prot 1 1 PROT_READ a, s)"
  using assms by (simp add: merge_run_def)

text \<open>The old status bytes are left behind in the first new page.\<close>

lemma stale_status_bytes:
  "j < length (flags a) \<Longrightarrow> data (realloc_ate v q nn a) (n_pages a * page_size v + j) = flags a ! j"
  by (simp add: realloc_ate_def Let_def byte_at_def)

text \<open>C17: Growing an allocation, with or without \<open>VMM_RSDNT\<close>, \<open>VMM_METACH\<close> and \<open>VMM_MERGE\<close>.  When the memory for the new
  pages can be had and \<open>mremap\<close> finds a place (the old or a new one), \<open>sbma_realloc\<close> returns the application's address there.  The
  old pages keep every byte, resident or on disk, under the new name of the swap file.  Apart from stale bytes in memory behind the
  old pages, the state is a consistent one: with the new pages wiped (\<open>wiped\<close>), the status bytes, protections and counters of
  the entry agree, the charges are those of the new size, all processes are consistent and no other
  allocation loses a byte.  The stale bytes are the old status bytes, which the code leaves in the first new page; with
  \<open>VMM_RSDNT\<close>, where new pages may hold anything, or when all of them are zero, the state needs no wiping.  With \<open>VMM_MERGE\<close>
  the property is restricted to allocations of which every page is dirty or not resident (without
  \<open>VMM_RSDNT\<close>; with it every page is dirty): for resident clean pages the code protects the wrong pages (\<open>merge_clean_page\<close>).\<close>
theorem realloc_grow_correct:
  assumes "company me w" and "0 < inter_mtx w" and "a \<in> set (a_tbl me)"
    and "base a = addr a + struct_pages me * page_size me" and "stored me w a f"
    and "0 < len" and "len < SIZE_MOD" and "nn = Suc ((len - 1) div page_size me)" and "n_pages a < nn"
    and "mergeable me a" and "places (sys w) = q # qs" and "resize_at me w a q nn"
    and "sized (me\<lparr>a_tbl := realloc_ate me q nn a # remove1 a (a_tbl me)\<rparr>) w"
    and "VMM_TO_SYS me w (realloc_need me (n_pages a) nn) \<le> s_mem w + releasable (vipc me) w"
  shows "\<exists>v' w'. sbma_realloc me w (base a) len = Some (q + struct_pages me * page_size me, v', w') \<and>
           a_tbl v' = realloc_ate me q nn a # remove1 a (a_tbl me) \<and> kept (page_size me) f a f (realloc_ate me q nn a) \<and>
           grown_post me w a f (wiped me q nn a) (v'\<lparr>a_tbl := wiped me q nn a # remove1 a (a_tbl me)\<rparr>) w' \<and>
           (has (opts me) VMM_RSDNT \<or> (\<forall>x\<in>set (flags a). x = 0) \<longrightarrow> grown_post me w a f (realloc_ate me q nn a) v' w')"
  using assms by (rule realloc_grow_ok)

theorem realloc_grow_correct_witness:
  "\<exists>v (w :: world) (a :: ate) v' w'. opts v = VMM_LZYRD OR VMM_MERGE \<and> sbma_realloc v w (base a) 3 = Some (1064, v', w') \<and>
     kept 2 [] a [] (realloc_ate v 1000 2 a) \<and> a_tbl v' = [realloc_ate v 1000 2 a] \<and>
     grown_post v w a [] (wiped v 1000 2 a) (v'\<lparr>a_tbl := [wiped v 1000 2 a]\<rparr>) w'"
proof -
  obtain v w where m: "malloc_post (opt_vmm (VMM_LZYRD OR VMM_MERGE)) roomy_world 1000 1 v w"
    using opt_malloc [OF _ used_opts(6), of 1] by auto
  note p = opt_post [OF m]
  let ?a = "malloc_ate (opt_vmm (VMM_LZYRD OR VMM_MERGE)) 1000 1" and ?w = "with_places [1000] w"
  have co: "company v ?w" using p(1) by simp
  have w: "sc_page ?w = 2" "total ?w = 3" "0 < inter_mtx ?w" using p by (simp_all add: with_places_def total_def)
  have b: "base ?a = addr ?a + struct_pages v * page_size v"
    using p by (simp add: malloc_ate_def mulw_def addw_def SIZE_MOD_def)
  have r: "resize_at v ?w ?a 1000 2" using p by (simp add: resize_at_def SIZE_MOD_def)
  have sz: "sized (v\<lparr>a_tbl := realloc_ate v 1000 2 ?a # remove1 ?a (a_tbl v)\<rparr>) ?w"
    using p w used_opts(9) by (simp add: sized_def nsum_def meta_pages_def SIZE_MOD_def)
  have "realloc_need v (n_pages ?a) 2 = 0" using p(5) used_opts(7,9) by (simp add: realloc_need_def)
  then have en: "VMM_TO_SYS v ?w (realloc_need v (n_pages ?a) 2) \<le> s_mem ?w + releasable (vipc v) ?w"
    by (simp add: VMM_TO_SYS_def mulw_def)
  have st: "stored v ?w ?a []" using p(10) by (simp add: stored_def with_places_def)
  have mg: "mergeable v ?a" using p(5) used_opts(7) by (simp add: mergeable_def malloc_ate_def flag_ops)
  have rest: "?a \<in> set (a_tbl v)" "2 = Suc ((3 - 1) div page_size v)" "n_pages ?a < 2" "places (sys ?w) = [1000]" "remove1 ?a (a_tbl v) = []"
    using p by (simp_all add: with_places_def)
  obtain v' w' where "sbma_realloc v ?w (base ?a) 3 = Some (1000 + struct_pages v * page_size v, v', w')"
      "a_tbl v' = realloc_ate v 1000 2 ?a # remove1 ?a (a_tbl v)" "kept (page_size v) [] ?a [] (realloc_ate v 1000 2 ?a)"
      "grown_post v ?w ?a [] (wiped v 1000 2 ?a) (v'\<lparr>a_tbl := wiped v 1000 2 ?a # remove1 ?a (a_tbl v)\<rparr>) w'"
    using realloc_grow_correct [OF co w(3) rest(1) b st _ _ rest(2,3) mg rest(4) r sz en] by (auto simp: SIZE_MOD_def)
  then have "opts v = VMM_LZYRD OR VMM_MERGE \<and> sbma_realloc v ?w (base ?a) 3 = Some (1064, v', w') \<and>
     kept 2 [] ?a [] (realloc_ate v 1000 2 ?a) \<and> a_tbl v' = [realloc_ate v 1000 2 ?a] \<and>
     grown_post v ?w ?a [] (wiped v 1000 2 ?a) (v'\<lparr>a_tbl := [wiped v 1000 2 ?a]\<rparr>) w'"
    using p(4-6) by (simp add: rest(5) del: One_nat_def)
  then show ?thesis by (intro exI)
qed

text \<open>When \<open>mremap\<close> fails, growing returns the null pointer and the allocation stays as it
  was: it is in the table again (in front), its charges are the old ones, all processes are
  consistent, and nobody has lost a byte.\<close>
theorem realloc_fails_cleanly:
  assumes "company me w" and "0 < inter_mtx w" and "a \<in> set (a_tbl me)"
    and "base a = addr a + struct_pages me * page_size me"
    and "0 < len" and "nn = app_pages me len" and "n_pages a < nn"
    and "\<not> has (opts me) VMM_MERGE" and "places (sys w) = []"
    and "VMM_TO_SYS me w (realloc_need me (n_pages a) nn) \<le> s_mem w + releasable (vipc me) w"
  shows "\<exists>v' w'. sbma_realloc me w (base a) len = Some (0, v', w') \<and> alike (to_front a me) v' \<and>
           company v' w' \<and> since me w v' w' \<and> total w' = total w"
proof -
  obtain v' w' where m: "sbma_realloc me w (base a) len = Some (0, v', w')" and al: "alike (to_front a me) v'"
    and h: "held me w w'" and t: "total w' = total w"
    using realloc_no_place [OF assms] by blast
  have h': "company me w'" "since me w me w'" using h by (auto simp: held_def)
  note cf = company_front [OF h'(1) assms(3)]
  note ca = company_alike [OF cf(1) al]
  have vi: "vipc (to_front a me) = vipc me" by (simp add: to_front_def)
  have ex: "\<exists>v. proc_at me w' j = Some v" if "j < n_procs (vipc me)" for j
    using h'(1) that by (auto simp: company_def obliging_def)
  have "since me w (to_front a me) w'" by (rule since_trans [OF h'(2) cf(2)]) (use ex in simp_all)
  moreover have "\<exists>v. proc_at (to_front a me) w' j = Some v" if "j < n_procs (vipc me)" for j
    using ex [OF that] vi by (auto simp: proc_at_def split: if_splits)
  ultimately have "since me w v' w'" by (intro since_trans [OF _ ca(2)]) (use vi in simp_all)
  then show ?thesis using m al t ca(1) by blast
qed

theorem realloc_fails_cleanly_witness:
  "\<exists>v (w :: world) (a :: ate) v' w'. sbma_realloc v w (base a) 3 = Some (0, v', w') \<and> company v' w'"
proof -
  obtain v w where m: "malloc_post res_vmm roomy_world 1000 1 v w" using res_malloc [of 1] by auto
  note p = opt_post [OF m]
  let ?a = "malloc_ate res_vmm 1000 1" and ?w = "with_places [] w"
  have co: "company v ?w" using p(1) by simp
  have w: "sc_page ?w = 2" "total ?w = 3" "0 < inter_mtx ?w" "places (sys ?w) = []" using p by (simp_all add: with_places_def total_def)
  have b: "base ?a = addr ?a + struct_pages v * page_size v"
    using p by (simp add: malloc_ate_def mulw_def addw_def SIZE_MOD_def)
  have "proc_ok v ?w" by (rule company_self [OF co])
  then have "c_mem ?w ! iid (vipc v) = VMM_TO_SYS v ?w 1"
    using p(3,5) by (simp add: proc_ok_def accounted_def csum_def meta_pages_def)
  then have "s_mem ?w + releasable (vipc v) ?w = 2" using obtainable [OF co] res_sys [OF w(1) p(4), of 1] w(2) by simp
  moreover have "realloc_need v (n_pages ?a) 2 = 1"
    using p(5) by (simp add: realloc_need_def realloc_charge_def subw_def SIZE_MOD_def)
  ultimately have en: "VMM_TO_SYS v ?w (realloc_need v (n_pages ?a) 2) \<le> s_mem ?w + releasable (vipc v) ?w"
    using res_sys [OF w(1) p(4), of 1] by simp
  have "app_pages v 3 = 2" using p(4) by (simp add: app_pages_def addw_def subw_def SIZE_MOD_def)
  then have "\<exists>v' w'. sbma_realloc v ?w (base ?a) 3 = Some (0, v', w') \<and> alike (to_front ?a v) v' \<and>
           company v' w' \<and> since v ?w v' w' \<and> total w' = total ?w"
    by (intro realloc_fails_cleanly [OF co w(3) _ b _ _ _ _ w(4) en]) (use p in auto)
  then obtain v' w' where "sbma_realloc v ?w (base ?a) 3 = Some (0, v', w')" "company v' w'" by blast
  then show ?thesis by (intro exI conjI)
qed

text \<open>C22: Shrinking loses the status bytes.  \<open>sbma_realloc\<close> moves the status bytes towards the
  application's pages and unmaps the rest, but does not update \<open>ate->flags\<close>.  Whenever the
  cut is at least as long as the status bytes (always, for allocations whose status bytes fit
  one page), every later eviction inside the allocation dereferences an unmapped address; and
  the pages that were cut off stay on the process's account.\<close>
theorem realloc_shrink_dangles:
  assumes "proc_ok v w" and "quiet w" and "0 < inter_mtx w" and "a \<in> set (a_tbl v)"
    and "base a = addr a + struct_pages v * page_size v" and "0 < len" and "nn = app_pages v len" and "nn < n_pages a"
    and "nn + flag_pages v nn \<le> n_pages a" and "flag_pages v (n_pages a) = flag_pages v nn" and "\<not> has (opts v) VMM_CHECK"
  shows "\<exists>v' w' a'. sbma_realloc v w (base a) len = Some (base a, v', w') \<and> a' \<in> set (a_tbl v') \<and> same_place (a\<lparr>n_pages := nn\<rparr>) a' \<and>
           c_mem w' = c_mem w \<and> c_pages a' + length (filter charged (drop nn (flags a))) = c_pages a \<and>
           (\<forall>x y. in_range v' a' x y \<and> mmu_lookup (page_size v') (a_tbl v') x = Some a' \<longrightarrow> sbma_mevict v' w' x y = None)"
proof -
  have wf: "well_formed v w" using assms(1) by (simp add: proc_ok_def)
  note e = well_formed_entry [OF wf assms(4)] and ca = well_formed_counts [OF wf assms(4)]
  obtain a' w' where s: "realloc_shrink v w a nn = Some (base a, with_ate a' v, w')" "n_pages a' = nn" "base a' = base a"
    "addr a' = addr a" "flags a' = []" "c_pages a' = c_pages a - length (filter charged (drop nn (flags a)))" "c_mem w' = c_mem w"
    using realloc_shrink_eq [OF assms(1-4,8-11)] by blast
  have re: "sbma_realloc v w (base a) len = Some (base a, with_ate a' v, w')"
    using assms(1,6,8) placed_lookup [OF wf assms(4,5)] s(1) by (simp add: sbma_realloc_def flip: assms(7))
  have "length (filter charged (drop nn (flags a))) \<le> c_pages a"
    using filter_span_le [of nn "n_pages a - nn" "flags a" charged] ca(1,2) assms(8) by (simp add: span_def)
  then have c: "c_pages a' + length (filter charged (drop nn (flags a))) = c_pages a" using s(6) by simp
  have "nn * page_size v \<le> n_pages a * page_size v" using assms(8) by simp
  then have rg: "region_end (page_size v) a' < SIZE_MOD"
    using e(4) unfolding region_end_def s(2,3) by linarith
  have "sbma_mevict (with_ate a' v) w' x y = None"
    if x: "in_range (with_ate a' v) a' x y" "mmu_lookup (page_size (with_ate a' v)) (a_tbl (with_ate a' v)) x = Some a'" for x y
  proof -
    note r = range_pages [of "with_ate a' v" a' x y, OF x(1)]
    have "SBMA_STATE_CHECK (with_ate a' v) w' = Some ()"
      using assms(11) by (simp add: SBMA_STATE_CHECK_def sbma_mcheck_def)
    moreover have "flag_span a' (beg_page (with_ate a' v) a' x) (end_page (with_ate a' v) a' x y) = None"
      using r(3) rg e(5) s(5) by (simp add: flag_span_def)
    ultimately show ?thesis using x(2) by (simp add: sbma_mevict_def sbma_mevict_probe_def)
  qed
  moreover have "a' \<in> set (a_tbl (with_ate a' v))" using mem_put [OF assms(4) s(4)] by simp
  ultimately show ?thesis using re s c unfolding same_place_def
    by (intro exI [of _ "with_ate a' v"] exI [of _ w'] exI [of _ a']) simp
qed

theorem realloc_shrink_dangles_witness:
  "\<exists>v (w :: world) (a :: ate) v' w' (a' :: ate). sbma_realloc v w (base a) 2 = Some (base a, v', w') \<and> c_pages a' + 1 = c_pages a"
proof -
  obtain v w where m: "malloc_post res_vmm roomy_world 1000 2 v w" using res_malloc [of 2] by auto
  note p = opt_post [OF m]
  let ?a = "malloc_ate res_vmm 1000 2"
  have b: "base ?a = addr ?a + struct_pages v * page_size v"
    using p by (simp add: malloc_ate_def mulw_def addw_def SIZE_MOD_def)
  have ap: "1 = app_pages v 2" using p(4) by (simp add: app_pages_def addw_def subw_def SIZE_MOD_def)
  have fp: "flag_pages v 1 = 1" "flag_pages v 2 = 1" using p(4) by auto
  have ok: "proc_ok v w" by (rule company_self [OF p(1)])
  have mem: "?a \<in> set (a_tbl v)" using p(3) by simp
  have "length (filter charged (drop 1 (flags ?a))) = 1" by (simp add: malloc_ate_def zero_flag)
  then obtain v' w' and a' :: ate where "sbma_realloc v w (base ?a) 2 = Some (base ?a, v', w')" "c_pages a' + 1 = c_pages ?a"
    using realloc_shrink_dangles [OF ok p(12,2) mem b _ ap] p(3,5) fp by auto
  then show ?thesis by (intro exI conjI)
qed

end
