(* ===== verification/Remap.thy ===== *)
theory Remap
  imports Clear Realloc
begin

text \<open>
  Moving the contents of one allocation to another, larger one (\<open>src/api/remap.c\<close>), without
  copying: the swap file of the old allocation becomes that of the new one.
\<close>

subsection \<open>Operation\<close>

fun remap_loop :: "nat \<Rightarrow> nat \<Rightarrow> ate \<Rightarrow> ate \<Rightarrow> ate option" where
  "remap_loop 0 i oa na = Some na"
| "remap_loop (Suc k) i oa na = do {
     f \<leftarrow> flag_at oa i;
     g \<leftarrow> flag_at na i;
     ASSERT (\<not> dirty f);
     ASSERT (\<not> dirty g);
     ASSERT (\<not> on_disk g);
     remap_loop k (Suc i) oa (set_flag na i (g OR (f AND MMU_ZFILL)))
   }"

text \<open>The results of the calls are assigned to an \<open>int\<close>.\<close>

definition sbma_remap ::
  "vmm \<Rightarrow> 'a world_scheme \<Rightarrow> nat \<Rightarrow> nat \<Rightarrow> nat \<Rightarrow> (int \<times> vmm \<times> 'a world_scheme) option" where
  "sbma_remap v w nbase obase len =
     (if len = 0 then Some (-1, v, w)
      else do {
        po \<leftarrow> Some (subw obase (mulw (struct_pages v) (page_size v)));
        pn \<leftarrow> Some (subw nbase (mulw (struct_pages v) (page_size v)));
        oa \<leftarrow> ate_at v po;
        na \<leftarrow> ate_at v pn;
        ASSERT (obase = base oa);
        ASSERT (nbase = base na);
        ASSERT (n_pages oa \<le> n_pages na);
        (ret, v, w) \<leftarrow> sbma_mevict v w (base oa) (mulw (n_pages oa) (page_size v));
        if int_of ret = -1 then Some (-1, v, w)
        else do {
          (ret, v, w) \<leftarrow> sbma_mclear v w (base na) (mulw (n_pages na) (page_size v));
          if int_of ret = -1 then Some (-1, v, w)
          else do {
            (ret, v, w) \<leftarrow> sbma_mevict v w (base na) (mulw (n_pages na) (page_size v));
            if int_of ret = -1 then Some (-1, v, w)
            else do {
              oa \<leftarrow> ate_at v po;
              na \<leftarrow> ate_at v pn;
              na \<leftarrow> remap_loop (n_pages oa) 0 oa na;
              v \<leftarrow> Some (with_ate na v);
              (ok, s) \<leftarrow> Some (os_rename (vmm_fname v oa) (vmm_fname v na) (sys w));
              Some (if ok then 0 else -1, v, with_sys s w)
            }
          }
        }
      })"

subsection \<open>Taking over the status bits\<close>

lemma remap_loop_eq:
  assumes "i + k \<le> length (flags oa)" and "i + k \<le> length (flags na)"
    and "\<And>j. i \<le> j \<Longrightarrow> j < i + k \<Longrightarrow> \<not> dirty (flags oa ! j) \<and> \<not> dirty (flags na ! j) \<and> \<not> on_disk (flags na ! j)"
  shows "\<exists>fl. remap_loop k i oa na = Some (na\<lparr>flags := fl\<rparr>) \<and> length fl = length (flags na) \<and>
    (\<forall>j < length fl. fl ! j = (if i \<le> j \<and> j < i + k then flags na ! j OR (flags oa ! j AND MMU_ZFILL) else flags na ! j))"
  using assms
proof (induction k arbitrary: i na)
  case 0
  then show ?case by (intro exI [of _ "flags na"]) auto
next
  case (Suc k)
  let ?na = "set_flag na i (flags na ! i OR (flags oa ! i AND MMU_ZFILL))"
  have fl: "flags ?na = (flags na)[i := flags na ! i OR (flags oa ! i AND MMU_ZFILL)]" by (simp add: set_flag_def)
  have "\<exists>fl. remap_loop k (Suc i) oa ?na = Some (?na\<lparr>flags := fl\<rparr>) \<and> length fl = length (flags ?na) \<and>
      (\<forall>j < length fl. fl ! j = (if Suc i \<le> j \<and> j < Suc i + k then flags ?na ! j OR (flags oa ! j AND MMU_ZFILL) else flags ?na ! j))"
    by (rule Suc.IH) (use Suc.prems in \<open>auto simp: fl\<close>)
  then obtain f where f: "remap_loop k (Suc i) oa ?na = Some (?na\<lparr>flags := f\<rparr>)" "length f = length (flags ?na)"
    "\<forall>j < length f. f ! j = (if Suc i \<le> j \<and> j < Suc i + k then flags ?na ! j OR (flags oa ! j AND MMU_ZFILL) else flags ?na ! j)"
    by blast
  have "remap_loop (Suc k) i oa na = Some (na\<lparr>flags := f\<rparr>)"
    using Suc.prems(1,2) Suc.prems(3) [of i] f(1) by (simp add: set_flag_def)
  moreover have "\<forall>j < length f. f ! j = (if i \<le> j \<and> j < i + Suc k then flags na ! j OR (flags oa ! j AND MMU_ZFILL) else flags na ! j)"
    using f(2,3) by (auto simp: fl nth_list_update Suc_le_eq le_less)
  ultimately show ?case using f(2) by (auto simp: fl)
qed

text \<open>The new entry \<open>na\<close>, evicted and cleared, with the status bits of the old one and its file.\<close>

lemma remapped_sound:
  assumes so: "sound ps f oa" and sn: "sound ps g na" and le: "n_pages oa \<le> n_pages na"
    and out: "\<And>j. j < n_pages oa \<Longrightarrow> \<not> resident (flags oa ! j)" "\<And>j. j < n_pages na \<Longrightarrow> \<not> resident (flags na ! j)"
    and nd: "\<And>j. j < n_pages na \<Longrightarrow> \<not> on_disk (flags na ! j)"
    and fl: "length fl = n_pages na"
      "\<And>j. j < n_pages na \<Longrightarrow> fl ! j = (if j < n_pages oa then flags na ! j OR (flags oa ! j AND MMU_ZFILL) else flags na ! j)"
  shows "sound ps f (na\<lparr>flags := fl\<rparr>)" and "lean na \<Longrightarrow> lean (na\<lparr>flags := fl\<rparr>)"
    and "i div ps < n_pages oa \<Longrightarrow> holds ps f oa i b \<Longrightarrow> holds ps f (na\<lparr>flags := fl\<rparr>) i b"
proof -
  note co = sound_counts [OF so] and cn = sound_counts [OF sn]
  have bits: "resident (fl ! j) = resident (flags na ! j)" "charged (fl ! j) = charged (flags na ! j)"
    "dirty (fl ! j) = dirty (flags na ! j)" "on_disk (fl ! j) \<longleftrightarrow> j < n_pages oa \<and> on_disk (flags oa ! j)" if "j < n_pages na" for j
    using that fl(2) [OF that] nd [OF that] by (auto simp: flag_ops)
  have same: "map P fl = map P (flags na)" if "\<And>j. j < n_pages na \<Longrightarrow> P (fl ! j) = P (flags na ! j)" for P :: "byte \<Rightarrow> 'b"
    using that fl(1) cn(1) by (intro nth_equalityI) auto
  have cnt: "length (filter P fl) = length (filter P (flags na))" if "map P fl = map P (flags na)" for P
  proof -
    have "length (filter P ys) = length (filter id (map P ys))" for ys by (simp add: filter_map o_def)
    then show ?thesis using that by metis
  qed
  have "wf_ate na" using sn by (simp add: sound_def)
  then have "prots na = map prot_of (flags na)" "pages_ok na" by (simp_all add: wf_ate_def prots_ok_def)
  moreover have "map prot_of fl = map prot_of (flags na)" by (rule same) (simp add: prot_of_def bits)
  moreover have "page_ok (fl ! j)" if "j < n_pages na" for j
    using \<open>pages_ok na\<close> that cn(1) bits [OF that] by (simp add: pages_ok_def list_all_length page_ok_def)
  ultimately have "wf_ate (na\<lparr>flags := fl\<rparr>)"
    using cn fl(1) cnt [OF same, of resident] cnt [OF same, of charged] cnt [OF same, of dirty] bits
    by (simp add: wf_ate_def counts_ok_def prots_ok_def pages_ok_def list_all_length)
  moreover have "filed ps f (na\<lparr>flags := fl\<rparr>)" using so fl(1) bits(4) co(1) by (auto simp: sound_def filed_def)
  moreover have "zeroed ps (na\<lparr>flags := fl\<rparr>)" using sn fl(1) bits(1) cn(1) by (auto simp: sound_def zeroed_def)
  ultimately show "sound ps f (na\<lparr>flags := fl\<rparr>)" by (simp add: sound_def)
  show "lean (na\<lparr>flags := fl\<rparr>)" if "lean na" using that cn(1) fl(1) bits by (simp add: lean_def list_all_length)
  show "holds ps f (na\<lparr>flags := fl\<rparr>) i b" if i: "i div ps < n_pages oa" "holds ps f oa i b"
    using i out(1) [OF i(1)] out(2) [of "i div ps"] bits [of "i div ps"] le
    by (simp add: holds_def disk_byte_def Let_def)
qed

subsection \<open>Moving the contents\<close>

text \<open>Evicting an allocation as a whole.\<close>

lemma mevict_whole:
  assumes ok: "proc_ok v w" and q: "quiet w" and m: "0 < inter_mtx w" and a: "a \<in> set (a_tbl v)" and st: "stored v w a f"
  shows "\<exists>c v' w' a' f'. sbma_mevict v w (base a) (mulw (n_pages a) (page_size v)) = Some (int c, v', w') \<and> int_of (int c) \<noteq> -1 \<and>
     proc_ok v' w' \<and> quiet w' \<and> inter_mtx w' = inter_mtx w \<and> alike (with_ate a' v) v' \<and> same_place a a' \<and> stored v' w' a' f' \<and>
     kept (page_size v) f a f' a' \<and> (\<forall>p < n_pages a. \<not> resident (flags a' ! p)) \<and>
     (\<forall>p < n_pages a. on_disk (flags a' ! p) \<longrightarrow> on_disk (flags a ! p) \<or> dirty (flags a ! p)) \<and>
     (\<forall>g. g \<noteq> vmm_fname v a \<longrightarrow> files (sys w') g = files (sys w) g)"
proof -
  have wf: "well_formed v w" using ok by (simp add: proc_ok_def)
  note e = well_formed_entry [OF wf a]
  note r = whole_range [OF e(1,5,4)]
  have "contains (page_size v) a (base a)" using e(1,5) by (simp add: contains_iff [OF e(4)] region_end_def)
  then have l: "mmu_lookup (page_size v) (a_tbl v) (base a) = Some a"
    using wf a by (intro mmu_lookup_unique) (auto simp: well_formed_def)
  let ?c = "VMM_TO_SYS v w (length (filter charged (span 0 (n_pages a) (flags a))))"
  obtain v' w' where ev: "sbma_mevict v w (base a) (mulw (n_pages a) (page_size v)) = Some (int ?c, v', w')"
    and po: "evict_post v w a f 0 (n_pages a) v' w'"
    using mevict_ok [OF ok q m l st r(1)] unfolding r(2,3) by auto
  have "length (filter charged (span 0 (n_pages a) (flags a))) \<le> n_pages a"
    by (rule le_trans [OF length_filter_le]) (simp add: span_def)
  then have "?c < 2147483647" using e(8) by (intro sys_bound(1) [OF wf]) linarith
  then have "int_of (int ?c) \<noteq> -1" by (rule int_of_exact)
  moreover obtain a' f' where "alike (with_ate a' v) v'" "same_place a a'" "stored v' w' a' f'" "kept (page_size v) f a f' a'"
    "\<forall>p. 0 \<le> p \<and> p < 0 + n_pages a \<longrightarrow> \<not> resident (flags a' ! p)"
    "\<forall>p. p < n_pages a \<longrightarrow> on_disk (flags a' ! p) \<longrightarrow> on_disk (flags a ! p) \<or> dirty (flags a ! p)"
    using po unfolding evict_post_def by blast
  moreover have "proc_ok v' w'" "quiet w'" "inter_mtx w' = inter_mtx w"
    "\<forall>g. g \<noteq> vmm_fname v a \<longrightarrow> files (sys w') g = files (sys w) g"
    using po unfolding evict_post_def frame_def by blast+
  ultimately show ?thesis using ev by (intro exI [of _ ?c] exI [of _ v'] exI [of _ w'] exI [of _ a'] exI [of _ f']) simp
qed

lemma put_mem:
  assumes al: "alike (with_ate a' v) v'" and a: "a \<in> set (a_tbl v)" and ad: "addr a' = addr a"
  shows "a' \<in> set (a_tbl v')" and "b \<in> set (a_tbl v) \<Longrightarrow> addr b \<noteq> addr a \<Longrightarrow> b \<in> set (a_tbl v')"
proof -
  have t: "a_tbl v' = put_ate a' (a_tbl v)" using al by (simp add: alike_def with_ate_def)
  show "a' \<in> set (a_tbl v')" unfolding t by (rule mem_put [OF a ad])
  show "b \<in> set (a_tbl v')" if "b \<in> set (a_tbl v)" "addr b \<noteq> addr a" using that ad by (force simp: t put_ate_def)
qed

lemma stored_alike:
  assumes "fstem v' = fstem v" "vpid v' = vpid v" "page_size v' = page_size v"
    and "files (sys w') (vmm_fname v b) = files (sys w) (vmm_fname v b)"
  shows "stored v' w' b = stored v w b"
  using assms by (simp add: stored_def vmm_fname_def fun_eq_iff)

text \<open>The result of a successful move.\<close>

definition remap_post :: "vmm \<Rightarrow> ate \<Rightarrow> byte list \<Rightarrow> ate \<Rightarrow> vmm \<Rightarrow> 'a world_scheme \<Rightarrow> bool" where
  "remap_post v oa f na v' w' \<longleftrightarrow> (\<exists>na' f'. na' \<in> set (a_tbl v') \<and> same_place na na' \<and> stored v' w' na' f' \<and> lean na' \<and>
     (\<forall>i b. i div page_size v < n_pages oa \<longrightarrow> holds (page_size v) f oa i b \<longrightarrow> holds (page_size v) f' na' i b)) \<and>
   files (sys w') (vmm_fname v oa) = None"

lemma sound_parts:
  assumes "sound ps f a"
  shows "j < n_pages a \<Longrightarrow> \<not> resident (flags a ! j) \<Longrightarrow> \<not> dirty (flags a ! j)"
  using assms sound_counts(1) [OF assms] by (auto simp: sound_def wf_ate_def pages_ok_def list_all_length page_ok_def)

lemma fname_differ:
  assumes wf: "well_formed v w" and "a \<in> set (a_tbl v)" "b \<in> set (a_tbl v)" and "addr a \<noteq> addr b"
  shows "vmm_fname v a \<noteq> vmm_fname v b"
proof -
  have "inj_on (vmm_fname v) (set (a_tbl v))" using wf by (simp add: well_formed_def distinct_map)
  then show ?thesis using assms by (metis inj_on_def)
qed

text \<open>The last part, after both allocations have been evicted and the new one cleared.\<close>

lemma remap_finish:
  assumes ok: "proc_ok v w" and q: "quiet w" and o: "oa \<in> set (a_tbl v)" and n: "na \<in> set (a_tbl v)" and ne: "addr oa \<noteq> addr na"
    and so: "stored v w oa f" and le: "n_pages oa \<le> n_pages na"
    and out: "\<And>j. j < n_pages oa \<Longrightarrow> \<not> resident (flags oa ! j)" "\<And>j. j < n_pages na \<Longrightarrow> \<not> resident (flags na ! j)"
    and nd: "\<And>j. j < n_pages na \<Longrightarrow> \<not> on_disk (flags na ! j)"
  shows "\<exists>na' s. remap_loop (n_pages oa) 0 oa na = Some na' \<and>
     os_rename (vmm_fname v oa) (vmm_fname v na') (sys w) = (True, s) \<and>
     remap_post v oa f na (with_ate na' v) (with_sys s w)"
proof -
  have wf: "well_formed v w" using ok by (simp add: proc_ok_def)
  obtain g where g: "stored v w na g" using well_formed_entry(3) [OF wf n] by blast
  have sd: "sound (page_size v) f oa" "sound (page_size v) g na" using so g by (simp_all add: stored_def)
  note co = sound_counts(1) [OF sd(1)] and cn = sound_counts(1) [OF sd(2)]
  have "\<exists>fl. remap_loop (n_pages oa) 0 oa na = Some (na\<lparr>flags := fl\<rparr>) \<and> length fl = length (flags na) \<and>
    (\<forall>j < length fl. fl ! j = (if 0 \<le> j \<and> j < 0 + n_pages oa then flags na ! j OR (flags oa ! j AND MMU_ZFILL) else flags na ! j))"
    by (rule remap_loop_eq) (use co cn le out nd sound_parts [OF sd(1)] sound_parts [OF sd(2)] in auto)
  then obtain fl where fl: "remap_loop (n_pages oa) 0 oa na = Some (na\<lparr>flags := fl\<rparr>)" "length fl = n_pages na"
    "\<And>j. j < n_pages na \<Longrightarrow> fl ! j = (if j < n_pages oa then flags na ! j OR (flags oa ! j AND MMU_ZFILL) else flags na ! j)"
    using cn by auto
  let ?na = "na\<lparr>flags := fl\<rparr>"
  note rs = remapped_sound [OF sd le out nd fl(2,3)]
  note fn = fname_differ [OF wf o n ne]
  let ?s = "(sys w)\<lparr>files := (files (sys w))(vmm_fname v oa := None, vmm_fname v na \<mapsto> f)\<rparr>"
  have na: "vmm_fname v ?na = vmm_fname v na" by (simp add: vmm_fname_def)
  have ren: "os_rename (vmm_fname v oa) (vmm_fname v ?na) (sys w) = (True, ?s)"
    using so q by (simp add: os_rename_def quiet_def stored_def na)
  have "?na \<in> set (a_tbl (with_ate ?na v))" using mem_put [OF n, of ?na] by simp
  moreover have "stored (with_ate ?na v) (with_sys ?s w) ?na f" using rs(1) by (simp add: stored_def na)
  moreover have "lean ?na" using rs(2) well_formed_entry(2) [OF wf n] by blast
  moreover have "same_place na ?na" "files (sys (with_sys ?s w)) (vmm_fname v oa) = None" using fn by (simp_all add: same_place_def)
  ultimately have "remap_post v oa f na (with_ate ?na v) (with_sys ?s w)"
    using rs(3) unfolding remap_post_def by blast
  with fl(1) ren show ?thesis by blast
qed

lemma remap_ok:
  assumes ok: "proc_ok v w" and q: "quiet w" and m: "0 < inter_mtx w" and o: "oa \<in> set (a_tbl v)" and n: "na \<in> set (a_tbl v)"
    and ne: "addr oa \<noteq> addr na" and bo: "base oa = addr oa + struct_pages v * page_size v"
    and bn: "base na = addr na + struct_pages v * page_size v" and le: "n_pages oa \<le> n_pages na"
    and so: "stored v w oa f" and len: "0 < len"
  shows "\<exists>v' w'. sbma_remap v w (base na) (base oa) len = Some (0, v', w') \<and> remap_post v oa f na v' w'"
proof -
  have wf: "well_formed v w" using ok by (simp add: proc_ok_def)
  note po = placed_lookup [OF wf o bo] and pn = placed_lookup [OF wf n bn]
  obtain c1 v1 w1 oa1 f1 where s1: "sbma_mevict v w (base oa) (mulw (n_pages oa) (page_size v)) = Some (int c1, v1, w1)" "int_of (int c1) \<noteq> -1"
    and p1: "proc_ok v1 w1" "quiet w1" "inter_mtx w1 = inter_mtx w" "alike (with_ate oa1 v) v1" "same_place oa oa1" "stored v1 w1 oa1 f1"
      "kept (page_size v) f oa f1 oa1" "\<forall>p < n_pages oa. \<not> resident (flags oa1 ! p)"
    using mevict_whole [OF ok q m o so] by blast
  have e1: "page_size v1 = page_size v" "vmm_fname v1 = vmm_fname v" "fstem v1 = fstem v" "vpid v1 = vpid v"
    using p1(4) by (auto simp: alike_def vmm_fname_def with_ate_def fun_eq_iff)
  have a1: "addr oa1 = addr oa" "n_pages oa1 = n_pages oa" "base oa1 = base oa" using p1(5) by (auto simp: same_place_def)
  note m1 = put_mem [OF p1(4) o a1(1)]
  have n1: "na \<in> set (a_tbl v1)" using m1(2) [OF n] ne by simp
  have wf1: "well_formed v1 w1" using p1(1) by (simp add: proc_ok_def)
  note en = well_formed_entry [OF wf1 n1]
  obtain g where g: "stored v1 w1 na g" using en(3) by blast
  note wr = whole_range [OF en(1,5,4)] and wi = whole_inner [OF en(5,4)]
  have "contains (page_size v1) na (base na)" using en(1,5) by (simp add: contains_iff [OF en(4)] region_end_def)
  then have ln: "mmu_lookup (page_size v1) (a_tbl v1) (base na) = Some na"
    using wf1 n1 by (intro mmu_lookup_unique) (auto simp: well_formed_def)
  obtain v2 w2 where s2: "sbma_mclear v1 w1 (base na) (mulw (n_pages na) (page_size v1)) = Some (0, v2, w2)"
    and cp: "clear_post v1 w1 na g 0 (n_pages na) v2 w2"
    using mclear_ok [OF p1(1,2) _ ln g wr(1)] m p1(3) unfolding wi by auto
  obtain na2 where p2: "proc_ok v2 w2" "quiet w2" "inter_mtx w2 = inter_mtx w1" "files (sys w2) = files (sys w1)"
    "v2 = with_ate na2 v1" "same_place na na2" "stored v2 w2 na2 g" "flags na2 = map_range 0 (n_pages na - 0) clear_flag (flags na)"
    using cp unfolding clear_post_def frame_def by blast
  have e2: "page_size v2 = page_size v" "vmm_fname v2 = vmm_fname v" "fstem v2 = fstem v" "vpid v2 = vpid v"
    using p2(5) e1 by (simp_all add: with_ate_def)
  have a2: "addr na2 = addr na" "n_pages na2 = n_pages na" "base na2 = base na" using p2(6) by (auto simp: same_place_def)
  have al2: "alike (with_ate na2 v1) v2" using p2(5) by (simp add: alike_def)
  note m2 = put_mem [OF al2 n1 a2(1)]
  have o2: "oa1 \<in> set (a_tbl v2)" using m2(2) [OF m1(1)] a1(1) ne by simp
  have so2: "stored v2 w2 oa1 f1" using p1(6) stored_alike [of v2 v1 w2 oa1 w1] e1 e2 p2(4) by simp
  obtain c3 v3 w3 na3 g3 where s3: "sbma_mevict v2 w2 (base na2) (mulw (n_pages na2) (page_size v2)) = Some (int c3, v3, w3)" "int_of (int c3) \<noteq> -1"
    and p3: "proc_ok v3 w3" "quiet w3" "alike (with_ate na3 v2) v3" "same_place na2 na3"
      "\<forall>p < n_pages na2. \<not> resident (flags na3 ! p)"
      "\<forall>p < n_pages na2. on_disk (flags na3 ! p) \<longrightarrow> on_disk (flags na2 ! p) \<or> dirty (flags na2 ! p)"
      "\<forall>g. g \<noteq> vmm_fname v2 na2 \<longrightarrow> files (sys w3) g = files (sys w2) g"
    using mevict_whole [OF p2(1,2) _ m2(1) p2(7)] m p1(3) p2(3) by auto
  have e3: "page_size v3 = page_size v" "vmm_fname v3 = vmm_fname v" "fstem v3 = fstem v" "vpid v3 = vpid v"
    using p3(3) e2 by (auto simp: alike_def vmm_fname_def with_ate_def fun_eq_iff)
  have a3: "addr na3 = addr na" "n_pages na3 = n_pages na" "base na3 = base na" using p3(4) a2 by (auto simp: same_place_def)
  note m3 = put_mem [OF p3(3) m2(1)]
  have n3: "na3 \<in> set (a_tbl v3)" using m3(1) a3(1) a2(1) by simp
  have o3: "oa1 \<in> set (a_tbl v3)" using m3(2) [OF _ o2] a3(1) a2(1) a1(1) ne by simp
  have "vmm_fname v2 oa1 \<noteq> vmm_fname v2 na2"
    using p2(1) a1(1) a2(1) ne by (intro fname_differ [OF _ o2 m2(1)]) (auto simp: proc_ok_def)
  then have so3: "stored v3 w3 oa1 f1"
    using so2 stored_alike [of v3 v2 w3 oa1 w2] e2 e3 p3(7) by simp
  have wf3: "well_formed v3 w3" using p3(1) by (simp add: proc_ok_def)
  have d3: "distinct (map addr (a_tbl v3))" using wf3 by (simp add: well_formed_def)
  have at3: "ate_at v3 (addr oa) = Some oa1" "ate_at v3 (addr na) = Some na3"
    using ate_at_mem [OF d3 o3] ate_at_mem [OF d3 n3] a1(1) a3(1) by simp_all
  have lf: "length (flags na) = n_pages na" by (rule well_formed_counts(1) [OF wf1 n1])
  have nd: "\<not> on_disk (flags na3 ! j)" if "j < n_pages na3" for j
    using p3(6) that a2 a3 lf p2(8) by auto
  have "\<exists>na' s. remap_loop (n_pages oa1) 0 oa1 na3 = Some na' \<and>
      os_rename (vmm_fname v3 oa1) (vmm_fname v3 na') (sys w3) = (True, s) \<and>
      remap_post v3 oa1 f1 na3 (with_ate na' v3) (with_sys s w3)"
    by (rule remap_finish [OF p3(1,2) o3 n3 _ so3]) (use a1 a2 a3 ne le p1(8) p3(5) nd in auto)
  then obtain na4 s4 where fin: "remap_loop (n_pages oa1) 0 oa1 na3 = Some na4"
    "os_rename (vmm_fname v3 oa1) (vmm_fname v3 na4) (sys w3) = (True, s4)" "remap_post v3 oa1 f1 na3 (with_ate na4 v3) (with_sys s4 w3)"
    by blast
  have sp: "subw (base oa) (mulw (struct_pages v) (page_size v)) = addr oa" "subw (base na) (mulw (struct_pages v) (page_size v)) = addr na"
    using bo bn well_formed_entry(4) [OF wf o] well_formed_entry(4) [OF wf n] by (simp_all add: region_end_def mulw_exact subw_exact)
  have at: "ate_at v (addr oa) = Some oa" "ate_at v (addr na) = Some na" using po pn unfolding sp by auto
  have i0: "int_of 0 \<noteq> -1" by (simp add: int_of_def)
  note s3' = s3(1) [unfolded a2]
  have "sbma_remap v w (base na) (base oa) len = Some (0, with_ate na4 v3, with_sys s4 w3)"
    using len le i0 by (simp add: sbma_remap_def sp at s1 s2 s3' s3(2) at3 fin(1,2))
  moreover have "remap_post v oa f na (with_ate na4 v3) (with_sys s4 w3)"
  proof -
    have "vmm_fname v oa1 = vmm_fname v oa" using a1(1) by (simp add: vmm_fname_def)
    moreover have "same_place na3 x = same_place na x" for x using a3 by (simp add: same_place_def)
    ultimately show ?thesis using fin(3) p1(7) unfolding remap_post_def kept_def a1(2) e3 by metis
  qed
  ultimately show ?thesis by blast
qed

subsection \<open>Two allocations\<close>

definition pair_vmm :: vmm where
  "pair_vmm = demo_vmm 0 [malloc_ate (demo_vmm 0 []) 1000 1, malloc_ate (demo_vmm 0 []) 2000 2]"

definition pair_world :: world where
  "pair_world = demo_world\<lparr>sys := (sys demo_world)\<lparr>files := [swap_name ''s'' 100 1000 \<mapsto> [], swap_name ''s'' 100 2000 \<mapsto> []]\<rparr>\<rparr>"

lemma pair_stored: "stored pair_vmm pair_world (malloc_ate (demo_vmm 0 []) 1000 n) []"
  "stored pair_vmm pair_world (malloc_ate (demo_vmm 0 []) 2000 n) []"
proof -
  have "page_size pair_vmm = 2" by (simp add: pair_vmm_def)
  moreover have "fstem pair_vmm = ''s''" "vpid pair_vmm = 100" by (simp_all add: pair_vmm_def demo_vmm_def)
  ultimately show "stored pair_vmm pair_world (malloc_ate (demo_vmm 0 []) 1000 n) []"
    "stored pair_vmm pair_world (malloc_ate (demo_vmm 0 []) 2000 n) []"
    using malloc_ate_sound(1) by (simp_all add: stored_def pair_world_def)
qed

lemma pair_base: "base (malloc_ate (demo_vmm 0 []) p n) = p + 64" if "p < 10000"
  using that by (simp add: malloc_ate_def struct_pages_def sizeof_ate_def addw_def subw_def mulw_def SIZE_MOD_def)

lemma pair_proc_ok: "proc_ok pair_vmm pair_world"
proof -
  have ne: "swap_name ''s'' 100 1000 \<noteq> swap_name ''s'' 100 2000" by code_simp
  have s: "\<not> has (opts pair_vmm) VMM_RSDNT" "\<not> has VMM_CHECK VMM_RSDNT" by (simp_all add: pair_vmm_def has_def vmm_opt_code)
  have "entry_ok pair_vmm pair_world (malloc_ate (demo_vmm 0 []) 1000 1)" "entry_ok pair_vmm pair_world (malloc_ate (demo_vmm 0 []) 2000 2)"
    using pair_stored malloc_ate_sound(2) by (auto simp: entry_ok_def)
  moreover have "wf_shm (proc_ipc 0) pair_world" by (simp add: pair_world_def wf_shm_def in_shm_def total_def SIZE_MOD_def)
  ultimately have "well_formed pair_vmm pair_world"
    using ne by (simp add: well_formed_def pair_vmm_def sized_def SIZE_MOD_def region_end_def pair_base) (simp add: pair_world_def)
  moreover have "accounted pair_vmm pair_world"
    using s by (simp add: accounted_def pair_vmm_def dsum_def) (simp add: pair_world_def)
  ultimately show ?thesis by (simp add: proc_ok_def)
qed

subsection \<open>Properties\<close>

text \<open>C18: Remapping moves contents without copying.  \<open>sbma_remap\<close> from an allocation to
  another that is at least as long returns 0 while system calls succeed; none of its assertions
  fails, and every byte of the old allocation, in memory or on disk, is then held by the new
  one at the same offset.  The old allocation is left without a swap file.\<close>
theorem remap_correct:
  assumes "proc_ok v w" and "quiet w" and "0 < inter_mtx w" and "oa \<in> set (a_tbl v)" and "na \<in> set (a_tbl v)"
    and "addr oa \<noteq> addr na" and "base oa = addr oa + struct_pages v * page_size v"
    and "base na = addr na + struct_pages v * page_size v" and "n_pages oa \<le> n_pages na"
    and "stored v w oa f" and "0 < len"
  shows "\<exists>v' w'. sbma_remap v w (base na) (base oa) len = Some (0, v', w') \<and> remap_post v oa f na v' w'"
  using assms by (rule remap_ok)

theorem remap_correct_witness:
  "\<exists>v' w'. sbma_remap pair_vmm pair_world 2064 1064 1 = Some (0, v', w')"
proof -
  have "struct_pages pair_vmm * page_size pair_vmm = 64"
    by (simp add: pair_vmm_def struct_pages_def sizeof_ate_def addw_def subw_def SIZE_MOD_def)
  then have "\<exists>v' w'. sbma_remap pair_vmm pair_world (base (malloc_ate (demo_vmm 0 []) 2000 2)) (base (malloc_ate (demo_vmm 0 []) 1000 1)) 1 =
      Some (0, v', w') \<and> remap_post pair_vmm (malloc_ate (demo_vmm 0 []) 1000 1) [] (malloc_ate (demo_vmm 0 []) 2000 2) v' w'"
    by (intro remap_correct pair_proc_ok pair_stored)
       (simp_all add: pair_base, simp_all add: pair_vmm_def pair_world_def quiet_def demo_world_def)
  then show ?thesis by (auto simp: pair_base)
qed

end
