(* ===== verification/Lifecycle.thy ===== *)
theory Lifecycle
  imports Malloc
begin

text \<open>
  Joining and leaving (\<open>src/vmm/init.c\<close>, \<open>src/vmm/destroy.c\<close>, \<open>src/api/init.c\<close>,
  \<open>vinit.c\<close>, \<open>destroy.c\<close>), and the small functions of the interface: \<open>mallopt.c\<close>,
  \<open>mallinfo.c\<close>, \<open>mexist.c\<close>, \<open>sigon.c\<close>, \<open>sigoff.c\<close>.

  The field \<open>vpid\<close> is what \<open>getpid\<close> returns.  \<open>FATAL\<close> ends the program.  The signal
  actions are not part of the state: which handlers run is fixed in \<open>Vmm\<close> and \<open>Touch\<close>.
\<close>

subsection \<open>Operations\<close>

definition vmm_init ::
  "vmm \<Rightarrow> string \<Rightarrow> int \<Rightarrow> nat \<Rightarrow> nat \<Rightarrow> nat \<Rightarrow> cint \<Rightarrow> 'a world_scheme \<Rightarrow> (int \<times> vmm \<times> 'a world_scheme) option" where
  "vmm_init v stem unq ps n max_mem op w =
     (if vinit v = 1 then Some (0, v, w)
      else if has op VMM_INVLD then Some (-1, v, w)
      else do {
        v \<leftarrow> Some (v\<lparr>page_size := ps, opts := op, numipc := 0, numhipc := 0, numrf := 0, numwf := 0,
                     numrd := 0, numwr := 0, numpages := 0, fstem := take (FILENAME_MAX - 1) stem\<rparr>);
        (ok, s) \<leftarrow> Some (sys_calls 4 (sys w));                 \<comment> \<open>sigemptyset, sigaction, twice\<close>
        ASSERT ok;
        v \<leftarrow> Some (v\<lparr>a_tbl := []\<rparr>);
        (ret, i, w, s) \<leftarrow> ipc_init (vipc v) unq n max_mem (vpid v) w s;
        ASSERT (ret \<noteq> -1);
        Some (0, v\<lparr>vipc := i, vinit := 1\<rparr>, with_sys s w)
      })"

definition vmm_destroy :: "vmm \<Rightarrow> 'a world_scheme \<Rightarrow> (int \<times> vmm \<times> 'a world_scheme) option" where
  "vmm_destroy v w =
     (if vinit v = 0 then Some (0, v, w)
      else do {
        v \<leftarrow> Some (v\<lparr>vinit := 0\<rparr>);
        (ok, s) \<leftarrow> Some (sys_calls 2 (sys w));                 \<comment> \<open>sigaction, twice\<close>
        ASSERT ok;
        (ret, i, w, s) \<leftarrow> ipc_destroy (vipc v) w s;
        Some (ret, v\<lparr>vipc := i\<rparr>, with_sys s w)
      })"

definition sbma_init ::
  "vmm \<Rightarrow> string \<Rightarrow> int \<Rightarrow> nat \<Rightarrow> nat \<Rightarrow> nat \<Rightarrow> cint \<Rightarrow> 'a world_scheme \<Rightarrow> (int \<times> vmm \<times> 'a world_scheme) option" where
  "sbma_init v stem unq ps n max_mem op w = do {
     (ret, v, w) \<leftarrow> vmm_init v stem unq ps n max_mem op w;
     Some (if ret = -1 then -1 else 0, v, w)
   }"

text \<open>The variable argument list is a tuple.\<close>

definition sbma_vinit ::
  "vmm \<Rightarrow> string \<times> int \<times> nat \<times> nat \<times> nat \<times> cint \<Rightarrow> 'a world_scheme \<Rightarrow> (int \<times> vmm \<times> 'a world_scheme) option" where
  "sbma_vinit v args w =
     (case args of (stem, unq, ps, n, max_mem, op) \<Rightarrow> sbma_init v stem unq ps n max_mem op w)"

definition sbma_destroy :: "vmm \<Rightarrow> 'a world_scheme \<Rightarrow> (int \<times> vmm \<times> 'a world_scheme) option" where
  "sbma_destroy v w = do {
     (ret, v, w) \<leftarrow> vmm_destroy v w;
     Some (if ret = -1 then -1 else 0, v, w)
   }"

definition M_VMMOPTS :: int where "M_VMMOPTS = 0"

definition sbma_mallopt :: "vmm \<Rightarrow> int \<Rightarrow> cint \<Rightarrow> int \<times> vmm" where
  "sbma_mallopt v param val =
     (if param = M_VMMOPTS then if has val VMM_INVLD then (-1, v) else (0, v\<lparr>opts := val\<rparr>)
      else (-1, v))"

text \<open>The members of \<open>struct mallinfo\<close> are of type \<open>int\<close>.\<close>

record mallinfo =
  smblks :: int
  ordblks :: int
  usmblks :: int
  fsmblks :: int
  uordblks :: int
  fordblks :: int
  hblks :: int
  hblkhd :: int
  keepcost :: int

definition sbma_mallinfo :: "vmm \<Rightarrow> 'a world_scheme \<Rightarrow> mallinfo option" where
  "sbma_mallinfo v w = do {
     ASSERT (iinit (vipc v) \<noteq> 0 \<longrightarrow> in_shm (vipc v) w);
     Some \<lparr>smblks = to_int (numipc v), ordblks = to_int (numhipc v), usmblks = to_int (numrd v), fsmblks = to_int (numwr v),
           uordblks = to_int (numrf v), fordblks = to_int (numwf v),
           hblks = to_int (if iinit (vipc v) = 0 then curpages (vipc v) else c_mem w ! iid (vipc v)),
           hblkhd = to_int (maxpages (vipc v)), keepcost = to_int (numpages v)\<rparr>
   }"

definition sbma_mexist :: "vmm \<Rightarrow> nat \<Rightarrow> int" where
  "sbma_mexist v x =
     (if vinit v = 0 then 0
      else case mmu_lookup (page_size v) (a_tbl v) x of None \<Rightarrow> 0 | Some a \<Rightarrow> 1)"

definition sbma_sigon :: "vmm \<Rightarrow> 'a world_scheme \<Rightarrow> (int \<times> 'a world_scheme) option" where
  "sbma_sigon v w = do { w \<leftarrow> ipc_sigon (vipc v) w; Some (0, w) }"

definition sbma_sigoff :: "vmm \<Rightarrow> 'a world_scheme \<Rightarrow> (int \<times> 'a world_scheme) option" where
  "sbma_sigoff v w = do { w \<leftarrow> ipc_sigoff (vipc v) w; Some (0, w) }"

subsection \<open>Joining\<close>

text \<open>The state of the segment that a process joins: new, or with room for one more process and
  no charges at its place.\<close>

definition joinable :: "nat \<Rightarrow> nat \<Rightarrow> 'a world_scheme \<Rightarrow> bool" where
  "joinable n max_mem w \<longleftrightarrow> sid w \<noteq> 0 \<and>
     (if shm_made w
      then next_id w < n \<and> length (c_mem w) = n \<and> length (d_mem w) = n \<and> length (pids w) = n \<and> length (sigs w) = n \<and>
           total w < SIZE_MOD \<and> c_mem w ! next_id w = 0 \<and> d_mem w ! next_id w = 0
      else 0 < n \<and> max_mem < SIZE_MOD)"

lemma vmm_init_eq:
  assumes "vinit v \<noteq> 1" and "\<not> has op VMM_INVLD" and q: "quiet w" and j: "joinable n max_mem w"
    and w0: "w0 = (if shm_made w then w
               else w\<lparr>s_mem := max_mem, c_mem := replicate n 0, d_mem := replicate n 0,
                      pids := replicate n 0, sigs := replicate n 0, next_id := 0\<rparr>)"
  shows "vmm_init v stem unq ps n max_mem op w =
    Some (0, v\<lparr>page_size := ps, opts := op, numipc := 0, numhipc := 0, numrf := 0, numwf := 0,
               numrd := 0, numwr := 0, numpages := 0, fstem := take (FILENAME_MAX - 1) stem, a_tbl := [],
               vipc := (vipc v)\<lparr>iid := next_id w0, n_procs := n, uniq := unq, curpages := 0, maxpages := 0\<rparr>, vinit := 1\<rparr>,
          w0\<lparr>shm_made := True, next_id := Suc (next_id w0), pids := (pids w0)[next_id w0 := vpid v]\<rparr>)"
proof -
  have f: "faults (sys w) = []" using q by (simp add: quiet_def)
  have l: "length (pids w0) = n" and lt: "next_id w0 < n" and s: "sid w \<noteq> 0" and sw: "sys w0 = sys w"
    using j by (auto simp: joinable_def w0)
  have e: "ipc_init i unq n max_mem pid w (sys w) =
      Some (0, i\<lparr>iid := next_id w0, n_procs := n, uniq := unq, curpages := 0, maxpages := 0\<rparr>,
        w0\<lparr>shm_made := True, next_id := Suc (next_id w0), pids := (pids w0)[next_id w0 := pid]\<rparr>, sys w)" for i pid
    using ipc_init_eq [OF f s w0 l] lt by simp
  show ?thesis using assms(1,2) f sw by (simp add: vmm_init_def e with_sys_def)
qed

lemma joined_ok:
  assumes j: "joinable n max_mem w" and ps: "0 < ps" "2 \<le> sc_page w" "sc_page w dvd ps"
    and w0: "w0 = (if shm_made w then w
               else w\<lparr>s_mem := max_mem, c_mem := replicate n 0, d_mem := replicate n 0,
                      pids := replicate n 0, sigs := replicate n 0, next_id := 0\<rparr>)"
    and v: "page_size v = ps" "a_tbl v = []" "iid (vipc v) = next_id w0" "n_procs (vipc v) = n"
  shows "proc_ok v (w0\<lparr>shm_made := True, next_id := k, pids := (pids w0)[next_id w0 := p]\<rparr>)"
proof -
  have i: "next_id w0 < n" "length (c_mem w0) = n" "length (d_mem w0) = n" "length (pids w0) = n" "length (sigs w0) = n"
    "total w0 < SIZE_MOD" "c_mem w0 ! next_id w0 = 0" "d_mem w0 ! next_id w0 = 0" "sc_page w0 = sc_page w"
    using j by (auto simp: joinable_def w0 total_def sum_list_replicate)
  then show ?thesis using ps v
    by (simp add: proc_ok_def well_formed_def accounted_def sized_def wf_shm_def in_shm_def csum_def dsum_def nsum_def
        SIZE_MOD_def total_def)
qed

subsection \<open>Properties\<close>

definition blank_vmm :: vmm where
  "blank_vmm = (demo_vmm 0 [])\<lparr>vinit := 0\<rparr>"

definition blank_world :: world where
  "blank_world = demo_world\<lparr>shm_made := False\<rparr>"

text \<open>C21: Joining establishes the invariant.  On a process that is not initialised, with valid
  options and system calls that succeed, \<open>sbma_init\<close> returns 0 and leaves a consistent
  process without allocations and without charges, under the next free id; the process that
  creates the segment finds all of \<open>max_mem\<close> free.  A second call changes nothing.\<close>
theorem init_establishes:
  assumes "vinit v \<noteq> 1" and "\<not> has op VMM_INVLD" and "quiet w" and "joinable n max_mem w"
    and "0 < ps" and "2 \<le> sc_page w" and "sc_page w dvd ps"
  shows "\<exists>v' w'. sbma_init v stem unq ps n max_mem op w = Some (0, v', w') \<and> proc_ok v' w' \<and> quiet w' \<and>
           a_tbl v' = [] \<and> opts v' = op \<and> page_size v' = ps \<and>
           iid (vipc v') = (if shm_made w then next_id w else 0) \<and> next_id w' = Suc (iid (vipc v')) \<and>
           s_mem w' = (if shm_made w then s_mem w else max_mem) \<and>
           sbma_init v' stem unq ps n max_mem op w' = Some (0, v', w')"
proof -
  define w0 where "w0 = (if shm_made w then w
               else w\<lparr>s_mem := max_mem, c_mem := replicate n 0, d_mem := replicate n 0,
                      pids := replicate n 0, sigs := replicate n 0, next_id := 0\<rparr>)"
  have s0: "sys w0 = sys w" "next_id w0 = (if shm_made w then next_id w else 0)" "s_mem w0 = (if shm_made w then s_mem w else max_mem)"
    by (simp_all add: w0_def)
  let ?v = "v\<lparr>page_size := ps, opts := op, numipc := 0, numhipc := 0, numrf := 0, numwf := 0,
               numrd := 0, numwr := 0, numpages := 0, fstem := take (FILENAME_MAX - 1) stem, a_tbl := [],
               vipc := (vipc v)\<lparr>iid := next_id w0, n_procs := n, uniq := unq, curpages := 0, maxpages := 0\<rparr>, vinit := 1\<rparr>"
  let ?w = "w0\<lparr>shm_made := True, next_id := Suc (next_id w0), pids := (pids w0)[next_id w0 := vpid v]\<rparr>"
  have "sbma_init v stem unq ps n max_mem op w = Some (0, ?v, ?w)"
    using vmm_init_eq [OF assms(1-4) w0_def] by (simp add: sbma_init_def)
  moreover have "proc_ok ?v ?w" by (rule joined_ok [OF assms(4-7) w0_def]) simp_all
  moreover have "quiet ?w" using assms(3) s0 by (simp add: quiet_def)
  moreover have "sbma_init ?v stem unq ps n max_mem op ?w = Some (0, ?v, ?w)" by (simp add: sbma_init_def vmm_init_def)
  ultimately show ?thesis using s0 by (intro exI [of _ ?v] exI [of _ ?w]) simp
qed

theorem init_establishes_witness:
  "\<exists>v' w'. sbma_init blank_vmm ''s'' 7 4 2 64 VMM_CHECK blank_world = Some (0, v', w') \<and> proc_ok v' w' \<and> s_mem w' = 64"
proof -
  have "vinit blank_vmm \<noteq> 1" "\<not> has VMM_CHECK VMM_INVLD" "quiet blank_world" "joinable 2 64 blank_world"
    "sc_page blank_world = 2" "\<not> shm_made blank_world"
    by (simp_all add: blank_vmm_def blank_world_def has_def vmm_opt_code joinable_def quiet_def SIZE_MOD_def demo_world_def)
  then show ?thesis
    using init_establishes [of blank_vmm VMM_CHECK blank_world 2 64 4 "''s''" 7] by auto
qed

text \<open>\<open>sbma_mexist\<close> decides whether an address belongs to an allocation.\<close>
theorem mexist_correct:
  assumes "well_formed v w" and "vinit v = 1"
  shows "sbma_mexist v x =
    (if \<exists>a\<in>set (a_tbl v). base a \<le> x \<and> x < base a + n_pages a * page_size v then 1 else 0)"
proof -
  have "contains (page_size v) a x \<longleftrightarrow> base a \<le> x \<and> x < base a + n_pages a * page_size v" if "a \<in> set (a_tbl v)" for a
    using contains_iff [OF well_formed_entry(4) [OF assms(1) that]] by (simp add: region_end_def)
  then show ?thesis
    using assms(2) mmu_lookup_None [of "page_size v" "a_tbl v" x] mmu_lookup_SomeD [of "page_size v" "a_tbl v" x]
    by (auto simp: sbma_mexist_def split: option.splits)
qed

theorem mexist_correct_witness: "sbma_mexist (demo_vmm 1 [small_ate]) 66 = 1"
proof -
  have "well_formed (demo_vmm 1 [small_ate]) demo_world" "vinit (demo_vmm 1 [small_ate]) = 1"
    using demo_proc_ok(2) by (simp_all add: proc_ok_def demo_vmm_def)
  then show ?thesis
    using mexist_correct [of "demo_vmm 1 [small_ate]" demo_world 66] by (simp add: small_ate_def)
qed

text \<open>\<open>sbma_mallinfo\<close> never reports the pages that are loaded.  \<open>ipc_init\<close> does not set
  \<open>ipc->init\<close>, so a process that has joined reads \<open>curpages\<close>, which is 0 until the
  process leaves, whatever it is charged for.\<close>
theorem mallinfo_blind:
  assumes "vinit v \<noteq> 1" and "iinit (vipc v) = 0" and "\<not> has op VMM_INVLD" and "quiet w" and "joinable n max_mem w"
    and "sbma_init v stem unq ps n max_mem op w = Some (ret, v', w')"
  shows "\<forall>u :: 'a world_scheme. \<exists>mi. sbma_mallinfo v' u = Some mi \<and> hblks mi = 0"
  using assms(2,6) vmm_init_eq [OF assms(1,3-5) refl] by (auto simp: sbma_init_def sbma_mallinfo_def to_int_def)

theorem mallinfo_blind_witness:
  "\<exists>v' (w' :: world) mi. sbma_init blank_vmm ''s'' 7 4 2 64 VMM_CHECK blank_world = Some (0, v', w') \<and>
     sbma_mallinfo v' (w'\<lparr>c_mem := [5, 5]\<rparr>) = Some mi \<and> hblks mi = 0"
proof -
  have h: "vinit blank_vmm \<noteq> 1" "\<not> has VMM_CHECK VMM_INVLD" "quiet blank_world" "joinable 2 64 blank_world" "iinit (vipc blank_vmm) = 0"
    by (simp_all add: blank_vmm_def blank_world_def has_def vmm_opt_code joinable_def quiet_def SIZE_MOD_def demo_world_def demo_vmm_def proc_ipc_def)
  obtain v' w' where i: "sbma_init blank_vmm ''s'' 7 4 2 64 VMM_CHECK blank_world = Some (0, v', w')"
    using vmm_init_eq [OF h(1-4) refl] by (simp add: sbma_init_def)
  then show ?thesis
    using mallinfo_blind [OF h(1,5,2-4) i] by blast
qed

end
