(* ===== verification/Kl_Sizes.thy ===== *)
theory Kl_Sizes
  imports Prelude
begin

text \<open>
  Sizes and size classes of the allocator \<open>klmalloc\<close> (the macros, inline functions and tables of
  \<open>src/klmalloc/klmalloc.c\<close>).

  \<open>uintptr_t\<close> and \<open>size_t\<close> are 64 bits wide and \<open>MEMORY_ALLOCATION_ALIGNMENT\<close> is its default 8;
  the masks of the source are written as numbers of that width.
\<close>

subsection \<open>Constants\<close>

definition MEMORY_ALLOCATION_ALIGNMENT :: nat where "MEMORY_ALLOCATION_ALIGNMENT = 8"

abbreviation (input) WORD :: nat where "WORD \<equiv> 8"   \<comment> \<open>\<open>sizeof(uintptr_t)\<close>, \<open>sizeof(void*)\<close>\<close>

definition BLOCK_DEFAULT_SIZE :: nat where "BLOCK_DEFAULT_SIZE = 262144"

definition BLOCK_HEADER_ALIGN :: nat where
  "BLOCK_HEADER_ALIGN =
     (if MEMORY_ALLOCATION_ALIGNMENT = WORD then MEMORY_ALLOCATION_ALIGNMENT
      else MEMORY_ALLOCATION_ALIGNMENT - WORD)"

definition FIXED_MAX_SIZE :: nat where
  "FIXED_MAX_SIZE = BLOCK_DEFAULT_SIZE - BLOCK_HEADER_ALIGN - WORD - 2 * WORD"

definition KL_CHUNK :: nat where "KL_CHUNK = 0"
definition KL_BRICK :: nat where "KL_BRICK = 1"

definition BLOCK_BIDX_SHIFT :: nat where "BLOCK_BIDX_SHIFT = (WORD - 1) * 8"
definition BLOCK_COUNT_MASK :: nat where "BLOCK_COUNT_MASK = 2 ^ ((WORD - 1) * 8) - 1"
definition BLOCK_BIDX_MASK :: nat where "BLOCK_BIDX_MASK = SIZE_MAX - (2 ^ ((WORD - 1) * 8) - 1)"

text \<open>\<open>sizeof(kl_chunk_t)\<close>: the header, and the union, whose largest member has three words.\<close>

definition CHUNK_MIN_SIZE :: nat where "CHUNK_MIN_SIZE = WORD + 3 * WORD"

definition CHUNK_MAX_SIZE :: nat where
  "CHUNK_MAX_SIZE = (SIZE_MAX AND ((SIZE_MAX - MEMORY_ALLOCATION_ALIGNMENT) - 1)) - 2 * WORD"

definition ALLOC_MAX_SIZE :: nat where "ALLOC_MAX_SIZE = CHUNK_MAX_SIZE"
definition BRICK_MAX_SIZE :: nat where "BRICK_MAX_SIZE = CHUNK_MIN_SIZE - 1"

lemmas kl_consts =
  MEMORY_ALLOCATION_ALIGNMENT_def BLOCK_DEFAULT_SIZE_def BLOCK_HEADER_ALIGN_def FIXED_MAX_SIZE_def
  KL_CHUNK_def KL_BRICK_def CHUNK_MIN_SIZE_def BRICK_MAX_SIZE_def

subsection \<open>Rounding\<close>

definition KL_ALIGN :: "nat \<Rightarrow> nat" where
  "KL_ALIGN n =
     (addw n (MEMORY_ALLOCATION_ALIGNMENT - 1)) AND (SIZE_MAX - (MEMORY_ALLOCATION_ALIGNMENT - 1))"

definition KL_ISALIGNED :: "nat \<Rightarrow> bool" where
  "KL_ISALIGNED p \<longleftrightarrow> p = KL_ALIGN p"

definition KL_BLOCK_SIZE :: "nat \<Rightarrow> nat" where
  "KL_BLOCK_SIZE n = KL_ALIGN (addw (BLOCK_DEFAULT_SIZE - FIXED_MAX_SIZE) n)"

definition KL_BRICK_SIZE :: "nat \<Rightarrow> nat" where
  "KL_BRICK_SIZE n = KL_ALIGN (addw WORD n)"

definition KL_CHUNK_SIZE :: "nat \<Rightarrow> nat" where
  "KL_CHUNK_SIZE n = KL_ALIGN (addw (2 * WORD) n)"

definition KL_G_BRICKBIN :: "nat \<Rightarrow> nat" where
  "KL_G_BRICKBIN n = KL_BRICK_SIZE n div MEMORY_ALLOCATION_ALIGNMENT - 1"

subsection \<open>Size classes\<close>

definition UNDES_BIN_NUM :: nat where "UNDES_BIN_NUM = 4"
definition BRICK_BIN_NUM :: nat where "BRICK_BIN_NUM = 256"
definition CHUNK_BIN_NUM :: nat where "CHUNK_BIN_NUM = 1576"

definition KL_ISSMALLBIN :: "nat \<Rightarrow> bool" where
  "KL_ISSMALLBIN b \<longleftrightarrow> b < 1532"

text \<open>The loop of \<open>kl_builtin_clzl\<close>, which looks for the highest bit from bit \<open>i - 1\<close> down;
  the result is the final value of \<open>i\<close> plus one.\<close>

fun clz_loop :: "nat \<Rightarrow> nat \<Rightarrow> nat" where
  "clz_loop v 0 = 0"
| "clz_loop v (Suc i) = (if bit v i then Suc i else clz_loop v i)"

definition kl_clz :: "nat \<Rightarrow> nat" where
  "kl_clz v = WORD * 8 - clz_loop v (WORD * 8)"

definition KLLOG2 :: "nat \<Rightarrow> nat" where
  "KLLOG2 v = subw (WORD * 8 - 1) (kl_clz v)"

definition KLSQR :: "nat \<Rightarrow> nat" where
  "KLSQR v = mulw v v"

definition log2size :: "nat list" where
  "log2size = [
    8, 8, 8, 8, 8, 8, 16, 16, 32, 32, 64, 64, 128, 128, 256, 256, 512, 512, 1024, 1024, 0, 0, 0,
    0, 0, 0, 0, 0, 0, 0, 0, 0, 0, 0, 0, 0, 0, 0, 0, 0, 0, 0, 0, 0, 0, 0, 0, 0, 0, 0, 0, 0, 0, 0,
    0, 0, 0, 0, 0, 0, 0, 0, 0, 0]"

definition log2off :: "nat list" where
  "log2off = [
    0, 0, 0, 0, 0, 0, 8, 8, 20, 20, 44, 44, 92, 92, 188, 188, 380, 380, 764, 764, 1532, 1533,
    1534, 1535, 1536, 1537, 1538, 1539, 1540, 1541, 1542, 1543, 1544, 1545, 1546, 1547, 1548,
    1549, 1550, 1551, 1552, 1553, 1554, 1555, 1556, 1557, 1558, 1559, 1560, 1561, 1562, 1563,
    1564, 1565, 1566, 1567, 1568, 1569, 1570, 1571, 1572, 1573, 1574, 1575]"

definition bin2size :: "nat list" where
  "bin2size =
    [8, 16, 24, 32, 40, 48, 56, 64] @
    [80, 96, 112, 128, 144, 160, 176, 192, 208, 224, 240, 256] @
    [288, 320, 352, 384, 416, 448, 480, 512, 544, 576, 608, 640, 672, 704, 736, 768, 800, 832,
     864, 896, 928, 960, 992, 1024] @
    [1088, 1152, 1216, 1280, 1344, 1408, 1472, 1536, 1600, 1664, 1728, 1792, 1856, 1920, 1984,
     2048, 2112, 2176, 2240, 2304, 2368, 2432, 2496, 2560, 2624, 2688, 2752, 2816, 2880, 2944,
     3008, 3072, 3136, 3200, 3264, 3328, 3392, 3456, 3520, 3584, 3648, 3712, 3776, 3840, 3904,
     3968, 4032, 4096] @
    [4224, 4352, 4480, 4608, 4736, 4864, 4992, 5120, 5248, 5376, 5504, 5632, 5760, 5888, 6016,
     6144, 6272, 6400, 6528, 6656, 6784, 6912, 7040, 7168, 7296, 7424, 7552, 7680, 7808, 7936,
     8064, 8192, 8320, 8448, 8576, 8704, 8832, 8960, 9088, 9216, 9344, 9472, 9600, 9728, 9856,
     9984, 10112, 10240, 10368, 10496, 10624, 10752, 10880, 11008, 11136, 11264, 11392, 11520,
     11648, 11776, 11904, 12032, 12160, 12288, 12416, 12544, 12672, 12800, 12928, 13056, 13184,
     13312, 13440, 13568, 13696, 13824, 13952, 14080, 14208, 14336, 14464, 14592, 14720, 14848,
     14976, 15104, 15232, 15360, 15488, 15616, 15744, 15872, 16000, 16128, 16256, 16384] @
    [16640, 16896, 17152, 17408, 17664, 17920, 18176, 18432, 18688, 18944, 19200, 19456, 19712,
     19968, 20224, 20480, 20736, 20992, 21248, 21504, 21760, 22016, 22272, 22528, 22784, 23040,
     23296, 23552, 23808, 24064, 24320, 24576, 24832, 25088, 25344, 25600, 25856, 26112, 26368,
     26624, 26880, 27136, 27392, 27648, 27904, 28160, 28416, 28672, 28928, 29184, 29440, 29696,
     29952, 30208, 30464, 30720, 30976, 31232, 31488, 31744, 32000, 32256, 32512, 32768, 33024,
     33280, 33536, 33792, 34048, 34304, 34560, 34816, 35072, 35328, 35584, 35840, 36096, 36352,
     36608, 36864, 37120, 37376, 37632, 37888, 38144, 38400, 38656, 38912, 39168, 39424, 39680,
     39936, 40192, 40448, 40704, 40960] @
    [41216, 41472, 41728, 41984, 42240, 42496, 42752, 43008, 43264, 43520, 43776, 44032, 44288,
     44544, 44800, 45056, 45312, 45568, 45824, 46080, 46336, 46592, 46848, 47104, 47360, 47616,
     47872, 48128, 48384, 48640, 48896, 49152, 49408, 49664, 49920, 50176, 50432, 50688, 50944,
     51200, 51456, 51712, 51968, 52224, 52480, 52736, 52992, 53248, 53504, 53760, 54016, 54272,
     54528, 54784, 55040, 55296, 55552, 55808, 56064, 56320, 56576, 56832, 57088, 57344, 57600,
     57856, 58112, 58368, 58624, 58880, 59136, 59392, 59648, 59904, 60160, 60416, 60672, 60928,
     61184, 61440, 61696, 61952, 62208, 62464, 62720, 62976, 63232, 63488, 63744, 64000, 64256,
     64512, 64768, 65024, 65280, 65536] @
    [66048, 66560, 67072, 67584, 68096, 68608, 69120, 69632, 70144, 70656, 71168, 71680, 72192,
     72704, 73216, 73728, 74240, 74752, 75264, 75776, 76288, 76800, 77312, 77824, 78336, 78848,
     79360, 79872, 80384, 80896, 81408, 81920, 82432, 82944, 83456, 83968, 84480, 84992, 85504,
     86016, 86528, 87040, 87552, 88064, 88576, 89088, 89600, 90112, 90624, 91136, 91648, 92160,
     92672, 93184, 93696, 94208, 94720, 95232, 95744, 96256, 96768, 97280, 97792, 98304, 98816,
     99328, 99840, 100352, 100864, 101376, 101888, 102400, 102912, 103424, 103936, 104448,
     104960, 105472, 105984, 106496, 107008, 107520, 108032, 108544, 109056, 109568, 110080,
     110592, 111104, 111616, 112128, 112640, 113152, 113664, 114176, 114688] @
    [115200, 115712, 116224, 116736, 117248, 117760, 118272, 118784, 119296, 119808, 120320,
     120832, 121344, 121856, 122368, 122880, 123392, 123904, 124416, 124928, 125440, 125952,
     126464, 126976, 127488, 128000, 128512, 129024, 129536, 130048, 130560, 131072, 131584,
     132096, 132608, 133120, 133632, 134144, 134656, 135168, 135680, 136192, 136704, 137216,
     137728, 138240, 138752, 139264, 139776, 140288, 140800, 141312, 141824, 142336, 142848,
     143360, 143872, 144384, 144896, 145408, 145920, 146432, 146944, 147456, 147968, 148480,
     148992, 149504, 150016, 150528, 151040, 151552, 152064, 152576, 153088, 153600, 154112,
     154624, 155136, 155648, 156160, 156672, 157184, 157696, 158208, 158720, 159232, 159744,
     160256, 160768, 161280, 161792, 162304, 162816, 163328, 163840] @
    [164352, 164864, 165376, 165888, 166400, 166912, 167424, 167936, 168448, 168960, 169472,
     169984, 170496, 171008, 171520, 172032, 172544, 173056, 173568, 174080, 174592, 175104,
     175616, 176128, 176640, 177152, 177664, 178176, 178688, 179200, 179712, 180224, 180736,
     181248, 181760, 182272, 182784, 183296, 183808, 184320, 184832, 185344, 185856, 186368,
     186880, 187392, 187904, 188416, 188928, 189440, 189952, 190464, 190976, 191488, 192000,
     192512, 193024, 193536, 194048, 194560, 195072, 195584, 196096, 196608, 197120, 197632,
     198144, 198656, 199168, 199680, 200192, 200704, 201216, 201728, 202240, 202752, 203264,
     203776, 204288, 204800, 205312, 205824, 206336, 206848, 207360, 207872, 208384, 208896,
     209408, 209920, 210432, 210944, 211456, 211968, 212480, 212992] @
    [213504, 214016, 214528, 215040, 215552, 216064, 216576, 217088, 217600, 218112, 218624,
     219136, 219648, 220160, 220672, 221184, 221696, 222208, 222720, 223232, 223744, 224256,
     224768, 225280, 225792, 226304, 226816, 227328, 227840, 228352, 228864, 229376, 229888,
     230400, 230912, 231424, 231936, 232448, 232960, 233472, 233984, 234496, 235008, 235520,
     236032, 236544, 237056, 237568, 238080, 238592, 239104, 239616, 240128, 240640, 241152,
     241664, 242176, 242688, 243200, 243712, 244224, 244736, 245248, 245760, 246272, 246784,
     247296, 247808, 248320, 248832, 249344, 249856, 250368, 250880, 251392, 251904, 252416,
     252928, 253440, 253952, 254464, 254976, 255488, 256000, 256512, 257024, 257536, 258048,
     258560, 259072, 259584, 260096, 260608, 261120, 261632, 262144] @
    [263168, 264192, 265216, 266240, 267264, 268288, 269312, 270336, 271360, 272384, 273408,
     274432, 275456, 276480, 277504, 278528, 279552, 280576, 281600, 282624, 283648, 284672,
     285696, 286720, 287744, 288768, 289792, 290816, 291840, 292864, 293888, 294912, 295936,
     296960, 297984, 299008, 300032, 301056, 302080, 303104, 304128, 305152, 306176, 307200,
     308224, 309248, 310272, 311296, 312320, 313344, 314368, 315392, 316416, 317440, 318464,
     319488, 320512, 321536, 322560, 323584, 324608, 325632, 326656, 327680, 328704, 329728,
     330752, 331776, 332800, 333824, 334848, 335872, 336896, 337920, 338944, 339968, 340992,
     342016, 343040, 344064, 345088, 346112, 347136, 348160, 349184, 350208, 351232, 352256,
     353280, 354304, 355328, 356352, 357376, 358400, 359424, 360448] @
    [361472, 362496, 363520, 364544, 365568, 366592, 367616, 368640, 369664, 370688, 371712,
     372736, 373760, 374784, 375808, 376832, 377856, 378880, 379904, 380928, 381952, 382976,
     384000, 385024, 386048, 387072, 388096, 389120, 390144, 391168, 392192, 393216, 394240,
     395264, 396288, 397312, 398336, 399360, 400384, 401408, 402432, 403456, 404480, 405504,
     406528, 407552, 408576, 409600, 410624, 411648, 412672, 413696, 414720, 415744, 416768,
     417792, 418816, 419840, 420864, 421888, 422912, 423936, 424960, 425984, 427008, 428032,
     429056, 430080, 431104, 432128, 433152, 434176, 435200, 436224, 437248, 438272, 439296,
     440320, 441344, 442368, 443392, 444416, 445440, 446464, 447488, 448512, 449536, 450560,
     451584, 452608, 453632, 454656, 455680, 456704, 457728, 458752] @
    [459776, 460800, 461824, 462848, 463872, 464896, 465920, 466944, 467968, 468992, 470016,
     471040, 472064, 473088, 474112, 475136, 476160, 477184, 478208, 479232, 480256, 481280,
     482304, 483328, 484352, 485376, 486400, 487424, 488448, 489472, 490496, 491520, 492544,
     493568, 494592, 495616, 496640, 497664, 498688, 499712, 500736, 501760, 502784, 503808,
     504832, 505856, 506880, 507904, 508928, 509952, 510976, 512000, 513024, 514048, 515072,
     516096, 517120, 518144, 519168, 520192, 521216, 522240, 523264, 524288, 525312, 526336,
     527360, 528384, 529408, 530432, 531456, 532480, 533504, 534528, 535552, 536576, 537600,
     538624, 539648, 540672, 541696, 542720, 543744, 544768, 545792, 546816, 547840, 548864,
     549888, 550912, 551936, 552960, 553984, 555008, 556032, 557056] @
    [558080, 559104, 560128, 561152, 562176, 563200, 564224, 565248, 566272, 567296, 568320,
     569344, 570368, 571392, 572416, 573440, 574464, 575488, 576512, 577536, 578560, 579584,
     580608, 581632, 582656, 583680, 584704, 585728, 586752, 587776, 588800, 589824, 590848,
     591872, 592896, 593920, 594944, 595968, 596992, 598016, 599040, 600064, 601088, 602112,
     603136, 604160, 605184, 606208, 607232, 608256, 609280, 610304, 611328, 612352, 613376,
     614400, 615424, 616448, 617472, 618496, 619520, 620544, 621568, 622592, 623616, 624640,
     625664, 626688, 627712, 628736, 629760, 630784, 631808, 632832, 633856, 634880, 635904,
     636928, 637952, 638976, 640000, 641024, 642048, 643072, 644096, 645120, 646144, 647168,
     648192, 649216, 650240, 651264, 652288, 653312, 654336, 655360] @
    [656384, 657408, 658432, 659456, 660480, 661504, 662528, 663552, 664576, 665600, 666624,
     667648, 668672, 669696, 670720, 671744, 672768, 673792, 674816, 675840, 676864, 677888,
     678912, 679936, 680960, 681984, 683008, 684032, 685056, 686080, 687104, 688128, 689152,
     690176, 691200, 692224, 693248, 694272, 695296, 696320, 697344, 698368, 699392, 700416,
     701440, 702464, 703488, 704512, 705536, 706560, 707584, 708608, 709632, 710656, 711680,
     712704, 713728, 714752, 715776, 716800, 717824, 718848, 719872, 720896, 721920, 722944,
     723968, 724992, 726016, 727040, 728064, 729088, 730112, 731136, 732160, 733184, 734208,
     735232, 736256, 737280, 738304, 739328, 740352, 741376, 742400, 743424, 744448, 745472,
     746496, 747520, 748544, 749568, 750592, 751616, 752640, 753664] @
    [754688, 755712, 756736, 757760, 758784, 759808, 760832, 761856, 762880, 763904, 764928,
     765952, 766976, 768000, 769024, 770048, 771072, 772096, 773120, 774144, 775168, 776192,
     777216, 778240, 779264, 780288, 781312, 782336, 783360, 784384, 785408, 786432, 787456,
     788480, 789504, 790528, 791552, 792576, 793600, 794624, 795648, 796672, 797696, 798720,
     799744, 800768, 801792, 802816, 803840, 804864, 805888, 806912, 807936, 808960, 809984,
     811008, 812032, 813056, 814080, 815104, 816128, 817152, 818176, 819200, 820224, 821248,
     822272, 823296, 824320, 825344, 826368, 827392, 828416, 829440, 830464, 831488, 832512,
     833536, 834560, 835584, 836608, 837632, 838656, 839680, 840704, 841728, 842752, 843776,
     844800, 845824, 846848, 847872, 848896, 849920, 850944, 851968] @
    [852992, 854016, 855040, 856064, 857088, 858112, 859136, 860160, 861184, 862208, 863232,
     864256, 865280, 866304, 867328, 868352, 869376, 870400, 871424, 872448, 873472, 874496,
     875520, 876544, 877568, 878592, 879616, 880640, 881664, 882688, 883712, 884736, 885760,
     886784, 887808, 888832, 889856, 890880, 891904, 892928, 893952, 894976, 896000, 897024,
     898048, 899072, 900096, 901120, 902144, 903168, 904192, 905216, 906240, 907264, 908288,
     909312, 910336, 911360, 912384, 913408, 914432, 915456, 916480, 917504, 918528, 919552,
     920576, 921600, 922624, 923648, 924672, 925696, 926720, 927744, 928768, 929792, 930816,
     931840, 932864, 933888, 934912, 935936, 936960, 937984, 939008, 940032, 941056, 942080,
     943104, 944128, 945152, 946176, 947200, 948224, 949248, 950272] @
    [951296, 952320, 953344, 954368, 955392, 956416, 957440, 958464, 959488, 960512, 961536,
     962560, 963584, 964608, 965632, 966656, 967680, 968704, 969728, 970752, 971776, 972800,
     973824, 974848, 975872, 976896, 977920, 978944, 979968, 980992, 982016, 983040, 984064,
     985088, 986112, 987136, 988160, 989184, 990208, 991232, 992256, 993280, 994304, 995328,
     996352, 997376, 998400, 999424, 1000448, 1001472, 1002496, 1003520, 1004544, 1005568,
     1006592, 1007616, 1008640, 1009664, 1010688, 1011712, 1012736, 1013760, 1014784, 1015808,
     1016832, 1017856, 1018880, 1019904, 1020928, 1021952, 1022976, 1024000, 1025024, 1026048,
     1027072, 1028096, 1029120, 1030144, 1031168, 1032192, 1033216, 1034240, 1035264, 1036288,
     1037312, 1038336, 1039360, 1040384, 1041408, 1042432, 1043456, 1044480, 1045504, 1046528,
     1047552, 1048576]"

definition KL_SIZE2BIN :: "nat \<Rightarrow> nat option" where
  "KL_SIZE2BIN s = do {
     ASSERT (s \<noteq> 0);
     Some (let k = KLLOG2 (s - 1) in
       if s \<le> 64 then (s - 1) div 8
       else if k < 20
            then if s \<ge> KLSQR (log2size ! (k - 1)) + 1
                 then log2off ! k + (s - (KLSQR (log2size ! (k - 1)) + 1)) div (log2size ! k)
                 else log2off ! (k - 1) + (s - (KLSQR (log2size ! (k - 2)) + 1)) div (log2size ! (k - 1))
            else log2off ! k)
   }"

definition KL_BIN2SIZE :: "nat \<Rightarrow> nat option" where
  "KL_BIN2SIZE b = do { ASSERT (KL_ISSMALLBIN b); Some (bin2size ! b) }"

subsection \<open>Rounding up to a multiple of eight\<close>

lemma and_mask8:
  assumes "x < SIZE_MOD"
  shows "x AND (SIZE_MAX - 7) = x div 8 * 8"
proof -
  have e: "SIZE_MAX - 7 = push_bit 3 (mask 61)"
    by (simp add: SIZE_MAX_def push_bit_eq_mult mask_eq_exp_minus_1)
  have "x = take_bit 64 x" using assms by (simp add: take_bit_eq_mod SIZE_MOD_def)
  then have l: "bit x k \<Longrightarrow> k < 64" for k by (metis bit_take_bit_iff)
  have "x AND push_bit 3 (mask 61) = push_bit 3 (drop_bit 3 x)"
    by (rule bit_eqI) (auto simp: bit_and_iff bit_push_bit_iff bit_mask_iff bit_drop_bit_eq dest: l)
  then show ?thesis unfolding e by (simp add: push_bit_eq_mult drop_bit_eq_div)
qed

lemma KL_ALIGN_eq: "n + 7 < SIZE_MOD \<Longrightarrow> KL_ALIGN n = (n + 7) div 8 * 8"
  using and_mask8 [of "n + 7"] by (simp add: KL_ALIGN_def MEMORY_ALLOCATION_ALIGNMENT_def addw_exact)

lemma ISALIGNED_iff: "n + 7 < SIZE_MOD \<Longrightarrow> KL_ISALIGNED n \<longleftrightarrow> 8 dvd n"
  by (simp add: KL_ISALIGNED_def KL_ALIGN_eq) presburger

lemma aligned_SIZE: "8 dvd n \<Longrightarrow> n < SIZE_MOD \<Longrightarrow> n + 7 < SIZE_MOD"
  by (simp add: SIZE_MOD_def) presburger

lemma ISALIGNED_I [simp]: "8 dvd n \<Longrightarrow> n < SIZE_MOD \<Longrightarrow> KL_ISALIGNED n"
  using ISALIGNED_iff aligned_SIZE by simp

lemma KL_CHUNK_SIZE_eq: "n + 23 < SIZE_MOD \<Longrightarrow> KL_CHUNK_SIZE n = (n + 23) div 8 * 8"
  by (simp add: KL_CHUNK_SIZE_def addw_exact KL_ALIGN_eq add.commute)

lemma KL_BRICK_SIZE_eq: "n + 15 < SIZE_MOD \<Longrightarrow> KL_BRICK_SIZE n = (n + 15) div 8 * 8"
  by (simp add: KL_BRICK_SIZE_def addw_exact KL_ALIGN_eq add.commute)

lemma KL_BLOCK_SIZE_eq: "n + 39 < SIZE_MOD \<Longrightarrow> KL_BLOCK_SIZE n = (n + 39) div 8 * 8"
  by (simp add: KL_BLOCK_SIZE_def kl_consts addw_exact KL_ALIGN_eq add.commute)

subsection \<open>The tables\<close>

text \<open>Above 64 bytes the sizes come in groups: group \<open>j\<close> ranges over the sizes from \<open>64 * 4^j\<close> to
  \<open>256 * 4^j\<close> in steps of \<open>16 * 2^j\<close>.\<close>

definition group_off :: "nat \<Rightarrow> nat" where
  "group_off j = 12 * 2 ^ j - 4"

definition group_size :: "nat \<Rightarrow> nat \<Rightarrow> nat" where
  "group_size j i = 64 * 4 ^ j + 16 * 2 ^ j * Suc i"

lemma length_bin2size [simp]: "length bin2size = 1532"
  by (simp add: bin2size_def)

lemma upt_02: "2 \<le> n \<Longrightarrow> [0..<n] = 0 # 1 # [2..<n]"
  by (simp add: upt_conv_Cons numeral_2_eq_2)

lemma bin2size_pieces:
  "bin2size =
     map (\<lambda>b. 8 * Suc b) [0..<8] @
     map (group_size 0) [0..<12] @
     map (group_size 1) [0..<24] @
     map (group_size 2) [0..<48] @
     map (group_size 3) [0..<96] @
     map (group_size 4) [0..<96] @
     map (group_size 4) [96..<192] @
     map (group_size 5) [0..<96] @
     map (group_size 5) [96..<192] @
     map (group_size 5) [192..<288] @
     map (group_size 5) [288..<384] @
     map (group_size 6) [0..<96] @
     map (group_size 6) [96..<192] @
     map (group_size 6) [192..<288] @
     map (group_size 6) [288..<384] @
     map (group_size 6) [384..<480] @
     map (group_size 6) [480..<576] @
     map (group_size 6) [576..<672] @
     map (group_size 6) [672..<768]"
  unfolding bin2size_def
  by (intro arg_cong2 [where f = append]; simp add: group_size_def upt_02)

lemma map_join:
  "a \<le> b \<Longrightarrow> b \<le> c \<Longrightarrow> map f [a..<b] @ map f [b..<c] @ xs = map f [a..<c] @ xs"
  "a \<le> b \<Longrightarrow> b \<le> c \<Longrightarrow> map f [a..<b] @ map f [b..<c] = map f [a..<c]"
  using upt_add_eq_append [of a b "c - b"] by simp_all

lemma bin2size_groups:
  "bin2size =
     map (\<lambda>b. 8 * Suc b) [0..<8] @ map (group_size 0) [0..<12] @ map (group_size 1) [0..<24] @
     map (group_size 2) [0..<48] @ map (group_size 3) [0..<96] @ map (group_size 4) [0..<192] @
     map (group_size 5) [0..<384] @ map (group_size 6) [0..<768]"
  unfolding bin2size_pieces
  by (simp only: map_join)

lemma nth_bin2size_small: "b < 8 \<Longrightarrow> bin2size ! b = 8 * Suc b"
  by (simp add: bin2size_groups nth_append)

lemma nth_bin2size_group:
  assumes "j < 7" and "i < 12 * 2 ^ j"
  shows "bin2size ! (group_off j + i) = group_size j i"
proof -
  have "j = 0 \<or> j = 1 \<or> j = 2 \<or> j = 3 \<or> j = 4 \<or> j = 5 \<or> j = 6" using assms(1) by auto
  then show ?thesis using assms(2)
    by (elim disjE) (simp_all add: bin2size_groups group_off_def nth_append)
qed

lemma clz_loop_eq:
  assumes "bit v k" and "\<And>i. k < i \<Longrightarrow> \<not> bit v i" and "k < n"
  shows "clz_loop v n = Suc k"
  using assms(3) by (induction n) (auto simp: assms(1,2) less_Suc_eq)

lemma KLLOG2_eq:
  assumes "2 ^ k \<le> v" and "v < 2 ^ Suc k" and "k < 64"
  shows "KLLOG2 v = k"
proof -
  have "v div 2 ^ k = 1"
    using assms(1,2) by (intro div_nat_eqI) auto
  then have k: "bit v k" by (simp add: bit_iff_odd)
  have "\<not> bit v i" if "k < i" for i
  proof -
    have "v < 2 ^ i" using assms(2) that power_increasing [of "Suc k" i "2 :: nat"] by simp
    then show ?thesis by (simp add: bit_iff_odd)
  qed
  then have "clz_loop v 64 = Suc k" using k assms(3) by (intro clz_loop_eq)
  then show ?thesis using assms(3) by (simp add: KLLOG2_def kl_clz_def subw_exact SIZE_MOD_def)
qed

lemma SIZE2BIN_small: "0 < s \<Longrightarrow> s \<le> 64 \<Longrightarrow> KL_SIZE2BIN s = Some ((s - 1) div 8)"
  by (simp add: KL_SIZE2BIN_def)

lemma SIZE2BIN_group:
  assumes "j < 7" and "64 * 4 ^ j < s" and "s \<le> 256 * 4 ^ j"
  shows "KL_SIZE2BIN s = Some (group_off j + (s - 64 * 4 ^ j - 1) div (16 * 2 ^ j))"
proof -
  have j: "j = 0 \<or> j = 1 \<or> j = 2 \<or> j = 3 \<or> j = 4 \<or> j = 5 \<or> j = 6" using assms(1) by auto
  have f: "(4 :: nat) ^ j = 2 ^ (2 * j)" by (simp add: power_mult)
  consider "KLLOG2 (s - 1) = 6 + 2 * j" "s \<le> 128 * 4 ^ j" | "KLLOG2 (s - 1) = 7 + 2 * j" "128 * 4 ^ j < s"
  proof (cases "s \<le> 128 * 4 ^ j")
    case True
    then have "KLLOG2 (s - 1) = 6 + 2 * j"
      using assms by (intro KLLOG2_eq) (auto simp: f power_add)
    then show ?thesis using True that by blast
  next
    case False
    then have "KLLOG2 (s - 1) = 7 + 2 * j"
      using assms by (intro KLLOG2_eq) (auto simp: f power_add)
    then show ?thesis using False that by simp
  qed
  then show ?thesis
  proof cases
    case 1
    then show ?thesis using j assms(2)
      by (elim disjE)
        (simp_all add: KL_SIZE2BIN_def log2size_def log2off_def KLSQR_def mulw_def SIZE_MOD_def group_off_def)
  next
    case 2
    then show ?thesis using j assms(3)
      by (elim disjE)
        (simp_all add: KL_SIZE2BIN_def log2size_def log2off_def KLSQR_def mulw_def SIZE_MOD_def group_off_def)
  qed
qed

lemma group_range:
  fixes s :: nat
  assumes "64 < s" and "s \<le> 1048576"
  obtains j where "j < 7" "64 * 4 ^ j < s" "s \<le> 256 * 4 ^ j"
proof -
  let ?P = "\<lambda>j. s \<le> 256 * 4 ^ j"
  have p: "?P 6" using assms(2) by simp
  define j where "j = (LEAST j. ?P j)"
  have j: "?P j" "j \<le> 6" unfolding j_def using LeastI [of ?P, OF p] Least_le [of ?P, OF p] by simp_all
  have "64 * 4 ^ j < s"
  proof (cases j)
    case (Suc i)
    then have "\<not> ?P i" using not_less_Least [of i ?P] by (simp add: j_def)
    then show ?thesis using Suc by simp
  qed (use assms(1) in simp)
  then show ?thesis using j that [of j] by simp
qed

lemma bin_cases:
  assumes "b < 1532"
  obtains "b < 8" | j i where "j < 7" "i < 12 * 2 ^ j" "b = group_off j + i"
proof (cases "b < 8")
  case False
  let ?P = "\<lambda>j. b < group_off (Suc j)"
  have p: "?P 6" using assms by (simp add: group_off_def)
  define j where "j = (LEAST j. ?P j)"
  have j: "?P j" "j \<le> 6" unfolding j_def using LeastI [of ?P, OF p] Least_le [of ?P, OF p] by simp_all
  have g: "group_off j \<le> b"
  proof (cases j)
    case (Suc i)
    then have "\<not> ?P i" using not_less_Least [of i ?P] by (simp add: j_def)
    then show ?thesis using Suc by simp
  qed (use False in \<open>simp add: group_off_def\<close>)
  have "(1 :: nat) \<le> 2 ^ j" by simp
  then have "b - group_off j < 12 * 2 ^ j" using j(1) g by (simp add: group_off_def)
  then show ?thesis using that(2) [of j "b - group_off j"] g j(2) by simp
qed (use that in blast)

lemma bin2size_step:
  assumes "Suc b < 1532"
  shows "bin2size ! b < bin2size ! Suc b"
proof -
  have "b < 1532" using assms by simp
  then show ?thesis
  proof (cases rule: bin_cases)
    case 1
    then consider "Suc b < 8" | "Suc b = group_off 0 + 0" by (fastforce simp: group_off_def)
    then show ?thesis
    proof cases
      case 1
      then show ?thesis by (simp add: nth_bin2size_small)
    next
      case 2
      then have "bin2size ! Suc b = group_size 0 0" using nth_bin2size_group [of 0 0] by simp
      then show ?thesis using 1 nth_bin2size_small [of b] by (simp add: group_size_def)
    qed
  next
    case (2 j i)
    have b: "bin2size ! b = group_size j i" using 2 nth_bin2size_group by simp
    show ?thesis
    proof (cases "Suc i < 12 * 2 ^ j")
      case True
      then have "bin2size ! Suc b = group_size j (Suc i)" using 2 nth_bin2size_group [of j "Suc i"] by simp
      then show ?thesis using b by (simp add: group_size_def)
    next
      case False
      then have i: "Suc i = 12 * 2 ^ j" using 2 by simp
      have "(1 :: nat) \<le> 2 ^ j" by simp
      then have "4 \<le> 12 * (2 :: nat) ^ j" by linarith
      then have e: "Suc b = group_off (Suc j) + 0" using 2(3) i unfolding group_off_def power_Suc by linarith
      have "Suc j < 7"
      proof (rule ccontr)
        assume "\<not> Suc j < 7"
        then have "j = 6" using 2 by simp
        then show False using assms e by (simp add: group_off_def)
      qed
      then have "bin2size ! Suc b = group_size (Suc j) 0" using e nth_bin2size_group [of "Suc j" 0] by simp
      moreover have "(4 :: nat) ^ j = 2 ^ j * 2 ^ j" by (simp flip: power_mult_distrib)
      ultimately show ?thesis using b i by (simp add: group_size_def)
    qed
  qed
qed

lemma bin2size_mono:
  assumes "b < c" and "c < 1532"
  shows "bin2size ! b < bin2size ! c"
  using assms
proof (induction c)
  case (Suc c)
  then show ?case using bin2size_step [of c] by (cases "b = c") auto
qed simp

lemma bin2size_mono_le: "b \<le> c \<Longrightarrow> c < 1532 \<Longrightarrow> bin2size ! b \<le> bin2size ! c"
  using bin2size_mono [of b c] by (cases "b = c") auto

lemma SIZE2BIN_bounds:
  assumes "0 < s" and "s \<le> 1048576"
  obtains b where "KL_SIZE2BIN s = Some b" "b < 1532" "s \<le> bin2size ! b" "0 < b \<Longrightarrow> bin2size ! (b - 1) < s"
proof (cases "s \<le> 64")
  case True
  let ?b = "(s - 1) div 8"
  have b: "?b < 8" using True by simp
  show ?thesis
  proof (rule that [of ?b])
    show "KL_SIZE2BIN s = Some ?b" using SIZE2BIN_small True assms(1) by simp
    show "?b < 1532" using b by simp
    show "s \<le> bin2size ! ?b" using nth_bin2size_small [OF b] assms(1) by presburger
    show "bin2size ! (?b - 1) < s" if "0 < ?b"
      using nth_bin2size_small [of "?b - 1"] b that by simp
  qed
next
  case False
  then have "64 < s" by simp
  then obtain j where j: "j < 7" "64 * 4 ^ j < s" "s \<le> 256 * 4 ^ j" using assms(2) by (rule group_range)
  define d where "d = s - 64 * 4 ^ j - 1"
  define t :: nat where "t = 16 * 2 ^ j"
  let ?i = "d div t"
  have t: "0 < t" by (simp add: t_def)
  have s: "s = 64 * 4 ^ j + Suc d" using j(2) by (simp add: d_def)
  have "(4 :: nat) ^ j = 2 ^ j * 2 ^ j" by (simp flip: power_mult_distrib)
  then have "d < 12 * 2 ^ j * t" using j(3) by (simp add: s t_def)
  then have i: "?i < 12 * 2 ^ j" by (simp add: less_mult_imp_div_less)
  have n: "bin2size ! (group_off j + ?i) = 64 * 4 ^ j + t * Suc ?i"
    using nth_bin2size_group [OF j(1) i] by (simp add: group_size_def t_def)
  have "t * ?i + d mod t = d" "d mod t < t" using t by (simp_all add: mult_div_mod_eq)
  then have dm: "Suc d \<le> t * Suc ?i" "t * ?i \<le> d" unfolding mult_Suc_right by linarith+
  have "(1 :: nat) \<le> 2 ^ j" by simp
  then have off: "8 \<le> group_off j" "group_off j + 12 * 2 ^ j = group_off (Suc j)"
    unfolding group_off_def power_Suc by linarith+
  have "(2 :: nat) ^ Suc j \<le> 2 ^ 7" using j(1) by (intro power_increasing) auto
  then have up: "group_off (Suc j) \<le> 1532" by (simp add: group_off_def)
  show ?thesis
  proof (rule that [of "group_off j + ?i"])
    show "KL_SIZE2BIN s = Some (group_off j + ?i)" using SIZE2BIN_group [OF j] by (simp add: d_def t_def)
    show l: "group_off j + ?i < 1532" using i off up by simp
    show "s \<le> bin2size ! (group_off j + ?i)" unfolding n s using dm(1) by linarith
    show "bin2size ! (group_off j + ?i - 1) < s"
    proof (cases "?i = 0")
      case False
      then have "bin2size ! (group_off j + ?i - 1) = 64 * 4 ^ j + t * ?i"
        using nth_bin2size_group [OF j(1), of "?i - 1"] i by (simp add: group_size_def t_def)
      then show ?thesis using dm(2) unfolding s by linarith
    next
      case True
      show ?thesis
      proof (cases j)
        case 0
        then show ?thesis using True nth_bin2size_small [of 7] j(2) by (simp add: group_off_def)
      next
        case (Suc k)
        have o: "group_off j - 1 = group_off k + (12 * 2 ^ k - 1)"
          using Suc one_le_power [of "2 :: nat" k] by (simp add: group_off_def)
        have "bin2size ! (group_off j - 1) = group_size k (12 * 2 ^ k - 1)"
          unfolding o using Suc j(1) by (intro nth_bin2size_group) auto
        moreover have "(4 :: nat) ^ k = 2 ^ k * 2 ^ k" by (simp flip: power_mult_distrib)
        ultimately show ?thesis using True Suc j(2) by (simp add: group_size_def)
      qed
    qed
  qed
qed

subsection \<open>Property\<close>

text \<open>C35: The size classes are right.  For every size up to the limit of the fixed classes
  \<open>KL_SIZE2BIN\<close> gives the smallest class whose size is at least the requested one: the
  computation with logarithms and the table \<open>bin2size\<close> agree on all 1048576 sizes.\<close>
theorem size_class_least:
  assumes "0 < s" and "s \<le> 1048576"
  shows "\<exists>b. KL_SIZE2BIN s = Some b \<and> KL_ISSMALLBIN b \<and> s \<le> bin2size ! b \<and> (\<forall>c < b. bin2size ! c < s)"
proof -
  obtain b where b: "KL_SIZE2BIN s = Some b" "b < 1532" "s \<le> bin2size ! b" "0 < b \<Longrightarrow> bin2size ! (b - 1) < s"
    using SIZE2BIN_bounds [OF assms] by metis
  have "bin2size ! c < s" if "c < b" for c
    using le_less_trans [OF bin2size_mono_le [of c "b - 1"] b(4)] b(2) that by simp
  then show ?thesis using b by (auto simp: KL_ISSMALLBIN_def)
qed

theorem size_class_least_witness:
  "\<exists>b. KL_SIZE2BIN 100 = Some b \<and> KL_ISSMALLBIN b \<and> 100 \<le> bin2size ! b \<and> (\<forall>c < b. bin2size ! c < 100)"
  by (rule size_class_least) simp_all

end
