(* ===== verification/Klmalloc.thy ===== *)
theory Klmalloc
  imports Kl_Sizes
begin

text \<open>
  The allocator \<open>klmalloc\<close> (\<open>src/klmalloc/klmalloc.c\<close>), which serves requests of any size from
  blocks that it obtains from \<open>sbma_malloc\<close>: its state, its memory and all its operations.

  The memory is a partial function \<open>heap\<close> from addresses to 64-bit words.  All accesses of the
  allocator are aligned words, so only multiples of 8 are addresses; an access outside the blocks
  that are mapped ends the program (\<open>None\<close>).  The memory is flat: that the pages behind it are
  loaded and evicted is invisible (theory \<open>Program\<close>).  The system allocator answers from
  the script \<open>answers\<close>: the address of the next block, or 0 for \<open>NULL\<close>; a new block is zeroed
  (theory \<open>Malloc\<close>).  What a block that has grown holds behind its old contents is given by
  \<open>junk\<close>.  Locks are not modelled: without \<open>USE_THREAD\<close> they are empty.
\<close>

subsection \<open>State\<close>

record kl_mem =
  kl_init :: nat
  enabled :: nat
  sys_ctr :: nat
  mem_total :: nat
  mem_max :: nat
  mem_brick_cur :: nat
  mem_brick_tot :: nat
  mem_chunk_cur :: nat
  mem_chunk_tot :: nat
  num_undes :: nat
  undes_bin :: "nat list"
  brick_bin :: "nat list"
  chunk_bin :: "nat list"
  heap :: "nat \<rightharpoonup> nat"
  blocks :: "nat \<rightharpoonup> nat"
  answers :: "nat list"
  junk :: "nat \<Rightarrow> nat"

definition M_ENABLED :: int where "M_ENABLED = 0"
definition M_NUMBER :: int where "M_NUMBER = 1"
definition M_ENABLED_ON :: nat where "M_ENABLED_ON = 2"
definition M_ENABLED_OFF :: nat where "M_ENABLED_OFF = 3"
definition M_ENABLED_PAUSE :: nat where "M_ENABLED_PAUSE = 4"

subsection \<open>Memory\<close>

definition rdw :: "kl_mem \<Rightarrow> nat \<Rightarrow> nat option" where
  "rdw m x = heap m x"

definition wrw :: "kl_mem \<Rightarrow> nat \<Rightarrow> nat \<Rightarrow> kl_mem option" where
  "wrw m x val = (case heap m x of None \<Rightarrow> None | Some _ \<Rightarrow> Some (m\<lparr>heap := (heap m)(x \<mapsto> val)\<rparr>))"

text \<open>\<open>memset\<close> with 0 over \<open>n\<close> bytes; of the last word only the lower bytes may be covered.\<close>

definition memzero :: "kl_mem \<Rightarrow> nat \<Rightarrow> nat \<Rightarrow> kl_mem option" where
  "memzero m p n = do {
     ASSERT (list_all (\<lambda>i. heap m (p + 8 * i) \<noteq> None) [0..<(n + 7) div 8]);
     Some (m\<lparr>heap := (\<lambda>x. if p \<le> x \<and> x < p + n
                         then map_option (\<lambda>v. if x + 8 \<le> p + n then 0
                                              else v div 2 ^ (8 * (p + n - x)) * 2 ^ (8 * (p + n - x))) (heap m x)
                         else heap m x)\<rparr>)
   }"

text \<open>\<open>memcpy\<close> of whole words.\<close>

definition memcpyw :: "kl_mem \<Rightarrow> nat \<Rightarrow> nat \<Rightarrow> nat \<Rightarrow> kl_mem option" where
  "memcpyw m d s n = do {
     ASSERT (list_all (\<lambda>i. heap m (d + 8 * i) \<noteq> None \<and> heap m (s + 8 * i) \<noteq> None) [0..<n div 8]);
     Some (m\<lparr>heap := (\<lambda>x. if d \<le> x \<and> x < d + n then heap m (s + (x - d)) else heap m x)\<rparr>)
   }"

subsection \<open>The system allocator\<close>

definition sys_alloc :: "kl_mem \<Rightarrow> nat \<Rightarrow> nat \<times> kl_mem" where
  "sys_alloc m n =
     (case answers m of
        [] \<Rightarrow> (0, m)
      | p # ps \<Rightarrow>
          if p = 0 then (0, m\<lparr>answers := ps\<rparr>)
          else (p, m\<lparr>answers := ps, blocks := (blocks m)(p \<mapsto> n),
                     heap := (\<lambda>x. if p \<le> x \<and> x < p + n \<and> 8 dvd x then Some 0 else heap m x)\<rparr>))"

definition sys_free :: "kl_mem \<Rightarrow> nat \<Rightarrow> kl_mem option" where
  "sys_free m p =
     (case blocks m p of
        None \<Rightarrow> None
      | Some n \<Rightarrow> Some (m\<lparr>blocks := (blocks m)(p := None),
                          heap := (\<lambda>x. if p \<le> x \<and> x < p + n then None else heap m x)\<rparr>))"

definition sys_realloc :: "kl_mem \<Rightarrow> nat \<Rightarrow> nat \<Rightarrow> (nat \<times> kl_mem) option" where
  "sys_realloc m p n =
     (case blocks m p of
        None \<Rightarrow> None
      | Some k \<Rightarrow>
          Some (case answers m of
              [] \<Rightarrow> (0, m)
            | q # qs \<Rightarrow>
                if q = 0 then (0, m\<lparr>answers := qs\<rparr>)
                else (q, m\<lparr>answers := qs, blocks := (blocks m)(p := None, q \<mapsto> n),
                           heap := (\<lambda>x. if q \<le> x \<and> x < q + n \<and> 8 dvd x
                                        then if x < q + k then heap m (p + (x - q)) else Some (junk m x)
                                        else if p \<le> x \<and> x < p + k then None else heap m x)\<rparr>)))"

text \<open>\<open>sbma_remap\<close>: the new block reads what the old one held, and zeros behind it; the
  old block is no longer readable.  The next answer of the script says whether it succeeds.\<close>

definition sys_remap :: "kl_mem \<Rightarrow> nat \<Rightarrow> nat \<Rightarrow> nat \<Rightarrow> (int \<times> kl_mem) option" where
  "sys_remap m nb ob n = do {
     k \<leftarrow> blocks m ob;
     l \<leftarrow> blocks m nb;
     if n = 0 then Some (-1, m)
     else do {
       ASSERT (k \<le> l);
       Some (case answers m of
           [] \<Rightarrow> (-1, m)
         | q # qs \<Rightarrow>
             if q = 0 then (-1, m\<lparr>answers := qs\<rparr>)
             else (0, m\<lparr>answers := qs,
                        heap := (\<lambda>x. if nb \<le> x \<and> x < nb + l \<and> 8 dvd x
                                     then if x < nb + k then heap m (ob + (x - nb)) else Some 0
                                     else if ob \<le> x \<and> x < ob + k then None else heap m x)\<rparr>))
     }
   }"

subsection \<open>Addresses of fields\<close>

definition BRICK_PTR :: "nat \<Rightarrow> nat" where "BRICK_PTR r = r + WORD"
definition BRICK_NEXT :: "nat \<Rightarrow> nat" where "BRICK_NEXT r = r + WORD"

definition CHUNK_PTR :: "nat \<Rightarrow> nat" where "CHUNK_PTR c = c + WORD"
definition CHUNK_PREV :: "nat \<Rightarrow> nat" where "CHUNK_PREV c = c + WORD"
definition CHUNK_NEXT :: "nat \<Rightarrow> nat" where "CHUNK_NEXT c = c + 2 * WORD"

definition CHUNK_FTR :: "kl_mem \<Rightarrow> nat \<Rightarrow> nat option" where
  "CHUNK_FTR m c = do { h \<leftarrow> rdw m c; Some (subw (addw c h) WORD) }"

definition BLOCK_HDR :: "nat \<Rightarrow> nat" where "BLOCK_HDR b = b + BLOCK_HEADER_ALIGN - WORD"
definition BLOCK_FTR :: "nat \<Rightarrow> nat \<Rightarrow> nat" where "BLOCK_FTR b n = subw (subw (addw b n) WORD) (2 * WORD)"
definition BLOCK_PTR :: "nat \<Rightarrow> nat" where "BLOCK_PTR b = b + BLOCK_HEADER_ALIGN"
definition BLOCK_HEAD :: "nat \<Rightarrow> nat" where "BLOCK_HEAD b = b + BLOCK_HEADER_ALIGN + FIXED_MAX_SIZE"
definition BLOCK_PREV :: "nat \<Rightarrow> nat" where "BLOCK_PREV b = b + BLOCK_HEADER_ALIGN + FIXED_MAX_SIZE + WORD"
definition BLOCK_NEXT :: "nat \<Rightarrow> nat" where "BLOCK_NEXT b = b + BLOCK_HEADER_ALIGN + FIXED_MAX_SIZE + 2 * WORD"

subsection \<open>Reading allocations and blocks\<close>

definition KL_TYPEOF :: "kl_mem \<Rightarrow> nat \<Rightarrow> nat option" where
  "KL_TYPEOF m x = do { ASSERT (KL_ISALIGNED (x + WORD)); h \<leftarrow> rdw m x; Some (h AND KL_BRICK) }"

definition KL_G_COUNT :: "kl_mem \<Rightarrow> nat \<Rightarrow> nat option" where
  "KL_G_COUNT m b = do { ASSERT (KL_ISALIGNED b); h \<leftarrow> rdw m (BLOCK_HDR b); Some (h AND BLOCK_COUNT_MASK) }"

definition KL_G_BIDX :: "kl_mem \<Rightarrow> nat \<Rightarrow> nat option" where
  "KL_G_BIDX m b = do {
     ASSERT (KL_ISALIGNED b);
     h \<leftarrow> rdw m (BLOCK_HDR b);
     Some (drop_bit BLOCK_BIDX_SHIFT (h AND BLOCK_BIDX_MASK))
   }"

definition KL_G_BLOCK :: "kl_mem \<Rightarrow> nat \<Rightarrow> nat option" where
  "KL_G_BLOCK m x = do {
     ASSERT (KL_ISALIGNED (x + WORD));
     t \<leftarrow> KL_TYPEOF m x;
     p \<leftarrow> (if t = KL_BRICK then do { h \<leftarrow> rdw m x; Some (h AND (SIZE_MAX - KL_BRICK)) }
          else Some (subw x BLOCK_HEADER_ALIGN));
     ASSERT (KL_ISALIGNED p);
     Some p
   }"

definition KL_G_SIZE :: "kl_mem \<Rightarrow> nat \<Rightarrow> nat option" where
  "KL_G_SIZE m x = do {
     ASSERT (KL_ISALIGNED (x + WORD));
     t \<leftarrow> KL_TYPEOF m x;
     if t = KL_BRICK then do {
       b \<leftarrow> KL_G_BLOCK m x;
       i \<leftarrow> KL_G_BIDX m b;
       Some (mulw (addw i 1) MEMORY_ALLOCATION_ALIGNMENT)
     }
     else rdw m x
   }"

definition KL_G_ALLOC :: "nat \<Rightarrow> nat option" where
  "KL_G_ALLOC p = do { ASSERT (KL_ISALIGNED p); Some (subw p WORD) }"

definition KL_G_NEXT :: "kl_mem \<Rightarrow> nat \<Rightarrow> nat option" where
  "KL_G_NEXT m x = do { ASSERT (KL_ISALIGNED (x + WORD)); s \<leftarrow> KL_G_SIZE m x; Some (addw x s) }"

definition KL_G_PREV :: "kl_mem \<Rightarrow> nat \<Rightarrow> nat option" where
  "KL_G_PREV m x = do {
     ASSERT (KL_ISALIGNED (x + WORD));
     t \<leftarrow> KL_TYPEOF m x;
     if t = KL_BRICK then do { s \<leftarrow> KL_G_SIZE m x; Some (subw x s) }
     else do { off \<leftarrow> rdw m (subw x WORD); Some (subw x off) }
   }"

definition KL_ISFULL :: "kl_mem \<Rightarrow> nat \<Rightarrow> bool option" where
  "KL_ISFULL m b = do { ASSERT (KL_ISALIGNED b); n \<leftarrow> KL_G_COUNT m b; Some (0 = n) }"

definition KL_ISEMPTY :: "kl_mem \<Rightarrow> nat \<Rightarrow> bool option" where
  "KL_ISEMPTY m b = do {
     ASSERT (KL_ISALIGNED b);
     n \<leftarrow> KL_G_COUNT m b;
     i \<leftarrow> KL_G_BIDX m b;
     Some (n = FIXED_MAX_SIZE div mulw (addw i 1) MEMORY_ALLOCATION_ALIGNMENT)
   }"

definition KL_ISFIRST :: "kl_mem \<Rightarrow> nat \<Rightarrow> bool option" where
  "KL_ISFIRST m c = do {
     ASSERT (KL_ISALIGNED (CHUNK_PTR c));
     f \<leftarrow> rdw m (subw c WORD);
     Some (BLOCK_HEADER_ALIGN = f)
   }"

definition KL_ISLAST :: "kl_mem \<Rightarrow> nat \<Rightarrow> bool option" where
  "KL_ISLAST m c = do {
     ASSERT (KL_ISALIGNED (CHUNK_PTR c));
     n \<leftarrow> KL_G_NEXT m c;
     s \<leftarrow> KL_G_SIZE m n;
     Some (BLOCK_HEADER_ALIGN = s)
   }"

definition KL_ISINUSE :: "kl_mem \<Rightarrow> nat \<Rightarrow> bool option" where
  "KL_ISINUSE m c = do {
     ASSERT (KL_ISALIGNED (CHUNK_PTR c));
     a \<leftarrow> CHUNK_FTR m c;
     f \<leftarrow> rdw m a;
     Some (0 = f)
   }"

subsection \<open>The environment\<close>

text \<open>The static state before initialisation, with the answers of the system.\<close>

definition kl_static :: "nat list \<Rightarrow> (nat \<Rightarrow> nat) \<Rightarrow> kl_mem" where
  "kl_static ps j =
     \<lparr>kl_init = 0, enabled = M_ENABLED_OFF, sys_ctr = 0, mem_total = 0, mem_max = 0, mem_brick_cur = 0,
      mem_brick_tot = 0, mem_chunk_cur = 0, mem_chunk_tot = 0, num_undes = 0,
      undes_bin = replicate UNDES_BIN_NUM 0, brick_bin = replicate BRICK_BIN_NUM 0,
      chunk_bin = replicate CHUNK_BIN_NUM 0, heap = Map.empty, blocks = Map.empty, answers = ps, junk = j\<rparr>"

definition kl_mem_init :: "kl_mem \<Rightarrow> int \<times> kl_mem" where
  "kl_mem_init m =
     (if kl_init m = 1 then (0, m)
      else (0, m\<lparr>kl_init := 1, sys_ctr := 0, mem_total := 0, mem_max := 0, num_undes := 0,
                 mem_brick_cur := 0, mem_brick_tot := 0, mem_chunk_cur := 0, mem_chunk_tot := 0,
                 undes_bin := replicate UNDES_BIN_NUM 0,
                 brick_bin := replicate BRICK_BIN_NUM 0,
                 chunk_bin := replicate CHUNK_BIN_NUM 0\<rparr>))"

fun mem_destroy_loop :: "nat \<Rightarrow> nat \<Rightarrow> kl_mem \<Rightarrow> kl_mem option" where
  "mem_destroy_loop 0 i m = Some m"
| "mem_destroy_loop (Suc k) i m = do {
     ASSERT (i < length (undes_bin m));
     m \<leftarrow> sys_free m (undes_bin m ! i);
     mem_destroy_loop k (Suc i) (m\<lparr>mem_total := subw (mem_total m) BLOCK_DEFAULT_SIZE\<rparr>)
   }"

definition kl_mem_destroy :: "kl_mem \<Rightarrow> kl_mem option" where
  "kl_mem_destroy m =
     (if kl_init m = 0 then Some m
      else do { m \<leftarrow> mem_destroy_loop (num_undes m) 0 m; Some (m\<lparr>kl_init := 0\<rparr>) })"

subsection \<open>Blocks\<close>

definition kl_block_alloc :: "kl_mem \<Rightarrow> nat \<Rightarrow> nat \<times> kl_mem" where
  "kl_block_alloc m n =
     (case sys_alloc m n of (b, m) \<Rightarrow>
        if b = 0 then (0, m)
        else let t = addw (mem_total m) n in
             (b, m\<lparr>mem_total := t, mem_max := (if t > mem_max m then t else mem_max m),
                   sys_ctr := addw (sys_ctr m) 1\<rparr>))"

definition kl_block_realloc :: "kl_mem \<Rightarrow> nat \<Rightarrow> nat \<Rightarrow> nat \<Rightarrow> (nat \<times> kl_mem) option" where
  "kl_block_realloc m ob osize nsize = do {
     (b, m) \<leftarrow> sys_realloc m ob nsize;
     if b = 0 then Some (0, m)
     else let t = addw (mem_total m) (subw nsize osize) in
          Some (b, m\<lparr>mem_total := t, mem_max := (if t > mem_max m then t else mem_max m),
                     sys_ctr := addw (sys_ctr m) 1\<rparr>)
   }"

text \<open>The doubly linked lists of blocks and of chunks are changed in the same ways;
  \<open>pf\<close> and \<open>nf\<close> give the addresses of the fields of a node, \<open>h\<close> is the head of the list.\<close>

definition list_unlink ::
  "(nat \<Rightarrow> nat) \<Rightarrow> (nat \<Rightarrow> nat) \<Rightarrow> nat \<Rightarrow> nat \<Rightarrow> kl_mem \<Rightarrow> (nat \<times> kl_mem) option" where
  "list_unlink pf nf x h m = do {
     p \<leftarrow> rdw m (pf x);
     n \<leftarrow> rdw m (nf x);
     (h, m) \<leftarrow> (if p = 0 then Some (n, m) else do { m \<leftarrow> wrw m (nf p) n; Some (h, m) });
     n \<leftarrow> rdw m (nf x);
     m \<leftarrow> (if n \<noteq> 0 then do { p \<leftarrow> rdw m (pf x); wrw m (pf n) p } else Some m);
     Some (h, m)
   }"

definition list_push ::
  "(nat \<Rightarrow> nat) \<Rightarrow> (nat \<Rightarrow> nat) \<Rightarrow> nat \<Rightarrow> nat \<Rightarrow> kl_mem \<Rightarrow> kl_mem option" where
  "list_push pf nf x h m = do {
     m \<leftarrow> wrw m (pf x) 0;
     m \<leftarrow> wrw m (nf x) h;
     if h \<noteq> 0 then wrw m (pf h) x else Some m
   }"

subsection \<open>Bricks\<close>

definition brick_release :: "kl_mem \<Rightarrow> nat \<Rightarrow> nat \<Rightarrow> kl_mem option" where
  "brick_release m b bidx = do {
     ASSERT (bidx < length (brick_bin m));
     (h, m) \<leftarrow> list_unlink BLOCK_PREV BLOCK_NEXT b (brick_bin m ! bidx) m;
     m \<leftarrow> Some (m\<lparr>brick_bin := (brick_bin m)[bidx := h]\<rparr>);
     if num_undes m < UNDES_BIN_NUM then do {
       m \<leftarrow> wrw m (BLOCK_HDR b) 0;
       m \<leftarrow> wrw m (BLOCK_PREV b) 0;
       m \<leftarrow> wrw m (BLOCK_NEXT b) 0;
       m \<leftarrow> wrw m (BLOCK_HEAD b) 0;
       Some (m\<lparr>undes_bin := (undes_bin m)[num_undes m := b], num_undes := num_undes m + 1\<rparr>)
     }
     else do {
       m \<leftarrow> sys_free m b;
       Some (m\<lparr>mem_total := subw (mem_total m) BLOCK_DEFAULT_SIZE\<rparr>)
     }
   }"

definition kl_brick_put :: "kl_mem \<Rightarrow> nat \<Rightarrow> (int \<times> kl_mem) option" where
  "kl_brick_put m r = do {
     b \<leftarrow> KL_G_BLOCK m r;
     bidx \<leftarrow> KL_G_BIDX m b;
     h \<leftarrow> rdw m (BLOCK_HDR b);
     m \<leftarrow> wrw m (BLOCK_HDR b) (addw h 1);
     e \<leftarrow> KL_ISEMPTY m b;
     if e then do { m \<leftarrow> brick_release m b bidx; Some (0, m) }
     else do {
       h \<leftarrow> rdw m (BLOCK_HEAD b);
       m \<leftarrow> wrw m (BRICK_NEXT r) h;
       m \<leftarrow> wrw m (BLOCK_HEAD b) r;
       p \<leftarrow> rdw m (BLOCK_PREV b);
       n \<leftarrow> rdw m (BLOCK_NEXT b);
       ASSERT (bidx < length (brick_bin m));
       if p = 0 \<and> n = 0 \<and> b \<noteq> brick_bin m ! bidx then do {
         m \<leftarrow> list_push BLOCK_PREV BLOCK_NEXT b (brick_bin m ! bidx) m;
         Some (0, m\<lparr>brick_bin := (brick_bin m)[bidx := b]\<rparr>)
       }
       else Some (0, m)
     }
   }"

text \<open>An undesignated block, or a new one, or \<open>NULL\<close>.\<close>

definition designate :: "kl_mem \<Rightarrow> (nat \<times> kl_mem) option" where
  "designate m =
     (if num_undes m \<noteq> 0 then do {
        ASSERT (num_undes m \<le> length (undes_bin m));
        Some (undes_bin m ! (num_undes m - 1), m\<lparr>num_undes := num_undes m - 1\<rparr>)
      }
      else Some (kl_block_alloc m BLOCK_DEFAULT_SIZE))"

definition brick_block_init :: "kl_mem \<Rightarrow> nat \<Rightarrow> nat \<Rightarrow> kl_mem option" where
  "brick_block_init m b bidx = do {
     m \<leftarrow> wrw m (BLOCK_HDR b) (push_bit BLOCK_BIDX_SHIFT bidx mod SIZE_MOD);
     h \<leftarrow> rdw m (BLOCK_HDR b);
     m \<leftarrow> wrw m (BLOCK_HDR b) (h OR (FIXED_MAX_SIZE div mulw (addw bidx 1) MEMORY_ALLOCATION_ALIGNMENT));
     m \<leftarrow> list_push BLOCK_PREV BLOCK_NEXT b (brick_bin m ! bidx) m;
     m \<leftarrow> Some (m\<lparr>brick_bin := (brick_bin m)[bidx := b]\<rparr>);
     m \<leftarrow> wrw m (BLOCK_HEAD b) (BLOCK_PTR b);
     r \<leftarrow> rdw m (BLOCK_HEAD b);
     wrw m r 0
   }"

text \<open>Counting a brick; a block that is full then leaves its bin.\<close>

definition brick_uncount :: "kl_mem \<Rightarrow> nat \<Rightarrow> nat \<Rightarrow> kl_mem option" where
  "brick_uncount m b bidx = do {
     h \<leftarrow> rdw m (BLOCK_HDR b);
     m \<leftarrow> wrw m (BLOCK_HDR b) (subw h 1);
     full \<leftarrow> KL_ISFULL m b;
     if full then do {
       (hd, m) \<leftarrow> list_unlink BLOCK_PREV BLOCK_NEXT b (brick_bin m ! bidx) m;
       m \<leftarrow> Some (m\<lparr>brick_bin := (brick_bin m)[bidx := hd]\<rparr>);
       m \<leftarrow> wrw m (BLOCK_PREV b) 0;
       wrw m (BLOCK_NEXT b) 0
     }
     else Some m
   }"

text \<open>Taking the first free brick; one that was never used has no header yet.\<close>

definition brick_head :: "kl_mem \<Rightarrow> nat \<Rightarrow> (nat \<times> kl_mem) option" where
  "brick_head m b = do {
     r \<leftarrow> rdw m (BLOCK_HEAD b);
     h \<leftarrow> rdw m r;
     m \<leftarrow> (if h = 0 then do {
         m \<leftarrow> wrw m r (b OR KL_BRICK);
         full \<leftarrow> KL_ISFULL m b;
         if \<not> full then do {
           n \<leftarrow> KL_G_NEXT m r;
           m \<leftarrow> wrw m (BRICK_NEXT r) n;
           n \<leftarrow> rdw m (BRICK_NEXT r);
           wrw m n 0
         }
         else Some m
       }
       else Some m);
     n \<leftarrow> rdw m (BRICK_NEXT r);
     m \<leftarrow> wrw m (BLOCK_HEAD b) n;
     m \<leftarrow> wrw m (BRICK_NEXT r) 0;
     Some (r, m)
   }"

definition brick_take :: "kl_mem \<Rightarrow> nat \<Rightarrow> nat \<Rightarrow> (nat \<times> kl_mem) option" where
  "brick_take m b bidx = do { m \<leftarrow> brick_uncount m b bidx; brick_head m b }"

definition kl_brick_get :: "kl_mem \<Rightarrow> nat \<Rightarrow> (nat \<times> kl_mem) option" where
  "kl_brick_get m n =
     (if n > BRICK_MAX_SIZE then Some (0, m)
      else do {
        bidx \<leftarrow> Some (KL_G_BRICKBIN n);
        ASSERT (bidx < length (brick_bin m));
        b \<leftarrow> Some (brick_bin m ! bidx);
        h \<leftarrow> (if b = 0 then Some 0 else rdw m (BLOCK_HEAD b));
        if h = 0 then do {
          (b, m) \<leftarrow> designate m;
          if b = 0 then Some (0, m)
          else do { m \<leftarrow> brick_block_init m b bidx; brick_take m b bidx }
        }
        else brick_take m b bidx
      })"

subsection \<open>Chunks\<close>

definition kl_chunk_del :: "kl_mem \<Rightarrow> nat \<Rightarrow> (int \<times> kl_mem) option" where
  "kl_chunk_del m c = do {
     s \<leftarrow> KL_G_SIZE m c;
     ASSERT (s \<ge> CHUNK_MIN_SIZE);
     bidx \<leftarrow> KL_SIZE2BIN s;
     h \<leftarrow> rdw m c;
     l \<leftarrow> KL_BIN2SIZE bidx;
     bidx \<leftarrow> Some (if h < l \<and> bidx > 0 then bidx - 1 else bidx);
     ASSERT (bidx < length (chunk_bin m));
     (hd, m) \<leftarrow> list_unlink CHUNK_PREV CHUNK_NEXT c (chunk_bin m ! bidx) m;
     m \<leftarrow> Some (m\<lparr>chunk_bin := (chunk_bin m)[bidx := hd]\<rparr>);
     m \<leftarrow> wrw m (CHUNK_PREV c) 0;
     m \<leftarrow> wrw m (CHUNK_NEXT c) 0;
     Some (0, m)
   }"

text \<open>Merging with the chunk before; the result is the chunk to go on with.\<close>

definition merge_prev :: "kl_mem \<Rightarrow> nat \<Rightarrow> (int \<times> nat \<times> kl_mem) option" where
  "merge_prev m c = do {
     first \<leftarrow> KL_ISFIRST m c;
     if first then Some (0, c, m)
     else do {
       p \<leftarrow> KL_G_PREV m c;
       u \<leftarrow> (if p \<noteq> c then KL_ISINUSE m p else Some True);
       if \<not> u then do {
         (ret, m) \<leftarrow> kl_chunk_del m p;
         if ret \<noteq> 0 then Some (-1, c, m)
         else do {
           hp \<leftarrow> rdw m p;
           hc \<leftarrow> rdw m c;
           m \<leftarrow> wrw m p (addw hp hc);
           Some (0, p, m)
         }
       }
       else Some (0, c, m)
     }
   }"

definition merge_next :: "kl_mem \<Rightarrow> nat \<Rightarrow> (int \<times> kl_mem) option" where
  "merge_next m c = do {
     last \<leftarrow> KL_ISLAST m c;
     if last then Some (0, m)
     else do {
       n \<leftarrow> KL_G_NEXT m c;
       u \<leftarrow> KL_ISINUSE m n;
       if \<not> u then do {
         (ret, m) \<leftarrow> kl_chunk_del m n;
         if ret \<noteq> 0 then Some (-1, m)
         else do {
           hc \<leftarrow> rdw m c;
           hn \<leftarrow> rdw m n;
           m \<leftarrow> wrw m c (addw hc hn);
           Some (0, m)
         }
       }
       else Some (0, m)
     }
   }"

definition chunk_release :: "kl_mem \<Rightarrow> nat \<Rightarrow> kl_mem option" where
  "chunk_release m c = do {
     b \<leftarrow> KL_G_PREV m c;
     s \<leftarrow> KL_G_SIZE m c;
     if num_undes m < UNDES_BIN_NUM \<and> BLOCK_DEFAULT_SIZE = KL_BLOCK_SIZE s then do {
       m \<leftarrow> memzero m b BLOCK_DEFAULT_SIZE;
       Some (m\<lparr>undes_bin := (undes_bin m)[num_undes m := b], num_undes := num_undes m + 1\<rparr>)
     }
     else sys_free (m\<lparr>mem_total := subw (mem_total m) (KL_BLOCK_SIZE s)\<rparr>) b
   }"

definition chunk_file :: "kl_mem \<Rightarrow> nat \<Rightarrow> kl_mem option" where
  "chunk_file m c = do {
     h \<leftarrow> rdw m c;
     f \<leftarrow> CHUNK_FTR m c;
     m \<leftarrow> wrw m f h;
     s \<leftarrow> KL_G_SIZE m c;
     bidx \<leftarrow> KL_SIZE2BIN s;
     if KL_ISSMALLBIN bidx then do {
       l \<leftarrow> KL_BIN2SIZE bidx;
       bidx \<leftarrow> Some (if s < l \<and> bidx > 0 then bidx - 1 else bidx);
       l \<leftarrow> KL_BIN2SIZE bidx;
       ASSERT (s \<ge> l);
       ASSERT (bidx < length (chunk_bin m));
       m \<leftarrow> list_push CHUNK_PREV CHUNK_NEXT c (chunk_bin m ! bidx) m;
       Some (m\<lparr>chunk_bin := (chunk_bin m)[bidx := c]\<rparr>)
     }
     else Some m
   }"

definition kl_chunk_put :: "kl_mem \<Rightarrow> nat \<Rightarrow> (int \<times> kl_mem) option" where
  "kl_chunk_put m c = do {
     s \<leftarrow> KL_G_SIZE m c;
     ASSERT (s \<ge> CHUNK_MIN_SIZE);
     (ret, c, m) \<leftarrow> merge_prev m c;
     if ret \<noteq> 0 then Some (-1, m)
     else do {
       (ret, m) \<leftarrow> merge_next m c;
       if ret \<noteq> 0 then Some (-1, m)
       else do {
         s \<leftarrow> KL_G_SIZE m c;
         ASSERT (s \<ge> CHUNK_MIN_SIZE);
         first \<leftarrow> KL_ISFIRST m c;
         last \<leftarrow> (if first then KL_ISLAST m c else Some False);
         m \<leftarrow> (if last then chunk_release m c else chunk_file m c);
         Some (0, m)
       }
     }
   }"

text \<open>The search for the first bin that is not empty, in the \<open>k\<close> small bins that are left.\<close>

fun bin_search :: "kl_mem \<Rightarrow> nat \<Rightarrow> nat \<Rightarrow> nat \<times> nat" where
  "bin_search m 0 b = (chunk_bin m ! b, b)"
| "bin_search m (Suc k) b = (if chunk_bin m ! b = 0 then bin_search m k (Suc b) else (chunk_bin m ! b, b))"

text \<open>Taking the first chunk \<open>c\<close> of bin \<open>i\<close>.\<close>

definition bin_pop :: "kl_mem \<Rightarrow> nat \<Rightarrow> nat \<Rightarrow> kl_mem option" where
  "bin_pop m c i = do {
     x \<leftarrow> rdw m (CHUNK_NEXT c);
     m \<leftarrow> Some (m\<lparr>chunk_bin := (chunk_bin m)[i := x]\<rparr>);
     m \<leftarrow> (if x \<noteq> 0 then wrw m (CHUNK_PREV x) 0 else Some m);
     wrw m (CHUNK_NEXT c) 0
   }"

definition chunk_block_init :: "kl_mem \<Rightarrow> nat \<Rightarrow> (nat \<times> kl_mem) option" where
  "chunk_block_init m b = do {
     m \<leftarrow> wrw m (BLOCK_HDR b) BLOCK_HEADER_ALIGN;
     h \<leftarrow> rdw m (BLOCK_HDR b);
     m \<leftarrow> wrw m (BLOCK_FTR b BLOCK_DEFAULT_SIZE) h;
     c \<leftarrow> Some (BLOCK_PTR b);
     m \<leftarrow> wrw m c FIXED_MAX_SIZE;
     f \<leftarrow> CHUNK_FTR m c;
     h \<leftarrow> rdw m c;
     m \<leftarrow> wrw m f h;
     Some (c, m)
   }"

definition chunk_split :: "kl_mem \<Rightarrow> nat \<Rightarrow> nat \<Rightarrow> (nat \<times> kl_mem) option" where
  "chunk_split m c n = do {
     h \<leftarrow> rdw m c;
     if h > CHUNK_MIN_SIZE \<and> KL_CHUNK_SIZE n \<le> h - CHUNK_MIN_SIZE then do {
       m \<leftarrow> wrw m c (KL_CHUNK_SIZE n);
       f \<leftarrow> CHUNK_FTR m c;
       m \<leftarrow> wrw m f 0;
       x \<leftarrow> KL_G_NEXT m c;
       hc \<leftarrow> rdw m c;
       m \<leftarrow> wrw m x (subw h hc);
       f \<leftarrow> CHUNK_FTR m x;
       hx \<leftarrow> rdw m x;
       m \<leftarrow> wrw m f hx;
       m \<leftarrow> wrw m (CHUNK_PREV x) 0;
       m \<leftarrow> wrw m (CHUNK_NEXT x) 0;
       (ret, m) \<leftarrow> kl_chunk_put m x;
       if ret \<noteq> 0 then Some (0, m) else Some (c, m)
     }
     else do { f \<leftarrow> CHUNK_FTR m c; m \<leftarrow> wrw m f 0; Some (c, m) }
   }"

definition kl_chunk_get :: "kl_mem \<Rightarrow> nat \<Rightarrow> (nat \<times> kl_mem) option" where
  "kl_chunk_get m n =
     (if KL_CHUNK_SIZE n > FIXED_MAX_SIZE then Some (0, m)
      else do {
        bidx \<leftarrow> KL_SIZE2BIN (KL_CHUNK_SIZE n);
        if KL_ISSMALLBIN bidx then do {
          ASSERT (1532 < length (chunk_bin m));
          (c, bidx) \<leftarrow> Some (bin_search m (1532 - bidx) bidx);
          if c \<noteq> 0 then do {
            m \<leftarrow> bin_pop m c bidx;
            chunk_split m c n
          }
          else do {
            (b, m) \<leftarrow> designate m;
            if b = 0 then Some (0, m)
            else do { (c, m) \<leftarrow> chunk_block_init m b; chunk_split m c n }
          }
        }
        else Some (0, m)
      })"

definition kl_chunk_hdr :: "kl_mem \<Rightarrow> nat \<Rightarrow> nat \<Rightarrow> (nat \<times> kl_mem) option" where
  "kl_chunk_hdr m b n = do {
     bs \<leftarrow> Some (KL_BLOCK_SIZE (KL_CHUNK_SIZE n));
     ASSERT (bs > BLOCK_DEFAULT_SIZE);
     m \<leftarrow> wrw m (BLOCK_HDR b) BLOCK_HEADER_ALIGN;
     h \<leftarrow> rdw m (BLOCK_HDR b);
     m \<leftarrow> wrw m (BLOCK_FTR b bs) h;
     c \<leftarrow> Some (BLOCK_PTR b);
     m \<leftarrow> wrw m c (KL_CHUNK_SIZE n);
     f \<leftarrow> CHUNK_FTR m c;
     m \<leftarrow> wrw m f 0;
     s \<leftarrow> KL_G_SIZE m c;
     ASSERT (bs = KL_BLOCK_SIZE s);
     Some (c, m)
   }"

definition kl_chunk_solo :: "kl_mem \<Rightarrow> nat \<Rightarrow> (nat \<times> kl_mem) option" where
  "kl_chunk_solo m n = do {
     bs \<leftarrow> Some (KL_BLOCK_SIZE (KL_CHUNK_SIZE n));
     ASSERT (bs > BLOCK_DEFAULT_SIZE);
     (b, m) \<leftarrow> Some (kl_block_alloc m bs);
     if b = 0 then Some (0, m) else kl_chunk_hdr m b n
   }"

subsection \<open>The interface\<close>

text \<open>The functions of the C library that serve requests while the allocator is disabled are
  parameters.\<close>

definition malloc_checked :: "kl_mem \<Rightarrow> nat \<Rightarrow> (nat \<times> kl_mem) option" where
  "malloc_checked m p = do {
     ASSERT (KL_ISALIGNED p);
     x \<leftarrow> KL_G_ALLOC p;
     s \<leftarrow> KL_G_SIZE m x;
     ASSERT (0 \<noteq> s);
     Some (p, m)
   }"

definition KL_malloc ::
  "(kl_mem \<Rightarrow> nat \<Rightarrow> (nat \<times> kl_mem) option) \<Rightarrow> kl_mem \<Rightarrow> nat \<Rightarrow> (nat \<times> kl_mem) option" where
  "KL_malloc libc_malloc m n =
     (if enabled m \<noteq> M_ENABLED_ON then libc_malloc m n
      else if n > ALLOC_MAX_SIZE then Some (0, m)
      else do {
        (r, m) \<leftarrow> kl_brick_get m n;
        if r \<noteq> 0 then do {
          ASSERT (n \<le> BRICK_MAX_SIZE);
          s \<leftarrow> KL_G_SIZE m r;
          ASSERT (KL_BRICK_SIZE n \<le> s);
          t \<leftarrow> KL_TYPEOF m r;
          ASSERT (KL_BRICK = t);
          malloc_checked m (BRICK_PTR r)
        }
        else do {
          (c, m) \<leftarrow> kl_chunk_get m n;
          if c \<noteq> 0 then do {
            ASSERT (n \<le> FIXED_MAX_SIZE);
            ASSERT (n \<le> CHUNK_MAX_SIZE);
            s \<leftarrow> KL_G_SIZE m c;
            ASSERT (KL_CHUNK_SIZE n \<le> s);
            t \<leftarrow> KL_TYPEOF m c;
            ASSERT (KL_CHUNK = t);
            malloc_checked m (CHUNK_PTR c)
          }
          else do {
            (c, m) \<leftarrow> kl_chunk_solo m n;
            if c \<noteq> 0 then do {
              ASSERT (n > FIXED_MAX_SIZE);
              ASSERT (n \<le> CHUNK_MAX_SIZE);
              s \<leftarrow> KL_G_SIZE m c;
              ASSERT (KL_CHUNK_SIZE n = s);
              t \<leftarrow> KL_TYPEOF m c;
              ASSERT (KL_CHUNK = t);
              malloc_checked m (CHUNK_PTR c)
            }
            else malloc_checked m 0
          }
        }
      })"

definition KL_calloc ::
  "(kl_mem \<Rightarrow> nat \<Rightarrow> (nat \<times> kl_mem) option) \<Rightarrow> (kl_mem \<Rightarrow> nat \<Rightarrow> nat \<Rightarrow> (nat \<times> kl_mem) option) \<Rightarrow>
     kl_mem \<Rightarrow> nat \<Rightarrow> nat \<Rightarrow> (nat \<times> kl_mem) option" where
  "KL_calloc libc_malloc libc_calloc m num n =
     (if enabled m \<noteq> M_ENABLED_ON then libc_calloc m num n
      else do {
        (p, m) \<leftarrow> KL_malloc libc_malloc m (mulw num n);
        if p = 0 then Some (0, m)
        else do {
          m \<leftarrow> memzero m p (mulw num n);
          x \<leftarrow> KL_G_ALLOC p;
          s \<leftarrow> KL_G_SIZE m x;
          ASSERT (0 \<noteq> s);
          Some (p, m)
        }
      })"

definition KL_free :: "(kl_mem \<Rightarrow> nat \<Rightarrow> kl_mem option) \<Rightarrow> kl_mem \<Rightarrow> nat \<Rightarrow> (int \<times> kl_mem) option" where
  "KL_free libc_free m p =
     (if enabled m \<noteq> M_ENABLED_ON then do { m \<leftarrow> libc_free m p; Some (0, m) }
      else do {
        x \<leftarrow> KL_G_ALLOC p;
        t \<leftarrow> KL_TYPEOF m x;
        (ret, m) \<leftarrow> (if t = KL_BRICK then kl_brick_put m x else kl_chunk_put m x);
        Some (0, m)
      })"

definition KL_brick_max_size :: nat where "KL_brick_max_size = BRICK_MAX_SIZE"

text \<open>The end of \<open>KL_realloc\<close>.\<close>

definition realloc_done :: "kl_mem \<Rightarrow> nat \<Rightarrow> nat \<Rightarrow> (nat \<times> kl_mem) option" where
  "realloc_done m p n = do {
     x \<leftarrow> KL_G_ALLOC p;
     t \<leftarrow> KL_TYPEOF m x;
     ASSERT (if n \<le> KL_brick_max_size then KL_BRICK = t else KL_CHUNK = t);
     s \<leftarrow> KL_G_SIZE m x;
     ASSERT (0 \<noteq> s);
     Some (p, m)
   }"

text \<open>From the label \<open>MALLOC\<close> on: a new allocation, to which the contents go.\<close>

definition realloc_copy ::
  "(kl_mem \<Rightarrow> nat \<Rightarrow> (nat \<times> kl_mem) option) \<Rightarrow> (kl_mem \<Rightarrow> nat \<Rightarrow> kl_mem option) \<Rightarrow>
     kl_mem \<Rightarrow> nat \<Rightarrow> nat \<Rightarrow> nat \<Rightarrow> (nat \<times> kl_mem) option" where
  "realloc_copy libc_malloc libc_free m p n osize = do {
     (q, m) \<leftarrow> KL_malloc libc_malloc m n;
     if q = 0 then Some (0, m)
     else do {
       y \<leftarrow> KL_G_ALLOC q;
       s \<leftarrow> KL_G_SIZE m y;
       ASSERT (osize \<le> s);
       x \<leftarrow> KL_G_ALLOC p;
       if osize > FIXED_MAX_SIZE then do {
         ob \<leftarrow> KL_G_PREV m x;
         os \<leftarrow> KL_G_SIZE m x;
         b \<leftarrow> KL_G_PREV m y;
         (ret, m) \<leftarrow> sys_remap m b ob osize;
         if ret = -1 then Some (0, m)
         else do {
           (c, m) \<leftarrow> kl_chunk_hdr m b n;
           if q \<noteq> CHUNK_PTR c then Some (0, m)
           else do {
             m \<leftarrow> sys_free (m\<lparr>mem_total := subw (mem_total m) (KL_BLOCK_SIZE os)\<rparr>) ob;
             realloc_done m q n
           }
         }
       }
       else do {
         m \<leftarrow> memcpyw m q p osize;
         (ret, m) \<leftarrow> KL_free libc_free m p;
         realloc_done m q n
       }
     }
   }"

definition KL_realloc ::
  "(kl_mem \<Rightarrow> nat \<Rightarrow> (nat \<times> kl_mem) option) \<Rightarrow> (kl_mem \<Rightarrow> nat \<Rightarrow> nat \<Rightarrow> (nat \<times> kl_mem) option) \<Rightarrow>
     (kl_mem \<Rightarrow> nat \<Rightarrow> kl_mem option) \<Rightarrow> kl_mem \<Rightarrow> nat \<Rightarrow> nat \<Rightarrow> (nat \<times> kl_mem) option" where
  "KL_realloc libc_malloc libc_realloc libc_free m p n =
     (if enabled m \<noteq> M_ENABLED_ON then libc_realloc m p n
      else do {
        c \<leftarrow> KL_G_ALLOC p;
        osize \<leftarrow> KL_G_SIZE m c;
        ASSERT (0 \<noteq> osize);
        if KL_BRICK_SIZE n \<le> osize then Some (p, m)
        else if KL_CHUNK_SIZE n \<le> osize then Some (p, m)
        else if osize > FIXED_MAX_SIZE then do {
          b \<leftarrow> KL_G_PREV m c;
          h \<leftarrow> rdw m (BLOCK_HDR b);
          ASSERT (BLOCK_HEADER_ALIGN = h);
          f \<leftarrow> rdw m (BLOCK_FTR b (KL_BLOCK_SIZE osize));
          ASSERT (BLOCK_HEADER_ALIGN = f);
          bs \<leftarrow> Some (KL_BLOCK_SIZE (KL_CHUNK_SIZE n));
          ASSERT (bs > BLOCK_DEFAULT_SIZE);
          (b, m) \<leftarrow> kl_block_realloc m b (KL_BLOCK_SIZE osize) bs;
          if b = 0 then realloc_copy libc_malloc libc_free m p n osize
          else do {
            (c, m) \<leftarrow> kl_chunk_hdr m b n;
            s \<leftarrow> KL_G_SIZE m c;
            ASSERT (KL_CHUNK_SIZE n = s);
            ASSERT (bs = KL_BLOCK_SIZE s);
            realloc_done m (CHUNK_PTR c) n
          }
        }
        else realloc_copy libc_malloc libc_free m p n osize
      })"

definition KL_mallopt :: "kl_mem \<Rightarrow> int \<Rightarrow> nat \<Rightarrow> (int \<times> kl_mem) option" where
  "KL_mallopt m param val =
     (if param \<ge> M_NUMBER then Some (0, m)
      else if param = M_ENABLED then
        if val = M_ENABLED_OFF then do { m \<leftarrow> kl_mem_destroy (m\<lparr>enabled := M_ENABLED_OFF\<rparr>); Some (1, m) }
        else if val = M_ENABLED_ON then Some (1, (snd (kl_mem_init m))\<lparr>enabled := M_ENABLED_ON\<rparr>)
        else if val = M_ENABLED_PAUSE then Some (1, m\<lparr>enabled := M_ENABLED_PAUSE\<rparr>)
        else Some (1, m)
      else Some (1, m))"

text \<open>The members of \<open>struct mallinfo\<close> are of type \<open>int\<close>.\<close>

record kl_info =
  kl_arena :: int
  kl_smblks :: int
  kl_ordblks :: int
  kl_hblks :: int
  kl_usmblks :: int
  kl_fsmblks :: int
  kl_uordblks :: int
  kl_fordblks :: int
  kl_hblkhd :: int
  kl_keepcost :: int

definition KL_mallinfo :: "kl_mem \<Rightarrow> kl_info" where
  "KL_mallinfo m =
     \<lparr>kl_arena = to_int (mem_max m), kl_smblks = 0, kl_ordblks = 0, kl_hblks = 0,
      kl_usmblks = to_int (mem_brick_cur m), kl_fsmblks = to_int (subw (mem_brick_tot m) (mem_brick_tot m)),
      kl_uordblks = to_int (mem_chunk_cur m), kl_fordblks = to_int (subw (mem_chunk_tot m) (mem_chunk_tot m)),
      kl_hblkhd = to_int (sys_ctr m), kl_keepcost = to_int (mulw (num_undes m) BLOCK_DEFAULT_SIZE)\<rparr>"

text \<open>\<open>sbma_vinit\<close> and \<open>sbma_destroy\<close> are those of theory \<open>Lifecycle\<close>; here only their result
  matters.\<close>

definition KL_init :: "int \<Rightarrow> kl_mem \<Rightarrow> (int \<times> kl_mem) option" where
  "KL_init sys_ret m =
     (if sys_ret = -1 then Some (-1, m)
      else do {
        (ret, m) \<leftarrow> KL_mallopt m M_ENABLED M_ENABLED_ON;
        Some (if ret = -1 then -1 else 0, m)
      })"

definition KL_destroy :: "int \<Rightarrow> kl_mem \<Rightarrow> (int \<times> kl_mem) option" where
  "KL_destroy sys_ret m = do {
     (ret, m) \<leftarrow> KL_mallopt m M_ENABLED M_ENABLED_OFF;
     Some (if ret = -1 then -1 else if sys_ret = -1 then -1 else 0, m)
   }"

subsection \<open>Doubly linked lists in memory\<close>

lemma field_addresses [simp]:
  "BRICK_PTR r = r + 8" "BRICK_NEXT r = r + 8" "CHUNK_PTR c = c + 8" "CHUNK_PREV c = c + 8" "CHUNK_NEXT c = c + 16"
  "BLOCK_HDR b = b" "BLOCK_PTR b = b + 8" "BLOCK_HEAD b = b + 262120" "BLOCK_PREV b = b + 262128"
  "BLOCK_NEXT b = b + 262136"
  by (simp_all add: BRICK_PTR_def BRICK_NEXT_def CHUNK_PTR_def CHUNK_PREV_def CHUNK_NEXT_def BLOCK_HDR_def
      BLOCK_PTR_def BLOCK_HEAD_def BLOCK_PREV_def BLOCK_NEXT_def kl_consts)

lemma BLOCK_FTR_eq: "b + n < SIZE_MOD \<Longrightarrow> 24 \<le> n \<Longrightarrow> BLOCK_FTR b n = b + n - 24"
  by (simp add: BLOCK_FTR_def addw_exact subw_exact)

lemma wrw_mapped: "heap m x = Some y \<Longrightarrow> wrw m x z = Some (m\<lparr>heap := (heap m)(x \<mapsto> z)\<rparr>)"
  by (simp add: wrw_def)

lemma wrw_mapped': "heap m x \<noteq> None \<Longrightarrow> wrw m x z = Some (m\<lparr>heap := (heap m)(x \<mapsto> z)\<rparr>)"
  by (auto simp: wrw_def)

definition hd0 :: "nat list \<Rightarrow> nat" where
  "hd0 xs = (case xs of [] \<Rightarrow> 0 | x # _ \<Rightarrow> x)"

lemma hd0_simps [simp]: "hd0 [] = 0" "hd0 (x # xs) = x"
  by (simp_all add: hd0_def)

text \<open>The nodes \<open>xs\<close> form a list behind the node \<open>p\<close>.\<close>

fun dll :: "(nat \<rightharpoonup> nat) \<Rightarrow> (nat \<Rightarrow> nat) \<Rightarrow> (nat \<Rightarrow> nat) \<Rightarrow> nat \<Rightarrow> nat list \<Rightarrow> bool" where
  "dll h pf nf p [] = True"
| "dll h pf nf p (x # xs) = (x \<noteq> 0 \<and> h (pf x) = Some p \<and> h (nf x) = Some (hd0 xs) \<and> dll h pf nf x xs)"

lemma dll_cong:
  "dll h pf nf p xs \<Longrightarrow> (\<And>x. x \<in> set xs \<Longrightarrow> h' (pf x) = h (pf x) \<and> h' (nf x) = h (nf x)) \<Longrightarrow> dll h' pf nf p xs"
  by (induction xs arbitrary: p) auto

end
