(* ===== verification/Kl_Chunk.thy ===== *)
theory Kl_Chunk
  imports Klmalloc
begin

text \<open>
  Chunks: a block is tiled by chunks with their sizes at both ends, and the free ones are linked
  by size classes.
\<close>

subsection \<open>Operations on lists\<close>

text \<open>The fields of different nodes do not overlap.\<close>

definition fields_apart :: "(nat \<Rightarrow> nat) \<Rightarrow> (nat \<Rightarrow> nat) \<Rightarrow> nat set \<Rightarrow> bool" where
  "fields_apart pf nf A \<longleftrightarrow> inj_on pf A \<and> inj_on nf A \<and> (\<forall>a\<in>A. \<forall>b\<in>A. pf a \<noteq> nf b)"

lemma fields_apart_subset: "fields_apart pf nf A \<Longrightarrow> B \<subseteq> A \<Longrightarrow> fields_apart pf nf B"
  unfolding fields_apart_def by (meson inj_on_subset subsetD)

lemma fields_apartD:
  assumes "fields_apart pf nf A" and "a \<in> A" and "b \<in> A"
  shows "pf a = pf b \<longleftrightarrow> a = b" "nf a = nf b \<longleftrightarrow> a = b" "pf a \<noteq> nf b" "nf b \<noteq> pf a"
  using assms unfolding fields_apart_def inj_on_def by metis+

lemma dll_mid:
  "dll h pf nf p (ys @ x # zs) \<Longrightarrow>
     x \<noteq> 0 \<and> h (pf x) = Some (if ys = [] then p else last ys) \<and> h (nf x) = Some (hd0 zs) \<and> dll h pf nf x zs"
  by (induction ys arbitrary: p) auto

lemma dll_drop:
  assumes "dll h pf nf p (ys @ x # zs)" and "distinct (ys @ x # zs)" and "fields_apart pf nf (set (ys @ x # zs))"
    and "\<And>y. y \<in> set ys \<union> set zs \<Longrightarrow> h' (nf y) = (if ys \<noteq> [] \<and> y = last ys then Some (hd0 zs) else h (nf y))"
    and "\<And>y. y \<in> set ys \<union> set zs \<Longrightarrow>
           h' (pf y) = (if zs \<noteq> [] \<and> y = hd zs then Some (if ys = [] then p else last ys) else h (pf y))"
  shows "dll h' pf nf p (ys @ zs)"
  using assms
proof (induction ys arbitrary: p)
  case Nil
  then show ?case by (cases zs) (auto intro: dll_cong)
next
  case (Cons y ys)
  have z: "zs \<noteq> [] \<Longrightarrow> y \<noteq> hd zs" using Cons.prems(2) by (cases zs) auto
  have "dll h' pf nf y (ys @ zs)"
  proof (rule Cons.IH)
    show "dll h pf nf y (ys @ x # zs)" "distinct (ys @ x # zs)" using Cons.prems by simp_all
    show "fields_apart pf nf (set (ys @ x # zs))" using Cons.prems(3) by (rule fields_apart_subset) auto
    show "h' (nf a) = (if ys \<noteq> [] \<and> a = last ys then Some (hd0 zs) else h (nf a))"
      if "a \<in> set ys \<union> set zs" for a
      using Cons.prems(2) Cons.prems(4) [of a] that by auto
    show "h' (pf a) = (if zs \<noteq> [] \<and> a = hd zs then Some (if ys = [] then y else last ys) else h (pf a))"
      if "a \<in> set ys \<union> set zs" for a
      using Cons.prems(2) Cons.prems(5) [of a] that by auto
  qed
  moreover have "h' (pf y) = h (pf y)" using Cons.prems(5) [of y] z by auto
  moreover have "h' (nf y) = Some (hd0 (ys @ zs))"
  proof (cases ys)
    case Nil
    then show ?thesis using Cons.prems(4) [of y] by simp
  next
    case (Cons a as)
    then have "y \<noteq> last (y # ys)" using Cons.prems(2) by auto
    then show ?thesis using Cons Cons.prems(1) Cons.prems(4) [of y] by simp
  qed
  ultimately show ?case using Cons.prems(1) by simp
qed

text \<open>Unlinking a node changes only the fields of its neighbours.\<close>

lemma list_unlink_ok:
  assumes d: "dll (heap m) pf nf 0 (ys @ x # zs)" and dis: "distinct (ys @ x # zs)"
    and ap: "fields_apart pf nf (set (ys @ x # zs))" and h: "h = hd0 (ys @ x # zs)"
  obtains H where "list_unlink pf nf x h m = Some (hd0 (ys @ zs), m\<lparr>heap := H\<rparr>)"
    "dll H pf nf 0 (ys @ zs)" "dom H = dom (heap m)"
    "\<And>z. z \<notin> pf ` (set ys \<union> set zs) \<union> nf ` (set ys \<union> set zs) \<Longrightarrow> H z = heap m z"
proof -
  let ?h = "heap m" and ?p = "if ys = [] then 0 else last ys"
  have mid: "x \<noteq> 0" "?h (pf x) = Some ?p" "?h (nf x) = Some (hd0 zs)"
    using dll_mid [OF d] by auto
  have yl: "?h (nf (last ys)) = Some x" "last ys \<noteq> 0" "last ys \<in> set ys" if "ys \<noteq> []"
  proof -
    have e: "ys = butlast ys @ [last ys]" using that by simp
    have "dll ?h pf nf 0 (butlast ys @ last ys # x # zs)" using d e by (metis append.assoc append_Cons append_Nil)
    from dll_mid [OF this] show "?h (nf (last ys)) = Some x" "last ys \<noteq> 0" by auto
  qed (use that in simp)
  have zh: "?h (pf (hd zs)) = Some x" "hd zs \<noteq> 0" "hd zs \<in> set zs" "hd0 zs = hd zs" if "zs \<noteq> []"
    using that dll_mid [OF d] by (cases zs; auto)+
  have hz: "hd0 zs = 0 \<longleftrightarrow> zs = []" using zh(2,4) by (cases zs) auto
  have hy: "ys \<noteq> [] \<Longrightarrow> hd0 (ys @ zs) = hd0 (ys @ x # zs)" by (cases ys) auto
  define H1 where "H1 = (if ys = [] then ?h else ?h(nf (last ys) \<mapsto> hd0 zs))"
  define H where "H = (if zs = [] then H1 else H1(pf (hd zs) \<mapsto> ?p))"
  have ne: "last ys \<noteq> x" "pf x \<noteq> nf (last ys)" "nf x \<noteq> nf (last ys)" if "ys \<noteq> []"
    using fields_apartD [OF ap, of x "last ys"] fields_apartD [OF ap, of "last ys" x] yl(3) that dis by auto
  have nz: "pf (hd zs) \<noteq> nf (last ys)" if "ys \<noteq> []" "zs \<noteq> []"
    using fields_apartD(3) [OF ap, of "hd zs" "last ys"] yl(3) zh(3) that by auto
  have 1: "H1 (nf x) = Some (hd0 zs)" "H1 (pf x) = Some ?p" using mid ne by (auto simp: H1_def)
  have 2: "zs \<noteq> [] \<Longrightarrow> H1 (pf (hd zs)) = Some x" using zh(1) nz by (auto simp: H1_def)
  have eq: "list_unlink pf nf x h m = Some (hd0 (ys @ zs), m\<lparr>heap := H\<rparr>)"
    unfolding list_unlink_def
    using mid yl(1,2) 1 2 hz zh(4) hy h
    by (cases "ys = []"; cases "zs = []") (simp_all add: rdw_def wrw_def H1_def H_def)
  have up: "H y = (if zs \<noteq> [] \<and> y = pf (hd zs) then Some ?p
                   else if ys \<noteq> [] \<and> y = nf (last ys) then Some (hd0 zs) else ?h y)" for y
    by (simp add: H_def H1_def)
  have "dll H pf nf 0 (ys @ zs)"
  proof (rule dll_drop [OF d dis ap])
    fix y assume y: "y \<in> set ys \<union> set zs"
    have a: "pf y \<noteq> nf (last ys)" if "ys \<noteq> []" using fields_apartD(3) [OF ap, of y "last ys"] yl(3) that y by auto
    have b: "nf y \<noteq> pf (hd zs)" if "zs \<noteq> []" using fields_apartD(4) [OF ap, of "hd zs" y] zh(3) that y by auto
    have c: "nf y = nf (last ys) \<longleftrightarrow> y = last ys" if "ys \<noteq> []" using fields_apartD(2) [OF ap, of y "last ys"] yl(3) that y by auto
    have e: "pf y = pf (hd zs) \<longleftrightarrow> y = hd zs" if "zs \<noteq> []" using fields_apartD(1) [OF ap, of y "hd zs"] zh(3) that y by auto
    show "H (nf y) = (if ys \<noteq> [] \<and> y = last ys then Some (hd0 zs) else ?h (nf y))"
      unfolding up using b c by auto
    show "H (pf y) = (if zs \<noteq> [] \<and> y = hd zs then Some ?p else ?h (pf y))"
      unfolding up using a e by auto
  qed
  moreover have "dom H = dom ?h" using yl(1) zh(1) by (auto simp: up dom_def split: if_splits)
  moreover have "H z = ?h z" if "z \<notin> pf ` (set ys \<union> set zs) \<union> nf ` (set ys \<union> set zs)" for z
    using that yl(3) zh(3) by (auto simp: up)
  ultimately show ?thesis using that eq by blast
qed

text \<open>Linking a node in front changes only its fields and those of the old head.\<close>

lemma list_push_ok:
  assumes d: "dll (heap m) pf nf 0 xs" and x: "x \<noteq> 0" "x \<notin> set xs" and h: "h = hd0 xs"
    and ap: "fields_apart pf nf (insert x (set xs))"
    and mp: "heap m (pf x) \<noteq> None" "heap m (nf x) \<noteq> None"
  obtains H where "list_push pf nf x h m = Some (m\<lparr>heap := H\<rparr>)" "dll H pf nf 0 (x # xs)"
    "dom H = dom (heap m)"
    "\<And>z. z \<notin> pf ` insert x (set xs) \<union> nf ` insert x (set xs) \<Longrightarrow> H z = heap m z"
proof -
  let ?h = "heap m"
  define H where "H = (\<lambda>y. if xs \<noteq> [] \<and> y = pf (hd xs) then Some x else if y = nf x then Some h
                            else if y = pf x then Some 0 else ?h y)"
  have xh: "?h (pf (hd xs)) = Some 0" "hd xs \<noteq> 0" "hd xs \<in> set xs" "h = hd xs" if "xs \<noteq> []"
    using that d h by (cases xs; auto)+
  have ne: "pf x \<noteq> nf x" using fields_apartD(3) [OF ap, of x x] by simp
  have nh: "pf (hd xs) \<noteq> nf x" "pf (hd xs) \<noteq> pf x" if "xs \<noteq> []"
    using fields_apartD(1,3) [OF ap, of "hd xs" x] xh(3) that x(2) by auto
  have eq: "list_push pf nf x h m = Some (m\<lparr>heap := H\<rparr>)"
    unfolding list_push_def using mp ne nh xh h
    by (cases "xs = []") (auto simp: wrw_def H_def fun_eq_iff)
  have "dll H pf nf x xs"
  proof (cases xs)
    case (Cons y ys)
    have y: "H (pf y) = Some x" by (simp add: H_def Cons)
    have k: "H (pf z) = ?h (pf z)" if "z \<in> set ys" "z \<noteq> y" for z
      using fields_apartD [OF ap, of z x] fields_apartD(1) [OF ap, of z y] that x(2) by (auto simp: H_def Cons)
    have l: "H (nf z) = ?h (nf z)" if "z \<in> set xs" for z
      using fields_apartD [OF ap, of x z] fields_apartD(4) [OF ap, of "hd xs" z] that x(2) by (auto simp: H_def Cons)
    show ?thesis
    proof (cases "y \<in> set ys")
      case False
      then have "dll H pf nf y ys" using d k l unfolding Cons by (auto intro: dll_cong)
      then show ?thesis using d y l [of y] by (simp add: Cons)
    next
      case True
      then obtain as bs where ab: "ys = as @ y # bs" by (meson split_list)
      have "?h (pf y) = Some (if as = [] then y else last as)"
        using d dll_mid [of ?h pf nf y as y bs] by (simp add: Cons ab)
      moreover have "?h (pf y) = Some 0" "y \<noteq> 0" using d by (simp_all add: Cons)
      moreover have "last as \<noteq> 0" if "as \<noteq> []"
      proof -
        have "dll ?h pf nf y (butlast as @ last as # y # bs)"
          using d that by (metis Cons ab append.assoc append_Cons append_Nil append_butlast_last_id dll.simps(2))
        then show ?thesis using dll_mid by blast
      qed
      ultimately show ?thesis by (auto split: if_splits)
    qed
  qed simp
  then have "dll H pf nf 0 (x # xs)" using x(1) ne nh h by (auto simp: H_def)
  moreover have "dom H = dom ?h" using mp xh(1) by (auto simp: H_def dom_def split: if_splits)
  moreover have "H z = ?h z" if "z \<notin> pf ` insert x (set xs) \<union> nf ` insert x (set xs)" for z
    using that xh(3) by (auto simp: H_def)
  ultimately show ?thesis using that eq by blast
qed

subsection \<open>Layouts\<close>

text \<open>A layout gives for each block with chunks the sizes of its chunks in order, with
  \<open>True\<close> for a chunk that is in use.  \<open>spots a xs\<close> are the chunks of a sequence that starts
  at address \<open>a\<close>.\<close>

type_synonym layout = "nat \<rightharpoonup> (nat \<times> bool) list"

fun spots :: "nat \<Rightarrow> (nat \<times> bool) list \<Rightarrow> (nat \<times> nat \<times> bool) list" where
  "spots a [] = []"
| "spots a ((s, u) # xs) = (a, s, u) # spots (a + s) xs"

definition extent :: "(nat \<times> bool) list \<Rightarrow> nat" where
  "extent xs = sum_list (map fst xs)"

lemma extent_simps [simp]:
  "extent [] = 0" "extent (q # xs) = fst q + extent xs" "extent (xs @ ys) = extent xs + extent ys"
  by (simp_all add: extent_def)

lemma spots_append [simp]: "spots a (xs @ ys) = spots a xs @ spots (a + extent xs) ys"
  by (induction a xs rule: spots.induct) (simp_all add: add.assoc)

lemma spots_bounds: "(d, t, u) \<in> set (spots a xs) \<Longrightarrow> a \<le> d \<and> d + t \<le> a + extent xs"
  by (induction a xs rule: spots.induct) auto

lemma spots_apart:
  "(d, t, u) \<in> set (spots a xs) \<Longrightarrow> (d', t', u') \<in> set (spots a xs) \<Longrightarrow>
     (d, t, u) = (d', t', u') \<or> d + t \<le> d' \<or> d' + t' \<le> d"
  by (induction a xs rule: spots.induct) (auto dest: spots_bounds)

lemma spots_split:
  assumes "(d, t, u) \<in> set (spots a xs)"
  obtains ys zs where "xs = ys @ (t, u) # zs" "d = a + extent ys"
  using assms
proof (induction a xs arbitrary: thesis rule: spots.induct)
  case (2 a s u' xs)
  show ?case
  proof (cases "(d, t, u) = (a, s, u')")
    case True
    then show ?thesis using 2(2) [of "[]" xs] by simp
  next
    case False
    then have "(d, t, u) \<in> set (spots (a + s) xs)" using 2(3) by auto
    from 2(1) [OF _ this] obtain ys zs where "xs = ys @ (t, u) # zs" "d = a + s + extent ys" by blast
    then show ?thesis using 2(2) [of "(s, u') # ys" zs] by simp
  qed
qed simp

definition spot :: "layout \<Rightarrow> (nat \<times> nat \<times> bool) set" where
  "spot L = {q. \<exists>b xs. L b = Some xs \<and> q \<in> set (spots (b + 8) xs)}"

text \<open>A chunk has its size in its first word, and again in its last word when it is free; the
  last word is 0 when it is in use.  For the chunks in \<open>X\<close> the last word is not yet set.\<close>

fun chunk_ok :: "nat set \<Rightarrow> (nat \<rightharpoonup> nat) \<Rightarrow> nat \<times> nat \<times> bool \<Rightarrow> bool" where
  "chunk_ok X h (d, t, u) \<longleftrightarrow>
     8 dvd t \<and> 32 \<le> t \<and> h d = Some t \<and> (d \<in> X \<or> h (d + t - 8) = Some (if u then 0 else t))"

definition regions_ok :: "kl_mem \<Rightarrow> bool" where
  "regions_ok m \<longleftrightarrow>
     (\<forall>b n. blocks m b = Some n \<longrightarrow>
        0 < b \<and> 8 dvd b \<and> 8 dvd n \<and> 262144 \<le> n \<and> b + n < SIZE_MOD \<and>
        (\<forall>x. b \<le> x \<longrightarrow> x < b + n \<longrightarrow> 8 dvd x \<longrightarrow> heap m x \<noteq> None)) \<and>
     (\<forall>b n b' n'. blocks m b = Some n \<longrightarrow> blocks m b' = Some n' \<longrightarrow> b \<noteq> b' \<longrightarrow> b + n \<le> b' \<or> b' + n' \<le> b)"

definition lay_ok :: "nat set \<Rightarrow> kl_mem \<Rightarrow> layout \<Rightarrow> bool" where
  "lay_ok X m L \<longleftrightarrow>
     (\<forall>b xs. L b = Some xs \<longrightarrow>
        (\<exists>n. blocks m b = Some n \<and> heap m b = Some 8 \<and> heap m (b + n - 24) = Some 8 \<and>
             extent xs + 32 = n \<and> (\<forall>q \<in> set (spots (b + 8) xs). chunk_ok X (heap m) q) \<and>
             (n = 262144 \<or> (\<exists>s. xs = [(s, True)]))))"

lemma regions_okD:
  assumes "regions_ok m" and "blocks m b = Some n"
  shows "0 < b" "8 dvd b" "8 dvd n" "262144 \<le> n" "b + n < SIZE_MOD"
    "b \<le> x \<Longrightarrow> x < b + n \<Longrightarrow> 8 dvd x \<Longrightarrow> heap m x \<noteq> None"
  using assms unfolding regions_ok_def by blast+

lemma regions_apart:
  "regions_ok m \<Longrightarrow> blocks m b = Some n \<Longrightarrow> blocks m b' = Some n' \<Longrightarrow> b \<noteq> b' \<Longrightarrow> b + n \<le> b' \<or> b' + n' \<le> b"
  unfolding regions_ok_def by blast

lemma lay_okD:
  assumes "lay_ok X m L" and "L b = Some xs"
  obtains n where "blocks m b = Some n" "heap m b = Some 8" "heap m (b + n - 24) = Some 8"
    "extent xs + 32 = n" "\<And>q. q \<in> set (spots (b + 8) xs) \<Longrightarrow> chunk_ok X (heap m) q"
    "n = 262144 \<or> (\<exists>s. xs = [(s, True)])"
  using assms unfolding lay_ok_def by blast

lemma spotE:
  assumes "q \<in> spot L"
  obtains b xs where "L b = Some xs" "q \<in> set (spots (b + 8) xs)"
  using assms unfolding spot_def by blast

lemma spotI: "L b = Some xs \<Longrightarrow> q \<in> set (spots (b + 8) xs) \<Longrightarrow> q \<in> spot L"
  unfolding spot_def by blast

lemma dvd_extent:
  "\<forall>q \<in> set (spots a xs). chunk_ok X h q \<Longrightarrow> 8 dvd extent xs"
  by (induction a xs rule: spots.induct) auto

text \<open>Where a chunk lies.\<close>

lemma spot_range:
  assumes r: "regions_ok m" and l: "lay_ok X m L" and q: "(d, t, u) \<in> spot L"
  obtains b n where "b \<in> dom L" "blocks m b = Some n" "b + 8 \<le> d" "d + t + 24 \<le> b + n" "8 dvd d" "8 dvd t" "32 \<le> t"
    "heap m d = Some t" "d \<in> X \<or> heap m (d + t - 8) = Some (if u then 0 else t)"
    "\<And>x. d \<le> x \<Longrightarrow> x < d + t \<Longrightarrow> 8 dvd x \<Longrightarrow> heap m x \<noteq> None" "0 < d" "d + t + 24 < SIZE_MOD"
    "\<not> u \<Longrightarrow> t \<le> 262112"
proof -
  obtain b xs where b: "L b = Some xs" "(d, t, u) \<in> set (spots (b + 8) xs)" using q by (rule spotE)
  obtain n where n: "blocks m b = Some n" "extent xs + 32 = n" "n = 262144 \<or> (\<exists>s. xs = [(s, True)])"
    "\<And>q. q \<in> set (spots (b + 8) xs) \<Longrightarrow> chunk_ok X (heap m) q"
    using lay_okD [OF l b(1)] by metis
  have c: "chunk_ok X (heap m) (d, t, u)" using n(4) b(2) .
  have be: "b + 8 \<le> d" "d + t + 24 \<le> b + n" using spots_bounds [OF b(2)] n(2) by auto
  obtain ys zs where s: "xs = ys @ (t, u) # zs" "d = b + 8 + extent ys" using b(2) by (rule spots_split)
  have "8 dvd extent ys" by (rule dvd_extent [of "b + 8" ys X "heap m"]) (use n(4) s(1) in auto)
  then have d8: "8 dvd d" using s(2) regions_okD(2) [OF r n(1)] by simp
  have t: "t \<le> 262112" if "\<not> u"
  proof -
    have "\<nexists>s. xs = [(s, True)]" using that s(1) by (auto simp: Cons_eq_append_conv append_eq_Cons_conv)
    then show ?thesis using n(2,3) s(1) by auto
  qed
  show ?thesis
    using that [of b n] b(1) n(1) be d8 c t regions_okD [OF r n(1)] by (auto intro: le_trans)
qed

lemma spot_apart:
  assumes r: "regions_ok m" and l: "lay_ok X m L" and q: "(d, t, u) \<in> spot L" "(d', t', u') \<in> spot L"
  shows "(d, t, u) = (d', t', u') \<or> d + t \<le> d' \<or> d' + t' \<le> d"
proof -
  obtain b xs where b: "L b = Some xs" "(d, t, u) \<in> set (spots (b + 8) xs)" using q(1) by (rule spotE)
  obtain b' xs' where b': "L b' = Some xs'" "(d', t', u') \<in> set (spots (b' + 8) xs')" using q(2) by (rule spotE)
  show ?thesis
  proof (cases "b = b'")
    case True
    then show ?thesis using spots_apart b b' by auto
  next
    case False
    obtain n where n: "blocks m b = Some n" "extent xs + 32 = n" using lay_okD [OF l b(1)] by metis
    obtain n' where n': "blocks m b' = Some n'" "extent xs' + 32 = n'" using lay_okD [OF l b'(1)] by metis
    show ?thesis
      using regions_apart [OF r n(1) n'(1) False] spots_bounds [OF b(2)] spots_bounds [OF b'(2)] n(2) n'(2) by auto
  qed
qed

lemma spot_unique:
  assumes "regions_ok m" and "lay_ok X m L" and "(d, t, u) \<in> spot L" "(d, t', u') \<in> spot L"
  shows "t' = t" "u' = u"
proof -
  have "32 \<le> t" "32 \<le> t'" using spot_range [OF assms(1,2,3)] spot_range [OF assms(1,2,4)] by metis+
  then show "t' = t" "u' = u" using spot_apart [OF assms] by auto
qed

subsection \<open>Reading a chunk\<close>

lemma even_if_8: "8 dvd n \<Longrightarrow> n mod 2 = 0" for n :: nat
  by presburger

definition chunk_at :: "kl_mem \<Rightarrow> nat \<Rightarrow> nat \<Rightarrow> bool" where
  "chunk_at m c s \<longleftrightarrow> 8 dvd c \<and> heap m c = Some s \<and> 8 dvd s \<and> c + s < SIZE_MOD \<and> 32 \<le> s"

lemma chunk_atD:
  assumes "chunk_at m c s"
  shows "8 dvd c" "heap m c = Some s" "8 dvd s" "c + s < SIZE_MOD" "32 \<le> s"
  using assms by (simp_all add: chunk_at_def)

lemma ptr_aligned: "chunk_at m c s \<Longrightarrow> KL_ISALIGNED (c + 8)"
  by (intro ISALIGNED_I) (auto simp: chunk_at_def)

lemma chunk_TYPEOF: "chunk_at m c s \<Longrightarrow> KL_TYPEOF m c = Some 0"
  using chunk_atD [of m c s] by (simp add: ptr_aligned KL_TYPEOF_def rdw_def KL_BRICK_def and_one_eq even_if_8)

lemma chunk_SIZE: "chunk_at m c s \<Longrightarrow> KL_G_SIZE m c = Some s"
  using chunk_atD [of m c s] by (simp add: ptr_aligned chunk_TYPEOF KL_G_SIZE_def rdw_def KL_BRICK_def)

lemma chunk_NEXT: "chunk_at m c s \<Longrightarrow> KL_G_NEXT m c = Some (c + s)"
  using chunk_atD [of m c s] by (simp add: ptr_aligned chunk_SIZE KL_G_NEXT_def addw_exact)

lemma chunk_FTR: "chunk_at m c s \<Longrightarrow> CHUNK_FTR m c = Some (c + s - 8)"
  by (simp add: CHUNK_FTR_def rdw_def addw_exact subw_exact chunk_at_def)

lemma chunk_INUSE: "chunk_at m c s \<Longrightarrow> heap m (c + s - 8) = Some f \<Longrightarrow> KL_ISINUSE m c = Some (f = 0)"
  using ptr_aligned chunk_FTR by (auto simp: KL_ISINUSE_def rdw_def)

lemma chunk_FIRST: "chunk_at m c s \<Longrightarrow> 8 \<le> c \<Longrightarrow> heap m (c - 8) = Some w \<Longrightarrow> KL_ISFIRST m c = Some (w = 8)"
  using ptr_aligned by (auto simp: KL_ISFIRST_def rdw_def subw_exact kl_consts chunk_at_def)

lemma chunk_PREV:
  "chunk_at m c s \<Longrightarrow> 8 \<le> c \<Longrightarrow> heap m (c - 8) = Some w \<Longrightarrow> w \<le> c \<Longrightarrow> KL_G_PREV m c = Some (c - w)"
  using chunk_atD [of m c s] by (simp add: ptr_aligned chunk_TYPEOF KL_G_PREV_def rdw_def subw_exact KL_BRICK_def)

lemma chunk_LAST:
  assumes c: "chunk_at m c s" and w: "heap m (c + s) = Some w" "8 dvd w" "c + s + 8 < SIZE_MOD"
  shows "KL_ISLAST m c = Some (w = 8)"
proof -
  have a: "KL_ISALIGNED (c + s + 8)" using c w(3) by (intro ISALIGNED_I) (auto simp: chunk_at_def)
  then have "KL_TYPEOF m (c + s) = Some 0"
    using w by (simp add: KL_TYPEOF_def rdw_def KL_BRICK_def and_one_eq even_if_8)
  then have "KL_G_SIZE m (c + s) = Some w"
    using w a by (simp add: KL_G_SIZE_def rdw_def KL_BRICK_def)
  then show ?thesis using ptr_aligned [OF c] chunk_NEXT [OF c] by (auto simp: KL_ISLAST_def kl_consts)
qed

subsection \<open>Bins\<close>

text \<open>The bin of a free chunk: the largest class whose size the chunk has.\<close>

definition bin_of :: "nat \<Rightarrow> nat" where
  "bin_of s = (case KL_SIZE2BIN s of None \<Rightarrow> 0 | Some b \<Rightarrow> if s < bin2size ! b \<and> 0 < b then b - 1 else b)"

lemma bin_of_ok:
  assumes "32 \<le> s" and "s \<le> 262112"
  obtains b where "KL_SIZE2BIN s = Some b" "b < 1532" "bin_of s = (if s < bin2size ! b \<and> 0 < b then b - 1 else b)"
    "bin_of s < 1532" "bin2size ! bin_of s \<le> s"
proof -
  obtain b where b: "KL_SIZE2BIN s = Some b" "b < 1532" "s \<le> bin2size ! b" "0 < b \<Longrightarrow> bin2size ! (b - 1) < s"
    by (rule SIZE2BIN_bounds [of s]) (use assms in auto)
  have e: "bin_of s = (if s < bin2size ! b \<and> 0 < b then b - 1 else b)" using b(1) by (simp add: bin_of_def)
  have "bin2size ! 0 = 8" using nth_bin2size_small [of 0] by simp
  then have "b \<noteq> 0" using b(3) assms(1) by (metis le_trans numeral_le_iff semiring_norm(69,71,72))
  then have "bin2size ! bin_of s \<le> s" using b(4) by (auto simp: e)
  moreover have "bin_of s < 1532" using b(2) by (auto simp: e)
  ultimately show ?thesis using that b e by blast
qed

text \<open>Each bin is the list of the free chunks of its class, except those in \<open>E\<close>.\<close>

definition bins_ok :: "nat set \<Rightarrow> kl_mem \<Rightarrow> layout \<Rightarrow> (nat \<Rightarrow> nat list) \<Rightarrow> bool" where
  "bins_ok E m L F \<longleftrightarrow>
     length (chunk_bin m) = 1576 \<and>
     (\<forall>i < 1576. chunk_bin m ! i = hd0 (F i) \<and> distinct (F i) \<and>
        dll (heap m) CHUNK_PREV CHUNK_NEXT 0 (F i)) \<and>
     (\<forall>i < 1576. \<forall>c. c \<in> set (F i) \<longleftrightarrow> c \<notin> E \<and> (\<exists>s. (c, s, False) \<in> spot L \<and> bin_of s = i))"

definition free_area :: "layout \<Rightarrow> nat set" where
  "free_area L = {x. \<exists>d t. (d, t, False) \<in> spot L \<and> d \<le> x \<and> x < d + t}"

text \<open>The fields that link free chunks.\<close>

definition links :: "layout \<Rightarrow> nat set" where
  "links L = {x. \<exists>d t. (d, t, False) \<in> spot L \<and> (x = d + 8 \<or> x = d + 16)}"

text \<open>A change of the memory inside \<open>A\<close>, and of the bins.\<close>

definition tweak :: "nat set \<Rightarrow> kl_mem \<Rightarrow> kl_mem \<Rightarrow> bool" where
  "tweak A m m' \<longleftrightarrow> (\<exists>H B. m' = m\<lparr>heap := H, chunk_bin := B\<rparr> \<and> dom H = dom (heap m) \<and> (\<forall>x. x \<notin> A \<longrightarrow> H x = heap m x))"

lemma tweak_refl [simp]: "tweak A m m"
  unfolding tweak_def by (rule exI [of _ "heap m"], rule exI [of _ "chunk_bin m"]) simp

lemma tweak_trans:
  assumes "tweak A m m'" and "tweak B m' m''"
  shows "tweak (A \<union> B) m m''"
proof -
  obtain H B' where 1: "m' = m\<lparr>heap := H, chunk_bin := B'\<rparr>" "dom H = dom (heap m)" "\<forall>x. x \<notin> A \<longrightarrow> H x = heap m x"
    using assms(1) unfolding tweak_def by blast
  obtain K C where 2: "m'' = m'\<lparr>heap := K, chunk_bin := C\<rparr>" "dom K = dom (heap m')" "\<forall>x. x \<notin> B \<longrightarrow> K x = heap m' x"
    using assms(2) unfolding tweak_def by blast
  have "m'' = m\<lparr>heap := K, chunk_bin := C\<rparr>" "dom K = dom (heap m)" "\<forall>x. x \<notin> A \<union> B \<longrightarrow> K x = heap m x"
    using 1 2 by simp_all
  then show ?thesis unfolding tweak_def by blast
qed

lemma tweak_mono: "tweak A m m' \<Longrightarrow> A \<subseteq> B \<Longrightarrow> tweak B m m'"
  unfolding tweak_def by blast

lemma tweakD:
  assumes "tweak A m m'"
  shows "blocks m' = blocks m" "dom (heap m') = dom (heap m)" "x \<notin> A \<Longrightarrow> heap m' x = heap m x"
    "num_undes m' = num_undes m" "undes_bin m' = undes_bin m" "brick_bin m' = brick_bin m"
    "enabled m' = enabled m" "mem_total m' = mem_total m" "answers m' = answers m"
proof -
  obtain H B where 1: "m' = m\<lparr>heap := H, chunk_bin := B\<rparr>" "dom H = dom (heap m)" "\<forall>x. x \<notin> A \<longrightarrow> H x = heap m x"
    using assms unfolding tweak_def by blast
  show "dom (heap m') = dom (heap m)" "x \<notin> A \<Longrightarrow> heap m' x = heap m x" using 1 by simp_all
qed (use assms in \<open>auto simp: tweak_def\<close>)

lemma regions_ok_cong:
  assumes "regions_ok m" and "blocks m' = blocks m" and "dom (heap m') = dom (heap m)"
  shows "regions_ok m'"
proof -
  have "heap m' x \<noteq> None \<longleftrightarrow> heap m x \<noteq> None" for x using assms(3) by (metis domIff)
  then show ?thesis using assms(1,2) unfolding regions_ok_def by simp
qed

lemma regions_ok_tweak: "regions_ok m \<Longrightarrow> tweak A m m' \<Longrightarrow> regions_ok m'"
  using regions_ok_cong tweakD(1,2) by blast

text \<open>Headers and footers of chunks and blocks are no links.\<close>

lemma links_apart:
  assumes r: "regions_ok m" and l: "lay_ok X m L" and q: "(d, t, u) \<in> spot L" and x: "x \<in> links L"
  shows "x \<noteq> d" "x \<noteq> d + t - 8"
proof -
  obtain d' t' where q': "(d', t', False) \<in> spot L" "x = d' + 8 \<or> x = d' + 16" using x unfolding links_def by blast
  have t: "32 \<le> t" "32 \<le> t'" using spot_range [OF r l q] spot_range [OF r l q'(1)] by metis+
  show "x \<noteq> d" "x \<noteq> d + t - 8" using spot_apart [OF r l q q'(1)] q'(2) t by auto
qed

lemma links_inside:
  assumes r: "regions_ok m" and l: "lay_ok X m L" and x: "x \<in> links L" and b: "blocks m b = Some n"
  shows "x \<noteq> b" "x \<noteq> b + n - 24"
proof -
  obtain d t where q: "(d, t, False) \<in> spot L" "x = d + 8 \<or> x = d + 16" using x unfolding links_def by blast
  obtain b' n' where s: "blocks m b' = Some n'" "b' + 8 \<le> d" "d + t + 24 \<le> b' + n'" "32 \<le> t"
    using spot_range [OF r l q(1)] by metis
  have n: "262144 \<le> n" using regions_okD(4) [OF r b] .
  show "x \<noteq> b" "x \<noteq> b + n - 24"
    using regions_apart [OF r b s(1)] s b n q(2) by (cases "b = b'"; auto)+
qed

lemma lay_ok_links:
  assumes r: "regions_ok m" and l: "lay_ok X m L" and w: "tweak (links L) m m'"
  shows "lay_ok X m' L"
  unfolding lay_ok_def
proof (intro allI impI)
  fix b xs assume b: "L b = Some xs"
  obtain n where n: "blocks m b = Some n" "heap m b = Some 8" "heap m (b + n - 24) = Some 8"
    "extent xs + 32 = n" "\<And>q. q \<in> set (spots (b + 8) xs) \<Longrightarrow> chunk_ok X (heap m) q"
    "n = 262144 \<or> (\<exists>s. xs = [(s, True)])"
    using lay_okD [OF l b] by metis
  have "chunk_ok X (heap m') q" if q: "q \<in> set (spots (b + 8) xs)" for q
  proof -
    obtain d t u where e: "q = (d, t, u)" by (cases q) auto
    have "d \<notin> links L" "d + t - 8 \<notin> links L" using links_apart [OF r l spotI [of L b xs, OF b q [unfolded e]]] by blast+
    then show ?thesis using n(5) [OF q] tweakD(3) [OF w] unfolding e by simp
  qed
  moreover have "b \<notin> links L" "b + n - 24 \<notin> links L" using links_inside [OF r l _ n(1)] by blast+
  ultimately show "\<exists>n. blocks m' b = Some n \<and> heap m' b = Some 8 \<and> heap m' (b + n - 24) = Some 8 \<and>
      extent xs + 32 = n \<and> (\<forall>q \<in> set (spots (b + 8) xs). chunk_ok X (heap m') q) \<and>
      (n = 262144 \<or> (\<exists>s. xs = [(s, True)]))"
    using n tweakD(1,3) [OF w] by (intro exI [of _ n]) auto
qed

lemma chunk_fields_apart:
  assumes r: "regions_ok m" and l: "lay_ok X m L" and A: "A \<subseteq> {c. \<exists>t u. (c, t, u) \<in> spot L}"
  shows "fields_apart CHUNK_PREV CHUNK_NEXT A"
proof -
  have "c + 8 \<noteq> c' + 16" if cc: "c \<in> A" "c' \<in> A" for c c'
  proof -
    obtain t u t' u' where q: "(c, t, u) \<in> spot L" "(c', t', u') \<in> spot L" using cc A by blast
    have "32 \<le> t" "32 \<le> t'" using spot_range [OF r l q(1)] spot_range [OF r l q(2)] by metis+
    then show ?thesis using spot_apart [OF r l q] by auto
  qed
  then show ?thesis unfolding fields_apart_def inj_on_def by auto
qed

subsection \<open>Taking a chunk out of its bin\<close>

lemma bins_okD:
  assumes "bins_ok E m L F" and "i < 1576"
  shows "length (chunk_bin m) = 1576" "chunk_bin m ! i = hd0 (F i)" "distinct (F i)"
    "dll (heap m) CHUNK_PREV CHUNK_NEXT 0 (F i)"
    "c \<in> set (F i) \<longleftrightarrow> c \<notin> E \<and> (\<exists>s. (c, s, False) \<in> spot L \<and> bin_of s = i)"
  using assms unfolding bins_ok_def by blast+

lemma bins_disjoint:
  assumes r: "regions_ok m" and l: "lay_ok X m L" and b: "bins_ok E m L F" and i: "i < 1576" "j < 1576" "i \<noteq> j"
    and c: "c \<in> set (F i)"
  shows "c \<notin> set (F j)"
proof
  assume "c \<in> set (F j)"
  then obtain s t where st: "(c, s, False) \<in> spot L" "bin_of s = i" "(c, t, False) \<in> spot L" "bin_of t = j"
    using c i bins_okD(5) [OF b] by metis
  then show False using spot_unique(1) [OF r l st(1,3)] i(3) by simp
qed

lemma bin_spots: "bins_ok E m L F \<Longrightarrow> i < 1576 \<Longrightarrow> set (F i) \<subseteq> {c. \<exists>t u. (c, t, u) \<in> spot L}"
  using bins_okD(5) by blast

lemma bin_links: "bins_ok E m L F \<Longrightarrow> i < 1576 \<Longrightarrow> c \<in> set (F i) \<Longrightarrow> c + 8 \<in> links L \<and> c + 16 \<in> links L"
  using bins_okD(5) unfolding links_def by blast

text \<open>A change of the links of one bin keeps the other bins.\<close>

lemma bins_ok_update:
  assumes r: "regions_ok m" and l: "lay_ok X m L" and b: "bins_ok E m L F" and i: "i < 1576"
    and A: "A \<subseteq> {c. \<exists>t u. (c, t, u) \<in> spot L}" "\<And>j. j < 1576 \<Longrightarrow> j \<noteq> i \<Longrightarrow> A \<inter> set (F j) = {}"
    and H: "\<And>z. z \<notin> CHUNK_PREV ` A \<union> CHUNK_NEXT ` A \<Longrightarrow> H z = heap m z"
    and d: "dll H CHUNK_PREV CHUNK_NEXT 0 ns" "distinct ns"
    and mem: "\<And>c. c \<in> set ns \<longleftrightarrow> c \<notin> E' \<and> (\<exists>s. (c, s, False) \<in> spot L' \<and> bin_of s = i)"
    and oth: "\<And>c j. j < 1576 \<Longrightarrow> j \<noteq> i \<Longrightarrow> (c \<notin> E' \<and> (\<exists>s. (c, s, False) \<in> spot L' \<and> bin_of s = j)) \<longleftrightarrow>
                (c \<notin> E \<and> (\<exists>s. (c, s, False) \<in> spot L \<and> bin_of s = j))"
  shows "bins_ok E' (m\<lparr>heap := H, chunk_bin := (chunk_bin m)[i := hd0 ns]\<rparr>) L' (F(i := ns))"
  unfolding bins_ok_def
proof (intro conjI allI impI)
  have len: "length (chunk_bin m) = 1576" using bins_okD(1) [OF b i] .
  then show "length (chunk_bin (m\<lparr>heap := H, chunk_bin := (chunk_bin m)[i := hd0 ns]\<rparr>)) = 1576" by simp
  fix j :: nat assume j: "j < 1576"
  show "chunk_bin (m\<lparr>heap := H, chunk_bin := (chunk_bin m)[i := hd0 ns]\<rparr>) ! j = hd0 ((F(i := ns)) j)"
    using len i j bins_okD(2) [OF b j] by (simp add: nth_list_update)
  show "distinct ((F(i := ns)) j)" using d(2) bins_okD(3) [OF b j] by simp
  show "dll (heap (m\<lparr>heap := H, chunk_bin := (chunk_bin m)[i := hd0 ns]\<rparr>)) CHUNK_PREV CHUNK_NEXT 0 ((F(i := ns)) j)"
  proof (cases "j = i")
    case False
    have "dll H CHUNK_PREV CHUNK_NEXT 0 (F j)"
    proof (rule dll_cong [OF bins_okD(4) [OF b j]])
      fix x assume x: "x \<in> set (F j)"
      have ap: "fields_apart CHUNK_PREV CHUNK_NEXT (A \<union> set (F j))"
        using chunk_fields_apart [OF r l] A(1) bin_spots [OF b j] by simp
      have "x \<notin> A" using A(2) [OF j False] x by blast
      then have "CHUNK_PREV x \<notin> CHUNK_PREV ` A \<union> CHUNK_NEXT ` A" "CHUNK_NEXT x \<notin> CHUNK_PREV ` A \<union> CHUNK_NEXT ` A"
        using fields_apartD [OF ap, of x] fields_apartD [OF ap, of _ x] x by blast+
      then show "H (CHUNK_PREV x) = heap m (CHUNK_PREV x) \<and> H (CHUNK_NEXT x) = heap m (CHUNK_NEXT x)"
        using H by simp
    qed
    then show ?thesis using False by simp
  qed (use d in simp)
  show "c \<in> set ((F(i := ns)) j) \<longleftrightarrow> c \<notin> E' \<and> (\<exists>s. (c, s, False) \<in> spot L' \<and> bin_of s = j)" for c
    using mem oth [OF j] bins_okD(5) [OF b j] by simp
qed

lemma chunk_at_spot:
  assumes "regions_ok m" and "lay_ok X m L" and "(c, s, u) \<in> spot L"
  shows "chunk_at m c s"
  unfolding chunk_at_def by (rule spot_range [OF assms]) auto

lemma chunk_del_ok:
  assumes r: "regions_ok m" and l: "lay_ok X m L" and b: "bins_ok E m L F" and q: "(c, s, False) \<in> spot L" "c \<notin> E"
  obtains m' F' where "kl_chunk_del m c = Some (0, m')" "tweak (links L) m m'" "bins_ok (insert c E) m' L F'"
proof -
  have s: "32 \<le> s" "s \<le> 262112" using spot_range [OF r l q(1)] by metis+
  have c: "heap m x \<noteq> None" if "c \<le> x" "x < c + s" "8 dvd x" for x using spot_range [OF r l q(1)] that by metis
  have c8: "8 dvd c" using spot_range [OF r l q(1)] by metis
  note at = chunk_at_spot [OF r l q(1)]
  obtain k where k: "KL_SIZE2BIN s = Some k" "k < 1532" "bin_of s = (if s < bin2size ! k \<and> 0 < k then k - 1 else k)"
    "bin_of s < 1532" by (rule bin_of_ok [OF s])
  let ?i = "bin_of s"
  have i: "?i < 1576" using k(4) by simp
  have "c \<in> set (F ?i)" using bins_okD(5) [OF b i] q by blast
  then obtain ys zs where F: "F ?i = ys @ c # zs" by (meson split_list)
  have dis: "distinct (ys @ c # zs)" and dl: "dll (heap m) CHUNK_PREV CHUNK_NEXT 0 (ys @ c # zs)"
    using bins_okD(3,4) [OF b i] F by simp_all
  have sp: "set (ys @ c # zs) \<subseteq> {c. \<exists>t u. (c, t, u) \<in> spot L}" using bin_spots [OF b i] F by simp
  have ap: "fields_apart CHUNK_PREV CHUNK_NEXT (set (ys @ c # zs))" using chunk_fields_apart [OF r l sp] .
  obtain H where H: "list_unlink CHUNK_PREV CHUNK_NEXT c (chunk_bin m ! ?i) m = Some (hd0 (ys @ zs), m\<lparr>heap := H\<rparr>)"
    "dll H CHUNK_PREV CHUNK_NEXT 0 (ys @ zs)" "dom H = dom (heap m)"
    "\<And>z. z \<notin> CHUNK_PREV ` (set ys \<union> set zs) \<union> CHUNK_NEXT ` (set ys \<union> set zs) \<Longrightarrow> H z = heap m z"
    using list_unlink_ok [OF dl dis ap] bins_okD(2) [OF b i] F by metis
  have "H x \<noteq> None \<longleftrightarrow> heap m x \<noteq> None" for x using H(3) by (metis domIff)
  then have cm: "H (c + 8) \<noteq> None" "H (c + 16) \<noteq> None" using c [of "c + 8"] c [of "c + 16"] c8 s by simp_all
  let ?H = "H(c + 8 \<mapsto> 0, c + 16 \<mapsto> 0)"
  let ?m = "m\<lparr>heap := ?H, chunk_bin := (chunk_bin m)[?i := hd0 (ys @ zs)]\<rparr>"
  have bn: "?i < length (chunk_bin m)" using bins_okD(1) [OF b i] i by simp
  have eq: "kl_chunk_del m c = Some (0, ?m)"
    unfolding kl_chunk_del_def
    using k(1,2) chunk_SIZE [OF at] chunk_atD(2) [OF at] s H(1) bn cm
    by (simp add: KL_BIN2SIZE_def KL_ISSMALLBIN_def CHUNK_MIN_SIZE_def rdw_def wrw_mapped' flip: k(3))
  have nm: "set ys \<union> set zs \<subseteq> set (ys @ c # zs)" "c \<notin> set ys \<union> set zs" using dis by auto
  have "tweak (links L) m ?m"
  proof -
    have "dom ?H = dom (heap m)" using cm H(3) by (auto simp: domIff)
    moreover have "?H x = heap m x" if "x \<notin> links L" for x
    proof -
      have "\<And>y. y \<in> set (ys @ c # zs) \<Longrightarrow> x \<noteq> y + 8 \<and> x \<noteq> y + 16" using bin_links [OF b i] F that by metis
      then show ?thesis using H(4) [of x] by auto
    qed
    ultimately show ?thesis unfolding tweak_def by blast
  qed
  moreover have "bins_ok (insert c E) ?m L (F(?i := ys @ zs))"
  proof (rule bins_ok_update [OF r l b i sp])
    show "set (ys @ c # zs) \<inter> set (F j) = {}" if "j < 1576" "j \<noteq> ?i" for j
      using bins_disjoint [OF r l b i that(1)] that(2) F by fastforce
    show "?H z = heap m z" if "z \<notin> CHUNK_PREV ` set (ys @ c # zs) \<union> CHUNK_NEXT ` set (ys @ c # zs)" for z
      using H(4) [of z] that by auto
    show "dll ?H CHUNK_PREV CHUNK_NEXT 0 (ys @ zs)"
    proof (rule dll_cong [OF H(2)])
      fix x assume "x \<in> set (ys @ zs)"
      then show "?H (CHUNK_PREV x) = H (CHUNK_PREV x) \<and> ?H (CHUNK_NEXT x) = H (CHUNK_NEXT x)"
        using fields_apartD [OF ap, of x c] fields_apartD [OF ap, of c x] nm(2) by auto
    qed
    show "distinct (ys @ zs)" using dis by simp
    show "x \<in> set (ys @ zs) \<longleftrightarrow> x \<notin> insert c E \<and> (\<exists>s'. (x, s', False) \<in> spot L \<and> bin_of s' = ?i)" for x
      using bins_okD(5) [OF b i, of x] F dis by auto
    show "(x \<notin> insert c E \<and> (\<exists>s. (x, s, False) \<in> spot L \<and> bin_of s = j)) =
      (x \<notin> E \<and> (\<exists>s. (x, s, False) \<in> spot L \<and> bin_of s = j))" if "j < 1576" "j \<noteq> ?i" for x j
      using spot_unique(1) [OF r l q(1)] that by blast
  qed
  ultimately show ?thesis using that eq by blast
qed

subsection \<open>Replacing neighbouring chunks\<close>

lemma spot_at:
  assumes "L b = Some xs"
  shows "spot L = spot (L(b := None)) \<union> set (spots (b + 8) xs)"
proof (intro equalityI subsetI)
  fix q assume "q \<in> spot L"
  then obtain b' ys where "L b' = Some ys" "q \<in> set (spots (b' + 8) ys)" by (rule spotE)
  then show "q \<in> spot (L(b := None)) \<union> set (spots (b + 8) xs)"
    using assms spotI [of "L(b := None)" b' ys q] by (cases "b' = b") auto
next
  fix q assume "q \<in> spot (L(b := None)) \<union> set (spots (b + 8) xs)"
  then show "q \<in> spot L"
  proof
    assume "q \<in> spot (L(b := None))"
    then obtain b' ys where "(L(b := None)) b' = Some ys" "q \<in> set (spots (b' + 8) ys)" by (rule spotE)
    then show ?thesis using spotI [of L b' ys q] by (auto split: if_splits)
  qed (use spotI [of L b, OF assms] in blast)
qed

lemma spot_replace:
  assumes r: "regions_ok m" and l: "lay_ok X m L" and L: "L b = Some (as @ zs @ bs)" and a: "a = b + 8 + extent as"
    and e: "extent zs' = extent zs"
  shows "spot (L(b \<mapsto> as @ zs' @ bs)) = (spot L - set (spots a zs)) \<union> set (spots a zs')"
proof -
  define R where "R = spot (L(b := None)) \<union> set (spots (b + 8) as) \<union> set (spots (a + extent zs) bs)"
  have 1: "spot L = R \<union> set (spots a zs)"
    unfolding R_def spot_at [of L b, OF L] a by (auto simp: add.assoc)
  have 2: "spot (L(b \<mapsto> as @ zs' @ bs)) = R \<union> set (spots a zs')"
    using e unfolding R_def a spot_at [of "L(b \<mapsto> as @ zs' @ bs)" b "as @ zs' @ bs", simplified] by (auto simp: add.assoc)
  have "R \<inter> set (spots a zs) = {}"
  proof (rule ccontr)
    assume "R \<inter> set (spots a zs) \<noteq> {}"
    then obtain d t u where q: "(d, t, u) \<in> R" "(d, t, u) \<in> set (spots a zs)" by auto
    have sp: "(d, t, u) \<in> spot L" using 1 q by simp
    have t: "32 \<le> t" using spot_range [OF r l sp] by metis
    have bd: "a \<le> d" "d + t \<le> a + extent zs" using spots_bounds [OF q(2)] by auto
    obtain n where n: "blocks m b = Some n" "extent (as @ zs @ bs) + 32 = n" using lay_okD [OF l L] by metis
    consider (other) b' xs where "b' \<noteq> b" "L b' = Some xs" "(d, t, u) \<in> set (spots (b' + 8) xs)"
      | "(d, t, u) \<in> set (spots (b + 8) as)" | "(d, t, u) \<in> set (spots (a + extent zs) bs)"
      using q(1) unfolding R_def by (auto elim!: spotE split: if_splits)
    then show False
    proof cases
      case other
      obtain n' where n': "blocks m b' = Some n'" "extent xs + 32 = n'" using lay_okD [OF l other(2)] by metis
      show False using regions_apart [OF r n(1) n'(1)] other(1) spots_bounds [OF other(3)] n(2) n'(2) bd t a by auto
    next
      case 2
      then show False using spots_bounds [OF 2] bd t a by auto
    next
      case 3
      then show False using spots_bounds [OF 3] bd t by auto
    qed
  qed
  then show ?thesis using 1 2 by blast
qed

lemma lay_ok_replace:
  assumes r: "regions_ok m" and l: "lay_ok X m L" and L: "L b = Some (as @ zs @ bs)" and a: "a = b + 8 + extent as"
    and e: "extent zs' = extent zs" and bl: "blocks m' = blocks m"
    and h: "\<And>x. x < a \<or> a + extent zs \<le> x \<Longrightarrow> heap m' x = heap m x"
    and z: "\<And>q. q \<in> set (spots a zs') \<Longrightarrow> chunk_ok X' (heap m') q"
    and X: "\<And>x. x \<in> X \<Longrightarrow> x \<in> X' \<or> a \<le> x \<and> x < a + extent zs"
    and n: "blocks m b = Some 262144 \<or> (\<exists>s. as @ zs' @ bs = [(s, True)])"
  shows "lay_ok X' m' (L(b \<mapsto> as @ zs' @ bs))"
  unfolding lay_ok_def
proof (intro allI impI)
  let ?L = "L(b \<mapsto> as @ zs' @ bs)"
  fix b' xs assume b': "?L b' = Some xs"
  obtain n0 where n0: "blocks m b = Some n0" "extent (as @ zs @ bs) + 32 = n0" using lay_okD [OF l L] by metis
  obtain ys where ys: "L b' = Some ys" "b' \<noteq> b \<Longrightarrow> ys = xs" "b' = b \<Longrightarrow> ys = as @ zs @ bs"
    using b' L by (cases "b' = b") auto
  obtain n' where n': "blocks m b' = Some n'" "heap m b' = Some 8" "heap m (b' + n' - 24) = Some 8"
    "extent ys + 32 = n'" "n' = 262144 \<or> (\<exists>s. ys = [(s, True)])"
    using lay_okD [OF l ys(1)] by metis
  have ex: "extent xs = extent ys" using ys b' e by (cases "b' = b") auto
  have out: "x < a \<or> a + extent zs \<le> x" if "x = b' \<or> x = b' + n' - 24" for x
  proof (cases "b' = b")
    case True
    then show ?thesis using that a ys(3) n'(4) by auto
  next
    case False
    then show ?thesis using that regions_apart [OF r n0(1) n'(1)] n0(2) a regions_okD(4) [OF r n'(1)] by auto
  qed
  have "chunk_ok X' (heap m') q" if q: "q \<in> set (spots (b' + 8) xs)" for q
  proof -
    have "q \<in> spot ?L" using spotI [of ?L b' xs, OF b' q] .
    then consider "q \<in> set (spots a zs')" | "q \<in> spot L" "q \<notin> set (spots a zs)"
      using spot_replace [OF r l L a e] by auto
    then show ?thesis
    proof cases
      case 2
      obtain d t u where q: "q = (d, t, u)" by (cases q) auto
      have sp: "(d, t, u) \<in> spot L" using 2(1) q by simp
      have t: "8 dvd t" "32 \<le> t" "heap m d = Some t" "d \<in> X \<or> heap m (d + t - 8) = Some (if u then 0 else t)"
        using spot_range [OF r l sp] by metis+
      have ap: "d + t \<le> a \<or> a + extent zs \<le> d"
      proof -
        obtain b1 xs1 where b1: "L b1 = Some xs1" "(d, t, u) \<in> set (spots (b1 + 8) xs1)" using sp by (rule spotE)
        show ?thesis
        proof (cases "b1 = b")
          case True
          then have "(d, t, u) \<in> set (spots (b + 8) as) \<or> (d, t, u) \<in> set (spots (a + extent zs) bs)"
            using b1 L 2(2) q a by (auto simp: add.assoc)
          then show ?thesis using a by (auto dest: spots_bounds)
        next
          case False
          obtain n1 where n1: "blocks m b1 = Some n1" "extent xs1 + 32 = n1" using lay_okD [OF l b1(1)] by metis
          show ?thesis using regions_apart [OF r n0(1) n1(1)] False spots_bounds [OF b1(2)] n0(2) n1(2) a by auto
        qed
      qed
      have "d < a \<or> a + extent zs \<le> d" "d + t - 8 < a \<or> a + extent zs \<le> d + t - 8" using ap t(2) by auto
      then have "heap m' d = heap m d" "heap m' (d + t - 8) = heap m (d + t - 8)" by (simp_all only: h)
      moreover have "d \<in> X \<Longrightarrow> d \<in> X'" using X [of d] ap t(2) by auto
      ultimately show ?thesis using t q by auto
    qed (use z in simp)
  qed
  moreover have "n' = 262144 \<or> (\<exists>s. xs = [(s, True)])" using n n' ys b' by (cases "b' = b") auto
  ultimately show "\<exists>n. blocks m' b' = Some n \<and> heap m' b' = Some 8 \<and> heap m' (b' + n - 24) = Some 8 \<and>
      extent xs + 32 = n \<and> (\<forall>q \<in> set (spots (b' + 8) xs). chunk_ok X' (heap m') q) \<and>
      (n = 262144 \<or> (\<exists>s. xs = [(s, True)]))"
    using n' bl ex h out by (intro exI [of _ n']) auto
qed

lemma bins_ok_cong:
  assumes b: "bins_ok E m L F" and c: "chunk_bin m' = chunk_bin m"
    and h: "\<And>i c. i < 1576 \<Longrightarrow> c \<in> set (F i) \<Longrightarrow> heap m' (c + 8) = heap m (c + 8) \<and> heap m' (c + 16) = heap m (c + 16)"
    and s: "\<And>c s. c \<notin> E' \<and> (c, s, False) \<in> spot L' \<longleftrightarrow> c \<notin> E \<and> (c, s, False) \<in> spot L"
  shows "bins_ok E' m' L' F"
proof -
  have "dll (heap m') CHUNK_PREV CHUNK_NEXT 0 (F i)" if i: "i < 1576" for i
    by (rule dll_cong [OF bins_okD(4) [OF b i]]) (use h i in simp)
  moreover have "(c \<notin> E' \<and> (\<exists>s. (c, s, False) \<in> spot L' \<and> bin_of s = i)) =
      (c \<notin> E \<and> (\<exists>s. (c, s, False) \<in> spot L \<and> bin_of s = i))" for c i
    using s by blast
  ultimately show ?thesis using b c unfolding bins_ok_def by simp
qed

subsection \<open>The words next to a chunk\<close>

lemma word_before:
  assumes r: "regions_ok m" and l: "lay_ok X m L" and L: "L b = Some (xs @ (s, u) # ys)" and c: "c = b + 8 + extent xs"
  shows "xs = [] \<Longrightarrow> heap m (c - 8) = Some 8"
    "xs = xs' @ [(t, v)] \<Longrightarrow> (c - t, t, v) \<in> spot L \<and> t \<le> c \<and> c - t = b + 8 + extent xs' \<and>
       (c - t \<notin> X \<longrightarrow> heap m (c - 8) = Some (if v then 0 else t))"
proof -
  show "heap m (c - 8) = Some 8" if "xs = []" using lay_okD [OF l L] c that by (metis add_diff_cancel_right' extent_simps(1) add_0_right)
  assume xs: "xs = xs' @ [(t, v)]"
  have sp: "(b + 8 + extent xs', t, v) \<in> spot L" using spotI [of L b, OF L] xs by simp
  have e: "c - t = b + 8 + extent xs'" "t \<le> c" using c xs by auto
  have "c - t \<notin> X \<Longrightarrow> heap m (c - 8) = Some (if v then 0 else t)"
    using spot_range [OF r l sp] e c xs by (metis add_diff_cancel_right' extent_simps le_add_diff_inverse2)
  then show "(c - t, t, v) \<in> spot L \<and> t \<le> c \<and> c - t = b + 8 + extent xs' \<and>
       (c - t \<notin> X \<longrightarrow> heap m (c - 8) = Some (if v then 0 else t))"
    using sp e by simp
qed

lemma word_after:
  assumes l: "lay_ok X m L" and L: "L b = Some (xs @ (s, u) # ys)" and c: "c = b + 8 + extent xs"
  shows "ys = [] \<Longrightarrow> heap m (c + s) = Some 8"
    "ys = (t, v) # ys' \<Longrightarrow> (c + s, t, v) \<in> spot L"
proof -
  show "heap m (c + s) = Some 8" if "ys = []"
  proof -
    obtain n where n: "heap m (b + n - 24) = Some 8" "extent (xs @ (s, u) # ys) + 32 = n"
      using lay_okD [OF l L] by metis
    have "b + n - 24 = c + s" using n(2) c that by auto
    then show ?thesis using n(1) by simp
  qed
  show "(c + s, t, v) \<in> spot L" if "ys = (t, v) # ys'" using spotI [of L b, OF L] c that by (simp add: add.assoc)
qed

subsection \<open>Merging two chunks\<close>

lemma merge_ok:
  assumes r: "regions_ok m" and l: "lay_ok X m L" and b: "bins_ok {} m L F"
    and L: "L b = Some (as @ [(s1, u1), (s2, u2)] @ bs)" and a: "a = b + 8 + extent as"
    and u: "u2 = (\<not> u1)" and X: "X \<subseteq> {a, a + s1}"
  obtains m1 m2 F' where "kl_chunk_del m (if u1 then a + s1 else a) = Some (0, m1)"
    "heap m1 a = Some s1" "heap m1 (a + s1) = Some s2"
    "m2 = m1\<lparr>heap := (heap m1)(a \<mapsto> s1 + s2)\<rparr>" "s1 + s2 < SIZE_MOD"
    "lay_ok {a} m2 (L(b \<mapsto> as @ (s1 + s2, True) # bs))" "bins_ok {} m2 (L(b \<mapsto> as @ (s1 + s2, True) # bs)) F'"
    "tweak (links L \<union> {a}) m m2"
proof -
  let ?e = "if u1 then a + s1 else a" and ?t = "if u1 then s2 else s1"
  let ?L = "L(b \<mapsto> as @ (s1 + s2, True) # bs)"
  have s: "set (spots a [(s1, u1), (s2, u2)]) \<subseteq> spot L"
    unfolding spot_at [of L b, OF L] a by (auto simp: add.assoc)
  then have q: "(a, s1, u1) \<in> spot L" "(a + s1, s2, u2) \<in> spot L" "(?e, ?t, False) \<in> spot L" using u by auto
  obtain m1 F' where d: "kl_chunk_del m ?e = Some (0, m1)" "tweak (links L) m m1" "bins_ok {?e} m1 L F'"
    using chunk_del_ok [OF r l b q(3)] by auto
  have r1: "regions_ok m1" and l1: "lay_ok X m1 L"
    using regions_ok_tweak [OF r d(2)] lay_ok_links [OF r l d(2)] by simp_all
  note c1 = chunk_atD [OF chunk_at_spot [OF r1 l1 q(1)]] and c2 = chunk_atD [OF chunk_at_spot [OF r1 l1 q(2)]]
  define m2 where "m2 = m1\<lparr>heap := (heap m1)(a \<mapsto> s1 + s2)\<rparr>"
  have n: "blocks m1 b = Some 262144"
  proof -
    obtain n where "blocks m1 b = Some n" "n = 262144 \<or> (\<exists>s. as @ [(s1, u1), (s2, u2)] @ bs = [(s, True)])"
      using lay_okD [OF l1 L] by metis
    then show ?thesis by (auto simp: append_eq_Cons_conv)
  qed
  have "lay_ok {a} m2 (L(b \<mapsto> as @ [(s1 + s2, True)] @ bs))"
  proof (rule lay_ok_replace [OF r1 l1 L a])
    show "chunk_ok {a} (heap m2) q" if "q \<in> set (spots a [(s1 + s2, True)])" for q
      using that c1 c2 by (simp add: m2_def)
    show "x \<in> {a} \<or> a \<le> x \<and> x < a + extent [(s1, u1), (s2, u2)]" if "x \<in> X" for x
      using that X c1 c2 by auto
  qed (use n c1 in \<open>auto simp: m2_def\<close>)
  then have l2: "lay_ok {a} m2 ?L" by simp
  have sL: "spot ?L = (spot L - {(a, s1, u1), (a + s1, s2, u2)}) \<union> {(a, s1 + s2, True)}"
    using spot_replace [OF r1 l1 L a, of "[(s1 + s2, True)]"] by (simp add: insert_commute)
  have "bins_ok {} m2 ?L F'"
  proof (rule bins_ok_cong [OF d(3)])
    fix i c assume "i < 1576" "c \<in> set (F' i)"
    then have "c + 8 \<in> links L" "c + 16 \<in> links L" using bin_links [OF d(3)] by blast+
    then have "c + 8 \<noteq> a" "c + 16 \<noteq> a" using links_apart(1) [OF r1 l1 q(1)] by auto
    then show "heap m2 (c + 8) = heap m1 (c + 8) \<and> heap m2 (c + 16) = heap m1 (c + 16)" by (simp add: m2_def)
  next
    fix c t
    show "c \<notin> {} \<and> (c, t, False) \<in> spot ?L \<longleftrightarrow> c \<notin> {?e} \<and> (c, t, False) \<in> spot L"
      unfolding sL using spot_unique [OF r1 l1 q(3)] u by auto
  qed (simp add: m2_def)
  moreover have "tweak (links L \<union> {a}) m m2"
  proof (rule tweak_trans [OF d(2)])
    have "dom ((heap m1)(a \<mapsto> s1 + s2)) = dom (heap m1)" using c1(2) by auto
    then show "tweak {a} m1 m2" unfolding tweak_def m2_def
      by (intro exI [of _ "(heap m1)(a \<mapsto> s1 + s2)"] exI [of _ "chunk_bin m1"]) auto
  qed
  moreover have "s1 + s2 < SIZE_MOD" using c2(4) by simp
  ultimately show ?thesis using that [OF d(1) c1(2) c2(2) m2_def _ l2] by blast
qed

text \<open>The steps of \<open>kl_chunk_put\<close>.  The state while it runs: the block \<open>b\<close> has the chunk \<open>c\<close>
  between the chunks \<open>xs\<close> and \<open>ys\<close>.\<close>

definition putting :: "kl_mem \<Rightarrow> layout \<Rightarrow> (nat \<Rightarrow> nat list) \<Rightarrow> nat \<Rightarrow> (nat \<times> bool) list \<Rightarrow> nat \<Rightarrow> (nat \<times> bool) list \<Rightarrow> bool" where
  "putting m L F b xs s ys \<longleftrightarrow>
     regions_ok m \<and> lay_ok {b + 8 + extent xs} m L \<and> bins_ok {} m L F \<and> L b = Some (xs @ (s, True) # ys)"

lemma puttingD:
  assumes "putting m L F b xs s ys"
  shows "regions_ok m" "lay_ok {b + 8 + extent xs} m L" "bins_ok {} m L F" "L b = Some (xs @ (s, True) # ys)"
    "(b + 8 + extent xs, s, True) \<in> spot L" "chunk_at m (b + 8 + extent xs) s"
proof -
  show p: "regions_ok m" "lay_ok {b + 8 + extent xs} m L" "bins_ok {} m L F" "L b = Some (xs @ (s, True) # ys)"
    using assms by (simp_all add: putting_def)
  show q: "(b + 8 + extent xs, s, True) \<in> spot L" using spotI [of L b, OF p(4)] by simp
  show "chunk_at m (b + 8 + extent xs) s" using chunk_at_spot [OF p(1,2) q] .
qed

lemma links_free: "regions_ok m \<Longrightarrow> lay_ok X m L \<Longrightarrow> links L \<subseteq> free_area L"
proof
  fix x assume r: "regions_ok m" and l: "lay_ok X m L" and "x \<in> links L"
  then obtain d t where q: "(d, t, False) \<in> spot L" "x = d + 8 \<or> x = d + 16" unfolding links_def by blast
  have "32 \<le> t" using spot_range [OF r l q(1)] by metis
  then have "d \<le> x" "x < d + t" using q(2) by auto
  then show "x \<in> free_area L" using q(1) unfolding free_area_def by blast
qed

lemma merge_prev_ok:
  assumes p: "putting m L F b xs s ys" and c: "c = b + 8 + extent xs"
  obtains xs' s' c' m' F' where "merge_prev m c = Some (0, c', m')" "c' = b + 8 + extent xs'"
    "putting m' (L(b \<mapsto> xs' @ (s', True) # ys)) F' b xs' s' ys"
    "xs' = xs \<and> s' = s \<or> (\<exists>t. xs = xs' @ [(t, False)] \<and> s' = t + s)"
    "tweak (free_area L \<union> {c..<c + s}) m m'"
proof -
  note r = puttingD(1) [OF p] and l = puttingD(2) [OF p] and bi = puttingD(3) [OF p] and L = puttingD(4) [OF p]
    and at = puttingD(6) [OF p, folded c]
  have c8: "8 \<le> c" using c by simp
  note result = that
  have same: thesis if e: "merge_prev m c = Some (0, c, m)"
    using e p L by (intro result [of c m xs s F]) (simp_all add: c fun_upd_idem)
  show ?thesis
  proof (cases xs rule: rev_cases)
    case Nil
    then have "heap m (c - 8) = Some 8" using word_before(1) [OF r l L c] by simp
    then show ?thesis using chunk_FIRST [OF at c8] by (intro same) (simp add: merge_prev_def)
  next
    case (snoc xs' q)
    obtain t v where q: "q = (t, v)" by (cases q) auto
    have w: "(c - t, t, v) \<in> spot L" "t \<le> c" "c - t = b + 8 + extent xs'"
      "c - t \<notin> {c} \<longrightarrow> heap m (c - 8) = Some (if v then 0 else t)"
      using word_before(2) [OF r l L c, of xs' t v] snoc q c by auto
    have t: "32 \<le> t" using spot_range [OF r l w(1)] by metis
    then have wv: "heap m (c - 8) = Some (if v then 0 else t)" and ne: "c - t \<noteq> c" using w(2,4) by auto
    have first: "KL_ISFIRST m c = Some False" using chunk_FIRST [OF at c8 wv] t by auto
    have prev: "KL_G_PREV m c = Some (if v then c else c - t)" using chunk_PREV [OF at c8 wv] w(2) by auto
    show ?thesis
    proof (cases v)
      case True
      then show ?thesis using first prev by (intro same) (simp add: merge_prev_def)
    next
      case False
      have "L b = Some (xs' @ [(t, False), (s, True)] @ ys)" using L snoc q False by simp
      from merge_ok [OF r l bi this w(3)] obtain m1 m2 F' where
        k: "kl_chunk_del m (c - t) = Some (0, m1)" "heap m1 (c - t) = Some t" "heap m1 c = Some s"
        "m2 = m1\<lparr>heap := (heap m1)(c - t \<mapsto> t + s)\<rparr>" "t + s < SIZE_MOD"
        "lay_ok {c - t} m2 (L(b \<mapsto> xs' @ (t + s, True) # ys))"
        "bins_ok {} m2 (L(b \<mapsto> xs' @ (t + s, True) # ys)) F'" "tweak (links L \<union> {c - t}) m m2"
        using w(2) by (auto simp: c)
      have use: "KL_ISINUSE m (c - t) = Some False"
        using chunk_INUSE [OF chunk_at_spot [OF r l w(1)], of t] wv False w(2) t by simp
      have "merge_prev m c = Some (0, c - t, m2)"
        unfolding merge_prev_def using first prev ne use k(1-5) False
        by (simp add: rdw_def addw_exact wrw_mapped)
      moreover have "putting m2 (L(b \<mapsto> xs' @ (t + s, True) # ys)) F' b xs' (t + s) ys"
        unfolding putting_def using k(6,7) regions_ok_tweak [OF r k(8)] w(3) by simp
      moreover have "tweak (free_area L \<union> {c..<c + s}) m m2"
      proof (rule tweak_mono [OF k(8)])
        have "c - t \<in> free_area L" using w(1) False t unfolding free_area_def by fastforce
        then show "links L \<union> {c - t} \<subseteq> free_area L \<union> {c..<c + s}" using links_free [OF r l] by blast
      qed
      ultimately show ?thesis using snoc q False by (intro that [of "c - t" m2 xs' "t + s" F']) (simp_all add: w(3))
    qed
  qed
qed

lemma merge_next_ok:
  assumes p: "putting m L F b xs s ys" and c: "c = b + 8 + extent xs"
  obtains ys' s' m' F' where "merge_next m c = Some (0, m')"
    "putting m' (L(b \<mapsto> xs @ (s', True) # ys')) F' b xs s' ys'"
    "ys' = ys \<and> s' = s \<or> (\<exists>t. ys = (t, False) # ys' \<and> s' = s + t)"
    "tweak (free_area L \<union> {c..<c + s}) m m'"
proof -
  note r = puttingD(1) [OF p] and l = puttingD(2) [OF p] and bi = puttingD(3) [OF p] and L = puttingD(4) [OF p]
    and at = puttingD(6) [OF p, folded c] and sp = puttingD(5) [OF p, folded c]
  note result = that
  have same: thesis if e: "merge_next m c = Some (0, m)"
    using e p L by (intro result [of m s ys F]) (simp_all add: c fun_upd_idem)
  have lim: "c + s + 24 < SIZE_MOD" using spot_range [OF r l sp] by metis
  show ?thesis
  proof (cases ys)
    case Nil
    then have "heap m (c + s) = Some 8" using word_after(1) [OF l L c] by simp
    then have "KL_ISLAST m c = Some True" using chunk_LAST [OF at] lim by simp
    then show ?thesis by (intro same) (simp add: merge_next_def)
  next
    case (Cons q ys')
    obtain t v where q: "q = (t, v)" by (cases q) auto
    have w: "(c + s, t, v) \<in> spot L" using word_after(2) [OF l L c] Cons q by simp
    have nc: "c + s \<notin> {c}" using chunk_atD(5) [OF at] by simp
    note at' = chunk_at_spot [OF r l w]
    have ft: "heap m (c + s + t - 8) = Some (if v then 0 else t)" using spot_range [OF r l w] nc c by metis
    have t: "32 \<le> t" "8 dvd t" "heap m (c + s) = Some t" using chunk_atD [OF at'] by simp_all
    have last: "KL_ISLAST m c = Some False" using chunk_LAST [OF at t(3,2)] lim t(1) by auto
    have nx: "KL_G_NEXT m c = Some (c + s)" using chunk_NEXT [OF at] .
    have use: "KL_ISINUSE m (c + s) = Some v" using chunk_INUSE [OF at' ft] t(1) by auto
    show ?thesis
    proof (cases v)
      case True
      then show ?thesis using last nx use by (intro same) (simp add: merge_next_def)
    next
      case False
      have "L b = Some (xs @ [(s, True), (t, False)] @ ys')" using L Cons q False by simp
      from merge_ok [OF r l bi this c] obtain m1 m2 F' where
        k: "kl_chunk_del m (c + s) = Some (0, m1)" "heap m1 c = Some s" "heap m1 (c + s) = Some t"
        "m2 = m1\<lparr>heap := (heap m1)(c \<mapsto> s + t)\<rparr>" "s + t < SIZE_MOD"
        "lay_ok {c} m2 (L(b \<mapsto> xs @ (s + t, True) # ys'))"
        "bins_ok {} m2 (L(b \<mapsto> xs @ (s + t, True) # ys')) F'" "tweak (links L \<union> {c}) m m2"
        by (auto simp: c)
      have "merge_next m c = Some (0, m2)"
        unfolding merge_next_def using last nx use k(1-5) False by (simp add: rdw_def addw_exact wrw_mapped)
      moreover have "putting m2 (L(b \<mapsto> xs @ (s + t, True) # ys')) F' b xs (s + t) ys'"
        unfolding putting_def using k(6,7) regions_ok_tweak [OF r k(8)] c by simp
      moreover have "tweak (free_area L \<union> {c..<c + s}) m m2"
        by (rule tweak_mono [OF k(8)]) (use links_free [OF r l] chunk_atD(5) [OF at] in auto)
      ultimately show ?thesis using Cons q False by (intro that [of m2 "s + t" ys' F']) simp_all
    qed
  qed
qed

subsection \<open>Filing a free chunk\<close>

lemma chunk_push_ok:
  assumes r: "regions_ok m" and l: "lay_ok {} m L" and b: "bins_ok {c} m L F" and q: "(c, s, False) \<in> spot L"
  obtains m' F' where "tweak (links L) m m'" "bins_ok {} m' L F'"
    "(do { m \<leftarrow> list_push CHUNK_PREV CHUNK_NEXT c (chunk_bin m ! bin_of s) m;
           Some (m\<lparr>chunk_bin := (chunk_bin m)[bin_of s := c]\<rparr>) }) = Some m'"
proof -
  have s: "32 \<le> s" "s \<le> 262112" using spot_range [OF r l q] by metis+
  obtain "bin_of s < 1532" by (rule bin_of_ok [OF s])
  then have i: "bin_of s < 1576" by simp
  have cm: "heap m x \<noteq> None" if "c \<le> x" "x < c + s" "8 dvd x" for x using spot_range [OF r l q] that by metis
  have c8: "8 dvd c" "0 < c" using spot_range [OF r l q] by metis+
  let ?i = "bin_of s" and ?A = "insert c (set (F (bin_of s)))"
  have sp: "?A \<subseteq> {c. \<exists>t u. (c, t, u) \<in> spot L}" using bin_spots [OF b i] q by blast
  have nc: "c \<notin> set (F j)" if "j < 1576" for j using bins_okD(5) [OF b that] by simp
  have pre: "c \<noteq> 0" "c \<notin> set (F ?i)" "chunk_bin m ! ?i = hd0 (F ?i)"
    using c8 nc [OF i] bins_okD(2) [OF b i] by simp_all
  have mp: "heap m (CHUNK_PREV c) \<noteq> None" "heap m (CHUNK_NEXT c) \<noteq> None"
    using cm [of "c + 8"] cm [of "c + 16"] c8 s by simp_all
  obtain H where H: "list_push CHUNK_PREV CHUNK_NEXT c (chunk_bin m ! ?i) m = Some (m\<lparr>heap := H\<rparr>)"
    "dll H CHUNK_PREV CHUNK_NEXT 0 (c # F ?i)" "dom H = dom (heap m)"
    "\<And>z. z \<notin> CHUNK_PREV ` ?A \<union> CHUNK_NEXT ` ?A \<Longrightarrow> H z = heap m z"
    using list_push_ok [OF bins_okD(4) [OF b i] pre chunk_fields_apart [OF r l sp] mp] by metis
  let ?m = "m\<lparr>heap := H, chunk_bin := (chunk_bin m)[?i := hd0 (c # F ?i)]\<rparr>"
  have "bins_ok {} ?m L (F(?i := c # F ?i))"
  proof (rule bins_ok_update [OF r l b i sp _ H(4) H(2)])
    show "?A \<inter> set (F j) = {}" if "j < 1576" "j \<noteq> ?i" for j
      using bins_disjoint [OF r l b i that(1)] that(2) nc [OF that(1)] by auto
    show "distinct (c # F ?i)" using nc [OF i] bins_okD(3) [OF b i] by simp
    show "x \<in> set (c # F ?i) \<longleftrightarrow> x \<notin> {} \<and> (\<exists>s'. (x, s', False) \<in> spot L \<and> bin_of s' = ?i)" for x
      using bins_okD(5) [OF b i, of x] q by (cases "x = c") auto
    show "(x \<notin> {} \<and> (\<exists>s. (x, s, False) \<in> spot L \<and> bin_of s = j)) =
      (x \<notin> {c} \<and> (\<exists>s. (x, s, False) \<in> spot L \<and> bin_of s = j))" if "j < 1576" "j \<noteq> ?i" for x j
      using spot_unique(1) [OF r l q] that by blast
  qed
  moreover have "tweak (links L) m ?m"
  proof -
    have "H x = heap m x" if "x \<notin> links L" for x
    proof (rule H(4))
      have "\<And>y. y \<in> ?A \<Longrightarrow> y + 8 \<in> links L \<and> y + 16 \<in> links L" using bin_links [OF b i] q unfolding links_def by blast
      then show "x \<notin> CHUNK_PREV ` ?A \<union> CHUNK_NEXT ` ?A" using that by auto
    qed
    then show ?thesis using H(3) unfolding tweak_def by blast
  qed
  ultimately show ?thesis using that [of ?m] H(1) by simp
qed

lemma chunk_file_ok:
  assumes p: "putting m L F b xs s ys" and c: "c = b + 8 + extent xs" and ne: "xs \<noteq> [] \<or> ys \<noteq> []"
  obtains m' F' where "chunk_file m c = Some m'" "tweak (free_area L \<union> {c..<c + s}) m m'" "regions_ok m'"
    "lay_ok {} m' (L(b \<mapsto> xs @ (s, False) # ys))" "bins_ok {} m' (L(b \<mapsto> xs @ (s, False) # ys)) F'"
proof -
  note r = puttingD(1) [OF p] and l = puttingD(2) [OF p, folded c] and bi = puttingD(3) [OF p] and L = puttingD(4) [OF p]
    and at = puttingD(6) [OF p, folded c] and sp = puttingD(5) [OF p, folded c]
  let ?L = "L(b \<mapsto> xs @ (s, False) # ys)"
  define m1 where "m1 = m\<lparr>heap := (heap m)(c + s - 8 \<mapsto> s)\<rparr>"
  have s: "8 dvd c" "heap m c = Some s" "8 dvd s" "c + s < SIZE_MOD" "32 \<le> s" using chunk_atD [OF at] .
  have n: "blocks m b = Some 262144"
  proof -
    obtain n where "blocks m b = Some n" "n = 262144 \<or> (\<exists>s'. xs @ (s, True) # ys = [(s', True)])"
      using lay_okD [OF l L] by metis
    then show ?thesis using ne by (auto simp: append_eq_Cons_conv)
  qed
  have "heap m x \<noteq> None" if "c \<le> x" "x < c + s" "8 dvd x" for x using spot_range [OF r l sp] that by metis
  moreover have "8 dvd c + s - 8" using s by (intro dvd_diff_nat) auto
  ultimately have mp: "heap m (c + s - 8) \<noteq> None" using s(5) by simp
  have t1: "tweak {c + s - 8} m m1"
  proof -
    have "dom ((heap m)(c + s - 8 \<mapsto> s)) = dom (heap m)" using mp by (auto simp: domIff)
    then show ?thesis unfolding tweak_def m1_def
      by (intro exI [of _ "(heap m)(c + s - 8 \<mapsto> s)"] exI [of _ "chunk_bin m"]) auto
  qed
  have r1: "regions_ok m1" using regions_ok_tweak [OF r t1] .
  have L': "L b = Some (xs @ [(s, True)] @ ys)" using L by simp
  have "lay_ok {} m1 (L(b \<mapsto> xs @ [(s, False)] @ ys))"
  proof (rule lay_ok_replace [OF r l L' c])
    show "chunk_ok {} (heap m1) q" if "q \<in> set (spots c [(s, False)])" for q using that s by (simp add: m1_def)
    show "heap m1 x = heap m x" if "x < c \<or> c + extent [(s, True)] \<le> x" for x using that s(5) by (auto simp: m1_def)
  qed (use n s(5) in \<open>auto simp: m1_def\<close>)
  then have l1: "lay_ok {} m1 ?L" by simp
  have sL: "spot ?L = (spot L - {(c, s, True)}) \<union> {(c, s, False)}"
    using spot_replace [OF r l L' c, of "[(s, False)]"] by simp
  have b1: "bins_ok {c} m1 ?L F"
  proof (rule bins_ok_cong [OF bi])
    fix i d assume "i < 1576" "d \<in> set (F i)"
    then have "d + 8 \<in> links L" "d + 16 \<in> links L" using bin_links [OF bi] by blast+
    then have "d + 8 \<noteq> c + s - 8" "d + 16 \<noteq> c + s - 8" using links_apart(2) [OF r l sp] by auto
    then show "heap m1 (d + 8) = heap m (d + 8) \<and> heap m1 (d + 16) = heap m (d + 16)" by (simp add: m1_def)
  next
    fix d t show "d \<notin> {c} \<and> (d, t, False) \<in> spot ?L \<longleftrightarrow> d \<notin> {} \<and> (d, t, False) \<in> spot L"
      unfolding sL using spot_unique(2) [OF r l sp] by auto
  qed (simp add: m1_def)
  have q1: "(c, s, False) \<in> spot ?L" using sL by simp
  obtain m2 F' where m2: "tweak (links ?L) m1 m2" "bins_ok {} m2 ?L F'"
    "(do { m \<leftarrow> list_push CHUNK_PREV CHUNK_NEXT c (chunk_bin m1 ! bin_of s) m1;
           Some (m\<lparr>chunk_bin := (chunk_bin m)[bin_of s := c]\<rparr>) }) = Some m2"
    by (rule chunk_push_ok [OF r1 l1 b1 q1])
  have lim: "s \<le> 262112" using spot_range [OF r1 l1 q1] by metis
  obtain k where k: "KL_SIZE2BIN s = Some k" "k < 1532" "bin_of s = (if s < bin2size ! k \<and> 0 < k then k - 1 else k)"
    "bin_of s < 1532" "bin2size ! bin_of s \<le> s" by (rule bin_of_ok [OF s(5) lim])
  have len: "bin_of s < length (chunk_bin m1)" using bins_okD(1) [OF b1, of 0] k(4) by simp
  have at1: "chunk_at m1 c s" using chunk_at_spot [OF r1 l1 q1] .
  have "chunk_file m c = Some m2"
    unfolding chunk_file_def
    using s(2) chunk_FTR [OF at] mp chunk_SIZE [OF at1] k(1,2,4,5) len m2(3)
    by (simp add: rdw_def wrw_mapped' KL_ISSMALLBIN_def KL_BIN2SIZE_def flip: m1_def k(3))
  moreover have "tweak (free_area L \<union> {c..<c + s}) m m2"
  proof (rule tweak_mono [OF tweak_trans [OF t1 m2(1)]])
    have "free_area ?L \<subseteq> free_area L \<union> {c..<c + s}" unfolding free_area_def sL by auto
    then show "{c + s - 8} \<union> links ?L \<subseteq> free_area L \<union> {c..<c + s}" using links_free [OF r1 l1] s(5) by auto
  qed
  ultimately show ?thesis
    using that m2(2) lay_ok_links [OF r1 l1 m2(1)] regions_ok_tweak [OF r1 m2(1)] by blast
qed

subsection \<open>Giving back a block\<close>

text \<open>The stack of undesignated blocks.\<close>

definition undes :: "kl_mem \<Rightarrow> nat list" where
  "undes m = take (num_undes m) (undes_bin m)"

definition undes_ok :: "kl_mem \<Rightarrow> bool" where
  "undes_ok m \<longleftrightarrow>
     num_undes m \<le> 4 \<and> length (undes_bin m) = 4 \<and> distinct (undes m) \<and> (\<forall>b \<in> set (undes m). blocks m b = Some 262144)"

lemma undes_push:
  assumes "undes_ok m" and "num_undes m < 4"
  shows "undes (m\<lparr>heap := H, undes_bin := (undes_bin m)[num_undes m := b], num_undes := num_undes m + 1\<rparr>) = undes m @ [b]"
  using assms by (simp add: undes_def undes_ok_def take_Suc_conv_app_nth)

lemma lay_ok_cong:
  assumes l: "lay_ok X m L"
    and L: "\<And>b xs. L' b = Some xs \<Longrightarrow> L b = Some xs \<and> blocks m' b = blocks m b"
    and h: "\<And>b n x. b \<in> dom L' \<Longrightarrow> blocks m b = Some n \<Longrightarrow> b \<le> x \<Longrightarrow> x < b + n \<Longrightarrow> heap m' x = heap m x"
    and X: "\<And>d t u. (d, t, u) \<in> spot L' \<Longrightarrow> d \<in> X \<Longrightarrow> d \<in> X'"
  shows "lay_ok X' m' L'"
  unfolding lay_ok_def
proof (intro allI impI)
  fix b xs assume b: "L' b = Some xs"
  obtain n where n: "blocks m b = Some n" "heap m b = Some 8" "heap m (b + n - 24) = Some 8"
    "extent xs + 32 = n" "\<And>q. q \<in> set (spots (b + 8) xs) \<Longrightarrow> chunk_ok X (heap m) q"
    "n = 262144 \<or> (\<exists>s. xs = [(s, True)])"
    using lay_okD [OF l conjunct1 [OF L [OF b]]] by metis
  have same: "heap m' x = heap m x" if "b \<le> x" "x < b + n" for x using h [of b n x] b n(1) that by blast
  have "chunk_ok X' (heap m') q" if q: "q \<in> set (spots (b + 8) xs)" for q
  proof -
    obtain d t u where e: "q = (d, t, u)" by (cases q) auto
    have "b + 8 \<le> d" "d + t \<le> b + 8 + extent xs" using spots_bounds [of d t u] q e by simp_all
    moreover have "32 \<le> t" using n(5) [OF q] e by simp
    ultimately have "heap m' d = heap m d" "heap m' (d + t - 8) = heap m (d + t - 8)"
      using same [of d] same [of "d + t - 8"] n(4) by simp_all
    then show ?thesis using n(5) [OF q] X [of d t u] spotI [of L' b, OF b q] e by auto
  qed
  moreover have "heap m' b = Some 8" "heap m' (b + n - 24) = Some 8"
    using same [of b] same [of "b + n - 24"] n(2-4) by simp_all
  ultimately show "\<exists>n. blocks m' b = Some n \<and> heap m' b = Some 8 \<and> heap m' (b + n - 24) = Some 8 \<and>
      extent xs + 32 = n \<and> (\<forall>q \<in> set (spots (b + 8) xs). chunk_ok X' (heap m') q) \<and>
      (n = 262144 \<or> (\<exists>s. xs = [(s, True)]))"
    using n L [OF b] by (intro exI [of _ n]) auto
qed

text \<open>What the operations on chunks leave alone.\<close>

definition same_side :: "kl_mem \<Rightarrow> kl_mem \<Rightarrow> bool" where
  "same_side m m' \<longleftrightarrow> brick_bin m' = brick_bin m \<and> enabled m' = enabled m"

lemma spot_drop: "L b = Some [(s, True)] \<Longrightarrow> spot L = spot (L(b := None)) \<union> {(b + 8, s, True)}"
  using spot_at [of L b "[(s, True)]"] by simp

lemma regions_ok_free:
  assumes r: "regions_ok m" and b: "blocks m b = Some n" and m: "blocks m' = (blocks m)(b := None)"
    and h: "\<And>x. x < b \<or> b + n \<le> x \<Longrightarrow> (heap m' x = None) = (heap m x = None)"
  shows "regions_ok m'"
  unfolding regions_ok_def
proof (intro conjI allI impI)
  fix b1 n1 assume 1: "blocks m' b1 = Some n1"
  then have b1: "blocks m b1 = Some n1" "b1 \<noteq> b" using m by (auto split: if_splits)
  show "0 < b1" "8 dvd b1" "8 dvd n1" "262144 \<le> n1" "b1 + n1 < SIZE_MOD" using regions_okD [OF r b1(1)] by simp_all
  show "heap m' x \<noteq> None" if "b1 \<le> x" "x < b1 + n1" "8 dvd x" for x
    using regions_okD(6) [OF r b1(1) that] regions_apart [OF r b1(1) b b1(2)] that h [of x] by auto
  fix b2 n2 assume "blocks m' b2 = Some n2" "b1 \<noteq> b2"
  then show "b1 + n1 \<le> b2 \<or> b2 + n2 \<le> b1" using regions_apart [OF r b1(1)] m by (auto split: if_splits)
qed

text \<open>The only chunk of a block.\<close>

lemma sole_chunk:
  assumes p: "putting m L F b [] s []"
  shows "blocks m b = Some (s + 32)" "KL_BLOCK_SIZE s = s + 32" "KL_G_PREV m (b + 8) = Some b" "KL_G_SIZE m (b + 8) = Some s"
proof -
  have e: "b + 8 + extent [] = b + 8" by simp
  note r = puttingD(1) [OF p] and l = puttingD(2) [OF p, unfolded e] and at = puttingD(6) [OF p, unfolded e]
  obtain n where n: "blocks m b = Some n" "extent [(s, True)] + 32 = n" "heap m b = Some 8"
    using lay_okD [OF l] puttingD(4) [OF p] by (metis append_Nil)
  show nb: "blocks m b = Some (s + 32)" using n by simp
  have "8 dvd s" using chunk_atD [OF at] by simp
  moreover have "s + 39 < SIZE_MOD" using aligned_SIZE [of "s + 32"] regions_okD(3,5) [OF r nb] by simp
  then have "KL_BLOCK_SIZE s = (s + 39) div 8 * 8" by (rule KL_BLOCK_SIZE_eq)
  ultimately show "KL_BLOCK_SIZE s = s + 32" by presburger
  show "KL_G_PREV m (b + 8) = Some b" using chunk_PREV [OF at, of 8] n(3) by simp
  show "KL_G_SIZE m (b + 8) = Some s" using chunk_SIZE [OF at] .
qed

text \<open>What only changes inside a block that leaves the layout keeps all other blocks and the bins.\<close>

lemma drop_block_frame:
  assumes p: "putting m L F b [] s []" and bl: "\<forall>b'. b' \<noteq> b \<longrightarrow> blocks m' b' = blocks m b'" and bn: "chunk_bin m' = chunk_bin m"
    and hp: "\<forall>x. x < b \<or> b + (s + 32) \<le> x \<longrightarrow> heap m' x = heap m x"
  shows "lay_ok {} m' (L(b := None))" "bins_ok {} m' (L(b := None)) F"
proof -
  have e: "b + 8 + extent [] = b + 8" by simp
  note r = puttingD(1) [OF p] and l = puttingD(2) [OF p, unfolded e] and bi = puttingD(3) [OF p] and L = puttingD(4) [OF p]
  note n = sole_chunk(1) [OF p]
  have far: "heap m' x = heap m x" if "b' \<noteq> b" "blocks m b' = Some n'" "b' \<le> x" "x < b' + n'" for b' n' x
    using regions_apart [OF r n that(2)] that by (intro mp [OF spec [OF hp]]) auto
  show "lay_ok {} m' (L(b := None))"
  proof (rule lay_ok_cong [OF l])
    show "L b' = Some xs \<and> blocks m' b' = blocks m b'" if "(L(b := None)) b' = Some xs" for b' xs
      using that bl by (auto split: if_splits)
    show "heap m' x = heap m x" if "b' \<in> dom (L(b := None))" "blocks m b' = Some n'" "b' \<le> x" "x < b' + n'" for b' n' x
      using that by (intro far) auto
    show "d \<in> {}" if d: "(d, t, u) \<in> spot (L(b := None))" "d \<in> {b + 8}" for d t u
    proof -
      obtain b' ys where b': "b' \<noteq> b" "L b' = Some ys" "(d, t, u) \<in> set (spots (b' + 8) ys)"
        using d(1) by (auto elim!: spotE split: if_splits)
      obtain n' where n': "blocks m b' = Some n'" "extent ys + 32 = n'" using lay_okD [OF l b'(2)] by metis
      show ?thesis using spots_bounds [OF b'(3)] regions_apart [OF r n n'(1)] b'(1) n'(2) d(2) regions_okD(4) [OF r n] by auto
    qed
  qed
  show "bins_ok {} m' (L(b := None)) F"
  proof (rule bins_ok_cong [OF bi bn])
    fix i c assume "i < 1576" "c \<in> set (F i)"
    then obtain t where q: "(c, t, False) \<in> spot L" using bins_okD(5) [OF bi] by blast
    then have "(c, t, False) \<in> spot (L(b := None))" using spot_drop [of L b s] L by auto
    then obtain b' ys where b': "b' \<noteq> b" "L b' = Some ys" "(c, t, False) \<in> set (spots (b' + 8) ys)"
      by (auto elim!: spotE split: if_splits)
    obtain n' where n': "blocks m b' = Some n'" "extent ys + 32 = n'" using lay_okD [OF l b'(2)] by metis
    have "32 \<le> t" using spot_range [OF r l q] by metis
    then show "heap m' (c + 8) = heap m (c + 8) \<and> heap m' (c + 16) = heap m (c + 16)"
      using spots_bounds [OF b'(3)] n'(2) by (intro conjI far [OF b'(1) n'(1)]) auto
  next
    fix c t show "c \<notin> {} \<and> (c, t, False) \<in> spot (L(b := None)) \<longleftrightarrow> c \<notin> {} \<and> (c, t, False) \<in> spot L"
      using spot_drop [of L b s] L by auto
  qed
qed

lemma chunk_release_ok:
  assumes p: "putting m L F b [] s []" and u: "undes_ok m" "b \<notin> set (undes m)"
  obtains m' where "chunk_release m (b + 8) = Some m'" "regions_ok m'" "lay_ok {} m' (L(b := None))"
    "bins_ok {} m' (L(b := None)) F" "undes_ok m'" "set (undes m') \<subseteq> insert b (set (undes m))" "same_side m m'"
    "answers m' = answers m" "\<And>x. x < b \<or> b + s + 32 \<le> x \<Longrightarrow> heap m' x = heap m x"
    "\<And>b'. b' \<noteq> b \<Longrightarrow> blocks m' b' = blocks m b'" "blocks m' b = None \<or> b \<in> set (undes m')"
proof -
  note r = puttingD(1) [OF p] and n = sole_chunk(1) [OF p] and KB = sole_chunk(2) [OF p] and pv = sole_chunk(3) [OF p] and sz = sole_chunk(4) [OF p]
  show ?thesis
  proof (cases "num_undes m < UNDES_BIN_NUM \<and> BLOCK_DEFAULT_SIZE = KL_BLOCK_SIZE s")
    case True
    then have nu: "num_undes m < 4" and n2: "s + 32 = 262144" using KB by (simp_all add: UNDES_BIN_NUM_def BLOCK_DEFAULT_SIZE_def)
    define H where "H = (\<lambda>x. if b \<le> x \<and> x < b + 262144
        then map_option (\<lambda>v. if x + 8 \<le> b + 262144 then 0 else v div 2 ^ (8 * (b + 262144 - x)) * 2 ^ (8 * (b + 262144 - x))) (heap m x)
        else heap m x)"
    let ?m = "m\<lparr>heap := H, undes_bin := (undes_bin m)[num_undes m := b], num_undes := num_undes m + 1\<rparr>"
    have "\<forall>i < 32768. heap m (b + 8 * i) \<noteq> None"
      using regions_okD(2,6) [OF r n] n2 by auto
    then have mz: "memzero m b BLOCK_DEFAULT_SIZE = Some (m\<lparr>heap := H\<rparr>)"
      by (simp add: memzero_def H_def BLOCK_DEFAULT_SIZE_def list_all_iff)
    have eq: "chunk_release m (b + 8) = Some ?m"
      unfolding chunk_release_def using pv sz True mz by simp
    have dm: "dom H = dom (heap m)" by (auto simp: H_def dom_def split: if_splits)
    have un: "undes ?m = undes m @ [b]" using undes_push [OF u(1) nu] .
    have "undes_ok ?m"
      using u nu n n2 un unfolding undes_ok_def by (auto simp: un)
    moreover have "regions_ok ?m" using regions_ok_cong [OF r, of ?m] dm by simp
    moreover have "lay_ok {} ?m (L(b := None))" "bins_ok {} ?m (L(b := None)) F"
      by (rule drop_block_frame [OF p]; simp add: H_def n2)+
    moreover have "heap ?m x = heap m x" if "x < b \<or> b + s + 32 \<le> x" for x using that n2 by (auto simp: H_def)
    ultimately show ?thesis using that [OF eq] un by (simp add: same_side_def)
  next
    case False
    let ?m = "m\<lparr>mem_total := subw (mem_total m) (KL_BLOCK_SIZE s), blocks := (blocks m)(b := None),
                heap := (\<lambda>x. if b \<le> x \<and> x < b + (s + 32) then None else heap m x)\<rparr>"
    have eq: "chunk_release m (b + 8) = Some ?m"
      by (simp add: chunk_release_def pv sz if_not_P [OF False] sys_free_def n cong: if_cong)
    have "regions_ok ?m" by (rule regions_ok_free [OF r n]) auto
    moreover have "lay_ok {} ?m (L(b := None))" "bins_ok {} ?m (L(b := None)) F"
      by (rule drop_block_frame [OF p]; simp)+
    moreover have "undes_ok ?m" using u unfolding undes_ok_def by (auto simp: undes_def)
    moreover have "(if b \<le> x \<and> x < b + (s + 32) then None else heap m x) = heap m x" if "x < b \<or> b + s + 32 \<le> x" for x
      using that by auto
    ultimately show ?thesis
      using that [OF eq] by (simp add: same_side_def undes_def subset_insertI)
  qed
qed

subsection \<open>The invariant, and freeing a chunk\<close>

definition chunks_inv :: "kl_mem \<Rightarrow> layout \<Rightarrow> (nat \<Rightarrow> nat list) \<Rightarrow> bool" where
  "chunks_inv m L F \<longleftrightarrow>
     regions_ok m \<and> lay_ok {} m L \<and> bins_ok {} m L F \<and> undes_ok m \<and> set (undes m) \<inter> dom L = {}"

text \<open>The chunks that are in use, with their sizes.\<close>

definition used :: "layout \<Rightarrow> (nat \<times> nat) set" where
  "used L = {(d, t). (d, t, True) \<in> spot L}"

text \<open>What an operation on chunks keeps: the contents of the chunks in use other than those at \<open>A\<close>,
  and the blocks outside \<open>D\<close> with all they hold.\<close>

definition keeps :: "layout \<Rightarrow> nat set \<Rightarrow> nat set \<Rightarrow> kl_mem \<Rightarrow> kl_mem \<Rightarrow> bool" where
  "keeps L A D m m' \<longleftrightarrow>
     (\<forall>d t x. (d, t) \<in> used L \<longrightarrow> d \<notin> A \<longrightarrow> d \<le> x \<longrightarrow> x < d + t \<longrightarrow> heap m' x = heap m x) \<and>
     (\<forall>b n. b \<notin> D \<longrightarrow> blocks m b = Some n \<longrightarrow>
        blocks m' b = Some n \<and> (\<forall>x. b \<le> x \<longrightarrow> x < b + n \<longrightarrow> heap m' x = heap m x)) \<and> same_side m m'"

lemma keepsD:
  assumes "keeps L A D m m'"
  shows "(d, t) \<in> used L \<Longrightarrow> d \<notin> A \<Longrightarrow> d \<le> x \<Longrightarrow> x < d + t \<Longrightarrow> heap m' x = heap m x"
    "b \<notin> D \<Longrightarrow> blocks m b = Some n \<Longrightarrow> blocks m' b = Some n"
    "b \<notin> D \<Longrightarrow> blocks m b = Some n \<Longrightarrow> b \<le> x \<Longrightarrow> x < b + n \<Longrightarrow> heap m' x = heap m x" "same_side m m'"
  using assms unfolding keeps_def by blast+

lemma keeps_trans:
  assumes 1: "keeps L A D m m1" and 2: "keeps L1 A1 D1 m1 m2" and D: "D1 \<subseteq> D"
    and u: "\<And>d t. (d, t) \<in> used L \<Longrightarrow> d \<notin> A \<Longrightarrow> (d, t) \<in> used L1 \<and> d \<notin> A1"
  shows "keeps L A D m m2"
proof -
  have "heap m2 x = heap m x" if d: "(d, t) \<in> used L" "d \<notin> A" "d \<le> x" "x < d + t" for d t x
    using keepsD(1) [OF 1 d] keepsD(1) [OF 2, of d t x] u [OF d(1,2)] d(3,4) by simp
  moreover have "blocks m2 b = Some n \<and> (\<forall>x. b \<le> x \<longrightarrow> x < b + n \<longrightarrow> heap m2 x = heap m x)"
    if b: "b \<notin> D" "blocks m b = Some n" for b n
  proof -
    have b1: "b \<notin> D1" "blocks m1 b = Some n" using D b keepsD(2) [OF 1 b] by auto
    show ?thesis using keepsD(2,3) [OF 2 b1] keepsD(3) [OF 1 b] by simp
  qed
  moreover have "same_side m m2" using keepsD(4) [OF 1] keepsD(4) [OF 2] by (simp add: same_side_def)
  ultimately show ?thesis unfolding keeps_def by blast
qed

lemma same_side_trans: "same_side m m' \<Longrightarrow> same_side m' m'' \<Longrightarrow> same_side m m''"
  by (simp add: same_side_def)

lemma keeps_tweak:
  assumes r: "regions_ok m" and l: "lay_ok X m L" and w: "tweak (free_area L \<union> {c..<c + s}) m m'" and c: "(c, s) \<in> used L"
  shows "keeps L {c} (dom L) m m'"
proof -
  have cs: "(c, s, True) \<in> spot L" using c by (simp add: used_def)
  have 1: "heap m' x = heap m x" if "(d, t) \<in> used L" "d \<notin> {c}" "d \<le> x" "x < d + t" for d t x
  proof (rule tweakD(3) [OF w])
    have sp: "(d, t, True) \<in> spot L" using that by (simp add: used_def)
    have "x \<notin> free_area L"
    proof
      assume "x \<in> free_area L"
      then obtain d' t' where q: "(d', t', False) \<in> spot L" "d' \<le> x" "x < d' + t'" unfolding free_area_def by blast
      then show False using spot_apart [OF r l sp q(1)] that by auto
    qed
    moreover have "x \<notin> {c..<c + s}" using spot_apart [OF r l sp cs] that by auto
    ultimately show "x \<notin> free_area L \<union> {c..<c + s}" by simp
  qed
  have 2: "heap m' x = heap m x" if b: "b \<notin> dom L" "blocks m b = Some n" "b \<le> x" "x < b + n" for b n x
  proof (rule tweakD(3) [OF w])
    have "x < d \<or> d + t \<le> x" if q: "(d, t, u) \<in> spot L" for d t u
    proof -
      obtain b' n' where b': "b' \<in> dom L" "blocks m b' = Some n'" "b' + 8 \<le> d" "d + t + 24 \<le> b' + n'"
        using spot_range [OF r l q] by metis
      then have "b \<noteq> b'" using b(1) by blast
      then show ?thesis using regions_apart [OF r b(2) b'(2)] b b' by auto
    qed
    then show "x \<notin> free_area L \<union> {c..<c + s}" using cs unfolding free_area_def by fastforce
  qed
  show ?thesis
    unfolding keeps_def using 1 2 tweakD [OF w] by (auto simp: same_side_def)
qed

lemma tweak_undes: "tweak A m m' \<Longrightarrow> undes m' = undes m"
  using tweakD(4,5) by (simp add: undes_def)

lemma tweak_undes_ok: "tweak A m m' \<Longrightarrow> undes_ok m \<Longrightarrow> undes_ok m'"
  using tweakD(1,4,5) tweak_undes [of A m m'] by (simp add: undes_ok_def)

lemma free_area_merged:
  assumes r: "regions_ok m" and l: "lay_ok X m L" and L: "L b = Some (as @ zs @ bs)" and a: "a = b + 8 + extent as"
    and e: "extent zs' = extent zs" and c: "(c, s, True) \<in> set (spots a zs)"
    and z: "zs' = [(s', True)]" and k: "\<And>d t. (d, t, True) \<in> set (spots a zs) \<Longrightarrow> d = c"
    and t: "\<And>x. a \<le> x \<Longrightarrow> x < a + extent zs \<Longrightarrow> \<exists>d t u. (d, t, u) \<in> set (spots a zs) \<and> d \<le> x \<and> x < d + t"
  shows "free_area (L(b \<mapsto> as @ zs' @ bs)) \<union> {a..<a + s'} \<subseteq> free_area L \<union> {c..<c + s}"
    and "used (L(b \<mapsto> as @ zs' @ bs)) - {(a, s')} = used L - {(c, s)}"
proof -
  let ?L = "L(b \<mapsto> as @ zs' @ bs)"
  have sL: "spot ?L = (spot L - set (spots a zs)) \<union> {(a, s', True)}"
    using spot_replace [OF r l L a e] z by simp
  have in_L: "set (spots a zs) \<subseteq> spot L" unfolding spot_at [of L b, OF L] a by auto
  have s': "s' = extent zs" using e z by simp
  show "free_area ?L \<union> {a..<a + s'} \<subseteq> free_area L \<union> {c..<c + s}"
  proof (intro Un_least subsetI)
    fix x assume "x \<in> free_area ?L"
    then show "x \<in> free_area L \<union> {c..<c + s}" unfolding free_area_def sL by auto
  next
    fix x assume x: "x \<in> {a..<a + s'}"
    then have "a \<le> x" "x < a + extent zs" using s' by auto
    from t [OF this] obtain d t u where q: "(d, t, u) \<in> set (spots a zs)" "d \<le> x" "x < d + t" by blast
    show "x \<in> free_area L \<union> {c..<c + s}"
    proof (cases u)
      case True
      then have "d = c" using k q(1) by simp
      then have "t = s" using spot_unique(1) [OF r l, of c s True t u] c q(1) in_L by auto
      then show ?thesis using q \<open>d = c\<close> by simp
    next
      case False
      then have "(d, t, False) \<in> spot L" using q(1) in_L by auto
      then show ?thesis using q(2,3) unfolding free_area_def by blast
    qed
  qed
  have "(c, s, True) \<in> spot L" using c in_L by blast
  have "(d, t) \<noteq> (a, s') \<and> (d, t, True) \<in> spot ?L \<longleftrightarrow> (d, t) \<noteq> (c, s) \<and> (d, t, True) \<in> spot L" for d t
  proof
    assume x: "(d, t) \<noteq> (a, s') \<and> (d, t, True) \<in> spot ?L"
    then show "(d, t) \<noteq> (c, s) \<and> (d, t, True) \<in> spot L" using sL c by auto
  next
    assume x: "(d, t) \<noteq> (c, s) \<and> (d, t, True) \<in> spot L"
    have "(d, t, True) \<notin> set (spots a zs)"
    proof
      assume q: "(d, t, True) \<in> set (spots a zs)"
      then have "d = c" using k by blast
      then show False using x spot_unique(1) [OF r l \<open>(c, s, True) \<in> spot L\<close>, of t True] by auto
    qed
    moreover have "(d, t) \<noteq> (a, s')"
    proof
      assume e: "(d, t) = (a, s')"
      have "c + s \<le> a + s'" "a \<le> c" using spots_bounds [OF c] s' by auto
      moreover have "32 \<le> s" "32 \<le> t" using spot_range [OF r l \<open>(c, s, True) \<in> spot L\<close>] spot_range [OF r l conjunct2 [OF x]] by metis+
      ultimately show False using spot_apart [OF r l conjunct2 [OF x] \<open>(c, s, True) \<in> spot L\<close>] x e by auto
    qed
    ultimately show "(d, t) \<noteq> (a, s') \<and> (d, t, True) \<in> spot ?L" using x sL by blast
  qed
  then show "used ?L - {(a, s')} = used L - {(c, s)}" unfolding used_def by auto
qed

lemma merged_pair:
  assumes r: "regions_ok m" and l: "lay_ok X m L" and L: "L b = Some (as @ [(s1, u1), (s2, u2)] @ bs)"
    and a: "a = b + 8 + extent as" and u: "u2 = (\<not> u1)" and c: "(c, s) = (if u1 then (a, s1) else (a + s1, s2))"
  shows "free_area (L(b \<mapsto> as @ (s1 + s2, True) # bs)) \<union> {a..<a + (s1 + s2)} \<subseteq> free_area L \<union> {c..<c + s}"
    "used (L(b \<mapsto> as @ (s1 + s2, True) # bs)) - {(a, s1 + s2)} = used L - {(c, s)}"
proof -
  have k: "d = c" if "(d, t, True) \<in> set (spots a [(s1, u1), (s2, u2)])" for d t
    using that u c by (auto split: if_splits)
  have m: "(c, s, True) \<in> set (spots a [(s1, u1), (s2, u2)])" using u c by (auto split: if_splits)
  have t: "\<exists>d t u. (d, t, u) \<in> set (spots a [(s1, u1), (s2, u2)]) \<and> d \<le> x \<and> x < d + t"
    if x: "a \<le> x" "x < a + extent [(s1, u1), (s2, u2)]" for x
  proof (cases "x < a + s1")
    case True
    then show ?thesis using x by (intro exI [of _ a] exI [of _ s1] exI [of _ u1]) auto
  next
    case False
    then show ?thesis using x by (intro exI [of _ "a + s1"] exI [of _ s2] exI [of _ u2]) auto
  qed
  show "free_area (L(b \<mapsto> as @ (s1 + s2, True) # bs)) \<union> {a..<a + (s1 + s2)} \<subseteq> free_area L \<union> {c..<c + s}"
    using free_area_merged(1) [OF r l L a _ m refl k t] by simp
  show "used (L(b \<mapsto> as @ (s1 + s2, True) # bs)) - {(a, s1 + s2)} = used L - {(c, s)}"
    using free_area_merged(2) [OF r l L a _ m refl k t] by simp
qed

text \<open>After both merges.\<close>

lemma merges_ok:
  assumes p: "putting m L F b xs s ys" and c: "c = b + 8 + extent xs"
  obtains m1 c' m2 xs' s' ys' F' where "merge_prev m c = Some (0, c', m1)" "merge_next m1 c' = Some (0, m2)"
    "c' = b + 8 + extent xs'" "putting m2 (L(b \<mapsto> xs' @ (s', True) # ys')) F' b xs' s' ys'"
    "used (L(b \<mapsto> xs' @ (s', True) # ys')) - {(c', s')} = used L - {(c, s)}"
    "free_area (L(b \<mapsto> xs' @ (s', True) # ys')) \<union> {c'..<c' + s'} \<subseteq> free_area L \<union> {c..<c + s}"
    "tweak (free_area L \<union> {c..<c + s}) m m2"
proof -
  obtain xs' s1 c' m1 F1 where 1: "merge_prev m c = Some (0, c', m1)" "c' = b + 8 + extent xs'"
    "putting m1 (L(b \<mapsto> xs' @ (s1, True) # ys)) F1 b xs' s1 ys"
    "xs' = xs \<and> s1 = s \<or> (\<exists>t. xs = xs' @ [(t, False)] \<and> s1 = t + s)"
    "tweak (free_area L \<union> {c..<c + s}) m m1"
    by (rule merge_prev_ok [OF p c])
  let ?L1 = "L(b \<mapsto> xs' @ (s1, True) # ys)"
  obtain ys' s2 m2 F2 where 2: "merge_next m1 c' = Some (0, m2)"
    "putting m2 (?L1(b \<mapsto> xs' @ (s2, True) # ys')) F2 b xs' s2 ys'"
    "ys' = ys \<and> s2 = s1 \<or> (\<exists>t. ys = (t, False) # ys' \<and> s2 = s1 + t)"
    "tweak (free_area ?L1 \<union> {c'..<c' + s1}) m1 m2"
    by (rule merge_next_ok [OF 1(3,2)])
  let ?L2 = "L(b \<mapsto> xs' @ (s2, True) # ys')"
  note L = puttingD(4) [OF p] and r = puttingD(1) [OF p] and l = puttingD(2) [OF p]
  note r1 = puttingD(1) [OF 1(3)] and l1 = puttingD(2) [OF 1(3)]
  have A: "free_area ?L1 \<union> {c'..<c' + s1} \<subseteq> free_area L \<union> {c..<c + s} \<and> used ?L1 - {(c', s1)} = used L - {(c, s)}"
    using 1(4)
  proof (elim disjE exE conjE)
    assume e: "xs' = xs" "s1 = s"
    then have "?L1 = L" using L by (simp add: fun_upd_idem)
    then show ?thesis using e 1(2) c by simp
  next
    fix t assume e: "xs = xs' @ [(t, False)]" "s1 = t + s"
    have "L b = Some (xs' @ [(t, False), (s, True)] @ ys)" using L e by simp
    from merged_pair [OF r l this 1(2), of c s] show ?thesis using e c 1(2) by simp
  qed
  have B: "free_area ?L2 \<union> {c'..<c' + s2} \<subseteq> free_area ?L1 \<union> {c'..<c' + s1} \<and> used ?L2 - {(c', s2)} = used ?L1 - {(c', s1)}"
    using 2(3)
  proof (elim disjE exE conjE)
    fix t assume e: "ys = (t, False) # ys'" "s2 = s1 + t"
    have "?L1 b = Some (xs' @ [(s1, True), (t, False)] @ ys')" using e by simp
    note m = merged_pair [where L = ?L1, OF r1 l1 this 1(2), of c' s1]
    have "?L1(b \<mapsto> xs' @ (s1 + t, True) # ys') = ?L2" using e by simp
    then show ?thesis using m e by simp
  qed simp
  have w: "tweak (free_area L \<union> {c..<c + s}) m m2"
    using tweak_trans [OF 1(5) tweak_mono [OF 2(4) conjunct1 [OF A]]] by simp
  show ?thesis
  proof (rule that [OF 1(1) 2(1) 1(2)])
    show "putting m2 ?L2 F2 b xs' s2 ys'" using 2(2) by simp
    show "used ?L2 - {(c', s2)} = used L - {(c, s)}" using A B by simp
    show "free_area ?L2 \<union> {c'..<c' + s2} \<subseteq> free_area L \<union> {c..<c + s}" using A B by blast
    show "tweak (free_area L \<union> {c..<c + s}) m m2" by (rule w)
  qed
qed

text \<open>A chunk knows whether it is the first and the last one of its block.\<close>

lemma put_ends:
  assumes p: "putting m L F b xs s ys" and c: "c = b + 8 + extent xs"
  shows "KL_ISFIRST m c = Some (xs = [])" "KL_ISLAST m c = Some (ys = [])"
proof -
  note r = puttingD(1) [OF p] and l = puttingD(2) [OF p] and L = puttingD(4) [OF p]
    and sp = puttingD(5) [OF p, folded c] and at = puttingD(6) [OF p, folded c]
  have "c + s + 24 < SIZE_MOD" using spot_range [OF r l sp] by metis
  then have c8: "8 \<le> c" and lim: "c + s + 8 < SIZE_MOD" using c by simp_all
  show "KL_ISFIRST m c = Some (xs = [])"
  proof (cases xs rule: rev_cases)
    case Nil
    then show ?thesis using chunk_FIRST [OF at c8] word_before(1) [OF r l L c] by simp
  next
    case (snoc zs q)
    obtain t v where q: "q = (t, v)" by (cases q) auto
    have w: "(c - t, t, v) \<in> spot L" "t \<le> c" "c - t \<notin> {c} \<longrightarrow> heap m (c - 8) = Some (if v then 0 else t)"
      using word_before(2) [OF r l L c, of zs t v] snoc q c by auto
    have "32 \<le> t" using spot_range [OF r l w(1)] by metis
    then show ?thesis using chunk_FIRST [OF at c8, of "if v then 0 else t"] w(2,3) snoc by auto
  qed
  show "KL_ISLAST m c = Some (ys = [])"
  proof (cases ys)
    case Nil
    then show ?thesis using chunk_LAST [OF at _ _ lim, of 8] word_after(1) [OF l L c] by simp
  next
    case (Cons q zs)
    obtain t v where q: "q = (t, v)" by (cases q) auto
    have "(c + s, t, v) \<in> spot L" using word_after(2) [OF l L c] Cons q by simp
    then have "heap m (c + s) = Some t" "8 dvd t" "32 \<le> t" using chunk_atD [OF chunk_at_spot [OF r l]] by blast+
    then show ?thesis using chunk_LAST [OF at _ _ lim, of t] Cons by auto
  qed
qed

text \<open>The chunks of the other blocks when a block with a single chunk leaves.\<close>

lemma drop_used:
  assumes p: "putting m L F b [] s []"
  shows "used (L(b := None)) = used L - {(b + 8, s)}"
    and "(d, t) \<in> used (L(b := None)) \<Longrightarrow> d \<le> x \<Longrightarrow> x < d + t \<Longrightarrow> x < b \<or> b + s + 32 \<le> x"
proof -
  have e: "b + 8 + extent [] = b + 8" by simp
  note r = puttingD(1) [OF p] and l = puttingD(2) [OF p, unfolded e] and L = puttingD(4) [OF p] and n = sole_chunk(1) [OF p]
  have away: "x < b \<or> b + s + 32 \<le> x" if q: "(d, t, u) \<in> spot (L(b := None))" "d \<le> x" "x < d + t" for d t u x
  proof -
    obtain b' zs where b': "b' \<noteq> b" "L b' = Some zs" "(d, t, u) \<in> set (spots (b' + 8) zs)"
      using q(1) by (auto elim!: spotE split: if_splits)
    obtain n' where n': "blocks m b' = Some n'" "extent zs + 32 = n'" using lay_okD [OF l b'(2)] by metis
    show ?thesis using spots_bounds [OF b'(3)] regions_apart [OF r n n'(1)] b'(1) n'(2) q(2,3) by auto
  qed
  show "x < b \<or> b + s + 32 \<le> x" if "(d, t) \<in> used (L(b := None))" "d \<le> x" "x < d + t" using away that by (auto simp: used_def)
  have "(b + 8, s, True) \<notin> spot (L(b := None))" using away [of "b + 8" s True "b + 8"] chunk_atD(3-5) [OF puttingD(6) [OF p]] by auto
  then show "used (L(b := None)) = used L - {(b + 8, s)}" using spot_drop [of L b s] L by (auto simp: used_def)
qed

lemma keeps_drop:
  assumes r: "regions_ok m" and k: "keeps L {c} (dom L) m m2" and b: "b \<in> dom L" and n: "blocks m b = Some (s + 32)"
    and h: "\<forall>x. x < b \<or> b + s + 32 \<le> x \<longrightarrow> heap m' x = heap m2 x" "\<forall>b'. b' \<noteq> b \<longrightarrow> blocks m' b' = blocks m2 b'"
    and d: "\<And>d t x. (d, t) \<in> used L \<Longrightarrow> d \<noteq> c \<Longrightarrow> d \<le> x \<Longrightarrow> x < d + t \<Longrightarrow> x < b \<or> b + s + 32 \<le> x"
    and e: "same_side m2 m'"
  shows "keeps L {c} (dom L) m m'"
  unfolding keeps_def
proof (intro conjI allI impI)
  fix q t x assume q: "(q, t) \<in> used L" "q \<notin> {c}" "q \<le> x" "x < q + t"
  then show "heap m' x = heap m x" using h(1) d [of q t x] keepsD(1) [OF k q] by auto
next
  fix b' n' assume b': "b' \<notin> dom L" "blocks m b' = Some n'"
  have ne: "b' \<noteq> b" using b' b by auto
  show "blocks m' b' = Some n'" using h(2) ne keepsD(2) [OF k b'] by simp
  show "heap m' x = heap m x" if x: "b' \<le> x" "x < b' + n'" for x
    using regions_apart [OF r b'(2) n ne] x h(1) keepsD(3) [OF k b' x] by auto
next
  show "same_side m m'" using same_side_trans [OF keepsD(4) [OF k] e] .
qed

lemma chunk_put_ok:
  assumes p: "putting m L F b xs s ys" and c: "c = b + 8 + extent xs"
    and u: "undes_ok m" "set (undes m) \<inter> dom L = {}"
  obtains m' L' F' where "kl_chunk_put m c = Some (0, m')" "chunks_inv m' L' F'" "used L' = used L - {(c, s)}"
    "keeps L {c} (dom L) m m'" "answers m' = answers m" "dom L' \<subseteq> dom L" "set (undes m') \<subseteq> set (undes m) \<union> dom L"
    "\<And>b'. b' \<in> dom L \<Longrightarrow> b' \<in> dom L' \<or> b' \<in> set (undes m') \<or> blocks m' b' = None"
proof -
  note L = puttingD(4) [OF p] and r = puttingD(1) [OF p] and l = puttingD(2) [OF p]
  obtain m1 c' m2 xs' s' ys' F' where k: "merge_prev m c = Some (0, c', m1)" "merge_next m1 c' = Some (0, m2)"
    "c' = b + 8 + extent xs'" "putting m2 (L(b \<mapsto> xs' @ (s', True) # ys')) F' b xs' s' ys'"
    "used (L(b \<mapsto> xs' @ (s', True) # ys')) - {(c', s')} = used L - {(c, s)}"
    "free_area (L(b \<mapsto> xs' @ (s', True) # ys')) \<union> {c'..<c' + s'} \<subseteq> free_area L \<union> {c..<c + s}"
    "tweak (free_area L \<union> {c..<c + s}) m m2"
    by (rule merges_ok [OF p c])
  let ?L = "L(b \<mapsto> xs' @ (s', True) # ys')"
  have at: "chunk_at m c s" "chunk_at m2 c' s'" using puttingD(6) [OF p] puttingD(6) [OF k(4)] c k(3) by simp_all
  have cu: "(c, s) \<in> used L" using puttingD(5) [OF p] c by (simp add: used_def)
  have u2: "undes_ok m2" "undes m2 = undes m" using tweak_undes_ok [OF k(7) u(1)] tweak_undes [OF k(7)] by simp_all
  have bL: "b \<in> dom L" using L by blast
  have head: "kl_chunk_put m c = do { m \<leftarrow> (if xs' = [] \<and> ys' = [] then chunk_release m2 c' else chunk_file m2 c'); Some (0, m) }"
    unfolding kl_chunk_put_def
    using chunk_SIZE [OF at(1)] chunk_SIZE [OF at(2)] chunk_atD(5) [OF at(1)] chunk_atD(5) [OF at(2)] k(1,2) put_ends [OF k(4,3)]
    by (simp add: CHUNK_MIN_SIZE_def)
  show ?thesis
  proof (cases "xs' = [] \<and> ys' = []")
    case True
    have p2: "putting m2 ?L F' b [] s' []" and c2: "c' = b + 8" using k(3,4) True by simp_all
    have "b \<notin> set (undes m2)" using u(2) u2 bL by auto
    then obtain m3 where 3: "chunk_release m2 (b + 8) = Some m3" "regions_ok m3" "lay_ok {} m3 (?L(b := None))"
      "bins_ok {} m3 (?L(b := None)) F'" "undes_ok m3" "set (undes m3) \<subseteq> insert b (set (undes m2))" "same_side m2 m3"
      "answers m3 = answers m2" "\<And>x. x < b \<or> b + s' + 32 \<le> x \<Longrightarrow> heap m3 x = heap m2 x"
      "\<And>b'. b' \<noteq> b \<Longrightarrow> blocks m3 b' = blocks m2 b'" "blocks m3 b = None \<or> b \<in> set (undes m3)"
      using chunk_release_ok [OF p2 u2(1)] by metis
    have us: "used (L(b := None)) = used L - {(c, s)}" using drop_used(1) [OF p2] k(5) c2 by simp
    have "keeps L {c} (dom L) m m3"
    proof (rule keeps_drop [OF r keeps_tweak [OF r l k(7) cu] bL])
      show "blocks m b = Some (s' + 32)" using sole_chunk(1) [OF p2] tweakD(1) [OF k(7)] by simp
      show "\<forall>x. x < b \<or> b + s' + 32 \<le> x \<longrightarrow> heap m3 x = heap m2 x" "\<forall>b'. b' \<noteq> b \<longrightarrow> blocks m3 b' = blocks m2 b'" using 3(9,10) by blast+
      show "x < b \<or> b + s' + 32 \<le> x" if "(d, t) \<in> used L" "d \<noteq> c" "d \<le> x" "x < d + t" for d t x
        using drop_used(2) [OF p2, of d t x] us that by auto
    qed (rule 3(7))
    moreover have "chunks_inv m3 (L(b := None)) F'"
      using 3(2-6) u(2) u2(2) unfolding chunks_inv_def by auto
    moreover have "kl_chunk_put m c = Some (0, m3)" using head True 3(1) c2 by simp
    moreover have "answers m3 = answers m" using 3(8) tweakD(9) [OF k(7)] by simp
    moreover have "set (undes m3) \<subseteq> set (undes m) \<union> dom L" using 3(6) u2(2) bL by auto
    ultimately show ?thesis using that [of m3 "L(b := None)" F'] us 3(11) by auto
  next
    case False
    obtain m3 F3 where 3: "chunk_file m2 c' = Some m3" "tweak (free_area ?L \<union> {c'..<c' + s'}) m2 m3" "regions_ok m3"
      "lay_ok {} m3 (?L(b \<mapsto> xs' @ (s', False) # ys'))" "bins_ok {} m3 (?L(b \<mapsto> xs' @ (s', False) # ys')) F3"
      by (rule chunk_file_ok [OF k(4,3)]) (use False in auto)
    let ?L3 = "L(b \<mapsto> xs' @ (s', False) # ys')"
    have w: "tweak (free_area L \<union> {c..<c + s}) m m3"
      using tweak_trans [OF k(7) tweak_mono [OF 3(2) k(6)]] by simp
    have "spot (?L(b \<mapsto> xs' @ [(s', False)] @ ys')) = (spot ?L - set (spots c' [(s', True)])) \<union> set (spots c' [(s', False)])"
      by (rule spot_replace [OF puttingD(1,2) [OF k(4)] _ k(3)]) simp_all
    then have "used ?L3 = used L - {(c, s)}" unfolding k(5) [symmetric] by (auto simp: used_def)
    moreover have "chunks_inv m3 ?L3 F3"
      using 3(3-5) u tweak_undes_ok [OF w u(1)] tweak_undes [OF w] bL unfolding chunks_inv_def by auto
    moreover have "keeps L {c} (dom L) m m3" using keeps_tweak [OF r l w cu] .
    moreover have "kl_chunk_put m c = Some (0, m3)" using head False 3(1) by auto
    ultimately show ?thesis using that [of m3 ?L3 F3] tweakD(9) [OF w] tweak_undes [OF w] bL by auto
  qed
qed

end
