(* ===== verification/Kl_Get.thy ===== *)
theory Kl_Get
  imports Kl_Chunk
begin

text \<open>
  Allocating chunks: designating a block, splitting a chunk, blocks with a single chunk.
\<close>

subsection \<open>Blocks from the system\<close>

text \<open>What the system allocator promises of the address it returns.\<close>

definition fresh_block :: "kl_mem \<Rightarrow> nat \<Rightarrow> nat \<Rightarrow> bool" where
  "fresh_block m p n \<longleftrightarrow>
     0 < p \<and> 8 dvd p \<and> p + n < SIZE_MOD \<and> (\<forall>b k. blocks m b = Some k \<longrightarrow> p + n \<le> b \<or> b + k \<le> p)"

definition supplied :: "kl_mem \<Rightarrow> nat \<Rightarrow> bool" where
  "supplied m n \<longleftrightarrow> (case answers m of [] \<Rightarrow> False | p # _ \<Rightarrow> fresh_block m p n)"

lemma block_alloc_ok:
  assumes r: "regions_ok m" and f: "supplied m n" and n: "8 dvd n" "262144 \<le> n"
  obtains p m' where "kl_block_alloc m n = (p, m')" "0 < p" "blocks m p = None" "blocks m' = (blocks m)(p \<mapsto> n)"
    "regions_ok m'" "chunk_bin m' = chunk_bin m" "num_undes m' = num_undes m" "undes_bin m' = undes_bin m" "same_side m m'"
    "\<And>x. x < p \<or> p + n \<le> x \<Longrightarrow> heap m' x = heap m x"
proof -
  obtain p ps where a: "answers m = p # ps" "fresh_block m p n" using f by (auto simp: supplied_def split: list.splits)
  note p = a(2) [unfolded fresh_block_def]
  let ?H = "\<lambda>x. if p \<le> x \<and> x < p + n \<and> 8 dvd x then Some 0 else heap m x"
  obtain t mx where e: "kl_block_alloc m n =
      (p, m\<lparr>answers := ps, blocks := (blocks m)(p \<mapsto> n), heap := ?H, mem_total := t, mem_max := mx, sys_ctr := addw (sys_ctr m) 1\<rparr>)"
    using a p by (auto simp: kl_block_alloc_def sys_alloc_def Let_def)
  have "blocks m p = None"
  proof (rule ccontr)
    assume "blocks m p \<noteq> None"
    then obtain k where k: "blocks m p = Some k" by blast
    then show False using p n regions_okD(4) [OF r k] by fastforce
  qed
  moreover have "regions_ok (m\<lparr>answers := ps, blocks := (blocks m)(p \<mapsto> n), heap := ?H, mem_total := t, mem_max := mx, sys_ctr := addw (sys_ctr m) 1\<rparr>)"
    unfolding regions_ok_def
  proof (intro conjI allI impI)
    fix b k assume b: "blocks (m\<lparr>answers := ps, blocks := (blocks m)(p \<mapsto> n), heap := ?H, mem_total := t, mem_max := mx, sys_ctr := addw (sys_ctr m) 1\<rparr>) b = Some k"
    show "0 < b" "8 dvd b" "8 dvd k" "262144 \<le> k" "b + k < SIZE_MOD"
      using b p n regions_okD [OF r, of b k] by (auto split: if_splits)
    show "heap (m\<lparr>answers := ps, blocks := (blocks m)(p \<mapsto> n), heap := ?H, mem_total := t, mem_max := mx, sys_ctr := addw (sys_ctr m) 1\<rparr>) x \<noteq> None"
      if "b \<le> x" "x < b + k" "8 dvd x" for x
      using b that regions_okD(6) [OF r, of b k x] by (auto split: if_splits)
    fix b' k' assume b': "blocks (m\<lparr>answers := ps, blocks := (blocks m)(p \<mapsto> n), heap := ?H, mem_total := t, mem_max := mx, sys_ctr := addw (sys_ctr m) 1\<rparr>) b' = Some k'" "b \<noteq> b'"
    show "b + k \<le> b' \<or> b' + k' \<le> b"
      using b b' p regions_apart [OF r, of b k b' k'] by (auto split: if_splits)
  qed
  moreover have "?H x = heap m x" if "x < p \<or> p + n \<le> x" for x using that by auto
  ultimately show ?thesis using that [OF e] p by (simp add: same_side_def)
qed

lemma undes_pop:
  assumes "undes_ok m" and "num_undes m \<noteq> 0"
  shows "undes m = undes (m\<lparr>num_undes := num_undes m - 1\<rparr>) @ [undes_bin m ! (num_undes m - 1)]"
proof -
  obtain k where "num_undes m = Suc k" using assms(2) not0_implies_Suc by blast
  then show ?thesis using assms(1) by (simp add: undes_def undes_ok_def take_Suc_conv_app_nth)
qed

lemma designate_ok:
  assumes r: "regions_ok m" and u: "undes_ok m" and s: "num_undes m \<noteq> 0 \<or> supplied m 262144"
  obtains b m' where "designate m = Some (b, m')" "0 < b" "b \<in> set (undes m) \<or> blocks m b = None"
    "blocks m' = (blocks m)(b \<mapsto> 262144)" "regions_ok m'" "undes_ok m'" "set (undes m') = set (undes m) - {b}"
    "chunk_bin m' = chunk_bin m" "same_side m m'" "\<And>x. x < b \<or> b + 262144 \<le> x \<Longrightarrow> heap m' x = heap m x"
proof (cases "num_undes m = 0")
  case True
  then have f: "supplied m 262144" using s by simp
  obtain p m' where 1: "kl_block_alloc m 262144 = (p, m')" "0 < p" "blocks m p = None" "blocks m' = (blocks m)(p \<mapsto> 262144)"
    "regions_ok m'" "chunk_bin m' = chunk_bin m" "num_undes m' = num_undes m" "undes_bin m' = undes_bin m" "same_side m m'"
    "\<And>x. x < p \<or> p + 262144 \<le> x \<Longrightarrow> heap m' x = heap m x"
    by (rule block_alloc_ok [OF r f]) simp_all
  show ?thesis
  proof (rule that [of p m'])
    show "designate m = Some (p, m')" using True 1(1) by (simp add: designate_def BLOCK_DEFAULT_SIZE_def)
    show "undes_ok m'" using u True 1(7,8) by (simp add: undes_ok_def undes_def)
    show "set (undes m') = set (undes m) - {p}" using True 1(7) by (simp add: undes_def)
  qed (use 1 in simp_all)
next
  case False
  let ?b = "undes_bin m ! (num_undes m - 1)" and ?m = "m\<lparr>num_undes := num_undes m - 1\<rparr>"
  have e: "undes m = undes ?m @ [?b]" using undes_pop [OF u False] .
  have d: "distinct (undes m)" "\<forall>b \<in> set (undes m). blocks m b = Some 262144" "num_undes m \<le> 4" "length (undes_bin m) = 4"
    using u by (simp_all add: undes_ok_def)
  have b: "?b \<in> set (undes m)" "blocks m ?b = Some 262144" using d(2) e by (auto simp: e)
  show ?thesis
  proof (rule that [of ?b ?m])
    show "designate m = Some (?b, ?m)" using False d by (simp add: designate_def)
    show "0 < ?b" using regions_okD(1) [OF r b(2)] .
    show "?b \<in> set (undes m) \<or> blocks m ?b = None" using b by simp
    show "blocks ?m = (blocks m)(?b \<mapsto> 262144)" using b(2) by (simp add: fun_upd_idem)
    show "regions_ok ?m" using regions_ok_cong [OF r, of ?m] by simp
    show "undes_ok ?m" using d e unfolding undes_ok_def by auto
    show "set (undes ?m) = set (undes m) - {?b}" using d(1) unfolding e by auto
  qed (simp_all add: same_side_def)
qed

subsection \<open>A block for chunks\<close>

text \<open>A block that is designated is not in the layout, and the layout does not notice.\<close>

lemma outside_layout:
  assumes r: "regions_ok m'" and l: "lay_ok X m L" and b: "blocks m' = (blocks m)(b \<mapsto> n)" "b \<notin> dom L"
    and h: "\<And>x. x < b \<or> b + n \<le> x \<Longrightarrow> heap m' x = heap m x"
  shows "lay_ok X m' L"
    "bins_ok E m L F \<Longrightarrow> regions_ok m \<Longrightarrow> chunk_bin m' = chunk_bin m \<Longrightarrow> bins_ok E m' L F"
proof -
  have far: "heap m' x = heap m x" if "b' \<in> dom L" "blocks m b' = Some k" "b' \<le> x" "x < b' + k" for b' k x
  proof -
    have "b' \<noteq> b" using that(1) b(2) by auto
    then have "blocks m' b' = Some k" "blocks m' b = Some n" using that(2) b(1) by simp_all
    then show ?thesis using regions_apart [OF r] \<open>b' \<noteq> b\<close> that(3,4) by (intro h) fastforce
  qed
  show "lay_ok X m' L"
  proof (rule lay_ok_cong [OF l])
    show "L b' = Some xs \<and> blocks m' b' = blocks m b'" if "L b' = Some xs" for b' xs
      using that b by auto
  qed (use far in auto)
  assume bi: "bins_ok E m L F" and r0: "regions_ok m" and cb: "chunk_bin m' = chunk_bin m"
  show "bins_ok E m' L F"
  proof (rule bins_ok_cong [OF bi cb])
    fix i c assume "i < 1576" "c \<in> set (F i)"
    then obtain t where q: "(c, t, False) \<in> spot L" using bins_okD(5) [OF bi] by blast
    obtain b' k where k: "b' \<in> dom L" "blocks m b' = Some k" "b' + 8 \<le> c" "c + t + 24 \<le> b' + k" "32 \<le> t"
      using spot_range [OF r0 l q] by metis
    then show "heap m' (c + 8) = heap m (c + 8) \<and> heap m' (c + 16) = heap m (c + 16)"
      by (intro conjI far [OF k(1,2)]) auto
  qed simp
qed

lemma spot_new: "L b = None \<Longrightarrow> spot (L(b \<mapsto> xs)) = spot L \<union> set (spots (b + 8) xs)"
  using spot_at [of "L(b \<mapsto> xs)" b xs] by (simp add: fun_upd_idem)

lemma lay_ok_new:
  assumes r: "regions_ok m" and l: "lay_ok {} m L" and b: "blocks m b = Some n" "b \<notin> dom L"
    and h: "heap m b = Some 8" "heap m (b + n - 24) = Some 8" "heap m (b + 8) = Some s" "s + 32 = n"
  shows "lay_ok {b + 8} m (L(b \<mapsto> [(s, True)]))"
  unfolding lay_ok_def
proof (intro allI impI)
  fix b' xs assume b': "(L(b \<mapsto> [(s, True)])) b' = Some xs"
  show "\<exists>n. blocks m b' = Some n \<and> heap m b' = Some 8 \<and> heap m (b' + n - 24) = Some 8 \<and>
      extent xs + 32 = n \<and> (\<forall>q \<in> set (spots (b' + 8) xs). chunk_ok {b + 8} (heap m) q) \<and>
      (n = 262144 \<or> (\<exists>s. xs = [(s, True)]))"
  proof (cases "b' = b")
    case True
    have "8 dvd n" "262144 \<le> n" using regions_okD(3,4) [OF r b(1)] by simp_all
    then have "8 dvd s" "32 \<le> s" using h(4) by presburger+
    then show ?thesis using True b' b h by (intro exI [of _ n]) auto
  next
    case False
    then have L: "L b' = Some xs" using b' by simp
    obtain k where k: "blocks m b' = Some k" "heap m b' = Some 8" "heap m (b' + k - 24) = Some 8" "extent xs + 32 = k"
      "\<And>q. q \<in> set (spots (b' + 8) xs) \<Longrightarrow> chunk_ok {} (heap m) q" "k = 262144 \<or> (\<exists>s. xs = [(s, True)])"
      using lay_okD [OF l L] by metis
    have "chunk_ok {b + 8} (heap m) q" if "q \<in> set (spots (b' + 8) xs)" for q
      using k(5) [OF that] by (cases q) auto
    then show ?thesis using k by (intro exI [of _ k]) blast
  qed
qed

text \<open>A free chunk that is out of its bin is loose.\<close>

lemma loosen:
  assumes r: "regions_ok m" and l: "lay_ok {} m L" and b: "bins_ok {c} m L F"
    and L: "L b = Some (xs @ (s, False) # ys)" and c: "c = b + 8 + extent xs"
  shows "putting m (L(b \<mapsto> xs @ (s, True) # ys)) F b xs s ys"
    "used (L(b \<mapsto> xs @ (s, True) # ys)) = insert (c, s) (used L)"
proof -
  let ?L = "L(b \<mapsto> xs @ (s, True) # ys)"
  have L': "L b = Some (xs @ [(s, False)] @ ys)" using L by simp
  have q: "(c, s, False) \<in> spot L" using spotI [of L b, OF L] c by simp
  have n: "blocks m b = Some 262144"
  proof -
    obtain n where "blocks m b = Some n" "n = 262144 \<or> (\<exists>t. xs @ (s, False) # ys = [(t, True)])"
      using lay_okD [OF l L] by metis
    then show ?thesis by (auto simp: append_eq_Cons_conv)
  qed
  have "lay_ok {c} m (L(b \<mapsto> xs @ [(s, True)] @ ys))"
    by (rule lay_ok_replace [OF r l L' c])
      (use n chunk_atD [OF chunk_at_spot [OF r l q]] in auto)
  moreover have sL: "spot ?L = (spot L - {(c, s, False)}) \<union> {(c, s, True)}"
    using spot_replace [OF r l L' c, of "[(s, True)]"] by simp
  moreover have "bins_ok {} m ?L F"
  proof (rule bins_ok_cong [OF b])
    fix d t show "d \<notin> {} \<and> (d, t, False) \<in> spot ?L \<longleftrightarrow> d \<notin> {c} \<and> (d, t, False) \<in> spot L"
      unfolding sL using spot_unique [OF r l q] by auto
  qed simp_all
  ultimately show "putting m ?L F b xs s ys" "used ?L = insert (c, s) (used L)"
    using r c unfolding putting_def used_def by auto
qed

text \<open>Changes inside chunks that are free, or whose address is in \<open>A\<close>.\<close>

lemma keeps_inside:
  assumes r: "regions_ok m" and l: "lay_ok X m L" and w: "tweak W m m'"
    and W: "\<And>x. x \<in> W \<Longrightarrow> \<exists>d t u. (d, t, u) \<in> spot L \<and> (u \<longrightarrow> d \<in> A) \<and> d \<le> x \<and> x < d + t"
  shows "keeps L A (dom L) m m'"
proof -
  have 1: "heap m' x = heap m x" if "(d, t) \<in> used L" "d \<notin> A" "d \<le> x" "x < d + t" for d t x
  proof (rule tweakD(3) [OF w], rule notI)
    assume "x \<in> W"
    then obtain d' t' u where q: "(d', t', u) \<in> spot L" "u \<longrightarrow> d' \<in> A" "d' \<le> x" "x < d' + t'" using W by blast
    have sp: "(d, t, True) \<in> spot L" using that(1) by (simp add: used_def)
    show False using spot_apart [OF r l sp q(1)] that q by auto
  qed
  have 2: "heap m' x = heap m x" if b: "b \<notin> dom L" "blocks m b = Some n" "b \<le> x" "x < b + n" for b n x
  proof (rule tweakD(3) [OF w], rule notI)
    assume "x \<in> W"
    then obtain d t u where q: "(d, t, u) \<in> spot L" "d \<le> x" "x < d + t" using W by blast
    obtain b' n' where b': "b' \<in> dom L" "blocks m b' = Some n'" "b' + 8 \<le> d" "d + t + 24 \<le> b' + n'"
      using spot_range [OF r l q(1)] by metis
    then have "b \<noteq> b'" using b(1) by blast
    then show False using regions_apart [OF r b(2) b'(2)] b b' q by auto
  qed
  show ?thesis unfolding keeps_def using 1 2 tweakD [OF w] by (auto simp: same_side_def)
qed

text \<open>Taking the first chunk of a bin takes it out of the bin like \<open>kl_chunk_del\<close>.\<close>

lemma bin_pop_ok:
  assumes r: "regions_ok m" and l: "lay_ok {} m L" and bi: "bins_ok {} m L F" and i: "i < 1576" and F: "F i = c # zs"
  obtains s b xs ys m' F' where "bin_pop m c i = Some m'" "0 < c" "c = b + 8 + extent xs" "bin2size ! i \<le> s" "s \<le> 262112"
    "(c, s, False) \<in> spot L" "b \<in> dom L"
    "putting m' (L(b \<mapsto> xs @ (s, True) # ys)) F' b xs s ys" "tweak (links L) m m'"
    "used (L(b \<mapsto> xs @ (s, True) # ys)) = insert (c, s) (used L)" "blocks m' b = Some 262144"
proof -
  obtain s where q: "(c, s, False) \<in> spot L" "bin_of s = i" using bins_okD(5) [OF bi i] F by auto
  have s: "32 \<le> s" "s \<le> 262112" using spot_range [OF r l q(1)] by metis+
  have c: "heap m x \<noteq> None" if "c \<le> x" "x < c + s" "8 dvd x" for x using spot_range [OF r l q(1)] that by metis
  have c8: "8 dvd c" "0 < c" using spot_range [OF r l q(1)] by metis+
  obtain k where k: "KL_SIZE2BIN s = Some k" "k < 1532" "bin_of s = (if s < bin2size ! k \<and> 0 < k then k - 1 else k)"
    "bin2size ! bin_of s \<le> s" by (rule bin_of_ok [OF s])
  obtain m' F' where d: "kl_chunk_del m c = Some (0, m')" "tweak (links L) m m'" "bins_ok {c} m' L F'"
    using chunk_del_ok [OF r l bi q(1)] by auto
  note at = chunk_at_spot [OF r l q(1)]
  have dl: "heap m (c + 8) = Some 0" "heap m (c + 16) = Some (hd0 zs)" "dll (heap m) CHUNK_PREV CHUNK_NEXT c zs" "c \<notin> set zs"
    using bins_okD(3,4) [OF bi i] F by simp_all
  have hz: "hd0 zs \<noteq> 0 \<Longrightarrow> heap m (hd0 zs + 8) = Some c \<and> hd0 zs + 8 \<noteq> c + 8 \<and> hd0 zs + 8 \<noteq> c + 16"
    using dl(3,4) chunk_fields_apart [OF r l bin_spots [OF bi i]] F
    by (cases zs) (auto simp: fields_apart_def)
  let ?H = "if hd0 zs = 0 then heap m else (heap m)(hd0 zs + 8 \<mapsto> 0)"
  let ?B = "(chunk_bin m)[i := hd0 zs]"
  have un: "list_unlink CHUNK_PREV CHUNK_NEXT c (chunk_bin m ! i) m = Some (hd0 zs, m\<lparr>heap := ?H\<rparr>)"
    using dl(1,2) hz by (simp add: list_unlink_def rdw_def wrw_def)
  have H: "?H (c + 8) = Some 0" "?H (c + 16) = Some (hd0 zs)" using dl(1,2) hz by auto
  have "kl_chunk_del m c = Some (0, m\<lparr>heap := ?H(c + 16 \<mapsto> 0), chunk_bin := ?B\<rparr>)"
    unfolding kl_chunk_del_def
    using k(1,2) chunk_SIZE [OF at] chunk_atD(2) [OF at] s un H i bins_okD(1) [OF bi i]
    by (simp add: KL_BIN2SIZE_def KL_ISSMALLBIN_def CHUNK_MIN_SIZE_def rdw_def wrw_mapped fun_upd_idem q(2) del: if_cancel flip: k(3))
  moreover have "bin_pop m c i = Some (m\<lparr>heap := ?H(c + 16 \<mapsto> 0), chunk_bin := ?B\<rparr>)"
    using dl(2) hz H(2) by (auto simp: bin_pop_def rdw_def wrw_def)
  ultimately have "bin_pop m c i = Some m'" using d(1) by simp
  moreover obtain b zs where b: "L b = Some zs" "(c, s, False) \<in> set (spots (b + 8) zs)" using q(1) by (rule spotE)
  moreover obtain xs ys where xs: "zs = xs @ (s, False) # ys" "c = b + 8 + extent xs" using b(2) by (rule spots_split)
  moreover have "blocks m' b = Some 262144"
  proof -
    obtain n where "blocks m b = Some n" "n = 262144 \<or> (\<exists>t. xs @ (s, False) # ys = [(t, True)])"
      using lay_okD [OF l b(1)] xs(1) by metis
    then show ?thesis using tweakD(1) [OF d(2)] by (auto simp: append_eq_Cons_conv)
  qed
  ultimately show ?thesis
    using loosen [OF regions_ok_tweak [OF r d(2)] lay_ok_links [OF r l d(2)] d(3) _ xs(2)] c8 k(4) q d(2) s
    by (intro that [of m' b xs s ys F']) auto
qed

text \<open>A new block is one loose chunk.\<close>

lemma chunk_block_init_ok:
  assumes r: "regions_ok m" and l: "lay_ok {} m L" and bi: "bins_ok {} m L F"
    and b: "blocks m b = Some 262144" "b \<notin> dom L"
  obtains m' where "chunk_block_init m b = Some (b + 8, m')"
    "putting m' (L(b \<mapsto> [(262112, True)])) F b [] 262112 []" "dom (heap m') = dom (heap m)"
    "used (L(b \<mapsto> [(262112, True)])) = insert (b + 8, 262112) (used L)"
    "m' = m\<lparr>heap := heap m'\<rparr>" "\<And>x. x < b \<or> b + 262144 \<le> x \<Longrightarrow> heap m' x = heap m x"
proof -
  have b8: "8 dvd b" "b + 262144 < SIZE_MOD" using regions_okD [OF r b(1)] by simp_all
  have mp: "heap m (b + 8 * k) \<noteq> None" if "k < 32768" for k
    using regions_okD(6) [OF r b(1), of "b + 8 * k"] b8(1) that by simp
  have mps: "heap m b \<noteq> None" "heap m (b + 8) \<noteq> None" "heap m (b + 262112) \<noteq> None" "heap m (b + 262120) \<noteq> None"
    using mp [of 0] mp [of 1] mp [of 32764] mp [of 32765] by simp_all
  obtain v0 v1 v2 v3 where v: "heap m b = Some v0" "heap m (b + 8) = Some v1" "heap m (b + 262112) = Some v2" "heap m (b + 262120) = Some v3"
    using mps by blast
  have ft: "BLOCK_FTR b 262144 = b + 262120" using BLOCK_FTR_eq [of b 262144] b8(2) by simp
  let ?H = "(heap m)(b \<mapsto> 8, b + 262120 \<mapsto> 8, b + 8 \<mapsto> 262112, b + 262112 \<mapsto> 262112)"
  let ?m = "m\<lparr>heap := ?H\<rparr>" and ?L = "L(b \<mapsto> [(262112, True)])"
  have e: "chunk_block_init m b = Some (b + 8, ?m)"
    using v ft b8(2)
    by (simp add: chunk_block_init_def kl_consts wrw_def rdw_def CHUNK_FTR_def addw_exact subw_exact add.commute)
  have dm: "dom ?H = dom (heap m)" using mps by auto
  have r': "regions_ok ?m" using regions_ok_cong [OF r, of ?m] dm by simp
  have out: "?H x = heap m x" if "x < b \<or> b + 262144 \<le> x" for x using that by auto
  have bl: "blocks ?m = (blocks m)(b \<mapsto> 262144)" using b(1) by (simp add: fun_upd_idem)
  have l': "lay_ok {} ?m L" using outside_layout(1) [OF r' l bl b(2)] out by simp
  have bi': "bins_ok {} ?m L F" using outside_layout(2) [OF r' l bl b(2) _ bi r] out by simp
  have "lay_ok {b + 8} ?m ?L" by (rule lay_ok_new [OF r' l', of b 262144]) (use b in simp_all)
  moreover have sL: "spot ?L = spot L \<union> {(b + 8, 262112, True)}" using spot_new [of L b] b(2) by (simp add: domIff)
  moreover have "bins_ok {} ?m ?L F" by (rule bins_ok_cong [OF bi']) (simp_all add: sL)
  ultimately have "putting ?m ?L F b [] 262112 []" "used ?L = insert (b + 8, 262112) (used L)"
    using r' unfolding putting_def used_def by auto
  then show ?thesis using that [OF e] dm out by simp
qed

subsection \<open>Searching the bins\<close>

lemma bin_search_ok:
  assumes "bin_search m k i = (c, j)"
  shows "i \<le> j \<and> j \<le> i + k \<and> c = chunk_bin m ! j \<and> (c = 0 \<longrightarrow> (\<forall>x. i \<le> x \<and> x \<le> i + k \<longrightarrow> chunk_bin m ! x = 0))"
  using assms
proof (induction k arbitrary: i)
  case (Suc k)
  show ?case
  proof (cases "chunk_bin m ! i = 0")
    case True
    then have "Suc i \<le> j \<and> j \<le> Suc i + k \<and> c = chunk_bin m ! j \<and> (c = 0 \<longrightarrow> (\<forall>x. Suc i \<le> x \<and> x \<le> Suc i + k \<longrightarrow> chunk_bin m ! x = 0))"
      using Suc.IH [of "Suc i"] Suc.prems by simp
    then show ?thesis using True by (auto simp del: bin_search.simps intro: Suc_leI) (metis Suc_leI le_neq_implies_less)
  next
    case False
    then show ?thesis using Suc.prems by auto
  qed
qed auto

subsection \<open>Splitting\<close>

lemma chunk_whole_ok:
  assumes p: "putting m L F b xs s ys" and c: "c = b + 8 + extent xs" and u: "undes_ok m" "set (undes m) \<inter> dom L = {}"
  obtains m' where "wrw m (c + s - 8) 0 = Some m'" "chunks_inv m' L F" "keeps L {c} (dom L) m m'" "answers m' = answers m"
    "undes m' = undes m"
proof -
  note r = puttingD(1) [OF p] and l = puttingD(2) [OF p, folded c] and bi = puttingD(3) [OF p] and L = puttingD(4) [OF p]
    and at = puttingD(6) [OF p, folded c] and sp = puttingD(5) [OF p, folded c]
  have s: "8 dvd c" "8 dvd s" "32 \<le> s" "heap m c = Some s" using chunk_atD [OF at] by simp_all
  have cm: "heap m x \<noteq> None" if "c \<le> x" "x < c + s" "8 dvd x" for x using spot_range [OF r l sp] that by metis
  have f: "heap m (c + s - 8) \<noteq> None" using s by (intro cm) auto
  let ?m = "m\<lparr>heap := (heap m)(c + s - 8 \<mapsto> 0)\<rparr>"
  have w: "tweak {c + s - 8} m ?m" unfolding tweak_def
    using f by (intro exI [of _ "(heap m)(c + s - 8 \<mapsto> 0)"] exI [of _ "chunk_bin m"]) auto
  have L': "L b = Some (xs @ [(s, True)] @ ys)" using L by simp
  have n: "blocks m b = Some 262144 \<or> (\<exists>t. xs @ [(s, True)] @ ys = [(t, True)])" using lay_okD [OF l L'] by metis
  have "lay_ok {} ?m (L(b \<mapsto> xs @ [(s, True)] @ ys))"
    by (rule lay_ok_replace [OF r l L' c]) (use s n in auto)
  then have "lay_ok {} ?m L" using L' by (simp add: fun_upd_idem)
  moreover have "bins_ok {} ?m L F"
  proof (rule bins_ok_cong [OF bi])
    fix i d assume "i < 1576" "d \<in> set (F i)"
    then have "d + 8 \<in> links L" "d + 16 \<in> links L" using bin_links [OF bi] by blast+
    then show "heap ?m (d + 8) = heap m (d + 8) \<and> heap ?m (d + 16) = heap m (d + 16)"
      using links_apart(2) [OF r l sp] by auto
  qed simp_all
  ultimately have "chunks_inv ?m L F"
    using regions_ok_tweak [OF r w] tweak_undes_ok [OF w u(1)] tweak_undes [OF w] u(2) by (simp add: chunks_inv_def)
  moreover have "keeps L {c} (dom L) m ?m"
    by (rule keeps_inside [OF r l w]) (use sp s in \<open>intro exI [of _ c] exI [of _ s] exI [of _ True], auto\<close>)
  ultimately show ?thesis using that [of ?m] wrw_mapped' [OF f] tweak_undes [OF w] by simp
qed

text \<open>The memory after a chunk of size \<open>s\<close> at \<open>c\<close> has been cut behind its first \<open>t\<close> bytes.\<close>

definition cut :: "nat \<Rightarrow> nat \<Rightarrow> nat \<Rightarrow> (nat \<rightharpoonup> nat) \<Rightarrow> nat \<rightharpoonup> nat" where
  "cut c t s h = h(c \<mapsto> t, c + t - 8 \<mapsto> 0, c + t \<mapsto> s - t, c + s - 8 \<mapsto> s - t, c + t + 8 \<mapsto> 0, c + t + 16 \<mapsto> 0)"

lemma cut_putting:
  assumes p: "putting m L F b xs s ys" and c: "c = b + 8 + extent xs" and t: "8 dvd t" "32 \<le> t" "t + 32 \<le> s"
    and big: "blocks m b = Some 262144"
  shows "putting (m\<lparr>heap := cut c t s (heap m)\<rparr>) (L(b \<mapsto> (xs @ [(t, True)]) @ (s - t, True) # ys)) F b (xs @ [(t, True)]) (s - t) ys"
    "used (L(b \<mapsto> (xs @ [(t, True)]) @ (s - t, True) # ys)) = insert (c + t, s - t) (insert (c, t) (used L - {(c, s)}))"
    "tweak {c..<c + s} m (m\<lparr>heap := cut c t s (heap m)\<rparr>)"
proof -
  note r = puttingD(1) [OF p] and l = puttingD(2) [OF p, folded c] and bi = puttingD(3) [OF p] and L = puttingD(4) [OF p]
    and at = puttingD(6) [OF p, folded c] and sp = puttingD(5) [OF p, folded c]
  have s: "8 dvd c" "8 dvd s" "32 \<le> s" "heap m c = Some s" using chunk_atD [OF at] by simp_all
  have cm: "heap m x \<noteq> None" if "c \<le> x" "x < c + s" "8 dvd x" for x using spot_range [OF r l sp] that by metis
  let ?H = "cut c t s (heap m)" and ?zs = "[(t, True), (s - t, True)]"
  let ?m = "m\<lparr>heap := ?H\<rparr>" and ?L = "L(b \<mapsto> (xs @ [(t, True)]) @ (s - t, True) # ys)"
  have mp: "heap m (c + t - 8) \<noteq> None" "heap m (c + t) \<noteq> None" "heap m (c + s - 8) \<noteq> None" "heap m (c + t + 8) \<noteq> None"
    "heap m (c + t + 16) \<noteq> None"
    using s t by (intro cm; auto)+
  have dm: "dom ?H = dom (heap m)" using mp s(4) by (auto simp: cut_def)
  have out: "?H x = heap m x" if "x \<notin> {c..<c + s}" for x using that t by (auto simp: cut_def)
  show w: "tweak {c..<c + s} m ?m" unfolding tweak_def
    using dm out by (intro exI [of _ ?H] exI [of _ "chunk_bin m"]) auto
  have L': "L b = Some (xs @ [(s, True)] @ ys)" using L by simp
  have v: "?H c = Some t" "?H (c + t - 8) = Some 0" "?H (c + t) = Some (s - t)"
    using t by (auto simp: cut_def)
  have "lay_ok {c + t} ?m (L(b \<mapsto> xs @ ?zs @ ys))"
  proof (rule lay_ok_replace [OF r l L' c])
    show "chunk_ok {c + t} (heap ?m) q" if "q \<in> set (spots c ?zs)" for q
      using that v t s by (auto simp: dvd_diff_nat)
    show "heap ?m x = heap m x" if "x < c \<or> c + extent [(s, True)] \<le> x" for x using that out by auto
  qed (use t s big in auto)
  moreover have sL: "spot ?L = (spot L - {(c, s, True)}) \<union> {(c, t, True), (c + t, s - t, True)}"
    using spot_replace [OF r l L' c, of ?zs] t by (simp add: insert_commute)
  moreover have "bins_ok {} ?m ?L F"
  proof (rule bins_ok_cong [OF bi])
    fix i d assume "i < 1576" "d \<in> set (F i)"
    then obtain e where e: "(d, e, False) \<in> spot L" using bins_okD(5) [OF bi] by blast
    have "32 \<le> e" using spot_range [OF r l e] by metis
    then have "d + 8 \<notin> {c..<c + s}" "d + 16 \<notin> {c..<c + s}" using spot_apart [OF r l sp e] by auto
    then show "heap ?m (d + 8) = heap m (d + 8) \<and> heap ?m (d + 16) = heap m (d + 16)" using out by simp
  next
    fix d e show "d \<notin> {} \<and> (d, e, False) \<in> spot ?L \<longleftrightarrow> d \<notin> {} \<and> (d, e, False) \<in> spot L" unfolding sL by auto
  qed simp
  ultimately show "putting ?m ?L F b (xs @ [(t, True)]) (s - t) ys"
    using regions_ok_tweak [OF r w] c unfolding putting_def by (simp add: add.assoc)
  show "used ?L = insert (c + t, s - t) (insert (c, t) (used L - {(c, s)}))"
    unfolding used_def sL by auto
qed

lemma chunk_split_ok:
  assumes p: "putting m L F b xs s ys" and c: "c = b + 8 + extent xs" and u: "undes_ok m" "set (undes m) \<inter> dom L = {}"
    and big: "blocks m b = Some 262144" and n: "8 dvd KL_CHUNK_SIZE n" "32 \<le> KL_CHUNK_SIZE n" "KL_CHUNK_SIZE n \<le> s"
  obtains m' L' F' t where "chunk_split m c n = Some (c, m')" "chunks_inv m' L' F'" "KL_CHUNK_SIZE n \<le> t"
    "used L' = insert (c, t) (used L - {(c, s)})" "keeps L {c} (dom L) m m'" "answers m' = answers m" "dom L' \<subseteq> dom L"
    "set (undes m') \<subseteq> set (undes m) \<union> dom L"
proof -
  let ?t = "KL_CHUNK_SIZE n"
  note at = puttingD(6) [OF p, folded c] and r = puttingD(1) [OF p] and l = puttingD(2) [OF p, folded c]
    and sp = puttingD(5) [OF p, folded c] and L = puttingD(4) [OF p]
  have s: "8 dvd c" "8 dvd s" "32 \<le> s" "heap m c = Some s" "c + s < SIZE_MOD" using chunk_atD [OF at] by simp_all
  have cs: "(c, s) \<in> used L" using sp by (simp add: used_def)
  have cm: "heap m x \<noteq> None" if "c \<le> x" "x < c + s" "8 dvd x" for x using spot_range [OF r l sp] that by metis
  show ?thesis
  proof (cases "s > 32 \<and> ?t \<le> s - 32")
    case True
    then have ts: "?t + 32 \<le> s" by linarith
    let ?m = "m\<lparr>heap := cut c ?t s (heap m)\<rparr>" and ?L = "L(b \<mapsto> (xs @ [(?t, True)]) @ (s - ?t, True) # ys)"
    note k = cut_putting [OF p c n(1,2) ts big]
    have x: "c + ?t = b + 8 + extent (xs @ [(?t, True)])" using c by simp
    have u': "undes_ok ?m" "undes ?m = undes m" using tweak_undes_ok [OF k(3) u(1)] tweak_undes [OF k(3)] by simp_all
    have bL: "b \<in> dom L" using L by blast
    then have dL: "dom ?L = dom L" by auto
    have disj: "set (undes ?m) \<inter> dom ?L = {}" using u(2) u'(2) dL by simp
    obtain m' L' F' where 1: "kl_chunk_put ?m (c + ?t) = Some (0, m')" "chunks_inv m' L' F'"
      "used L' = used ?L - {(c + ?t, s - ?t)}" "keeps ?L {c + ?t} (dom ?L) ?m m'" "answers m' = answers ?m" "dom L' \<subseteq> dom ?L"
      "set (undes m') \<subseteq> set (undes ?m) \<union> dom ?L"
      using chunk_put_ok [OF k(1) x u'(1) disj] by metis
    have mp: "heap m (c + ?t - 8) \<noteq> None" "heap m (c + ?t) \<noteq> None" "heap m (c + s - 8) \<noteq> None" "heap m (c + ?t + 8) \<noteq> None"
      "heap m (c + ?t + 16) \<noteq> None"
      using s n ts by (intro cm; auto)+
    have 2: "chunk_split m c n = Some (c, m')"
    proof -
      let ?m1 = "m\<lparr>heap := (heap m)(c \<mapsto> ?t)\<rparr>" and ?m2 = "m\<lparr>heap := (heap m)(c \<mapsto> ?t, c + ?t - 8 \<mapsto> 0)\<rparr>"
      let ?m3 = "m\<lparr>heap := (heap m)(c \<mapsto> ?t, c + ?t - 8 \<mapsto> 0, c + ?t \<mapsto> s - ?t)\<rparr>"
      have ne: "c \<noteq> c + ?t - 8" "c + ?t \<noteq> c + s - 8" using n ts by auto
      have at1: "chunk_at ?m1 c ?t" and at2: "chunk_at ?m2 c ?t" and at3: "chunk_at ?m3 (c + ?t) (s - ?t)"
        using s n ts ne by (auto simp: chunk_at_def dvd_diff_nat)
      have f3: "c + ?t + (s - ?t) - 8 = c + s - 8" using ts by simp
      have w: "wrw m c ?t = Some ?m1" "wrw ?m1 (c + ?t - 8) 0 = Some ?m2" "wrw ?m2 (c + ?t) (s - ?t) = Some ?m3"
        using mp s(4) by (auto simp: wrw_def)
      have hs: "heap ?m2 c = Some ?t" "heap ?m3 (c + ?t) = Some (s - ?t)" using ne by simp_all
      let ?m4 = "?m3\<lparr>heap := (heap ?m3)(c + s - 8 \<mapsto> s - ?t)\<rparr>"
      let ?m5 = "?m4\<lparr>heap := (heap ?m4)(c + ?t + 8 \<mapsto> 0)\<rparr>"
      have w3: "wrw ?m3 (c + s - 8) (s - ?t) = Some ?m4" "wrw ?m4 (c + ?t + 8) 0 = Some ?m5" "wrw ?m5 (c + ?t + 16) 0 = Some ?m"
      proof -
        show "wrw ?m3 (c + s - 8) (s - ?t) = Some ?m4" by (rule wrw_mapped') (use mp(3) in simp)
        show "wrw ?m4 (c + ?t + 8) 0 = Some ?m5" by (rule wrw_mapped') (use mp(4) in simp)
        have "heap ?m5 (c + ?t + 16) \<noteq> None" using mp(5) by simp
        from wrw_mapped' [OF this, of 0] show "wrw ?m5 (c + ?t + 16) 0 = Some ?m" by (simp add: cut_def)
      qed
      have sb: "subw s ?t = s - ?t" using n(3) s(5) by (simp add: subw_exact)
      have tr: "(s > CHUNK_MIN_SIZE \<and> ?t \<le> s - CHUNK_MIN_SIZE) = True" using True by (simp add: CHUNK_MIN_SIZE_def)
      show ?thesis
        by (simp only: chunk_split_def rdw_def s(4) tr if_True bind.bind_lunit w hs sb field_addresses w3 1(1) prod.case
            chunk_FTR [OF at1] chunk_NEXT [OF at2] chunk_FTR [OF at3, unfolded f3]) simp
    qed
    have ap: "(c + ?t, s - ?t) \<notin> used L - {(c, s)}" "(c + ?t, s - ?t) \<noteq> (c, ?t)"
    proof -
      show "(c + ?t, s - ?t) \<noteq> (c, ?t)" using n by simp
      show "(c + ?t, s - ?t) \<notin> used L - {(c, s)}"
      proof
        assume "(c + ?t, s - ?t) \<in> used L - {(c, s)}"
        then have q: "(c + ?t, s - ?t, True) \<in> spot L" by (simp add: used_def)
        show False using spot_apart [OF r l sp q] n ts by auto
      qed
    qed
    have us: "used L' = insert (c, ?t) (used L - {(c, s)})" using 1(3) k(2) ap by auto
    have kp: "keeps L {c} (dom L) m ?m"
      by (rule keeps_inside [OF r l k(3)]) (use sp in \<open>intro exI [of _ c] exI [of _ s] exI [of _ True], auto\<close>)
    have "keeps L {c} (dom L) m m'"
    proof (rule keeps_trans [OF kp 1(4)])
      fix d e assume d: "(d, e) \<in> used L" "d \<notin> {c}"
      have q: "(d, e, True) \<in> spot L" using d by (simp add: used_def)
      have "32 \<le> e" using spot_range [OF r l q] by metis
      then have "d \<noteq> c + ?t" using spot_apart [OF r l sp q] d n ts by auto
      then show "(d, e) \<in> used ?L \<and> d \<notin> {c + ?t}" using d k(2) by auto
    qed (use bL in auto)
    then show ?thesis using that [OF 2 1(2) _ us] 1(5) 1(6,7) [unfolded dL u'(2)] by simp
  next
    case False
    obtain m' where 1: "wrw m (c + s - 8) 0 = Some m'" "chunks_inv m' L F" "keeps L {c} (dom L) m m'" "answers m' = answers m"
      "undes m' = undes m" by (rule chunk_whole_ok [OF p c u])
    have "chunk_split m c n = Some (c, m')"
      unfolding chunk_split_def using chunk_FTR [OF at] s(4) 1(1) False by (simp add: rdw_def CHUNK_MIN_SIZE_def if_not_P [OF False] del: not_less)
    then show ?thesis using that [of m' L F s] 1 n cs by auto
  qed
qed

subsection \<open>Allocating a chunk\<close>

lemma keeps_fresh: "keeps L A (insert b D) m m' \<Longrightarrow> blocks m b = None \<Longrightarrow> keeps L A D m m'"
  unfolding keeps_def by (metis insert_iff option.distinct(1))

lemma keeps_mono: "keeps L A D m m' \<Longrightarrow> A \<subseteq> A' \<Longrightarrow> D \<subseteq> D' \<Longrightarrow> keeps L A' D' m m'"
  unfolding keeps_def by blast

text \<open>Changes inside a block that is not part of the layout.\<close>

lemma keeps_block:
  assumes r: "regions_ok m" "regions_ok m'" and l: "lay_ok X m L" and b: "blocks m' = (blocks m)(b \<mapsto> n)" "b \<notin> dom L"
    and h: "\<And>x. x < b \<or> b + n \<le> x \<Longrightarrow> heap m' x = heap m x" and s: "same_side m m'"
  shows "keeps L A {b} m m'"
proof -
  have far: "heap m' x = heap m x" if "b' \<noteq> b" "blocks m b' = Some k" "b' \<le> x" "x < b' + k" for b' k x
  proof -
    have "blocks m' b' = Some k" "blocks m' b = Some n" using that b(1) by simp_all
    then show ?thesis using regions_apart [OF r(2)] that by (intro h) fastforce
  qed
  have "heap m' x = heap m x" if d: "(d, t) \<in> used L" "d \<le> x" "x < d + t" for d t x
  proof -
    have "(d, t, True) \<in> spot L" using d by (simp add: used_def)
    from spot_range [OF r(1) l this] obtain b' k where k: "b' \<in> dom L" "blocks m b' = Some k" "b' + 8 \<le> d" "d + t + 24 \<le> b' + k" by metis
    have "b' \<noteq> b" using k(1) b(2) by blast
    then show ?thesis using far [OF _ k(2)] k d by simp
  qed
  then show ?thesis unfolding keeps_def using far s b(1) by auto
qed

lemma CHUNK_SIZE_le:
  assumes "n \<le> 262096"
  shows "KL_CHUNK_SIZE n = (n + 23) div 8 * 8" "8 dvd KL_CHUNK_SIZE n" "KL_CHUNK_SIZE n \<le> 262112" "n + 16 \<le> KL_CHUNK_SIZE n"
proof -
  show e: "KL_CHUNK_SIZE n = (n + 23) div 8 * 8" using assms by (intro KL_CHUNK_SIZE_eq) (simp add: SIZE_MOD_def)
  show "8 dvd KL_CHUNK_SIZE n" "KL_CHUNK_SIZE n \<le> 262112" "n + 16 \<le> KL_CHUNK_SIZE n" using assms unfolding e by presburger+
qed

text \<open>A chunk from a bin.\<close>

lemma chunk_from_bin:
  assumes inv: "chunks_inv m L F" and n: "9 \<le> n" "n \<le> 262096" and k: "KL_CHUNK_SIZE n \<le> bin2size ! k"
    and j: "j \<le> 1532" "k \<le> j" "c = chunk_bin m ! j" and c: "c \<noteq> 0"
  obtains t m1 m' L' F' where "bin_pop m c j = Some m1" "chunk_split m1 c n = Some (c, m')" "chunks_inv m' L' F'" "n + 16 \<le> t"
    "used L' = insert (c, t) (used L)" "\<forall>t'. (c, t') \<notin> used L" "keeps L {} (dom L \<union> set (undes m)) m m'"
    "\<forall>b \<in> dom L' \<union> set (undes m'). b \<in> dom L \<union> set (undes m) \<or> blocks m b = None"
proof -
  let ?t = "KL_CHUNK_SIZE n"
  have r: "regions_ok m" and l: "lay_ok {} m L" and bi: "bins_ok {} m L F" and u: "undes_ok m" "set (undes m) \<inter> dom L = {}"
    using inv by (simp_all add: chunks_inv_def)
  note cs = CHUNK_SIZE_le [OF n(2)]
  have t32: "32 \<le> ?t" using n(1) unfolding cs(1) by presburger
  have j': "j < 1576" using j by simp
  then have "hd0 (F j) = c" using bins_okD(2) [OF bi j'] j(3) by simp
  then obtain zs where F: "F j = c # zs" using c by (cases "F j") auto
  have "j < 1532"
  proof -
    obtain s where q: "(c, s, False) \<in> spot L" "bin_of s = j" using bins_okD(5) [OF bi j'] F by auto
    have "32 \<le> s" "s \<le> 262112" using spot_range [OF r l q(1)] by metis+
    then show ?thesis using bin_of_ok q(2) by metis
  qed
  then have kj: "bin2size ! k \<le> bin2size ! j" using bin2size_mono_le j(2) by blast
  obtain s b xs ys m1 F1 where 1: "bin_pop m c j = Some m1" "0 < c" "c = b + 8 + extent xs" "bin2size ! j \<le> s" "s \<le> 262112"
    "(c, s, False) \<in> spot L" "b \<in> dom L"
    "putting m1 (L(b \<mapsto> xs @ (s, True) # ys)) F1 b xs s ys" "tweak (links L) m m1"
    "used (L(b \<mapsto> xs @ (s, True) # ys)) = insert (c, s) (used L)" "blocks m1 b = Some 262144"
    by (rule bin_pop_ok [OF r l bi j' F])
  let ?L = "L(b \<mapsto> xs @ (s, True) # ys)"
  have dL: "dom ?L = dom L" using 1(7) by auto
  have u1: "undes_ok m1" "undes m1 = undes m" "set (undes m1) \<inter> dom ?L = {}"
    using tweak_undes_ok [OF 1(9) u(1)] tweak_undes [OF 1(9)] u(2) dL by simp_all
  note big = 1(11)
  have nc: "(c, t') \<notin> used L" for t' using spot_unique(2) [OF r l 1(6)] by (auto simp: used_def)
  obtain m' L' F' t where 2: "chunk_split m1 c n = Some (c, m')" "chunks_inv m' L' F'" "?t \<le> t"
    "used L' = insert (c, t) (used ?L - {(c, s)})" "keeps ?L {c} (dom ?L) m1 m'" "answers m' = answers m1" "dom L' \<subseteq> dom ?L"
    "set (undes m') \<subseteq> set (undes m1) \<union> dom ?L"
    by (rule chunk_split_ok [OF 1(8,3) u1(1,3) big cs(2) t32]) (use 1(4) k kj in auto)
  have k1: "keeps L {} (dom L) m m1"
  proof (rule keeps_inside [OF r l 1(9)])
    fix x assume "x \<in> links L"
    then have "x \<in> free_area L" using links_free [OF r l] by blast
    then show "\<exists>d t u. (d, t, u) \<in> spot L \<and> (u \<longrightarrow> d \<in> {}) \<and> d \<le> x \<and> x < d + t" unfolding free_area_def by blast
  qed
  have k2: "keeps L {} (dom L) m m'"
    by (rule keeps_trans [OF k1 2(5)]) (use dL nc 1(10) in auto)
  show ?thesis
  proof (rule that)
    show "bin_pop m c j = Some m1" "chunk_split m1 c n = Some (c, m')" by (rule 1(1), rule 2(1))
    show "keeps L {} (dom L \<union> set (undes m)) m m'" by (rule keeps_mono [OF k2]) auto
    show "used L' = insert (c, t) (used L)" using 2(4) 1(10) nc by auto
    show "n + 16 \<le> t" using cs(4) 2(3) by simp
  qed (use 1(2) 2(2,7,8) nc dL u1(2) in auto)
qed

text \<open>A chunk from an undesignated or new block.\<close>

lemma chunk_from_block:
  assumes inv: "chunks_inv m L F" and n: "9 \<le> n" "n \<le> 262096" and sup: "num_undes m \<noteq> 0 \<or> supplied m 262144"
  obtains b c t m1 m2 m' L' F' where "designate m = Some (b, m1)" "0 < b" "chunk_block_init m1 b = Some (c, m2)" "chunk_split m2 c n = Some (c, m')"
    "0 < c" "chunks_inv m' L' F'" "n + 16 \<le> t"
    "used L' = insert (c, t) (used L)" "\<forall>t'. (c, t') \<notin> used L" "keeps L {} (dom L \<union> set (undes m)) m m'"
    "\<forall>b \<in> dom L' \<union> set (undes m'). b \<in> dom L \<union> set (undes m) \<or> blocks m b = None"
proof -
  let ?t = "KL_CHUNK_SIZE n"
  have r: "regions_ok m" and l: "lay_ok {} m L" and bi: "bins_ok {} m L F" and u: "undes_ok m" "set (undes m) \<inter> dom L = {}"
    using inv by (simp_all add: chunks_inv_def)
  note cs = CHUNK_SIZE_le [OF n(2)]
  have t32: "32 \<le> ?t" using n(1) unfolding cs(1) by presburger
  obtain b m1 where 1: "designate m = Some (b, m1)" "0 < b" "b \<in> set (undes m) \<or> blocks m b = None"
    "blocks m1 = (blocks m)(b \<mapsto> 262144)" "regions_ok m1" "undes_ok m1" "set (undes m1) = set (undes m) - {b}"
    "chunk_bin m1 = chunk_bin m" "same_side m m1" "\<And>x. x < b \<or> b + 262144 \<le> x \<Longrightarrow> heap m1 x = heap m x"
    using designate_ok [OF r u(1) sup] by blast
  have nb: "b \<notin> dom L" using 1(3) u(2) l by (auto elim: lay_okD)
  have l1: "lay_ok {} m1 L" using outside_layout(1) [OF 1(5) l 1(4) nb 1(10)] .
  have b1: "bins_ok {} m1 L F" using outside_layout(2) [OF 1(5) l 1(4) nb 1(10) bi r 1(8)] .
  have bb: "blocks m1 b = Some 262144" using 1(4) by simp
  let ?L = "L(b \<mapsto> [(262112, True)])"
  obtain m2 where 2: "chunk_block_init m1 b = Some (b + 8, m2)"
    "putting m2 ?L F b [] 262112 []" "dom (heap m2) = dom (heap m1)"
    "used ?L = insert (b + 8, 262112) (used L)"
    "m2 = m1\<lparr>heap := heap m2\<rparr>" "\<And>x. x < b \<or> b + 262144 \<le> x \<Longrightarrow> heap m2 x = heap m1 x"
    using chunk_block_init_ok [OF 1(5) l1 b1 bb nb] by blast
  obtain H where H: "m2 = m1\<lparr>heap := H\<rparr>" using 2(5) by blast
  have same: "blocks m2 = blocks m1" "undes m2 = undes m1" "undes_ok m2" "same_side m m2"
    using 1(6,9) unfolding H by (simp_all add: undes_def undes_ok_def same_side_def)
  have disj: "set (undes m2) \<inter> dom ?L = {}" using same(2) 1(7) u(2) by auto
  obtain m' L' F' t where 3: "chunk_split m2 (b + 8) n = Some (b + 8, m')" "chunks_inv m' L' F'" "?t \<le> t"
    "used L' = insert (b + 8, t) (used ?L - {(b + 8, 262112)})" "keeps ?L {b + 8} (dom ?L) m2 m'" "answers m' = answers m2" "dom L' \<subseteq> dom ?L"
    "set (undes m') \<subseteq> set (undes m2) \<union> dom ?L"
    by (rule chunk_split_ok [OF 2(2) _ same(3) disj _ cs(2) t32]) (use cs(3) bb same(1) in auto)
  have nc: "(b + 8, t') \<notin> used L" for t'
  proof
    assume "(b + 8, t') \<in> used L"
    then have "(b + 8, t', True) \<in> spot L" by (simp add: used_def)
    from spot_range [OF 1(5) l1 this] obtain b' k where q: "b' \<in> dom L" "blocks m1 b' = Some k" "b' + 8 \<le> b + 8" "b + 8 + t' + 24 \<le> b' + k" by metis
    have "b' \<noteq> b" using q(1) nb by blast
    then show False using regions_apart [OF 1(5) q(2) bb] q(3,4) by auto
  qed
  have k1: "keeps L {} {b} m m2"
    by (rule keeps_block [OF r puttingD(1) [OF 2(2)] l, of b 262144]) (use same 1(4,10) 2(6) nb in auto)
  have k2: "keeps L {} (insert b (dom L \<union> set (undes m))) m m'"
    by (rule keeps_trans [OF keeps_mono [OF k1] 3(5)]) (use 2(4) nc in auto)
  have k3: "keeps L {} (dom L \<union> set (undes m)) m m'"
    using 1(3) k2 keeps_fresh [OF k2] by (auto simp: insert_absorb)
  show ?thesis
  proof (rule that)
    show "designate m = Some (b, m1)" "0 < b" "chunk_block_init m1 b = Some (b + 8, m2)" "chunk_split m2 (b + 8) n = Some (b + 8, m')"
      by (rule 1(1), rule 1(2), rule 2(1), rule 3(1))
    show "keeps L {} (dom L \<union> set (undes m)) m m'" by (rule k3)
    show "used L' = insert (b + 8, t) (used L)" using 3(4) 2(4) nc by auto
    show "n + 16 \<le> t" using cs(4) 3(3) by simp
    show "\<forall>x \<in> dom L' \<union> set (undes m'). x \<in> dom L \<union> set (undes m) \<or> blocks m x = None"
      using 3(7,8) same(2) 1(3,7) by auto
  qed (use 3(2) nc in auto)
qed

lemma chunk_get_ok:
  assumes inv: "chunks_inv m L F" and n: "9 \<le> n" "n \<le> 262096" and sup: "num_undes m \<noteq> 0 \<or> supplied m 262144"
  obtains c t m' L' F' where "kl_chunk_get m n = Some (c, m')" "0 < c" "chunks_inv m' L' F'" "n + 16 \<le> t"
    "used L' = insert (c, t) (used L)" "\<And>t'. (c, t') \<notin> used L" "keeps L {} (dom L \<union> set (undes m)) m m'"
    "\<And>b. b \<in> dom L' \<union> set (undes m') \<Longrightarrow> b \<in> dom L \<union> set (undes m) \<or> blocks m b = None"
proof -
  let ?t = "KL_CHUNK_SIZE n"
  have r: "regions_ok m" and l: "lay_ok {} m L" and bi: "bins_ok {} m L F" and u: "undes_ok m" "set (undes m) \<inter> dom L = {}"
    using inv by (simp_all add: chunks_inv_def)
  note cs = CHUNK_SIZE_le [OF n(2)]
  have t32: "32 \<le> ?t" using n(1) unfolding cs(1) by presburger
  obtain k where k: "KL_SIZE2BIN ?t = Some k" "k < 1532" "?t \<le> bin2size ! k"
    by (rule SIZE2BIN_bounds [of ?t]) (use cs(3) t32 in auto)
  obtain c j where bs: "bin_search m (1532 - k) k = (c, j)" by (cases "bin_search m (1532 - k) k") auto
  note sr = bin_search_ok [OF bs]
  have len: "length (chunk_bin m) = 1576" using bins_okD(1) [OF bi, of 0] by simp
  have pre: "kl_chunk_get m n =
      (if c \<noteq> 0 then do { m \<leftarrow> bin_pop m c j; chunk_split m c n }
       else do { (b, m) \<leftarrow> designate m; if b = 0 then Some (0, m) else do { (c, m) \<leftarrow> chunk_block_init m b; chunk_split m c n } })"
    unfolding kl_chunk_get_def
    using cs(3) k(1,2) bs len by (simp add: kl_consts KL_ISSMALLBIN_def)
  show ?thesis
  proof (cases "c = 0")
    case False
    have j: "j \<le> 1532" "k \<le> j" "c = chunk_bin m ! j" using sr k(2) by auto
    obtain t m1 m' L' F' where 1: "bin_pop m c j = Some m1" "chunk_split m1 c n = Some (c, m')" "chunks_inv m' L' F'" "n + 16 \<le> t"
      "used L' = insert (c, t) (used L)" "\<forall>t'. (c, t') \<notin> used L" "keeps L {} (dom L \<union> set (undes m)) m m'"
      "\<forall>b \<in> dom L' \<union> set (undes m'). b \<in> dom L \<union> set (undes m) \<or> blocks m b = None"
      by (rule chunk_from_bin [OF inv n k(3) j False])
    then show ?thesis using that [of c m' L' F' t] pre False by auto
  next
    case True
    obtain b c t m1 m2 m' L' F' where "designate m = Some (b, m1)" "0 < b" "chunk_block_init m1 b = Some (c, m2)" "chunk_split m2 c n = Some (c, m')"
      "0 < c" "chunks_inv m' L' F'" "n + 16 \<le> t"
      "used L' = insert (c, t) (used L)" "\<forall>t'. (c, t') \<notin> used L" "keeps L {} (dom L \<union> set (undes m)) m m'"
      "\<forall>b \<in> dom L' \<union> set (undes m'). b \<in> dom L \<union> set (undes m) \<or> blocks m b = None"
      by (rule chunk_from_block [OF inv n sup])
    then show ?thesis using that [of c m' L' F' t] pre True by auto
  qed
qed

subsection \<open>A block for one large chunk\<close>

lemma CHUNK_SIZE_big:
  assumes "n + 71 < SIZE_MOD" and "262096 < n"
  shows "KL_CHUNK_SIZE n = (n + 23) div 8 * 8" "8 dvd KL_CHUNK_SIZE n" "262112 < KL_CHUNK_SIZE n" "n + 16 \<le> KL_CHUNK_SIZE n"
    "KL_BLOCK_SIZE (KL_CHUNK_SIZE n) = KL_CHUNK_SIZE n + 32"
proof -
  show e: "KL_CHUNK_SIZE n = (n + 23) div 8 * 8" using assms by (intro KL_CHUNK_SIZE_eq) simp
  show d: "8 dvd KL_CHUNK_SIZE n" "262112 < KL_CHUNK_SIZE n" "n + 16 \<le> KL_CHUNK_SIZE n" using assms unfolding e by presburger+
  have "KL_CHUNK_SIZE n \<le> n + 23" unfolding e by simp
  then have "KL_BLOCK_SIZE (KL_CHUNK_SIZE n) = (KL_CHUNK_SIZE n + 39) div 8 * 8" using assms by (intro KL_BLOCK_SIZE_eq) simp
  also have "\<dots> = KL_CHUNK_SIZE n + 32" using d(1) by presburger
  finally show "KL_BLOCK_SIZE (KL_CHUNK_SIZE n) = KL_CHUNK_SIZE n + 32" .
qed

lemma chunk_hdr_ok:
  assumes r: "regions_ok m" and l: "lay_ok {} m L" and bi: "bins_ok {} m L F"
    and n: "n + 71 < SIZE_MOD" "262096 < n" and b: "blocks m b = Some (KL_CHUNK_SIZE n + 32)" "b \<notin> dom L"
  obtains m' where "kl_chunk_hdr m b n = Some (b + 8, m')" "m' = m\<lparr>heap := heap m'\<rparr>" "dom (heap m') = dom (heap m)"
    "lay_ok {} m' (L(b \<mapsto> [(KL_CHUNK_SIZE n, True)]))" "bins_ok {} m' (L(b \<mapsto> [(KL_CHUNK_SIZE n, True)])) F"
    "used (L(b \<mapsto> [(KL_CHUNK_SIZE n, True)])) = insert (b + 8, KL_CHUNK_SIZE n) (used L)"
    "\<And>x. heap m' x = (if x = b \<or> x = b + 8 + KL_CHUNK_SIZE n then Some 8 else if x = b + 8 then Some (KL_CHUNK_SIZE n)
                      else if x = b + KL_CHUNK_SIZE n then Some 0 else heap m x)"
proof -
  let ?t = "KL_CHUNK_SIZE n" and ?L = "L(b \<mapsto> [(KL_CHUNK_SIZE n, True)])"
  note t = CHUNK_SIZE_big [OF n]
  have b8: "8 dvd b" "b + (?t + 32) < SIZE_MOD" using regions_okD [OF r b(1)] by simp_all
  have mp: "heap m x \<noteq> None" if "b \<le> x" "x < b + (?t + 32)" "8 dvd x" for x using regions_okD(6) [OF r b(1)] that by simp
  have mps: "heap m b \<noteq> None" "heap m (b + 8) \<noteq> None" "heap m (b + ?t) \<noteq> None" "heap m (b + 8 + ?t) \<noteq> None"
    using b8(1) t(2) by (intro mp; simp)+
  have ft: "BLOCK_FTR b (?t + 32) = b + 8 + ?t" using BLOCK_FTR_eq [of b "?t + 32"] b8(2) by simp
  let ?H = "(heap m)(b \<mapsto> 8, b + 8 + ?t \<mapsto> 8, b + 8 \<mapsto> ?t, b + ?t \<mapsto> 0)"
  let ?m1 = "m\<lparr>heap := (heap m)(b \<mapsto> 8)\<rparr>" and ?m2 = "m\<lparr>heap := (heap m)(b \<mapsto> 8, b + 8 + ?t \<mapsto> 8)\<rparr>"
  let ?m3 = "m\<lparr>heap := (heap m)(b \<mapsto> 8, b + 8 + ?t \<mapsto> 8, b + 8 \<mapsto> ?t)\<rparr>" and ?m = "m\<lparr>heap := ?H\<rparr>"
  have w: "wrw m b 8 = Some ?m1" "wrw ?m1 (b + 8 + ?t) 8 = Some ?m2" "wrw ?m2 (b + 8) ?t = Some ?m3" "wrw ?m3 (b + ?t) 0 = Some ?m"
    using mps by (auto simp: wrw_def)
  have at: "chunk_at ?m3 (b + 8) ?t" "chunk_at ?m (b + 8) ?t" using b8 t(2,3) by (simp_all add: chunk_at_def)
  have f: "CHUNK_FTR ?m3 (b + 8) = Some (b + ?t)" using chunk_FTR [OF at(1)] by simp
  have big: "(KL_BLOCK_SIZE ?t > BLOCK_DEFAULT_SIZE) = True" using t(3,5) by (simp add: kl_consts)
  have e: "kl_chunk_hdr m b n = Some (b + 8, ?m)"
    by (simp add: kl_chunk_hdr_def big ft w f chunk_SIZE [OF at(2)] rdw_def) (simp add: t(5) ft w f kl_consts chunk_SIZE [OF at(2)] big)
  have dm: "dom ?H = dom (heap m)" using mps by auto
  have r': "regions_ok ?m" using regions_ok_cong [OF r, of ?m] dm by simp
  have out: "?H x = heap m x" if "x < b \<or> b + (?t + 32) \<le> x" for x using that by auto
  have bl: "blocks ?m = (blocks m)(b \<mapsto> ?t + 32)" using b(1) by (simp add: fun_upd_idem)
  have l': "lay_ok {} ?m L" using outside_layout(1) [OF r' l bl b(2)] out by simp
  have bi': "bins_ok {} ?m L F" using outside_layout(2) [OF r' l bl b(2) _ bi r] out by simp
  have "lay_ok {b + 8} ?m ?L" by (rule lay_ok_new [OF r' l', of b "?t + 32"]) (use b t(3) in auto)
  then have "lay_ok {} ?m (?L(b \<mapsto> [] @ [(?t, True)] @ []))"
    by (rule lay_ok_replace [OF r', where zs = "[(?t, True)]"]) (use t(2,3) in auto)
  then have "lay_ok {} ?m ?L" by simp
  moreover have sL: "spot ?L = spot L \<union> {(b + 8, ?t, True)}" using spot_new [of L b] b(2) by (simp add: domIff)
  moreover have "bins_ok {} ?m ?L F" by (rule bins_ok_cong [OF bi']) (simp_all add: sL)
  moreover have "used ?L = insert (b + 8, ?t) (used L)" using sL unfolding used_def by auto
  moreover have "?H x = (if x = b \<or> x = b + 8 + ?t then Some 8 else if x = b + 8 then Some ?t
                      else if x = b + ?t then Some 0 else heap m x)" for x using t(3) by auto
  ultimately show ?thesis using that [OF e] dm by simp
qed

lemma chunk_solo_ok:
  assumes inv: "chunks_inv m L F" and n: "n + 71 < SIZE_MOD" "262096 < n" and sup: "supplied m (KL_CHUNK_SIZE n + 32)"
  obtains b m' L' where "kl_chunk_solo m n = Some (b + 8, m')" "chunks_inv m' L' F" "used L' = insert (b + 8, KL_CHUNK_SIZE n) (used L)"
    "\<And>t'. (b + 8, t') \<notin> used L" "keeps L {} {} m m'" "dom L' = insert b (dom L)" "blocks m b = None" "undes m' = undes m"
proof -
  let ?t = "KL_CHUNK_SIZE n"
  have r: "regions_ok m" and l: "lay_ok {} m L" and bi: "bins_ok {} m L F" and u: "undes_ok m" "set (undes m) \<inter> dom L = {}"
    using inv by (simp_all add: chunks_inv_def)
  note t = CHUNK_SIZE_big [OF n]
  have t8: "8 dvd ?t + 32" "262144 \<le> ?t + 32" using t by simp_all
  obtain b m1 where 1: "kl_block_alloc m (?t + 32) = (b, m1)" "0 < b" "blocks m b = None" "blocks m1 = (blocks m)(b \<mapsto> ?t + 32)"
    "regions_ok m1" "chunk_bin m1 = chunk_bin m" "num_undes m1 = num_undes m" "undes_bin m1 = undes_bin m" "same_side m m1"
    "\<And>x. x < b \<or> b + (?t + 32) \<le> x \<Longrightarrow> heap m1 x = heap m x"
    using block_alloc_ok [OF r sup t8] by blast
  have nb: "b \<notin> dom L" using 1(3) l by (auto elim: lay_okD)
  have l1: "lay_ok {} m1 L" using outside_layout(1) [OF 1(5) l 1(4) nb 1(10)] .
  have b1: "bins_ok {} m1 L F" using outside_layout(2) [OF 1(5) l 1(4) nb 1(10) bi r 1(6)] .
  have bb: "blocks m1 b = Some (?t + 32)" using 1(4) by simp
  let ?L = "L(b \<mapsto> [(?t, True)])"
  obtain m2 where 2: "kl_chunk_hdr m1 b n = Some (b + 8, m2)" "m2 = m1\<lparr>heap := heap m2\<rparr>" "dom (heap m2) = dom (heap m1)"
    "lay_ok {} m2 ?L" "bins_ok {} m2 ?L F" "used ?L = insert (b + 8, ?t) (used L)"
    "\<And>x. heap m2 x = (if x = b \<or> x = b + 8 + ?t then Some 8 else if x = b + 8 then Some ?t
                      else if x = b + ?t then Some 0 else heap m1 x)"
    using chunk_hdr_ok [OF 1(5) l1 b1 n bb nb] by blast
  obtain H where H: "m2 = m1\<lparr>heap := H\<rparr>" using 2(2) by blast
  have un: "undes m2 = undes m" using 1(7,8) unfolding H by (simp add: undes_def)
  have same: "blocks m2 = (blocks m)(b \<mapsto> ?t + 32)" "same_side m m2" "num_undes m2 = num_undes m" "undes_bin m2 = undes_bin m"
    using 1(4,7-9) unfolding H by (simp_all add: same_side_def)
  have r2: "regions_ok m2" using regions_ok_cong [OF 1(5), of m2] 2(3) 1(4) same(1) by simp
  have ubl: "blocks m x = Some 262144" if "x \<in> set (undes m)" for x using u(1) that by (simp add: undes_ok_def)
  then have ub: "b \<notin> set (undes m)" using 1(3) by force
  have "undes_ok m2" using u(1) un same ubl ub unfolding undes_ok_def by auto
  then have inv': "chunks_inv m2 ?L F" using r2 2(4,5) un u(2) ub by (simp add: chunks_inv_def)
  have out: "heap m2 x = heap m x" if "x < b \<or> b + (?t + 32) \<le> x" for x
    using 2(7) [of x] 1(10) [OF that] that by auto
  have "keeps L {} {b} m m2" by (rule keeps_block [OF r r2 l same(1) nb out same(2)])
  then have k: "keeps L {} {} m m2" using keeps_fresh [of L "{}" b "{}"] 1(3) by simp
  have nc: "(b + 8, t') \<notin> used L" for t'
  proof
    assume "(b + 8, t') \<in> used L"
    then have "(b + 8, t', True) \<in> spot L" by (simp add: used_def)
    from spot_range [OF 1(5) l1 this] obtain b' k where q: "b' \<in> dom L" "blocks m1 b' = Some k" "b' + 8 \<le> b + 8" "b + 8 + t' + 24 \<le> b' + k" by metis
    have "b' \<noteq> b" using q(1) nb by blast
    then show False using regions_apart [OF 1(5) q(2) bb] q(3,4) by auto
  qed
  have "kl_chunk_solo m n = Some (b + 8, m2)"
    using t(3,5) 1(1,2) 2(1) by (simp add: kl_chunk_solo_def kl_consts)
  then show ?thesis using that [OF _ inv' 2(6) nc k _ 1(3) un] by simp
qed

end
