(* ===== verification/Kl_Brick.thy ===== *)
theory Kl_Brick
  imports Kl_Get
begin

text \<open>
  Bricks: a block is cut into cells of one size, which are headed when they are first used; the
  free ones form a list in the block, and the blocks with free bricks are linked by sizes.
\<close>

subsection \<open>Headers\<close>

lemma and_mask_high:
  assumes "x < SIZE_MOD" and "k \<le> 64"
  shows "x AND push_bit k (mask (64 - k)) = x div 2 ^ k * 2 ^ k"
proof -
  have "x = take_bit 64 x" using assms by (simp add: take_bit_eq_mod SIZE_MOD_def)
  then have l: "bit x j \<Longrightarrow> j < 64" for j by (metis bit_take_bit_iff)
  have "x AND push_bit k (mask (64 - k)) = push_bit k (drop_bit k x)"
    by (rule bit_eqI) (use l assms(2) in \<open>auto simp: bit_and_iff bit_push_bit_iff bit_mask_iff bit_drop_bit_eq less_diff_conv2\<close>)
  then show ?thesis by (simp add: push_bit_eq_mult drop_bit_eq_div)
qed

lemma block_count_bits: "n < 2 ^ 56 \<Longrightarrow> (i * 2 ^ 56 + n) AND BLOCK_COUNT_MASK = n"
proof -
  assume n: "n < 2 ^ 56"
  have "BLOCK_COUNT_MASK = mask 56" by (simp add: BLOCK_COUNT_MASK_def mask_eq_exp_minus_1)
  then have "(i * 2 ^ 56 + n) AND BLOCK_COUNT_MASK = take_bit 56 (i * 2 ^ 56 + n)" by (simp add: take_bit_eq_mask)
  also have "\<dots> = n" using n by (simp add: take_bit_eq_mod)
  finally show ?thesis .
qed

lemma block_bidx_bits: "n < 2 ^ 56 \<Longrightarrow> i < 256 \<Longrightarrow> drop_bit BLOCK_BIDX_SHIFT ((i * 2 ^ 56 + n) AND BLOCK_BIDX_MASK) = i"
proof -
  assume n: "n < 2 ^ 56" "i < 256"
  have e: "BLOCK_BIDX_MASK = push_bit 56 (mask (64 - 56))"
    by (simp add: BLOCK_BIDX_MASK_def SIZE_MAX_def push_bit_eq_mult mask_eq_exp_minus_1)
  have "i * 2 ^ 56 + n < SIZE_MOD" using n by (simp add: SIZE_MOD_def)
  then have "(i * 2 ^ 56 + n) AND BLOCK_BIDX_MASK = (i * 2 ^ 56 + n) div 2 ^ 56 * 2 ^ 56" unfolding e by (rule and_mask_high) simp
  also have "\<dots> = i * 2 ^ 56" using n by simp
  finally show ?thesis by (simp add: BLOCK_BIDX_SHIFT_def drop_bit_eq_div)
qed

lemma brick_block_bits: "8 dvd b \<Longrightarrow> b < SIZE_MOD \<Longrightarrow> (b + 1) AND (SIZE_MAX - KL_BRICK) = b"
proof -
  assume b: "8 dvd b" "b < SIZE_MOD"
  have e: "SIZE_MAX - KL_BRICK = push_bit 1 (mask (64 - 1))"
    by (simp add: KL_BRICK_def SIZE_MAX_def push_bit_eq_mult mask_eq_exp_minus_1)
  have "b + 1 < SIZE_MOD" using aligned_SIZE [OF b] by simp
  then have "(b + 1) AND (SIZE_MAX - KL_BRICK) = (b + 1) div 2 ^ 1 * 2 ^ 1" unfolding e by (rule and_mask_high) simp
  also have "\<dots> = b" unfolding power_one_right using b(1) by presburger
  finally show ?thesis .
qed

lemma brick_or: "8 dvd b \<Longrightarrow> b OR KL_BRICK = b + 1" for b :: nat
proof -
  assume "8 dvd b"
  then have "even b" by presburger
  then show ?thesis by (simp add: KL_BRICK_def or_Suc_0_eq)
qed

subsection \<open>Blocks of bricks\<close>

definition cell_size :: "nat \<Rightarrow> nat" where "cell_size i = 8 * (i + 1)"
definition cell_num :: "nat \<Rightarrow> nat" where "cell_num i = 262112 div cell_size i"
definition cell :: "nat \<Rightarrow> nat \<Rightarrow> nat \<Rightarrow> nat" where "cell b i j = b + 8 + j * cell_size i"
definition cells :: "nat \<Rightarrow> nat \<Rightarrow> nat \<Rightarrow> nat set" where "cells b i k = cell b i ` {..<k}"

text \<open>The state of a block: the bin, the number of cells that have been used, and the free ones among these.\<close>

type_synonym brick_state = "nat \<times> nat \<times> nat list"

fun avail :: "brick_state \<Rightarrow> nat" where
  "avail (i, k, fs) = length fs + (cell_num i - k)"

fun chain :: "(nat \<rightharpoonup> nat) \<Rightarrow> nat \<Rightarrow> nat list \<Rightarrow> nat \<Rightarrow> bool" where
  "chain h a [] e \<longleftrightarrow> a = e"
| "chain h a (r # rs) e \<longleftrightarrow> a = r \<and> (\<exists>n. h (r + 8) = Some n \<and> chain h n rs e)"

text \<open>The part of a block below its links.\<close>

fun shape :: "nat \<Rightarrow> brick_state \<Rightarrow> bool" where
  "shape b (i, k, fs) \<longleftrightarrow> 1 \<le> i \<and> i \<le> 4 \<and> k \<le> cell_num i \<and> distinct fs \<and> set fs \<subseteq> cells b i k"

fun body_ok :: "(nat \<rightharpoonup> nat) \<Rightarrow> nat \<Rightarrow> brick_state \<Rightarrow> bool" where
  "body_ok h b (i, k, fs) \<longleftrightarrow>
     (\<forall>r \<in> cells b i k. h r = Some (b + 1)) \<and> (k < cell_num i \<longrightarrow> h (cell b i k) = Some 0) \<and>
     (\<exists>a e. h (b + 262120) = Some a \<and> chain h a fs e \<and> (k < cell_num i \<longrightarrow> e = cell b i k))"

fun head_ok :: "(nat \<rightharpoonup> nat) \<Rightarrow> nat \<Rightarrow> brick_state \<Rightarrow> bool" where
  "head_ok h b (i, k, fs) \<longleftrightarrow> h b = Some (i * 2 ^ 56 + avail (i, k, fs))"

lemma chain_cong: "chain h a fs e \<Longrightarrow> (\<And>r. r \<in> set fs \<Longrightarrow> h' (r + 8) = h (r + 8)) \<Longrightarrow> chain h' a fs e"
  by (induction fs arbitrary: a) auto

lemma cell_bounds:
  assumes "1 \<le> i" and "j < cell_num i"
  shows "b + 8 \<le> cell b i j" "cell b i j + cell_size i \<le> b + 262120" "16 \<le> cell_size i" "8 dvd cell_size i"
    "8 dvd b \<Longrightarrow> 8 dvd cell b i j"
proof -
  have "Suc j * cell_size i \<le> cell_num i * cell_size i" using assms(2) by (intro mult_le_mono1) simp
  also have "\<dots> \<le> 262112" unfolding cell_num_def by simp
  finally show "cell b i j + cell_size i \<le> b + 262120" by (simp add: cell_def)
qed (use assms(1) in \<open>auto simp: cell_def cell_size_def\<close>)

lemma cell_apart: "j < j' \<Longrightarrow> cell b i j + cell_size i \<le> cell b i j'"
proof -
  assume "j < j'"
  then have "Suc j * cell_size i \<le> j' * cell_size i" by (intro mult_le_mono1) simp
  then show ?thesis by (simp add: cell_def)
qed

lemma cells_apart:
  assumes "r \<in> cells b i k" and "r' \<in> cells b i k'" and "r \<noteq> r'"
  shows "r + cell_size i \<le> r' \<or> r' + cell_size i \<le> r"
proof -
  obtain j j' where "r = cell b i j" "r' = cell b i j'" using assms(1,2) unfolding cells_def by blast
  then show ?thesis using cell_apart [of j j' b i] cell_apart [of j' j b i] assms(3) by (cases j j' rule: linorder_cases) auto
qed

lemma cells_Suc: "cells b i (Suc k) = insert (cell b i k) (cells b i k)"
  by (auto simp: cells_def lessThan_Suc)

lemma cell_new: "cell b i k \<notin> cells b i k"
proof
  assume "cell b i k \<in> cells b i k"
  then obtain j where "j < k" "cell b i k = cell b i j" by (auto simp: cells_def)
  then show False using cell_apart [of j k b i] by (simp add: cell_size_def)
qed

lemma card_cells: "card (cells b i k) = k" "finite (cells b i k)"
proof -
  have "inj_on (cell b i) {..<k}" by (rule inj_onI) (auto simp: cell_def cell_size_def)
  then show "card (cells b i k) = k" unfolding cells_def by (simp add: card_image)
qed (simp add: cells_def)

lemma cells_bounds:
  assumes "1 \<le> i" and "k \<le> cell_num i" and "r \<in> cells b i k"
  shows "b + 8 \<le> r" "r + cell_size i \<le> b + 262120" "8 dvd b \<Longrightarrow> 8 dvd r"
  using assms cell_bounds [OF assms(1)] unfolding cells_def by auto

lemma body_ok_cong:
  assumes b: "body_ok h b s" "shape b s" and h: "\<And>x. b + 8 \<le> x \<Longrightarrow> x < b + 262128 \<Longrightarrow> h' x = h x"
  shows "body_ok h' b s"
proof -
  obtain i k fs where s: "s = (i, k, fs)" by (cases s) auto
  have i: "1 \<le> i" "k \<le> cell_num i" "set fs \<subseteq> cells b i k" using b(2) s by simp_all
  have c: "h' r = h r" "h' (r + 8) = h (r + 8)" if "r \<in> cells b i k" for r
    using cells_bounds [OF i(1,2) that] by (auto simp: cell_size_def intro!: h)
  have k: "h' (cell b i k) = h (cell b i k)" if "k < cell_num i"
    using cell_bounds(1,2) [OF i(1) that, where b = b] cell_bounds(3) [OF i(1) that] by (intro h) auto
  have "h' (b + 262120) = h (b + 262120)" by (intro h) auto
  moreover obtain a e where a: "h (b + 262120) = Some a" "chain h a fs e" "k < cell_num i \<longrightarrow> e = cell b i k"
    using b(1) s by auto
  moreover have "chain h' a fs e" by (rule chain_cong [OF a(2)]) (use c i(3) in blast)
  ultimately show ?thesis using b(1) c k unfolding s by auto
qed

subsection \<open>The bins\<close>

text \<open>The blocks with free bricks are linked, the others have cleared links.\<close>

definition linked :: "kl_mem \<Rightarrow> (nat \<rightharpoonup> brick_state) \<Rightarrow> (nat \<Rightarrow> nat list) \<Rightarrow> bool" where
  "linked m B G \<longleftrightarrow>
     length (brick_bin m) = 256 \<and>
     (\<forall>i < 256. brick_bin m ! i = hd0 (G i) \<and> distinct (G i) \<and> dll (heap m) BLOCK_PREV BLOCK_NEXT 0 (G i)) \<and>
     (\<forall>i < 256. \<forall>b. b \<in> set (G i) \<longleftrightarrow> (\<exists>s. B b = Some s \<and> fst s = i \<and> avail s \<noteq> 0)) \<and>
     (\<forall>b s. B b = Some s \<longrightarrow> avail s = 0 \<longrightarrow> heap m (b + 262128) = Some 0 \<and> heap m (b + 262136) = Some 0)"

lemma linkedD:
  assumes "linked m B G"
  shows "length (brick_bin m) = 256" "i < 256 \<Longrightarrow> brick_bin m ! i = hd0 (G i)" "i < 256 \<Longrightarrow> distinct (G i)"
    "i < 256 \<Longrightarrow> dll (heap m) BLOCK_PREV BLOCK_NEXT 0 (G i)"
    "i < 256 \<Longrightarrow> b \<in> set (G i) \<longleftrightarrow> (\<exists>s. B b = Some s \<and> fst s = i \<and> avail s \<noteq> 0)"
    "B b = Some s \<Longrightarrow> avail s = 0 \<Longrightarrow> heap m (b + 262128) = Some 0 \<and> heap m (b + 262136) = Some 0"
  using assms unfolding linked_def by blast+

definition placed :: "kl_mem \<Rightarrow> (nat \<rightharpoonup> brick_state) \<Rightarrow> bool" where
  "placed m B \<longleftrightarrow> (\<forall>b \<in> dom B. blocks m b = Some 262144)"

lemma block_fields_apart:
  assumes r: "regions_ok m" and A: "\<And>b. b \<in> A \<Longrightarrow> blocks m b = Some 262144"
  shows "fields_apart BLOCK_PREV BLOCK_NEXT A"
proof -
  have "b + 262128 \<noteq> b' + 262136" if "b \<in> A" "b' \<in> A" for b b'
    using regions_apart [OF r A [OF that(1)] A [OF that(2)]] by (cases "b = b'") auto
  then show ?thesis unfolding fields_apart_def inj_on_def by auto
qed

lemma placedD: "placed m B \<Longrightarrow> B b = Some s \<Longrightarrow> blocks m b = Some 262144"
  unfolding placed_def by blast

lemma linked_blocks: "linked m B G \<Longrightarrow> placed m B \<Longrightarrow> i < 256 \<Longrightarrow> b \<in> set (G i) \<Longrightarrow> blocks m b = Some 262144"
  using linkedD(5) placedD by blast

text \<open>Only the fields of linked blocks, and the cleared ones, matter.\<close>

lemma linked_cong:
  assumes l: "linked m B G" and b: "brick_bin m' = brick_bin m"
    and h: "\<And>b. b \<in> dom B \<Longrightarrow> heap m' (b + 262128) = heap m (b + 262128) \<and> heap m' (b + 262136) = heap m (b + 262136)"
    and s: "\<And>b i. (\<exists>s. B' b = Some s \<and> fst s = i \<and> avail s \<noteq> 0) \<longleftrightarrow> (\<exists>s. B b = Some s \<and> fst s = i \<and> avail s \<noteq> 0)"
    and z: "\<And>b s. B' b = Some s \<Longrightarrow> avail s = 0 \<Longrightarrow> heap m' (b + 262128) = Some 0 \<and> heap m' (b + 262136) = Some 0"
  shows "linked m' B' G"
proof -
  have "dll (heap m') BLOCK_PREV BLOCK_NEXT 0 (G i)" if i: "i < 256" for i
  proof (rule dll_cong [OF linkedD(4) [OF l i]])
    fix x assume "x \<in> set (G i)"
    then have "x \<in> dom B" using linkedD(5) [OF l i] by blast
    then show "heap m' (BLOCK_PREV x) = heap m (BLOCK_PREV x) \<and> heap m' (BLOCK_NEXT x) = heap m (BLOCK_NEXT x)" using h by simp
  qed
  then show ?thesis using l b s z unfolding linked_def by simp
qed

lemma linked_same:
  assumes l: "linked m B G" and b: "B b = Some s" "fst s' = fst s" "avail s \<noteq> 0" "avail s' \<noteq> 0"
  shows "linked m (B(b \<mapsto> s')) G"
proof (rule linked_cong [OF l])
  show "heap m (c + 262128) = Some 0 \<and> heap m (c + 262136) = Some 0" if c: "(B(b \<mapsto> s')) c = Some t" "avail t = 0" for c t
    using linkedD(6) [OF l, of c t] c b by (cases "c = b") auto
qed (use b in \<open>auto simp del: split_paired_Ex\<close>)

text \<open>The fields that link blocks.\<close>

definition block_links :: "nat set \<Rightarrow> nat set" where
  "block_links A = BLOCK_PREV ` A \<union> BLOCK_NEXT ` A"

lemma block_links_iff: "x \<in> block_links A \<longleftrightarrow> (\<exists>b \<in> A. x = b + 262128 \<or> x = b + 262136)"
  by (auto simp: block_links_def)

lemma block_links_mono: "A \<subseteq> B \<Longrightarrow> block_links A \<subseteq> block_links B"
  unfolding block_links_def by blast

lemma links_elsewhere:
  assumes "regions_ok m" and "\<And>b. b \<in> A \<Longrightarrow> blocks m b = Some 262144" and "blocks m c = Some n" and "c \<notin> A"
    and "c \<le> x" and "x < c + n"
  shows "x \<notin> block_links A"
proof
  assume "x \<in> block_links A"
  then obtain b where b: "b \<in> A" "x = b + 262128 \<or> x = b + 262136" unfolding block_links_iff by blast
  then have "b \<noteq> c" using assms(4) by blast
  then show False using regions_apart [OF assms(1) assms(2) [OF b(1)] assms(3)] assms(5,6) b(2) by auto
qed

lemma linked_update:
  assumes r: "regions_ok m" and l: "linked m B G" and p: "placed m B" and i: "i < 256"
    and A: "\<And>b. b \<in> A \<Longrightarrow> blocks m b = Some 262144" "\<And>j. j < 256 \<Longrightarrow> j \<noteq> i \<Longrightarrow> A \<inter> set (G j) = {}"
    and H: "\<And>z. z \<notin> BLOCK_PREV ` A \<union> BLOCK_NEXT ` A \<Longrightarrow> H z = heap m z"
    and d: "dll H BLOCK_PREV BLOCK_NEXT 0 ns" "distinct ns"
    and mem: "\<And>c. c \<in> set ns \<longleftrightarrow> (\<exists>s. B' c = Some s \<and> fst s = i \<and> avail s \<noteq> 0)"
    and oth: "\<And>c j. j < 256 \<Longrightarrow> j \<noteq> i \<Longrightarrow> (\<exists>s. B' c = Some s \<and> fst s = j \<and> avail s \<noteq> 0) \<longleftrightarrow> (\<exists>s. B c = Some s \<and> fst s = j \<and> avail s \<noteq> 0)"
    and idle: "\<And>c s. B' c = Some s \<Longrightarrow> avail s = 0 \<Longrightarrow> B c = Some s \<and> c \<notin> A"
  shows "linked (m\<lparr>heap := H, brick_bin := (brick_bin m)[i := hd0 ns]\<rparr>) B' (G(i := ns))"
  unfolding linked_def
proof (intro conjI allI impI)
  have len: "length (brick_bin m) = 256" using linkedD(1) [OF l] .
  then show "length (brick_bin (m\<lparr>heap := H, brick_bin := (brick_bin m)[i := hd0 ns]\<rparr>)) = 256" by simp
  show "heap (m\<lparr>heap := H, brick_bin := (brick_bin m)[i := hd0 ns]\<rparr>) (c + 262128) = Some 0"
    "heap (m\<lparr>heap := H, brick_bin := (brick_bin m)[i := hd0 ns]\<rparr>) (c + 262136) = Some 0"
    if c: "B' c = Some s" "avail s = 0" for c s
  proof -
    have k: "B c = Some s" "c \<notin> A" using idle [OF c] by simp_all
    note links_elsewhere [OF r A(1) placedD [OF p k(1)] k(2)]
    then show "heap (m\<lparr>heap := H, brick_bin := (brick_bin m)[i := hd0 ns]\<rparr>) (c + 262128) = Some 0"
      "heap (m\<lparr>heap := H, brick_bin := (brick_bin m)[i := hd0 ns]\<rparr>) (c + 262136) = Some 0"
      using H linkedD(6) [OF l k(1) c(2)] unfolding block_links_def by auto
  qed
  have keep: "H (c + 262128) = heap m (c + 262128)" "H (c + 262136) = heap m (c + 262136)"
    if c: "blocks m c = Some 262144" "c \<notin> A" for c
    using H links_elsewhere [OF r A(1) c] unfolding block_links_def by auto
  fix j :: nat assume j: "j < 256"
  show "brick_bin (m\<lparr>heap := H, brick_bin := (brick_bin m)[i := hd0 ns]\<rparr>) ! j = hd0 ((G(i := ns)) j)"
    using len i j linkedD(2) [OF l j] by (simp add: nth_list_update)
  show "distinct ((G(i := ns)) j)" using d(2) linkedD(3) [OF l j] by simp
  show "dll (heap (m\<lparr>heap := H, brick_bin := (brick_bin m)[i := hd0 ns]\<rparr>)) BLOCK_PREV BLOCK_NEXT 0 ((G(i := ns)) j)"
  proof (cases "j = i")
    case False
    have "dll H BLOCK_PREV BLOCK_NEXT 0 (G j)"
    proof (rule dll_cong [OF linkedD(4) [OF l j]])
      fix x assume x: "x \<in> set (G j)"
      have "x \<notin> A" using A(2) [OF j False] x by blast
      then show "H (BLOCK_PREV x) = heap m (BLOCK_PREV x) \<and> H (BLOCK_NEXT x) = heap m (BLOCK_NEXT x)"
        using keep linked_blocks [OF l p j x] by simp
    qed
    then show ?thesis using False by simp
  qed (use d in simp)
  show "c \<in> set ((G(i := ns)) j) \<longleftrightarrow> (\<exists>s. B' c = Some s \<and> fst s = j \<and> avail s \<noteq> 0)" for c
    using mem oth [OF j] linkedD(5) [OF l j] by simp
qed

lemma linked_unlink:
  assumes r: "regions_ok m" and l: "linked m B G" and p: "placed m B" and i: "i < 256"
    and b: "B b = Some s" "fst s = i" "avail s \<noteq> 0"
  obtains H ns where "list_unlink BLOCK_PREV BLOCK_NEXT b (brick_bin m ! i) m = Some (hd0 ns, m\<lparr>heap := H\<rparr>)"
    "dom H = dom (heap m)" "\<forall>z. z \<notin> block_links (dom B - {b}) \<longrightarrow> H z = heap m z"
    "linked (m\<lparr>heap := H, brick_bin := (brick_bin m)[i := hd0 ns]\<rparr>) (B(b := None)) (G(i := ns))"
proof -
  have "b \<in> set (G i)" using linkedD(5) [OF l i] b by blast
  then obtain ys zs where G: "G i = ys @ b # zs" by (meson split_list)
  have dis: "distinct (ys @ b # zs)" and dl: "dll (heap m) BLOCK_PREV BLOCK_NEXT 0 (ys @ b # zs)"
    using linkedD(3,4) [OF l i] G by simp_all
  have bl: "blocks m x = Some 262144" if "x \<in> set (ys @ b # zs)" for x using linked_blocks [OF l p i] G that by simp
  have ap: "fields_apart BLOCK_PREV BLOCK_NEXT (set (ys @ b # zs))" using block_fields_apart [OF r bl] by blast
  obtain H where H: "list_unlink BLOCK_PREV BLOCK_NEXT b (brick_bin m ! i) m = Some (hd0 (ys @ zs), m\<lparr>heap := H\<rparr>)"
    "dll H BLOCK_PREV BLOCK_NEXT 0 (ys @ zs)" "dom H = dom (heap m)"
    "\<And>z. z \<notin> BLOCK_PREV ` (set ys \<union> set zs) \<union> BLOCK_NEXT ` (set ys \<union> set zs) \<Longrightarrow> H z = heap m z"
    using list_unlink_ok [OF dl dis ap] linkedD(2) [OF l i] G by metis
  have mem: "x \<in> set ys \<union> set zs \<longleftrightarrow> x \<noteq> b \<and> (\<exists>s. B x = Some s \<and> fst s = i \<and> avail s \<noteq> 0)" for x
    using linkedD(5) [OF l i, of x] G dis by auto
  have other: "set (G j) \<inter> set (G i) = {}" if "j < 256" "j \<noteq> i" for j
    using linkedD(5) [OF l that(1)] linkedD(5) [OF l i] that(2) by fastforce
  have "linked (m\<lparr>heap := H, brick_bin := (brick_bin m)[i := hd0 (ys @ zs)]\<rparr>) (B(b := None)) (G(i := ys @ zs))"
  proof (rule linked_update [OF r l p i, of "set ys \<union> set zs"])
    show "x \<in> set (ys @ zs) \<longleftrightarrow> (\<exists>s. (B(b := None)) x = Some s \<and> fst s = i \<and> avail s \<noteq> 0)" for x
      using mem [of x] by auto
    show "(set ys \<union> set zs) \<inter> set (G j) = {}" if "j < 256" "j \<noteq> i" for j using other [OF that] G by auto
    show "B c = Some t \<and> c \<notin> set ys \<union> set zs" if "(B(b := None)) c = Some t" "avail t = 0" for c t
      using that mem [of c] by (auto split: if_splits)
  qed (use bl H(2,4) dis b in auto)
  moreover have sub: "set ys \<union> set zs \<subseteq> dom B - {b}" using mem by blast
  have "H z = heap m z" if z: "z \<notin> block_links (dom B - {b})" for z
    using H(4) [folded block_links_def] block_links_mono [OF sub] z by blast
  ultimately show ?thesis using that H(1,3) by blast
qed

lemma linked_push:
  assumes r: "regions_ok m" and l: "linked m B G" and p: "placed m B" and i: "i < 256"
    and b: "B b = None" "blocks m b = Some 262144" "fst s = i" "avail s \<noteq> 0"
  obtains H where "list_push BLOCK_PREV BLOCK_NEXT b (brick_bin m ! i) m = Some (m\<lparr>heap := H\<rparr>)"
    "dom H = dom (heap m)" "\<forall>z. z \<notin> block_links (insert b (dom B)) \<longrightarrow> H z = heap m z"
    "linked (m\<lparr>heap := H, brick_bin := (brick_bin m)[i := b]\<rparr>) (B(b \<mapsto> s)) (G(i := b # G i))"
proof -
  have bl: "blocks m x = Some 262144" if "x \<in> insert b (set (G i))" for x using linked_blocks [OF l p i] b(2) that by auto
  have ap: "fields_apart BLOCK_PREV BLOCK_NEXT (insert b (set (G i)))" using block_fields_apart [OF r bl] by blast
  have nb: "b \<notin> set (G j)" if "j < 256" for j using linkedD(5) [OF l that] b(1) by auto
  have rg: "0 < b" "8 dvd b" "\<And>x. b \<le> x \<Longrightarrow> x < b + 262144 \<Longrightarrow> 8 dvd x \<Longrightarrow> heap m x \<noteq> None"
    using regions_okD [OF r b(2)] by simp_all
  have b0: "b \<noteq> 0" using rg(1) by simp
  have mp: "heap m (BLOCK_PREV b) \<noteq> None" "heap m (BLOCK_NEXT b) \<noteq> None" using rg(3) [of "b + 262128"] rg(3) [of "b + 262136"] rg(2) by simp_all
  obtain H where H: "list_push BLOCK_PREV BLOCK_NEXT b (brick_bin m ! i) m = Some (m\<lparr>heap := H\<rparr>)"
    "dll H BLOCK_PREV BLOCK_NEXT 0 (b # G i)" "dom H = dom (heap m)"
    "\<And>z. z \<notin> BLOCK_PREV ` insert b (set (G i)) \<union> BLOCK_NEXT ` insert b (set (G i)) \<Longrightarrow> H z = heap m z"
    using list_push_ok [OF linkedD(4) [OF l i] b0 nb [OF i] linkedD(2) [OF l i] ap mp] by blast
  have mem: "x \<in> set (G i) \<longleftrightarrow> (\<exists>s. B x = Some s \<and> fst s = i \<and> avail s \<noteq> 0)" for x
    using linkedD(5) [OF l i, of x] .
  have "linked (m\<lparr>heap := H, brick_bin := (brick_bin m)[i := hd0 (b # G i)]\<rparr>) (B(b \<mapsto> s)) (G(i := b # G i))"
  proof (rule linked_update [OF r l p i, of "insert b (set (G i))"])
    show "x \<in> set (b # G i) \<longleftrightarrow> (\<exists>t. (B(b \<mapsto> s)) x = Some t \<and> fst t = i \<and> avail t \<noteq> 0)" for x
      using mem [of x] b by (cases "x = b") (simp_all del: split_paired_Ex)
    show "insert b (set (G i)) \<inter> set (G j) = {}" if "j < 256" "j \<noteq> i" for j
      using nb [OF that(1)] linkedD(5) [OF l that(1)] mem that(2) by fastforce
    show "B c = Some t \<and> c \<notin> insert b (set (G i))" if "(B(b \<mapsto> s)) c = Some t" "avail t = 0" for c t
      using that mem [of c] b by (auto split: if_splits)
    show "(\<exists>t. (B(b \<mapsto> s)) c = Some t \<and> fst t = j \<and> avail t \<noteq> 0) \<longleftrightarrow> (\<exists>t. B c = Some t \<and> fst t = j \<and> avail t \<noteq> 0)"
      if "j < 256" "j \<noteq> i" for c j using that b by auto
  qed (use bl H(2,4) nb [OF i] linkedD(3) [OF l i] in auto)
  moreover have sub: "insert b (set (G i)) \<subseteq> insert b (dom B)" using mem by blast
  have "H z = heap m z" if z: "z \<notin> block_links (insert b (dom B))" for z
    using H(4) [folded block_links_def] block_links_mono [OF sub] z by blast
  ultimately show ?thesis using that [OF H(1,3)] by simp
qed

subsection \<open>Reading blocks and bricks\<close>

definition block_at :: "kl_mem \<Rightarrow> nat \<Rightarrow> nat \<Rightarrow> nat \<Rightarrow> bool" where
  "block_at m b i c \<longleftrightarrow> 8 dvd b \<and> b + 262144 < SIZE_MOD \<and> i < 256 \<and> c < 2 ^ 56 \<and> heap m b = Some (i * 2 ^ 56 + c)"

lemma block_COUNT: "block_at m b i c \<Longrightarrow> KL_G_COUNT m b = Some c"
  using block_count_bits [of c i] by (simp add: KL_G_COUNT_def block_at_def rdw_def)

lemma block_BIDX: "block_at m b i c \<Longrightarrow> KL_G_BIDX m b = Some i"
  using block_bidx_bits [of c i] by (simp add: KL_G_BIDX_def block_at_def rdw_def)

lemma block_FULL: "block_at m b i c \<Longrightarrow> KL_ISFULL m b = Some (c = 0)"
  using block_COUNT [of m b i c] by (auto simp: KL_ISFULL_def block_at_def)

lemma cell_size_word: "i < 256 \<Longrightarrow> mulw (addw i 1) MEMORY_ALLOCATION_ALIGNMENT = cell_size i"
  by (simp add: cell_size_def MEMORY_ALLOCATION_ALIGNMENT_def addw_def mulw_def SIZE_MOD_def)

lemma block_EMPTY: "block_at m b i c \<Longrightarrow> KL_ISEMPTY m b = Some (c = cell_num i)"
  using block_COUNT [of m b i c] block_BIDX [of m b i c] cell_size_word [of i]
  by (simp add: KL_ISEMPTY_def block_at_def cell_num_def kl_consts)

definition brick_at :: "kl_mem \<Rightarrow> nat \<Rightarrow> nat \<Rightarrow> bool" where
  "brick_at m r b \<longleftrightarrow> 8 dvd r \<and> r + 8 < SIZE_MOD \<and> heap m r = Some (b + 1)"

lemma brick_TYPEOF:
  assumes "brick_at m r b" and "8 dvd b"
  shows "KL_TYPEOF m r = Some 1"
proof -
  have "odd (b + 1)" using assms(2) by presburger
  then have "(b + 1) mod 2 = 1" by presburger
  then show ?thesis using assms by (simp add: KL_TYPEOF_def brick_at_def rdw_def KL_BRICK_def and_one_eq)
qed

lemma brick_BLOCK: "brick_at m r b \<Longrightarrow> 8 dvd b \<Longrightarrow> b < SIZE_MOD \<Longrightarrow> KL_G_BLOCK m r = Some b"
  using brick_TYPEOF [of m r b] brick_block_bits [of b]
  by (simp add: KL_G_BLOCK_def brick_at_def rdw_def KL_BRICK_def)

lemma brick_SIZE:
  assumes r: "brick_at m r b" and b: "block_at m b i c"
  shows "KL_G_SIZE m r = Some (cell_size i)"
proof -
  have d: "8 dvd b" "b < SIZE_MOD" "i < 256" using b by (simp_all add: block_at_def)
  show ?thesis
    using r brick_TYPEOF [OF r d(1)] brick_BLOCK [OF r d(1,2)] block_BIDX [OF b] cell_size_word [OF d(3)]
    by (simp add: KL_G_SIZE_def KL_BRICK_def brick_at_def)
qed

lemma brick_NEXT_cell: "brick_at m r b \<Longrightarrow> block_at m b i c \<Longrightarrow> r + cell_size i < SIZE_MOD \<Longrightarrow> KL_G_NEXT m r = Some (r + cell_size i)"
  using brick_SIZE [of m r b i c] by (simp add: KL_G_NEXT_def brick_at_def addw_exact)

subsection \<open>Taking a brick\<close>

lemma brick_uncount_ok:
  assumes r: "regions_ok m" and l: "linked m B G" and p: "placed m B" and b: "B b = Some s" "fst s = i" "avail s \<noteq> 0"
    and at: "block_at m b i (avail s)"
  obtains H K G' where "brick_uncount m b i = Some (m\<lparr>heap := H, brick_bin := K\<rparr>)" "dom H = dom (heap m)"
    "H b = Some (i * 2 ^ 56 + (avail s - 1))" "\<And>x. x \<noteq> b \<Longrightarrow> x \<notin> block_links (dom B) \<Longrightarrow> H x = heap m x"
    "\<And>s'. fst s' = i \<Longrightarrow> avail s' = avail s - 1 \<Longrightarrow> linked (m\<lparr>heap := H, brick_bin := K\<rparr>) (B(b \<mapsto> s')) G'"
proof -
  have hb: "heap m b = Some (i * 2 ^ 56 + avail s)" and b8: "8 dvd b" and i: "i < 256" and bb: "blocks m b = Some 262144"
    using at placedD [OF p b(1)] by (simp_all add: block_at_def)
  let ?h = "(heap m)(b \<mapsto> i * 2 ^ 56 + (avail s - 1))" let ?m = "m\<lparr>heap := ?h\<rparr>"
  have dom: "dom ?h = dom (heap m)" using hb by auto
  have at': "block_at ?m b i (avail s - 1)" using at b(3) by (auto simp: block_at_def)
  have "subw (i * 2 ^ 56 + avail s) 1 = i * 2 ^ 56 + (avail s - 1)" using at b(3) by (simp add: subw_exact block_at_def SIZE_MOD_def)
  then have step: "brick_uncount m b i =
      (if avail s - 1 = 0 then do {
         (hd, m) \<leftarrow> list_unlink BLOCK_PREV BLOCK_NEXT b (brick_bin ?m ! i) ?m;
         m \<leftarrow> Some (m\<lparr>brick_bin := (brick_bin m)[i := hd]\<rparr>);
         m \<leftarrow> wrw m (BLOCK_PREV b) 0;
         wrw m (BLOCK_NEXT b) 0
       } else Some ?m)"
    using hb block_FULL [OF at'] by (simp add: brick_uncount_def rdw_def wrw_mapped)
  have nl: "b \<notin> block_links (dom B)"
  proof
    assume "b \<in> block_links (dom B)"
    then obtain b' where b': "b' \<in> dom B" "b = b' + 262128 \<or> b = b' + 262136" unfolding block_links_iff by blast
    then have "blocks m b' = Some 262144" using placedD [OF p] by blast
    then show False using regions_apart [OF r bb, of b' 262144] b'(2) by auto
  qed
  have lm: "linked ?m B G"
  proof (rule linked_cong [OF l])
    show k: "heap ?m (c + 262128) = heap m (c + 262128) \<and> heap ?m (c + 262136) = heap m (c + 262136)" if "c \<in> dom B" for c
      using nl that unfolding block_links_iff by auto
    show "heap ?m (c + 262128) = Some 0 \<and> heap ?m (c + 262136) = Some 0" if c: "B c = Some t" "avail t = 0" for c t
    proof -
      have "c \<in> dom B" using c(1) by blast
      then show ?thesis using k [of c] linkedD(6) [OF l c] by (simp only: simp_thms)
    qed
  qed simp_all
  have rm: "regions_ok ?m" using regions_ok_cong [OF r, of ?m] dom by simp
  have pm: "placed ?m B" using p by (simp add: placed_def)
  show ?thesis
  proof (cases "avail s = 1")
    case False
    show ?thesis
    proof (rule that [of "brick_bin m" ?h G])
      show "linked (m\<lparr>heap := ?h, brick_bin := brick_bin m\<rparr>) (B(b \<mapsto> s')) G"
        if s': "fst s' = i" "avail s' = avail s - 1" for s'
        using linked_same [OF lm b(1), of s'] s' b False by simp
    qed (use step False b(3) dom in auto)
  next
    case True
    obtain H ns where u: "list_unlink BLOCK_PREV BLOCK_NEXT b (brick_bin ?m ! i) ?m = Some (hd0 ns, ?m\<lparr>heap := H\<rparr>)"
      "dom H = dom (heap ?m)" "\<forall>z. z \<notin> block_links (dom B - {b}) \<longrightarrow> H z = heap ?m z"
      "linked (?m\<lparr>heap := H, brick_bin := (brick_bin ?m)[i := hd0 ns]\<rparr>) (B(b := None)) (G(i := ns))"
      by (rule linked_unlink [OF rm lm pm i b])
    let ?H = "H(b + 262128 \<mapsto> 0, b + 262136 \<mapsto> 0)" and ?K = "(brick_bin m)[i := hd0 ns]"
    have mp: "H (b + 262128) \<noteq> None" "H (b + 262136) \<noteq> None"
      using regions_okD(6) [OF r bb, of "b + 262128"] regions_okD(6) [OF r bb, of "b + 262136"] b8 u(2) dom
      by (auto simp: dom_def set_eq_iff)
    have nb: "x \<notin> block_links (dom B - {b})" if "b \<le> x" "x < b + 262144" for x
      by (rule links_elsewhere [OF r _ bb]) (use that placedD [OF p] in auto)
    show ?thesis
    proof (rule that [of ?K ?H "G(i := ns)"])
      show "brick_uncount m b i = Some (m\<lparr>heap := ?H, brick_bin := ?K\<rparr>)"
        using step u(1) True mp by (simp add: wrw_mapped')
      show "dom ?H = dom (heap m)" using mp u(2) dom by auto
      show "?H b = Some (i * 2 ^ 56 + (avail s - 1))" using u(3) nb [of b] by simp
      show "?H x = heap m x" if x: "x \<noteq> b" "x \<notin> block_links (dom B)" for x
      proof -
        have "x \<notin> block_links (dom B - {b})" using x(2) block_links_mono [of "dom B - {b}" "dom B"] by blast
        moreover have "x \<noteq> b + 262128" "x \<noteq> b + 262136" using x(2) b(1) unfolding block_links_iff by blast+
        ultimately show ?thesis using u(3) x(1) by simp
      qed
      show "linked (m\<lparr>heap := ?H, brick_bin := ?K\<rparr>) (B(b \<mapsto> s')) (G(i := ns))"
        if s': "fst s' = i" "avail s' = avail s - 1" for s'
      proof (rule linked_cong [OF u(4)])
        fix c assume c: "c \<in> dom (B(b := None))"
        then have cb: "c \<noteq> b" "blocks m c = Some 262144" using placedD [OF p] by (auto split: if_splits)
        then have "c + 262128 \<noteq> b + 262128" "c + 262128 \<noteq> b + 262136" "c + 262136 \<noteq> b + 262128"
          using regions_apart [OF r bb cb(2)] by auto
        then show "heap (m\<lparr>heap := ?H, brick_bin := ?K\<rparr>) (c + 262128) = heap (?m\<lparr>heap := H, brick_bin := (brick_bin ?m)[i := hd0 ns]\<rparr>) (c + 262128) \<and>
          heap (m\<lparr>heap := ?H, brick_bin := ?K\<rparr>) (c + 262136) = heap (?m\<lparr>heap := H, brick_bin := (brick_bin ?m)[i := hd0 ns]\<rparr>) (c + 262136)"
          using cb(1) by simp
      next
        fix c t assume c: "(B(b \<mapsto> s')) c = Some t" "avail t = 0"
        show "heap (m\<lparr>heap := ?H, brick_bin := ?K\<rparr>) (c + 262128) = Some 0 \<and> heap (m\<lparr>heap := ?H, brick_bin := ?K\<rparr>) (c + 262136) = Some 0"
        proof (cases "c = b")
          case False
          then have "H (c + 262128) = Some 0 \<and> H (c + 262136) = Some 0" using linkedD(6) [OF u(4), of c t] c by simp
          then show ?thesis by simp
        qed simp
      qed (use s' True in \<open>auto simp del: split_paired_Ex\<close>)
    qed
  qed
qed

text \<open>The cells of a block that are in use.\<close>

fun taken :: "nat \<Rightarrow> brick_state \<Rightarrow> nat set" where
  "taken b (i, k, fs) = cells b i k - set fs"

text \<open>What taking the brick \<open>x\<close> from block \<open>b\<close> does to the heap and to the state \<open>s\<close> of the block.\<close>

definition took :: "(nat \<rightharpoonup> nat) \<Rightarrow> nat \<Rightarrow> nat \<times> nat \<times> nat list \<Rightarrow> nat \<Rightarrow> (nat \<rightharpoonup> nat) \<Rightarrow> nat \<times> nat \<times> nat list \<Rightarrow> bool" where
  "took h b s x H s' \<longleftrightarrow> dom H = dom h \<and> shape b s' \<and> body_ok H b s' \<and> fst s' = fst s \<and> avail s' = avail s - 1 \<and>
     taken b s' = insert x (taken b s) \<and> x \<notin> taken b s \<and> (\<forall>y. y < b + 8 \<or> b + 262128 \<le> y \<longrightarrow> H y = h y) \<and>
     (\<forall>q y. q \<in> taken b s \<longrightarrow> q \<le> y \<longrightarrow> y < q + cell_size (fst s) \<longrightarrow> H y = h y)"

lemma head_steps:
  assumes x: "heap m (b + 262120) = Some x" "heap m x = Some 0" and w: "heap m (x + 8) = Some w" and v: "heap m n = Some v"
    and gn: "KL_G_NEXT (m\<lparr>heap := (heap m)(x \<mapsto> b + 1)\<rparr>) x = Some n" and ne: "n \<noteq> b + 262120" "n \<noteq> x + 8" "n \<noteq> x" "x + 8 \<noteq> b + 262120"
    and full: "KL_ISFULL (m\<lparr>heap := (heap m)(x \<mapsto> b + 1)\<rparr>) b = Some False" and or: "b OR KL_BRICK = b + 1"
  shows "brick_head m b = Some (x, m\<lparr>heap := (heap m)(x \<mapsto> b + 1, n \<mapsto> 0, b + 262120 \<mapsto> n, x + 8 \<mapsto> 0)\<rparr>)"
proof -
  let ?m1 = "m\<lparr>heap := (heap m)(x \<mapsto> b + 1)\<rparr>" and ?m2 = "m\<lparr>heap := (heap m)(x \<mapsto> b + 1, x + 8 \<mapsto> n)\<rparr>"
  let ?m3 = "m\<lparr>heap := (heap m)(x \<mapsto> b + 1, x + 8 \<mapsto> n, n \<mapsto> 0)\<rparr>"
  let ?m4 = "m\<lparr>heap := (heap m)(x \<mapsto> b + 1, x + 8 \<mapsto> n, n \<mapsto> 0, b + 262120 \<mapsto> n)\<rparr>"
  let ?H = "(heap m)(x \<mapsto> b + 1, n \<mapsto> 0, b + 262120 \<mapsto> n, x + 8 \<mapsto> 0)"
  have h3: "heap ?m2 (x + 8) = Some n" "heap ?m3 (x + 8) = Some n" using ne by simp_all
  have "(heap m)(x \<mapsto> b + 1, x + 8 \<mapsto> n, n \<mapsto> 0, b + 262120 \<mapsto> n, x + 8 \<mapsto> 0) = ?H" using ne by auto
  then have w: "wrw m x (b + 1) = Some ?m1" "wrw ?m1 (x + 8) n = Some ?m2" "wrw ?m2 n 0 = Some ?m3"
    "wrw ?m3 (b + 262120) n = Some ?m4" "wrw ?m4 (x + 8) 0 = Some (m\<lparr>heap := ?H\<rparr>)"
    using x v w ne by (simp_all add: wrw_def)
  show ?thesis
    by (simp only: brick_head_def rdw_def field_addresses x bind.bind_lunit refl if_True or w full simp_thms gn h3)
qed

lemma head_listed:
  assumes r: "regions_ok m" and bb: "blocks m b = Some 262144" and s: "shape b (i, k, x # fs)" "body_ok (heap m) b (i, k, x # fs)"
  shows "\<exists>H. brick_head m b = Some (x, m\<lparr>heap := H\<rparr>) \<and> took (heap m) b (i, k, x # fs) x H (i, k, fs)"
proof -
  have sh: "1 \<le> i" "i \<le> 4" "k \<le> cell_num i" "distinct (x # fs)" "set (x # fs) \<subseteq> cells b i k" using s(1) by simp_all
  have hd: "\<And>q. q \<in> cells b i k \<Longrightarrow> heap m q = Some (b + 1)" "k < cell_num i \<Longrightarrow> heap m (cell b i k) = Some 0"
    using s(2) by auto
  obtain z where a: "heap m (b + 262120) = Some x" "chain (heap m) x (x # fs) z" "k < cell_num i \<longrightarrow> z = cell b i k"
    using s(2) by auto
  have cs: "16 \<le> cell_size i" "8 dvd cell_size i" using sh(1) by (auto simp: cell_size_def)
  have bd: "b + 8 \<le> q" "q + cell_size i \<le> b + 262120" if "q \<in> cells b i k" for q
    using cells_bounds [OF sh(1,3) that] by simp_all
  obtain n where n: "heap m (x + 8) = Some n" "chain (heap m) n fs z" using a(2) by auto
  have x: "x \<in> cells b i k" "x \<notin> set fs" "set fs \<subseteq> cells b i k" using sh(4,5) by auto
  note xb = bd [OF x(1)]
  let ?H = "(heap m)(b + 262120 \<mapsto> n, x + 8 \<mapsto> 0)"
  have ne: "q \<noteq> b + 262120" "q \<noteq> x + 8" "q + 8 \<noteq> b + 262120" "q \<noteq> x \<Longrightarrow> q + 8 \<noteq> x + 8" if "q \<in> cells b i k" for q
    using bd [OF that] xb cells_apart [OF that x(1)] cs by (cases "q = x"; auto)+
  have "chain ?H n fs z" by (rule chain_cong [OF n(2)]) (use ne x in auto)
  moreover have "cell b i k \<noteq> b + 262120 \<and> cell b i k \<noteq> x + 8" if "k < cell_num i"
  proof -
    have "x \<in> cells b i (Suc k)" "cell b i k \<in> cells b i (Suc k)" "x \<noteq> cell b i k" using x(1) cell_new [of b i k] by (auto simp: cells_Suc)
    then show ?thesis using cells_apart [of x b i "Suc k" "cell b i k" "Suc k"] cell_bounds(1,2) [OF sh(1) that, of b] cs by auto
  qed
  ultimately have body: "body_ok ?H b (i, k, fs)" using hd ne a(3) xb cs(1) by (auto intro!: exI [of _ n] exI [of _ z])
  have kp: "?H y = heap m y" if q: "q \<in> taken b (i, k, x # fs)" "q \<le> y" "y < q + cell_size i" for q y
  proof -
    have qc: "q \<in> cells b i k" "q \<noteq> x" using q(1) by auto
    show ?thesis using cells_apart [OF qc(1) x(1) qc(2)] bd [OF qc(1)] q(2,3) cs by auto
  qed
  have out: "?H y = heap m y" if "y < b + 8 \<or> b + 262128 \<le> y" for y using that xb cs by auto
  have dm: "dom ?H = dom (heap m)" using a(1) n(1) by auto
  have "brick_head m b = Some (x, m\<lparr>heap := ?H\<rparr>)"
    using a(1) n hd(1) [OF x(1)] ne(3) [OF x(1)] by (simp add: brick_head_def rdw_def wrw_def)
  moreover have "took (heap m) b (i, k, x # fs) x ?H (i, k, fs)"
    unfolding took_def using body out kp dm sh x by (intro conjI allI impI) auto
  ultimately show ?thesis by blast
qed

text \<open>The first brick that was never in use.\<close>

lemma took_fresh:
  assumes sh: "shape b (i, k, [])" and k: "k < cell_num i" and H: "dom H = dom h" "body_ok H b (i, Suc k, [])"
    "\<forall>y. y < cell b i k \<or> b + 262128 \<le> y \<longrightarrow> H y = h y"
  shows "took h b (i, k, []) (cell b i k) H (i, Suc k, [])"
proof -
  have i: "1 \<le> i" using sh by simp
  have "q + cell_size i \<le> cell b i k" if "q \<in> cells b i k" for q
    using that cell_apart [of _ k b i] unfolding cells_def by auto
  then have "H y = h y" if "q \<in> cells b i k" "q \<le> y" "y < q + cell_size i" for q y using H(3) that by force
  moreover have "H y = h y" if "y < b + 8 \<or> b + 262128 \<le> y" for y using H(3) that cell_bounds(1) [OF i k, of b] by auto
  ultimately show ?thesis unfolding took_def using H(1,2) sh k cell_new [of b i k] by (intro conjI allI impI) (auto simp: cells_Suc)
qed

lemma head_fresh:
  assumes r: "regions_ok m" and bb: "blocks m b = Some 262144" and s: "shape b (i, k, [])" "body_ok (heap m) b (i, k, [])"
    and k: "k < cell_num i" and at: "block_at m b i (cell_num i - Suc k)"
  shows "\<exists>H. brick_head m b = Some (cell b i k, m\<lparr>heap := H\<rparr>) \<and> took (heap m) b (i, k, []) (cell b i k) H (i, Suc k, [])"
proof -
  let ?x = "cell b i k" let ?n = "?x + cell_size i"
  have i: "1 \<le> i" using s(1) by simp
  have hd: "\<And>q. q \<in> cells b i k \<Longrightarrow> heap m q = Some (b + 1)" using s(2) by auto
  have x: "heap m (b + 262120) = Some ?x" "heap m ?x = Some 0" using s(2) k by auto
  have b8: "8 dvd b" "b + 262144 < SIZE_MOD" using regions_okD [OF r bb] by simp_all
  have mp: "heap m y \<noteq> None" if "b \<le> y" "y < b + 262144" "8 dvd y" for y using regions_okD(6) [OF r bb] that .
  have cs: "16 \<le> cell_size i" "8 dvd cell_size i" using i by (auto simp: cell_size_def)
  have xb: "b + 8 \<le> ?x" "?n \<le> b + 262120" "8 dvd ?x" using cell_bounds(1,2,5) [OF i k, of b] b8(1) by auto
  have "q + cell_size i \<le> ?x" if "q \<in> cells b i k" for q using that cell_apart [of _ k b i] unfolding cells_def by auto
  then have qne: "q \<noteq> ?x" "q \<noteq> b + 262120" "q \<noteq> ?x + 8" "q \<noteq> ?n" if "q \<in> cells b i k" for q using that xb cs(1) by force+
  have xne: "?x \<noteq> b + 262120" "?x + 8 \<noteq> b + 262120" using xb cs(1) by auto
  obtain w where w: "heap m (?x + 8) = Some w" using mp [of "?x + 8"] xb cs by auto
  have atx: "brick_at (m\<lparr>heap := (heap m)(?x \<mapsto> b + 1)\<rparr>) ?x b" using xb b8 cs by (simp add: brick_at_def)
  have atb: "block_at (m\<lparr>heap := (heap m)(?x \<mapsto> b + 1)\<rparr>) b i (cell_num i - Suc k)" using at xb by (simp add: block_at_def)
  have or: "b OR KL_BRICK = b + 1" using brick_or [OF b8(1)] .
  show ?thesis
  proof (cases "Suc k = cell_num i")
    case True
    let ?H = "(heap m)(?x \<mapsto> b + 1, b + 262120 \<mapsto> w, ?x + 8 \<mapsto> 0)"
    have "?H q = Some (b + 1)" if "q \<in> cells b i (Suc k)" for q using that hd qne xne by (auto simp: cells_Suc)
    then have "body_ok ?H b (i, Suc k, [])" using True by simp
    moreover have "brick_head m b = Some (?x, m\<lparr>heap := ?H\<rparr>)"
      using x w xb cs block_FULL [OF atb] True or by (simp add: brick_head_def rdw_def wrw_def)
    moreover have "dom ?H = dom (heap m)" using x w by auto
    moreover have "\<forall>y. y < ?x \<or> b + 262128 \<le> y \<longrightarrow> ?H y = heap m y" using xb cs by auto
    ultimately show ?thesis using took_fresh [OF s(1) k] by blast
  next
    case False
    then have k1: "Suc k < cell_num i" using k by simp
    have nx: "cell b i (Suc k) = ?n" by (simp add: cell_def)
    have nb: "?n + cell_size i \<le> b + 262120" using cell_bounds(2) [OF i k1, of b] nx by simp
    then have nne: "?n \<noteq> b + 262120" "?n \<noteq> ?x + 8" "?n \<noteq> ?x" using xb cs(1) by auto
    obtain v where v: "heap m ?n = Some v" using mp [of ?n] xb cs nb by auto
    let ?H = "(heap m)(?x \<mapsto> b + 1, ?n \<mapsto> 0, b + 262120 \<mapsto> ?n, ?x + 8 \<mapsto> 0)"
    have gn: "KL_G_NEXT (m\<lparr>heap := (heap m)(?x \<mapsto> b + 1)\<rparr>) ?x = Some ?n"
      by (rule brick_NEXT_cell [OF atx atb]) (use xb b8 in simp)
    have "body_ok ?H b (i, Suc k, [])" using hd qne xne nx nne by (auto simp: cells_Suc)
    moreover have "brick_head m b = Some (?x, m\<lparr>heap := ?H\<rparr>)"
      by (rule head_steps [OF x w v gn]) (use nne xne block_FULL [OF atb] k1 or in auto)
    moreover have "dom ?H = dom (heap m)" using x w v by auto
    moreover have "\<forall>y. y < ?x \<or> b + 262128 \<le> y \<longrightarrow> ?H y = heap m y" using xb cs nb by auto
    ultimately show ?thesis using took_fresh [OF s(1) k] by blast
  qed
qed

lemma brick_head_ok:
  assumes r: "regions_ok m" and bb: "blocks m b = Some 262144" and s: "shape b s" "body_ok (heap m) b s" "fst s = i" "avail s \<noteq> 0"
    and at: "block_at m b i (avail s - 1)"
  obtains x H s' where "brick_head m b = Some (x, m\<lparr>heap := H\<rparr>)" "dom H = dom (heap m)" "shape b s'" "body_ok H b s'"
    "fst s' = i" "avail s' = avail s - 1" "taken b s' = insert x (taken b s)" "x \<notin> taken b s"
    "\<And>y. y < b + 8 \<or> b + 262128 \<le> y \<Longrightarrow> H y = heap m y"
    "\<And>q y. q \<in> taken b s \<Longrightarrow> q \<le> y \<Longrightarrow> y < q + cell_size i \<Longrightarrow> H y = heap m y"
proof -
  obtain k fs where e: "s = (i, k, fs)" using s(3) by (cases s) auto
  have "\<exists>x H s'. brick_head m b = Some (x, m\<lparr>heap := H\<rparr>) \<and> took (heap m) b s x H s'"
  proof (cases fs)
    case (Cons x fs')
    then show ?thesis using head_listed [OF r bb, of i k x fs'] s(1,2) e by blast
  next
    case Nil
    have k: "k < cell_num i" "avail s - 1 = cell_num i - Suc k" using s(1,4) e Nil by simp_all
    have "shape b (i, k, [])" "body_ok (heap m) b (i, k, [])" using s(1,2) unfolding e Nil .
    then show ?thesis using head_fresh [OF r bb _ _ k(1) at [unfolded k(2)]] unfolding e Nil by blast
  qed
  then obtain x H s' where h: "brick_head m b = Some (x, m\<lparr>heap := H\<rparr>)" and t: "took (heap m) b s x H s'" by blast
  note t = t [unfolded took_def s(3)]
  show thesis by (rule that [of x H s', OF h]) (use t in blast)+
qed

subsection \<open>The invariant\<close>

definition bricks_inv :: "kl_mem \<Rightarrow> (nat \<rightharpoonup> brick_state) \<Rightarrow> (nat \<Rightarrow> nat list) \<Rightarrow> bool" where
  "bricks_inv m B G \<longleftrightarrow>
     placed m B \<and> linked m B G \<and> (\<forall>b s. B b = Some s \<longrightarrow> shape b s \<and> head_ok (heap m) b s \<and> body_ok (heap m) b s)"

definition live_bricks :: "(nat \<rightharpoonup> brick_state) \<Rightarrow> (nat \<times> nat) set" where
  "live_bricks B = {(x, n). \<exists>b s. B b = Some s \<and> x \<in> taken b s \<and> n = cell_size (fst s)}"

text \<open>What an operation on bricks keeps: the allocations in \<open>U\<close>, and all blocks outside \<open>D\<close>.\<close>

definition guards :: "(nat \<times> nat) set \<Rightarrow> nat set \<Rightarrow> kl_mem \<Rightarrow> kl_mem \<Rightarrow> bool" where
  "guards U D m m' \<longleftrightarrow>
     (\<forall>q n x. (q, n) \<in> U \<longrightarrow> q \<le> x \<longrightarrow> x < q + n \<longrightarrow> heap m' x = heap m x) \<and>
     (\<forall>b n. b \<notin> D \<longrightarrow> blocks m b = Some n \<longrightarrow>
        blocks m' b = Some n \<and> (\<forall>x. b \<le> x \<longrightarrow> x < b + n \<longrightarrow> heap m' x = heap m x)) \<and>
     chunk_bin m' = chunk_bin m \<and> enabled m' = enabled m"

lemma guardsD:
  assumes "guards U D m m'"
  shows "(q, n) \<in> U \<Longrightarrow> q \<le> x \<Longrightarrow> x < q + n \<Longrightarrow> heap m' x = heap m x"
    "b \<notin> D \<Longrightarrow> blocks m b = Some n \<Longrightarrow> blocks m' b = Some n"
    "b \<notin> D \<Longrightarrow> blocks m b = Some n \<Longrightarrow> b \<le> x \<Longrightarrow> x < b + n \<Longrightarrow> heap m' x = heap m x"
    "chunk_bin m' = chunk_bin m" "enabled m' = enabled m"
  using assms unfolding guards_def by blast+

lemma bricks_invD:
  assumes "bricks_inv m B G"
  shows "placed m B" "linked m B G" "B b = Some s \<Longrightarrow> shape b s" "B b = Some s \<Longrightarrow> head_ok (heap m) b s"
    "B b = Some s \<Longrightarrow> body_ok (heap m) b s"
  using assms unfolding bricks_inv_def by blast+

lemma head_ok_at:
  assumes r: "regions_ok m" and b: "blocks m b = Some 262144" and s: "shape b s" "head_ok (heap m) b s"
  shows "block_at m b (fst s) (avail s)" "avail s \<le> cell_num (fst s)" "1 \<le> fst s" "fst s \<le> 4"
proof -
  obtain i k fs where e: "s = (i, k, fs)" by (cases s) auto
  have k: "length fs \<le> k" "k \<le> cell_num i" "1 \<le> i" "i \<le> 4"
  proof -
    have "length fs = card (set fs)" using s(1) e distinct_card by fastforce
    also have "\<dots> \<le> card (cells b i k)" using s(1) e card_cells(2) by (intro card_mono) auto
    finally show "length fs \<le> k" by (simp add: card_cells)
  qed (use s(1) e in auto)
  then show a: "avail s \<le> cell_num (fst s)" "1 \<le> fst s" "fst s \<le> 4" using e by simp_all
  have "cell_num i \<le> 262112" unfolding cell_num_def by simp
  then have "avail s < 2 ^ 56" using a(1) e by simp
  then show "block_at m b (fst s) (avail s)"
    using s(2) e a regions_okD [OF r b] by (simp add: block_at_def)
qed

lemma links_above:
  assumes r: "regions_ok m" and p: "placed m B" and b: "B b = Some s" and x: "b \<le> x" "x < b + 262128"
  shows "x \<notin> block_links (dom B)"
proof
  assume "x \<in> block_links (dom B)"
  then obtain c where c: "c \<in> dom B" "x = c + 262128 \<or> x = c + 262136" unfolding block_links_iff by blast
  have "blocks m b = Some 262144" "blocks m c = Some 262144" using placedD [OF p] b c by blast+
  then show False using regions_apart [OF r, of b 262144 c 262144] c(2) x by (cases "b = c") auto
qed

lemma taken_bounds:
  assumes "shape b s" and "x \<in> taken b s"
  shows "b + 8 \<le> x" "x + cell_size (fst s) \<le> b + 262120" "8 dvd b \<Longrightarrow> 8 dvd x"
  using assms cells_bounds [of "fst s" "fst (snd s)" x b] by (cases s; auto)+

text \<open>Changing one block, and the links.\<close>

lemma bricks_inv_change:
  assumes r: "regions_ok m" and v: "bricks_inv m B G" and b: "b \<in> dom B \<or> B b = None \<and> blocks m b = Some 262144"
    and bl: "blocks m' = blocks m" and l: "linked m' (B(b \<mapsto> s')) G'"
    and h: "\<And>x. x < b \<or> b + 262128 \<le> x \<Longrightarrow> x \<notin> block_links (insert b (dom B)) \<Longrightarrow> heap m' x = heap m x"
    and s: "shape b s'" "head_ok (heap m') b s'" "body_ok (heap m') b s'"
  shows "bricks_inv m' (B(b \<mapsto> s')) G'"
proof -
  have p: "placed m (B(b \<mapsto> s'))" using bricks_invD(1) [OF v] b unfolding placed_def by auto
  have bb: "blocks m b = Some 262144" using placedD [OF p, of b s'] by simp
  have other: "heap m' x = heap m x" if c: "B c = Some t" "c \<noteq> b" "c \<le> x" "x < c + 262128" for c t x
  proof (rule h)
    have "blocks m c = Some 262144" using placedD [OF p, of c t] c by simp
    then show "x < b \<or> b + 262128 \<le> x" using regions_apart [OF r bb, of c 262144] c by auto
    have "dom (B(b \<mapsto> s')) = insert b (dom B)" by simp
    then show "x \<notin> block_links (insert b (dom B))" using links_above [OF r p, of c t x] c by simp
  qed
  have "shape c t \<and> head_ok (heap m') c t \<and> body_ok (heap m') c t" if c: "(B(b \<mapsto> s')) c = Some t" for c t
  proof (cases "c = b")
    case True
    then show ?thesis using s c by simp
  next
    case False
    then have c': "B c = Some t" using c by simp
    obtain i k fs where e: "t = (i, k, fs)" by (cases t) auto
    have "head_ok (heap m') c t" using bricks_invD(4) [OF v c'] other [OF c' False, of c] unfolding e by simp
    then show ?thesis
      using bricks_invD(3) [OF v c'] body_ok_cong [OF bricks_invD(5) [OF v c'] bricks_invD(3) [OF v c'], of "heap m'"] other [OF c' False]
      by simp
  qed
  moreover have "placed m' (B(b \<mapsto> s'))" using p bl unfolding placed_def by simp
  ultimately show ?thesis using l unfolding bricks_inv_def by blast
qed

text \<open>The bricks in other blocks keep their contents.\<close>

lemma guards_change:
  assumes r: "regions_ok m" and v: "bricks_inv m B G" and b: "blocks m b = Some 262144"
    and bl: "blocks m' = blocks m" "chunk_bin m' = chunk_bin m" "enabled m' = enabled m"
    and h: "\<And>x. x < b \<or> b + 262128 \<le> x \<Longrightarrow> x \<notin> block_links (insert b (dom B)) \<Longrightarrow> heap m' x = heap m x"
    and U: "U \<subseteq> live_bricks B" "\<And>q n x. (q, n) \<in> U \<Longrightarrow> b \<le> q \<Longrightarrow> q < b + 262128 \<Longrightarrow> q \<le> x \<Longrightarrow> x < q + n \<Longrightarrow> heap m' x = heap m x"
  shows "guards U (insert b (dom B)) m m'"
proof -
  note p = bricks_invD(1) [OF v]
  have 1: "heap m' x = heap m x" if q: "(q, n) \<in> U" "q \<le> x" "x < q + n" for q n x
  proof -
    obtain c s where c: "B c = Some s" "q \<in> taken c s" "n = cell_size (fst s)" using q(1) U(1) unfolding live_bricks_def by blast
    have tb: "c + 8 \<le> q" "q + n \<le> c + 262120" using taken_bounds [OF bricks_invD(3) [OF v c(1)] c(2)] c(3) by auto
    show ?thesis
    proof (cases "c = b")
      case True
      then show ?thesis using U(2) [OF q(1) _ _ q(2,3)] tb q by auto
    next
      case False
      have bc: "blocks m c = Some 262144" using placedD [OF p c(1)] .
      have "x \<notin> block_links (insert b (dom B))"
      proof
        assume "x \<in> block_links (insert b (dom B))"
        then have "x = b + 262128 \<or> x = b + 262136 \<or> x \<in> block_links (dom B)" by (auto simp: block_links_iff)
        then show False using links_above [OF r p c(1), of x] regions_apart [OF r bc b False] tb q by auto
      qed
      then show ?thesis using regions_apart [OF r bc b False] tb q by (intro h) auto
    qed
  qed
  have 2: "heap m' x = heap m x" if c: "c \<notin> insert b (dom B)" "blocks m c = Some n" "c \<le> x" "x < c + n" for c n x
  proof (rule h)
    show "x < b \<or> b + 262128 \<le> x" using regions_apart [OF r c(2) b] c by auto
    show "x \<notin> block_links (insert b (dom B))"
      by (rule links_elsewhere [OF r _ c(2,1)]) (use b placedD [OF p] c in auto)
  qed
  show ?thesis unfolding guards_def using 1 2 bl by simp
qed

lemma brick_take_ok:
  assumes r: "regions_ok m" and v: "bricks_inv m B G" and b: "B b = Some s" "avail s \<noteq> 0"
  obtains x m' s' G' where "brick_take m b (fst s) = Some (x, m')" "regions_ok m'" "bricks_inv m' (B(b \<mapsto> s')) G'"
    "fst s' = fst s" "taken b s' = insert x (taken b s)" "x \<notin> taken b s" "guards (live_bricks B) (dom B) m m'"
    "blocks m' = blocks m" "num_undes m' = num_undes m" "undes_bin m' = undes_bin m"
proof -
  note p = bricks_invD(1) [OF v] and bb = placedD [OF bricks_invD(1) [OF v] b(1)] and sh = bricks_invD(3) [OF v b(1)]
  note hd = head_ok_at [OF r bb sh bricks_invD(4) [OF v b(1)]]
  have bd: "insert b (dom B) = dom B" using b(1) by auto
  obtain H K G' where 1: "brick_uncount m b (fst s) = Some (m\<lparr>heap := H, brick_bin := K\<rparr>)" "dom H = dom (heap m)"
    "H b = Some (fst s * 2 ^ 56 + (avail s - 1))" "\<And>x. x \<noteq> b \<Longrightarrow> x \<notin> block_links (dom B) \<Longrightarrow> H x = heap m x"
    "\<And>s'. fst s' = fst s \<Longrightarrow> avail s' = avail s - 1 \<Longrightarrow> linked (m\<lparr>heap := H, brick_bin := K\<rparr>) (B(b \<mapsto> s')) G'"
    using brick_uncount_ok [OF r bricks_invD(2) [OF v] p b(1) refl b(2) hd(1)] by metis
  let ?m1 = "m\<lparr>heap := H, brick_bin := K\<rparr>"
  have r1: "regions_ok ?m1" using regions_ok_cong [OF r, of ?m1] 1(2) by simp
  have in1: "H x = heap m x" if "b + 8 \<le> x" "x < b + 262128" for x
    using 1(4) [of x] links_above [OF r p b(1), of x] that by simp
  have bd1: "body_ok (heap ?m1) b s" using body_ok_cong [OF bricks_invD(5) [OF v b(1)] sh, of H] in1 by simp
  have at1: "block_at ?m1 b (fst s) (avail s - 1)" using hd(1) 1(3) by (auto simp: block_at_def)
  have bb1: "blocks ?m1 b = Some 262144" using bb by simp
  obtain x H2 s' where 2: "brick_head ?m1 b = Some (x, ?m1\<lparr>heap := H2\<rparr>)" "dom H2 = dom (heap ?m1)" "shape b s'" "body_ok H2 b s'"
    "fst s' = fst s" "avail s' = avail s - 1" "taken b s' = insert x (taken b s)" "x \<notin> taken b s"
    "\<And>y. y < b + 8 \<or> b + 262128 \<le> y \<Longrightarrow> H2 y = heap ?m1 y"
    "\<And>q y. q \<in> taken b s \<Longrightarrow> q \<le> y \<Longrightarrow> y < q + cell_size (fst s) \<Longrightarrow> H2 y = heap ?m1 y"
    using brick_head_ok [OF r1 bb1 sh bd1 refl b(2) at1] by metis
  let ?m = "?m1\<lparr>heap := H2\<rparr>"
  have out: "heap ?m y = heap m y" if "y < b \<or> b + 262128 \<le> y" "y \<notin> block_links (insert b (dom B))" for y
    using 2(9) [of y] 1(4) [of y] that bd by auto
  have "linked ?m (B(b \<mapsto> s')) G'"
  proof (rule linked_cong [OF 1(5) [OF 2(5,6)]])
    show k: "heap ?m (c + 262128) = heap ?m1 (c + 262128) \<and> heap ?m (c + 262136) = heap ?m1 (c + 262136)" if "c \<in> dom (B(b \<mapsto> s'))" for c
    proof -
      have "c = b \<or> blocks m c = Some 262144 \<and> c \<noteq> b" using that placedD [OF p] by (cases "c = b") auto
      then show ?thesis using regions_apart [OF r bb, of c 262144] 2(9) [of "c + 262128"] 2(9) [of "c + 262136"] by auto
    qed
    show "heap ?m (c + 262128) = Some 0 \<and> heap ?m (c + 262136) = Some 0" if c: "(B(b \<mapsto> s')) c = Some t" "avail t = 0" for c t
    proof -
      have "c \<in> dom (B(b \<mapsto> s'))" using c(1) by blast
      then show ?thesis using k [of c] linkedD(6) [OF 1(5) [OF 2(5,6)] c] by (simp only: simp_thms)
    qed
  qed simp_all
  then have "bricks_inv ?m (B(b \<mapsto> s')) G'"
  proof (rule bricks_inv_change [OF r v, rotated 2])
    obtain k fs where e: "s' = (fst s, k, fs)" using 2(5) by (cases s') auto
    show "head_ok (heap ?m) b s'" using 2(9) [of b] 1(3) 2(6) unfolding e by simp
  qed (use b 2(3,4) out in auto)
  moreover have "guards (live_bricks B) (insert b (dom B)) m ?m"
  proof (rule guards_change [OF r v bb _ _ _ out])
    fix q n y assume q: "(q, n) \<in> live_bricks B" "b \<le> q" "q < b + 262128" "q \<le> y" "y < q + n"
    obtain c t where c: "B c = Some t" "q \<in> taken c t" "n = cell_size (fst t)" using q(1) unfolding live_bricks_def by blast
    have tb: "c + 8 \<le> q" "q + n \<le> c + 262120" using taken_bounds [OF bricks_invD(3) [OF v c(1)] c(2)] c(3) by auto
    have "c = b" using regions_apart [OF r bb placedD [OF p c(1)]] tb q by auto
    then have "q \<in> taken b s" "n = cell_size (fst s)" using c b(1) by auto
    then show "heap ?m y = heap m y" using 2(10) [of q y] in1 [of y] tb q \<open>c = b\<close> by simp
  qed simp_all
  moreover have "regions_ok ?m" using regions_ok_cong [OF r1, of ?m] 2(2) by simp
  moreover have "brick_take m b (fst s) = Some (x, ?m)" using 1(1) 2(1) by (simp add: brick_take_def)
  ultimately show ?thesis using that [of x ?m s' G'] 2(5,7,8) bd by simp
qed

subsection \<open>A block for bricks\<close>

lemma block_hdr_bits:
  assumes "1 \<le> i" and "i \<le> 4"
  shows "push_bit BLOCK_BIDX_SHIFT i mod SIZE_MOD = i * 2 ^ 56"
    "(i * 2 ^ 56) OR (FIXED_MAX_SIZE div mulw (addw i 1) MEMORY_ALLOCATION_ALIGNMENT) = i * 2 ^ 56 + cell_num i"
    "cell_num i \<noteq> 0"
proof -
  show "push_bit BLOCK_BIDX_SHIFT i mod SIZE_MOD = i * 2 ^ 56"
    using assms by (simp add: push_bit_eq_mult BLOCK_BIDX_SHIFT_def SIZE_MOD_def)
  have n: "cell_num i < 2 ^ 56" unfolding cell_num_def by (simp add: div_less_dividend le_less_trans [OF div_le_dividend])
  have "cell_num i = take_bit 56 (cell_num i)" using n by (simp add: take_bit_eq_mod)
  then have l: "bit (cell_num i) j \<Longrightarrow> j < 56" for j by (metis bit_take_bit_iff)
  have "push_bit 56 i AND cell_num i = 0" by (rule bit_eqI) (auto simp: bit_and_iff bit_push_bit_iff dest: l)
  then have "push_bit 56 i OR cell_num i = push_bit 56 i + cell_num i" by (simp add: disjunctive_add_eq_or)
  moreover have "FIXED_MAX_SIZE div mulw (addw i 1) MEMORY_ALLOCATION_ALIGNMENT = cell_num i"
    using cell_size_word [of i] assms by (simp add: cell_num_def kl_consts)
  ultimately show "(i * 2 ^ 56) OR (FIXED_MAX_SIZE div mulw (addw i 1) MEMORY_ALLOCATION_ALIGNMENT) = i * 2 ^ 56 + cell_num i"
    by (simp add: push_bit_eq_mult)
  have "cell_size i \<le> 40" using assms by (simp add: cell_size_def)
  then show "cell_num i \<noteq> 0" unfolding cell_num_def by (simp add: div_eq_0_iff cell_size_def)
qed

lemma brick_block_init_ok:
  assumes r: "regions_ok m" and v: "bricks_inv m B G" and b: "blocks m b = Some 262144" "B b = None" and i: "1 \<le> i" "i \<le> 4"
  obtains m' G' where "brick_block_init m b i = Some m'" "regions_ok m'" "bricks_inv m' (B(b \<mapsto> (i, 0, []))) G'"
    "guards (live_bricks B) (insert b (dom B)) m m'" "blocks m' = blocks m" "num_undes m' = num_undes m" "undes_bin m' = undes_bin m"
proof -
  note p = bricks_invD(1) [OF v] and l = bricks_invD(2) [OF v]
  have rg: "8 dvd b" "\<And>x. b \<le> x \<Longrightarrow> x < b + 262144 \<Longrightarrow> 8 dvd x \<Longrightarrow> heap m x \<noteq> None"
    using regions_okD [OF r b(1)] by simp_all
  have mps: "heap m b \<noteq> None" "heap m (b + 8) \<noteq> None" "heap m (b + 262120) \<noteq> None"
    using rg(2) [of b] rg(2) [of "b + 8"] rg(2) [of "b + 262120"] rg(1) by simp_all
  let ?n = "i * 2 ^ 56 + cell_num i"
  let ?m1 = "m\<lparr>heap := (heap m)(b \<mapsto> ?n)\<rparr>"
  have d1: "dom (heap ?m1) = dom (heap m)" using mps(1) by auto
  have r1: "regions_ok ?m1" using regions_ok_cong [OF r, of ?m1] d1 by simp
  have p1: "placed ?m1 B" using p by (simp add: placed_def)
  have l1: "linked ?m1 B G"
  proof (rule linked_cong [OF l])
    show k: "heap ?m1 (c + 262128) = heap m (c + 262128) \<and> heap ?m1 (c + 262136) = heap m (c + 262136)" if "c \<in> dom B" for c
      using regions_apart [OF r b(1), of c 262144] placedD [OF p] that by fastforce
    show "heap ?m1 (c + 262128) = Some 0 \<and> heap ?m1 (c + 262136) = Some 0" if c: "B c = Some t" "avail t = 0" for c t
    proof -
      have "c \<in> dom B" using c(1) by blast
      then show ?thesis using k [of c] linkedD(6) [OF l c] by (simp only: simp_thms)
    qed
  qed simp_all
  have nz: "avail (i, 0, []) \<noteq> 0" using block_hdr_bits(3) [OF i] by simp
  have i256: "i < 256" using i by simp
  have b1: "blocks ?m1 b = Some 262144" using b(1) by simp
  obtain H where H: "list_push BLOCK_PREV BLOCK_NEXT b (brick_bin ?m1 ! i) ?m1 = Some (?m1\<lparr>heap := H\<rparr>)"
    "dom H = dom (heap ?m1)" "\<forall>z. z \<notin> block_links (insert b (dom B)) \<longrightarrow> H z = heap ?m1 z"
    "linked (?m1\<lparr>heap := H, brick_bin := (brick_bin ?m1)[i := b]\<rparr>) (B(b \<mapsto> (i, 0, []))) (G(i := b # G i))"
    by (rule linked_push [OF r1 l1 p1 i256 b(2) b1 _ nz]) simp
  let ?H = "H(b + 262120 \<mapsto> b + 8, b + 8 \<mapsto> 0)" let ?m = "m\<lparr>heap := ?H, brick_bin := (brick_bin m)[i := b]\<rparr>"
  have nl: "x \<notin> block_links (insert b (dom B))" if "b \<le> x" "x < b + 262128" for x
  proof -
    have "placed m (B(b \<mapsto> (i, 0, [])))" using p b(1) by (simp add: placed_def)
    from links_above [OF r this, of b _ x] show ?thesis using that by simp
  qed
  have Hb: "H b = Some ?n" using H(3) nl [of b] by simp
  have mp2: "H (b + 8) \<noteq> None" "H (b + 262120) \<noteq> None" using mps H(2) d1 by (auto simp: dom_def set_eq_iff)
  have e: "brick_block_init m b i = Some ?m"
    using mps(1) mp2 H(1) block_hdr_bits(1,2) [OF i] by (auto simp: brick_block_init_def rdw_def wrw_def)
  have dm: "dom ?H = dom (heap m)" using mp2 H(2) d1 by auto
  have rm: "regions_ok ?m" using regions_ok_cong [OF r, of ?m] dm by simp
  have out: "heap ?m x = heap m x" if "x < b \<or> b + 262128 \<le> x" "x \<notin> block_links (insert b (dom B))" for x
    using H(3) that by auto
  have lm: "linked ?m (B(b \<mapsto> (i, 0, []))) (G(i := b # G i))"
  proof (rule linked_cong [OF H(4)])
    show k: "heap ?m (c + 262128) = heap (?m1\<lparr>heap := H, brick_bin := (brick_bin ?m1)[i := b]\<rparr>) (c + 262128) \<and>
        heap ?m (c + 262136) = heap (?m1\<lparr>heap := H, brick_bin := (brick_bin ?m1)[i := b]\<rparr>) (c + 262136)"
      if "c \<in> dom (B(b \<mapsto> (i, 0, [])))" for c
    proof -
      have "c = b \<or> blocks m c = Some 262144 \<and> c \<noteq> b" using that placedD [OF p] by (cases "c = b") auto
      then show ?thesis using regions_apart [OF r b(1), of c 262144] by auto
    qed
    show "heap ?m (c + 262128) = Some 0 \<and> heap ?m (c + 262136) = Some 0" if c: "(B(b \<mapsto> (i, 0, []))) c = Some t" "avail t = 0" for c t
    proof -
      have "c \<in> dom (B(b \<mapsto> (i, 0, [])))" using c(1) by blast
      then show ?thesis using k [of c] linkedD(6) [OF H(4) c] by (simp only: simp_thms)
    qed
  qed simp_all
  have "bricks_inv ?m (B(b \<mapsto> (i, 0, []))) (G(i := b # G i))"
    by (rule bricks_inv_change [OF r v _ _ lm out]) (use b i Hb in \<open>auto simp: cell_def cells_def\<close>)
  moreover have "guards (live_bricks B) (insert b (dom B)) m ?m"
  proof (rule guards_change [OF r v b(1) _ _ _ out])
    fix q n y assume q: "(q, n) \<in> live_bricks B" "b \<le> q" "q < b + 262128"
    obtain c t where c: "B c = Some t" "q \<in> taken c t" "n = cell_size (fst t)" using q(1) unfolding live_bricks_def by blast
    have tb: "c + 8 \<le> q" "q + n \<le> c + 262120" using taken_bounds [OF bricks_invD(3) [OF v c(1)] c(2)] c(3) by auto
    have "c \<noteq> b" using c(1) b(2) by auto
    then have False using regions_apart [OF r b(1) placedD [OF p c(1)]] tb q by auto
    then show "heap ?m y = heap m y" ..
  qed simp_all
  ultimately show ?thesis using that [OF e rm] by simp
qed

subsection \<open>The whole invariant\<close>

lemma chunks_frame:
  assumes v: "chunks_inv m L F" and r: "regions_ok m'" and u: "undes_ok m'" "set (undes m') \<inter> dom L = {}"
    and c: "chunk_bin m' = chunk_bin m"
    and k: "\<And>b n. b \<in> dom L \<Longrightarrow> blocks m b = Some n \<Longrightarrow> blocks m' b = Some n"
    and h: "\<And>b n x. b \<in> dom L \<Longrightarrow> blocks m b = Some n \<Longrightarrow> b \<le> x \<Longrightarrow> x < b + n \<Longrightarrow> heap m' x = heap m x"
  shows "chunks_inv m' L F"
proof -
  have r0: "regions_ok m" and l: "lay_ok {} m L" and bi: "bins_ok {} m L F" using v by (simp_all add: chunks_inv_def)
  have "lay_ok {} m' L"
  proof (rule lay_ok_cong [OF l])
    show "L b = Some xs \<and> blocks m' b = blocks m b" if b: "L b = Some xs" for b xs
      using lay_okD [OF l b] k [of b] b by (metis domI)
  qed (use h in blast)+
  moreover have "bins_ok {} m' L F"
  proof (rule bins_ok_cong [OF bi c])
    fix i d assume "i < 1576" "d \<in> set (F i)"
    then obtain t where q: "(d, t, False) \<in> spot L" using bins_okD(5) [OF bi] by blast
    obtain b n where n: "b \<in> dom L" "blocks m b = Some n" "b + 8 \<le> d" "d + t + 24 \<le> b + n" "32 \<le> t"
      using spot_range [OF r0 l q] by metis
    then show "heap m' (d + 8) = heap m (d + 8) \<and> heap m' (d + 16) = heap m (d + 16)"
      by (intro conjI h [OF n(1,2)]) auto
  qed simp
  ultimately show ?thesis using r u unfolding chunks_inv_def by simp
qed

lemma bricks_frame:
  assumes v: "bricks_inv m B G" and c: "brick_bin m' = brick_bin m"
    and k: "\<And>b n. b \<in> dom B \<Longrightarrow> blocks m b = Some n \<Longrightarrow> blocks m' b = Some n"
    and h: "\<And>b n x. b \<in> dom B \<Longrightarrow> blocks m b = Some n \<Longrightarrow> b \<le> x \<Longrightarrow> x < b + n \<Longrightarrow> heap m' x = heap m x"
  shows "bricks_inv m' B G"
proof -
  note p = bricks_invD(1) [OF v] and l = bricks_invD(2) [OF v]
  have h': "heap m' x = heap m x" if "B b = Some s" "b \<le> x" "x < b + 262144" for b s x
  proof -
    have "b \<in> dom B" using that(1) by blast
    then show ?thesis using h [OF _ placedD [OF p that(1)]] that by simp
  qed
  have "linked m' B G"
  proof (rule linked_cong [OF l c])
    show "heap m' (b + 262128) = heap m (b + 262128) \<and> heap m' (b + 262136) = heap m (b + 262136)" if b: "b \<in> dom B" for b
    proof -
      obtain s where "B b = Some s" using b by blast
      then show ?thesis using h' by simp
    qed
    show "heap m' (b + 262128) = Some 0 \<and> heap m' (b + 262136) = Some 0" if "B b = Some s" "avail s = 0" for b s
      using h' [OF that(1), of "b + 262128"] h' [OF that(1), of "b + 262136"] linkedD(6) [OF l that] by (simp del: avail.simps)
  qed simp
  moreover have "placed m' B" using p k unfolding placed_def by blast
  moreover have "shape b s \<and> head_ok (heap m') b s \<and> body_ok (heap m') b s" if b: "B b = Some s" for b s
  proof -
    obtain i j fs where e: "s = (i, j, fs)" by (cases s) auto
    have "head_ok (heap m') b s" using bricks_invD(4) [OF v b] h' [OF b, of b] unfolding e by simp
    then show ?thesis
      using bricks_invD(3) [OF v b] body_ok_cong [OF bricks_invD(5) [OF v b] bricks_invD(3) [OF v b], of "heap m'"] h' [OF b] by simp
  qed
  ultimately show ?thesis unfolding bricks_inv_def by blast
qed

end
