(* ===== verification/Kl_Alloc.thy ===== *)
theory Kl_Alloc
  imports Kl_Brick
begin

text \<open>
  The allocator as a whole: allocating and releasing bricks, and the interface.
\<close>

subsection \<open>The invariant\<close>

definition kl_inv :: "kl_mem \<Rightarrow> layout \<Rightarrow> (nat \<Rightarrow> nat list) \<Rightarrow> (nat \<rightharpoonup> brick_state) \<Rightarrow> (nat \<Rightarrow> nat list) \<Rightarrow> bool" where
  "kl_inv m L F B G \<longleftrightarrow> chunks_inv m L F \<and> bricks_inv m B G \<and> dom B \<inter> (dom L \<union> set (undes m)) = {}"

lemma kl_invD:
  assumes "kl_inv m L F B G"
  shows "chunks_inv m L F" "bricks_inv m B G" "dom B \<inter> (dom L \<union> set (undes m)) = {}"
    "regions_ok m" "lay_ok {} m L" "bins_ok {} m L F" "undes_ok m" "set (undes m) \<inter> dom L = {}"
  using assms by (auto simp: kl_inv_def chunks_inv_def)

text \<open>The allocations: the header of each, and its size.\<close>

definition allocs :: "layout \<Rightarrow> (nat \<rightharpoonup> brick_state) \<Rightarrow> (nat \<times> nat) set" where
  "allocs L B = used L \<union> live_bricks B"

definition intact :: "(nat \<times> nat) set \<Rightarrow> kl_mem \<Rightarrow> kl_mem \<Rightarrow> bool" where
  "intact U m m' \<longleftrightarrow> (\<forall>q n x. (q, n) \<in> U \<longrightarrow> q \<le> x \<longrightarrow> x < q + n \<longrightarrow> heap m' x = heap m x)"

text \<open>Each allocation lies in a block of its kind, and any two are apart.\<close>

lemma chunk_in_block:
  assumes "kl_inv m L F B G" and "(q, n) \<in> used L"
  obtains b k where "b \<in> dom L" "blocks m b = Some k" "b + 8 \<le> q" "q + n + 24 \<le> b + k" "32 \<le> n"
proof -
  have "(q, n, True) \<in> spot L" using assms(2) by (simp add: used_def)
  from spot_range [OF kl_invD(4,5) [OF assms(1)] this] show ?thesis using that by metis
qed

lemma brick_in_block:
  assumes "kl_inv m L F B G" and "(q, n) \<in> live_bricks B"
  obtains b s where "B b = Some s" "q \<in> taken b s" "n = cell_size (fst s)" "blocks m b = Some 262144" "b + 8 \<le> q" "q + n \<le> b + 262120"
    "16 \<le> n"
proof -
  obtain b s where b: "B b = Some s" "q \<in> taken b s" "n = cell_size (fst s)" using assms(2) unfolding live_bricks_def by blast
  note v = kl_invD(2) [OF assms(1)]
  note sh = bricks_invD(3) [OF v b(1)]
  have "1 \<le> fst s" using sh by (cases s) simp
  then have "16 \<le> n" using b(3) by (simp add: cell_size_def)
  then show ?thesis
    using that [OF b placedD [OF bricks_invD(1) [OF v] b(1)]] taken_bounds [OF sh b(2)] b(3) by simp
qed

lemma allocs_apart:
  assumes v: "kl_inv m L F B G" and q: "(q, n) \<in> allocs L B" "(q', n') \<in> allocs L B" "(q, n) \<noteq> (q', n')"
  shows "q + n \<le> q' \<or> q' + n' \<le> q"
proof -
  note r = kl_invD(4) [OF v]
  have mixed: "a + k \<le> a' \<or> a' + k' \<le> a" if c: "(a, k) \<in> used L" and d: "(a', k') \<in> live_bricks B" for a k a' k'
  proof -
    obtain b z where 1: "b \<in> dom L" "blocks m b = Some z" "b + 8 \<le> a" "a + k + 24 \<le> b + z" using chunk_in_block [OF v c] by metis
    obtain b' s where 2: "B b' = Some s" "blocks m b' = Some 262144" "b' + 8 \<le> a'" "a' + k' \<le> b' + 262120" using brick_in_block [OF v d] by metis
    have "b \<noteq> b'" using 1(1) 2(1) kl_invD(3) [OF v] by blast
    then show ?thesis using regions_apart [OF r 1(2) 2(2)] 1 2 by auto
  qed
  consider "(q, n) \<in> used L" "(q', n') \<in> used L" | "(q, n) \<in> used L" "(q', n') \<in> live_bricks B"
    | "(q, n) \<in> live_bricks B" "(q', n') \<in> used L" | "(q, n) \<in> live_bricks B" "(q', n') \<in> live_bricks B"
    using q(1,2) unfolding allocs_def by blast
  then show ?thesis
  proof cases
    case 1
    then have "(q, n, True) \<in> spot L" "(q', n', True) \<in> spot L" by (simp_all add: used_def)
    then show ?thesis using spot_apart [OF r kl_invD(5) [OF v]] q(3) by blast
  next
    case 4
    obtain b s where 1: "B b = Some s" "q \<in> taken b s" "n = cell_size (fst s)" "blocks m b = Some 262144" "b + 8 \<le> q" "q + n \<le> b + 262120"
      using brick_in_block [OF v 4(1)] by metis
    obtain b' s' where 2: "B b' = Some s'" "q' \<in> taken b' s'" "n' = cell_size (fst s')" "blocks m b' = Some 262144" "b' + 8 \<le> q'" "q' + n' \<le> b' + 262120"
      using brick_in_block [OF v 4(2)] by metis
    show ?thesis
    proof (cases "b = b'")
      case True
      then have "s' = s" "q \<noteq> q'" using 1 2 q(3) by auto
      moreover obtain i k fs where "s = (i, k, fs)" by (cases s) auto
      ultimately show ?thesis using 1 2 True cells_apart [of q b i k q' k] by auto
    next
      case False
      then show ?thesis using regions_apart [OF r 1(4) 2(4)] 1 2 by auto
    qed
  qed (use mixed in blast)+
qed

lemma allocs_unique: "kl_inv m L F B G \<Longrightarrow> (q, n) \<in> allocs L B \<Longrightarrow> (q, n') \<in> allocs L B \<Longrightarrow> n = n'"
proof (rule ccontr)
  assume a: "kl_inv m L F B G" "(q, n) \<in> allocs L B" "(q, n') \<in> allocs L B" "n \<noteq> n'"
  have pos: "0 < k" if "(q, k) \<in> allocs L B" for k
    using that chunk_in_block [OF a(1)] brick_in_block [OF a(1)] unfolding allocs_def by (metis UnE less_le_trans zero_less_numeral)
  show False using allocs_apart [OF a(1-3)] a(4) pos [OF a(2)] pos [OF a(3)] by auto
qed

subsection \<open>Allocating a brick\<close>

lemma BRICKBIN:
  assumes "1 \<le> n" and "n \<le> 31"
  shows "1 \<le> KL_G_BRICKBIN n" "KL_G_BRICKBIN n \<le> 4" "cell_size (KL_G_BRICKBIN n) = KL_BRICK_SIZE n" "n + 8 \<le> KL_BRICK_SIZE n"
proof -
  have e: "KL_BRICK_SIZE n = (n + 15) div 8 * 8" using assms by (intro KL_BRICK_SIZE_eq) (simp add: SIZE_MOD_def)
  have b: "KL_G_BRICKBIN n = (n + 15) div 8 - 1" unfolding KL_G_BRICKBIN_def e by (simp add: kl_consts)
  have "2 \<le> (n + 15) div 8" "(n + 15) div 8 \<le> 5" using assms by auto
  then show "1 \<le> KL_G_BRICKBIN n" "KL_G_BRICKBIN n \<le> 4" "cell_size (KL_G_BRICKBIN n) = KL_BRICK_SIZE n" using b e by (simp_all add: cell_size_def)
  show "n + 8 \<le> KL_BRICK_SIZE n" unfolding e by presburger
qed

lemma live_bricks_at:
  assumes "B b = Some s"
  shows "live_bricks B = live_bricks (B(b := None)) \<union> (\<lambda>x. (x, cell_size (fst s))) ` taken b s"
proof -
  have "(y, n) \<in> live_bricks B \<longleftrightarrow> (y, n) \<in> live_bricks (B(b := None)) \<or> y \<in> taken b s \<and> n = cell_size (fst s)" for y n
  proof
    assume "(y, n) \<in> live_bricks B"
    then obtain c t where "B c = Some t" "y \<in> taken c t" "n = cell_size (fst t)" unfolding live_bricks_def by blast
    then show "(y, n) \<in> live_bricks (B(b := None)) \<or> y \<in> taken b s \<and> n = cell_size (fst s)"
      using assms unfolding live_bricks_def by (cases "c = b") (auto simp del: taken.simps split_paired_Ex)
  next
    assume a: "(y, n) \<in> live_bricks (B(b := None)) \<or> y \<in> taken b s \<and> n = cell_size (fst s)"
    have "(y, n) \<in> live_bricks B" if l: "(y, n) \<in> live_bricks (B(b := None))"
    proof -
      obtain c t where c: "(B(b := None)) c = Some t" "y \<in> taken c t" "n = cell_size (fst t)" using l unfolding live_bricks_def by blast
      then have "B c = Some t" by (simp split: if_splits)
      then show ?thesis using c(2,3) unfolding live_bricks_def by blast
    qed
    then show "(y, n) \<in> live_bricks B" using a assms unfolding live_bricks_def by blast
  qed
  then show ?thesis by auto
qed

lemma live_bricks_upd:
  "live_bricks (B(b \<mapsto> s)) = live_bricks (B(b := None)) \<union> (\<lambda>x. (x, cell_size (fst s))) ` taken b s"
  using live_bricks_at [of "B(b \<mapsto> s)" b s] by simp

lemma head_nonzero:
  assumes "body_ok h b s" and "shape b s" and "avail s \<noteq> 0"
  obtains a where "h (b + 262120) = Some a" "a \<noteq> 0"
proof -
  obtain i k fs where e: "s = (i, k, fs)" by (cases s) auto
  obtain a z where a: "h (b + 262120) = Some a" "chain h a fs z" "k < cell_num i \<longrightarrow> z = cell b i k" using assms(1) e by auto
  have sh: "1 \<le> i" "k \<le> cell_num i" "set fs \<subseteq> cells b i k" using assms(2) e by simp_all
  have "a \<noteq> 0"
  proof (cases fs)
    case Nil
    then show ?thesis using a assms(3) e by (auto simp: cell_def)
  next
    case (Cons x xs)
    then show ?thesis using a(2) sh(3) cells_bounds(1) [OF sh(1,2), of x b] by auto
  qed
  then show ?thesis using that a(1) by blast
qed

text \<open>A brick is taken from a block that is ready: one that was there (\<open>B1 = B\<close>) or a new one.\<close>

definition ready :: "kl_mem \<Rightarrow> (nat \<rightharpoonup> nat \<times> nat \<times> nat list) \<Rightarrow> nat \<Rightarrow> nat \<Rightarrow> kl_mem \<Rightarrow> (nat \<rightharpoonup> nat \<times> nat \<times> nat list) \<Rightarrow> bool" where
  "ready m B b i m1 B1 \<longleftrightarrow>
     (B1 = B \<or> B b = None \<and> B1 = B(b \<mapsto> (i, 0, []))) \<and> (b \<in> set (undes m) \<or> b \<in> dom B \<or> blocks m b = None) \<and>
     guards (live_bricks B) (insert b (dom B)) m m1 \<and> regions_ok m1 \<and> undes_ok m1 \<and> set (undes m1) \<subseteq> set (undes m) - {b} \<and>
     (\<exists>s. B1 b = Some s \<and> fst s = i \<and> avail s \<noteq> 0)"

lemma ready_live: "ready m B b i m1 B1 \<Longrightarrow> live_bricks B1 = live_bricks B" "ready m B b i m1 B1 \<Longrightarrow> dom B1 = insert b (dom B)"
    "ready m B b i m1 B1 \<Longrightarrow> B1(b \<mapsto> s) = B(b \<mapsto> s)"
  using live_bricks_upd [of B b "(i, 0, [])"] by (auto simp: ready_def cells_def fun_upd_idem)

text \<open>The blocks of chunks are not touched.\<close>

lemma ready_chunks:
  assumes v: "kl_inv m L F B G" and y: "ready m B b i m1 B1" and g: "guards U (dom B1) m1 m2" "blocks m2 = blocks m1"
    and c: "c \<in> dom L" "blocks m c = Some k"
  shows "blocks m2 c = Some k" "x \<in> {c ..< c + k} \<Longrightarrow> heap m2 x = heap m x"
proof -
  have "b \<notin> dom L" using y kl_invD(3,5,8) [OF v] by (auto simp: ready_def elim: lay_okD)
  then have nc: "c \<notin> insert b (dom B)" "c \<notin> dom B1" using c(1) kl_invD(3) [OF v] unfolding ready_live(2) [OF y] by blast+
  have g1: "guards (live_bricks B) (insert b (dom B)) m m1" using y by (simp add: ready_def)
  have c1: "blocks m1 c = Some k" by (rule guardsD(2) [OF g1 nc(1) c(2)])
  then show "blocks m2 c = Some k" using g(2) by simp
  show "heap m2 x = heap m x" if "x \<in> {c ..< c + k}"
    using guardsD(3) [OF g1 nc(1) c(2), of x] guardsD(3) [OF g(1) nc(2) c1, of x] that by simp
qed

text \<open>The brick taken was not in use before.\<close>

lemma brick_is_new:
  assumes r: "regions_ok m" and bv: "bricks_inv m (B(b \<mapsto> s')) G" and b: "B b = Some s" "taken b s' = insert x (taken b s)" "x \<notin> taken b s"
  shows "(x, k) \<notin> live_bricks B"
proof
  assume "(x, k) \<in> live_bricks B"
  then obtain c t where c: "B c = Some t" "x \<in> taken c t" unfolding live_bricks_def by blast
  then have ne: "c \<noteq> b" using b(1,3) by auto
  have 3: "b + 8 \<le> x" "x < b + 262144" using taken_bounds [OF bricks_invD(3) [OF bv, of b s'], of x] b(2) by (auto simp: cell_size_def)
  have 4: "c + 8 \<le> x" "x < c + 262144" using taken_bounds [OF bricks_invD(3) [OF bv, of c t] c(2)] ne c by (auto simp: cell_size_def)
  show False
    using regions_apart [OF r, of b 262144 c 262144] placedD [OF bricks_invD(1) [OF bv], of b s']
      placedD [OF bricks_invD(1) [OF bv], of c t] c ne 3 4 by auto
qed

lemma take_ready:
  assumes v: "kl_inv m L F B G" and y: "ready m B b i m1 B1" and bv: "bricks_inv m1 B1 G1"
  obtains x m' B' G' where "brick_take m1 b i = Some (x, m')" "0 < x" "kl_inv m' L F B' G'"
    "live_bricks B' = insert (x, cell_size i) (live_bricks B)" "\<forall>k. (x, k) \<notin> live_bricks B"
    "intact (allocs L B) m m'" "enabled m' = enabled m"
proof -
  obtain s1 where s1: "B1 b = Some s1" "fst s1 = i" "avail s1 \<noteq> 0" and r1: "regions_ok m1" and u1: "undes_ok m1" "set (undes m1) \<subseteq> set (undes m) - {b}"
    and g: "guards (live_bricks B) (insert b (dom B)) m m1"
    using y by (auto simp: ready_def)
  obtain x m2 s2 G2 where 2: "brick_take m1 b (fst s1) = Some (x, m2)" "regions_ok m2" "bricks_inv m2 (B1(b \<mapsto> s2)) G2"
    "fst s2 = fst s1" "taken b s2 = insert x (taken b s1)" "x \<notin> taken b s1" "guards (live_bricks B1) (dom B1) m1 m2"
    "blocks m2 = blocks m1" "num_undes m2 = num_undes m1" "undes_bin m2 = undes_bin m1"
    by (rule brick_take_ok [OF r1 bv s1(1,3)])
  note lb = ready_live [OF y] and kb = ready_chunks [OF v y 2(7,8)]
  have un: "undes m2 = undes m1" using 2(9,10) by (simp add: undes_def)
  have nbL: "b \<notin> dom L" using y kl_invD(3,5,8) [OF v] by (auto simp: ready_def elim: lay_okD)
  have "chunks_inv m2 L F"
  proof (rule chunks_frame [OF kl_invD(1) [OF v] 2(2)])
    show "undes_ok m2" using u1(1) 2(8-10) un by (simp add: undes_ok_def)
    show "set (undes m2) \<inter> dom L = {}" using un u1(2) kl_invD(8) [OF v] by auto
    show "chunk_bin m2 = chunk_bin m" using guardsD(4) [OF g] guardsD(4) [OF 2(7)] by simp
  qed (use kb in auto)
  moreover have "dom (B(b \<mapsto> s2)) \<inter> (dom L \<union> set (undes m2)) = {}" using un u1(2) kl_invD(3) [OF v] nbL by auto
  ultimately have inv: "kl_inv m2 L F (B(b \<mapsto> s2)) G2" using 2(3) lb(3) by (simp add: kl_inv_def)
  have live: "live_bricks (B(b \<mapsto> s2)) = insert (x, cell_size i) (live_bricks B)"
    using live_bricks_upd [of B1 b s2] live_bricks_at [of B1 b s1] s1(1,2) 2(4,5) lb by simp
  have "intact (allocs L B) m m2"
    unfolding intact_def allocs_def
  proof (intro allI impI, elim UnE)
    fix q k y assume q: "(q, k) \<in> used L" "q \<le> y" "y < q + k"
    obtain c z where "c \<in> dom L" "blocks m c = Some z" "c + 8 \<le> q" "q + k + 24 \<le> c + z" using chunk_in_block [OF v q(1)] by metis
    then show "heap m2 y = heap m y" using kb(2) [of c z y] q by simp
  next
    fix q k y assume q: "(q, k) \<in> live_bricks B" "q \<le> y" "y < q + k"
    then show "heap m2 y = heap m y" using guardsD(1) [OF g q] guardsD(1) [OF 2(7), of q k y] lb by simp
  qed
  moreover have "0 < x" using taken_bounds(1) [OF bricks_invD(3) [OF 2(3), of b s2], of x] 2(5) by simp
  moreover have "enabled m2 = enabled m" using guardsD(5) [OF g] guardsD(5) [OF 2(7)] by simp
  ultimately show thesis using that [OF _ _ inv live] brick_is_new [OF 2(2,3) s1(1) 2(5,6)] lb(1) 2(1) s1(2) by simp
qed

text \<open>An undesignated or new block becomes a block of bricks.\<close>

lemma fresh_ready:
  assumes v: "kl_inv m L F B G" and i: "1 \<le> i" "i \<le> 4" and sup: "num_undes m \<noteq> 0 \<or> supplied m 262144"
  obtains b m1 m2 G2 where "designate m = Some (b, m1)" "0 < b" "brick_block_init m1 b i = Some m2"
    "ready m B b i m2 (B(b \<mapsto> (i, 0, [])))" "bricks_inv m2 (B(b \<mapsto> (i, 0, []))) G2"
proof -
  note r = kl_invD(4) [OF v] and bv = kl_invD(2) [OF v] and u = kl_invD(7) [OF v]
  note p = bricks_invD(1) [OF bv]
  obtain b m1 where 1: "designate m = Some (b, m1)" "0 < b" "b \<in> set (undes m) \<or> blocks m b = None"
    "blocks m1 = (blocks m)(b \<mapsto> 262144)" "regions_ok m1" "undes_ok m1" "set (undes m1) = set (undes m) - {b}"
    "chunk_bin m1 = chunk_bin m" "same_side m m1" "\<And>x. x < b \<or> b + 262144 \<le> x \<Longrightarrow> heap m1 x = heap m x"
    using designate_ok [OF r u sup] by blast
  have nb: "B b = None"
  proof (rule ccontr)
    assume "B b \<noteq> None"
    then have b: "b \<in> dom B" by blast
    then have "blocks m b = Some 262144" using p by (simp add: placed_def)
    then show False using 1(3) b kl_invD(3) [OF v] by auto
  qed
  have bb: "blocks m1 b = Some 262144" using 1(4) by simp
  have far: "heap m1 x = heap m x" if "c \<noteq> b" "blocks m c = Some k" "c \<le> x" "x < c + k" for c k x
  proof -
    have "blocks m1 c = Some k" using that 1(4) by simp
    then show ?thesis using regions_apart [OF 1(5) bb] that by (intro 1(10)) fastforce
  qed
  have bv1: "bricks_inv m1 B G"
  proof (rule bricks_frame [OF bv])
    show "heap m1 x = heap m x" if "c \<in> dom B" "blocks m c = Some k" "c \<le> x" "x < c + k" for c k x
      by (rule far [OF _ that(2-4)]) (use that(1) nb in auto)
  qed (use 1(4,9) nb in \<open>auto simp: same_side_def\<close>)
  obtain m2 G2 where 2: "brick_block_init m1 b i = Some m2" "regions_ok m2" "bricks_inv m2 (B(b \<mapsto> (i, 0, []))) G2"
    "guards (live_bricks B) (insert b (dom B)) m1 m2" "blocks m2 = blocks m1" "num_undes m2 = num_undes m1" "undes_bin m2 = undes_bin m1"
    by (rule brick_block_init_ok [OF 1(5) bv1 bb nb i])
  have un: "undes m2 = undes m1" using 2(6,7) by (simp add: undes_def)
  have "guards (live_bricks B) (insert b (dom B)) m m2"
    unfolding guards_def
  proof (intro conjI allI impI)
    fix q k x assume q: "(q, k) \<in> live_bricks B" "q \<le> x" "x < q + k"
    obtain c s where c: "B c = Some s" "blocks m c = Some 262144" "c + 8 \<le> q" "q + k \<le> c + 262120" using brick_in_block [OF v q(1)] by metis
    have "c \<noteq> b" using c(1) nb by auto
    then show "heap m2 x = heap m x" using guardsD(1) [OF 2(4) q] far [OF _ c(2)] c q by simp
  next
    fix c k assume c: "c \<notin> insert b (dom B)" "blocks m c = Some k"
    then have c1: "blocks m1 c = Some k" using 1(4) by simp
    then show "blocks m2 c = Some k" using 2(5) by simp
    show "heap m2 x = heap m x" if "c \<le> x" "x < c + k" for x
      using guardsD(3) [OF 2(4) c(1) c1 that] far [OF _ c(2) that] c(1) by simp
  next
    show "chunk_bin m2 = chunk_bin m" "enabled m2 = enabled m"
      using guardsD(4,5) [OF 2(4)] 1(8,9) by (simp_all add: same_side_def)
  qed
  moreover have "undes_ok m2" using 1(6) 2(5-7) un by (simp add: undes_ok_def)
  ultimately have "ready m B b i m2 (B(b \<mapsto> (i, 0, [])))"
    using nb 1(3,7) un 2(2) block_hdr_bits(3) [OF i] by (auto simp: ready_def)
  then show thesis using that 1(1,2) 2(1,3) by blast
qed

lemma brick_get_ok:
  assumes v: "kl_inv m L F B G" and n: "1 \<le> n" "n \<le> 31" and sup: "num_undes m \<noteq> 0 \<or> supplied m 262144"
  obtains x m' B' G' where "kl_brick_get m n = Some (x, m')" "0 < x" "kl_inv m' L F B' G'"
    "live_bricks B' = insert (x, KL_BRICK_SIZE n) (live_bricks B)" "\<And>k. (x, k) \<notin> live_bricks B"
    "intact (allocs L B) m m'" "enabled m' = enabled m"
proof -
  note bv = kl_invD(2) [OF v]
  let ?i = "KL_G_BRICKBIN n" and ?b = "brick_bin m ! KL_G_BRICKBIN n"
  note i = BRICKBIN [OF n]
  have i256: "?i < 256" using i by simp
  note l = bricks_invD(2) [OF bv]
  have pre: "kl_brick_get m n = (do { h \<leftarrow> (if ?b = 0 then Some 0 else rdw m (BLOCK_HEAD ?b));
        if h = 0 then do { (b, m) \<leftarrow> designate m; if b = 0 then Some (0, m) else do { m \<leftarrow> brick_block_init m b ?i; brick_take m b ?i } }
        else brick_take m ?b ?i })"
    using n linkedD(1) [OF l] i256 by (simp add: kl_brick_get_def kl_consts)
  obtain b m1 B1 G1 where r: "kl_brick_get m n = brick_take m1 b ?i" "ready m B b ?i m1 B1" "bricks_inv m1 B1 G1"
  proof (cases "?b = 0")
    case False
    then have "?b \<in> set (G ?i)" using linkedD(2) [OF l i256] by (cases "G ?i") auto
    then obtain s where s: "B ?b = Some s" "fst s = ?i" "avail s \<noteq> 0" using linkedD(5) [OF l i256] by blast
    obtain a where a: "heap m (?b + 262120) = Some a" "a \<noteq> 0"
      using head_nonzero [OF bricks_invD(5) [OF bv s(1)] bricks_invD(3) [OF bv s(1)] s(3)] by metis
    have "ready m B ?b ?i m B" using s kl_invD(3,4,7) [OF v] by (auto simp: ready_def guards_def)
    moreover have "kl_brick_get m n = brick_take m ?b ?i" using pre a False by (simp add: rdw_def)
    ultimately show thesis using that bv by blast
  next
    case True
    obtain b m1 m2 G2 where "designate m = Some (b, m1)" "0 < b" "brick_block_init m1 b ?i = Some m2"
      "ready m B b ?i m2 (B(b \<mapsto> (?i, 0, [])))" "bricks_inv m2 (B(b \<mapsto> (?i, 0, []))) G2"
      by (rule fresh_ready [OF v i(1,2) sup])
    then show thesis using that pre True by simp
  qed
  obtain x m' B' G' where "brick_take m1 b ?i = Some (x, m')" "0 < x" "kl_inv m' L F B' G'"
    "live_bricks B' = insert (x, cell_size ?i) (live_bricks B)" "\<forall>k. (x, k) \<notin> live_bricks B" "intact (allocs L B) m m'" "enabled m' = enabled m"
    by (rule take_ready [OF v r(2,3)])
  then show thesis using that r(1) i(3) by simp
qed

subsection \<open>Releasing a brick\<close>

lemma linked_drop:
  assumes "linked m B G" and "\<And>s. B b = Some s \<Longrightarrow> avail s = 0"
  shows "linked m (B(b := None)) G"
proof (rule linked_cong [OF assms(1)])
  show "(\<exists>s. (B(b := None)) c = Some s \<and> fst s = i \<and> avail s \<noteq> 0) \<longleftrightarrow> (\<exists>s. B c = Some s \<and> fst s = i \<and> avail s \<noteq> 0)" for c i
    using assms(2) by (cases "c = b") (auto simp del: split_paired_Ex)
  show "heap m (c + 262128) = Some 0 \<and> heap m (c + 262136) = Some 0" if "(B(b := None)) c = Some s" "avail s = 0" for c s
    using linkedD(6) [OF assms(1), of c s] that by (simp split: if_splits)
qed simp_all

lemma in_bin_first:
  assumes l: "linked m B G" and b: "B b = Some s" "fst s < 256" "avail s \<noteq> 0" and h: "heap m (b + 262128) = Some 0"
  shows "brick_bin m ! fst s = b"
proof -
  let ?i = "fst s"
  have "b \<in> set (G ?i)" using linkedD(5) [OF l b(2)] b by blast
  then obtain ys zs where G: "G ?i = ys @ b # zs" by (meson split_list)
  have d: "dll (heap m) BLOCK_PREV BLOCK_NEXT 0 (ys @ b # zs)" using linkedD(4) [OF l b(2)] G by simp
  have "ys = []"
  proof (rule ccontr)
    assume "ys \<noteq> []"
    then have e: "ys = butlast ys @ [last ys]" by simp
    have "dll (heap m) BLOCK_PREV BLOCK_NEXT 0 (butlast ys @ last ys # b # zs)" using d e by (metis append.assoc append_Cons append_Nil)
    then have "last ys \<noteq> 0" using dll_mid by blast
    then show False using dll_mid [OF d] h \<open>ys \<noteq> []\<close> by simp
  qed
  then show ?thesis using linkedD(2) [OF l b(2)] G by simp
qed

text \<open>The state after a brick was added to the list of its block.\<close>

lemma body_ok_add:
  assumes s: "shape b (i, k, fs)" "body_ok h b (i, k, fs)" and x: "x \<in> taken b (i, k, fs)" and a: "h (b + 262120) = Some a"
  shows "shape b (i, k, x # fs)" "body_ok (h(x + 8 \<mapsto> a, b + 262120 \<mapsto> x)) b (i, k, x # fs)"
proof -
  have sh: "1 \<le> i" "k \<le> cell_num i" "set fs \<subseteq> cells b i k" using s(1) by simp_all
  have xc: "x \<in> cells b i k" "x \<notin> set fs" using x by simp_all
  show "shape b (i, k, x # fs)" using s(1) xc by simp
  have cs: "16 \<le> cell_size i" using sh(1) by (simp add: cell_size_def)
  note xb = cells_bounds(1,2) [OF sh(1,2) xc(1)]
  let ?h = "h(x + 8 \<mapsto> a, b + 262120 \<mapsto> x)"
  have ne: "q \<noteq> b + 262120" "q \<noteq> x + 8" "q + 8 \<noteq> b + 262120" "q \<noteq> x \<Longrightarrow> q + 8 \<noteq> x + 8" if "q \<in> cells b i k" for q
    using cells_bounds(1,2) [OF sh(1,2) that] xb cells_apart [OF that xc(1)] cs by (cases "q = x"; auto)+
  obtain z where z: "chain h a fs z" "k < cell_num i \<longrightarrow> z = cell b i k" using s(2) a by auto
  have "chain ?h a fs z" by (rule chain_cong [OF z(1)]) (use ne sh(3) xc(2) in auto)
  then have "chain ?h x (x # fs) z" using ne(3) [OF xc(1)] by simp
  moreover have "cell b i k \<noteq> b + 262120 \<and> cell b i k \<noteq> x + 8" if "k < cell_num i"
  proof -
    have "x \<in> cells b i (Suc k)" "cell b i k \<in> cells b i (Suc k)" "x \<noteq> cell b i k" using xc(1) cell_new [of b i k] by (auto simp: cells_Suc)
    then show ?thesis using cells_apart [of x b i "Suc k" "cell b i k" "Suc k"] cell_bounds(1,2) [OF sh(1) that, of b] cs by auto
  qed
  ultimately show "body_ok ?h b (i, k, x # fs)"
    using s(2) ne z(2) by (auto simp del: chain.simps intro!: exI [of _ z])
qed

text \<open>Changes in a block below its links, or in a block without bricks.\<close>

lemma linked_region:
  assumes r: "regions_ok m" and l: "linked m B G" and p: "placed m B" and b: "blocks m b = Some 262144" and e: "brick_bin m' = brick_bin m"
    and h: "\<And>x. x < b \<or> b + n \<le> x \<Longrightarrow> heap m' x = heap m x" and n: "n \<le> 262128 \<or> n = 262144 \<and> B b = None"
  shows "linked m' B G"
proof (rule linked_cong [OF l e])
  have k: "heap m' (c + 262128) = heap m (c + 262128) \<and> heap m' (c + 262136) = heap m (c + 262136)" if c: "B c = Some t" for c t
  proof (cases "c = b")
    case True
    then show ?thesis using n c by (intro conjI h) auto
  next
    case False
    then show ?thesis using regions_apart [OF r placedD [OF p c] b False] n by (intro conjI h) auto
  qed
  show "heap m' (c + 262128) = heap m (c + 262128) \<and> heap m' (c + 262136) = heap m (c + 262136)" if "c \<in> dom B" for c
    using that k by (cases "B c") auto
  show "heap m' (c + 262128) = Some 0 \<and> heap m' (c + 262136) = Some 0" if "B c = Some t" "avail t = 0" for c t
    using k [OF that(1)] linkedD(6) [OF l that] by (simp only: simp_thms)
qed simp

lemma taken_card: "shape b (i, k, fs) \<Longrightarrow> card (taken b (i, k, fs)) = k - length fs"
  by (simp add: card_Diff_subset card_cells distinct_card)

text \<open>The state in which \<open>kl_brick_put\<close> has counted the brick \<open>x\<close> of block \<open>b\<close> as free, and what it does in a block that is
  not empty then.\<close>

abbreviation (input) counted :: "kl_mem \<Rightarrow> nat \<Rightarrow> nat \<Rightarrow> nat \<Rightarrow> kl_mem" where
  "counted m b i a \<equiv> m\<lparr>heap := (heap m)(b \<mapsto> i * 2 ^ 56 + (a + 1))\<rparr>"

definition filed :: "kl_mem \<Rightarrow> nat \<Rightarrow> nat \<Rightarrow> nat \<Rightarrow> (int \<times> kl_mem) option" where
  "filed m b i x = do {
     h \<leftarrow> rdw m (BLOCK_HEAD b);
     m \<leftarrow> wrw m (BRICK_NEXT x) h;
     m \<leftarrow> wrw m (BLOCK_HEAD b) x;
     p \<leftarrow> rdw m (BLOCK_PREV b);
     n \<leftarrow> rdw m (BLOCK_NEXT b);
     ASSERT (i < length (brick_bin m));
     if p = 0 \<and> n = 0 \<and> b \<noteq> brick_bin m ! i then do {
       m \<leftarrow> list_push BLOCK_PREV BLOCK_NEXT b (brick_bin m ! i) m;
       Some (0 :: int, m\<lparr>brick_bin := (brick_bin m)[i := b]\<rparr>)
     }
     else Some (0, m) }"

lemma brick_file_ok:
  assumes v: "kl_inv m L F B G" and b: "B b = Some (i, k, fs)" and x: "x \<in> taken b (i, k, fs)"
    and m1: "m1 = m\<lparr>heap := (heap m)(b \<mapsto> i * 2 ^ 56 + (avail (i, k, fs) + 1))\<rparr>"
  obtains m' G' where
    "filed m1 b i x = Some (0, m')"
    "regions_ok m'" "bricks_inv m' (B(b \<mapsto> (i, k, x # fs))) G'" "guards (live_bricks B - {(x, cell_size i)}) (dom B) m m'"
    "blocks m' = blocks m" "num_undes m' = num_undes m" "undes_bin m' = undes_bin m"
proof -
  note r = kl_invD(4) [OF v] and bv = kl_invD(2) [OF v]
  note p = bricks_invD(1) [OF bv] and l = bricks_invD(2) [OF bv] and sh = bricks_invD(3) [OF bv b] and bd = bricks_invD(5) [OF bv b]
  note bb = placedD [OF p b]
  have i: "1 \<le> i" "i \<le> 4" "i < 256" using sh by simp_all
  have rg: "8 dvd b" "0 < b" "\<And>x. b \<le> x \<Longrightarrow> x < b + 262144 \<Longrightarrow> 8 dvd x \<Longrightarrow> heap m x \<noteq> None"
    using regions_okD [OF r bb] by simp_all
  have tb: "b + 8 \<le> x" "x + cell_size i \<le> b + 262120" "8 dvd x" using taken_bounds [OF sh x] rg(1) by auto
  have cs: "16 \<le> cell_size i" using i by (simp add: cell_size_def)
  obtain a where a: "heap m (b + 262120) = Some a" using bd by auto
  have mp: "heap m b \<noteq> None" "heap m (x + 8) \<noteq> None" using rg(3) [of b] rg(3) [of "x + 8"] rg(1) tb cs by auto
  obtain pv nx where pn: "heap m (b + 262128) = Some pv" "heap m (b + 262136) = Some nx"
    using rg(3) [of "b + 262128"] rg(3) [of "b + 262136"] rg(1) by auto
  obtain y8 where y8: "heap m (x + 8) = Some y8" using mp(2) by blast
  let ?s = "(i, k, x # fs)"
  let ?H = "(heap m)(b \<mapsto> i * 2 ^ 56 + avail ?s, x + 8 \<mapsto> a, b + 262120 \<mapsto> x)" let ?m = "m\<lparr>heap := ?H\<rparr>"
  have ne: "x + 8 \<noteq> b" "x + 8 \<noteq> b + 262120" "x + 8 < b + 262120" using tb cs by auto
  have dm: "dom ?H = dom (heap m)" using mp a by auto
  have rm: "regions_ok ?m" using regions_ok_cong [OF r, of ?m] dm by simp
  have pm: "placed ?m B" using p by (simp add: placed_def)
  have out: "heap ?m y = heap m y" if "y < b \<or> b + 262128 \<le> y" for y using that ne tb(1) by auto
  have lm: "linked ?m B G" by (rule linked_region [OF r l p bb, of ?m 262128]) (use out in auto)
  have body: "shape b ?s" "body_ok ?H b ?s"
  proof -
    let ?h = "(heap m)(b \<mapsto> i * 2 ^ 56 + avail ?s)"
    have 1: "body_ok ?h b (i, k, fs)" by (rule body_ok_cong [OF bd sh]) simp
    have 2: "?h (b + 262120) = Some a" using a by simp
    show "shape b ?s" "body_ok ?H b ?s" by (rule body_ok_add [OF sh 1 x 2])+
  qed
  have hd: "head_ok ?H b ?s" using ne(1) by simp
  have len: "length (brick_bin m) = 256" using linkedD(1) [OF l] .
  have e0: "(do { h \<leftarrow> rdw m1 (BLOCK_HEAD b); m \<leftarrow> wrw m1 (BRICK_NEXT x) h; m \<leftarrow> wrw m (BLOCK_HEAD b) x; f m }) = f ?m" for f :: "kl_mem \<Rightarrow> (int \<times> kl_mem) option"
    using a y8 ne by (simp add: m1 rdw_def wrw_def)
  have keep: "?H y = heap m y" if q: "(q, n) \<in> live_bricks B - {(x, cell_size i)}" "b \<le> q" "q < b + 262128" "q \<le> y" "y < q + n" for q n y
  proof -
    obtain c t where c: "B c = Some t" "q \<in> taken c t" "n = cell_size (fst t)" using q(1) unfolding live_bricks_def by blast
    have tc: "c + 8 \<le> q" "q + n \<le> c + 262120" using taken_bounds [OF bricks_invD(3) [OF bv c(1)] c(2)] c(3) by auto
    have "c = b" using regions_apart [OF r bb placedD [OF p c(1)]] tc q by auto
    then have "t = (i, k, fs)" "q \<noteq> x" using c b q(1) by auto
    then have "q + n \<le> x \<or> x + n \<le> q" "n = cell_size i" using c x \<open>c = b\<close> cells_apart [of q b i k x k] by auto
    then show ?thesis using tc q \<open>c = b\<close> tb cs by auto
  qed
  show ?thesis
  proof (cases "avail (i, k, fs) = 0")
    case False
    have nz: "\<not> (pv = 0 \<and> nx = 0 \<and> b \<noteq> brick_bin m ! i)" using in_bin_first [OF l b] False i pn by auto
    have lk: "linked ?m (B(b \<mapsto> ?s)) G" by (rule linked_same [OF lm b]) (use False in auto)
    show ?thesis
    proof (rule that [of ?m G])
      show "bricks_inv ?m (B(b \<mapsto> ?s)) G" by (rule bricks_inv_change [OF r bv _ _ lk out]) (use b hd body in auto)
      have "insert b (dom B) = dom B" using b by auto
      then show "guards (live_bricks B - {(x, cell_size i)}) (dom B) m ?m"
        using guards_change [OF r bv bb _ _ _ out, of "live_bricks B - {(x, cell_size i)}"] keep by auto
    qed (use e0 pn nz ne len i rm in \<open>simp_all add: filed_def rdw_def if_not_P [OF nz] cong: if_cong\<close>)
  next
    case True
    have z: "pv = 0" "nx = 0" using linkedD(6) [OF l b True] pn by simp_all
    have nb: "b \<noteq> brick_bin m ! i"
    proof
      assume e: "b = brick_bin m ! i"
      then have "b \<in> set (G i)" using linkedD(2) [OF l i(3)] rg(2) by (cases "G i") auto
      then show False using linkedD(5) [OF l i(3)] b True by auto
    qed
    have ld: "linked ?m (B(b := None)) G" by (rule linked_drop [OF lm]) (use b True in auto)
    have pd: "placed ?m (B(b := None))" using pm by (simp add: placed_def)
    obtain H2 where H2: "list_push BLOCK_PREV BLOCK_NEXT b (brick_bin ?m ! i) ?m = Some (?m\<lparr>heap := H2\<rparr>)"
      "dom H2 = dom (heap ?m)" "\<forall>z. z \<notin> block_links (insert b (dom (B(b := None)))) \<longrightarrow> H2 z = heap ?m z"
      "linked (?m\<lparr>heap := H2, brick_bin := (brick_bin ?m)[i := b]\<rparr>) ((B(b := None))(b \<mapsto> ?s)) (G(i := b # G i))"
      by (rule linked_push [OF rm ld pd i(3), of b ?s]) (use bb in auto)
    let ?m3 = "?m\<lparr>heap := H2, brick_bin := (brick_bin ?m)[i := b]\<rparr>"
    have bl: "insert b (dom (B(b := None))) = insert b (dom B)" "insert b (dom B) = dom B" using b by auto
    have H3: "H2 y = ?H y" if "b \<le> y" "y < b + 262128" for y
      using H2(3) links_above [OF r p b that] bl by simp
    have out3: "heap ?m3 y = heap m y" if "y < b \<or> b + 262128 \<le> y" "y \<notin> block_links (insert b (dom B))" for y
      using H2(3) out [OF that(1)] that(2) bl by simp
    have l3: "linked ?m3 (B(b \<mapsto> ?s)) (G(i := b # G i))" using H2(4) by simp
    have hd3: "head_ok (heap ?m3) b ?s" using hd H3 [of b] by simp
    have bd3: "body_ok (heap ?m3) b ?s" using body_ok_cong [OF body(2,1), of H2] H3 by simp
    show ?thesis
    proof (rule that [of ?m3 "G(i := b # G i)"])
      show "regions_ok ?m3" using regions_ok_cong [OF rm, of ?m3] H2(2) by simp
      show "bricks_inv ?m3 (B(b \<mapsto> ?s)) (G(i := b # G i))"
        by (rule bricks_inv_change [OF r bv _ _ l3 out3]) (use b body hd3 bd3 in auto)
      have "guards (live_bricks B - {(x, cell_size i)}) (insert b (dom B)) m ?m3"
      proof (rule guards_change [OF r bv bb _ _ _ out3])
        fix q n y assume q: "(q, n) \<in> live_bricks B - {(x, cell_size i)}" "b \<le> q" "q < b + 262128" "q \<le> y" "y < q + n"
        obtain c t where c: "B c = Some t" "q \<in> taken c t" "n = cell_size (fst t)" using q(1) unfolding live_bricks_def by blast
        have tc: "c + 8 \<le> q" "q + n \<le> c + 262120" using taken_bounds [OF bricks_invD(3) [OF bv c(1)] c(2)] c(3) by auto
        have "c = b" using regions_apart [OF r bb placedD [OF p c(1)]] tc q by auto
        then show "heap ?m3 y = heap m y" using keep [OF q] H3 [of y] tc q by simp
      qed auto
      then show "guards (live_bricks B - {(x, cell_size i)}) (dom B) m ?m3" using bl by simp
    qed (use e0 pn z nb ne len i H2(1) in \<open>simp_all add: filed_def rdw_def\<close>)
  qed
qed

text \<open>A block without bricks in use leaves.\<close>

lemma bricks_inv_remove:
  assumes r: "regions_ok m" and v: "bricks_inv m B G" and b: "B b = Some s"
    and bl: "\<And>c. c \<noteq> b \<Longrightarrow> blocks m' c = blocks m c" and l: "linked m' (B(b := None)) G'"
    and h: "\<And>x. x < b \<or> b + 262144 \<le> x \<Longrightarrow> x \<notin> block_links (dom B) \<Longrightarrow> heap m' x = heap m x"
  shows "bricks_inv m' (B(b := None)) G'"
proof -
  note p = bricks_invD(1) [OF v]
  note bb = placedD [OF p b]
  have "shape c t \<and> head_ok (heap m') c t \<and> body_ok (heap m') c t" if c: "(B(b := None)) c = Some t" for c t
  proof -
    have c': "B c = Some t" "c \<noteq> b" using c by (auto split: if_splits)
    have other: "heap m' x = heap m x" if "c \<le> x" "x < c + 262128" for x
      using regions_apart [OF r bb placedD [OF p c'(1)]] c'(2) that links_above [OF r p c'(1) that] by (intro h) auto
    obtain i k fs where e: "t = (i, k, fs)" by (cases t) auto
    have "head_ok (heap m') c t" using bricks_invD(4) [OF v c'(1)] other [of c] unfolding e by simp
    then show ?thesis
      using bricks_invD(3) [OF v c'(1)] body_ok_cong [OF bricks_invD(5) [OF v c'(1)] bricks_invD(3) [OF v c'(1)], of "heap m'"] other
      by simp
  qed
  moreover have "placed m' (B(b := None))" using p bl unfolding placed_def by simp
  ultimately show ?thesis using l unfolding bricks_inv_def by blast
qed

lemma brick_release_ok:
  assumes v: "kl_inv m L F B G" and b: "B b = Some (i, k, fs)" and av: "avail (i, k, fs) \<noteq> 0"
    and m1: "m1 = m\<lparr>heap := (heap m)(b \<mapsto> w)\<rparr>"
  obtains m' G' where "brick_release m1 b i = Some m'" "regions_ok m'" "bricks_inv m' (B(b := None)) G'"
    "\<And>x. x < b \<or> b + 262144 \<le> x \<Longrightarrow> x \<notin> block_links (dom B) \<Longrightarrow> heap m' x = heap m x"
    "\<And>c. c \<noteq> b \<Longrightarrow> blocks m' c = blocks m c" "chunk_bin m' = chunk_bin m" "enabled m' = enabled m"
    "undes_ok m'" "set (undes m') \<subseteq> insert b (set (undes m))"
proof -
  note r = kl_invD(4) [OF v] and bv = kl_invD(2) [OF v] and u = kl_invD(7) [OF v]
  note p = bricks_invD(1) [OF bv] and l = bricks_invD(2) [OF bv]
  note bb = placedD [OF p b]
  have i: "i < 256" using bricks_invD(3) [OF bv b] by simp
  have rg: "8 dvd b" "\<And>x. b \<le> x \<Longrightarrow> x < b + 262144 \<Longrightarrow> 8 dvd x \<Longrightarrow> heap m x \<noteq> None" using regions_okD [OF r bb] by simp_all
  have d1: "dom (heap m1) = dom (heap m)" using rg(2) [of b] rg(1) m1 by auto
  have r1: "regions_ok m1" using regions_ok_cong [OF r, of m1] d1 m1 by simp
  have p1: "placed m1 B" using p m1 by (simp add: placed_def)
  have l1: "linked m1 B G" by (rule linked_region [OF r l p bb, of m1 8]) (use m1 in auto)
  obtain H ns where H: "list_unlink BLOCK_PREV BLOCK_NEXT b (brick_bin m1 ! i) m1 = Some (hd0 ns, m1\<lparr>heap := H\<rparr>)"
    "dom H = dom (heap m1)" "\<forall>z. z \<notin> block_links (dom B - {b}) \<longrightarrow> H z = heap m1 z"
    "linked (m1\<lparr>heap := H, brick_bin := (brick_bin m1)[i := hd0 ns]\<rparr>) (B(b := None)) (G(i := ns))"
    using linked_unlink [OF r1 l1 p1 i b _ av] by (metis fst_conv)
  let ?m2 = "m1\<lparr>heap := H, brick_bin := (brick_bin m1)[i := hd0 ns]\<rparr>"
  have r2: "regions_ok ?m2" using regions_ok_cong [OF r1, of ?m2] H(2) by simp
  have p2: "placed ?m2 (B(b := None))" using p m1 by (simp add: placed_def)
  have b2: "blocks ?m2 b = Some 262144" using bb m1 by simp
  have mp: "H y \<noteq> None" if "b \<le> y" "y < b + 262144" "8 dvd y" for y
    using rg(2) [OF that] H(2) d1 by (metis domIff)
  have nb: "b \<notin> set (undes m)" using kl_invD(3) [OF v] b by auto
  have out: "H y = heap m y" if y: "y < b \<or> b + 262144 \<le> y" "y \<notin> block_links (dom B)" for y
  proof -
    have "y \<notin> block_links (dom B - {b})" using y(2) block_links_mono [of "dom B - {b}" "dom B"] by blast
    then show ?thesis using H(3) y(1) m1 by auto
  qed
  have start: "brick_release m1 b i =
      (if num_undes m < 4 then do {
         m \<leftarrow> wrw ?m2 b 0; m \<leftarrow> wrw m (b + 262128) 0; m \<leftarrow> wrw m (b + 262136) 0; m \<leftarrow> wrw m (b + 262120) 0;
         Some (m\<lparr>undes_bin := (undes_bin m)[num_undes m := b], num_undes := num_undes m + 1\<rparr>)
       } else do { m \<leftarrow> sys_free ?m2 b; Some (m\<lparr>mem_total := subw (mem_total m) BLOCK_DEFAULT_SIZE\<rparr>) })"
    using H(1) i linkedD(1) [OF l1] m1 by (simp add: brick_release_def UNDES_BIN_NUM_def)
  show ?thesis
  proof (cases "num_undes m < 4")
    case True
    let ?H = "H(b \<mapsto> 0, b + 262128 \<mapsto> 0, b + 262136 \<mapsto> 0, b + 262120 \<mapsto> 0)"
    let ?m = "?m2\<lparr>heap := ?H, undes_bin := (undes_bin m)[num_undes m := b], num_undes := num_undes m + 1\<rparr>"
    have mps: "H b \<noteq> None" "H (b + 262128) \<noteq> None" "H (b + 262136) \<noteq> None" "H (b + 262120) \<noteq> None"
      using rg(1) by (intro mp; simp)+
    have e: "brick_release m1 b i = Some ?m" using start True mps m1 by (auto simp: wrw_def)
    have dm: "dom ?H = dom H" using mps by auto
    have out2: "heap ?m y = heap ?m2 y" if "y < b \<or> b + 262144 \<le> y" for y using that by auto
    have lm: "linked ?m (B(b := None)) (G(i := ns))"
      by (rule linked_region [OF r2 H(4) p2 b2, of ?m 262144]) (use out2 in auto)
    have un: "undes ?m = undes m @ [b]"
      using undes_push [OF u True, where H = H and b = b] by (simp add: undes_def)
    show ?thesis
    proof (rule that [OF e])
      show "regions_ok ?m" using regions_ok_cong [OF r2, of ?m] dm by simp
      show k: "heap ?m x = heap m x" if "x < b \<or> b + 262144 \<le> x" "x \<notin> block_links (dom B)" for x
        using out [OF that] that(1) by auto
      show "bricks_inv ?m (B(b := None)) (G(i := ns))"
        by (rule bricks_inv_remove [OF r bv b _ lm k]) (use m1 in simp_all)
      show "undes_ok ?m" using u True nb bb un m1 unfolding undes_ok_def by (auto simp: un)
    qed (use m1 un in simp_all)
  next
    case False
    let ?H = "\<lambda>x. if b \<le> x \<and> x < b + 262144 then None else H x"
    let ?m = "?m2\<lparr>blocks := (blocks m)(b := None), heap := ?H, mem_total := subw (mem_total m) BLOCK_DEFAULT_SIZE\<rparr>"
    have e: "brick_release m1 b i = Some ?m" using start False b2 m1 by (simp add: sys_free_def cong: if_cong)
    have lm: "linked ?m (B(b := None)) (G(i := ns))"
      by (rule linked_region [OF r2 H(4) p2 b2, of ?m 262144]) auto
    show ?thesis
    proof (rule that [OF e])
      show "regions_ok ?m" by (rule regions_ok_free [OF r2 b2]) (use m1 in auto)
      show k: "heap ?m x = heap m x" if "x < b \<or> b + 262144 \<le> x" "x \<notin> block_links (dom B)" for x
        using out [OF that] that(1) by auto
      show "bricks_inv ?m (B(b := None)) (G(i := ns))"
        by (rule bricks_inv_remove [OF r bv b _ lm k]) (use m1 in simp_all)
      show "undes_ok ?m" using u nb m1 unfolding undes_ok_def by (auto simp: undes_def)
    qed (use m1 in \<open>auto simp: undes_def\<close>)
  qed
qed

end
