(* ===== verification/Kl_Interface.thy ===== *)
theory Kl_Interface
  imports Kl_Alloc
begin

text \<open>
  The interface of the allocator: what \<open>KL_malloc\<close>, \<open>KL_calloc\<close>, \<open>KL_realloc\<close> and \<open>KL_free\<close> promise
  to a program.
\<close>

subsection \<open>Bricks and chunks under the whole invariant\<close>

lemma guards_intact:
  assumes v: "kl_inv m L F B G" and U: "U \<subseteq> live_bricks B"
    and g: "guards U D m m'" "D \<inter> dom L = {}"
  shows "intact (used L \<union> U) m m'"
  unfolding intact_def
proof (intro allI impI, elim UnE)
  fix q k y assume q: "(q, k) \<in> used L" "q \<le> y" "y < q + k"
  obtain c z where c: "c \<in> dom L" "blocks m c = Some z" "c + 8 \<le> q" "q + k + 24 \<le> c + z" using chunk_in_block [OF v q(1)] by metis
  then have "c \<notin> D" using g(2) by blast
  then show "heap m' y = heap m y" using guardsD(3) [OF g(1) _ c(2)] c q by simp
next
  fix q k y assume "(q, k) \<in> U" "q \<le> y" "y < q + k"
  then show "heap m' y = heap m y" using guardsD(1) [OF g(1)] by blast
qed

lemma used_live: "kl_inv m L F B G \<Longrightarrow> used L \<inter> live_bricks B = {}"
proof (rule ccontr)
  assume v: "kl_inv m L F B G" and "used L \<inter> live_bricks B \<noteq> {}"
  then obtain q n where q: "(q, n) \<in> used L" "(q, n) \<in> live_bricks B" by auto
  obtain c z where c: "c \<in> dom L" "blocks m c = Some z" "c + 8 \<le> q" "q + n + 24 \<le> c + z" "32 \<le> n" using chunk_in_block [OF v q(1)] by metis
  obtain b s where b: "B b = Some s" "blocks m b = Some 262144" "b + 8 \<le> q" "q + n \<le> b + 262120" using brick_in_block [OF v q(2)] by metis
  have "c \<noteq> b" using c(1) b(1) kl_invD(3) [OF v] by blast
  then show False using regions_apart [OF kl_invD(4) [OF v] c(2) b(2)] c b by auto
qed

lemma brick_put_start:
  assumes v: "kl_inv m L F B G" and b: "B b = Some (i, k, fs)" and xt: "x \<in> taken b (i, k, fs)"
  shows "kl_brick_put m x =
    (if avail (i, k, fs) + 1 = cell_num i then do { m \<leftarrow> brick_release (counted m b i (avail (i, k, fs))) b i; Some (0, m) }
     else filed (counted m b i (avail (i, k, fs))) b i x)"
proof -
  note r = kl_invD(4) [OF v] and bv = kl_invD(2) [OF v]
  note sh = bricks_invD(3) [OF bv b] and bb = placedD [OF bricks_invD(1) [OF bv] b]
  have sh': "shape b (i, k, x # fs)" using sh xt by simp
  have rg: "8 dvd b" "b + 262144 < SIZE_MOD" using regions_okD [OF r bb] by simp_all
  let ?m1 = "counted m b i (avail (i, k, fs))"
  have at1: "block_at ?m1 b i (avail (i, k, fs) + 1)"
    using head_ok_at [OF _ _ sh', of ?m1] regions_ok_cong [OF r, of ?m1] bb bricks_invD(4) [OF bv b] by auto
  have bx: "brick_at m x b"
    using xt bricks_invD(5) [OF bv b] taken_bounds [OF sh xt] rg by (auto simp: brick_at_def)
  have inc: "addw (i * 2 ^ 56 + avail (i, k, fs)) 1 = i * 2 ^ 56 + (avail (i, k, fs) + 1)"
    using at1 by (simp add: block_at_def addw_def SIZE_MOD_def)
  have hb: "heap m b = Some (i * 2 ^ 56 + avail (i, k, fs))" using bricks_invD(4) [OF bv b] by simp
  have "block_at m b i (avail (i, k, fs))" using at1 hb by (simp add: block_at_def)
  from block_BIDX [OF this] brick_BLOCK [OF bx rg(1)] rg(2) block_EMPTY [OF at1] hb inc
  show ?thesis by (simp only: kl_brick_put_def rdw_def field_addresses bind.bind_lunit wrw_mapped add_lessD1 filed_def)
qed

text \<open>A brick belongs to one block only.\<close>

lemma brick_elsewhere:
  assumes v: "kl_inv m L F B G" and b: "B b = Some s" "x \<in> taken b s"
  shows "(x, n) \<notin> live_bricks (B(b := None))"
proof
  note bv = kl_invD(2) [OF v]
  assume "(x, n) \<in> live_bricks (B(b := None))"
  then obtain c t where c: "B c = Some t" "c \<noteq> b" "x \<in> taken c t" unfolding live_bricks_def by (auto split: if_splits)
  have "c + 8 \<le> x" "x < c + 262120" using taken_bounds [OF bricks_invD(3) [OF bv c(1)] c(3)] by (auto simp: cell_size_def)
  moreover have "b + 8 \<le> x" "x < b + 262120" using taken_bounds [OF bricks_invD(3) [OF bv b(1)] b(2)] by (auto simp: cell_size_def)
  ultimately show False
    using regions_apart [OF kl_invD(4) [OF v] placedD [OF bricks_invD(1) [OF bv] b(1)] placedD [OF bricks_invD(1) [OF bv] c(1)]] c(2) by auto
qed

text \<open>When one more free brick makes a block empty, that brick is the only one in use, and there
  was a free one before.\<close>

lemma last_brick:
  assumes sh: "shape b (i, k, fs)" and x: "x \<in> taken b (i, k, fs)" and e: "avail (i, k, fs) + 1 = cell_num i"
  shows "taken b (i, k, fs) = {x}" "avail (i, k, fs) \<noteq> 0"
proof -
  have sh': "shape b (i, k, x # fs)" using sh x by simp
  have "length (x # fs) = card (set (x # fs))" using sh' by (metis distinct_card shape.simps)
  also have "\<dots> \<le> card (cells b i k)" using sh' card_cells(2) by (intro card_mono) auto
  finally have "length fs < k" by (simp add: card_cells)
  moreover have "k \<le> cell_num i" using sh by simp
  ultimately have "k - length fs = 1" using e by simp
  then have "card (taken b (i, k, fs)) = 1" using taken_card [OF sh] by simp
  then obtain y where "taken b (i, k, fs) = {y}" by (meson card_1_singletonE)
  then show "taken b (i, k, fs) = {x}" using x by simp
  show "avail (i, k, fs) \<noteq> 0"
  proof
    assume "avail (i, k, fs) = 0"
    then have "cell_num i = 1" using e by simp
    moreover have "cell_size i \<le> 40" "0 < cell_size i" using sh taken_bounds [OF sh x] by (auto simp: cell_size_def)
    then have "262112 div 40 \<le> 262112 div cell_size i" by (intro div_le_mono2) auto
    ultimately show False by (simp add: cell_num_def)
  qed
qed

lemma brick_put_files:
  assumes v: "kl_inv m L F B G" and b: "B b = Some (i, k, fs)" and xt: "x \<in> taken b (i, k, fs)"
    and e: "avail (i, k, fs) + 1 \<noteq> cell_num i"
  obtains m' B' G' where "kl_brick_put m x = Some (0, m')" "kl_inv m' L F B' G'" "live_bricks B' = live_bricks B - {(x, cell_size i)}"
    "intact (allocs L B - {(x, cell_size i)}) m m'" "enabled m' = enabled m"
proof -
  have dL: "dom B \<inter> dom L = {}" using kl_invD(3) [OF v] by blast
  obtain m' G' where f: "filed (counted m b i (avail (i, k, fs))) b i x = Some (0, m')"
    "regions_ok m'" "bricks_inv m' (B(b \<mapsto> (i, k, x # fs))) G'" "guards (live_bricks B - {(x, cell_size i)}) (dom B) m m'"
    "blocks m' = blocks m" "num_undes m' = num_undes m" "undes_bin m' = undes_bin m"
    by (rule brick_file_ok [OF v b xt refl])
  have un: "undes m' = undes m" using f(6,7) by (simp add: undes_def)
  have "chunks_inv m' L F"
  proof (rule chunks_frame [OF kl_invD(1) [OF v] f(2)])
    show "undes_ok m'" using kl_invD(7) [OF v] f(5-7) un by (simp add: undes_ok_def)
    show "heap m' y = heap m y" if "c \<in> dom L" "blocks m c = Some z" "c \<le> y" "y < c + z" for c z y
      using guardsD(3) [OF f(4) _ that(2-4)] that(1) dL by blast
  qed (use un kl_invD(8) [OF v] f(5) guardsD(4) [OF f(4)] in simp_all)
  then have inv: "kl_inv m' L F (B(b \<mapsto> (i, k, x # fs))) G'"
    using f(3) kl_invD(3) [OF v] un b by (auto simp: kl_inv_def)
  have live: "live_bricks (B(b \<mapsto> (i, k, x # fs))) = live_bricks B - {(x, cell_size i)}"
    using brick_elsewhere [OF v b xt, of "cell_size i"] live_bricks_upd [of B b "(i, k, x # fs)"] live_bricks_at [of B b, OF b] by auto
  have "intact (used L \<union> (live_bricks B - {(x, cell_size i)})) m m'"
    using guards_intact [OF v _ f(4) dL] by auto
  then have "intact (allocs L B - {(x, cell_size i)}) m m'" unfolding allocs_def intact_def by blast
  then show ?thesis using that [OF _ inv live] brick_put_start [OF v b xt] e f(1) guardsD(5) [OF f(4)] by simp
qed

text \<open>What changes only inside one block of bricks, and in the links of the others, is no allocation elsewhere.\<close>

lemma release_intact:
  assumes v: "kl_inv m L F B G" and b: "B b = Some s"
    and h: "\<forall>x. (x < b \<or> b + 262144 \<le> x) \<and> x \<notin> block_links (dom B) \<longrightarrow> heap m' x = heap m x"
  shows "c \<notin> dom B \<Longrightarrow> blocks m c = Some z \<Longrightarrow> c \<le> y \<Longrightarrow> y < c + z \<Longrightarrow> heap m' y = heap m y"
    and "intact (used L \<union> live_bricks (B(b := None))) m m'"
proof -
  note r = kl_invD(4) [OF v] and bv = kl_invD(2) [OF v]
  note bb = placedD [OF bricks_invD(1) [OF bv] b]
  show far: "heap m' y = heap m y" if c: "c \<notin> dom B" "blocks m c = Some z" "c \<le> y" "y < c + z" for c z y
  proof (rule mp [OF spec [OF h]], intro conjI)
    have "c \<noteq> b" using c(1) b by auto
    then show "y < b \<or> b + 262144 \<le> y" using regions_apart [OF r bb c(2)] c by auto
    show "y \<notin> block_links (dom B)"
      by (rule links_elsewhere [OF r _ c(2,1)]) (use placedD [OF bricks_invD(1) [OF bv]] c in auto)
  qed
  show "intact (used L \<union> live_bricks (B(b := None))) m m'"
    unfolding intact_def
  proof (intro allI impI, elim UnE)
    fix q z y assume q: "(q, z) \<in> used L" "q \<le> y" "y < q + z"
    obtain c w where c: "c \<in> dom L" "blocks m c = Some w" "c + 8 \<le> q" "q + z + 24 \<le> c + w" using chunk_in_block [OF v q(1)] by metis
    then have "c \<notin> dom B" using kl_invD(3) [OF v] by blast
    then show "heap m' y = heap m y" using far [OF _ c(2)] c q by simp
  next
    fix q z y assume q: "(q, z) \<in> live_bricks (B(b := None))" "q \<le> y" "y < q + z"
    then obtain c t where c: "B c = Some t" "c \<noteq> b" "q \<in> taken c t" "z = cell_size (fst t)"
      unfolding live_bricks_def by (auto split: if_splits)
    have tc: "c + 8 \<le> q" "q + z \<le> c + 262120" using taken_bounds [OF bricks_invD(3) [OF bv c(1)] c(3)] c(4) by auto
    show "heap m' y = heap m y"
      using regions_apart [OF r bb placedD [OF bricks_invD(1) [OF bv] c(1)]] c(2) tc q
        links_above [OF r bricks_invD(1) [OF bv] c(1), of y]
      by (intro mp [OF spec [OF h]]) auto
  qed
qed

lemma brick_put_releases:
  assumes v: "kl_inv m L F B G" and b: "B b = Some (i, k, fs)" and xt: "x \<in> taken b (i, k, fs)"
    and e: "avail (i, k, fs) + 1 = cell_num i"
  obtains m' B' G' where "kl_brick_put m x = Some (0, m')" "kl_inv m' L F B' G'" "live_bricks B' = live_bricks B - {(x, cell_size i)}"
    "intact (allocs L B - {(x, cell_size i)}) m m'" "enabled m' = enabled m"
proof -
  have dL: "dom B \<inter> dom L = {}" using kl_invD(3) [OF v] by blast
  then have bL: "b \<notin> dom L" using b by blast
  note one = last_brick [OF bricks_invD(3) [OF kl_invD(2) [OF v] b] xt e]
  obtain m' G' where f: "brick_release (counted m b i (avail (i, k, fs))) b i = Some m'" "regions_ok m'" "bricks_inv m' (B(b := None)) G'"
    "\<And>x. x < b \<or> b + 262144 \<le> x \<Longrightarrow> x \<notin> block_links (dom B) \<Longrightarrow> heap m' x = heap m x"
    "\<And>c. c \<noteq> b \<Longrightarrow> blocks m' c = blocks m c" "chunk_bin m' = chunk_bin m" "enabled m' = enabled m"
    "undes_ok m'" "set (undes m') \<subseteq> insert b (set (undes m))"
    using brick_release_ok [OF v b one(2) refl] by metis
  have "\<forall>x. (x < b \<or> b + 262144 \<le> x) \<and> x \<notin> block_links (dom B) \<longrightarrow> heap m' x = heap m x" using f(4) by blast
  note far = release_intact [OF v b this]
  have "chunks_inv m' L F"
  proof (rule chunks_frame [OF kl_invD(1) [OF v] f(2,8) _ f(6)])
    show "set (undes m') \<inter> dom L = {}" using f(9) kl_invD(8) [OF v] bL by blast
    show "heap m' y = heap m y" if "c \<in> dom L" "blocks m c = Some z" "c \<le> y" "y < c + z" for c z y
      using far(1) [OF _ that(2-4)] that(1) dL by blast
    show "blocks m' c = Some z" if "c \<in> dom L" "blocks m c = Some z" for c z using f(5) [of c] that bL by auto
  qed
  then have inv: "kl_inv m' L F (B(b := None)) G'"
    using f(3,9) kl_invD(3) [OF v] by (auto simp: kl_inv_def)
  have live: "live_bricks (B(b := None)) = live_bricks B - {(x, cell_size i)}"
    using live_bricks_at [of B b, OF b] one(1) brick_elsewhere [OF v b xt, of "cell_size i"] by auto
  have "intact (allocs L B - {(x, cell_size i)}) m m'" using far(2) unfolding live allocs_def intact_def by blast
  then show ?thesis using that [OF _ inv live] brick_put_start [OF v b xt] e f(1,7) by simp
qed

lemma brick_put_ok:
  assumes v: "kl_inv m L F B G" and x: "(x, n) \<in> live_bricks B"
  obtains m' B' G' where "kl_brick_put m x = Some (0, m')" "kl_inv m' L F B' G'" "live_bricks B' = live_bricks B - {(x, n)}"
    "intact (allocs L B - {(x, n)}) m m'" "enabled m' = enabled m"
proof -
  obtain b i k fs where b: "B b = Some (i, k, fs)" "x \<in> taken b (i, k, fs)" "n = cell_size i"
    using brick_in_block [OF v x] by (metis prod.collapse)
  show thesis
  proof (cases "avail (i, k, fs) + 1 = cell_num i")
    case True
    show thesis by (rule brick_put_releases [OF v b(1,2) True]) (use that b(3) in simp)
  next
    case False
    show thesis by (rule brick_put_files [OF v b(1,2) False]) (use that b(3) in simp)
  qed
qed

text \<open>Operations on chunks do not touch the blocks of bricks.\<close>

lemma keeps_intact:
  assumes v: "kl_inv m L F B G" and k: "keeps L A D m m'" "D \<inter> dom B = {}"
    and U: "U \<subseteq> allocs L B" "\<And>q n. (q, n) \<in> U \<Longrightarrow> (q, n) \<in> used L \<Longrightarrow> q \<notin> A"
  shows "intact U m m'"
  unfolding intact_def
proof (intro allI impI)
  fix q n y assume q: "(q, n) \<in> U" "q \<le> y" "y < q + n"
  then consider "(q, n) \<in> used L" | "(q, n) \<in> live_bricks B" using U(1) unfolding allocs_def by blast
  then show "heap m' y = heap m y"
  proof cases
    case 1
    then show ?thesis using keepsD(1) [OF k(1) 1 U(2) [OF q(1) 1] q(2,3)] by simp
  next
    case 2
    obtain b s where b: "B b = Some s" "blocks m b = Some 262144" "b + 8 \<le> q" "q + n \<le> b + 262120" using brick_in_block [OF v 2] by metis
    then have "b \<notin> D" using k(2) by blast
    then show ?thesis using keepsD(3) [OF k(1) _ b(2)] b q by simp
  qed
qed

lemma keeps_bricks:
  assumes v: "kl_inv m L F B G" and k: "keeps L A D m m'" "D \<inter> dom B = {}"
  shows "bricks_inv m' B G"
proof (rule bricks_frame [OF kl_invD(2) [OF v]])
  show "brick_bin m' = brick_bin m" using keepsD(4) [OF k(1)] by (simp add: same_side_def)
qed (use keepsD(2,3) [OF k(1)] k(2) in blast)+

lemma kl_chunk_get_ok:
  assumes v: "kl_inv m L F B G" and n: "9 \<le> n" "n \<le> 262096" and sup: "num_undes m \<noteq> 0 \<or> supplied m 262144"
  obtains c t m' L' F' where "kl_chunk_get m n = Some (c, m')" "0 < c" "kl_inv m' L' F' B G" "n + 16 \<le> t"
    "used L' = insert (c, t) (used L)" "\<And>t'. (c, t') \<notin> used L" "intact (allocs L B) m m'" "enabled m' = enabled m"
proof -
  obtain c t m' L' F' where c: "kl_chunk_get m n = Some (c, m')" "0 < c" "chunks_inv m' L' F'" "n + 16 \<le> t"
    "used L' = insert (c, t) (used L)" "\<And>t'. (c, t') \<notin> used L" "keeps L {} (dom L \<union> set (undes m)) m m'"
    "\<And>b. b \<in> dom L' \<union> set (undes m') \<Longrightarrow> b \<in> dom L \<union> set (undes m) \<or> blocks m b = None"
    using chunk_get_ok [OF kl_invD(1) [OF v] n sup] by metis
  have D: "(dom L \<union> set (undes m)) \<inter> dom B = {}" using kl_invD(3) [OF v] by blast
  have "b \<notin> dom L' \<union> set (undes m')" if "b \<in> dom B" for b
    using c(8) [of b] D that bricks_invD(1) [OF kl_invD(2) [OF v]] unfolding placed_def by auto
  then have "kl_inv m' L' F' B G" using c(3) keeps_bricks [OF v c(7) D] unfolding kl_inv_def by blast
  moreover have "intact (allocs L B) m m'" by (rule keeps_intact [OF v c(7) D]) auto
  moreover have "enabled m' = enabled m" using keepsD(4) [OF c(7)] by (simp add: same_side_def)
  ultimately show ?thesis using that [OF c(1,2) _ c(4,5,6)] by blast
qed

lemma kl_chunk_solo_ok:
  assumes v: "kl_inv m L F B G" and n: "n + 71 < SIZE_MOD" "262096 < n" and sup: "supplied m (KL_CHUNK_SIZE n + 32)"
  obtains c m' L' where "kl_chunk_solo m n = Some (c, m')" "0 < c" "kl_inv m' L' F B G"
    "used L' = insert (c, KL_CHUNK_SIZE n) (used L)" "\<And>t'. (c, t') \<notin> used L" "intact (allocs L B) m m'" "enabled m' = enabled m"
proof -
  obtain b m' L' where c: "kl_chunk_solo m n = Some (b + 8, m')" "chunks_inv m' L' F" "used L' = insert (b + 8, KL_CHUNK_SIZE n) (used L)"
    "\<And>t'. (b + 8, t') \<notin> used L" "keeps L {} {} m m'" "dom L' = insert b (dom L)" "blocks m b = None" "undes m' = undes m"
    using chunk_solo_ok [OF kl_invD(1) [OF v] n sup] by metis
  have D: "{} \<inter> dom B = {}" by simp
  have "b \<notin> dom B"
  proof
    assume "b \<in> dom B"
    then have "blocks m b = Some 262144" using bricks_invD(1) [OF kl_invD(2) [OF v]] by (simp add: placed_def)
    then show False using c(7) by simp
  qed
  then have "kl_inv m' L' F B G" using c(2,6,8) keeps_bricks [OF v c(5) D] kl_invD(3) [OF v] by (auto simp: kl_inv_def)
  moreover have "intact (allocs L B) m m'" by (rule keeps_intact [OF v c(5) D]) auto
  moreover have "enabled m' = enabled m" using keepsD(4) [OF c(5)] by (simp add: same_side_def)
  ultimately show ?thesis using that [OF c(1) _ _ c(3,4)] by simp
qed

lemma putting_used:
  assumes v: "chunks_inv m L F" and c: "(c, s) \<in> used L"
  obtains b xs ys where "putting m L F b xs s ys" "c = b + 8 + extent xs"
proof -
  have q: "(c, s, True) \<in> spot L" using c by (simp add: used_def)
  then obtain b zs where b: "L b = Some zs" "(c, s, True) \<in> set (spots (b + 8) zs)" by (rule spotE)
  then obtain xs ys where xs: "zs = xs @ (s, True) # ys" "c = b + 8 + extent xs" by (meson spots_split)
  have l: "lay_ok {} m L" using v by (simp add: chunks_inv_def)
  have "lay_ok {c} m L" by (rule lay_ok_cong [OF l]) auto
  then have "putting m L F b xs s ys" using v b(1) xs by (simp add: putting_def chunks_inv_def)
  then show ?thesis using that xs(2) by blast
qed

lemma kl_chunk_put_ok:
  assumes v: "kl_inv m L F B G" and c: "(c, s) \<in> used L"
  obtains m' L' F' where "kl_chunk_put m c = Some (0, m')" "kl_inv m' L' F' B G" "used L' = used L - {(c, s)}"
    "intact (allocs L B - {(c, s)}) m m'" "enabled m' = enabled m"
proof -
  obtain b xs ys where p: "putting m L F b xs s ys" "c = b + 8 + extent xs" using putting_used [OF kl_invD(1) [OF v] c] .
  obtain m' L' F' where d: "kl_chunk_put m c = Some (0, m')" "chunks_inv m' L' F'" "used L' = used L - {(c, s)}"
    "keeps L {c} (dom L) m m'" "dom L' \<subseteq> dom L" "set (undes m') \<subseteq> set (undes m) \<union> dom L"
    using chunk_put_ok [OF p kl_invD(7,8) [OF v]] by metis
  have D: "dom L \<inter> dom B = {}" using kl_invD(3) [OF v] by blast
  have "kl_inv m' L' F' B G" using d(2,5,6) keeps_bricks [OF v d(4) D] kl_invD(3) [OF v] by (auto simp: kl_inv_def)
  moreover have "intact (allocs L B - {(c, s)}) m m'"
  proof (rule keeps_intact [OF v d(4) D])
    fix q n assume q: "(q, n) \<in> allocs L B - {(c, s)}" "(q, n) \<in> used L"
    have "(c, s) \<in> allocs L B" using c by (simp add: allocs_def)
    then show "q \<notin> {c}" using allocs_unique [OF v, of q n s] q by auto
  qed auto
  moreover have "enabled m' = enabled m" using keepsD(4) [OF d(4)] by (simp add: same_side_def)
  ultimately show ?thesis using that [OF d(1) _ d(3)] by blast
qed

subsection \<open>Allocating and releasing\<close>

lemma alloc_header:
  assumes v: "kl_inv m L F B G"
  shows "(c, s) \<in> used L \<Longrightarrow> KL_TYPEOF m c = Some KL_CHUNK \<and> KL_G_SIZE m c = Some s"
    "(c, s) \<in> live_bricks B \<Longrightarrow> KL_TYPEOF m c = Some KL_BRICK \<and> KL_G_SIZE m c = Some s"
    "(c, s) \<in> allocs L B \<Longrightarrow> 8 dvd c \<and> 0 < c \<and> c + 8 < SIZE_MOD \<and> 16 \<le> s"
proof -
  note r = kl_invD(4) [OF v] and bv = kl_invD(2) [OF v]
  have ch: "chunk_at m c s \<and> 0 < c" if "(c, s) \<in> used L"
  proof -
    have q: "(c, s, True) \<in> spot L" using that by (simp add: used_def)
    have "0 < c" using spot_range [OF r kl_invD(5) [OF v] q] by metis
    then show ?thesis using chunk_at_spot [OF r kl_invD(5) [OF v] q] by simp
  qed
  then show "KL_TYPEOF m c = Some KL_CHUNK \<and> KL_G_SIZE m c = Some s" if "(c, s) \<in> used L"
    using that chunk_TYPEOF chunk_SIZE by (auto simp: KL_CHUNK_def)
  have br: "\<exists>b i k. brick_at m c b \<and> block_at m b i k \<and> s = cell_size i \<and> 8 dvd c \<and> 0 < c \<and> c + 8 < SIZE_MOD \<and> 16 \<le> s" if x: "(c, s) \<in> live_bricks B"
  proof -
    obtain b t where b: "B b = Some t" "c \<in> taken b t" "s = cell_size (fst t)" "blocks m b = Some 262144" "b + 8 \<le> c" "c + s \<le> b + 262120" "16 \<le> s"
      using brick_in_block [OF v x] by metis
    have rg: "8 dvd b" "b + 262144 < SIZE_MOD" using regions_okD [OF r b(4)] by simp_all
    note sh = bricks_invD(3) [OF bv b(1)]
    have at: "block_at m b (fst t) (avail t)" using head_ok_at(1) [OF r b(4) sh bricks_invD(4) [OF bv b(1)]] .
    have "heap m c = Some (b + 1)" using bricks_invD(5) [OF bv b(1)] b(2) by (cases t) auto
    moreover have "8 dvd c" using taken_bounds(3) [OF sh b(2) rg(1)] .
    ultimately show ?thesis using at b rg by (auto simp: brick_at_def)
  qed
  show "KL_TYPEOF m c = Some KL_BRICK \<and> KL_G_SIZE m c = Some s" if x: "(c, s) \<in> live_bricks B"
  proof -
    obtain b i k where b: "brick_at m c b" "block_at m b i k" "s = cell_size i" using br [OF x] by blast
    have "8 dvd b" using b(2) by (simp add: block_at_def)
    then show ?thesis using brick_TYPEOF [OF b(1)] brick_SIZE [OF b(1,2)] b(3) by (simp add: KL_BRICK_def)
  qed
  show "8 dvd c \<and> 0 < c \<and> c + 8 < SIZE_MOD \<and> 16 \<le> s" if "(c, s) \<in> allocs L B"
  proof (cases "(c, s) \<in> live_bricks B")
    case True
    then show ?thesis using br by blast
  next
    case False
    then show ?thesis using ch that unfolding allocs_def chunk_at_def by auto
  qed
qed

lemma malloc_checked_ok:
  assumes "kl_inv m L F B G" and "(c, s) \<in> allocs L B"
  shows "malloc_checked m (c + 8) = Some (c + 8, m)"
proof -
  have "KL_G_SIZE m c = Some s" using alloc_header(1,2) [OF assms(1)] assms(2) unfolding allocs_def by blast
  moreover have "8 dvd c" "c + 8 < SIZE_MOD" "16 \<le> s" using alloc_header(3) [OF assms] by simp_all
  ultimately show ?thesis by (simp add: malloc_checked_def KL_G_ALLOC_def subw_exact)
qed

text \<open>The sizes that are served, and what the system has to provide.\<close>

definition servable :: "kl_mem \<Rightarrow> nat \<Rightarrow> bool" where
  "servable m n \<longleftrightarrow>
     enabled m = M_ENABLED_ON \<and>
     (1 \<le> n \<and> n \<le> 262096 \<and> (num_undes m \<noteq> 0 \<or> supplied m 262144) \<or>
      262112 < n \<and> n + 71 < SIZE_MOD \<and> supplied m (KL_CHUNK_SIZE n + 32))"

lemma alloc_max:
  assumes "n + 71 < SIZE_MOD"
  shows "n \<le> ALLOC_MAX_SIZE" "n \<le> CHUNK_MAX_SIZE"
proof -
  have m: "SIZE_MAX = mask 64" by (simp add: SIZE_MAX_def mask_eq_exp_minus_1)
  have "SIZE_MAX AND (SIZE_MAX - 8 - 1) = take_bit 64 (SIZE_MAX - 8 - 1)" unfolding m by (simp only: and.commute [of "mask 64"] take_bit_eq_mask)
  also have "\<dots> = SIZE_MAX - 9" by (simp add: SIZE_MAX_def take_bit_eq_mod)
  finally have "CHUNK_MAX_SIZE = SIZE_MAX - 25" by (simp add: CHUNK_MAX_SIZE_def MEMORY_ALLOCATION_ALIGNMENT_def)
  then show "n \<le> CHUNK_MAX_SIZE" using assms by (simp add: SIZE_MAX_def SIZE_MOD_def)
  then show "n \<le> ALLOC_MAX_SIZE" by (simp add: ALLOC_MAX_SIZE_def)
qed

text \<open>Every request that is servable yields a new allocation.\<close>

text \<open>The three ways to serve a request.  Each ends in a new allocation, of which the following holds.\<close>

definition malloced :: "nat \<Rightarrow> kl_mem \<Rightarrow> (nat \<rightharpoonup> (nat \<times> bool) list) \<Rightarrow> (nat \<rightharpoonup> nat \<times> nat \<times> nat list) \<Rightarrow> nat \<Rightarrow> nat \<Rightarrow> kl_mem \<Rightarrow>
    (nat \<rightharpoonup> (nat \<times> bool) list) \<Rightarrow> (nat \<rightharpoonup> nat \<times> nat \<times> nat list) \<Rightarrow> bool" where
  "malloced n m L B c t m' L' B' \<longleftrightarrow>
     (31 < n \<and> used L' = insert (c, t) (used L) \<and> live_bricks B' = live_bricks B \<and> n + 16 \<le> t \<or>
      n \<le> 31 \<and> used L' = used L \<and> live_bricks B' = insert (c, t) (live_bricks B) \<and> n + 8 \<le> t) \<and>
     (\<forall>k. (c, k) \<notin> allocs L B) \<and> intact (allocs L B) m m' \<and> enabled m' = enabled m"

lemma alloc_fresh:
  assumes w: "kl_inv m' L' F' B' G'" "allocs L' B' = insert (c, t) (allocs L B)" "(c, t) \<notin> allocs L B"
  shows "(c, k) \<notin> allocs L B"
proof
  assume a: "(c, k) \<in> allocs L B"
  then have "(c, k) \<in> allocs L' B'" "(c, t) \<in> allocs L' B'" using w(2) by auto
  then show False using allocs_unique [OF w(1), of c k t] w(3) a by simp
qed

lemma malloc_brick:
  assumes v: "kl_inv m L F B G" and on: "enabled m = M_ENABLED_ON" and n: "1 \<le> n" "n \<le> 31" and sup: "num_undes m \<noteq> 0 \<or> supplied m 262144"
  shows "\<exists>c t m' B' G'. KL_malloc libc m n = Some (c + 8, m') \<and> kl_inv m' L F B' G' \<and> malloced n m L B c t m' L B'"
proof -
  obtain x m' B' G' where g: "kl_brick_get m n = Some (x, m')" "0 < x" "kl_inv m' L F B' G'"
    "live_bricks B' = insert (x, KL_BRICK_SIZE n) (live_bricks B)" "\<And>k. (x, k) \<notin> live_bricks B"
    "intact (allocs L B) m m'" "enabled m' = enabled m"
    using brick_get_ok [OF v n sup] by metis
  have a: "(x, KL_BRICK_SIZE n) \<in> live_bricks B'" "(x, KL_BRICK_SIZE n) \<in> allocs L B'" using g(4) by (simp_all add: allocs_def)
  have h: "KL_TYPEOF m' x = Some KL_BRICK" "KL_G_SIZE m' x = Some (KL_BRICK_SIZE n)" using alloc_header(2) [OF g(3) a(1)] by simp_all
  have "(x, KL_BRICK_SIZE n) \<notin> allocs L B" using g(5) used_live [OF g(3)] a(1) unfolding allocs_def by blast
  then have "(x, k) \<notin> allocs L B" for k by (rule alloc_fresh [OF g(3), rotated]) (use g(4) in \<open>auto simp: allocs_def\<close>)
  then have "malloced n m L B x (KL_BRICK_SIZE n) m' L B'" using g(4,6,7) n(2) BRICKBIN(4) [OF n] by (simp add: malloced_def)
  moreover have "n + 71 < SIZE_MOD" using n(2) by (simp add: SIZE_MOD_def)
  then have "KL_malloc libc m n = Some (x + 8, m')"
    using on alloc_max(1) [of n] g(1,2) h malloc_checked_ok [OF g(3) a(2)] n(2) by (simp add: KL_malloc_def kl_consts)
  ultimately show ?thesis using g(3) by blast
qed

lemma malloc_chunk:
  assumes v: "kl_inv m L F B G" and on: "enabled m = M_ENABLED_ON" and n: "31 < n" "n \<le> 262096" and sup: "num_undes m \<noteq> 0 \<or> supplied m 262144"
  shows "\<exists>c t m' L' F'. KL_malloc libc m n = Some (c + 8, m') \<and> kl_inv m' L' F' B G \<and> malloced n m L B c t m' L' B"
proof -
  have n9: "9 \<le> n" using n by simp
  obtain c t m' L' F' where g: "kl_chunk_get m n = Some (c, m')" "0 < c" "kl_inv m' L' F' B G" "n + 16 \<le> t"
    "used L' = insert (c, t) (used L)" "\<And>t'. (c, t') \<notin> used L" "intact (allocs L B) m m'" "enabled m' = enabled m"
    using kl_chunk_get_ok [OF v n9 n(2) sup] by metis
  have a: "(c, t) \<in> used L'" "(c, t) \<in> allocs L' B" using g(5) by (simp_all add: allocs_def)
  have h: "KL_TYPEOF m' c = Some KL_CHUNK" "KL_G_SIZE m' c = Some t" using alloc_header(1) [OF g(3) a(1)] by simp_all
  have "(c, t) \<notin> allocs L B" using g(6) used_live [OF g(3)] a(1) unfolding allocs_def by blast
  then have "(c, k) \<notin> allocs L B" for k by (rule alloc_fresh [OF g(3), rotated]) (use g(5) in \<open>auto simp: allocs_def\<close>)
  then have "malloced n m L B c t m' L' B" using g(4,5,7,8) n(1) by (simp add: malloced_def)
  moreover have "(c, t, True) \<in> spot L'" using a(1) by (simp add: used_def)
  then have "8 dvd t" using chunk_at_spot [OF kl_invD(4,5) [OF g(3)]] by (auto simp: chunk_at_def)
  then have sz: "KL_CHUNK_SIZE n \<le> t" using g(4) CHUNK_SIZE_le(1) [OF n(2)] by presburger
  have "n + 71 < SIZE_MOD" using n(2) by (simp add: SIZE_MOD_def)
  then have "KL_malloc libc m n = Some (c + 8, m')"
    using on alloc_max [of n] g(1,2) h sz malloc_checked_ok [OF g(3) a(2)] n by (simp add: KL_malloc_def kl_brick_get_def kl_consts)
  ultimately show ?thesis using g(3) by blast
qed

lemma malloc_solo:
  assumes v: "kl_inv m L F B G" and on: "enabled m = M_ENABLED_ON" and n: "262112 < n" and lim: "n + 71 < SIZE_MOD"
    and sup: "supplied m (KL_CHUNK_SIZE n + 32)"
  shows "\<exists>c t m' L'. KL_malloc libc m n = Some (c + 8, m') \<and> kl_inv m' L' F B G \<and> malloced n m L B c t m' L' B"
proof -
  have n6: "262096 < n" using n by simp
  note cs = CHUNK_SIZE_big [OF lim n6]
  obtain c m' L' where g: "kl_chunk_solo m n = Some (c, m')" "0 < c" "kl_inv m' L' F B G"
    "used L' = insert (c, KL_CHUNK_SIZE n) (used L)" "\<And>t'. (c, t') \<notin> used L" "intact (allocs L B) m m'" "enabled m' = enabled m"
    using kl_chunk_solo_ok [OF v lim n6 sup] by metis
  have a: "(c, KL_CHUNK_SIZE n) \<in> used L'" "(c, KL_CHUNK_SIZE n) \<in> allocs L' B" using g(4) by (simp_all add: allocs_def)
  have h: "KL_TYPEOF m' c = Some KL_CHUNK" "KL_G_SIZE m' c = Some (KL_CHUNK_SIZE n)" using alloc_header(1) [OF g(3) a(1)] by simp_all
  have "(c, KL_CHUNK_SIZE n) \<notin> allocs L B" using g(5) used_live [OF g(3)] a(1) unfolding allocs_def by blast
  then have "(c, k) \<notin> allocs L B" for k by (rule alloc_fresh [OF g(3), rotated]) (use g(4) in \<open>auto simp: allocs_def\<close>)
  then have "malloced n m L B c (KL_CHUNK_SIZE n) m' L' B" using g(4,6,7) n cs(4) by (simp add: malloced_def)
  moreover have "kl_brick_get m n = Some (0, m)" "kl_chunk_get m n = Some (0, m)"
    using n cs(3) by (simp_all add: kl_brick_get_def kl_chunk_get_def kl_consts)
  then have "KL_malloc libc m n = Some (c + 8, m')"
    using on alloc_max [OF lim] g(1,2) h malloc_checked_ok [OF g(3) a(2)] n by (simp add: KL_malloc_def kl_consts)
  ultimately show ?thesis using g(3) by blast
qed

lemma kl_malloc_ok:
  assumes v: "kl_inv m L F B G" and n: "servable m n"
  obtains c t m' L' F' B' G' where "KL_malloc libc m n = Some (c + 8, m')" "kl_inv m' L' F' B' G'"
    "31 < n \<and> used L' = insert (c, t) (used L) \<and> live_bricks B' = live_bricks B \<and> n + 16 \<le> t \<or>
     n \<le> 31 \<and> used L' = used L \<and> live_bricks B' = insert (c, t) (live_bricks B) \<and> n + 8 \<le> t"
    "\<And>k. (c, k) \<notin> allocs L B" "intact (allocs L B) m m'" "enabled m' = enabled m"
proof -
  have on: "enabled m = M_ENABLED_ON" and lim: "n + 71 < SIZE_MOD" using n by (auto simp: servable_def SIZE_MOD_def)
  consider "1 \<le> n" "n \<le> 31" "num_undes m \<noteq> 0 \<or> supplied m 262144" | "31 < n" "n \<le> 262096" "num_undes m \<noteq> 0 \<or> supplied m 262144"
    | "262112 < n" "supplied m (KL_CHUNK_SIZE n + 32)" using n by (fastforce simp: servable_def)
  then have "\<exists>c t m' L' F' B' G'. KL_malloc libc m n = Some (c + 8, m') \<and> kl_inv m' L' F' B' G' \<and> malloced n m L B c t m' L' B'"
  proof cases
    case 1
    show ?thesis using malloc_brick [OF v on 1] by blast
  next
    case 2
    show ?thesis using malloc_chunk [OF v on 2] by blast
  next
    case 3
    show ?thesis using malloc_solo [OF v on 3(1) lim 3(2)] by blast
  qed
  then show thesis using that unfolding malloced_def by blast
qed

lemma kl_free_ok:
  assumes v: "kl_inv m L F B G" and on: "enabled m = M_ENABLED_ON" and c: "(c, t) \<in> allocs L B"
  obtains m' L' F' B' G' where "KL_free libc m (c + 8) = Some (0, m')" "kl_inv m' L' F' B' G'"
    "used L' = used L - {(c, t)}" "live_bricks B' = live_bricks B - {(c, t)}" "intact (allocs L B - {(c, t)}) m m'" "enabled m' = enabled m"
proof -
  have al: "KL_G_ALLOC (c + 8) = Some c" using alloc_header(3) [OF v c] by (simp add: KL_G_ALLOC_def subw_exact)
  show ?thesis
  proof (cases "(c, t) \<in> used L")
    case True
    obtain m' L' F' where f: "kl_chunk_put m c = Some (0, m')" "kl_inv m' L' F' B G" "used L' = used L - {(c, t)}"
      "intact (allocs L B - {(c, t)}) m m'" "enabled m' = enabled m" by (rule kl_chunk_put_ok [OF v True])
    have "live_bricks B = live_bricks B - {(c, t)}" using used_live [OF v] True by blast
    moreover have "KL_free libc m (c + 8) = Some (0, m')"
      using on al alloc_header(1) [OF v True] f(1) by (simp add: KL_free_def kl_consts)
    ultimately show ?thesis using that f by blast
  next
    case False
    then have x: "(c, t) \<in> live_bricks B" using c by (simp add: allocs_def)
    obtain m' B' G' where f: "kl_brick_put m c = Some (0, m')" "kl_inv m' L F B' G'" "live_bricks B' = live_bricks B - {(c, t)}"
      "intact (allocs L B - {(c, t)}) m m'" "enabled m' = enabled m" by (rule brick_put_ok [OF v x])
    have "KL_free libc m (c + 8) = Some (0, m')"
      using on al alloc_header(2) [OF v x] f(1) by (simp add: KL_free_def)
    then show ?thesis using that f False by blast
  qed
qed

end
