(* ===== verification/Kl_Contract.thy ===== *)
theory Kl_Contract
  imports Kl_Interface
begin

text \<open>
  The contract of the allocator with a program: the memory a program owns, the laws of an allocator
  as a locale, and runs of programs that allocate, release and write.
\<close>

subsection \<open>The memory a program owns\<close>

text \<open>A program owns what is behind the header of an allocation, for a chunk without its footer.\<close>

definition payload :: "layout \<Rightarrow> (nat \<rightharpoonup> brick_state) \<Rightarrow> (nat \<times> nat) set" where
  "payload L B = (\<lambda>(c, t). (c + 8, t - 16)) ` used L \<union> (\<lambda>(x, n). (x + 8, n - 8)) ` live_bricks B"

lemma payloadE:
  assumes "(p, k) \<in> payload L B"
  obtains (chunk) c t where "(c, t) \<in> used L" "p = c + 8" "k = t - 16"
    | (brick) x n where "(x, n) \<in> live_bricks B" "p = x + 8" "k = n - 8"
  using assms unfolding payload_def by auto

lemma payload_alloc:
  assumes v: "kl_inv m L F B G" and p: "(p, k) \<in> payload L B"
  obtains c t where "(c, t) \<in> allocs L B" "p = c + 8" "p + k \<le> c + t" "8 dvd p" "(c, t) \<in> used L \<Longrightarrow> k = t - 16"
    "(c, t) \<in> live_bricks B \<Longrightarrow> k = t - 8"
proof -
  from p show ?thesis
  proof (cases rule: payloadE)
    case (chunk c t)
    then have a: "(c, t) \<in> allocs L B" by (simp add: allocs_def)
    have "(c, t) \<notin> live_bricks B" using used_live [OF v] chunk(1) by blast
    then show ?thesis using that [OF a chunk(2)] chunk alloc_header(3) [OF v a] by simp
  next
    case (brick x n)
    then have a: "(x, n) \<in> allocs L B" by (simp add: allocs_def)
    have "(x, n) \<notin> used L" using used_live [OF v] brick(1) by blast
    then show ?thesis using that [OF a brick(2)] brick alloc_header(3) [OF v a] by simp
  qed
qed

lemma payload_apart:
  assumes v: "kl_inv m L F B G" and p: "(p, k) \<in> payload L B" "(q, l) \<in> payload L B" "(p, k) \<noteq> (q, l)"
  shows "p + k \<le> q \<or> q + l \<le> p" "p \<noteq> q"
proof -
  obtain c t where c: "(c, t) \<in> allocs L B" "p = c + 8" "p + k \<le> c + t" "(c, t) \<in> used L \<Longrightarrow> k = t - 16" "(c, t) \<in> live_bricks B \<Longrightarrow> k = t - 8"
    using payload_alloc [OF v p(1)] by metis
  obtain d u where d: "(d, u) \<in> allocs L B" "q = d + 8" "q + l \<le> d + u" "(d, u) \<in> used L \<Longrightarrow> l = u - 16" "(d, u) \<in> live_bricks B \<Longrightarrow> l = u - 8"
    using payload_alloc [OF v p(2)] by metis
  have ne: "(c, t) \<noteq> (d, u)"
  proof
    assume "(c, t) = (d, u)"
    then show False using c d p(3) unfolding allocs_def by auto
  qed
  then show "p + k \<le> q \<or> q + l \<le> p" using allocs_apart [OF v c(1) d(1)] c d by auto
  show "p \<noteq> q" using allocs_unique [OF v, of c t u] c d ne by auto
qed

lemma intact_payload:
  assumes "kl_inv m L F B G" and "intact (allocs L B) m m'" and "(p, k) \<in> payload L B" and "p \<le> x" "x < p + k"
  shows "heap m' x = heap m x"
proof -
  obtain c t where "(c, t) \<in> allocs L B" "p = c + 8" "p + k \<le> c + t" using payload_alloc [OF assms(1,3)] by metis
  then show ?thesis using assms(2,4,5) unfolding intact_def by auto
qed

text \<open>Writing to the payload of an allocation keeps the invariant.\<close>

lemma payload_write:
  assumes v: "kl_inv m L F B G" and p: "(p, k) \<in> payload L B" and m': "m' = m\<lparr>heap := H\<rparr>"
    and d: "\<And>x. 8 dvd x \<Longrightarrow> heap m x \<noteq> None \<Longrightarrow> H x \<noteq> None"
    and h: "\<And>x. x < p \<or> p + k \<le> x \<Longrightarrow> H x = heap m x"
  shows "kl_inv m' L F B G"
proof -
  note r = kl_invD(4) [OF v] and l = kl_invD(5) [OF v] and bi = kl_invD(6) [OF v] and bv = kl_invD(2) [OF v]
  have r': "regions_ok m'" using r d unfolding regions_ok_def m' by simp
  have u': "undes_ok m'" "undes m' = undes m" using kl_invD(7) [OF v] m' by (simp_all add: undes_ok_def undes_def)
  from p show ?thesis
  proof (cases rule: payloadE)
    case (chunk c t)
    have q: "(c, t, True) \<in> spot L" using chunk(1) by (simp add: used_def)
    obtain b z where b: "b \<in> dom L" "blocks m b = Some z" "b + 8 \<le> c" "c + t + 24 \<le> b + z" "32 \<le> t" using chunk_in_block [OF v chunk(1)] by metis
    obtain b1 xs ys where y: "putting m L F b1 xs t ys" "c = b1 + 8 + extent xs" by (rule putting_used [OF kl_invD(1) [OF v] chunk(1)])
    note L = puttingD(4) [OF y(1)]
    have L': "L b1 = Some (xs @ [(t, True)] @ ys)" using L by simp
    have n: "blocks m b1 = Some 262144 \<or> (\<exists>s. xs @ [(t, True)] @ ys = [(s, True)])" using lay_okD [OF l L'] by metis
    have out: "heap m' x = heap m x" if "x < c + 8 \<or> c + t - 8 \<le> x" for x using h [of x] that chunk b(5) m' by auto
    have "lay_ok {} m' (L(b1 \<mapsto> xs @ [(t, True)] @ ys))"
    proof (rule lay_ok_replace [OF r l L' y(2)])
      have "heap m' c = heap m c" "heap m' (c + t - 8) = heap m (c + t - 8)" using out by simp_all
      moreover have "(c, t, True) \<in> set (spots (b1 + 8) (xs @ [(t, True)] @ ys))" using y(2) by simp
      then have "chunk_ok {} (heap m) (c, t, True)" using lay_okD [OF l L'] by metis
      ultimately show "chunk_ok {} (heap m') x" if "x \<in> set (spots c [(t, True)])" for x using that by simp
      show "heap m' x = heap m x" if "x < c \<or> c + extent [(t, True)] \<le> x" for x using that b(5) by (intro out) auto
    qed (use n m' in auto)
    then have l': "lay_ok {} m' L" using L' by (simp add: fun_upd_idem)
    have b': "bins_ok {} m' L F"
    proof (rule bins_ok_cong [OF bi])
      fix i a assume "i < 1576" "a \<in> set (F i)"
      then obtain e where e: "(a, e, False) \<in> spot L" using bins_okD(5) [OF bi] by blast
      have "32 \<le> e" using spot_range [OF r l e] by metis
      then have "a + 8 < c + 8 \<or> c + t - 8 \<le> a + 8" "a + 16 < c + 8 \<or> c + t - 8 \<le> a + 16" using spot_apart [OF r l q e] by auto
      then show "heap m' (a + 8) = heap m (a + 8) \<and> heap m' (a + 16) = heap m (a + 16)" using out by simp
    qed (simp_all add: m')
    have "bricks_inv m' B G"
    proof (rule bricks_frame [OF bv])
      show "heap m' x = heap m x" if a: "a \<in> dom B" "blocks m a = Some w" "a \<le> x" "x < a + w" for a w x
      proof -
        have "a \<noteq> b" using a(1) b(1) kl_invD(3) [OF v] by blast
        then show ?thesis using regions_apart [OF r a(2) b(2)] a b by (intro out) auto
      qed
    qed (simp_all add: m')
    then show ?thesis using l' b' r' u' kl_invD(3,8) [OF v] by (simp add: kl_inv_def chunks_inv_def)
  next
    case (brick x n)
    obtain b s where b: "B b = Some s" "x \<in> taken b s" "n = cell_size (fst s)" "blocks m b = Some 262144" "b + 8 \<le> x" "x + n \<le> b + 262120" "16 \<le> n"
      using brick_in_block [OF v brick(1)] by metis
    have out: "heap m' y = heap m y" if "y < x + 8 \<or> x + n \<le> y" for y using h [of y] that brick b(7) m' by auto
    obtain i j fs where e: "s = (i, j, fs)" by (cases s) auto
    note sh = bricks_invD(3) [OF bv b(1)] and bd = bricks_invD(5) [OF bv b(1)]
    have sz: "1 \<le> i" "j \<le> cell_num i" "set fs \<subseteq> cells b i j" "n = cell_size i" "x \<in> cells b i j" "x \<notin> set fs" using sh b e by auto
    have cell: "heap m' a = heap m a" "a \<noteq> x \<Longrightarrow> heap m' (a + 8) = heap m (a + 8)" if "a \<in> cells b i (Suc j)" for a
    proof -
      have "a = x \<or> a + n \<le> x \<or> x + n \<le> a" using cells_apart [OF that, of x j] sz(4,5) by auto
      then show "heap m' a = heap m a" "a \<noteq> x \<Longrightarrow> heap m' (a + 8) = heap m (a + 8)" using b(7) by (auto intro!: out)
    qed
    have "body_ok (heap m') b s"
    proof -
      obtain a z where a: "heap m (b + 262120) = Some a" "chain (heap m) a fs z" "j < cell_num i \<longrightarrow> z = cell b i j" using bd e by auto
      have "chain (heap m') a fs z"
      proof (rule chain_cong [OF a(2)])
        fix y assume "y \<in> set fs"
        then have "y \<in> cells b i (Suc j)" "y \<noteq> x" using sz(3,6) by (auto simp: cells_Suc)
        then show "heap m' (y + 8) = heap m (y + 8)" using cell(2) by blast
      qed
      moreover have "heap m' (b + 262120) = heap m (b + 262120)" using b(6) by (intro out) simp
      ultimately show ?thesis using bd a cell(1) unfolding e by (auto simp: cells_Suc)
    qed
    moreover have "head_ok (heap m') b s" using bricks_invD(4) [OF bv b(1)] out [of b] b(5) e by simp
    moreover have low: "heap m' y = heap m y" if "y < b \<or> b + 262128 \<le> y" for y using that b(5,6) by (intro out) auto
    moreover have lk: "linked m' B G"
      by (rule linked_region [OF r bricks_invD(2) [OF bv] bricks_invD(1) [OF bv] b(4), of m' 262128]) (use low m' in auto)
    moreover have same: "B(b \<mapsto> s) = B" using b(1) by (simp add: fun_upd_idem)
    ultimately have "bricks_inv m' (B(b \<mapsto> s)) G" by (intro bricks_inv_change [OF r bv]) (use b(1) sh m' in auto)
    then have bv': "bricks_inv m' B G" using same by simp
    have "chunks_inv m' L F"
    proof (rule chunks_frame [OF kl_invD(1) [OF v] r' u'(1)])
      show "heap m' y = heap m y" if a: "a \<in> dom L" "blocks m a = Some w" "a \<le> y" "y < a + w" for a w y
      proof -
        have "a \<noteq> b" using a(1) b(1) kl_invD(3) [OF v] by blast
        then show ?thesis using regions_apart [OF r a(2) b(4)] a b by (intro low) auto
      qed
    qed (use m' u' kl_invD(8) [OF v] in simp_all)
    then show ?thesis using bv' u'(2) kl_invD(3) [OF v] by (simp add: kl_inv_def)
  qed
qed

subsection \<open>An allocator\<close>

text \<open>\<open>V\<close> gives the sizes of the allocations that a program owns, by their addresses.\<close>

definition owned :: "(nat \<rightharpoonup> nat) \<Rightarrow> nat set" where
  "owned V = {x. \<exists>p n. V p = Some n \<and> p \<le> x \<and> x < p + n}"

locale allocator =
  fixes owns :: "'s \<Rightarrow> (nat \<rightharpoonup> nat) \<Rightarrow> bool"
    and able :: "'s \<Rightarrow> nat \<Rightarrow> bool"
    and get :: "'s \<Rightarrow> nat \<Rightarrow> (nat \<times> 's) option"
    and put :: "'s \<Rightarrow> nat \<Rightarrow> (int \<times> 's) option"
    and store :: "'s \<Rightarrow> nat \<Rightarrow> nat \<Rightarrow> 's option"
    and cont :: "'s \<Rightarrow> nat \<rightharpoonup> nat"
  assumes owns_apart: "owns s V \<Longrightarrow> V p = Some n \<Longrightarrow> V q = Some k \<Longrightarrow> p \<noteq> q \<Longrightarrow> p + n \<le> q \<or> q + k \<le> p"
    and get_law: "owns s V \<Longrightarrow> able s n \<Longrightarrow>
      \<exists>p s'. get s n = Some (p, s') \<and> p \<noteq> 0 \<and> 8 dvd p \<and> V p = None \<and> owns s' (V(p \<mapsto> n)) \<and> (\<forall>x \<in> owned V. cont s' x = cont s x)"
    and put_law: "owns s V \<Longrightarrow> V p = Some n \<Longrightarrow>
      \<exists>s'. put s p = Some (0, s') \<and> owns s' (V(p := None)) \<and> (\<forall>x \<in> owned (V(p := None)). cont s' x = cont s x)"
    and store_law: "owns s V \<Longrightarrow> V p = Some n \<Longrightarrow> p \<le> x \<Longrightarrow> x + 8 \<le> p + n \<Longrightarrow> 8 dvd x \<Longrightarrow>
      \<exists>s'. store s x w = Some s' \<and> owns s' V \<and> cont s' = (cont s)(x \<mapsto> w)"
begin

lemma get_apart:
  assumes "owns s V" and "able s n" and "get s n = Some (p, s')" and "V q = Some k"
  shows "p + n \<le> q \<or> q + k \<le> p"
proof -
  have "owns s' (V(p \<mapsto> n))" "V p = None" using get_law [OF assms(1,2)] assms(3) by auto
  moreover have "p \<noteq> q" using calculation(2) assms(4) by auto
  ultimately show ?thesis using owns_apart [of s' "V(p \<mapsto> n)" p n q k] assms(4) by simp
qed

lemma get_put:
  assumes "owns s V" and "able s n"
  shows "\<exists>p s' s''. get s n = Some (p, s') \<and> put s' p = Some (0, s'') \<and> owns s'' V \<and> (\<forall>x \<in> owned V. cont s'' x = cont s x)"
proof -
  obtain p s' where g: "get s n = Some (p, s')" "V p = None" "owns s' (V(p \<mapsto> n))" "\<forall>x \<in> owned V. cont s' x = cont s x"
    using get_law [OF assms] by blast
  have e: "(V(p \<mapsto> n))(p := None) = V" using g(2) by (simp add: fun_upd_idem)
  obtain s'' where "put s' p = Some (0, s'')" "owns s'' V" "\<forall>x \<in> owned V. cont s'' x = cont s' x"
    using put_law [OF g(3), of p n] unfolding e by auto
  then show ?thesis using g(1,4) by auto
qed

lemma store_apart:
  assumes "owns s V" and "V p = Some n" and "p \<le> x" "x + 8 \<le> p + n" "8 dvd x" and "V q = Some k" "q \<noteq> p" "q \<le> y" "y < q + k"
  shows "\<exists>s'. store s x w = Some s' \<and> cont s' x = Some w \<and> cont s' y = cont s y"
proof -
  obtain s' where s': "store s x w = Some s'" "cont s' = (cont s)(x \<mapsto> w)" using store_law [OF assms(1-5)] by blast
  have "y \<noteq> x" using owns_apart [OF assms(1,2,6)] assms by auto
  then show ?thesis using s' by simp
qed

end

subsection \<open>The laws for this allocator\<close>

definition covers :: "(nat \<rightharpoonup> nat) \<Rightarrow> (nat \<times> nat) set \<Rightarrow> bool" where
  "covers V P \<longleftrightarrow> (\<forall>p. V p \<noteq> None \<longleftrightarrow> (\<exists>k. (p, k) \<in> P)) \<and> (\<forall>p n k. V p = Some n \<longrightarrow> (p, k) \<in> P \<longrightarrow> n \<le> k)"

definition kl_owns :: "kl_mem \<Rightarrow> (nat \<rightharpoonup> nat) \<Rightarrow> bool" where
  "kl_owns m V \<longleftrightarrow> enabled m = M_ENABLED_ON \<and> (\<exists>L F B G. kl_inv m L F B G \<and> covers V (payload L B))"

lemma coversD:
  assumes "covers V P"
  shows "V p \<noteq> None \<longleftrightarrow> (\<exists>k. (p, k) \<in> P)" "V p = Some n \<Longrightarrow> (p, k) \<in> P \<Longrightarrow> n \<le> k"
  using assms unfolding covers_def by blast+

lemma coversI:
  "(\<And>p. V p \<noteq> None \<longleftrightarrow> (\<exists>k. (p, k) \<in> P)) \<Longrightarrow> (\<And>p n k. V p = Some n \<Longrightarrow> (p, k) \<in> P \<Longrightarrow> n \<le> k) \<Longrightarrow> covers V P"
  unfolding covers_def by blast

lemma kl_ownsE:
  assumes "kl_owns m V"
  obtains L F B G where "enabled m = M_ENABLED_ON" "kl_inv m L F B G" "covers V (payload L B)"
  using assms unfolding kl_owns_def by blast

lemma kl_ownsI: "enabled m = M_ENABLED_ON \<Longrightarrow> kl_inv m L F B G \<Longrightarrow> covers V (payload L B) \<Longrightarrow> kl_owns m V"
  unfolding kl_owns_def by blast

lemma kl_owns_payload:
  assumes "covers V P" and "V p = Some n"
  obtains k where "(p, k) \<in> P" "n \<le> k"
  using coversD [OF assms(1), of p] assms(2) by auto

lemma kl_owns_apart:
  assumes "kl_owns m V" and "V p = Some n" "V q = Some k" "p \<noteq> q"
  shows "p + n \<le> q \<or> q + k \<le> p"
proof -
  obtain L F B G where v: "kl_inv m L F B G" "covers V (payload L B)" by (rule kl_ownsE [OF assms(1)])
  obtain n' where n: "(p, n') \<in> payload L B" "n \<le> n'" by (rule kl_owns_payload [OF v(2) assms(2)])
  obtain k' where k: "(q, k') \<in> payload L B" "k \<le> k'" by (rule kl_owns_payload [OF v(2) assms(3)])
  show ?thesis using payload_apart(1) [OF v(1) n(1) k(1)] assms(4) n(2) k(2) by auto
qed

lemma owned_intact:
  assumes v: "kl_inv m L F B G" "covers V (payload L B)"
    and i: "intact A m m'" and A: "\<And>c t k. (c, t) \<in> allocs L B \<Longrightarrow> (c + 8, k) \<in> payload L B \<Longrightarrow> V (c + 8) \<noteq> None \<Longrightarrow> c + 8 \<noteq> p \<Longrightarrow> (c, t) \<in> A"
    and x: "x \<in> owned (V(p := None))"
  shows "heap m' x = heap m x"
proof -
  obtain q n where q: "(V(p := None)) q = Some n" "q \<le> x" "x < q + n" using x unfolding owned_def by blast
  have q': "V q = Some n" "q \<noteq> p" using q(1) by (auto split: if_splits)
  obtain k where k: "(q, k) \<in> payload L B" "n \<le> k" by (rule kl_owns_payload [OF v(2) q'(1)])
  obtain c t where c: "(c, t) \<in> allocs L B" "q = c + 8" "q + k \<le> c + t" using payload_alloc [OF v(1) k(1)] by metis
  have "(c, t) \<in> A" using A [OF c(1), of k] k(1) c(2) q' by simp
  then show ?thesis using i q k c unfolding intact_def by auto
qed

text \<open>What a program owns after an allocation, and after a release.\<close>

lemma get_covers:
  assumes w: "kl_inv m' L' F' B' G'" and v: "kl_inv m L F B G" "covers V (payload L B)"
    and u: "31 < n \<and> used L' = insert (c, t) (used L) \<and> live_bricks B' = live_bricks B \<and> n + 16 \<le> t \<or>
      n \<le> 31 \<and> used L' = used L \<and> live_bricks B' = insert (c, t) (live_bricks B) \<and> n + 8 \<le> t"
    and new: "\<And>k. (c, k) \<notin> allocs L B"
  shows "covers (V(c + 8 \<mapsto> n)) (payload L' B')" "V (c + 8) = None"
    "\<exists>k. payload L' B' = insert (c + 8, k) (payload L B) \<and> n \<le> k"
proof -
  show "\<exists>k. payload L' B' = insert (c + 8, k) (payload L B) \<and> n \<le> k"
    using u
  proof
    assume "31 < n \<and> used L' = insert (c, t) (used L) \<and> live_bricks B' = live_bricks B \<and> n + 16 \<le> t"
    then show ?thesis by (intro exI [of _ "t - 16"]) (auto simp: payload_def)
  next
    assume "n \<le> 31 \<and> used L' = used L \<and> live_bricks B' = insert (c, t) (live_bricks B) \<and> n + 8 \<le> t"
    then show ?thesis by (intro exI [of _ "t - 8"]) (auto simp: payload_def)
  qed
  then obtain k where k: "payload L' B' = insert (c + 8, k) (payload L B)" "n \<le> k" by blast
  have np: "(c + 8, l) \<notin> payload L B" for l
  proof
    assume "(c + 8, l) \<in> payload L B"
    then obtain d e where "(d, e) \<in> allocs L B" "c + 8 = d + 8" using payload_alloc [OF v(1)] by metis
    then show False using new by simp
  qed
  then show "V (c + 8) = None" using coversD(1) [OF v(2), of "c + 8"] by auto
  show "covers (V(c + 8 \<mapsto> n)) (payload L' B')"
  proof (rule coversI)
    show "(V(c + 8 \<mapsto> n)) p \<noteq> None \<longleftrightarrow> (\<exists>k. (p, k) \<in> payload L' B')" for p using coversD(1) [OF v(2), of p] k(1) by auto
    show "l \<le> j" if "(V(c + 8 \<mapsto> n)) p = Some l" "(p, j) \<in> payload L' B'" for p l j
      using that k np coversD(2) [OF v(2), of p l j] by (auto split: if_splits)
  qed
qed

lemma put_covers:
  assumes v: "kl_inv m L F B G" "covers V (payload L B)" and c: "(c, t) \<in> allocs L B"
    and f: "used L' = used L - {(c, t)}" "live_bricks B' = live_bricks B - {(c, t)}"
  shows "covers (V(c + 8 := None)) (payload L' B')"
proof (rule coversI)
  have un: "u = t" if "(c, u) \<in> allocs L B" for u using allocs_unique [OF v(1) that c] .
  have pl: "(q, l) \<in> payload L' B' \<longleftrightarrow> (q, l) \<in> payload L B \<and> q \<noteq> c + 8" for q l
  proof
    assume "(q, l) \<in> payload L' B'"
    then show "(q, l) \<in> payload L B \<and> q \<noteq> c + 8"
      by (cases rule: payloadE) (use f un in \<open>force simp: payload_def allocs_def\<close>)+
  next
    assume "(q, l) \<in> payload L B \<and> q \<noteq> c + 8"
    then have "(q, l) \<in> payload L B" "q \<noteq> c + 8" by simp_all
    from this(1) show "(q, l) \<in> payload L' B'"
      by (cases rule: payloadE) (use f \<open>q \<noteq> c + 8\<close> in \<open>force simp: payload_def\<close>)+
  qed
  show "(V(c + 8 := None)) q \<noteq> None \<longleftrightarrow> (\<exists>k. (q, k) \<in> payload L' B')" for q using coversD(1) [OF v(2), of q] pl by auto
  show "l \<le> j" if "(V(c + 8 := None)) q = Some l" "(q, j) \<in> payload L' B'" for q l j
    using that pl coversD(2) [OF v(2), of q l j] by (auto split: if_splits)
qed

lemma kl_get_law:
  assumes o: "kl_owns m V" and n: "servable m n"
  shows "\<exists>p m'. KL_malloc lm m n = Some (p, m') \<and> p \<noteq> 0 \<and> 8 dvd p \<and> V p = None \<and> kl_owns m' (V(p \<mapsto> n)) \<and>
    (\<forall>x \<in> owned V. heap m' x = heap m x)"
proof -
  obtain L F B G where v: "enabled m = M_ENABLED_ON" "kl_inv m L F B G" "covers V (payload L B)" by (rule kl_ownsE [OF o])
  obtain c t m' L' F' B' G' where g: "KL_malloc lm m n = Some (c + 8, m')" "kl_inv m' L' F' B' G'"
    "31 < n \<and> used L' = insert (c, t) (used L) \<and> live_bricks B' = live_bricks B \<and> n + 16 \<le> t \<or>
     n \<le> 31 \<and> used L' = used L \<and> live_bricks B' = insert (c, t) (live_bricks B) \<and> n + 8 \<le> t"
    "\<And>k. (c, k) \<notin> allocs L B" "intact (allocs L B) m m'" "enabled m' = enabled m"
    using kl_malloc_ok [OF v(2) n, of lm] by metis
  note k = get_covers [OF g(2) v(2,3) g(3,4)]
  have "(c, t) \<in> allocs L' B'" using g(3) unfolding allocs_def by auto
  then have al: "8 dvd c + 8" using alloc_header(3) [OF g(2)] by auto
  have "kl_owns m' (V(c + 8 \<mapsto> n))" using kl_ownsI [OF _ g(2) k(1)] g(6) v(1) by simp
  moreover have "heap m' x = heap m x" if x: "x \<in> owned V" for x
  proof (rule owned_intact [OF v(2,3) g(5)])
    have "V 0 = None" using coversD(1) [OF v(3), of 0] payload_alloc [OF v(2), of 0] by (metis add_is_0 zero_neq_numeral)
    then show "x \<in> owned (V(0 := None))" using x by (simp add: fun_upd_idem)
  qed
  ultimately show ?thesis using g(1) al k(2) by (intro exI [of _ "c + 8"] exI [of _ m']) simp
qed

lemma kl_put_law:
  assumes o: "kl_owns m V" and p: "V p = Some n"
  shows "\<exists>m'. KL_free lf m p = Some (0, m') \<and> kl_owns m' (V(p := None)) \<and> (\<forall>x \<in> owned (V(p := None)). heap m' x = heap m x)"
proof -
  obtain L F B G where v: "enabled m = M_ENABLED_ON" "kl_inv m L F B G" "covers V (payload L B)" by (rule kl_ownsE [OF o])
  obtain k where k: "(p, k) \<in> payload L B" by (rule kl_owns_payload [OF v(3) p])
  obtain c t where c: "(c, t) \<in> allocs L B" "p = c + 8" using payload_alloc [OF v(2) k] by metis
  obtain m' L' F' B' G' where f: "KL_free lf m (c + 8) = Some (0, m')" "kl_inv m' L' F' B' G'"
    "used L' = used L - {(c, t)}" "live_bricks B' = live_bricks B - {(c, t)}" "intact (allocs L B - {(c, t)}) m m'" "enabled m' = enabled m"
    by (rule kl_free_ok [OF v(2,1) c(1)])
  have "kl_owns m' (V(p := None))" using kl_ownsI [OF _ f(2) put_covers [OF v(2,3) c(1) f(3,4)]] f(6) v(1) c(2) by simp
  moreover have "\<forall>x \<in> owned (V(p := None)). heap m' x = heap m x"
    by (intro ballI owned_intact [OF v(2,3) f(5)]) (use c(2) in auto)
  ultimately show ?thesis using f(1) c(2) by blast
qed

lemma alloc_mapped:
  assumes v: "kl_inv m L F B G" and c: "(c, t) \<in> allocs L B" and x: "c \<le> x" "x < c + t + 8" "8 dvd x"
  shows "heap m x \<noteq> None"
proof (cases "(c, t) \<in> used L")
  case True
  obtain b z where b: "blocks m b = Some z" "b + 8 \<le> c" "c + t + 24 \<le> b + z" using chunk_in_block [OF v True] by metis
  show ?thesis by (rule regions_okD(6) [OF kl_invD(4) [OF v] b(1)]) (use b x in auto)
next
  case False
  then have "(c, t) \<in> live_bricks B" using c by (simp add: allocs_def)
  then obtain b where b: "blocks m b = Some 262144" "b + 8 \<le> c" "c + t \<le> b + 262120" using brick_in_block [OF v] by metis
  show ?thesis by (rule regions_okD(6) [OF kl_invD(4) [OF v] b(1)]) (use b x in auto)
qed

lemma kl_store_law:
  assumes o: "kl_owns m V" and p: "V p = Some n" "p \<le> x" "x + 8 \<le> p + n" "8 dvd x"
  shows "\<exists>m'. wrw m x w = Some m' \<and> kl_owns m' V \<and> heap m' = (heap m)(x \<mapsto> w)"
proof -
  obtain L F B G where v: "enabled m = M_ENABLED_ON" "kl_inv m L F B G" "covers V (payload L B)" by (rule kl_ownsE [OF o])
  obtain k where k: "(p, k) \<in> payload L B" "n \<le> k" by (rule kl_owns_payload [OF v(3) p(1)])
  obtain c t where c: "(c, t) \<in> allocs L B" "p = c + 8" "p + k \<le> c + t" using payload_alloc [OF v(2) k(1)] by metis
  have "heap m x \<noteq> None" by (rule alloc_mapped [OF v(2) c(1)]) (use c k p in auto)
  then have w: "wrw m x w = Some (m\<lparr>heap := (heap m)(x \<mapsto> w)\<rparr>)"
    by (rule wrw_mapped')
  have "kl_inv (m\<lparr>heap := (heap m)(x \<mapsto> w)\<rparr>) L F B G"
    by (rule payload_write [OF v(2) k(1) refl]) (use p k(2) in auto)
  then have "kl_owns (m\<lparr>heap := (heap m)(x \<mapsto> w)\<rparr>) V" by (rule kl_ownsI [rotated]) (use v(1,3) in simp_all)
  then show ?thesis using w by simp
qed

interpretation kl: allocator kl_owns servable "KL_malloc lm" "KL_free lf" wrw heap
  by unfold_locales (rule kl_owns_apart kl_get_law kl_put_law kl_store_law; assumption)+

subsection \<open>Initialisation\<close>

lemma kl_inv_empty:
  assumes "blocks m = Map.empty" and "num_undes m = 0" "length (undes_bin m) = 4"
    and "brick_bin m = replicate 256 0" "chunk_bin m = replicate 1576 0"
  shows "kl_inv m Map.empty (\<lambda>_. []) Map.empty (\<lambda>_. [])"
proof -
  have "spot Map.empty = {}" by (simp add: spot_def)
  then show ?thesis
    using assms
    by (simp add: kl_inv_def chunks_inv_def regions_ok_def lay_ok_def bins_ok_def undes_ok_def undes_def
        bricks_inv_def placed_def linked_def)
qed

lemma kl_owns_empty:
  assumes "enabled m = M_ENABLED_ON" and "kl_inv m Map.empty F Map.empty G"
  shows "kl_owns m Map.empty"
proof -
  have "payload Map.empty Map.empty = {}" by (simp add: payload_def used_def spot_def live_bricks_def)
  then show ?thesis using assms by (auto intro!: kl_ownsI coversI)
qed

lemma init_ok:
  assumes "ret \<noteq> -1"
  obtains m where "KL_init ret (kl_static ps j) = Some (0, m)" "kl_owns m Map.empty" "enabled m = M_ENABLED_ON"
    "answers m = ps" "blocks m = Map.empty" "num_undes m = 0"
proof -
  let ?m = "(snd (kl_mem_init (kl_static ps j)))\<lparr>enabled := M_ENABLED_ON\<rparr>"
  have e: "KL_init ret (kl_static ps j) = Some (0, ?m)"
    using assms by (simp add: KL_init_def KL_mallopt_def M_ENABLED_def M_NUMBER_def M_ENABLED_ON_def M_ENABLED_OFF_def)
  have f: "enabled ?m = M_ENABLED_ON" "answers ?m = ps" "blocks ?m = Map.empty" "num_undes ?m = 0"
    "undes_bin ?m = replicate 4 0" "brick_bin ?m = replicate 256 0" "chunk_bin ?m = replicate 1576 0"
    by (simp_all add: kl_mem_init_def kl_static_def UNDES_BIN_NUM_def BRICK_BIN_NUM_def CHUNK_BIN_NUM_def)
  have "kl_owns ?m Map.empty"
    by (rule kl_owns_empty [OF f(1) kl_inv_empty]) (use f in simp_all)
  then show ?thesis using that [OF e] f by simp
qed

lemma servable_fresh:
  assumes "enabled m = M_ENABLED_ON" and "answers m = p # ps" "blocks m = Map.empty" and "0 < p" "8 dvd p" "p + 262144 < SIZE_MOD"
    and "1 \<le> n" "n \<le> 262096"
  shows "servable m n"
  using assms by (simp add: servable_def supplied_def fresh_block_def)

subsection \<open>Programs\<close>

text \<open>A program that allocates, releases and writes words, and what it may do: write only inside its own
  allocations, release only what it owns, and ask for what can be served.\<close>

datatype action = Get nat | Put nat | Set nat nat

fun kl_exec :: "(kl_mem \<Rightarrow> nat \<Rightarrow> (nat \<times> kl_mem) option) \<Rightarrow> (kl_mem \<Rightarrow> nat \<Rightarrow> kl_mem option) \<Rightarrow>
    kl_mem \<Rightarrow> (nat \<rightharpoonup> nat) \<Rightarrow> action list \<Rightarrow> (kl_mem \<times> (nat \<rightharpoonup> nat)) option" where
  "kl_exec lm lf m V [] = Some (m, V)"
| "kl_exec lm lf m V (Get n # as) = do { (p, m) \<leftarrow> KL_malloc lm m n; kl_exec lm lf m (V(p \<mapsto> n)) as }"
| "kl_exec lm lf m V (Put p # as) = do { (ret, m) \<leftarrow> KL_free lf m p; kl_exec lm lf m (V(p := None)) as }"
| "kl_exec lm lf m V (Set x w # as) = do { m \<leftarrow> wrw m x w; kl_exec lm lf m V as }"

fun permitted :: "kl_mem \<Rightarrow> (nat \<rightharpoonup> nat) \<Rightarrow> action \<Rightarrow> bool" where
  "permitted m V (Get n) \<longleftrightarrow> servable m n"
| "permitted m V (Put p) \<longleftrightarrow> V p \<noteq> None"
| "permitted m V (Set x w) \<longleftrightarrow> 8 dvd x \<and> (\<exists>p n. V p = Some n \<and> p \<le> x \<and> x + 8 \<le> p + n)"

fun legal :: "(kl_mem \<Rightarrow> nat \<Rightarrow> (nat \<times> kl_mem) option) \<Rightarrow> (kl_mem \<Rightarrow> nat \<Rightarrow> kl_mem option) \<Rightarrow>
    kl_mem \<Rightarrow> (nat \<rightharpoonup> nat) \<Rightarrow> action list \<Rightarrow> bool" where
  "legal lm lf m V [] \<longleftrightarrow> True"
| "legal lm lf m V (a # as) \<longleftrightarrow> permitted m V a \<and> (\<forall>m' V'. kl_exec lm lf m V [a] = Some (m', V') \<longrightarrow> legal lm lf m' V' as)"

text \<open>One action of a program.\<close>

definition mine :: "(nat \<rightharpoonup> nat) \<Rightarrow> nat \<Rightarrow> action list \<Rightarrow> bool" where
  "mine V x as \<longleftrightarrow> (\<exists>p n. V p = Some n \<and> p \<le> x \<and> x < p + n \<and> Put p \<notin> set as)"

lemma exec_step:
  assumes o: "kl_owns m V" and a: "permitted m V a"
  obtains m' V' where "kl_exec lm lf m V [a] = Some (m', V')" "kl_owns m' V'"
    "\<forall>x. mine V x (a # as) \<longrightarrow> (\<forall>w. a \<noteq> Set x w) \<longrightarrow> heap m' x = heap m x" "\<forall>x. mine V x (a # as) \<longrightarrow> mine V' x as"
proof (cases a)
  case (Get n)
  obtain p m' where g: "KL_malloc lm m n = Some (p, m')" "V p = None" "kl_owns m' (V(p \<mapsto> n))" "\<forall>x \<in> owned V. heap m' x = heap m x"
    using kl.get_law [OF o, of n lm] a Get by auto
  show ?thesis
  proof (rule that)
    show "kl_exec lm lf m V [a] = Some (m', V(p \<mapsto> n))" using g(1) Get by simp
    show "\<forall>x. mine V x (a # as) \<longrightarrow> (\<forall>w. a \<noteq> Set x w) \<longrightarrow> heap m' x = heap m x" using g(4) unfolding mine_def owned_def by blast
    show "\<forall>x. mine V x (a # as) \<longrightarrow> mine (V(p \<mapsto> n)) x as"
    proof (intro allI impI)
      fix x assume x: "mine V x (a # as)"
      obtain q k where q: "V q = Some k" "q \<le> x" "x < q + k" "Put q \<notin> set as" using x unfolding mine_def by auto
      then have "(V(p \<mapsto> n)) q = Some k" using g(2) by auto
      then show "mine (V(p \<mapsto> n)) x as" using q unfolding mine_def by blast
    qed
  qed (use g(3) in simp)
next
  case (Put p)
  then obtain n where n: "V p = Some n" using a by auto
  obtain m' where g: "KL_free lf m p = Some (0, m')" "kl_owns m' (V(p := None))" "\<forall>x \<in> owned (V(p := None)). heap m' x = heap m x"
    using kl.put_law [OF o n, of lf] by blast
  have keep: "\<exists>q k. (V(p := None)) q = Some k \<and> q \<le> x \<and> x < q + k \<and> Put q \<notin> set as" if x: "mine V x (a # as)" for x
  proof -
    obtain q k where q: "V q = Some k" "q \<le> x" "x < q + k" "Put q \<notin> set (a # as)" using x unfolding mine_def by blast
    then have "(V(p := None)) q = Some k" "Put q \<notin> set as" using Put by auto
    then show ?thesis using q by blast
  qed
  show ?thesis
  proof (rule that)
    show "kl_exec lm lf m V [a] = Some (m', V(p := None))" using g(1) Put by simp
    show "\<forall>x. mine V x (a # as) \<longrightarrow> (\<forall>w. a \<noteq> Set x w) \<longrightarrow> heap m' x = heap m x" using keep g(3) unfolding owned_def by blast
    show "\<forall>x. mine V x (a # as) \<longrightarrow> mine (V(p := None)) x as" using keep unfolding mine_def [of "V(p := None)"] by blast
  qed (use g(2) in simp)
next
  case (Set x w)
  then obtain p n where p: "V p = Some n" "p \<le> x" "x + 8 \<le> p + n" "8 dvd x" using a by auto
  obtain m' where g: "wrw m x w = Some m'" "kl_owns m' V" "heap m' = (heap m)(x \<mapsto> w)" using kl.store_law [OF o p] by blast
  show ?thesis
  proof (rule that)
    show "kl_exec lm lf m V [a] = Some (m', V)" using g(1) Set by simp
    show "\<forall>y. mine V y (a # as) \<longrightarrow> (\<forall>w. a \<noteq> Set y w) \<longrightarrow> heap m' y = heap m y" using g(3) Set by auto
    show "\<forall>y. mine V y (a # as) \<longrightarrow> mine V y as" unfolding mine_def by auto
  qed (use g(2) in simp)
qed

lemma exec_Cons: "kl_exec lm lf m V (a # as) = do { (m, V) \<leftarrow> kl_exec lm lf m V [a]; kl_exec lm lf m V as }"
  by (cases a) (auto split: bind_splits)

text \<open>C2: A program that writes only inside its own allocations, releases only what it owns and asks for
  sizes that can be served never makes the allocator abort or access memory it does not have: every
  request returns, all allocations stay apart and aligned, and a word of an allocation changes only when
  the program writes it.\<close>
theorem programs_safe:
  assumes "kl_owns m V" and "legal lm lf m V as"
  shows "\<exists>m' V'. kl_exec lm lf m V as = Some (m', V') \<and> kl_owns m' V' \<and>
    (\<forall>p n q k. V' p = Some n \<longrightarrow> V' q = Some k \<longrightarrow> p \<noteq> q \<longrightarrow> p + n \<le> q \<or> q + k \<le> p) \<and>
    (\<forall>x. mine V x as \<longrightarrow> (\<forall>w. Set x w \<notin> set as) \<longrightarrow> heap m' x = heap m x)"
  using assms
proof (induction as arbitrary: m V)
  case Nil
  then show ?case using kl.owns_apart [OF Nil(1)] by simp
next
  case (Cons a as)
  have pa: "permitted m V a" using Cons.prems(2) by (simp only: legal.simps)
  obtain m1 V1 where 1: "kl_exec lm lf m V [a] = Some (m1, V1)" "kl_owns m1 V1"
    "\<forall>x. mine V x (a # as) \<longrightarrow> (\<forall>w. a \<noteq> Set x w) \<longrightarrow> heap m1 x = heap m x" "\<forall>x. mine V x (a # as) \<longrightarrow> mine V1 x as"
    by (rule exec_step [OF Cons.prems(1) pa])
  have l: "legal lm lf m1 V1 as" using Cons.prems(2) 1(1) unfolding legal.simps by blast
  obtain m' V' where 2: "kl_exec lm lf m1 V1 as = Some (m', V')" "kl_owns m' V'"
    "\<forall>p n q k. V' p = Some n \<longrightarrow> V' q = Some k \<longrightarrow> p \<noteq> q \<longrightarrow> p + n \<le> q \<or> q + k \<le> p"
    "\<forall>x. mine V1 x as \<longrightarrow> (\<forall>w. Set x w \<notin> set as) \<longrightarrow> heap m' x = heap m1 x"
    using Cons.IH [OF 1(2) l] by (elim exE conjE) (rule that)
  have "heap m' x = heap m x" if "mine V x (a # as)" "\<forall>w. Set x w \<notin> set (a # as)" for x
    using 1(3,4) 2(4) that by auto
  then show ?case using 1(1) 2 exec_Cons [of lm lf m V a as] by auto
qed

theorem programs_safe_witness:
  "\<exists>m m' V'. KL_init 0 (kl_static [1048576] (\<lambda>_. 0)) = Some (0, m) \<and> servable m 100 \<and>
     kl_exec (\<lambda>_ _. None) (\<lambda>_ _. None) m Map.empty [Get 100] = Some (m', V') \<and> kl_owns m' V'"
proof -
  obtain m where m: "KL_init 0 (kl_static [1048576] (\<lambda>_. 0)) = Some (0, m)" "kl_owns m Map.empty" "enabled m = M_ENABLED_ON"
    "answers m = [1048576]" "blocks m = Map.empty"
    by (rule init_ok [of 0 "[1048576]" "\<lambda>_. 0"]) simp
  have s: "servable m 100" by (rule servable_fresh [OF m(3,4,5)]) (simp_all add: SIZE_MOD_def)
  then have "legal (\<lambda>_ _. None) (\<lambda>_ _. None) m Map.empty [Get 100]" by simp
  from programs_safe [OF m(2) this] show ?thesis using m(1) s by blast
qed

end
