(* ===== verification/Kl_Api.thy ===== *)
theory Kl_Api
  imports Kl_Contract
begin

text \<open>
  The properties of \<open>KL_malloc\<close>, \<open>KL_free\<close>, \<open>KL_calloc\<close> and \<open>KL_realloc\<close>, and the requests that they
  do not serve.
\<close>

subsection \<open>Allocating and releasing\<close>

text \<open>C31: \<open>KL_malloc\<close> serves every request up to 262096 bytes and from 262113 bytes on, if the system has a
  block when one is needed: the result is aligned, it is apart from all other allocations, and these
  keep their contents.\<close>
theorem kl_malloc_correct:
  assumes "kl_owns m V" and "servable m n"
  shows "\<exists>p m'. KL_malloc lm m n = Some (p, m') \<and> p \<noteq> 0 \<and> 8 dvd p \<and> V p = None \<and> kl_owns m' (V(p \<mapsto> n)) \<and>
    (\<forall>q k. V q = Some k \<longrightarrow> p + n \<le> q \<or> q + k \<le> p) \<and> (\<forall>x \<in> owned V. heap m' x = heap m x)"
proof -
  obtain p m' where "KL_malloc lm m n = Some (p, m')" "p \<noteq> 0" "8 dvd p" "V p = None" "kl_owns m' (V(p \<mapsto> n))"
    "\<forall>x \<in> owned V. heap m' x = heap m x"
    using kl.get_law [OF assms, of lm] by (elim exE conjE) (rule that)
  then show ?thesis using kl.get_apart [OF assms, of lm p m'] by auto
qed

theorem kl_malloc_correct_witness:
  "\<exists>m p m'. KL_init 0 (kl_static [1048576] (\<lambda>_. 0)) = Some (0, m) \<and> servable m 24 \<and> servable m 5000 \<and>
     KL_malloc (\<lambda>_ _. None) m 24 = Some (p, m') \<and> p \<noteq> 0 \<and> 8 dvd p \<and> kl_owns m' [p \<mapsto> 24]"
proof -
  obtain m where m: "KL_init 0 (kl_static [1048576] (\<lambda>_. 0)) = Some (0, m)" "kl_owns m Map.empty" "enabled m = M_ENABLED_ON"
    "answers m = [1048576]" "blocks m = Map.empty"
    by (rule init_ok [of 0 "[1048576]" "\<lambda>_. 0"]) simp
  have s: "servable m 24" "servable m 5000" by (rule servable_fresh [OF m(3,4,5)]; simp add: SIZE_MOD_def)+
  from kl_malloc_correct [OF m(2) s(1), of "\<lambda>_ _. None"] show ?thesis using m(1) s by blast
qed

text \<open>C32: \<open>KL_free\<close> releases every allocation that \<open>KL_malloc\<close> has returned and that was not released before; all
  other allocations keep their place and their contents.\<close>
theorem kl_free_correct:
  assumes "kl_owns m V" and "V p = Some n"
  shows "\<exists>m'. KL_free lf m p = Some (0, m') \<and> kl_owns m' (V(p := None)) \<and> (\<forall>x \<in> owned (V(p := None)). heap m' x = heap m x)"
  by (rule kl.put_law [OF assms])

theorem kl_free_correct_witness:
  "\<exists>m p m' m''. KL_init 0 (kl_static [1048576] (\<lambda>_. 0)) = Some (0, m) \<and> KL_malloc (\<lambda>_ _. None) m 5000 = Some (p, m') \<and>
     KL_free (\<lambda>_ _. None) m' p = Some (0, m'') \<and> kl_owns m'' Map.empty"
proof -
  obtain m where m: "KL_init 0 (kl_static [1048576] (\<lambda>_. 0)) = Some (0, m)" "kl_owns m Map.empty" "enabled m = M_ENABLED_ON"
    "answers m = [1048576]" "blocks m = Map.empty"
    by (rule init_ok [of 0 "[1048576]" "\<lambda>_. 0"]) simp
  have s: "servable m 5000" by (rule servable_fresh [OF m(3,4,5)]) (simp_all add: SIZE_MOD_def)
  obtain p m' where g: "KL_malloc (\<lambda>_ _. None) m 5000 = Some (p, m')" "kl_owns m' [p \<mapsto> 5000]"
    using kl.get_law [OF m(2) s, of "\<lambda>_ _. None"] by blast
  have e: "[p \<mapsto> 5000](p := None) = Map.empty" by simp
  from kl_free_correct [OF g(2), of p 5000 "\<lambda>_ _. None"] show ?thesis using m(1) g(1) unfolding e by auto
qed

subsection \<open>Zeroed memory\<close>

definition zeroed :: "(nat \<rightharpoonup> nat) \<Rightarrow> nat \<Rightarrow> nat \<Rightarrow> bool" where
  "zeroed h p n \<longleftrightarrow>
     (\<forall>x. p \<le> x \<longrightarrow> x + 8 \<le> p + n \<longrightarrow> 8 dvd x \<longrightarrow> h x = Some 0) \<and>
     (\<forall>x. p \<le> x \<longrightarrow> x < p + n \<longrightarrow> 8 dvd x \<longrightarrow> (\<exists>w. h x = Some w \<and> (p + n < x + 8 \<longrightarrow> 2 ^ (8 * (p + n - x)) dvd w)))"

lemma memzero_mapped:
  assumes m: "\<forall>x. p \<le> x \<longrightarrow> x < p + n \<longrightarrow> 8 dvd x \<longrightarrow> heap m x \<noteq> None" and p: "8 dvd p"
  obtains H where "memzero m p n = Some (m\<lparr>heap := H\<rparr>)" "\<forall>x. x < p \<or> p + n \<le> x \<longrightarrow> H x = heap m x"
    "\<forall>x. 8 dvd x \<longrightarrow> heap m x \<noteq> None \<longrightarrow> H x \<noteq> None" "zeroed H p n"
proof -
  have "heap m (p + 8 * i) \<noteq> None" if "i < (n + 7) div 8" for i
    using m p that by auto
  then have l: "list_all (\<lambda>i. heap m (p + 8 * i) \<noteq> None) [0..<(n + 7) div 8]" by (simp add: list_all_iff)
  let ?H = "\<lambda>x. if p \<le> x \<and> x < p + n
       then map_option (\<lambda>v. if x + 8 \<le> p + n then 0 else v div 2 ^ (8 * (p + n - x)) * 2 ^ (8 * (p + n - x))) (heap m x)
       else heap m x"
  have "?H x = Some 0" if "p \<le> x" "x + 8 \<le> p + n" "8 dvd x" for x using that m by auto
  moreover have "\<exists>w. ?H x = Some w \<and> (p + n < x + 8 \<longrightarrow> 2 ^ (8 * (p + n - x)) dvd w)" if "p \<le> x" "x < p + n" "8 dvd x" for x
    using that m by (cases "heap m x") auto
  ultimately have "zeroed ?H p n" unfolding zeroed_def by blast
  moreover have "memzero m p n = Some (m\<lparr>heap := ?H\<rparr>)" unfolding memzero_def using l by simp
  ultimately show ?thesis by (intro that [of ?H]) auto
qed

text \<open>C34: \<open>KL_calloc\<close> returns an allocation of \<open>num * n\<close> bytes that are all zero, as long as the product does not
  overflow; other allocations keep their contents.\<close>
theorem kl_calloc_correct:
  assumes o: "kl_owns m V" and lim: "num * n < SIZE_MOD" and s: "servable m (num * n)"
  shows "\<exists>p m'. KL_calloc lm lc m num n = Some (p, m') \<and> V p = None \<and> 8 dvd p \<and> kl_owns m' (V(p \<mapsto> num * n)) \<and>
    zeroed (heap m') p (num * n) \<and> (\<forall>x \<in> owned V. heap m' x = heap m x)"
proof -
  let ?n = "num * n"
  have on: "enabled m = M_ENABLED_ON" using s by (simp add: servable_def)
  have mul: "mulw num n = ?n" using lim by (simp add: mulw_def)
  obtain p m1 where g: "KL_malloc lm m ?n = Some (p, m1)" "p \<noteq> 0" "8 dvd p" "V p = None" "kl_owns m1 (V(p \<mapsto> ?n))"
    "\<forall>x \<in> owned V. heap m1 x = heap m x"
    using kl.get_law [OF o s, of lm] by (elim exE conjE) (rule that)
  obtain L F B G where v: "enabled m1 = M_ENABLED_ON" "kl_inv m1 L F B G" "covers (V(p \<mapsto> ?n)) (payload L B)" by (rule kl_ownsE [OF g(5)])
  obtain k where k: "(p, k) \<in> payload L B" "?n \<le> k" by (rule kl_owns_payload [OF v(3), of p ?n]) simp_all
  obtain c t where c: "(c, t) \<in> allocs L B" "p = c + 8" "p + k \<le> c + t" using payload_alloc [OF v(2) k(1)] by metis
  have mapped: "heap m1 x \<noteq> None" if "p \<le> x" "x < p + ?n" "8 dvd x" for x
    by (rule alloc_mapped [OF v(2) c(1)]) (use that c k in auto)
  obtain H where H: "memzero m1 p ?n = Some (m1\<lparr>heap := H\<rparr>)" "\<forall>x. x < p \<or> p + ?n \<le> x \<longrightarrow> H x = heap m1 x"
    "\<forall>x. 8 dvd x \<longrightarrow> heap m1 x \<noteq> None \<longrightarrow> H x \<noteq> None" "zeroed H p ?n"
    by (rule memzero_mapped [of p ?n m1]) (use mapped g(3) in blast)+
  let ?m = "m1\<lparr>heap := H\<rparr>"
  have inv: "kl_inv ?m L F B G" by (rule payload_write [OF v(2) k(1) refl]) (use H(2,3) k(2) in auto)
  have "KL_G_SIZE ?m c = Some t" using alloc_header(1,2) [OF inv] c(1) unfolding allocs_def by blast
  moreover have "8 dvd c" "c + 8 < SIZE_MOD" "16 \<le> t" using alloc_header(3) [OF inv c(1)] by simp_all
  ultimately have "KL_calloc lm lc m num n = Some (p, ?m)"
    using on mul g(1,2) H(1) c(2) by (simp add: KL_calloc_def KL_G_ALLOC_def subw_exact)
  moreover have "kl_owns ?m (V(p \<mapsto> ?n))" by (rule kl_ownsI [OF _ inv v(3)]) (use v(1) in simp)
  moreover have "heap ?m x = heap m x" if x: "x \<in> owned V" for x
  proof -
    obtain q l where q: "V q = Some l" "q \<le> x" "x < q + l" using x unfolding owned_def by blast
    have "q \<noteq> p" using q(1) g(4) by auto
    then have "x < p \<or> p + ?n \<le> x" using kl.owns_apart [OF g(5), of p ?n q l] q by auto
    then show ?thesis using H(2) g(6) x by auto
  qed
  ultimately show ?thesis using g(3,4) H(4) by (intro exI [of _ p] exI [of _ ?m]) simp
qed

theorem kl_calloc_correct_witness:
  "\<exists>m p m'. KL_init 0 (kl_static [1048576] (\<lambda>_. 0)) = Some (0, m) \<and>
     KL_calloc (\<lambda>_ _. None) (\<lambda>_ _ _. None) m 10 5 = Some (p, m') \<and> kl_owns m' [p \<mapsto> 50] \<and> heap m' (p + 40) = Some 0"
proof -
  obtain m where m: "KL_init 0 (kl_static [1048576] (\<lambda>_. 0)) = Some (0, m)" "kl_owns m Map.empty" "enabled m = M_ENABLED_ON"
    "answers m = [1048576]" "blocks m = Map.empty"
    by (rule init_ok [of 0 "[1048576]" "\<lambda>_. 0"]) simp
  have s: "servable m (10 * 5)" by (rule servable_fresh [OF m(3,4,5)]) (simp_all add: SIZE_MOD_def)
  have l: "(10 :: nat) * 5 < SIZE_MOD" by (simp add: SIZE_MOD_def)
  obtain p m' where p: "KL_calloc (\<lambda>_ _. None) (\<lambda>_ _ _. None) m 10 5 = Some (p, m')" "8 dvd p" "kl_owns m' [p \<mapsto> 10 * 5]"
    "zeroed (heap m') p (10 * 5)"
    using kl_calloc_correct [OF m(2) l s, of "\<lambda>_ _. None" "\<lambda>_ _ _. None"] by blast
  have "heap m' (p + 40) = Some 0" using p(2,4) by (simp add: zeroed_def)
  then show ?thesis using m(1) p(1,3) by auto
qed

subsection \<open>Resizing\<close>

lemma intactD: "intact U m m' \<Longrightarrow> (q, n) \<in> U \<Longrightarrow> q \<le> x \<Longrightarrow> x < q + n \<Longrightarrow> heap m' x = heap m x"
  unfolding intact_def by blast

lemma alloc_dvd:
  assumes v: "kl_inv m L F B G" and c: "(c, t) \<in> allocs L B"
  shows "8 dvd t" "KL_G_SIZE m c = Some t"
proof -
  show "KL_G_SIZE m c = Some t" using alloc_header(1,2) [OF v] c unfolding allocs_def by blast
  show "8 dvd t"
  proof (cases "(c, t) \<in> used L")
    case True
    then have "(c, t, True) \<in> spot L" by (simp add: used_def)
    then show ?thesis using chunk_at_spot [OF kl_invD(4,5) [OF v]] by (auto simp: chunk_at_def)
  next
    case False
    then have "(c, t) \<in> live_bricks B" using c by (simp add: allocs_def)
    then show ?thesis using brick_in_block [OF v] by (metis cell_size_def dvd_triv_left)
  qed
qed

lemma memcpyw_mapped:
  assumes "\<forall>i < n div 8. heap m (d + 8 * i) \<noteq> None \<and> heap m (s + 8 * i) \<noteq> None"
  shows "memcpyw m d s n = Some (m\<lparr>heap := (\<lambda>x. if d \<le> x \<and> x < d + n then heap m (s + (x - d)) else heap m x)\<rparr>)"
proof -
  have "list_all (\<lambda>i. heap m (d + 8 * i) \<noteq> None \<and> heap m (s + 8 * i) \<noteq> None) [0..<n div 8]"
    using assms by (simp add: list_all_iff)
  then show ?thesis by (simp add: memcpyw_def)
qed

text \<open>What an allocation for \<open>n\<close> bytes is: a chunk or a brick, with the room it needs.\<close>

definition serves :: "nat \<Rightarrow> nat \<times> nat \<Rightarrow> (nat \<times> nat) set \<Rightarrow> (nat \<times> nat) set \<Rightarrow> bool" where
  "serves n a U R \<longleftrightarrow> 31 < n \<and> a \<in> U \<and> n + 16 \<le> snd a \<or> n \<le> 31 \<and> a \<in> R \<and> n + 8 \<le> snd a"

lemma realloc_room:
  assumes v: "kl_inv m L F B G" and a: "serves n (d, u) (used L) (live_bricks B)"
    and t: "8 dvd t" "t < KL_BRICK_SIZE n" and n: "n + 15 < SIZE_MOD"
  obtains j where "(d + 8, j) \<in> payload L B" "t \<le> j" "t + 8 \<le> u"
proof -
  have bs: "KL_BRICK_SIZE n = (n + 15) div 8 * 8" by (rule KL_BRICK_SIZE_eq [OF n])
  then have tb: "t + 8 \<le> KL_BRICK_SIZE n" using t by presburger
  have "8 dvd u" by (rule alloc_dvd(1) [OF v, of d]) (use a in \<open>auto simp: serves_def allocs_def\<close>)
  then have u: "n + 16 \<le> u \<Longrightarrow> KL_BRICK_SIZE n + 8 \<le> u" "n + 8 \<le> u \<Longrightarrow> KL_BRICK_SIZE n \<le> u" unfolding bs by presburger+
  from a consider "(d, u) \<in> used L" "n + 16 \<le> u" | "(d, u) \<in> live_bricks B" "n + 8 \<le> u" by (auto simp: serves_def)
  then show thesis
  proof cases
    case 1
    then have "(d + 8, u - 16) \<in> payload L B" by (force simp: payload_def)
    then show thesis using that u(1) [OF 1(2)] tb by simp
  next
    case 2
    then have "(d + 8, u - 8) \<in> payload L B" by (force simp: payload_def)
    then show thesis using that u(2) [OF 2(2)] tb by simp
  qed
qed

text \<open>Copying an allocation, header included, to another one that has room for it.\<close>

lemma copy_alloc:
  assumes v: "kl_inv m L F B G" and a: "(c, t) \<in> allocs L B" "(d, u) \<in> allocs L B"
    and j: "(d + 8, j) \<in> payload L B" "t \<le> j" "t + 8 \<le> u"
  obtains m' where "memcpyw m (d + 8) (c + 8) t = Some m'" "kl_inv m' L F B G" "enabled m' = enabled m"
    "\<forall>x. heap m' x = (if d + 8 \<le> x \<and> x < d + 8 + t then heap m (c + 8 + (x - (d + 8))) else heap m x)"
proof -
  let ?H = "\<lambda>x. if d + 8 \<le> x \<and> x < d + 8 + t then heap m (c + 8 + (x - (d + 8))) else heap m x" let ?m = "m\<lparr>heap := ?H\<rparr>"
  note ch = alloc_header(3) [OF v a(1)] and dh = alloc_header(3) [OF v a(2)]
  have src: "heap m (c + 8 + y) \<noteq> None" if "8 dvd y" "y < t" for y
    by (rule alloc_mapped [OF v a(1)]) (use that ch in auto)
  have cp: "memcpyw m (d + 8) (c + 8) t = Some ?m"
  proof (rule memcpyw_mapped, intro allI impI conjI)
    fix i assume i: "i < t div 8"
    then have it: "8 * i < t" using alloc_dvd(1) [OF v a(1)] by auto
    show "heap m (d + 8 + 8 * i) \<noteq> None" by (rule alloc_mapped [OF v a(2)]) (use it j(3) dh in auto)
    show "heap m (c + 8 + 8 * i) \<noteq> None" using src [of "8 * i"] it by simp
  qed
  have "kl_inv ?m L F B G"
  proof (rule payload_write [OF v j(1) refl])
    show "?H x \<noteq> None" if "8 dvd x" "heap m x \<noteq> None" for x
    proof (cases "d + 8 \<le> x \<and> x < d + 8 + t")
      case True
      have "8 dvd x - (d + 8)" using that(1) dh True by (metis dvd_add dvd_diff_nat dvd_refl)
      then show ?thesis using src [of "x - (d + 8)"] True by auto
    qed (use that in auto)
    show "?H x = heap m x" if "x < d + 8 \<or> d + 8 + j \<le> x" for x using that j(2) by auto
  qed
  then show thesis using that [OF cp] by simp
qed

lemma realloc_done_ok:
  assumes v: "kl_inv m L F B G" and a: "serves n (d, u) (used L) (live_bricks B)"
  shows "realloc_done m (d + 8) n = Some (d + 8, m)" "KL_G_ALLOC (d + 8) = Some d"
proof -
  have da: "(d, u) \<in> allocs L B" using a by (auto simp: serves_def allocs_def)
  note dh = alloc_header(3) [OF v da]
  show al: "KL_G_ALLOC (d + 8) = Some d" using dh by (simp add: KL_G_ALLOC_def subw_exact)
  have "KL_TYPEOF m d = Some (if n \<le> 31 then KL_BRICK else KL_CHUNK)" using a alloc_header(1,2) [OF v, of d u] by (auto simp: serves_def)
  then show "realloc_done m (d + 8) n = Some (d + 8, m)"
    using al alloc_dvd(2) [OF v da] dh by (simp add: realloc_done_def KL_brick_max_size_def kl_consts)
qed

text \<open>An allocation that is too small and not in a block of its own is copied.\<close>

lemma realloc_enters:
  assumes "enabled m = M_ENABLED_ON" "KL_G_ALLOC p = Some c" "KL_G_SIZE m c = Some t" "t \<noteq> 0" "t \<le> FIXED_MAX_SIZE" "t < KL_BRICK_SIZE n"
    and n: "n + 23 < SIZE_MOD"
  shows "KL_realloc lm lr lf m p n = realloc_copy lm lf m p n t"
proof -
  have "KL_BRICK_SIZE n \<le> KL_CHUNK_SIZE n" 
  proof -
    have "n + 15 < SIZE_MOD" using n by simp
    then show ?thesis unfolding KL_CHUNK_SIZE_eq [OF n] by (subst KL_BRICK_SIZE_eq) presburger+
  qed
  then show ?thesis using assms(1-6) by (simp add: KL_realloc_def)
qed

text \<open>The contents of the allocations of the client after new memory was obtained (\<open>m1\<close>), the allocation
  was copied there (\<open>m2\<close>) and released (\<open>m3\<close>).\<close>

lemma moved_contents:
  assumes v: "kl_inv m L F B G" "covers V (payload L B)" and v1: "kl_inv m1 L1 F1 B1 G1" "allocs L1 B1 = insert (d, u) (allocs L B)"
    and new: "\<And>k. (d, k) \<notin> allocs L B" and c: "(c, t) \<in> allocs L B" "t + 8 \<le> u"
    and i1: "intact (allocs L B) m m1" and i3: "intact (allocs L1 B1 - {(c, t)}) m2 m3"
    and h2: "\<forall>x. heap m2 x = (if d + 8 \<le> x \<and> x < d + 8 + t then heap m1 (c + 8 + (x - (d + 8))) else heap m1 x)"
  shows "V (c + 8) = Some k \<Longrightarrow> c + 8 \<le> x \<Longrightarrow> x < c + 8 + k \<Longrightarrow> heap m3 (d + 8 + (x - (c + 8))) = heap m x"
    and "x \<in> owned (V(c + 8 := None)) \<Longrightarrow> heap m3 x = heap m x"
proof -
  have ne: "c \<noteq> d" using c(1) new by auto
  show "heap m3 (d + 8 + (x - (c + 8))) = heap m x" if x: "V (c + 8) = Some k" "c + 8 \<le> x" "x < c + 8 + k"
  proof -
    obtain k' where k: "(c + 8, k') \<in> payload L B" "k \<le> k'" by (rule kl_owns_payload [OF v(2) x(1)])
    obtain c' t' where c': "(c', t') \<in> allocs L B" "c + 8 = c' + 8" "c + 8 + k' \<le> c' + t'" using payload_alloc [OF v(1) k(1)] by metis
    have "t' = t" using alloc_dvd(2) [OF v(1) c(1)] alloc_dvd(2) [OF v(1) c'(1)] c'(2) by simp
    then have b: "x - (c + 8) < t" using x c' k(2) by auto
    have "heap m3 (d + 8 + (x - (c + 8))) = heap m2 (d + 8 + (x - (c + 8)))"
      using intactD [OF i3, of d u "d + 8 + (x - (c + 8))"] v1(2) ne b c(2) by simp
    also have "\<dots> = heap m1 (c + 8 + (d + 8 + (x - (c + 8)) - (d + 8)))" unfolding spec [OF h2] by (rule if_P) (use b in simp)
    also have "\<dots> = heap m1 x" using x(2) by simp
    also have "\<dots> = heap m x" using intact_payload [OF v(1) i1 k(1)] x k(2) by simp
    finally show ?thesis .
  qed
  show "heap m3 x = heap m x" if x: "x \<in> owned (V(c + 8 := None))"
  proof -
    obtain e w where e: "(V(c + 8 := None)) e = Some w" "e \<le> x" "x < e + w" using x unfolding owned_def by blast
    then have e': "V e = Some w" "e \<noteq> c + 8" by (auto split: if_splits)
    obtain w' where w: "(e, w') \<in> payload L B" "w \<le> w'" by (rule kl_owns_payload [OF v(2) e'(1)])
    obtain a z where a: "(a, z) \<in> allocs L B" "e = a + 8" "e + w' \<le> a + z" using payload_alloc [OF v(1) w(1)] by metis
    have az: "a \<le> x" "x < a + z" "a \<noteq> c" "a \<noteq> d" using a e w(2) e'(2) new by auto
    have a1: "(a, z) \<in> allocs L1 B1" "(d, u) \<in> allocs L1 B1" using a(1) v1(2) by simp_all
    have "heap m3 x = heap m2 x" using intactD [OF i3, of a z x] a1(1) az by simp
    also have "\<dots> = heap m1 x" unfolding spec [OF h2, of x] using allocs_apart [OF v1(1) a1(2,1)] az c(2) by auto
    also have "\<dots> = heap m x" using intactD [OF i1 a(1) az(1,2)] .
    finally show ?thesis .
  qed
qed

lemma realloc_moves:
  assumes o: "kl_owns m V" and p: "V p = Some k" and t: "KL_G_SIZE m (p - 8) = Some t" "t \<le> FIXED_MAX_SIZE" "t < KL_BRICK_SIZE n"
    and s: "servable m n"
  shows "\<exists>q m'. KL_realloc lm lr lf m p n = Some (q, m') \<and> V q = None \<and> kl_owns m' (V(p := None, q \<mapsto> n)) \<and>
    (\<forall>x. p \<le> x \<longrightarrow> x < p + k \<longrightarrow> heap m' (q + (x - p)) = heap m x) \<and>
    (\<forall>x \<in> owned (V(p := None)). heap m' x = heap m x)"
proof -
  obtain L F B G where v: "enabled m = M_ENABLED_ON" "kl_inv m L F B G" "covers V (payload L B)" by (rule kl_ownsE [OF o])
  obtain k' where k: "(p, k') \<in> payload L B" "k \<le> k'" by (rule kl_owns_payload [OF v(3) p])
  obtain c t' where c': "(c, t') \<in> allocs L B" "p = c + 8" using payload_alloc [OF v(2) k(1)] by metis
  have c: "(c, t) \<in> allocs L B" "KL_G_SIZE m c = Some t" using c' alloc_dvd(2) [OF v(2) c'(1)] t(1) by simp_all
  note ch = alloc_header(3) [OF v(2) c(1)] and cd = alloc_dvd [OF v(2) c(1)]
  have lim: "n + 23 < SIZE_MOD" using s by (auto simp: servable_def SIZE_MOD_def)
  obtain d u m1 L1 F1 B1 G1 where g: "KL_malloc lm m n = Some (d + 8, m1)" "kl_inv m1 L1 F1 B1 G1"
    "31 < n \<and> used L1 = insert (d, u) (used L) \<and> live_bricks B1 = live_bricks B \<and> n + 16 \<le> u \<or>
     n \<le> 31 \<and> used L1 = used L \<and> live_bricks B1 = insert (d, u) (live_bricks B) \<and> n + 8 \<le> u"
    "\<And>k. (d, k) \<notin> allocs L B" "intact (allocs L B) m m1" "enabled m1 = enabled m"
    using kl_malloc_ok [OF v(2) s, of lm] by metis
  note cov = get_covers [OF g(2) v(2,3) g(3,4)]
  have s1: "serves n (d, u) (used L1) (live_bricks B1)" and a1: "allocs L1 B1 = insert (d, u) (allocs L B)"
    using g(3) unfolding serves_def allocs_def by auto
  have ne: "c \<noteq> d" using c(1) g(4) by auto
  obtain j where j: "(d + 8, j) \<in> payload L1 B1" "t \<le> j" "t + 8 \<le> u" using realloc_room [OF g(2) s1 cd(1) t(3)] lim by auto
  have a1': "(c, t) \<in> allocs L1 B1" "(d, u) \<in> allocs L1 B1" using a1 c(1) by simp_all
  obtain m2 where cp: "memcpyw m1 (d + 8) (c + 8) t = Some m2" "kl_inv m2 L1 F1 B1 G1" "enabled m2 = enabled m1"
    "\<forall>x. heap m2 x = (if d + 8 \<le> x \<and> x < d + 8 + t then heap m1 (c + 8 + (x - (d + 8))) else heap m1 x)"
    by (rule copy_alloc [OF g(2) a1' j])
  have on2: "enabled m2 = M_ENABLED_ON" using cp(3) g(6) v(1) by simp
  obtain m3 L3 F3 B3 G3 where f: "KL_free lf m2 (c + 8) = Some (0, m3)" "kl_inv m3 L3 F3 B3 G3"
    "used L3 = used L1 - {(c, t)}" "live_bricks B3 = live_bricks B1 - {(c, t)}" "intact (allocs L1 B1 - {(c, t)}) m2 m3" "enabled m3 = enabled m2"
    by (rule kl_free_ok [OF cp(2) on2 a1'(1)])
  have cov3: "covers ((V(d + 8 \<mapsto> n))(c + 8 := None)) (payload L3 B3)" by (rule put_covers [OF cp(2) cov(1) a1'(1) f(3,4)])
  have s3: "serves n (d, u) (used L3) (live_bricks B3)" using s1 f(3,4) ne by (auto simp: serves_def)
  have al: "KL_G_ALLOC p = Some c" using ch c'(2) by (simp add: KL_G_ALLOC_def subw_exact)
  have "realloc_copy lm lf m p n t = Some (d + 8, m3)"
    using g(1) al realloc_done_ok(2) [OF g(2) s1] alloc_dvd(2) [OF g(2) a1'(2)] j(3) cp(1) f(1) realloc_done_ok(1) [OF f(2) s3] c'(2) t(2)
    by (simp add: realloc_copy_def)
  then have "KL_realloc lm lr lf m p n = Some (d + 8, m3)" using realloc_enters [OF v(1) al cd(2) _ t(2,3) lim] ch by simp
  moreover have "(V(d + 8 \<mapsto> n))(c + 8 := None) = V(p := None, d + 8 \<mapsto> n)" using ne c'(2) by (auto simp: fun_upd_twist)
  then have "kl_owns m3 (V(p := None, d + 8 \<mapsto> n))" using kl_ownsI [OF _ f(2) cov3] f(6) on2 by simp
  ultimately show ?thesis
    using cov(2) moved_contents [OF v(2,3) g(2) a1 g(4) c(1) j(3) g(5) f(5) cp(4)] p c'(2)
    by (intro exI [of _ "d + 8"] exI [of _ m3]) simp
qed

text \<open>C33: When \<open>KL_realloc\<close> has to move an allocation of at most 262112 bytes, the new allocation has the requested
  size and starts with the contents of the old one, which is released; the others keep their contents.\<close>
theorem kl_realloc_moves:
  assumes o: "kl_owns m V" and p: "V p = Some k" and t: "KL_G_SIZE m (p - 8) = Some t" "t \<le> FIXED_MAX_SIZE" "t < KL_BRICK_SIZE n"
    and s: "servable m n"
  shows "\<exists>q m'. KL_realloc lm lr lf m p n = Some (q, m') \<and> V q = None \<and> kl_owns m' (V(p := None, q \<mapsto> n)) \<and>
    (\<forall>x. p \<le> x \<longrightarrow> x < p + k \<longrightarrow> 8 dvd x \<longrightarrow> heap m' (q + (x - p)) = heap m x) \<and>
    (\<forall>x \<in> owned (V(p := None)). heap m' x = heap m x)"
  using realloc_moves [OF assms, of lm lr lf] by blast

text \<open>Taking a brick from an undesignated block does not ask the system.\<close>

definition same_rest :: "kl_mem \<Rightarrow> kl_mem \<Rightarrow> bool" where
  "same_rest m m' \<longleftrightarrow> answers m' = answers m \<and> blocks m' = blocks m \<and> enabled m' = enabled m"

lemma same_rest_trans: "same_rest m m' \<Longrightarrow> same_rest m' m'' \<Longrightarrow> same_rest m m''"
  by (simp add: same_rest_def)

lemma wrw_rest: "wrw m x w = Some m' \<Longrightarrow> same_rest m m'"
  by (auto simp: wrw_def same_rest_def split: option.splits)

lemma list_push_rest: "list_push pf nf x h m = Some m' \<Longrightarrow> same_rest m m'"
  by (auto simp: list_push_def bind_eq_Some_conv split: if_splits dest!: wrw_rest intro: same_rest_trans)

lemma list_unlink_rest: "list_unlink pf nf x h m = Some (h', m') \<Longrightarrow> same_rest m m'"
  by (auto simp: list_unlink_def bind_eq_Some_conv same_rest_def split: if_splits dest!: wrw_rest)

lemma brick_take_rest: "brick_take m b i = Some (x, m') \<Longrightarrow> same_rest m m'"
  by (auto simp: brick_take_def brick_uncount_def brick_head_def bind_eq_Some_conv same_rest_def
      split: if_splits prod.splits dest!: wrw_rest list_unlink_rest)

lemma brick_block_init_rest: "brick_block_init m b i = Some m' \<Longrightarrow> same_rest m m'"
  by (auto simp: brick_block_init_def bind_eq_Some_conv same_rest_def dest!: wrw_rest list_push_rest)

lemma brick_get_rest:
  assumes g: "kl_brick_get m n = Some (x, m')" and a: "answers m = p # ps" "p \<noteq> 0"
  shows "same_rest m m' \<or> answers m' = ps \<and> blocks m' = (blocks m)(p \<mapsto> 262144) \<and> enabled m' = enabled m"
  using g a unfolding kl_brick_get_def designate_def kl_block_alloc_def sys_alloc_def
  by (auto simp: bind_eq_Some_conv Let_def same_rest_def kl_consts split: if_splits prod.splits dest!: brick_take_rest brick_block_init_rest)

lemma malloc_brick_rest:
  assumes v: "kl_owns m V" and n: "1 \<le> n" "n \<le> 31" and s: "servable m n" and a: "answers m = p # ps" "p \<noteq> 0"
    and g: "KL_malloc lm m n = Some (q, m')"
  shows "same_rest m m' \<or> answers m' = ps \<and> blocks m' = (blocks m)(p \<mapsto> 262144) \<and> enabled m' = enabled m" (is ?A)
    and "KL_G_SIZE m' (q - 8) = Some (KL_BRICK_SIZE n)" (is ?B)
proof -
  obtain L F B G where w: "enabled m = M_ENABLED_ON" "kl_inv m L F B G" by (rule kl_ownsE [OF v])
  have sup: "num_undes m \<noteq> 0 \<or> supplied m 262144" using s n by (auto simp: servable_def)
  obtain x m1 B1 G1 where b: "kl_brick_get m n = Some (x, m1)" "0 < x" "kl_inv m1 L F B1 G1"
    "live_bricks B1 = insert (x, KL_BRICK_SIZE n) (live_bricks B)"
    using brick_get_ok [OF w(2) n sup] by metis
  have "n \<le> ALLOC_MAX_SIZE" using alloc_max(1) [of n] n by (simp add: SIZE_MOD_def)
  then have e: "m' = m1" "q = x + 8" using g b(1,2) w(1)
    by (auto simp: KL_malloc_def malloc_checked_def BRICK_PTR_def bind_eq_Some_conv kl_consts split: if_splits)
  show ?A using brick_get_rest [OF b(1) a] e by simp
  show ?B using alloc_header(2) [OF b(3), of x "KL_BRICK_SIZE n"] b(4) e by simp
qed

theorem kl_realloc_moves_witness:
  "\<exists>m p m1 q m2. KL_init 0 (kl_static [1048576, 2097152] (\<lambda>_. 0)) = Some (0, m) \<and> KL_malloc (\<lambda>_ _. None) m 24 = Some (p, m1) \<and>
     KL_realloc (\<lambda>_ _. None) (\<lambda>_ _ _. None) (\<lambda>_ _. None) m1 p 100 = Some (q, m2) \<and> kl_owns m2 [q \<mapsto> 100] \<and>
     heap m2 (q + 16) = heap m1 (p + 16)"
proof -
  let ?l = "\<lambda>_ _. None"
  obtain m where m: "KL_init 0 (kl_static [1048576, 2097152] (\<lambda>_. 0)) = Some (0, m)" "kl_owns m Map.empty" "enabled m = M_ENABLED_ON"
    "answers m = [1048576, 2097152]" "blocks m = Map.empty"
    by (rule init_ok [of 0 "[1048576, 2097152]" "\<lambda>_. 0"]) simp
  have s: "servable m 24" by (rule servable_fresh [OF m(3,4,5)]) (simp_all add: SIZE_MOD_def)
  obtain p m1 where g: "KL_malloc ?l m 24 = Some (p, m1)" "8 dvd p" "kl_owns m1 [p \<mapsto> 24]"
    using kl.get_law [OF m(2) s, of ?l] by blast
  have n24: "(1::nat) \<le> 24" "(24::nat) \<le> 31" "(1048576::nat) \<noteq> 0" by simp_all
  note r = malloc_brick_rest [OF m(2) n24(1,2) s m(4) n24(3) g(1)]
  have on: "enabled m1 = M_ENABLED_ON" using r(1) m(3) by (auto simp: same_rest_def)
  have sup: "supplied m1 262144"
    using r(1)
  proof
    assume "same_rest m m1"
    then show ?thesis using m(4,5) by (simp add: same_rest_def supplied_def fresh_block_def SIZE_MOD_def)
  next
    assume "answers m1 = [2097152] \<and> blocks m1 = (blocks m)(1048576 \<mapsto> 262144) \<and> enabled m1 = enabled m"
    then show ?thesis using m(5) by (simp add: supplied_def fresh_block_def SIZE_MOD_def)
  qed
  have s1: "servable m1 100" using on sup by (simp add: servable_def)
  have k: "KL_BRICK_SIZE 24 = 32" "KL_BRICK_SIZE 100 = 112" by (simp_all add: KL_BRICK_SIZE_eq SIZE_MOD_def)
  have t: "(32::nat) \<le> FIXED_MAX_SIZE" "32 < KL_BRICK_SIZE 100" using k by (simp_all add: kl_consts)
  have sz: "KL_G_SIZE m1 (p - 8) = Some 32" using r(2) k by simp
  have V: "[p \<mapsto> (24::nat)] p = Some 24" by simp
  obtain q m2 where q: "KL_realloc ?l (\<lambda>_ _ _. None) ?l m1 p 100 = Some (q, m2)" "kl_owns m2 ([p \<mapsto> 24](p := None, q \<mapsto> 100))"
    "\<forall>x. p \<le> x \<longrightarrow> x < p + 24 \<longrightarrow> 8 dvd x \<longrightarrow> heap m2 (q + (x - p)) = heap m1 x"
    using kl_realloc_moves [OF g(3) V sz t s1, of ?l "\<lambda>_ _ _. None" ?l] by blast
  have "heap m2 (q + 16) = heap m1 (p + 16)" using q(3)[rule_format, of "p + 16"] g(2) by simp
  moreover have "kl_owns m2 [q \<mapsto> 100]" using q(2) by simp
  ultimately show ?thesis using m(1) g(1) q(1) by blast
qed

subsection \<open>Requests that are not served\<close>

lemma spot_footer:
  assumes "regions_ok m" and "lay_ok {} m L" and "(d, t, u) \<in> spot L"
  shows "heap m (d + t - 8) = Some (if u then 0 else t)"
  by (rule spot_range [OF assms]) simp

text \<open>C36: \<open>KL_realloc\<close> keeps a chunk in place for up to eight bytes more than it holds: the last word of the result is
  then the footer by which \<open>KL_ISINUSE\<close> tells whether the chunk is in use, and every write of a nonzero word there
  marks the chunk as free although it is in use.\<close>
theorem realloc_footer:
  assumes o: "kl_owns m V" and p: "V p = Some k" and ty: "KL_TYPEOF m (p - 8) = Some KL_CHUNK" and sz: "KL_G_SIZE m (p - 8) = Some t"
    and n: "t < n + 16" "n + 8 \<le> t"
  shows "KL_realloc lm lr lf m p n = Some (p, m) \<and> p \<le> p + t - 16 \<and> p + t - 16 < p + n \<and> KL_ISINUSE m (p - 8) = Some True \<and>
    (\<forall>w. w \<noteq> 0 \<longrightarrow> (\<exists>m'. wrw m (p + t - 16) w = Some m' \<and> KL_ISINUSE m' (p - 8) = Some False))"
proof -
  obtain L F B G where v: "enabled m = M_ENABLED_ON" "kl_inv m L F B G" "covers V (payload L B)" by (rule kl_ownsE [OF o])
  obtain k' where k: "(p, k') \<in> payload L B" by (rule kl_owns_payload [OF v(3) p])
  obtain c t' where c: "(c, t') \<in> allocs L B" "p = c + 8" using payload_alloc [OF v(2) k(1)] by metis
  have u: "(c, t) \<in> used L"
  proof -
    have "t' = t" using alloc_dvd(2) [OF v(2) c(1)] sz c(2) by simp
    moreover have "(c, t') \<notin> live_bricks B" using alloc_header(2) [OF v(2), of c t'] ty c(2) by (auto simp: KL_CHUNK_def KL_BRICK_def)
    ultimately show ?thesis using c(1) by (simp add: allocs_def)
  qed
  then have q: "(c, t, True) \<in> spot L" by (simp add: used_def)
  note at = chunk_at_spot [OF kl_invD(4,5) [OF v(2)] q] and ft = spot_footer [OF kl_invD(4,5) [OF v(2)] q, simplified]
  note d = chunk_atD [OF at]
  have e: "p + t - 16 = c + t - 8" "p - 8 = c" using c(2) d(5) by simp_all
  have bs: "KL_BRICK_SIZE n \<le> t"
  proof -
    have "8 \<le> c" using alloc_header(3) [OF v(2) c(1)] by (simp add: dvd_imp_le)
    then have "KL_BRICK_SIZE n = (n + 15) div 8 * 8" by (intro KL_BRICK_SIZE_eq) (use n d in simp)
    then show ?thesis using n(2) d(3) by presburger
  qed
  have al: "KL_G_ALLOC p = Some c" using alloc_header(3) [OF v(2) c(1)] c(2) by (simp add: KL_G_ALLOC_def subw_exact)
  have "KL_realloc lm lr lf m p n = Some (p, m)" using v(1) al sz e(2) bs d(5) by (simp add: KL_realloc_def)
  moreover have "p \<le> p + t - 16" "p + t - 16 < p + n" using d(5) n(1) by simp_all
  moreover have "KL_ISINUSE m (p - 8) = Some True" using chunk_INUSE [OF at ft] e(2) by simp
  moreover have "\<exists>m'. wrw m (p + t - 16) w = Some m' \<and> KL_ISINUSE m' (p - 8) = Some False" if w: "w \<noteq> 0" for w
  proof -
    let ?m = "m\<lparr>heap := (heap m)(c + t - 8 \<mapsto> w)\<rparr>"
    have "c \<noteq> c + t - 8" using d(5) by linarith
    then have "chunk_at ?m c t" using at by (simp add: chunk_at_def)
    then have "KL_ISINUSE ?m c = Some False" using chunk_INUSE [of ?m c t w] w by simp
    moreover have "wrw m (c + t - 8) w = Some ?m" using ft by (simp add: wrw_def)
    ultimately show ?thesis unfolding e by blast
  qed
  ultimately show ?thesis by blast
qed

lemma chunk_payload:
  assumes o: "kl_owns m V" and s: "servable m n" "31 < n" and g: "KL_malloc lm m n = Some (p, m')"
  obtains t where "KL_TYPEOF m' (p - 8) = Some KL_CHUNK" "KL_G_SIZE m' (p - 8) = Some t" "n + 16 \<le> t"
proof -
  obtain L F B G where v: "kl_inv m L F B G" by (rule kl_ownsE [OF o])
  obtain c t m1 L1 F1 B1 G1 where h: "KL_malloc lm m n = Some (c + 8, m1)" "kl_inv m1 L1 F1 B1 G1"
    "31 < n \<and> used L1 = insert (c, t) (used L) \<and> live_bricks B1 = live_bricks B \<and> n + 16 \<le> t \<or>
     n \<le> 31 \<and> used L1 = used L \<and> live_bricks B1 = insert (c, t) (live_bricks B) \<and> n + 8 \<le> t"
    using kl_malloc_ok [OF v s(1), of lm] by metis
  have "(c, t) \<in> used L1" "n + 16 \<le> t" using h(3) s(2) by auto
  then show ?thesis using that alloc_header(1) [OF h(2), of c t] h(1) g by auto
qed

theorem realloc_footer_witness:
  "\<exists>m p m1 t w m2. KL_init 0 (kl_static [1048576] (\<lambda>_. 0)) = Some (0, m) \<and> KL_malloc (\<lambda>_ _. None) m 100 = Some (p, m1) \<and>
     KL_realloc (\<lambda>_ _. None) (\<lambda>_ _ _. None) (\<lambda>_ _. None) m1 p (t - 8) = Some (p, m1) \<and>
     p + t - 16 < p + (t - 8) \<and> wrw m1 (p + t - 16) w = Some m2 \<and> KL_ISINUSE m2 (p - 8) = Some False"
proof -
  let ?l = "\<lambda>_ _. None"
  obtain m where m: "KL_init 0 (kl_static [1048576] (\<lambda>_. 0)) = Some (0, m)" "kl_owns m Map.empty" "enabled m = M_ENABLED_ON"
    "answers m = [1048576]" "blocks m = Map.empty"
    by (rule init_ok [of 0 "[1048576]" "\<lambda>_. 0"]) simp
  have s: "servable m 100" by (rule servable_fresh [OF m(3,4,5)]) (simp_all add: SIZE_MOD_def)
  obtain p m1 where g: "KL_malloc ?l m 100 = Some (p, m1)" "kl_owns m1 [p \<mapsto> 100]" using kl.get_law [OF m(2) s, of ?l] by blast
  obtain t where t: "KL_TYPEOF m1 (p - 8) = Some KL_CHUNK" "KL_G_SIZE m1 (p - 8) = Some t" "100 + 16 \<le> t"
    by (rule chunk_payload [OF m(2) s _ g(1)]) simp_all
  have V: "[p \<mapsto> (100::nat)] p = Some 100" and n: "t < t - 8 + 16" "t - 8 + 8 \<le> t" using t(3) by simp_all
  note r = realloc_footer [OF g(2) V t(1,2) n, of ?l "\<lambda>_ _ _. None" ?l]
  obtain m2 where "wrw m1 (p + t - 16) 1 = Some m2" "KL_ISINUSE m2 (p - 8) = Some False" using r by (metis zero_neq_one)
  then show ?thesis using r m(1) g(1) by blast
qed

text \<open>C37: A request of 262097 to 262112 bytes needs a block of its own, but \<open>KL_malloc\<close> asserts that such a request is larger than
  \<open>FIXED_MAX_SIZE\<close>: the program stops, although the system has supplied the memory.\<close>
theorem malloc_gap_aborts:
  assumes o: "kl_owns m V" and n: "262096 < n" "n \<le> 262112" and s: "supplied m (KL_CHUNK_SIZE n + 32)"
  shows "KL_malloc lm m n = None"
proof -
  obtain L F B G where v: "enabled m = M_ENABLED_ON" "kl_inv m L F B G" by (rule kl_ownsE [OF o])
  have lim: "n + 71 < SIZE_MOD" using n(2) by (simp add: SIZE_MOD_def)
  note mx = alloc_max [OF lim] and cs = CHUNK_SIZE_big [OF lim n(1)]
  have "kl_brick_get m n = Some (0, m)" using n(1) by (simp add: kl_brick_get_def kl_consts)
  moreover have "kl_chunk_get m n = Some (0, m)" using cs(3) by (simp add: kl_chunk_get_def kl_consts)
  moreover obtain c m' where "kl_chunk_solo m n = Some (c, m')" "0 < c" using kl_chunk_solo_ok [OF v(2) lim n(1) s] by metis
  moreover have "\<not> FIXED_MAX_SIZE < n" using n(2) by (simp add: kl_consts)
  ultimately show ?thesis using v(1) mx(1) by (simp add: KL_malloc_def)
qed

theorem malloc_gap_aborts_witness:
  "\<exists>m. KL_init 0 (kl_static [1048576] (\<lambda>_. 0)) = Some (0, m) \<and> KL_malloc (\<lambda>_ _. None) m 262100 = None \<and>
     KL_malloc (\<lambda>_ _. None) m 262096 \<noteq> None \<and> KL_malloc (\<lambda>_ _. None) m 262113 \<noteq> None"
proof -
  obtain m where m: "KL_init 0 (kl_static [1048576] (\<lambda>_. 0)) = Some (0, m)" "kl_owns m Map.empty" "enabled m = M_ENABLED_ON"
    "answers m = [1048576]" "blocks m = Map.empty"
    by (rule init_ok [of 0 "[1048576]" "\<lambda>_. 0"]) simp
  have c: "KL_CHUNK_SIZE 262100 = 262120" "KL_CHUNK_SIZE 262113 = 262136" by (simp_all add: KL_CHUNK_SIZE_eq SIZE_MOD_def)
  have "supplied m (KL_CHUNK_SIZE 262100 + 32)" using m(4,5) by (simp add: c supplied_def fresh_block_def SIZE_MOD_def)
  then have "KL_malloc (\<lambda>_ _. None) m 262100 = None" using malloc_gap_aborts [OF m(2), of 262100 "\<lambda>_ _. None"] by simp
  moreover have "servable m 262096" by (rule servable_fresh [OF m(3,4,5)]) (simp_all add: SIZE_MOD_def)
  moreover have "servable m 262113" using m(3,4,5) by (simp add: servable_def c supplied_def fresh_block_def SIZE_MOD_def)
  ultimately show ?thesis using kl.get_law [OF m(2), of _ "\<lambda>_ _. None"] m(1) by (metis option.distinct(1))
qed

text \<open>C38: \<open>KL_malloc\<close> does not report that memory has run out: when the system has no block for a large request, the size of
  the allocation at \<open>NULL\<close> is read, at the unmapped end of the address space, and the program stops.\<close>
theorem malloc_never_null:
  assumes "enabled m = M_ENABLED_ON" and n: "262096 < n" "n + 71 < SIZE_MOD" and a: "answers m = [] \<or> (\<exists>ps. answers m = 0 # ps)"
    and top: "heap m (SIZE_MOD - 8) = None"
  shows "KL_malloc lm m n = None"
proof -
  note mx = alloc_max [OF n(2)] and cs = CHUNK_SIZE_big [OF n(2,1)]
  have "kl_brick_get m n = Some (0, m)" using n(1) by (simp add: kl_brick_get_def kl_consts)
  moreover have "kl_chunk_get m n = Some (0, m)" using cs(3) by (simp add: kl_chunk_get_def kl_consts)
  moreover obtain m' where "kl_chunk_solo m n = Some (0, m')" "heap m' = heap m"
    using a cs(3,5) by (auto simp: kl_chunk_solo_def kl_block_alloc_def sys_alloc_def kl_consts)
  moreover have "malloc_checked m' 0 = None" if "heap m' = heap m" for m'
  proof -
    have "subw 0 WORD = SIZE_MOD - 8" by (simp add: subw_def SIZE_MOD_def kl_consts)
    moreover have "rdw m' (SIZE_MOD - 8) = None" using top that by (simp add: rdw_def)
    ultimately show ?thesis by (simp add: malloc_checked_def KL_G_ALLOC_def KL_G_SIZE_def KL_TYPEOF_def)
  qed
  ultimately show ?thesis using assms(1) mx(1) by (simp add: KL_malloc_def)
qed

theorem malloc_never_null_witness:
  "\<exists>m. KL_init 0 (kl_static [0] (\<lambda>_. 0)) = Some (0, m) \<and> KL_malloc (\<lambda>_ _. None) m 1000000 = None"
proof -
  obtain m where m: "KL_init 0 (kl_static [0] (\<lambda>_. 0)) = Some (0, m)" "enabled m = M_ENABLED_ON" "answers m = [0]" "heap m = Map.empty"
    by (simp add: KL_init_def KL_mallopt_def kl_mem_init_def kl_static_def M_ENABLED_def M_NUMBER_def M_ENABLED_ON_def M_ENABLED_OFF_def)
  then show ?thesis using malloc_never_null [of m 1000000 "\<lambda>_ _. None"] by (simp add: SIZE_MOD_def)
qed

end
