(* ===== verification/Kl_Layout.thy ===== *)
theory Kl_Layout
  imports Klmalloc
begin

text \<open>
  The structures of klmalloc as the compiler lays them out.  The operations of theory \<open>Klmalloc\<close>
  work on addresses; here the sizes and offsets they use are computed from the declarations of
  the structures, with the rules of the x86-64 ABI, and the checks that \<open>klmalloc.c\<close> makes at
  compile time are shown to hold.
\<close>

subsection \<open>Types of C\<close>

text \<open>\<open>Word_t\<close> is \<open>uintptr_t\<close> or a pointer, \<open>Chars n\<close> an array of characters (a flexible array
  member has none).\<close>

datatype ctype = Word_t | Chars nat | Struct "(string \<times> ctype) list" | Union "(string \<times> ctype) list"

definition round_up :: "nat \<Rightarrow> nat \<Rightarrow> nat" where
  "round_up n a = (n + a - 1) div a * a"

fun alignof :: "ctype \<Rightarrow> nat" and alignsof :: "(string \<times> ctype) list \<Rightarrow> nat" where
  "alignof Word_t = WORD"
| "alignof (Chars n) = 1"
| "alignof (Struct fs) = alignsof fs"
| "alignof (Union fs) = alignsof fs"
| "alignsof [] = 1"
| "alignsof ((f, t) # fs) = max (alignof t) (alignsof fs)"

text \<open>\<open>struct_end\<close> is the end of the members from an offset on, \<open>union_end\<close> that of the longest.\<close>

fun sizeof :: "ctype \<Rightarrow> nat" and struct_end :: "nat \<Rightarrow> (string \<times> ctype) list \<Rightarrow> nat" and union_end :: "(string \<times> ctype) list \<Rightarrow> nat" where
  "sizeof Word_t = WORD"
| "sizeof (Chars n) = n"
| "sizeof (Struct fs) = round_up (struct_end 0 fs) (alignsof fs)"
| "sizeof (Union fs) = round_up (union_end fs) (alignsof fs)"
| "struct_end x [] = x"
| "struct_end x ((f, t) # fs) = struct_end (round_up x (alignof t) + sizeof t) fs"
| "union_end [] = 0"
| "union_end ((f, t) # fs) = max (sizeof t) (union_end fs)"

fun member_at :: "nat \<Rightarrow> (string \<times> ctype) list \<Rightarrow> string \<Rightarrow> (nat \<times> ctype) option" where
  "member_at x [] g = None"
| "member_at x ((f, t) # fs) g =
     (if f = g then Some (round_up x (alignof t), t) else member_at (round_up x (alignof t) + sizeof t) fs g)"

text \<open>The offset of a member of a member.\<close>

fun offsetof :: "ctype \<Rightarrow> string list \<Rightarrow> nat option" where
  "offsetof t [] = Some 0"
| "offsetof (Struct fs) (g # gs) =
     (case member_at 0 fs g of None \<Rightarrow> None | Some (x, t) \<Rightarrow> map_option (\<lambda>y. x + y) (offsetof t gs))"
| "offsetof (Union fs) (g # gs) = (case map_of fs g of None \<Rightarrow> None | Some t \<Rightarrow> offsetof t gs)"
| "offsetof t (g # gs) = None"

subsection \<open>The declarations\<close>

definition kl_alloc :: ctype where
  "kl_alloc = Struct [(''info'', Word_t), (''raw'', Word_t)]"

definition kl_brick :: ctype where
  "kl_brick = Struct
     [(''info'', Word_t),
      (''iface'', Union [(''node'', Struct [(''next'', Word_t)]), (''raw'', Word_t)])]"

definition kl_chunk :: ctype where
  "kl_chunk = Struct
     [(''info'', Word_t),
      (''iface'', Union [(''node'', Struct [(''prev'', Word_t), (''next'', Word_t), (''footer'', Word_t)]), (''raw'', Word_t)])]"

definition kl_block :: ctype where
  "kl_block = Struct [(''_pad'', Chars BLOCK_HEADER_ALIGN), (''raw'', Chars 0)]"

definition kl_fix_block :: ctype where
  "kl_fix_block = Struct
     [(''_pad'', Chars BLOCK_HEADER_ALIGN), (''raw'', Chars FIXED_MAX_SIZE),
      (''head'', Word_t), (''prev'', Word_t), (''next'', Word_t)]"

definition kl_var_block :: ctype where
  "kl_var_block = Struct [(''_pad'', Chars BLOCK_HEADER_ALIGN), (''raw'', Chars 0)]"

text \<open>The compile time checks.\<close>

definition ct_assert :: bool where
  "ct_assert \<longleftrightarrow>
     WORD = sizeof Word_t \<and>
     MEMORY_ALLOCATION_ALIGNMENT \<ge> 2 \<and>
     MEMORY_ALLOCATION_ALIGNMENT \<ge> WORD \<and>
     0 = (MEMORY_ALLOCATION_ALIGNMENT AND (MEMORY_ALLOCATION_ALIGNMENT - 1)) \<and>
     262144 = sizeof kl_fix_block"

subsection \<open>The addresses of theory Klmalloc\<close>

lemmas layout_defs = kl_alloc_def kl_brick_def kl_chunk_def kl_block_def kl_fix_block_def kl_var_block_def round_up_def
  BLOCK_HEADER_ALIGN_def FIXED_MAX_SIZE_def BLOCK_DEFAULT_SIZE_def MEMORY_ALLOCATION_ALIGNMENT_def

lemma ct_assert_holds: "ct_assert"
  by (simp add: ct_assert_def layout_defs)

text \<open>Every address the allocator computes is that of the member the macro names, and the constants
  derived from the structures have their sizes.\<close>

lemma layout_agrees:
  "Some (BRICK_PTR x) = map_option ((+) x) (offsetof kl_brick [''iface'', ''raw''])"
  "Some (BRICK_NEXT x) = map_option ((+) x) (offsetof kl_brick [''iface'', ''node'', ''next''])"
  "Some (CHUNK_PTR x) = map_option ((+) x) (offsetof kl_chunk [''iface'', ''raw''])"
  "Some (CHUNK_PREV x) = map_option ((+) x) (offsetof kl_chunk [''iface'', ''node'', ''prev''])"
  "Some (CHUNK_NEXT x) = map_option ((+) x) (offsetof kl_chunk [''iface'', ''node'', ''next''])"
  "Some (BLOCK_PTR x) = map_option ((+) x) (offsetof kl_block [''raw''])"
  "Some (BLOCK_PTR x) = map_option ((+) x) (offsetof kl_var_block [''raw''])"
  "Some (BLOCK_HEAD x) = map_option ((+) x) (offsetof kl_fix_block [''head''])"
  "Some (BLOCK_PREV x) = map_option ((+) x) (offsetof kl_fix_block [''prev''])"
  "Some (BLOCK_NEXT x) = map_option ((+) x) (offsetof kl_fix_block [''next''])"
  "CHUNK_MIN_SIZE = sizeof kl_chunk"
  by (simp_all add: layout_defs BRICK_PTR_def BRICK_NEXT_def CHUNK_PTR_def CHUNK_PREV_def CHUNK_NEXT_def
      BLOCK_PTR_def BLOCK_HEAD_def BLOCK_PREV_def BLOCK_NEXT_def CHUNK_MIN_SIZE_def)

text \<open>An allocation, a brick and a chunk have their header and their contents in the same
  place, so that \<open>KL_G_ALLOC\<close> need not know which of them it is given; the footer of a chunk of
  the least size is the member \<open>footer\<close>.\<close>

lemma layout_common:
  "offsetof kl_alloc [''info''] = offsetof kl_brick [''info'']" "offsetof kl_alloc [''info''] = offsetof kl_chunk [''info'']"
  "offsetof kl_alloc [''raw''] = offsetof kl_brick [''iface'', ''raw'']" "offsetof kl_alloc [''raw''] = offsetof kl_chunk [''iface'', ''raw'']"
  "offsetof kl_chunk [''iface'', ''node'', ''footer''] = Some (CHUNK_MIN_SIZE - WORD)"
  by (simp_all add: layout_defs CHUNK_MIN_SIZE_def)

text \<open>The footer of a block of the default size is the member \<open>head\<close>: a block holds either bricks, and
  uses its list of free bricks, or chunks, and uses its footer.\<close>

lemma footer_is_head:
  assumes "x + BLOCK_DEFAULT_SIZE < SIZE_MOD"
  shows "BLOCK_FTR x BLOCK_DEFAULT_SIZE = BLOCK_HEAD x"
  using assms by (simp add: BLOCK_FTR_def BLOCK_HEAD_def layout_defs subw_exact addw_exact)

end
