(* ===== verification/Atomic.thy ===== *)
theory Atomic
  imports Program
begin

text \<open>
  \<open>sbma_mtouch_atomic\<close> on several ranges (\<open>src/api/mtouch.c\<close>): what the slots that it collects
  have to satisfy, and that it loads all of them together.
\<close>

subsection \<open>Slots\<close>

definition slot_beg :: "vmm \<Rightarrow> ate \<Rightarrow> slot \<Rightarrow> nat" where
  "slot_beg v a s = beg_page v a (s_addr s)"

definition slot_end :: "vmm \<Rightarrow> ate \<Rightarrow> slot \<Rightarrow> nat" where
  "slot_end v a s = end_page v a (s_addr s) (s_len s)"

text \<open>The pages of a slot that are not charged yet.\<close>

definition slot_due :: "vmm \<Rightarrow> slot \<Rightarrow> nat" where
  "slot_due v s =
     (case ate_at v (s_ate s) of
        None \<Rightarrow> 0
      | Some a \<Rightarrow> length (filter (\<lambda>f. \<not> charged f) (span (slot_beg v a s) (slot_end v a s - slot_beg v a s) (flags a))))"

definition slots_due :: "vmm \<Rightarrow> slot list \<Rightarrow> nat" where
  "slots_due v ss = sum_list (map (slot_due v) ss)"

definition slot_ok :: "vmm \<Rightarrow> slot \<Rightarrow> bool" where
  "slot_ok v s \<longleftrightarrow> (\<exists>a \<in> set (a_tbl v). addr a = s_ate s \<and> in_range v a (s_addr s) (s_len s))"

definition slots_apart :: "vmm \<Rightarrow> slot \<Rightarrow> slot \<Rightarrow> bool" where
  "slots_apart v s t \<longleftrightarrow> (\<forall>a \<in> set (a_tbl v). addr a = s_ate s \<longrightarrow> addr a = s_ate t \<longrightarrow>
     slot_end v a s \<le> slot_beg v a t \<or> slot_end v a t \<le> slot_beg v a s)"

definition slot_in :: "vmm \<Rightarrow> slot \<Rightarrow> bool" where
  "slot_in v s \<longleftrightarrow> (\<exists>a \<in> set (a_tbl v). addr a = s_ate s \<and>
     (\<forall>q. slot_beg v a s \<le> q \<longrightarrow> q < slot_end v a s \<longrightarrow> resident (flags a ! q)))"

lemma slot_page_cong:
  "same_place a a' \<Longrightarrow> page_size v' = page_size v \<Longrightarrow> slot_beg v' a' s = slot_beg v a s"
  "same_place a a' \<Longrightarrow> page_size v' = page_size v \<Longrightarrow> slot_end v' a' s = slot_end v a s"
  by (simp_all add: slot_beg_def slot_end_def beg_page_def end_page_def same_place_def)

lemma slots_places:
  assumes sp: "list_all2 same_place (a_tbl v) (a_tbl v')" and ps: "page_size v' = page_size v"
  shows "slot_ok v s \<Longrightarrow> slot_ok v' s" and "slots_apart v s t \<Longrightarrow> slots_apart v' s t"
proof -
  show "slot_ok v' s" if ok: "slot_ok v s"
  proof -
    obtain a where a: "a \<in> set (a_tbl v)" "addr a = s_ate s" "in_range v a (s_addr s) (s_len s)" using ok by (auto simp: slot_ok_def)
    have "\<exists>a'\<in>set (a_tbl v'). same_place a a'" using sp a(1) by (induction rule: list_all2_induct) auto
    then show ?thesis using a(2,3) ps by (auto simp: slot_ok_def in_range_def same_place_def region_end_def)
  qed
  show "slots_apart v' s t" if ap: "slots_apart v s t"
    unfolding slots_apart_def
  proof (intro ballI impI)
    fix a' assume a': "a' \<in> set (a_tbl v')" "addr a' = s_ate s" "addr a' = s_ate t"
    obtain a where a: "a \<in> set (a_tbl v)" "same_place a a'" using list_all2_preimage [OF sp a'(1)] by blast
    then show "slot_end v' a' s \<le> slot_beg v' a' t \<or> slot_end v' a' t \<le> slot_beg v' a' s"
      using ap a' slot_page_cong [OF a(2) ps] by (auto simp: slots_apart_def same_place_def)
  qed
qed

lemma find_put:
  "find (\<lambda>b. addr b = p) (put_ate a tbl) =
     (if p = addr a then if addr a \<in> addr ` set tbl then Some a else None else find (\<lambda>b. addr b = p) tbl)"
  by (induction tbl) (auto simp: put_ate_def)

lemma ate_at_put:
  assumes "a \<in> set (a_tbl v)" and "addr a' = addr a"
  shows "ate_at (with_ate a' v) p = (if p = addr a then Some a' else ate_at v p)"
  using assms by (auto simp: ate_at_def with_ate_def find_put)

lemma slot_due_eq:
  assumes "distinct (map addr (a_tbl v))" and "a \<in> set (a_tbl v)" and "addr a = s_ate s"
  shows "slot_due v s = length (filter (\<lambda>f. \<not> charged f) (span (slot_beg v a s) (slot_end v a s - slot_beg v a s) (flags a)))"
  using ate_at_mem [OF assms(1,2)] assms(3) by (simp add: slot_due_def)

lemma slot_range:
  assumes "slot_ok v s" and "distinct (map addr (a_tbl v))" and "a \<in> set (a_tbl v)" "addr a = s_ate s"
  shows "in_range v a (s_addr s) (s_len s)"
  using assms unfolding slot_ok_def distinct_map by (metis inj_onD)

subsection \<open>Loading the slots\<close>

text \<open>What loading pages changes: nothing but which pages are resident.\<close>

definition loading :: "vmm \<Rightarrow> 'a world_scheme \<Rightarrow> vmm \<Rightarrow> 'a world_scheme \<Rightarrow> bool" where
  "loading v w v' w' \<longleftrightarrow> v' = v\<lparr>a_tbl := a_tbl v'\<rparr> \<and> quiet w' \<and> w' = with_sys (sys w') w \<and> files (sys w') = files (sys w) \<and>
     list_all2 (\<lambda>a a'. same_place a a' \<and> (\<forall>q < n_pages a. resident (flags a ! q) \<longrightarrow> resident (flags a' ! q)) \<and>
        (\<forall>f. stored v w a f \<longrightarrow> stored v w' a' f \<and> kept (page_size v) f a f a')) (a_tbl v) (a_tbl v')"

lemma loading_refl: "quiet w \<Longrightarrow> loading v w v w"
  by (simp add: loading_def list_all2_same)

lemma loadingD:
  assumes "loading v w v' w'"
  shows "page_size v' = page_size v" "opts v' = opts v" "vipc v' = vipc v" "quiet w'" "files (sys w') = files (sys w)"
    "list_all2 same_place (a_tbl v) (a_tbl v')" "stored v' w0 = stored v w0" "alike (v\<lparr>a_tbl := a_tbl v'\<rparr>) v'"
proof -
  obtain tbl where e: "v' = v\<lparr>a_tbl := tbl\<rparr>" using assms unfolding loading_def by blast
  show "page_size v' = page_size v" "opts v' = opts v" "vipc v' = vipc v" by (simp_all add: e)
  show "stored v' w0 = stored v w0" by (simp add: e fun_eq_iff)
  show "alike (v\<lparr>a_tbl := a_tbl v'\<rparr>) v'" by (simp add: e alike_def)
  show "quiet w'" "files (sys w') = files (sys w)" using assms unfolding loading_def by blast+
  have "list_all2 (\<lambda>a a'. same_place a a' \<and> (\<forall>q < n_pages a. resident (flags a ! q) \<longrightarrow> resident (flags a' ! q)) \<and>
        (\<forall>f. stored v w a f \<longrightarrow> stored v w' a' f \<and> kept (page_size v) f a f a')) (a_tbl v) (a_tbl v')"
    using assms unfolding loading_def by blast
  then show "list_all2 same_place (a_tbl v) (a_tbl v')" by (rule list.rel_mono_strong) blast
qed

lemma loading_trans:
  assumes 1: "loading v w v1 w1" and 2: "loading v1 w1 v2 w2"
  shows "loading v w v2 w2"
proof -
  note d1 = loadingD [OF 1] and d2 = loadingD [OF 2]
  obtain t1 t2 where "v1 = v\<lparr>a_tbl := t1\<rparr>" "v2 = v1\<lparr>a_tbl := t2\<rparr>" using 1 2 unfolding loading_def by blast
  then have "v2 = v\<lparr>a_tbl := a_tbl v2\<rparr>" by simp
  moreover obtain s1 s2 where "w1 = with_sys s1 w" "w2 = with_sys s2 w1" using 1 2 unfolding loading_def by blast
  then have "w2 = with_sys (sys w2) w" by simp
  moreover have "list_all2 (\<lambda>a a'. same_place a a' \<and> (\<forall>q < n_pages a. resident (flags a ! q) \<longrightarrow> resident (flags a' ! q)) \<and>
        (\<forall>f. stored v w a f \<longrightarrow> stored v w2 a' f \<and> kept (page_size v) f a f a')) (a_tbl v) (a_tbl v2)"
  proof (rule list_all2_trans)
    show "list_all2 (\<lambda>a a'. same_place a a' \<and> (\<forall>q < n_pages a. resident (flags a ! q) \<longrightarrow> resident (flags a' ! q)) \<and>
        (\<forall>f. stored v w a f \<longrightarrow> stored v w1 a' f \<and> kept (page_size v) f a f a')) (a_tbl v) (a_tbl v1)"
      using 1 unfolding loading_def by blast
    show "list_all2 (\<lambda>a a'. same_place a a' \<and> (\<forall>q < n_pages a. resident (flags a ! q) \<longrightarrow> resident (flags a' ! q)) \<and>
        (\<forall>f. stored v1 w1 a f \<longrightarrow> stored v1 w2 a' f \<and> kept (page_size v1) f a f a')) (a_tbl v1) (a_tbl v2)"
      using 2 unfolding loading_def by blast
  qed (auto simp: d1 same_place_def intro: kept_trans)
  ultimately show ?thesis unfolding loading_def using d1(5) d2(4,5) by (intro conjI) simp_all
qed

lemma loading_put:
  assumes wf: "well_formed v w" and a: "a \<in> set (a_tbl v)" and st: "stored v w a f" and t: "mtouched v w a f b n a' w'"
  shows "loading v w (with_ate a' v) w'"
proof -
  have sp: "same_place a a'" and q: "quiet w'" and fi: "files (sys w') = files (sys w)" and w': "w' = with_sys (sys w') w"
    using t unfolding mtouched_def by blast+
  have new: "stored v w' a' f" "kept (page_size v) f a f a'" "\<forall>q < n_pages a. resident (flags a ! q) \<longrightarrow> resident (flags a' ! q)"
    using t unfolding mtouched_def by blast+
  have d: "distinct (map addr (a_tbl v))" using wf by (simp add: well_formed_def)
  have s: "stored v w' c = stored v w c" for c using fi by (simp add: stored_def fun_eq_iff)
  have "list_all2 (\<lambda>a a'. same_place a a' \<and> (\<forall>q < n_pages a. resident (flags a ! q) \<longrightarrow> resident (flags a' ! q)) \<and>
        (\<forall>f. stored v w a f \<longrightarrow> stored v w' a' f \<and> kept (page_size v) f a f a')) (a_tbl v) (put_ate a' (a_tbl v))"
    unfolding put_ate_def list.rel_map list_all2_same
  proof (intro ballI)
    fix c assume c: "c \<in> set (a_tbl v)"
    show "same_place c (if addr c = addr a' then a' else c) \<and>
        (\<forall>q < n_pages c. resident (flags c ! q) \<longrightarrow> resident (flags (if addr c = addr a' then a' else c) ! q)) \<and>
        (\<forall>g. stored v w c g \<longrightarrow> stored v w' (if addr c = addr a' then a' else c) g \<and> kept (page_size v) g c g (if addr c = addr a' then a' else c))"
    proof (cases "addr c = addr a'")
      case True
      then have "c = a" using d a c sp by (auto simp: distinct_map same_place_def dest: inj_onD)
      then show ?thesis using True sp new stored_unique [OF st] by auto
    qed (simp add: s)
  qed
  then show ?thesis unfolding loading_def using q fi w' by (simp add: with_ate_def)
qed

text \<open>Loading one slot.\<close>

lemma slot_touch_ok:
  assumes pp: "prepaid (slot_due v s + k) v w" and q: "quiet w" and pv: "plain v" and ok: "slot_ok v s"
    and room: "csum v (a_tbl v) + (slot_due v s + k) \<le> nsum v (a_tbl v)"
  obtains a r a' w' where "ate_at v (s_ate s) = Some a" "sbma_mtouch_int v w a (s_addr s) (s_len s) = Some (int r, a', w')"
    "prepaid k (with_ate a' v) w'" "loading v w (with_ate a' v) w'" "slot_in (with_ate a' v) s"
    "\<forall>t. slot_ok v t \<longrightarrow> slots_apart v s t \<longrightarrow> slot_due (with_ate a' v) t = slot_due v t"
    "csum v (put_ate a' (a_tbl v)) = csum v (a_tbl v) + slot_due v s"
proof -
  have wf: "well_formed v w" using pp by (simp add: prepaid_def)
  have d: "distinct (map addr (a_tbl v))" using wf by (simp add: well_formed_def)
  obtain a where a: "a \<in> set (a_tbl v)" "addr a = s_ate s" "in_range v a (s_addr s) (s_len s)" using ok by (auto simp: slot_ok_def)
  note e = well_formed_entry [OF wf a(1)]
  obtain f where f: "stored v w a f" using e(3) by blast
  let ?b = "slot_beg v a s" and ?n = "slot_end v a s - slot_beg v a s"
  note r = range_pages [OF a(3) e(4,5), folded slot_beg_def slot_end_def]
  note due = slot_due_eq [OF d a(1,2)]
  obtain rd a' w' where i: "sbma_mtouch_int v w a (s_addr s) (s_len s) = Some (int rd, a', w')" and t: "mtouched v w a f ?b ?n a' w'"
    using mtouch_int_ok [OF e(6) q e(2) f pv e(7,4) a(3)] unfolding slot_beg_def slot_end_def by blast
  have sp: "same_place a a'" using t by (simp add: mtouched_def)
  have ad: "addr a' = addr a" using sp by (simp add: same_place_def)
  have pp': "prepaid k (with_ate a' v) w'"
    by (rule touched_prepaid [OF _ a(1) t]) (use pp room in \<open>simp_all add: due\<close>)
  have ld: "loading v w (with_ate a' v) w'" by (rule loading_put [OF wf a(1) f t])
  have "a' \<in> set (put_ate a' (a_tbl v))" by (rule mem_put [OF a(1) ad])
  moreover have "resident (flags a' ! p)" if "?b \<le> p" "p < slot_end v a s" for p using t that unfolding mtouched_def by simp
  ultimately have si: "slot_in (with_ate a' v) s"
    using slot_page_cong [OF sp, of "with_ate a' v" v s] ad a(2) unfolding slot_in_def by auto
  have cs: "csum v (put_ate a' (a_tbl v)) = csum v (a_tbl v) + slot_due v s"
    using sums_put(1) [OF d a(1) sp] t by (simp add: mtouched_def due)
  have "slot_due (with_ate a' v) u = slot_due v u" if u: "slot_ok v u" "slots_apart v s u" for u
  proof (cases "s_ate u = addr a")
    case True
    have ua: "in_range v a (s_addr u) (s_len u)" by (rule slot_range [OF u(1) d a(1) True [symmetric]])
    note ru = range_pages [OF ua e(4,5), folded slot_beg_def slot_end_def]
    let ?c = "slot_beg v a u" and ?k = "slot_end v a u - slot_beg v a u"
    have len: "length (flags a) = n_pages a" "length (flags a') = n_pages a"
      using well_formed_counts(1) [OF wf a(1)] t sound_counts(1) [of "page_size v" f a'] by (auto simp: mtouched_def stored_def same_place_def)
    have ap: "slot_end v a s \<le> ?c \<or> slot_end v a u \<le> ?b" using u(2) a(1,2) True by (auto simp: slots_apart_def)
    have "span ?c ?k (flags a') = span ?c ?k (flags a)"
    proof (rule nth_equalityI)
      show "length (span ?c ?k (flags a')) = length (span ?c ?k (flags a))" using len by (simp add: span_def)
      fix j assume "j < length (span ?c ?k (flags a'))"
      then have j: "j < ?k" "?c + j < n_pages a" using len by (auto simp: span_def)
      have "\<not> (?b \<le> ?c + j \<and> ?c + j < ?b + ?n)" using ap j(1) r(3) by auto
      then have "flags a' ! (?c + j) = flags a ! (?c + j)" using t j(2) unfolding mtouched_def by blast
      then show "span ?c ?k (flags a') ! j = span ?c ?k (flags a) ! j" using j len by (simp add: span_def)
    qed
    moreover have "ate_at (with_ate a' v) (s_ate u) = Some a'" "ate_at v (s_ate u) = Some a"
      using ate_at_put [OF a(1) ad] True ate_at_mem [OF d a(1)] by simp_all
    ultimately show ?thesis using slot_page_cong [OF sp, of "with_ate a' v" v u] by (simp add: slot_due_def)
  next
    case False
    then show ?thesis by (simp add: slot_due_def ate_at_put [OF a(1) ad] slot_beg_def slot_end_def page_cong [of "with_ate a' v" v] cong: option.case_cong)
  qed
  then show ?thesis using that [OF _ i pp' ld si _ cs] ate_at_mem [OF d a(1)] a(2) by simp
qed

lemma slot_in_loading:
  assumes i: "slot_in v s" and ok: "slot_ok v s" and l: "loading v w v' w'" and wf: "well_formed v w"
  shows "slot_in v' s"
proof -
  have d: "distinct (map addr (a_tbl v))" using wf by (simp add: well_formed_def)
  obtain a where a: "a \<in> set (a_tbl v)" "addr a = s_ate s" "\<forall>q. slot_beg v a s \<le> q \<longrightarrow> q < slot_end v a s \<longrightarrow> resident (flags a ! q)"
    using i by (auto simp: slot_in_def)
  have r: "in_range v a (s_addr s) (s_len s)" by (rule slot_range [OF ok d a(1,2)])
  have n: "slot_end v a s \<le> n_pages a"
    using range_pages(4) [OF r well_formed_entry(4,5) [OF wf a(1)]] by (simp add: slot_end_def)
  have "list_all2 (\<lambda>a a'. same_place a a' \<and> (\<forall>q < n_pages a. resident (flags a ! q) \<longrightarrow> resident (flags a' ! q)) \<and>
        (\<forall>f. stored v w a f \<longrightarrow> stored v w' a' f \<and> kept (page_size v) f a f a')) (a_tbl v) (a_tbl v')"
    using l unfolding loading_def by blast
  then obtain a' where a': "a' \<in> set (a_tbl v')" "same_place a a'" "\<forall>q < n_pages a. resident (flags a ! q) \<longrightarrow> resident (flags a' ! q)"
    using a(1) by (induction rule: list_all2_induct) auto
  have "resident (flags a' ! q)" if "slot_beg v a s \<le> q" "q < slot_end v a s" for q using that a(3) a'(3) n by simp
  then show ?thesis
    using a' a(2) slot_page_cong [OF a'(2) loadingD(1) [OF l], of s] unfolding slot_in_def by (auto simp: same_place_def)
qed

lemma atomic_touch_ok:
  assumes "prepaid (slots_due v ss) v w" and "quiet w" and "plain v" and "list_all (slot_ok v) ss" and "sorted_wrt (slots_apart v) ss"
    and "csum v (a_tbl v) + slots_due v ss \<le> nsum v (a_tbl v)"
  shows "\<exists>rd' v' w'. atomic_touch v w ss rd = Some (True, rd', v', w') \<and> proc_ok v' w' \<and> loading v w v' w' \<and> (\<forall>s \<in> set ss. slot_in v' s)"
  using assms
proof (induction ss arbitrary: v w rd)
  case Nil
  then show ?case by (simp add: slots_due_def prepaid_0 loading_refl)
next
  case (Cons s ss)
  have due: "slots_due v (s # ss) = slot_due v s + slots_due v ss" by (simp add: slots_due_def)
  have s: "prepaid (slot_due v s + slots_due v ss) v w" "slot_ok v s" "csum v (a_tbl v) + (slot_due v s + slots_due v ss) \<le> nsum v (a_tbl v)"
    using Cons.prems(1,4,6) unfolding due by simp_all
  obtain a r a' w1 where a: "ate_at v (s_ate s) = Some a" "sbma_mtouch_int v w a (s_addr s) (s_len s) = Some (int r, a', w1)"
    "prepaid (slots_due v ss) (with_ate a' v) w1" "loading v w (with_ate a' v) w1" "slot_in (with_ate a' v) s"
    "\<forall>t. slot_ok v t \<longrightarrow> slots_apart v s t \<longrightarrow> slot_due (with_ate a' v) t = slot_due v t"
    "csum v (put_ate a' (a_tbl v)) = csum v (a_tbl v) + slot_due v s"
    by (rule slot_touch_ok [OF s(1) Cons.prems(2,3) s(2,3)])
  let ?v = "with_ate a' v"
  note ld = loadingD [OF a(4)]
  have dues: "slots_due ?v ss = slots_due v ss"
    unfolding slots_due_def by (rule arg_cong [of _ _ sum_list]) (use a(6) Cons.prems(4,5) in \<open>simp add: list_all_iff\<close>)
  have ns: "nsum ?v (a_tbl ?v) = nsum v (a_tbl v)" "csum ?v = csum v"
    using same_places(5) [OF ld(6), of v] meta_pages_cong(2,3) [OF ld(2,1)] by simp_all
  have "prepaid (slots_due ?v ss) ?v w1" unfolding dues by (rule a(3))
  moreover have "plain ?v" using Cons.prems(3) by (simp add: plain_def)
  moreover have "list_all (slot_ok ?v) ss" using Cons.prems(4) slots_places(1) [OF ld(6,1)] by (auto simp: list_all_iff)
  moreover have "sorted_wrt (slots_apart ?v) ss"
    using Cons.prems(5) slots_places(2) [OF ld(6,1)] by (auto intro: sorted_wrt_mono_rel)
  moreover have "csum ?v (a_tbl ?v) + slots_due ?v ss \<le> nsum ?v (a_tbl ?v)" using s(3) a(7) unfolding dues ns by simp
  ultimately obtain rd' v' w' where i: "atomic_touch ?v w1 ss (addw rd (as_size (int r))) = Some (True, rd', v', w')" "proc_ok v' w'"
    "loading ?v w1 v' w'" "\<forall>s \<in> set ss. slot_in v' s"
    using Cons.IH [of ?v w1 "addw rd (as_size (int r))"] ld(4) by blast
  have "slot_in v' s"
    by (rule slot_in_loading [OF a(5) slots_places(1) [OF ld(6,1) s(2)] i(3)]) (use a(3) in \<open>simp add: prepaid_def\<close>)
  then show ?case using a(1,2) i loading_trans [OF a(4) i(3)] by simp
qed

lemma atomic_probe_ok:
  assumes "well_formed v w" and "plain v" and "list_all (slot_ok v) ss" and "slots_due v ss \<le> nsum v (a_tbl v)"
    and "c + VMM_TO_SYS v w (slots_due v ss) < SIZE_MOD"
  shows "atomic_probe v w ss c = Some (True, c + VMM_TO_SYS v w (slots_due v ss))"
  using assms
proof (induction ss arbitrary: c)
  case Nil
  then show ?case by (simp add: slots_due_def VMM_TO_SYS_def mulw_def)
next
  case (Cons s ss)
  have d: "distinct (map addr (a_tbl v))" and sz: "sized v w" using Cons.prems(1) by (simp_all add: well_formed_def)
  obtain a where a: "a \<in> set (a_tbl v)" "addr a = s_ate s" "in_range v a (s_addr s) (s_len s)" using Cons.prems(3) by (auto simp: slot_ok_def)
  note e = well_formed_entry [OF Cons.prems(1) a(1)]
  obtain f where f: "stored v w a f" using e(3) by blast
  have due: "slots_due v (s # ss) = slot_due v s + slots_due v ss" by (simp add: slots_due_def)
  have t: "VMM_TO_SYS v w (slots_due v (s # ss)) = VMM_TO_SYS v w (slot_due v s) + VMM_TO_SYS v w (slots_due v ss)"
    using Cons.prems(4) by (simp add: due TO_SYS_exact [OF sz] add_mult_distrib)
  have pr: "sbma_mtouch_probe v w a (s_addr s) (s_len s) = Some (int (VMM_TO_SYS v w (slot_due v s)))"
    using mtouch_probe_ok [OF e(6) f Cons.prems(2) e(4) a(3)] slot_due_eq [OF d a(1,2)] by (simp add: slot_beg_def slot_end_def)
  have "as_size (int (VMM_TO_SYS v w (slot_due v s))) = VMM_TO_SYS v w (slot_due v s)" using sz by simp
  moreover have "addw c (VMM_TO_SYS v w (slot_due v s)) = c + VMM_TO_SYS v w (slot_due v s)" using Cons.prems(5) t by (simp add: addw_exact)
  moreover have "atomic_probe v w ss (c + VMM_TO_SYS v w (slot_due v s)) = Some (True, c + VMM_TO_SYS v w (slots_due v (s # ss)))"
    using Cons.IH [of "c + VMM_TO_SYS v w (slot_due v s)"] Cons.prems due t by simp
  moreover have "ate_at v (s_ate s) = Some a" using ate_at_mem [OF d a(1)] a(2) by simp
  ultimately show ?case using pr Cons.prems(2) by (simp add: plain_def)
qed

text \<open>Loading after admission keeps all processes consistent.\<close>

lemma loading_company:
  assumes h: "held me w w1" and al: "alike me v" and c: "c \<le> s_mem w1" and ld: "loading v (debit (iid (vipc me)) c w1) v' w'"
    and ok: "proc_ok v' w'" and al': "alike v' me'"
  shows "company me' w'" "since me w me' w'" "total w' = total w1" "inter_mtx w' = inter_mtx w1" "shape me me'"
proof -
  let ?i = "iid (vipc me)"
  have h': "company me w1" "since me w me w1" using h by (auto simp: held_def)
  note d = loadingD [OF ld]
  have ev: "page_size v = page_size me" "a_tbl v = a_tbl me" using al by (simp_all add: alike_def)
  have okm: "proc_ok me' w'" unfolding alike_proc(2) [OF al'] by (rule ok)
  obtain s where w': "w' = with_sys s (debit ?i c w1)" using ld unfolding loading_def by blast
  have id: "?i < length (c_mem w1)" using company_self [OF h'(1)] by (simp add: proc_ok_def well_formed_def wf_shm_def in_shm_def)
  have fr: "frame w1 w'" "inter_mtx w' = inter_mtx w1" using id c by (simp_all add: w' frame_def)
  have cd: "c_mem w' ! j = c_mem w1 ! j \<and> d_mem w' ! j = d_mem w1 ! j" if "j \<noteq> ?i" for j using that by (simp add: w')
  have tb: "a_tbl me' = a_tbl v'" using al' by (simp add: alike_def)
  have alm: "alike (me\<lparr>a_tbl := a_tbl me'\<rparr>) me'" using al al' d(8) by (simp add: alike_def)
  have sp: "list_all2 same_place (a_tbl me) (a_tbl me')" using d(6) ev(2) tb by simp
  show sh: "shape me me'" using alm sp by (simp add: shape_def)
  have fi: "files (sys w') = files (sys w1)" using d(5) by simp
  have "list_all2 (\<lambda>a a'. same_place a a' \<and> (\<forall>f. stored me w1 a f \<longrightarrow> (\<exists>f'. stored me w' a' f' \<and> kept (page_size me) f a f' a')))
      (a_tbl me) (a_tbl me')"
  proof -
    have st: "stored v (debit ?i c w1) = stored me w1" "stored v w' = stored me w'"
      by (simp_all add: fun_eq_iff alike_proc(4) [OF al])
    have "list_all2 (\<lambda>a a'. same_place a a' \<and> (\<forall>q < n_pages a. resident (flags a ! q) \<longrightarrow> resident (flags a' ! q)) \<and>
        (\<forall>f. stored v (debit ?i c w1) a f \<longrightarrow> stored v w' a' f \<and> kept (page_size v) f a f a')) (a_tbl v) (a_tbl v')"
      using ld unfolding loading_def by blast
    then show ?thesis unfolding st ev tb by (rule list.rel_mono_strong) blast
  qed
  then have it: "intact me w1 me' w'" by (rule intact_list [OF _ alm])
  have em: "iid (vipc me') = ?i" "n_procs (vipc me') = n_procs (vipc me)" using alm by (auto simp: alike_def)
  have "names me' = names (me\<lparr>a_tbl := a_tbl me'\<rparr>)" by (rule alike_names [OF alm])
  also have "\<dots> = names me" using arg_cong [OF same_places(2) [OF sp, of me], of set] by (simp add: names_def)
  finally have nm: "names me' = names me" .
  have "company me' w'" and s1: "since me w1 me' w'"
    by (rule company_step [OF h'(1) okm d(4) fr(1) em cd nm _ it]; use fi in simp)+
  then show "company me' w'" by blast
  show "since me w me' w'" using h'(1) by (intro since_trans [OF h'(2) s1]) (auto simp: company_def obliging_def)
  show "total w' = total w1" "inter_mtx w' = inter_mtx w1" using fr by (simp_all add: frame_def)
qed

lemma atomic_ok:
  assumes co: "company me w" and pv: "plain me" and m: "0 < inter_mtx w" and fi: "fits me w"
    and rs: "rs \<noteq> []" "fst (hd rs) \<noteq> 0" and ss: "atomic_collect me rs [] = Some ss" "list_all (slot_ok me) ss" "sorted_wrt (slots_apart me) ss"
    and room: "csum me (a_tbl me) + slots_due me ss \<le> nsum me (a_tbl me)"
  shows "\<exists>me' w'. sbma_mtouch_atomic me w rs = Some (int (VMM_TO_SYS me w (slots_due me ss)), me', w') \<and>
           company me' w' \<and> since me w me' w' \<and> total w' = total w \<and> inter_mtx w' = inter_mtx w \<and> shape me me' \<and>
           (\<forall>s \<in> set ss. slot_in me' s)"
proof -
  let ?k = "slots_due me ss" and ?i = "iid (vipc me)"
  have ok: "proc_ok me w" by (rule company_self [OF co])
  then have wf: "well_formed me w" by (simp add: proc_ok_def)
  have kn: "?k \<le> nsum me (a_tbl me)" using room by simp
  have sm: "VMM_TO_SYS me w ?k < 2147483647" by (rule sys_bound(1) [OF wf kn])
  then have sm': "0 + VMM_TO_SYS me w ?k < SIZE_MOD" by (simp add: SIZE_MOD_def)
  have pr: "atomic_probe me w ss 0 = Some (True, VMM_TO_SYS me w ?k)" using atomic_probe_ok [OF wf pv ss(2) kn sm'] by simp
  obtain v w1 where ad: "admit me w (VMM_TO_SYS me w ?k) = Some (0, v, debit ?i (VMM_TO_SYS me w ?k) w1)"
    and al: "alike me v" and h: "held me w w1" and w1: "VMM_TO_SYS me w ?k \<le> s_mem w1" "total w1 = total w" "inter_mtx w1 = inter_mtx w"
    using admit_ok [OF co m enough [OF co fi room]] by blast
  let ?w2 = "debit ?i (VMM_TO_SYS me w ?k) w1"
  have ts: "VMM_TO_SYS me w1 ?k = VMM_TO_SYS me w ?k" using h by (simp add: held_def since_def VMM_TO_SYS_def)
  have ok1: "proc_ok me w1" and q2: "quiet ?w2" using h by (simp_all add: held_def company_self company_def)
  have ev: "page_size v = page_size me" "a_tbl v = a_tbl me" "opts v = opts me" using al by (simp_all add: alike_def)
  have sl: "slot_due v = slot_due me" "slot_ok v = slot_ok me" "slots_apart v = slots_apart me"
    using ev by (simp_all add: fun_eq_iff slot_due_def slot_ok_def slots_apart_def ate_at_def slot_beg_def slot_end_def beg_page_def end_page_def in_range_def cong: option.case_cong)
  then have due: "slots_due v ss = ?k" by (simp add: slots_due_def)
  have pp: "prepaid (slots_due v ss) v ?w2" using prepaid_debit [OF ok1 _ al, of ?k] w1(1) by (simp add: ts due)
  have pv2: "plain v" using pv ev by (simp add: plain_def)
  have rm: "csum v (a_tbl v) + slots_due v ss \<le> nsum v (a_tbl v)"
    using room meta_pages_cong(2,3) [OF ev(3,1)] by (simp add: due ev)
  obtain rd v' w' where t: "atomic_touch v ?w2 ss 0 = Some (True, rd, v', w')" "proc_ok v' w'" "loading v ?w2 v' w'" "\<forall>s \<in> set ss. slot_in v' s"
    using atomic_touch_ok [OF pp q2 pv2 _ _ rm] ss(2,3) unfolding sl by blast
  let ?me = "v'\<lparr>numrd := addw (numrd v') rd\<rparr>"
  have al': "alike v' ?me" by (simp add: alike_def)
  note lc = loading_company [OF h al w1(1) t(3,2) al']
  have "sbma_mtouch_atomic me w rs = Some (int (VMM_TO_SYS me w ?k), ?me, w')"
    using rs ss(1) ok pr ad t(1,2) sm by (simp add: sbma_mtouch_atomic_def to_ssize_def)
  moreover have "slot_in ?me s \<longleftrightarrow> slot_in v' s" for s
    by (simp add: slot_in_def slot_beg_def slot_end_def beg_page_def end_page_def)
  ultimately show ?thesis using lc w1 t(4) by auto
qed

subsection \<open>Two ranges\<close>

lemma two_spans:
  assumes "b + n \<le> c" and "c + k \<le> length xs"
  shows "length (filter P (span b n xs)) + length (filter P (span c k xs)) \<le> length (filter P xs)"
proof -
  have "span b n xs = span b n (take c xs)" using assms(1) by (simp add: span_def drop_take min_def)
  then have "length (filter P (span b n xs)) \<le> length (filter P (take c xs))"
    using filter_span_split [of b n "take c xs" P] assms by simp
  then show ?thesis using filter_span_split [OF assms(2), of P] by simp
qed

lemma due_bounds:
  assumes wf: "well_formed v w" and s: "slot_ok v s" and a: "a \<in> set (a_tbl v)" "addr a = s_ate s"
  shows "slot_due v s \<le> n_pages a - c_pages a"
    and "slot_ok v t \<Longrightarrow> addr a = s_ate t \<Longrightarrow> slots_apart v s t \<Longrightarrow> slot_due v s + slot_due v t \<le> n_pages a - c_pages a"
proof -
  let ?u = "\<lambda>f. \<not> charged f"
  have d: "distinct (map addr (a_tbl v))" using wf by (simp add: well_formed_def)
  note e = well_formed_entry [OF wf a(1)] and cn = well_formed_counts [OF wf a(1)]
  have un: "length (filter ?u (flags a)) = n_pages a - c_pages a" using sum_length_filter_compl [of charged "flags a"] cn(1,2) by simp
  have r: "slot_beg v a u < slot_end v a u" "slot_end v a u \<le> n_pages a" if "slot_ok v u" "addr a = s_ate u" for u
    using range_pages(3,4) [OF slot_range [OF that(1) d a(1) that(2)] e(4,5)] by (simp_all add: slot_beg_def slot_end_def)
  show "slot_due v s \<le> n_pages a - c_pages a"
    using slot_due_eq [OF d a] r [OF s a(2)] cn(1) un
      filter_span_split [of "slot_beg v a s" "slot_end v a s - slot_beg v a s" "flags a" ?u] by simp
  show "slot_due v s + slot_due v t \<le> n_pages a - c_pages a" if t: "slot_ok v t" "addr a = s_ate t" "slots_apart v s t"
  proof -
    have "slot_end v a s \<le> slot_beg v a t \<or> slot_end v a t \<le> slot_beg v a s" using t(2,3) a by (auto simp: slots_apart_def)
    then show ?thesis
      using slot_due_eq [OF d a] slot_due_eq [OF d a(1) t(2)] r [OF s a(2)] r [OF t(1,2)] cn(1) un
        two_spans [of "slot_beg v a s" "slot_end v a s - slot_beg v a s" "slot_beg v a t" "slot_end v a t - slot_beg v a t" "flags a" ?u]
        two_spans [of "slot_beg v a t" "slot_end v a t - slot_beg v a t" "slot_beg v a s" "slot_end v a s - slot_beg v a s" "flags a" ?u]
      by auto
  qed
qed

lemma due_room:
  assumes wf: "well_formed v w" and s: "slot_ok v s"
  shows "csum v (a_tbl v) + slots_due v [s] \<le> nsum v (a_tbl v)"
    and "slot_ok v t \<Longrightarrow> slots_apart v s t \<Longrightarrow> csum v (a_tbl v) + slots_due v [s, t] \<le> nsum v (a_tbl v)"
proof -
  let ?g = "\<lambda>a. n_pages a - c_pages a"
  have d: "distinct (map addr (a_tbl v))" using wf by (simp add: well_formed_def)
  have u: "csum v (a_tbl v) + usum (a_tbl v) = nsum v (a_tbl v)" by (rule usum_csum) (rule well_formed_counts(3) [OF wf])
  have us: "usum (a_tbl v) = sum ?g (set (a_tbl v))"
    using d by (simp add: usum_def sum_list_distinct_conv_sum_set distinct_map)
  have sub: "sum ?g A \<le> usum (a_tbl v)" if "A \<subseteq> set (a_tbl v)" for A unfolding us using that by (intro sum_mono2) auto
  obtain a where a: "a \<in> set (a_tbl v)" "addr a = s_ate s" using s by (auto simp: slot_ok_def)
  show "csum v (a_tbl v) + slots_due v [s] \<le> nsum v (a_tbl v)"
    using due_bounds(1) [OF wf s a] sub [of "{a}"] a(1) u by (simp add: slots_due_def)
  show "csum v (a_tbl v) + slots_due v [s, t] \<le> nsum v (a_tbl v)" if t: "slot_ok v t" "slots_apart v s t"
  proof -
    obtain c where c: "c \<in> set (a_tbl v)" "addr c = s_ate t" using t(1) by (auto simp: slot_ok_def)
    show ?thesis
    proof (cases "c = a")
      case True
      then show ?thesis using due_bounds(2) [OF wf s a t(1) _ t(2)] c sub [of "{a}"] a(1) u by (simp add: slots_due_def)
    next
      case False
      then show ?thesis using due_bounds(1) [OF wf s a] due_bounds(1) [OF wf t(1) c] sub [of "{a, c}"] a(1) c(1) u
        by (simp add: slots_due_def)
    qed
  qed
qed

text \<open>A second range of an allocation either meets the first, and the slot grows to cover both, or
  its pages are apart from those of the first.\<close>

lemma atomic_meet_ok:
  assumes re: "region_end (page_size v) a < SIZE_MOD" and ps: "0 < page_size v" and x: "in_range v a (s_addr s) (s_len s)" and y: "in_range v a y k"
    and eq: "s_addr s = y \<Longrightarrow> s_len s \<le> k"
  shows "(\<exists>t. atomic_meet v a y k s = Some t \<and> s_ate t = s_ate s \<and> in_range v a (s_addr t) (s_len t) \<and>
            s_addr t \<le> s_addr s \<and> s_addr s + s_len s \<le> s_addr t + s_len t \<and> s_addr t \<le> y \<and> y + k \<le> s_addr t + s_len t) \<or>
         atomic_meet v a y k s = None \<and>
           (end_page v a y k \<le> beg_page v a (s_addr s) \<or> end_page v a (s_addr s) (s_len s) \<le> beg_page v a y)"
proof -
  let ?x = "s_addr s" and ?l = "s_len s"
  have b: "base a \<le> ?x" "?x + ?l \<le> region_end (page_size v) a" "0 < ?l" "base a \<le> y" "y + k \<le> region_end (page_size v) a" "0 < k"
    using x y by (auto simp: in_range_def)
  have ex: "addw ?x ?l = ?x + ?l" "addw y k = y + k" using b re by (simp_all add: addw_exact)
  have sb: "subw (?x + ?l) y = ?x + ?l - y" if "y \<le> ?x + ?l" using that b re by (intro subw_exact) auto
  have sb': "subw (y + k) ?x = y + k - ?x" if "?x \<le> y + k" using that b re by (intro subw_exact) auto
  consider (less) "y < ?x" | (same) "y = ?x" | (more) "?x < y" by linarith
  then show ?thesis
  proof cases
    case less
    then have m: "atomic_meet v a y k s =
        (if end_page v a y k \<ge> beg_page v a ?x
         then if y + k \<ge> ?x + ?l then Some (s\<lparr>s_addr := y, s_len := k\<rparr>) else Some (s\<lparr>s_addr := y, s_len := ?x + ?l - y\<rparr>)
         else None)"
      using ex sb by (simp add: atomic_meet_def end_page_def beg_page_def Let_def)
    show ?thesis using less b unfolding m by (auto simp: in_range_def)
  next
    case same
    have "beg_page v a y \<le> end_page v a y k" using range_pages(3) [OF y re ps] by simp
    then have "atomic_meet v a y k s = Some (s\<lparr>s_addr := y, s_len := k\<rparr>)"
      using ex same by (simp add: atomic_meet_def end_page_def beg_page_def Let_def)
    then show ?thesis using same b eq by (auto simp: in_range_def)
  next
    case more
    then have m: "atomic_meet v a y k s =
        (if end_page v a ?x ?l \<ge> beg_page v a y
         then if ?x + ?l \<ge> y + k then Some s else Some (s\<lparr>s_len := y + k - ?x\<rparr>)
         else None)"
      using ex sb' by (simp add: atomic_meet_def end_page_def beg_page_def Let_def)
    show ?thesis using more b unfolding m by (auto simp: in_range_def)
  qed
qed

definition range_in :: "vmm \<Rightarrow> nat \<Rightarrow> nat \<Rightarrow> bool" where
  "range_in v x len \<longleftrightarrow> (\<forall>z. x \<le> z \<longrightarrow> z < x + len \<longrightarrow>
     (\<exists>a. mmu_lookup (page_size v) (a_tbl v) z = Some a \<and> resident (flags a ! ((z - base a) div page_size v))))"

lemma slot_in_range:
  assumes wf: "well_formed v w" and s: "slot_ok v s" "slot_in v s" and x: "s_addr s \<le> x" "x + len \<le> s_addr s + s_len s"
  shows "range_in v x len"
  unfolding range_in_def
proof (intro allI impI)
  fix z assume z: "x \<le> z" "z < x + len"
  have d: "distinct (map addr (a_tbl v))" and ap: "apart (page_size v) (a_tbl v)" using wf by (simp_all add: well_formed_def)
  obtain a where a: "a \<in> set (a_tbl v)" "addr a = s_ate s" "\<forall>q. slot_beg v a s \<le> q \<longrightarrow> q < slot_end v a s \<longrightarrow> resident (flags a ! q)"
    using s(2) by (auto simp: slot_in_def)
  note e = well_formed_entry [OF wf a(1)]
  have r: "in_range v a (s_addr s) (s_len s)" by (rule slot_range [OF s(1) d a(1,2)])
  then have zr: "base a \<le> z" "z < region_end (page_size v) a" using x z by (auto simp: in_range_def)
  note p = range_pages(1,2) [OF r e(4,5), folded slot_beg_def slot_end_def]
  have "slot_beg v a s \<le> (z - base a) div page_size v" unfolding p(1) using x z by (intro div_le_mono) simp
  moreover have "(z - base a) div page_size v < slot_end v a s"
  proof -
    have "(z - base a) div page_size v \<le> (s_addr s + s_len s - base a - 1) div page_size v" using x z by (intro div_le_mono) linarith
    then show ?thesis unfolding p(2) by simp
  qed
  moreover have "mmu_lookup (page_size v) (a_tbl v) z = Some a"
    by (rule mmu_lookup_unique [OF ap a(1)]) (use zr contains_iff [OF e(4)] in simp)
  ultimately show "\<exists>a. mmu_lookup (page_size v) (a_tbl v) z = Some a \<and> resident (flags a ! ((z - base a) div page_size v))"
    using a(3) by blast
qed

lemma atomic_two:
  assumes co: "company me w" and pv: "plain me" and m: "0 < inter_mtx w" and fi: "fits me w"
    and x: "mmu_lookup (page_size me) (a_tbl me) x = Some a" "in_range me a x l" "x \<noteq> 0"
    and y: "mmu_lookup (page_size me) (a_tbl me) y = Some c" "in_range me c y k"
    and eq: "x = y \<Longrightarrow> l \<le> k"
  shows "\<exists>n me' w'. sbma_mtouch_atomic me w [(x, l), (y, k)] = Some (int n, me', w') \<and>
           company me' w' \<and> since me w me' w' \<and> total w' = total w \<and> inter_mtx w' = inter_mtx w \<and> shape me me' \<and>
           range_in me' x l \<and> range_in me' y k"
proof -
  let ?s = "\<lparr>s_dup = False, s_addr = x, s_len = l, s_ate = addr a\<rparr>"
  have wf: "well_formed me w" using company_self [OF co] by (simp add: proc_ok_def)
  have d: "distinct (map addr (a_tbl me))" using wf by (simp add: well_formed_def)
  have ac: "a \<in> set (a_tbl me)" "c \<in> set (a_tbl me)" using mmu_lookup_SomeD x(1) y(1) by blast+
  have s1: "slot_ok me ?s" using ac(1) x(2) by (auto simp: slot_ok_def)
  have result: ?thesis
    if ss: "atomic_collect me [(x, l), (y, k)] [] = Some ss" "list_all (slot_ok me) ss" "sorted_wrt (slots_apart me) ss"
      "csum me (a_tbl me) + slots_due me ss \<le> nsum me (a_tbl me)"
      and cov: "\<exists>s \<in> set ss. s_addr s \<le> x \<and> x + l \<le> s_addr s + s_len s" "\<exists>s \<in> set ss. s_addr s \<le> y \<and> y + k \<le> s_addr s + s_len s" for ss
  proof -
    obtain me' w' where r: "sbma_mtouch_atomic me w [(x, l), (y, k)] = Some (int (VMM_TO_SYS me w (slots_due me ss)), me', w')"
      "company me' w'" "since me w me' w'" "total w' = total w" "inter_mtx w' = inter_mtx w" "shape me me'" "\<forall>s \<in> set ss. slot_in me' s"
      using atomic_ok [OF co pv m fi _ _ ss] x(3) by auto
    have wf': "well_formed me' w'" using company_self [OF r(2)] by (simp add: proc_ok_def)
    have sh: "list_all2 same_place (a_tbl me) (a_tbl me')" "page_size me' = page_size me" using r(6) by (simp_all add: shape_def alike_def)
    have "range_in me' z j" if in_slot: "\<exists>s \<in> set ss. s_addr s \<le> z \<and> z + j \<le> s_addr s + s_len s" for z j
    proof -
      obtain s where s: "s \<in> set ss" "s_addr s \<le> z" "z + j \<le> s_addr s + s_len s" using in_slot by blast
      have "slot_ok me' s" by (rule slots_places(1) [OF sh]) (use s(1) ss(2) in \<open>simp add: list_all_iff\<close>)
      then show ?thesis using r(7) s by (intro slot_in_range [OF wf']) auto
    qed
    then show ?thesis using r(1-6) cov by blast
  qed
  have one: "atomic_collect me [(x, l), (y, k)] [] = atomic_collect me [(y, k)] [?s]" using x(1) by (simp add: atomic_add_def SBMA_ATOMIC_MAX_def)
  show ?thesis
  proof (cases "addr c = addr a")
    case True
    then have ca: "c = a" using d ac by (auto simp: distinct_map dest: inj_onD)
    note e = well_formed_entry [OF wf ac(1)]
    have sx: "in_range me a (s_addr ?s) (s_len ?s)" using x(2) by simp
    from atomic_meet_ok [OF e(4,5) sx y(2) [unfolded ca]] eq
    consider (meet) t where "atomic_meet me a y k ?s = Some t" "s_ate t = addr a" "in_range me a (s_addr t) (s_len t)"
        "s_addr t \<le> x" "x + l \<le> s_addr t + s_len t" "s_addr t \<le> y" "y + k \<le> s_addr t + s_len t"
      | (apart) "atomic_meet me a y k ?s = None" "end_page me a y k \<le> beg_page me a x \<or> end_page me a x l \<le> beg_page me a y"
      by auto
    then show ?thesis
    proof cases
      case meet
      have ok: "slot_ok me t" using ac(1) meet(2,3) by (auto simp: slot_ok_def)
      have "atomic_collect me [(x, l), (y, k)] [] = Some [t]" unfolding one using y(1) ca meet(1) by (simp add: atomic_add_def)
      then show ?thesis using ok meet due_room(1) [OF wf ok] by (intro result) auto
    next
      case apart
      let ?t = "\<lparr>s_dup = True, s_addr = y, s_len = k, s_ate = addr a\<rparr>"
      have ok: "slot_ok me ?t" using ac(1) y(2) ca by (auto simp: slot_ok_def)
      have ap: "slots_apart me ?s ?t"
        using apart(2) d ac(1) by (auto simp: slots_apart_def slot_beg_def slot_end_def distinct_map dest: inj_onD)
      have "atomic_collect me [(x, l), (y, k)] [] = Some [?s, ?t]"
        unfolding one using y(1) ca apart(1) by (simp add: atomic_add_def SBMA_ATOMIC_MAX_def)
      then show ?thesis using ok s1 ap due_room(2) [OF wf s1 ok ap] by (intro result) auto
    qed
  next
    case False
    let ?t = "\<lparr>s_dup = False, s_addr = y, s_len = k, s_ate = addr c\<rparr>"
    have ok: "slot_ok me ?t" using ac(2) y(2) by (auto simp: slot_ok_def)
    have ap: "slots_apart me ?s ?t" using False by (auto simp: slots_apart_def)
    have "atomic_collect me [(x, l), (y, k)] [] = Some [?s, ?t]"
      unfolding one using y(1) False by (simp add: atomic_add_def SBMA_ATOMIC_MAX_def)
    then show ?thesis using ok s1 ap due_room(2) [OF wf s1 ok ap] by (intro result) auto
  qed
qed

end
