(* ===== verification/Hooks.thy ===== *)
theory Hooks
  imports Atomic Lifecycle Klmalloc
begin

text \<open>
  The functions of the C library that the library replaces (\<open>src/api/hooks.c\<close>).  The
  first part is the search for the original functions, which needs memory before it is
  known where memory comes from, and the choice between the original functions and
  klmalloc.  The second part makes the memory that is handed to the system resident before
  the original function is called.  The original functions are parameters: those that
  allocate act on the memory of klmalloc, the others on the process and the system.
\<close>

subsection \<open>Finding the original functions\<close>

text \<open>What \<open>_libc_calloc\<close> points to.\<close>

datatype calloc_ptr = NULL_ptr | internal_ptr | libc_ptr

text \<open>The static variables: \<open>_libc_calloc\<close>, the offset of \<open>internal_calloc_ptr\<close> in
  \<open>internal_calloc_mem\<close>, and the bytes of that array.\<close>

record hooks =
  p_calloc :: calloc_ptr
  ic_off :: nat
  ic_mem :: "nat \<Rightarrow> byte"

text \<open>The dynamic linker: the address of the array, the requests that \<open>dlsym\<close> makes through
  \<open>calloc\<close> while it looks for \<open>calloc\<close>, and the names that it finds.\<close>

record linker =
  ic_base :: nat
  dl_calls :: "(nat \<times> nat) list"
  dl_found :: "string \<Rightarrow> bool"

definition IC_SIZE :: nat where "IC_SIZE = 1024 * 1024"

definition internal_calloc :: "linker \<Rightarrow> hooks \<Rightarrow> nat \<Rightarrow> nat \<Rightarrow> (nat \<times> hooks) option" where
  "internal_calloc d h num sz =
     (let n = mulw num sz; p = ic_base d + ic_off h in
      if addw p n \<le> ic_base d + IC_SIZE then do {
        ASSERT (ic_off h + n \<le> IC_SIZE);
        Some (p, h\<lparr>ic_mem := (\<lambda>i. if ic_off h \<le> i \<and> i < ic_off h + n then 0 else ic_mem h i), ic_off := ic_off h + n\<rparr>)
      }
      else Some (0, h))"

text \<open>The calls of \<open>calloc\<close> inside \<open>dlsym\<close>, with their results.\<close>

fun dlsym_calls :: "linker \<Rightarrow> (nat \<times> nat) list \<Rightarrow> hooks \<Rightarrow> (nat list \<times> hooks) option" where
  "dlsym_calls d [] h = Some ([], h)"
| "dlsym_calls d ((num, sz) # rs) h = do {
     (p, h) \<leftarrow> internal_calloc d h num sz;
     (ps, h) \<leftarrow> dlsym_calls d rs h;
     Some (p # ps, h)
   }"

definition HOOK_INIT :: "linker \<Rightarrow> string \<Rightarrow> hooks \<Rightarrow> hooks option" where
  "HOOK_INIT d func h = do {
     h \<leftarrow> (if p_calloc h = NULL_ptr then do {
             (ps, h) \<leftarrow> dlsym_calls d (dl_calls d) (h\<lparr>p_calloc := internal_ptr\<rparr>);
             ASSERT (dl_found d ''calloc'');
             Some (h\<lparr>p_calloc := libc_ptr\<rparr>)
           }
           else Some h);
     ASSERT (func = ''calloc'' \<or> dl_found d func);
     Some h
   }"

subsection \<open>Allocating\<close>

type_synonym 'r alloc = "('r \<times> hooks \<times> kl_mem) option"

definition libc_malloc :: "linker \<Rightarrow> (kl_mem \<Rightarrow> nat \<Rightarrow> (nat \<times> kl_mem) option) \<Rightarrow> hooks \<Rightarrow> kl_mem \<Rightarrow> nat \<Rightarrow> nat alloc" where
  "libc_malloc d lm h m sz = do {
     h \<leftarrow> HOOK_INIT d ''malloc'' h;
     (p, m) \<leftarrow> lm m sz;
     Some (p, h, m)
   }"

definition libc_calloc ::
  "linker \<Rightarrow> (kl_mem \<Rightarrow> nat \<Rightarrow> nat \<Rightarrow> (nat \<times> kl_mem) option) \<Rightarrow> hooks \<Rightarrow> kl_mem \<Rightarrow> nat \<Rightarrow> nat \<Rightarrow> nat alloc" where
  "libc_calloc d lc h m num sz = do {
     h \<leftarrow> HOOK_INIT d ''calloc'' h;
     if p_calloc h = internal_ptr then do { (p, h) \<leftarrow> internal_calloc d h num sz; Some (p, h, m) }
     else do { (p, m) \<leftarrow> lc m num sz; Some (p, h, m) }
   }"

definition libc_realloc ::
  "linker \<Rightarrow> (kl_mem \<Rightarrow> nat \<Rightarrow> nat \<Rightarrow> (nat \<times> kl_mem) option) \<Rightarrow> hooks \<Rightarrow> kl_mem \<Rightarrow> nat \<Rightarrow> nat \<Rightarrow> nat alloc" where
  "libc_realloc d lr h m p sz = do {
     h \<leftarrow> HOOK_INIT d ''realloc'' h;
     (q, m) \<leftarrow> lr m p sz;
     Some (q, h, m)
   }"

definition libc_free :: "linker \<Rightarrow> (kl_mem \<Rightarrow> nat \<Rightarrow> kl_mem option) \<Rightarrow> hooks \<Rightarrow> kl_mem \<Rightarrow> nat \<Rightarrow> (hooks \<times> kl_mem) option" where
  "libc_free d lf h m p = do {
     h \<leftarrow> HOOK_INIT d ''free'' h;
     m \<leftarrow> lf m p;
     Some (h, m)
   }"

text \<open>The functions of the C library as klmalloc calls them: \<open>_libc_calloc\<close> is set by then, so that
  the state of the hooks does not change.\<close>

definition in_malloc where "in_malloc d lm h m n = map_option (\<lambda>(p, _, m). (p, m)) (libc_malloc d lm h m n)"
definition in_calloc where "in_calloc d lc h m k n = map_option (\<lambda>(p, _, m). (p, m)) (libc_calloc d lc h m k n)"
definition in_realloc where "in_realloc d lr h m p n = map_option (\<lambda>(q, _, m). (q, m)) (libc_realloc d lr h m p n)"
definition in_free where "in_free d lf h m p = map_option snd (libc_free d lf h m p)"

definition hook_malloc ::
  "linker \<Rightarrow> (kl_mem \<Rightarrow> nat \<Rightarrow> (nat \<times> kl_mem) option) \<Rightarrow> cint \<Rightarrow> hooks \<Rightarrow> kl_mem \<Rightarrow> nat \<Rightarrow> nat alloc" where
  "hook_malloc d lm op h m sz = do {
     h \<leftarrow> HOOK_INIT d ''calloc'' h;
     if has op VMM_OSVMM then libc_malloc d lm h m sz
     else do { (p, m) \<leftarrow> KL_malloc (in_malloc d lm h) m sz; Some (p, h, m) }
   }"

definition hook_calloc ::
  "linker \<Rightarrow> (kl_mem \<Rightarrow> nat \<Rightarrow> (nat \<times> kl_mem) option) \<Rightarrow> (kl_mem \<Rightarrow> nat \<Rightarrow> nat \<Rightarrow> (nat \<times> kl_mem) option) \<Rightarrow>
     cint \<Rightarrow> hooks \<Rightarrow> kl_mem \<Rightarrow> nat \<Rightarrow> nat \<Rightarrow> nat alloc" where
  "hook_calloc d lm lc op h m num sz = do {
     h \<leftarrow> HOOK_INIT d ''calloc'' h;
     if p_calloc h = internal_ptr then do { (p, h) \<leftarrow> internal_calloc d h num sz; Some (p, h, m) }
     else if has op VMM_OSVMM then libc_calloc d lc h m num sz
     else do { (p, m) \<leftarrow> KL_calloc (in_malloc d lm h) (in_calloc d lc h) m num sz; Some (p, h, m) }
   }"

definition hook_realloc ::
  "linker \<Rightarrow> (kl_mem \<Rightarrow> nat \<Rightarrow> (nat \<times> kl_mem) option) \<Rightarrow> (kl_mem \<Rightarrow> nat \<Rightarrow> nat \<Rightarrow> (nat \<times> kl_mem) option) \<Rightarrow>
     (kl_mem \<Rightarrow> nat \<Rightarrow> kl_mem option) \<Rightarrow> cint \<Rightarrow> hooks \<Rightarrow> kl_mem \<Rightarrow> nat \<Rightarrow> nat \<Rightarrow> nat alloc" where
  "hook_realloc d lm lr lf op h m p sz = do {
     h \<leftarrow> HOOK_INIT d ''calloc'' h;
     if p = 0 then
       if has op VMM_OSVMM then libc_malloc d lm h m sz
       else do { (q, m) \<leftarrow> KL_malloc (in_malloc d lm h) m sz; Some (q, h, m) }
     else if has op VMM_OSVMM then libc_realloc d lr h m p sz
     else do { (q, m) \<leftarrow> KL_realloc (in_malloc d lm h) (in_realloc d lr h) (in_free d lf h) m p sz; Some (q, h, m) }
   }"

definition hook_free ::
  "linker \<Rightarrow> (kl_mem \<Rightarrow> nat \<Rightarrow> kl_mem option) \<Rightarrow> cint \<Rightarrow> hooks \<Rightarrow> kl_mem \<Rightarrow> nat \<Rightarrow> (hooks \<times> kl_mem) option" where
  "hook_free d lf op h m p = do {
     h \<leftarrow> HOOK_INIT d ''calloc'' h;
     if p = 0 then Some (h, m)
     else if ic_base d \<le> p \<and> p < ic_base d + IC_SIZE then Some (h, m)
     else if has op VMM_OSVMM then libc_free d lf h m p
     else do { (_, m) \<leftarrow> KL_free (in_free d lf h) m p; Some (h, m) }
   }"

subsection \<open>Memory that is handed to the system\<close>

type_synonym ('r, 'a) hooked = "('r \<times> hooks \<times> vmm \<times> 'a world_scheme) option"

text \<open>An original function, once it is found.\<close>

definition original ::
  "linker \<Rightarrow> string \<Rightarrow> hooks \<Rightarrow> ('r \<times> vmm \<times> 'a world_scheme) option \<Rightarrow> ('r, 'a) hooked" where
  "original d func h call = do {
     h \<leftarrow> HOOK_INIT d func h;
     (r, v, w) \<leftarrow> call;
     Some (r, h, v, w)
   }"

definition libc_memcpy where
  "libc_memcpy d libc h v w dst src num = original d ''memcpy'' h (libc v w dst src num)"

definition libc_memmove where
  "libc_memmove d libc h v w dst src num = original d ''memmove'' h (libc v w dst src num)"

definition libc_stat where
  "libc_stat d libc h v w path buf = original d ''stat'' h (libc v w path buf)"

definition libc_xstat where
  "libc_xstat d libc h v w ver path buf = original d ''__xstat'' h (libc v w ver path buf)"

definition libc_read where
  "libc_read d libc h v w (fd :: int) buf count = original d ''read'' h (libc v w fd buf count)"

definition libc_write where
  "libc_write d libc h v w (fd :: int) buf count = original d ''write'' h (libc v w fd buf count)"

definition libc_fread where
  "libc_fread d libc h v w buf sz num stream = original d ''fread'' h (libc v w buf sz num stream)"

definition libc_fwrite where
  "libc_fwrite d libc h v w buf sz num stream = original d ''fwrite'' h (libc v w buf sz num stream)"

definition libc_mlock where
  "libc_mlock d libc h v w x len = original d ''mlock'' h (libc v w x len)"

definition libc_mlockall where
  "libc_mlockall d libc h v w (fl :: int) = original d ''mlockall'' h (libc v w fl)"

definition libc_msync where
  "libc_msync d libc h v w x len (fl :: int) = original d ''msync'' h (libc v w x len fl)"

definition O_CREAT :: nat where "O_CREAT = 64"

definition libc_open where
  "libc_open d libc h v w path fl (mode :: nat) =
     original d ''open'' h (libc v w path fl (if O_CREAT = (fl AND O_CREAT) then mode else 0))"

text \<open>Loading a buffer if it belongs to an allocation.\<close>

definition touch_buf :: "vmm \<Rightarrow> 'a world_scheme \<Rightarrow> nat \<Rightarrow> nat \<Rightarrow> (vmm \<times> 'a world_scheme) option" where
  "touch_buf v w buf len =
     (if sbma_mexist v buf = 1 then do {
        (ret, v, w) \<leftarrow> sbma_mtouch v w None buf len;
        ASSERT (ret \<noteq> -1);
        Some (v, w)
      }
      else Some (v, w))"

text \<open>\<open>memset\<close> with 0 is a sequence of stores, \<open>strlen\<close> a sequence of loads.\<close>

fun memset0 :: "vmm \<Rightarrow> 'a world_scheme \<Rightarrow> nat \<Rightarrow> nat \<Rightarrow> (vmm \<times> 'a world_scheme) option" where
  "memset0 v w x 0 = Some (v, w)"
| "memset0 v w x (Suc n) = do { (v, w) \<leftarrow> store v w x 0; memset0 v w (x + 1) n }"

partial_function (option) c_strlen :: "vmm \<Rightarrow> 'a world_scheme \<Rightarrow> nat \<Rightarrow> (nat \<times> vmm \<times> 'a world_scheme) option" where
  "c_strlen v w x = do {
     (b, v, w) \<leftarrow> load v w x;
     if b = 0 then Some (0, v, w)
     else do { (n, v, w) \<leftarrow> c_strlen v w (x + 1); Some (n + 1, v, w) }
   }"

definition touch_path :: "vmm \<Rightarrow> 'a world_scheme \<Rightarrow> nat \<Rightarrow> (vmm \<times> 'a world_scheme) option" where
  "touch_path v w path =
     (if sbma_mexist v path = 1 then do {
        (n, v, w) \<leftarrow> c_strlen v w path;
        (ret, v, w) \<leftarrow> sbma_mtouch v w None path n;
        ASSERT (ret \<noteq> -1);
        Some (v, w)
      }
      else Some (v, w))"

text \<open>Loading source and destination, which \<open>memcpy\<close> and \<open>memmove\<close> do in the same way.\<close>

definition touch_both :: "vmm \<Rightarrow> 'a world_scheme \<Rightarrow> nat \<Rightarrow> nat \<Rightarrow> nat \<Rightarrow> (vmm \<times> 'a world_scheme) option" where
  "touch_both v w dst src num =
     (if sbma_mexist v dst = 1 \<and> sbma_mexist v src = 1 then do {
        (ret, v, w) \<leftarrow> sbma_mtouch_atomic v w [(dst, num), (src, num)];
        ASSERT (ret \<noteq> -1);
        Some (v, w)
      }
      else do {
        (v, w) \<leftarrow> touch_buf v w dst num;
        touch_buf v w src num
      })"

definition hook_memcpy where
  "hook_memcpy d libc h v w dst src num = do {
     h \<leftarrow> HOOK_INIT d ''calloc'' h;
     (v, w) \<leftarrow> touch_both v w dst src num;
     libc_memcpy d libc h v w dst src num
   }"

definition hook_memmove where
  "hook_memmove d libc h v w dst src num = do {
     h \<leftarrow> HOOK_INIT d ''calloc'' h;
     (v, w) \<leftarrow> touch_both v w dst src num;
     libc_memmove d libc h v w dst src num
   }"

definition hook_mallinfo where
  "hook_mallinfo d h v w = do {
     h \<leftarrow> HOOK_INIT d ''calloc'' h;
     i \<leftarrow> sbma_mallinfo v w;
     Some (i, h)
   }"

text \<open>\<open>sizeof(struct stat)\<close>.\<close>

definition STAT_SIZE :: nat where "STAT_SIZE = 144"

definition hook_stat where
  "hook_stat d libc h v w path buf = do {
     (v, w) \<leftarrow> touch_path v w path;
     (v, w) \<leftarrow> touch_buf v w buf STAT_SIZE;
     libc_stat d libc h v w path buf
   }"

definition hook_xstat where
  "hook_xstat d libc h v w ver path buf = do {
     (v, w) \<leftarrow> touch_path v w path;
     (v, w) \<leftarrow> touch_buf v w buf STAT_SIZE;
     libc_xstat d libc h v w ver path buf
   }"

text \<open>\<open>open\<close> and \<open>libc_open\<close> both take the mode from the variable arguments only when the file
  may be created.\<close>

definition hook_open where
  "hook_open d libc h v w path fl (mode :: nat) = do {
     (v, w) \<leftarrow> touch_path v w path;
     libc_open d libc h v w path fl (if O_CREAT = (fl AND O_CREAT) then mode else 0)
   }"

text \<open>Loading a buffer that the system will fill, and writing zeros to it.\<close>

definition fill_buf :: "vmm \<Rightarrow> 'a world_scheme \<Rightarrow> nat \<Rightarrow> nat \<Rightarrow> (vmm \<times> 'a world_scheme) option" where
  "fill_buf v w buf n =
     (if sbma_mexist v buf = 1 then do {
        (ret, v, w) \<leftarrow> sbma_mtouch v w None buf n;
        ASSERT (ret \<noteq> -1);
        memset0 v w buf n
      }
      else Some (v, w))"

definition hook_read where
  "hook_read d libc h v w (fd :: int) buf count = do {
     (v, w) \<leftarrow> fill_buf v w buf count;
     libc_read d libc h v w fd buf count
   }"

definition hook_write where
  "hook_write d libc h v w (fd :: int) buf count = do {
     (v, w) \<leftarrow> touch_buf v w buf count;
     libc_write d libc h v w fd buf count
   }"

definition hook_fread where
  "hook_fread d libc h v w buf sz num stream = do {
     (v, w) \<leftarrow> fill_buf v w buf (mulw sz num);
     libc_fread d libc h v w buf sz num stream
   }"

definition hook_fwrite where
  "hook_fwrite d libc h v w buf sz num stream = do {
     (v, w) \<leftarrow> touch_buf v w buf sz;
     libc_fwrite d libc h v w buf sz num stream
   }"

definition hook_mlock where
  "hook_mlock d libc h v w x len = do {
     (ret, v, w) \<leftarrow> sbma_mtouch v w None x len;
     ASSERT (ret \<noteq> -1);
     libc_mlock d libc h v w x len
   }"

definition hook_mlockall where
  "hook_mlockall d libc h v w (fl :: int) = do {
     (ret, v, w) \<leftarrow> sbma_mtouchall v w;
     ASSERT (ret \<noteq> -1);
     libc_mlockall d libc h v w fl
   }"

definition hook_msync where
  "hook_msync d libc h v w x len (fl :: int) =
     (if sbma_mexist v x = 0 then libc_msync d libc h v w x len fl
      else do {
        (ret, v, w) \<leftarrow> sbma_mevict v w x len;
        Some (if ret = -1 then -1 else 0 :: int, h, v, w)
      })"

subsection \<open>Pages\<close>

text \<open>The status byte of the page of an address.\<close>

definition page_at :: "vmm \<Rightarrow> nat \<Rightarrow> byte option" where
  "page_at v z = map_option (\<lambda>a. flags a ! ((z - base a) div page_size v)) (mmu_lookup (page_size v) (a_tbl v) z)"

definition pages_are :: "(byte \<Rightarrow> bool) \<Rightarrow> vmm \<Rightarrow> nat \<Rightarrow> nat \<Rightarrow> bool" where
  "pages_are P v x n \<longleftrightarrow> (\<forall>z. x \<le> z \<longrightarrow> z < x + n \<longrightarrow> (\<exists>f. page_at v z = Some f \<and> P f))"

lemma range_in_pages: "range_in v x n \<longleftrightarrow> pages_are resident v x n"
  by (auto simp: range_in_def pages_are_def page_at_def)

lemma page_at_put:
  assumes wf: "well_formed v w" and wf': "well_formed v' w'" and l: "mmu_lookup (page_size v) (a_tbl v) x = Some a"
    and sp: "same_place a a'" and al: "alike (with_ate a' v) v'"
  shows "page_at v' z = (if mmu_lookup (page_size v) (a_tbl v) z = Some a then Some (flags a' ! ((z - base a) div page_size v)) else page_at v z)"
proof -
  have a: "a \<in> set (a_tbl v)" by (rule lookup_page [OF wf l])
  have d: "distinct (map addr (a_tbl v))" using wf by (simp add: well_formed_def)
  have sh: "shape v v'" by (rule shape_put [OF a d sp al])
  have e: "page_size v' = page_size v" "a_tbl v' = put_ate a' (a_tbl v)" using al by (simp_all add: alike_def with_ate_def)
  from lookup_place [OF wf wf' sh, of z] show ?thesis
  proof (cases rule: option.rel_cases)
    case None
    then show ?thesis by (simp add: page_at_def)
  next
    case (Some c c')
    have c: "c \<in> set (a_tbl v)" "c' \<in> set (put_ate a' (a_tbl v))" using mmu_lookup_SomeD [OF Some(1)] mmu_lookup_SomeD [OF Some(2)] e by auto
    have ad: "addr c' = addr c" "addr a' = addr a" "base c' = base c" "base a' = base a" using Some(3) sp by (simp_all add: same_place_def)
    show ?thesis
    proof (cases "c = a")
      case True
      then have "c' = a'" using set_put_ate [OF c(2)] ad by auto
      then show ?thesis using Some True ad e(1) by (simp add: page_at_def)
    next
      case False
      then have "addr c \<noteq> addr a" using d a c(1) by (auto simp: distinct_map dest: inj_onD)
      then have "c' \<in> set (a_tbl v)" using set_put_ate [OF c(2)] ad by auto
      then have "c' = c" using d c(1) ad(1) by (auto simp: distinct_map dest: inj_onD)
      then show ?thesis using Some False e(1) by (simp add: page_at_def)
    qed
  qed
qed

text \<open>Resident pages can be read, and those that are dirty can be written.\<close>

definition prot_at :: "vmm \<Rightarrow> nat \<Rightarrow> prot option" where
  "prot_at v z = map_option (\<lambda>a. prots a ! ((z - base a) div page_size v)) (mmu_lookup (page_size v) (a_tbl v) z)"

lemma page_prot:
  assumes "sys_ok v w" and "page_at v z = Some f"
  shows "prot_at v z = Some (prot_of f)"
  using prot_flag [OF sys_okD(4) [OF assms(1)]] assms(2) by (auto simp: page_at_def prot_at_def)

subsection \<open>Loading a buffer\<close>

text \<open>The processes see the same memory.\<close>

definition same_view :: "vmm \<Rightarrow> 'a world_scheme \<Rightarrow> vmm \<Rightarrow> 'a world_scheme \<Rightarrow> bool" where
  "same_view v w v' w' \<longleftrightarrow> sys_ok v' w' \<and> memories v' w' = memories v w \<and> regions v' w' = regions v w \<and>
     iid (vipc v') = iid (vipc v) \<and> n_procs (vipc v') = n_procs (vipc v)"

lemma same_view_refl: "sys_ok v w \<Longrightarrow> same_view v w v w"
  by (simp add: same_view_def)

lemma same_view_step:
  assumes "sys_ok v w" and "company v' w'" "since v w v' w'" "shape v v'" "total w' = total w" "inter_mtx w' = inter_mtx w"
  shows "same_view v w v' w'"
  using sys_step [OF assms] assms(4) by (simp add: same_view_def shape_def alike_def)

text \<open>A buffer inside an allocation of the running process.\<close>

definition buffer :: "vmm \<Rightarrow> 'a world_scheme \<Rightarrow> nat \<Rightarrow> nat \<Rightarrow> bool" where
  "buffer v w x n \<longleftrightarrow> 0 < n \<and> (\<exists>lo hi. regions v w (iid (vipc v)) x = Some (lo, hi) \<and> x + n \<le> hi)"

lemma bufferD:
  assumes "sys_ok v w" and "buffer v w x n"
  obtains a f where "mmu_lookup (page_size v) (a_tbl v) x = Some a" "stored v w a f" "in_range v a x n"
  using allowed_range [OF assms(1)] assms(2) unfolding buffer_def by blast

lemma buffer_view: "same_view v w v' w' \<Longrightarrow> buffer v' w' x n = buffer v w x n"
  by (simp add: buffer_def same_view_def)

lemma buffer_exists: "sys_ok v w \<Longrightarrow> vinit v \<noteq> 0 \<Longrightarrow> buffer v w x n \<Longrightarrow> sbma_mexist v x = 1"
  by (erule (1) bufferD) (simp add: sbma_mexist_def)

lemma mtouch_loads:
  assumes ok: "sys_ok v w" and l: "mmu_lookup (page_size v) (a_tbl v) x = Some a" and r: "in_range v a x n"
  obtains k v' w' where "sbma_mtouch v w None x n = Some (k, v', w')" "k \<noteq> -1" "same_view v w v' w'" "pages_are resident v' x n"
    "\<forall>z. mmu_lookup (page_size v) (a_tbl v) z = Some a \<longrightarrow> end_page v a x n \<le> (z - base a) div page_size v \<longrightarrow> page_at v' z = page_at v z"
proof -
  note o = sys_okD [OF ok]
  have a: "a \<in> set (a_tbl v)" by (rule lookup_page [OF o(4) l])
  note e = well_formed_entry [OF o(4) a]
  obtain f where f: "stored v w a f" using e(3) by blast
  define b k where "b = beg_page v a x" and "k = end_page v a x n - b"
  note rp = range_pages [OF r e(4,5)]
  have bn: "b + k \<le> n_pages a" "b + k = end_page v a x n" using rp(3,4) by (simp_all add: b_def k_def)
  obtain j v' w' where t: "sbma_mtouch v w None x n = Some (int j, v', w')" "touch_post v w a f b k v' w'"
    using mtouch_ok [OF o(1,5,2) _ f r b_def k_def refl enough [OF o(1,6) uncharged_room [OF o(4) a bn(1)]], of None] l by blast
  then obtain a' where a': "alike (with_ate a' v) v'" "same_place a a'" "\<forall>q. b \<le> q \<and> q < b + k \<longrightarrow> resident (flags a' ! q)"
    "\<forall>q < n_pages a. \<not> (b \<le> q \<and> q < b + k) \<longrightarrow> flags a' ! q = flags a ! q"
    unfolding touch_post_def by blast
  have d: "distinct (map addr (a_tbl v))" "apart (page_size v) (a_tbl v)" using o(4) by (simp_all add: well_formed_def)
  have sh: "shape v v'" by (rule shape_put [OF a d(1) a'(2,1)])
  have sv: "same_view v w v' w'" using t(2) sh unfolding touch_post_def by (intro same_view_step [OF ok]) auto
  then have "sys_ok v' w'" by (simp add: same_view_def)
  then have wf': "well_formed v' w'" by (rule sys_okD)
  note pp = page_at_put [OF o(4) wf' l a'(2,1)]
  have "pages_are resident v' x n"
    unfolding pages_are_def
  proof (intro allI impI)
    fix z assume z: "x \<le> z" "z < x + n"
    have "mmu_lookup (page_size v) (a_tbl v) z = Some a"
      by (rule mmu_lookup_unique [OF d(2) a]) (use z r contains_iff [OF e(4)] in \<open>simp add: in_range_def\<close>)
    moreover have "b \<le> (z - base a) div page_size v" unfolding b_def rp(1) using z by (intro div_le_mono) simp
    moreover have "(z - base a) div page_size v < b + k"
    proof -
      have "(z - base a) div page_size v \<le> (x + n - base a - 1) div page_size v" using z by (intro div_le_mono) linarith
      then show ?thesis unfolding bn(2) rp(2) by simp
    qed
    ultimately show "\<exists>f. page_at v' z = Some f \<and> resident f" using pp [of z] a'(3) by simp
  qed
  moreover have "page_at v' z = page_at v z" if "mmu_lookup (page_size v) (a_tbl v) z = Some a" "end_page v a x n \<le> (z - base a) div page_size v" for z
    using pp [of z] that a'(4) lookup_page(5) [OF o(4) that(1)] bn(2) by (simp add: page_at_def)
  ultimately show ?thesis using that [OF t(1) _ sv] by simp
qed

lemma touch_buf_ok:
  assumes "sys_ok v w" and "vinit v \<noteq> 0" and "buffer v w x n"
  obtains v' w' where "touch_buf v w x n = Some (v', w')" "same_view v w v' w'" "pages_are resident v' x n"
proof -
  obtain a where a: "mmu_lookup (page_size v) (a_tbl v) x = Some a" "in_range v a x n" by (rule bufferD [OF assms(1,3)])
  obtain k v' w' where "sbma_mtouch v w None x n = Some (k, v', w')" "k \<noteq> -1" "same_view v w v' w'" "pages_are resident v' x n"
    by (rule mtouch_loads [OF assms(1) a])
  then show ?thesis using that buffer_exists [OF assms] by (simp add: touch_buf_def)
qed

subsection \<open>Writing to resident pages\<close>

text \<open>What is resident stays resident, and what can be written stays so.\<close>

definition further :: "vmm \<Rightarrow> vmm \<Rightarrow> bool" where
  "further v v' \<longleftrightarrow> (\<forall>z f. page_at v z = Some f \<longrightarrow> resident f \<longrightarrow>
     (\<exists>g. page_at v' z = Some g \<and> resident g \<and> (dirty f \<longrightarrow> dirty g)))"

lemma further_refl: "further v v"
  by (simp add: further_def)

lemma further_trans: "further v v1 \<Longrightarrow> further v1 v2 \<Longrightarrow> further v v2"
  unfolding further_def by meson

lemma further_pages:
  "further v v' \<Longrightarrow> pages_are resident v x n \<Longrightarrow> pages_are resident v' x n"
  "further v v' \<Longrightarrow> pages_are (\<lambda>f. resident f \<and> dirty f) v x n \<Longrightarrow> pages_are (\<lambda>f. resident f \<and> dirty f) v' x n"
  unfolding further_def pages_are_def by meson+

text \<open>The running process writes \<open>b\<close> at \<open>x\<close>; the others keep their memory.\<close>

definition view_with :: "vmm \<Rightarrow> 'a world_scheme \<Rightarrow> (nat \<Rightarrow> byte option) \<Rightarrow> vmm \<Rightarrow> 'a world_scheme \<Rightarrow> bool" where
  "view_with v w M v' w' \<longleftrightarrow> sys_ok v' w' \<and> memories v' w' = (memories v w)(iid (vipc v) := M) \<and> regions v' w' = regions v w \<and>
     iid (vipc v') = iid (vipc v) \<and> n_procs (vipc v') = n_procs (vipc v)"

lemma store_dirty_page:
  assumes ok: "sys_ok v w" and l: "mmu_lookup (page_size v) (a_tbl v) x = Some a"
    and r: "resident (flags a ! ((x - base a) div page_size v))" "dirty (flags a ! ((x - base a) div page_size v))"
  obtains v' where "store v w x b = Some (v', w)" "view_with v w ((memories v w (iid (vipc v)))(x \<mapsto> b)) v' w" "further v v'"
    "pages_are (\<lambda>f. resident f \<and> dirty f) v' x 1"
proof -
  let ?v = "with_ate (stored_byte (x - base a) b a) v"
  note s = store_dirty [OF ok l r refl, of b]
  have wf: "well_formed v w" "well_formed ?v w" using sys_okD(4) [OF ok] sys_okD(4) [OF s(2)] by simp_all
  have pp: "page_at ?v z = page_at v z" for z
    using page_at_put [OF wf l, of "stored_byte (x - base a) b a" z] by (simp add: same_place_def alike_def page_at_def)
  have "pages_are (\<lambda>f. resident f \<and> dirty f) ?v x 1" unfolding pages_are_def pp using l r by (auto simp: page_at_def less_Suc_eq_le)
  moreover have "further v ?v" unfolding further_def pp by blast
  moreover have "view_with v w ((memories v w (iid (vipc v)))(x \<mapsto> b)) ?v w" unfolding view_with_def using s by blast
  ultimately show ?thesis using that s(1) by blast
qed

lemma store_page:
  assumes ok: "sys_ok v w" and p: "page_at v x = Some f" "resident f"
  obtains v' w' where "store v w x b = Some (v', w')" "view_with v w ((memories v w (iid (vipc v)))(x \<mapsto> b)) v' w'" "further v v'"
    "pages_are (\<lambda>f. resident f \<and> dirty f) v' x 1"
proof -
  obtain a where l: "mmu_lookup (page_size v) (a_tbl v) x = Some a" and fa: "f = flags a ! ((x - base a) div page_size v)"
    using p(1) by (auto simp: page_at_def)
  let ?ip = "(x - base a) div page_size v"
  show ?thesis
  proof (cases "dirty f")
    case True
    then show ?thesis using store_dirty_page [OF ok l, of b] p(2) that unfolding fa by blast
  next
    case False
    note o = sys_okD [OF ok]
    note lp = lookup_page [OF o(4) l]
    have nw: "\<not> writable (prots a ! ?ip)"
      using p(2) False by (simp add: prot_flag [OF o(4) l] prot_of_def writable_def fa)
    obtain g where g: "stored v w a g" using well_formed_entry(3) [OF o(4) lp(1)] by blast
    obtain v1 w1 where s: "vmm_sigsegv v w x = Some (v1, w1)" "company v1 w1" "since v w v1 w1" "total w1 = total w"
      "inter_mtx w1 = inter_mtx w" "alike (with_ate (dirtied ?ip a) v) v1"
      using sigsegv_write_ok [OF o(1) l g refl] p(2) False unfolding fa by blast
    have d: "distinct (map addr (a_tbl v))" using o(4) by (simp add: well_formed_def)
    have sp: "same_place a (dirtied ?ip a)" by (simp add: same_place_def)
    have sh: "shape v v1" by (rule shape_put [OF lp(1) d sp s(6)])
    have sv: "same_view v w v1 w1" by (rule same_view_step [OF ok s(2,3) sh s(4,5)])
    then have ok1: "sys_ok v1 w1" by (simp add: same_view_def)
    note pp = page_at_put [OF o(4) sys_okD(4) [OF ok1] l sp s(6)]
    have len: "?ip < length (flags a)" using lp(5) well_formed_counts(1) [OF o(4) lp(1)] by simp
    have f1: "further v v1"
      unfolding further_def
    proof (intro allI impI)
      fix z h assume z: "page_at v z = Some h" "resident h"
      show "\<exists>g. page_at v1 z = Some g \<and> resident g \<and> (dirty h \<longrightarrow> dirty g)"
      proof (cases "mmu_lookup (page_size v) (a_tbl v) z = Some a")
        case True
        then have h: "h = flags a ! ((z - base a) div page_size v)" using z(1) by (simp add: page_at_def)
        show ?thesis using pp [of z] True z(2) len unfolding h by (auto simp: nth_list_update)
      qed (use pp [of z] z in simp)
    qed
    have "page_at v1 x = Some MMU_DIRTY" using pp [of x] l len by simp
    then obtain a1 where l1: "mmu_lookup (page_size v1) (a_tbl v1) x = Some a1" "flags a1 ! ((x - base a1) div page_size v1) = MMU_DIRTY"
      by (auto simp: page_at_def)
    have r1: "resident (flags a1 ! ((x - base a1) div page_size v1))" "dirty (flags a1 ! ((x - base a1) div page_size v1))"
      unfolding l1(2) by simp_all
    obtain v2 where t: "store v1 w1 x b = Some (v2, w1)" "view_with v1 w1 ((memories v1 w1 (iid (vipc v1)))(x \<mapsto> b)) v2 w1" "further v1 v2"
      "pages_are (\<lambda>f. resident f \<and> dirty f) v2 x 1"
      by (rule store_dirty_page [OF ok1 l1(1) r1])
    have "store v w x b = Some (v2, w1)" using s(1) l nw t(1) by (simp add: store.simps [of v w])
    moreover have "view_with v w ((memories v w (iid (vipc v)))(x \<mapsto> b)) v2 w1" using t(2) sv by (simp add: view_with_def same_view_def)
    ultimately show ?thesis using that further_trans [OF f1 t(3)] t(4) by blast
  qed
qed

lemma memset0_ok:
  assumes "sys_ok v w" and "pages_are resident v x n"
  shows "\<exists>v' w'. memset0 v w x n = Some (v', w') \<and>
    view_with v w (\<lambda>z. if x \<le> z \<and> z < x + n then Some 0 else memories v w (iid (vipc v)) z) v' w' \<and> further v v' \<and>
    pages_are (\<lambda>f. resident f \<and> dirty f) v' x n"
  using assms
proof (induction n arbitrary: v w x)
  case 0
  then show ?case by (auto simp: view_with_def further_refl pages_are_def fun_eq_iff)
next
  case (Suc n)
  obtain f where f: "page_at v x = Some f" "resident f" using Suc.prems(2) by (auto simp: pages_are_def)
  obtain v1 w1 where s: "store v w x 0 = Some (v1, w1)" "view_with v w ((memories v w (iid (vipc v)))(x \<mapsto> 0)) v1 w1" "further v v1"
    "pages_are (\<lambda>f. resident f \<and> dirty f) v1 x 1"
    by (rule store_page [OF Suc.prems(1) f])
  have ok1: "sys_ok v1 w1" using s(2) by (simp add: view_with_def)
  have "pages_are resident v (x + 1) n" using Suc.prems(2) by (auto simp: pages_are_def)
  then have "pages_are resident v1 (x + 1) n" by (rule further_pages(1) [OF s(3)])
  from Suc.IH [OF ok1 this] obtain v2 w2 where t: "memset0 v1 w1 (x + 1) n = Some (v2, w2)"
    "view_with v1 w1 (\<lambda>z. if x + 1 \<le> z \<and> z < x + 1 + n then Some 0 else memories v1 w1 (iid (vipc v1)) z) v2 w2" "further v1 v2"
    "pages_are (\<lambda>f. resident f \<and> dirty f) v2 (x + 1) n"
    by blast
  have "pages_are (\<lambda>f. resident f \<and> dirty f) v2 x 1" by (rule further_pages(2) [OF t(3) s(4)])
  then have "pages_are (\<lambda>f. resident f \<and> dirty f) v2 x (Suc n)" using t(4) by (auto simp: pages_are_def)
  moreover have "view_with v w (\<lambda>z. if x \<le> z \<and> z < x + Suc n then Some 0 else memories v w (iid (vipc v)) z) v2 w2"
    using s(2) t(2) by (auto simp: view_with_def fun_eq_iff)
  ultimately show ?case using s(1) t(1) further_trans [OF s(3) t(3)] by auto
qed

subsection \<open>Copying\<close>

lemma pages_areD:
  assumes "pages_are P v x n" and "x \<le> z" "z < x + n"
  obtains f where "page_at v z = Some f" "P f"
  using assms unfolding pages_are_def by blast

text \<open>\<open>memcpy\<close> of the C library copies byte by byte.\<close>

fun copy_bytes :: "vmm \<Rightarrow> 'a world_scheme \<Rightarrow> nat \<Rightarrow> nat \<Rightarrow> nat \<Rightarrow> (vmm \<times> 'a world_scheme) option" where
  "copy_bytes v w dst src 0 = Some (v, w)"
| "copy_bytes v w dst src (Suc n) = do {
     (b, v, w) \<leftarrow> load v w src;
     (v, w) \<leftarrow> store v w dst b;
     copy_bytes v w (dst + 1) (src + 1) n
   }"

definition c_memcpy :: "vmm \<Rightarrow> 'a world_scheme \<Rightarrow> nat \<Rightarrow> nat \<Rightarrow> nat \<Rightarrow> (nat \<times> vmm \<times> 'a world_scheme) option" where
  "c_memcpy v w dst src n = do { (v, w) \<leftarrow> copy_bytes v w dst src n; Some (dst, v, w) }"

lemma copy_bytes_ok:
  assumes "sys_ok v w" and "pages_are resident v dst n" and "pages_are resident v src n" and "dst + n \<le> src \<or> src + n \<le> dst"
  shows "\<exists>v' w'. copy_bytes v w dst src n = Some (v', w') \<and>
    view_with v w (\<lambda>z. if dst \<le> z \<and> z < dst + n then memories v w (iid (vipc v)) (src + (z - dst)) else memories v w (iid (vipc v)) z) v' w'"
  using assms
proof (induction n arbitrary: v w dst src)
  case 0
  then show ?case by (auto simp: view_with_def fun_eq_iff)
next
  case (Suc n)
  let ?i = "iid (vipc v)"
  obtain g where g: "page_at v dst = Some g" "resident g" by (rule pages_areD [OF Suc.prems(2), of dst]) simp_all
  obtain f where "page_at v src = Some f" "resident f" by (rule pages_areD [OF Suc.prems(3), of src]) simp_all
  then obtain a where "mmu_lookup (page_size v) (a_tbl v) src = Some a" "resident (flags a ! ((src - base a) div page_size v))"
    by (auto simp: page_at_def)
  from load_resident [OF Suc.prems(1) this] obtain b where b: "load v w src = Some (b, v, w)" "memories v w ?i src = Some b" by blast
  obtain v1 w1 where s: "store v w dst b = Some (v1, w1)" "view_with v w ((memories v w ?i)(dst \<mapsto> b)) v1 w1" "further v v1"
    by (rule store_page [OF Suc.prems(1) g])
  have ok1: "sys_ok v1 w1" and i1: "iid (vipc v1) = ?i" and m1: "memories v1 w1 ?i = (memories v w ?i)(dst \<mapsto> b)"
    using s(2) by (simp_all add: view_with_def)
  have "pages_are resident v (dst + 1) n" "pages_are resident v (src + 1) n" using Suc.prems(2,3) by (auto simp: pages_are_def)
  note p1 = this [THEN further_pages(1) [OF s(3)]]
  have dj: "dst + 1 + n \<le> src + 1 \<or> src + 1 + n \<le> dst + 1" using Suc.prems(4) by auto
  obtain v2 w2 where t: "copy_bytes v1 w1 (dst + 1) (src + 1) n = Some (v2, w2)"
    "view_with v1 w1 (\<lambda>z. if dst + 1 \<le> z \<and> z < dst + 1 + n then memories v1 w1 (iid (vipc v1)) (src + 1 + (z - (dst + 1))) else memories v1 w1 (iid (vipc v1)) z) v2 w2"
    using Suc.IH [OF ok1 p1 dj] by blast
  have e: "(if dst + 1 \<le> z \<and> z < dst + 1 + n then ((memories v w ?i)(dst \<mapsto> b)) (src + 1 + (z - (dst + 1))) else ((memories v w ?i)(dst \<mapsto> b)) z) =
      (if dst \<le> z \<and> z < dst + Suc n then memories v w ?i (src + (z - dst)) else memories v w ?i z)" for z
  proof (cases "z = dst")
    case False
    have "src + 1 + (z - (dst + 1)) = src + (z - dst)" "src + (z - dst) \<noteq> dst" if "dst + 1 \<le> z" "z < dst + 1 + n"
      using that Suc.prems(4) by auto
    then show ?thesis using False by auto
  qed (simp add: b(2))
  have "view_with v w (\<lambda>z. if dst \<le> z \<and> z < dst + Suc n then memories v w ?i (src + (z - dst)) else memories v w ?i z) v2 w2"
    using t(2) s(2) unfolding i1 m1 e by (simp add: view_with_def)
  then show ?case using b(1) s(1) t(1) by simp
qed

lemma touch_both_ok:
  assumes ok: "sys_ok v w" and i: "vinit v \<noteq> 0" and b: "buffer v w dst n" "buffer v w src n" and d: "0 < dst"
  obtains v' w' where "touch_both v w dst src n = Some (v', w')" "same_view v w v' w'" "pages_are resident v' dst n" "pages_are resident v' src n"
proof -
  note o = sys_okD [OF ok]
  obtain a where a: "mmu_lookup (page_size v) (a_tbl v) dst = Some a" "in_range v a dst n" by (rule bufferD [OF ok b(1)])
  obtain c where c: "mmu_lookup (page_size v) (a_tbl v) src = Some c" "in_range v c src n" by (rule bufferD [OF ok b(2)])
  have d0: "dst \<noteq> 0" using d by simp
  obtain k v' w' where t: "sbma_mtouch_atomic v w [(dst, n), (src, n)] = Some (int k, v', w')" "company v' w'" "since v w v' w'"
    "total w' = total w" "inter_mtx w' = inter_mtx w" "shape v v'" "range_in v' dst n" "range_in v' src n"
    using atomic_two [OF o(1,5,2,6) a d0 c] by blast
  have "same_view v w v' w'" by (rule same_view_step [OF ok t(2,3,6,4,5)])
  moreover have "touch_both v w dst src n = Some (v', w')"
    using t(1) buffer_exists [OF ok i b(1)] buffer_exists [OF ok i b(2)] by (simp add: touch_both_def)
  ultimately show ?thesis using that t(7,8) by (simp add: range_in_pages)
qed

lemma HOOK_INIT_ready: "p_calloc h = libc_ptr \<Longrightarrow> HOOK_INIT d func h = (if func = ''calloc'' \<or> dl_found d func then Some h else None)"
  by (simp add: HOOK_INIT_def ASSERT_def)

subsection \<open>Properties of the hooks\<close>

lemma demo_sys_ok1: "sys_ok (demo_vmm 1 [small_ate]) demo_world1"
proof -
  have f: "fits (demo_vmm 0 []) demo_world" "fits (demo_vmm 1 [small_ate]) demo_world" by (simp_all add: fits_def total_def del: One_nat_def)
  have c: "coherent (demo_vmm 0 []) demo_world1" "coherent (demo_vmm 1 [small_ate]) demo_world1"
    using demo_coherent by (simp_all add: coherent_def stored_def demo_world1_def)
  have "proc_fine 2 u demo_world1" if "j < 2" "proc_at (demo_vmm 1 [small_ate]) demo_world1 j = Some u" for j u
    using that f c by (auto simp: proc_at_def proc_fine_def demo_world1_def fits_def VMM_TO_SYS_def total_def simp del: One_nat_def split: if_splits)
  then show ?thesis by (simp add: sys_ok_def del: One_nat_def)
qed

lemma demo_regions1: "x \<in> {66, 67, 68, 69} \<Longrightarrow> regions (demo_vmm 1 [small_ate]) demo_world1 1 x = Some (66, 70)"
  using regions_self [OF demo_sys_ok1, of x]
  by (auto simp: region_def region_end_def mmu_lookup_def contains_iff SIZE_MOD_def)

text \<open>C19: The replacement of \<open>memcpy\<close> always succeeds on two buffers of the library that do not overlap, in the same allocation or
  in two: both are loaded together before the C library copies, the bytes arrive, and no other byte of
  any process changes.\<close>
theorem memcpy_copies:
  assumes "sys_ok v w" and "vinit v \<noteq> 0" and "p_calloc h = libc_ptr" "dl_found d ''memcpy''"
    and "buffer v w dst n" "buffer v w src n" and "0 < dst" and "dst + n \<le> src \<or> src + n \<le> dst"
  shows "\<exists>v1 w1 v' w'. touch_both v w dst src n = Some (v1, w1) \<and> pages_are resident v1 dst n \<and> pages_are resident v1 src n \<and>
    hook_memcpy d c_memcpy h v w dst src n = Some (dst, h, v', w') \<and> sys_ok v' w' \<and>
    memories v' w' = (memories v w)(iid (vipc v) :=
      (\<lambda>z. if dst \<le> z \<and> z < dst + n then memories v w (iid (vipc v)) (src + (z - dst)) else memories v w (iid (vipc v)) z))"
proof -
  obtain v1 w1 where t: "touch_both v w dst src n = Some (v1, w1)" "same_view v w v1 w1" "pages_are resident v1 dst n" "pages_are resident v1 src n"
    by (rule touch_both_ok [OF assms(1,2,5,6,7)])
  then have ok1: "sys_ok v1 w1" and e1: "memories v1 w1 = memories v w" "iid (vipc v1) = iid (vipc v)" by (simp_all add: same_view_def)
  obtain v' w' where c: "copy_bytes v1 w1 dst src n = Some (v', w')"
    "view_with v1 w1 (\<lambda>z. if dst \<le> z \<and> z < dst + n then memories v1 w1 (iid (vipc v1)) (src + (z - dst)) else memories v1 w1 (iid (vipc v1)) z) v' w'"
    using copy_bytes_ok [OF ok1 t(3,4) assms(8)] by blast
  have "hook_memcpy d c_memcpy h v w dst src n = Some (dst, h, v', w')"
    using t(1) c(1) assms(3,4) by (simp add: hook_memcpy_def libc_memcpy_def original_def c_memcpy_def HOOK_INIT_ready)
  moreover have "sys_ok v' w' \<and> memories v' w' = (memories v w)(iid (vipc v) :=
      (\<lambda>z. if dst \<le> z \<and> z < dst + n then memories v w (iid (vipc v)) (src + (z - dst)) else memories v w (iid (vipc v)) z))"
    using c(2) unfolding view_with_def e1 by blast
  ultimately show ?thesis using t by blast
qed

theorem memcpy_copies_witness:
  "\<exists>v' w'. hook_memcpy \<lparr>ic_base = 4096, dl_calls = [], dl_found = (\<lambda>_. True)\<rparr> c_memcpy \<lparr>p_calloc = libc_ptr, ic_off = 0, ic_mem = (\<lambda>_. 0)\<rparr>
       (demo_vmm 1 [small_ate]) demo_world1 68 66 2 = Some (68, \<lparr>p_calloc = libc_ptr, ic_off = 0, ic_mem = (\<lambda>_. 0)\<rparr>, v', w') \<and>
     memories v' w' 1 69 = memories (demo_vmm 1 [small_ate]) demo_world1 1 67"
proof -
  let ?d = "\<lparr>ic_base = 4096, dl_calls = [], dl_found = (\<lambda>_. True)\<rparr>" and ?h = "\<lparr>p_calloc = libc_ptr, ic_off = 0, ic_mem = (\<lambda>_. 0)\<rparr>"
  have b: "buffer (demo_vmm 1 [small_ate]) demo_world1 68 2" "buffer (demo_vmm 1 [small_ate]) demo_world1 66 2"
    using demo_regions1 [of 68] demo_regions1 [of 66] by (simp_all add: buffer_def del: One_nat_def)
  have s: "vinit (demo_vmm 1 [small_ate]) \<noteq> 0" "p_calloc ?h = libc_ptr" "dl_found ?d ''memcpy''" "(0::nat) < 68" "68 + 2 \<le> (66::nat) \<or> 66 + 2 \<le> (68::nat)"
    by (simp_all add: demo_vmm_def)
  obtain v' w' where r: "hook_memcpy ?d c_memcpy ?h (demo_vmm 1 [small_ate]) demo_world1 68 66 2 = Some (68, ?h, v', w')"
    "memories v' w' = (memories (demo_vmm 1 [small_ate]) demo_world1)(iid (vipc (demo_vmm 1 [small_ate])) :=
      (\<lambda>z. if 68 \<le> z \<and> z < 68 + 2 then memories (demo_vmm 1 [small_ate]) demo_world1 (iid (vipc (demo_vmm 1 [small_ate]))) (66 + (z - 68))
           else memories (demo_vmm 1 [small_ate]) demo_world1 (iid (vipc (demo_vmm 1 [small_ate]))) z))"
    using memcpy_copies [OF demo_sys_ok1 s(1-3) b s(4,5)] by blast
  then show ?thesis by (simp del: One_nat_def)
qed

text \<open>C20: The system never meets a page of the library that it cannot access: when \<open>write\<close> of the C library is called, every byte of the buffer can be
  read, and when \<open>read\<close> is called, every byte can be written, with zeros in place of the old contents; all else is
  as the processes left it.\<close>
theorem system_call_buffers:
  assumes "sys_ok v w" and "vinit v \<noteq> 0" and "buffer v w buf n"
  shows "(\<exists>v' w'. hook_write d libc h v w fd buf n = libc_write d libc h v' w' fd buf n \<and> sys_ok v' w' \<and>
            memories v' w' = memories v w \<and> (\<forall>z. buf \<le> z \<longrightarrow> z < buf + n \<longrightarrow> (\<exists>p. prot_at v' z = Some p \<and> readable p))) \<and>
         (\<exists>v' w'. hook_read d libc h v w fd buf n = libc_read d libc h v' w' fd buf n \<and> sys_ok v' w' \<and>
            memories v' w' = (memories v w)(iid (vipc v) := (\<lambda>z. if buf \<le> z \<and> z < buf + n then Some 0 else memories v w (iid (vipc v)) z)) \<and>
            (\<forall>z. buf \<le> z \<longrightarrow> z < buf + n \<longrightarrow> (\<exists>p. prot_at v' z = Some p \<and> writable p)))"
proof
  obtain v1 w1 where t: "touch_buf v w buf n = Some (v1, w1)" "same_view v w v1 w1" "pages_are resident v1 buf n"
    by (rule touch_buf_ok [OF assms])
  have ok1: "sys_ok v1 w1" and e1: "memories v1 w1 = memories v w" "iid (vipc v1) = iid (vipc v)" using t(2) by (simp_all add: same_view_def)
  have "\<exists>p. prot_at v1 z = Some p \<and> readable p" if z: "buf \<le> z" "z < buf + n" for z
  proof -
    obtain f where "page_at v1 z = Some f" "resident f" by (rule pages_areD [OF t(3) z])
    then show ?thesis using page_prot [OF ok1] by (simp add: prot_of_def readable_def)
  qed
  then show "\<exists>v' w'. hook_write d libc h v w fd buf n = libc_write d libc h v' w' fd buf n \<and> sys_ok v' w' \<and>
      memories v' w' = memories v w \<and> (\<forall>z. buf \<le> z \<longrightarrow> z < buf + n \<longrightarrow> (\<exists>p. prot_at v' z = Some p \<and> readable p))"
    using t(1) ok1 e1(1) by (intro exI [of _ v1] exI [of _ w1]) (simp add: hook_write_def)
  obtain v2 w2 where m: "memset0 v1 w1 buf n = Some (v2, w2)" "pages_are (\<lambda>f. resident f \<and> dirty f) v2 buf n"
    "view_with v1 w1 (\<lambda>z. if buf \<le> z \<and> z < buf + n then Some 0 else memories v1 w1 (iid (vipc v1)) z) v2 w2"
    using memset0_ok [OF ok1 t(3)] by blast
  have ok2: "sys_ok v2 w2" and e2: "memories v2 w2 = (memories v w)(iid (vipc v) := (\<lambda>z. if buf \<le> z \<and> z < buf + n then Some 0 else memories v w (iid (vipc v)) z))"
    using m(3) unfolding view_with_def e1 by blast+
  have "\<exists>p. prot_at v2 z = Some p \<and> writable p" if z: "buf \<le> z" "z < buf + n" for z
  proof -
    obtain f where "page_at v2 z = Some f" "resident f \<and> dirty f" by (rule pages_areD [OF m(2) z])
    then show ?thesis using page_prot [OF ok2] by (simp add: prot_of_def writable_def)
  qed
  moreover have "fill_buf v w buf n = Some (v2, w2)"
    using t(1) m(1) buffer_exists [OF assms] by (auto simp: touch_buf_def fill_buf_def bind_eq_Some_conv split: if_splits)
  ultimately show "\<exists>v' w'. hook_read d libc h v w fd buf n = libc_read d libc h v' w' fd buf n \<and> sys_ok v' w' \<and>
      memories v' w' = (memories v w)(iid (vipc v) := (\<lambda>z. if buf \<le> z \<and> z < buf + n then Some 0 else memories v w (iid (vipc v)) z)) \<and>
      (\<forall>z. buf \<le> z \<longrightarrow> z < buf + n \<longrightarrow> (\<exists>p. prot_at v' z = Some p \<and> writable p))"
    using ok2 e2 by (intro exI [of _ v2] exI [of _ w2]) (simp add: hook_read_def)
qed

theorem system_call_buffers_witness:
  "\<exists>v' w'. hook_read \<lparr>ic_base = 4096, dl_calls = [], dl_found = (\<lambda>_. True)\<rparr> (\<lambda>v w (fd :: int) (x :: nat) n. Some (int n, v, w))
       \<lparr>p_calloc = libc_ptr, ic_off = 0, ic_mem = (\<lambda>_. 0)\<rparr> (demo_vmm 1 [small_ate]) demo_world1 3 67 2 =
     Some (2, \<lparr>p_calloc = libc_ptr, ic_off = 0, ic_mem = (\<lambda>_. 0)\<rparr>, v', w') \<and> memories v' w' 1 67 = Some 0"
proof -
  let ?d = "\<lparr>ic_base = 4096, dl_calls = [], dl_found = (\<lambda>_. True)\<rparr>" and ?h = "\<lparr>p_calloc = libc_ptr, ic_off = 0, ic_mem = (\<lambda>_. 0)\<rparr>"
  let ?l = "\<lambda>v w (fd :: int) (x :: nat) n. Some (int n, v, w)"
  have b: "buffer (demo_vmm 1 [small_ate]) demo_world1 67 2" using demo_regions1 [of 67] by (simp add: buffer_def del: One_nat_def)
  have s: "vinit (demo_vmm 1 [small_ate]) \<noteq> 0" by (simp add: demo_vmm_def)
  obtain v' w' where r: "hook_read ?d ?l ?h (demo_vmm 1 [small_ate]) demo_world1 3 67 2 = libc_read ?d ?l ?h v' w' 3 67 2"
    "memories v' w' = (memories (demo_vmm 1 [small_ate]) demo_world1)(iid (vipc (demo_vmm 1 [small_ate])) :=
       (\<lambda>z. if 67 \<le> z \<and> z < 67 + 2 then Some 0 else memories (demo_vmm 1 [small_ate]) demo_world1 (iid (vipc (demo_vmm 1 [small_ate]))) z))"
    using system_call_buffers [OF demo_sys_ok1 s b, of ?d ?l ?h 3] by blast
  then show ?thesis by (simp add: libc_read_def original_def HOOK_INIT_ready del: One_nat_def)
qed

text \<open>C40: \<open>fwrite\<close> of \<open>num\<close> elements loads only the first of them: a page behind it that is not resident is still
  without access when the C library writes the buffer.\<close>
theorem fwrite_partial:
  assumes ok: "sys_ok v w" and i: "vinit v \<noteq> 0" and b: "buffer v w buf sz" and r: "regions v w (iid (vipc v)) buf = Some (lo, hi)"
    and z: "buf \<le> z" "z < buf + sz * num" "z < hi" "(buf + sz - lo - 1) div page_size v < (z - lo) div page_size v"
    and p: "page_at v z = Some f" "\<not> resident f"
  shows "\<exists>v' w'. hook_fwrite d libc h v w buf sz num stream = libc_fwrite d libc h v' w' buf sz num stream \<and>
    sys_ok v' w' \<and> prot_at v' z = Some PROT_NONE"
proof -
  note o = sys_okD [OF ok]
  obtain a where a: "mmu_lookup (page_size v) (a_tbl v) buf = Some a" "in_range v a buf sz" by (rule bufferD [OF ok b])
  have am: "a \<in> set (a_tbl v)" by (rule lookup_page [OF o(4) a(1)])
  note e = well_formed_entry [OF o(4) am] and rp = range_pages [OF a(2) e(4,5)]
  have lo: "lo = base a" "hi = region_end (page_size v) a" using r a(1) regions_self [OF ok] by (simp_all add: region_def)
  obtain k v' w' where t: "sbma_mtouch v w None buf sz = Some (k, v', w')" "k \<noteq> -1" "same_view v w v' w'"
    "\<forall>z. mmu_lookup (page_size v) (a_tbl v) z = Some a \<longrightarrow> end_page v a buf sz \<le> (z - base a) div page_size v \<longrightarrow> page_at v' z = page_at v z"
    by (rule mtouch_loads [OF ok a])
  have ap: "apart (page_size v) (a_tbl v)" using o(4) by (simp add: well_formed_def)
  have "mmu_lookup (page_size v) (a_tbl v) z = Some a"
    by (rule mmu_lookup_unique [OF ap am]) (use z(1,3) a(2) lo contains_iff [OF e(4)] in \<open>simp add: in_range_def\<close>)
  moreover have "end_page v a buf sz \<le> (z - base a) div page_size v" unfolding rp(2) using z(4) lo(1) by simp
  ultimately have "page_at v' z = Some f" using t(4) p(1) by simp
  moreover have ok': "sys_ok v' w'" using t(3) by (simp add: same_view_def)
  ultimately have "prot_at v' z = Some PROT_NONE" using page_prot [OF ok'] p(2) by (simp add: prot_of_def)
  moreover have "hook_fwrite d libc h v w buf sz num stream = libc_fwrite d libc h v' w' buf sz num stream"
    using t(1,2) buffer_exists [OF ok i b] by (simp add: hook_fwrite_def touch_buf_def)
  ultimately show ?thesis using ok' by blast
qed

text \<open>The buffer of the running process, after it has been evicted.\<close>

lemma demo_evicted:
  obtains v and w :: world where "sys_ok v w" "vinit v \<noteq> 0" "page_size v = 2" "iid (vipc v) = 1" "regions v w 1 66 = Some (66, 70)"
    "\<exists>f. page_at v 68 = Some f \<and> \<not> resident f"
proof -
  let ?v = "demo_vmm 1 [small_ate]" and ?w = demo_world1
  note o = sys_okD [OF demo_sys_ok1]
  have r66: "regions ?v ?w 1 66 = Some (66, 70)" using demo_regions1 [of 66] by simp
  have l: "mmu_lookup (page_size ?v) (a_tbl ?v) 66 = Some small_ate" "mmu_lookup (page_size ?v) (a_tbl ?v) 68 = Some small_ate"
    by (simp_all add: mmu_lookup_def contains_iff region_end_def SIZE_MOD_def)
  have q: "quiet ?w" using o(1) by (simp add: company_def del: One_nat_def)
  have st: "stored ?v ?w small_ate []" by (simp del: One_nat_def)
  have be: "beg_page ?v small_ate 66 = 0" "end_page ?v small_ate 66 4 - 0 = 2"
    by (simp_all add: beg_page_def end_page_def subw_def addw_def SIZE_MOD_def)
  obtain k v w where t: "sbma_mevict ?v ?w 66 4 = Some (k, v, w)" "evict_post ?v ?w small_ate [] 0 2 v w"
    using mevict_ok [OF o(3) q o(2) l(1) st small_lookup_range] unfolding be by blast
  then obtain a' where a': "alike (with_ate a' ?v) v" "same_place small_ate a'" "\<forall>q. 0 \<le> q \<and> q < 0 + 2 \<longrightarrow> \<not> resident (flags a' ! q)"
    unfolding evict_post_def by blast
  have "simulates (Mevict 66 4) ?v ?w (exec (Mevict 66 4) ?v ?w)"
    by (rule sim_mevict [OF demo_sys_ok1, of 2]) (use r66 in \<open>simp del: One_nat_def\<close>)
  then have s: "sys_ok v w" "regions v w = regions ?v ?w" using t(1) by (simp_all add: simulates_def del: One_nat_def)
  have "page_at v 68 = Some (flags a' ! 1)"
    using page_at_put [OF o(4) sys_okD(4) [OF s(1)] l(1) a'(2,1), of 68] l(2) by (simp del: One_nat_def)
  moreover have "\<not> resident (flags a' ! 1)" using a'(3) by simp
  ultimately have p: "\<exists>f. page_at v 68 = Some f \<and> \<not> resident f" by blast
  let ?u = "v\<lparr>vinit := 1\<rparr>"
  have al: "alike v ?u" by (simp add: alike_def)
  have "shape v ?u" by (simp add: shape_def alike_def list_all2_same)
  then have sv: "same_view v w ?u w" by (rule same_view_step [OF s(1) company_alike [OF sys_okD(1) [OF s(1)] al]]) simp_all
  have e: "page_size ?u = 2" "iid (vipc ?u) = 1" using a'(1) by (simp_all add: alike_def with_ate_def)
  have u: "sys_ok ?u w" "regions ?u w 1 66 = Some (66, 70)" using sv s(2) r66 by (simp_all add: same_view_def)
  have i: "vinit ?u \<noteq> 0" by simp
  have "\<exists>f. page_at ?u 68 = Some f \<and> \<not> resident f" using p by (simp add: page_at_def)
  from that [OF u(1) i e u(2) this] show ?thesis .
qed

theorem fwrite_partial_witness:
  "\<exists>v (w :: world) v' w'. sys_ok v w \<and> buffer v w 66 4 \<and>
     hook_fwrite \<lparr>ic_base = 4096, dl_calls = [], dl_found = (\<lambda>_. True)\<rparr> (\<lambda>v w (x :: nat) (sz :: nat) (num :: nat) (s :: nat). Some (num, v, w))
       \<lparr>p_calloc = libc_ptr, ic_off = 0, ic_mem = (\<lambda>_. 0)\<rparr> v w 66 2 2 0 =
     Some (2, \<lparr>p_calloc = libc_ptr, ic_off = 0, ic_mem = (\<lambda>_. 0)\<rparr>, v', w') \<and> prot_at v' 68 = Some PROT_NONE"
proof -
  let ?d = "\<lparr>ic_base = 4096, dl_calls = [], dl_found = (\<lambda>_. True)\<rparr>" and ?h = "\<lparr>p_calloc = libc_ptr, ic_off = 0, ic_mem = (\<lambda>_. 0)\<rparr>"
  let ?l = "\<lambda>v w (x :: nat) (sz :: nat) (num :: nat) (s :: nat). Some (num, v, w)"
  obtain v :: vmm and w :: world where v: "sys_ok v w" "vinit v \<noteq> 0" "page_size v = 2" "iid (vipc v) = 1" "regions v w 1 66 = Some (66, 70)"
    "\<exists>f. page_at v 68 = Some f \<and> \<not> resident f"
    by (rule demo_evicted)
  then obtain f where f: "page_at v 68 = Some f" "\<not> resident f" by blast
  have b: "buffer v w 66 2" "buffer v w 66 4" using v(4,5) by (simp_all add: buffer_def)
  have r: "regions v w (iid (vipc v)) 66 = Some (66, 70)" unfolding v(4) by (rule v(5))
  have z: "(66::nat) \<le> 68" "(68::nat) < 66 + 2 * 2" "(68::nat) < 70" "(66 + 2 - 66 - 1) div page_size v < (68 - 66) div page_size v"
    by (simp_all add: v(3))
  from fwrite_partial [OF v(1,2) b(1) r z f, of ?d ?l ?h 0] obtain v' w' where
    "hook_fwrite ?d ?l ?h v w 66 2 2 0 = libc_fwrite ?d ?l ?h v' w' 66 2 2 0" "prot_at v' 68 = Some PROT_NONE" by blast
  then show ?thesis using v(1) b(2) by (intro exI [of _ v] exI [of _ w] exI [of _ v'] exI [of _ w']) (simp add: libc_fwrite_def original_def HOOK_INIT_ready)
qed

text \<open>\<open>mlock\<close> on memory that does not belong to the library stops the program, in every state.\<close>

lemma mlock_foreign_aborts: "mmu_lookup (page_size v) (a_tbl v) x = None \<Longrightarrow> hook_mlock d libc h v w x n = None"
  by (auto simp: hook_mlock_def sbma_mtouch_def ASSERT_def bind_eq_None_conv)

subsection \<open>Memory before memory\<close>

text \<open>While the address of \<open>calloc\<close> is looked up, \<open>calloc\<close> is \<open>internal_calloc\<close>.\<close>

lemma calloc_reentrant:
  "p_calloc h = internal_ptr \<Longrightarrow> hook_calloc d lm lc op h m num n = do { (p, h) \<leftarrow> internal_calloc d h num n; Some (p, h, m) }"
  by (simp add: hook_calloc_def HOOK_INIT_def ASSERT_def)

lemma dlsym_calls_ok:
  assumes "ic_base d + IC_SIZE < SIZE_MOD" and "ic_off h + sum_list (map (\<lambda>(k, n). k * n) rs) \<le> IC_SIZE"
  shows "\<exists>h'. dlsym_calls d rs h =
      Some (map (\<lambda>i. ic_base d + ic_off h + sum_list (take i (map (\<lambda>(k, n). k * n) rs))) [0..<length rs], h') \<and>
    ic_off h' = ic_off h + sum_list (map (\<lambda>(k, n). k * n) rs) \<and> p_calloc h' = p_calloc h"
  using assms
proof (induction rs arbitrary: h)
  case (Cons r rs)
  obtain k n where r: "r = (k, n)" by fastforce
  let ?h = "h\<lparr>ic_mem := (\<lambda>i. if ic_off h \<le> i \<and> i < ic_off h + k * n then 0 else ic_mem h i), ic_off := ic_off h + k * n\<rparr>"
  have s: "ic_off h + k * n + sum_list (map (\<lambda>(k, n). k * n) rs) \<le> IC_SIZE" using Cons.prems(2) by (simp add: r)
  then have "mulw k n = k * n" "addw (ic_base d + ic_off h) (k * n) = ic_base d + ic_off h + k * n"
    using Cons.prems(1) by (auto intro!: mulw_exact addw_exact)
  then have i: "internal_calloc d h k n = Some (ic_base d + ic_off h, ?h)" using s by (simp add: internal_calloc_def Let_def)
  obtain h' where h': "dlsym_calls d rs ?h =
      Some (map (\<lambda>i. ic_base d + ic_off ?h + sum_list (take i (map (\<lambda>(k, n). k * n) rs))) [0..<length rs], h')"
    "ic_off h' = ic_off ?h + sum_list (map (\<lambda>(k, n). k * n) rs)" "p_calloc h' = p_calloc ?h"
    using Cons.IH [OF Cons.prems(1), of ?h] s by auto
  have "map (\<lambda>i. ic_base d + ic_off h + sum_list (take i (map (\<lambda>(k, n). k * n) (r # rs)))) [0..<length (r # rs)] =
      (ic_base d + ic_off h) # map (\<lambda>i. ic_base d + ic_off ?h + sum_list (take i (map (\<lambda>(k, n). k * n) rs))) [0..<length rs]"
    by (simp add: r map_upt_Suc add.assoc del: upt_Suc)
  then show ?case using i h' by (simp add: r)
qed simp

text \<open>C39: The first call of a replaced function looks up \<open>calloc\<close>; as long as what the dynamic linker asks for meanwhile fits into the
  internal array, each of its requests gets the place behind the one before, the original \<open>calloc\<close> is in use
  afterwards, and \<open>free\<close> leaves everything as it is when it is given one of these places.\<close>
theorem hooks_bootstrap:
  assumes "p_calloc h = NULL_ptr" and "ic_off h = 0" and "dl_found d ''calloc''"
    and arena: "0 < ic_base d" "ic_base d + IC_SIZE < SIZE_MOD" "sum_list (map (\<lambda>(k, n). k * n) (dl_calls d)) \<le> IC_SIZE"
    and pos: "\<forall>(k, n) \<in> set (dl_calls d). 0 < k * n"
  shows "\<exists>ps h'. dlsym_calls d (dl_calls d) (h\<lparr>p_calloc := internal_ptr\<rparr>) = Some (ps, h') \<and>
    ps = map (\<lambda>i. ic_base d + sum_list (take i (map (\<lambda>(k, n). k * n) (dl_calls d)))) [0..<length (dl_calls d)] \<and>
    HOOK_INIT d ''calloc'' h = Some (h'\<lparr>p_calloc := libc_ptr\<rparr>) \<and>
    (\<forall>p \<in> set ps. \<forall>lf op m. hook_free d lf op (h'\<lparr>p_calloc := libc_ptr\<rparr>) m p = Some (h'\<lparr>p_calloc := libc_ptr\<rparr>, m))"
proof -
  let ?h = "h\<lparr>p_calloc := internal_ptr\<rparr>" and ?ns = "map (\<lambda>(k, n). k * n) (dl_calls d)"
  obtain h' where r: "dlsym_calls d (dl_calls d) ?h = Some (map (\<lambda>i. ic_base d + sum_list (take i ?ns)) [0..<length (dl_calls d)], h')"
    using dlsym_calls_ok [OF arena(2), of ?h "dl_calls d"] assms(2) arena(3) by auto
  have "HOOK_INIT d ''calloc'' h = Some (h'\<lparr>p_calloc := libc_ptr\<rparr>)" using r assms(1,3) by (simp add: HOOK_INIT_def)
  moreover have "hook_free d lf op (h'\<lparr>p_calloc := libc_ptr\<rparr>) m p = Some (h'\<lparr>p_calloc := libc_ptr\<rparr>, m)"
    if p: "p \<in> set (map (\<lambda>i. ic_base d + sum_list (take i ?ns)) [0..<length (dl_calls d)])" for p lf op m
  proof -
    obtain i where i: "i < length (dl_calls d)" "p = ic_base d + sum_list (take i ?ns)" using p by auto
    have "case dl_calls d ! i of (k, n) \<Rightarrow> 0 < k * n" by (rule bspec [OF pos nth_mem [OF i(1)]])
    then have "0 < ?ns ! i" using i(1) by (cases "dl_calls d ! i") simp
    moreover have "sum_list (take i ?ns) + ?ns ! i + sum_list (drop (Suc i) ?ns) = sum_list ?ns"
      using i(1) by (metis add.assoc append_take_drop_id Cons_nth_drop_Suc length_map sum_list.Cons sum_list_append)
    ultimately have "p < ic_base d + IC_SIZE" using i(2) arena(3) by linarith
    then show ?thesis using i(2) arena(1) by (simp add: hook_free_def HOOK_INIT_ready)
  qed
  ultimately show ?thesis using r by blast
qed

theorem hooks_bootstrap_witness:
  "\<exists>ps h'. dlsym_calls \<lparr>ic_base = 4096, dl_calls = [(1, 32), (2, 8)], dl_found = (\<lambda>_. True)\<rparr> [(1, 32), (2, 8)]
       \<lparr>p_calloc = internal_ptr, ic_off = 0, ic_mem = (\<lambda>_. 0)\<rparr> = Some (ps, h') \<and> ps = [4096, 4128] \<and>
     HOOK_INIT \<lparr>ic_base = 4096, dl_calls = [(1, 32), (2, 8)], dl_found = (\<lambda>_. True)\<rparr> ''calloc''
       \<lparr>p_calloc = NULL_ptr, ic_off = 0, ic_mem = (\<lambda>_. 0)\<rparr> = Some (h'\<lparr>p_calloc := libc_ptr\<rparr>)"
proof -
  let ?d = "\<lparr>ic_base = 4096, dl_calls = [(1, 32), (2, 8)], dl_found = (\<lambda>_. True)\<rparr>" and ?h = "\<lparr>p_calloc = NULL_ptr, ic_off = 0, ic_mem = (\<lambda>_. 0)\<rparr>"
  have "p_calloc ?h = NULL_ptr" "ic_off ?h = 0" "dl_found ?d ''calloc''" "0 < ic_base ?d" "ic_base ?d + IC_SIZE < SIZE_MOD"
    "sum_list (map (\<lambda>(k, n). k * n) (dl_calls ?d)) \<le> IC_SIZE" "\<forall>(k, n) \<in> set (dl_calls ?d). 0 < k * n"
    by (simp_all add: IC_SIZE_def SIZE_MOD_def)
  from hooks_bootstrap [OF this] show ?thesis by (simp add: upt_rec) blast
qed

end
