(* ===== verification/Lock.thy ===== *)
theory Lock
  imports Prelude
begin

text \<open>
  The locks of the build with threads (\<open>src/lock\<close>, \<open>USE_THREAD\<close>), and the critical sections made of them
  (\<open>src/include/vmm.h\<close>, \<open>src/include/ipc.h\<close>).  The mutexes are those of the POSIX threads library, modelled as its
  standard describes them: the type of a mutex comes from the attribute it is made with and decides what happens when its holder
  locks it again.  A call that waits for another thread, or for itself, has no result.  The theorem is about all
  interleavings of threads that enter and leave one critical section, and of the signal handlers that interrupt
  them inside.
\<close>

subsection \<open>POSIX mutexes\<close>

datatype mutex_type = PTHREAD_MUTEX_DEFAULT | PTHREAD_MUTEX_RECURSIVE

record mutex =
  mtype :: mutex_type
  holder :: "nat option"
  depth :: nat

definition EPERM :: int where "EPERM = 1"
definition EAGAIN :: int where "EAGAIN = 11"
definition EBUSY :: int where "EBUSY = 16"

text \<open>The first argument of the functions that make a mutex is what they return.\<close>

definition pthread_mutexattr_init :: "int \<Rightarrow> int \<times> mutex_type" where
  "pthread_mutexattr_init r = (r, PTHREAD_MUTEX_DEFAULT)"

definition pthread_mutexattr_settype :: "int \<Rightarrow> mutex_type \<Rightarrow> mutex_type \<Rightarrow> int \<times> mutex_type" where
  "pthread_mutexattr_settype r attr k = (r, if r = 0 then k else attr)"

definition pthread_mutex_init :: "int \<Rightarrow> mutex_type \<Rightarrow> int \<times> mutex option" where
  "pthread_mutex_init r attr =
     (r, if r = 0 then Some \<lparr>mtype = attr, holder = None, depth = 0\<rparr> else None)"

text \<open>A free mutex is taken.  Its holder may take a recursive mutex again, up to the limit of its count, which is an
  \<open>unsigned int\<close>; the holder of a mutex of the default type, and every other thread, waits.\<close>

definition pthread_mutex_lock :: "nat \<Rightarrow> mutex \<Rightarrow> (int \<times> mutex) option" where
  "pthread_mutex_lock t m =
     (case holder m of
        None \<Rightarrow> Some (0, m\<lparr>holder := Some t, depth := 1\<rparr>)
      | Some u \<Rightarrow>
          if u \<noteq> t then None
          else (case mtype m of
              PTHREAD_MUTEX_DEFAULT \<Rightarrow> None
            | PTHREAD_MUTEX_RECURSIVE \<Rightarrow>
                if depth m = 4294967295 then Some (EAGAIN, m)
                else Some (0, m\<lparr>depth := depth m + 1\<rparr>)))"

text \<open>Giving back a recursive mutex that one does not hold is an error; for the default type it is undefined.\<close>

definition pthread_mutex_unlock :: "nat \<Rightarrow> mutex \<Rightarrow> (int \<times> mutex) option" where
  "pthread_mutex_unlock t m =
     (if holder m \<noteq> Some t
      then (case mtype m of PTHREAD_MUTEX_DEFAULT \<Rightarrow> None | PTHREAD_MUTEX_RECURSIVE \<Rightarrow> Some (EPERM, m))
      else if depth m \<le> 1 then Some (0, m\<lparr>holder := None, depth := 0\<rparr>)
      else Some (0, m\<lparr>depth := depth m - 1\<rparr>))"

definition pthread_mutex_destroy :: "mutex \<Rightarrow> int" where
  "pthread_mutex_destroy m = (if holder m = None then 0 else EBUSY)"

subsection \<open>The module\<close>

text \<open>The results of the three calls of \<open>lock_init\<close> are parameters.\<close>

definition lock_init :: "int \<Rightarrow> int \<Rightarrow> int \<Rightarrow> int \<times> mutex option" where
  "lock_init r_attr r_type r_init =
     (case pthread_mutexattr_init r_attr of
        (retval, attr) \<Rightarrow>
          if 0 \<noteq> retval then (retval, None)
          else (case pthread_mutexattr_settype r_type attr PTHREAD_MUTEX_RECURSIVE of
              (retval, attr) \<Rightarrow>
                if 0 \<noteq> retval then (retval, None)
                else pthread_mutex_init r_init attr))"

definition lock_free :: "mutex \<Rightarrow> int" where
  "lock_free m = pthread_mutex_destroy m"

definition lock_get :: "nat \<Rightarrow> mutex \<Rightarrow> (int \<times> mutex) option" where
  "lock_get t m = pthread_mutex_lock t m"

definition lock_let :: "nat \<Rightarrow> mutex \<Rightarrow> (int \<times> mutex) option" where
  "lock_let t m = pthread_mutex_unlock t m"

definition CRITICAL_SECTION_BEG :: "nat \<Rightarrow> mutex \<Rightarrow> mutex option" where
  "CRITICAL_SECTION_BEG t m = do { (ret, m) \<leftarrow> lock_get t m; ASSERT (0 = ret); Some m }"

definition CRITICAL_SECTION_END :: "nat \<Rightarrow> mutex \<Rightarrow> mutex option" where
  "CRITICAL_SECTION_END t m = do { (ret, m) \<leftarrow> lock_let t m; ASSERT (0 = ret); Some m }"

subsection \<open>Threads\<close>

text \<open>How often each thread is inside the critical section: more than once when a signal handler, or a function called
  from inside, enters it again.\<close>

record threads =
  mtx :: mutex
  inside :: "nat \<Rightarrow> nat"

inductive lock_step :: "threads \<Rightarrow> threads \<Rightarrow> bool" where
  enter: "CRITICAL_SECTION_BEG t (mtx s) = Some m \<Longrightarrow>
     lock_step s (s\<lparr>mtx := m, inside := (inside s)(t := Suc (inside s t))\<rparr>)"
| leave: "0 < inside s t \<Longrightarrow> CRITICAL_SECTION_END t (mtx s) = Some m \<Longrightarrow>
     lock_step s (s\<lparr>mtx := m, inside := (inside s)(t := inside s t - 1)\<rparr>)"

inductive lock_reachable :: "threads \<Rightarrow> bool" where
  start: "lock_init r_attr r_type r_init = (0, Some m) \<Longrightarrow> lock_reachable \<lparr>mtx = m, inside = (\<lambda>_. 0)\<rparr>"
| more: "lock_reachable s \<Longrightarrow> lock_step s s' \<Longrightarrow> lock_reachable s'"

inductive_cases lock_stepE: "lock_step s s'"

definition lock_inv :: "threads \<Rightarrow> bool" where
  "lock_inv s \<longleftrightarrow> mtype (mtx s) = PTHREAD_MUTEX_RECURSIVE \<and>
     (case holder (mtx s) of
        None \<Rightarrow> depth (mtx s) = 0 \<and> (\<forall>u. inside s u = 0)
      | Some t \<Rightarrow> 0 < depth (mtx s) \<and> depth (mtx s) \<le> 4294967295 \<and> inside s t = depth (mtx s) \<and> (\<forall>u. u \<noteq> t \<longrightarrow> inside s u = 0))"

lemmas section_defs = CRITICAL_SECTION_BEG_def CRITICAL_SECTION_END_def lock_get_def lock_let_def
  pthread_mutex_lock_def pthread_mutex_unlock_def EPERM_def EAGAIN_def ASSERT_def

lemma lock_init_recursive: "lock_init r_attr r_type r_init = (ret, Some m) \<Longrightarrow>
    ret = 0 \<and> m = \<lparr>mtype = PTHREAD_MUTEX_RECURSIVE, holder = None, depth = 0\<rparr>"
  by (auto simp: lock_init_def pthread_mutexattr_init_def pthread_mutexattr_settype_def pthread_mutex_init_def split: if_splits)

lemma lock_step_inv: "lock_inv s \<Longrightarrow> lock_step s s' \<Longrightarrow> lock_inv s'"
  by (erule lock_stepE) (auto simp: lock_inv_def section_defs split: option.splits if_splits)

lemma lock_reachable_inv: "lock_reachable s \<Longrightarrow> lock_inv s"
proof (induction rule: lock_reachable.induct)
  case (start r_attr r_type r_init m)
  then show ?case using lock_init_recursive [OF start] by (simp add: lock_inv_def)
qed (rule lock_step_inv)

lemma section_again:
  assumes "holder m = Some t" and "mtype m = PTHREAD_MUTEX_RECURSIVE" and "0 < depth m" and "depth m < 4294967295"
  shows "CRITICAL_SECTION_BEG t m = Some (m\<lparr>depth := depth m + 1\<rparr>)"
    and "CRITICAL_SECTION_END t (m\<lparr>depth := depth m + 1\<rparr>) = Some m"
  using assms by (simp_all add: section_defs)

lemma section_leave:
  assumes "holder m = Some t" and "0 < depth m"
  shows "CRITICAL_SECTION_END t m =
    Some (if depth m = 1 then m\<lparr>holder := None, depth := 0\<rparr> else m\<lparr>depth := depth m - 1\<rparr>)"
  using assms by (simp add: section_defs)

lemma section_entry:
  "holder m = None \<Longrightarrow> CRITICAL_SECTION_BEG u m \<noteq> None"
  "holder m = Some t \<Longrightarrow> u \<noteq> t \<Longrightarrow> CRITICAL_SECTION_BEG u m = None"
  by (simp_all add: section_defs)

lemma section_last:
  assumes "holder m = Some t" and "mtype m = PTHREAD_MUTEX_RECURSIVE" and "0 < depth m" and "depth m \<le> 4294967295"
  shows "\<exists>m'. CRITICAL_SECTION_END t m = Some m' \<and> (CRITICAL_SECTION_BEG u m' \<noteq> None \<longleftrightarrow> depth m = 1 \<or> u = t)"
proof (cases "depth m = 1")
  case True
  then show ?thesis using section_leave [OF assms(1,3)] section_entry(1) by simp
next
  case False
  let ?m = "m\<lparr>depth := depth m - 1\<rparr>"
  have "CRITICAL_SECTION_BEG u ?m \<noteq> None \<longleftrightarrow> u = t"
    using section_again(1) [of ?m t] section_entry(2) [of ?m t u] assms False by (cases "u = t") auto
  then show ?thesis using section_leave [OF assms(1,3)] False by simp
qed

text \<open>C30: The mutex that \<open>lock_init\<close> makes fits the critical sections of the manager, which signal handlers enter while
  the thread they interrupt is inside.  In every interleaving of threads and handlers: a thread that is inside can enter again, and
  leaving then gives exactly the state before (below the limit of the count); a thread that is inside can always
  leave, no assertion fails, and the mutex becomes free for the others with its last leave and not before; when all
  threads have left, every thread can enter, and \<open>lock_free\<close> succeeds exactly then.  That no second thread is inside rests on the
  exclusion that the POSIX mutex promises; that entering again does not wait forever rests on the type that
  \<open>lock_init\<close> asks for, the one that its comment (\<open>FIXME\<close>, line 53) doubts.\<close>
theorem critical_sections:
  assumes "lock_reachable s"
  shows "(0 < inside s t \<longrightarrow> inside s t < 4294967295 \<longrightarrow>
       (\<exists>m. CRITICAL_SECTION_BEG t (mtx s) = Some m \<and> CRITICAL_SECTION_END t m = Some (mtx s))) \<and>
    (0 < inside s t \<longrightarrow>
       (\<exists>m. CRITICAL_SECTION_END t (mtx s) = Some m \<and> (CRITICAL_SECTION_BEG u m \<noteq> None \<longleftrightarrow> inside s t = 1 \<or> u = t))) \<and>
    (0 < inside s t \<longrightarrow> u \<noteq> t \<longrightarrow> inside s u = 0 \<and> CRITICAL_SECTION_BEG u (mtx s) = None) \<and>
    ((\<forall>u. inside s u = 0) \<longrightarrow> CRITICAL_SECTION_BEG t (mtx s) \<noteq> None) \<and>
    (lock_free (mtx s) = 0 \<longleftrightarrow> (\<forall>u. inside s u = 0))"
proof (cases "holder (mtx s)")
  case None
  then show ?thesis using lock_reachable_inv [OF assms]
    by (simp add: lock_inv_def section_defs lock_free_def pthread_mutex_destroy_def)
next
  case (Some x)
  then have x: "mtype (mtx s) = PTHREAD_MUTEX_RECURSIVE" "0 < inside s x" "depth (mtx s) = inside s x" "\<forall>u. u \<noteq> x \<longrightarrow> inside s u = 0"
    "inside s x \<le> 4294967295"
    using lock_reachable_inv [OF assms] by (simp_all add: lock_inv_def)
  then have "\<not> (\<forall>u. inside s u = 0)" by auto
  then have free: "lock_free (mtx s) = 0 \<longleftrightarrow> (\<forall>u. inside s u = 0)" and empty: "(\<forall>u. inside s u = 0) \<longrightarrow> CRITICAL_SECTION_BEG t (mtx s) \<noteq> None"
    using Some by (auto simp: lock_free_def pthread_mutex_destroy_def EBUSY_def)
  show ?thesis
  proof (cases "t = x")
    case True
    have "\<exists>m. CRITICAL_SECTION_BEG t (mtx s) = Some m \<and> CRITICAL_SECTION_END t m = Some (mtx s)" if "inside s t < 4294967295"
      using section_again [of "mtx s" t] Some x True that by simp
    moreover have "\<exists>m. CRITICAL_SECTION_END t (mtx s) = Some m \<and> (CRITICAL_SECTION_BEG u m \<noteq> None \<longleftrightarrow> inside s t = 1 \<or> u = t)"
      using section_last [of "mtx s" t u] Some x True by simp
    moreover have "u \<noteq> t \<longrightarrow> inside s u = 0 \<and> CRITICAL_SECTION_BEG u (mtx s) = None"
      using section_entry(2) [OF Some, of u] x True by simp
    ultimately show ?thesis using free empty by blast
  next
    case False
    then have "inside s t = 0" using x by simp
    with free empty show ?thesis by simp
  qed
qed

theorem critical_sections_witness:
  "\<exists>s. lock_reachable s \<and> inside s 1 = 2 \<and> CRITICAL_SECTION_END 1 (mtx s) \<noteq> None \<and> CRITICAL_SECTION_BEG 2 (mtx s) = None \<and>
     (\<exists>m. CRITICAL_SECTION_BEG 1 (mtx s) = Some m \<and> CRITICAL_SECTION_END 1 m = Some (mtx s))"
proof -
  let ?i = "\<lparr>mtx = \<lparr>mtype = PTHREAD_MUTEX_RECURSIVE, holder = None, depth = 0\<rparr>, inside = (\<lambda>_. 0)\<rparr> :: threads"
  let ?s = "\<lambda>n. \<lparr>mtx = \<lparr>mtype = PTHREAD_MUTEX_RECURSIVE, holder = Some 1, depth = n\<rparr>, inside = (\<lambda>_. 0)(1 := n)\<rparr> :: threads"
  have "lock_init 0 0 0 = (0, Some \<lparr>mtype = PTHREAD_MUTEX_RECURSIVE, holder = None, depth = 0\<rparr>)" by code_simp
  then have "lock_reachable ?i" by (rule start)
  moreover have "lock_step ?i (?s 1)" using enter [of 1 ?i] by (simp add: section_defs)
  moreover have "lock_step (?s 1) (?s 2)" using enter [of 1 "?s 1"] by (simp add: section_defs numeral_2_eq_2)
  ultimately have r: "lock_reachable (?s 2)" by (blast intro: more)
  from critical_sections [OF r, of 1 2] show ?thesis using r by (intro exI [of _ "?s 2"]) auto
qed

text \<open>The functions report errors as positive numbers: a test for -1 never sees one.\<close>

lemma lock_never_minus_one:
  "lock_get t m = Some (ret, m') \<Longrightarrow> ret \<noteq> -1" "lock_let t m = Some (ret, m') \<Longrightarrow> ret \<noteq> -1" "lock_free m \<noteq> -1"
  "mtype m = PTHREAD_MUTEX_RECURSIVE \<Longrightarrow> holder m \<noteq> Some t \<Longrightarrow> lock_let t m = Some (EPERM, m)"
  by (auto simp: section_defs lock_free_def pthread_mutex_destroy_def EBUSY_def split: option.splits if_splits mutex_type.splits)

subsection \<open>The mutex of the accounts\<close>

text \<open>The mutex \<open>intra_mtx\<close> of \<open>struct ipc\<close> is made without attributes (\<open>src/ipc/init.c\<close>) and so has the default type: a
  thread that asks for it while it holds it waits for itself.\<close>

definition IPC_INTRA_CRITICAL_SECTION_BEG :: "nat \<Rightarrow> mutex \<Rightarrow> mutex option" where
  "IPC_INTRA_CRITICAL_SECTION_BEG t m = do { (ret, m) \<leftarrow> pthread_mutex_lock t m; ASSERT (0 = ret); Some m }"

definition IPC_INTRA_CRITICAL_SECTION_END :: "nat \<Rightarrow> mutex \<Rightarrow> mutex option" where
  "IPC_INTRA_CRITICAL_SECTION_END t m = do { (ret, m) \<leftarrow> pthread_mutex_unlock t m; ASSERT (0 = ret); Some m }"

lemmas intra_defs = IPC_INTRA_CRITICAL_SECTION_BEG_def IPC_INTRA_CRITICAL_SECTION_END_def
  pthread_mutex_lock_def pthread_mutex_unlock_def ASSERT_def

text \<open>Without a signal in between, a section is entered and left and the mutex is free again.\<close>

lemma intra_section:
  "holder m = None \<Longrightarrow> depth m = 0 \<Longrightarrow>
     \<exists>m'. IPC_INTRA_CRITICAL_SECTION_BEG t m = Some m' \<and> holder m' = Some t \<and> IPC_INTRA_CRITICAL_SECTION_END t m' = Some m"
  by (simp add: intra_defs)

text \<open>The handler of \<open>SIGIPC\<close> enters the section by \<open>ipc_atomic_dec\<close>, and nothing blocks the signal while
  \<open>ipc_mdirty\<close> or \<open>ipc_atomic_dec\<close> are inside: then the handler never returns, in the thread that it
  interrupts as in any other.  The recursive mutex of the manager does not have this fault.\<close>

lemma intra_handler_deadlocks:
  assumes "pthread_mutex_init 0 (snd (pthread_mutexattr_init 0)) = (0, Some m)"
    and "IPC_INTRA_CRITICAL_SECTION_BEG t m = Some m'"
  shows "IPC_INTRA_CRITICAL_SECTION_BEG t m' = None" and "IPC_INTRA_CRITICAL_SECTION_BEG u m' = None"
  using assms by (auto simp: intra_defs pthread_mutex_init_def pthread_mutexattr_init_def)

lemma section_handler_returns:
  assumes "CRITICAL_SECTION_BEG t m = Some m'" and "depth m' < 4294967295" and "mtype m = PTHREAD_MUTEX_RECURSIVE"
  shows "\<exists>m''. CRITICAL_SECTION_BEG t m' = Some m'' \<and> CRITICAL_SECTION_END t m'' = Some m'"
proof -
  have "holder m' = Some t" "0 < depth m'" "mtype m' = PTHREAD_MUTEX_RECURSIVE" using assms(1,3) by (auto simp: section_defs split: option.splits if_splits)
  then show ?thesis using assms(2) by (simp add: section_defs)
qed

end
