(* ===== verification/Timer.thy ===== *)
theory Timer
  imports Prelude
begin

text \<open>
  The wall timers (\<open>TIMER_START\<close> and \<open>TIMER_STOP\<close> of \<open>src/include/common.h\<close>), with what the
  monotonic clock returns as a parameter (\<open>None\<close> when it fails), and the sums of the measured
  times that \<open>src/api/timeinfo.c\<close> returns.  These are of type \<open>double\<close>: its values are a type
  variable, its zero, its addition and the conversion from a \<open>timespec\<close> are parameters.
\<close>

record timespec =
  tv_sec :: int
  tv_nsec :: int

definition TIMER_START :: "timespec option \<Rightarrow> timespec option" where
  "TIMER_START now = do { t \<leftarrow> now; Some \<lparr>tv_sec = tv_sec t, tv_nsec = tv_nsec t\<rparr> }"

definition TIMER_STOP :: "timespec option \<Rightarrow> timespec \<Rightarrow> timespec option" where
  "TIMER_STOP now ts = do {
     t \<leftarrow> now;
     Some (if tv_sec ts = tv_sec t
           then \<lparr>tv_sec = tv_sec t - tv_sec ts, tv_nsec = tv_nsec t - tv_nsec ts\<rparr>
           else \<lparr>tv_sec = tv_sec t - tv_sec ts - 1, tv_nsec = tv_nsec t + 1000000000 - tv_nsec ts\<rparr>)
   }"

definition nanos :: "timespec \<Rightarrow> int" where
  "nanos t = tv_sec t * 1000000000 + tv_nsec t"

definition normal :: "timespec \<Rightarrow> bool" where
  "normal t \<longleftrightarrow> 0 \<le> tv_nsec t \<and> tv_nsec t < 1000000000"

text \<open>A timer measures exactly the time between its start and its stop, without ever getting negative parts,
  but the nanoseconds may exceed a second: the result is normal only when the clock has not passed its own
  fraction of a second again.\<close>
theorem timer_exact:
  assumes "normal t0" "normal t1" and "nanos t0 \<le> nanos t1"
  shows "\<exists>ts d. TIMER_START (Some t0) = Some ts \<and> TIMER_STOP (Some t1) ts = Some d \<and> nanos d = nanos t1 - nanos t0 \<and>
    0 \<le> tv_sec d \<and> 0 \<le> tv_nsec d \<and> tv_nsec d < 2000000000 \<and>
    (normal d \<longleftrightarrow> tv_sec t0 = tv_sec t1 \<or> tv_nsec t1 < tv_nsec t0)"
proof -
  have s: "tv_sec t0 \<le> tv_sec t1" using assms unfolding nanos_def normal_def by linarith
  show ?thesis
  proof (cases "tv_sec t0 = tv_sec t1")
    case True
    then show ?thesis using assms by (simp add: TIMER_START_def TIMER_STOP_def nanos_def normal_def)
  next
    case False
    then have "tv_sec t0 + 1 \<le> tv_sec t1" using s by linarith
    then show ?thesis using assms False by (simp add: TIMER_START_def TIMER_STOP_def nanos_def normal_def algebra_simps)
  qed
qed

theorem timer_exact_witness:
  "\<exists>ts d. TIMER_START (Some \<lparr>tv_sec = 5, tv_nsec = 100\<rparr>) = Some ts \<and> TIMER_STOP (Some \<lparr>tv_sec = 7, tv_nsec = 300\<rparr>) ts = Some d \<and>
     nanos d = 2000000200 \<and> \<not> normal d"
  using timer_exact [of "\<lparr>tv_sec = 5, tv_nsec = 100\<rparr>" "\<lparr>tv_sec = 7, tv_nsec = 300\<rparr>"] by (auto simp: normal_def nanos_def)

subsection \<open>Sums of times\<close>

text \<open>The members \<open>tmrrd\<close> and \<open>tmrwr\<close> of \<open>struct vmm\<close>.\<close>

record 'd timers =
  tmrrd :: 'd
  tmrwr :: 'd

record 'd timeinfo =
  tv_rd :: 'd
  tv_wr :: 'd
  tv_ad :: 'd
  tv_ev :: 'd

definition timers_init :: "'d \<Rightarrow> 'd timers" where
  "timers_init zero = \<lparr>tmrrd = zero, tmrwr = zero\<rparr>"

definition VMM_TRACK :: "('d \<Rightarrow> 'd \<Rightarrow> 'd) \<Rightarrow> 'd \<Rightarrow> 'd \<Rightarrow> 'd" where
  "VMM_TRACK add field val = add field val"

text \<open>What the functions that load do with their timer, and those that evict.\<close>

definition track_rd :: "('d \<Rightarrow> 'd \<Rightarrow> 'd) \<Rightarrow> (timespec \<Rightarrow> 'd) \<Rightarrow> timespec \<Rightarrow> 'd timers \<Rightarrow> 'd timers" where
  "track_rd add secs tmr t = t\<lparr>tmrrd := VMM_TRACK add (tmrrd t) (secs tmr)\<rparr>"

definition track_wr :: "('d \<Rightarrow> 'd \<Rightarrow> 'd) \<Rightarrow> (timespec \<Rightarrow> 'd) \<Rightarrow> timespec \<Rightarrow> 'd timers \<Rightarrow> 'd timers" where
  "track_wr add secs tmr t = t\<lparr>tmrwr := VMM_TRACK add (tmrwr t) (secs tmr)\<rparr>"

definition sbma_timeinfo :: "'d \<Rightarrow> 'd timers \<Rightarrow> 'd timeinfo" where
  "sbma_timeinfo zero t = \<lparr>tv_rd = tmrrd t, tv_wr = tmrwr t, tv_ad = zero, tv_ev = zero\<rparr>"

text \<open>A call of the library that measured some time: \<open>Inl\<close> if it loads, \<open>Inr\<close> if it evicts.\<close>

definition track :: "('d \<Rightarrow> 'd \<Rightarrow> 'd) \<Rightarrow> (timespec \<Rightarrow> 'd) \<Rightarrow> timespec + timespec \<Rightarrow> 'd timers \<Rightarrow> 'd timers" where
  "track add secs c = (case c of Inl d \<Rightarrow> track_rd add secs d | Inr d \<Rightarrow> track_wr add secs d)"

text \<open>Each of the two sums is taken over the calls of its kind alone, in their order; the times of admission
  and of eviction that the structure also has room for are always 0.\<close>

lemma timeinfo_sums:
  "sbma_timeinfo zero (fold (track add secs) cs (timers_init zero)) =
     \<lparr>tv_rd = foldl add zero [secs d. Inl d \<leftarrow> cs], tv_wr = foldl add zero [secs d. Inr d \<leftarrow> cs], tv_ad = zero, tv_ev = zero\<rparr>"
proof -
  have "fold (track add secs) cs \<lparr>tmrrd = r, tmrwr = x\<rparr> =
      \<lparr>tmrrd = foldl add r [secs d. Inl d \<leftarrow> cs], tmrwr = foldl add x [secs d. Inr d \<leftarrow> cs]\<rparr>" for r x
  proof (induction cs arbitrary: r x)
    case (Cons c cs)
    then show ?case by (cases c) (simp_all add: track_def track_rd_def track_wr_def VMM_TRACK_def)
  qed simp
  then show ?thesis by (simp add: sbma_timeinfo_def timers_init_def)
qed

end
