(* ===== verification/Spec2Isabelle.thy ===== *)
theory Spec2Isabelle
  imports Prelude Mmu Options Swap Ipc Vmm Admission Touch Program Clear Malloc Realloc Remap Lifecycle Kl_Sizes Klmalloc Kl_Chunk Kl_Get Kl_Brick Kl_Alloc Kl_Interface Kl_Contract Kl_Api Kl_Layout Atomic Hooks Lock Timer
begin

text \<open>
  \<^bold>\<open>A verification of the storage-backed memory allocator SBMA.\<close>

  \<^bold>\<open>The program.\<close>  SBMA gives each of several cooperating processes more memory than the machine
  has.  An allocation is a mapping with an allocation table entry in front, the application's
  pages, and one status byte per page behind them.  Pages that are not resident are kept without
  access rights; touching one raises \<open>SIGSEGV\<close>, whose handler admits memory and reads the page from
  the allocation's file.  The processes share one segment of accounts.  A process that needs more
  than what is free asks another one, by \<open>SIGIPC\<close>, to evict what it holds.

  \<^bold>\<open>Theories and sources.\<close>  All file names are relative to \<open>src/src\<close>.
    \<^item> \<open>Prelude\<close>: \<open>size_t\<close> arithmetic (\<open>addw\<close>, \<open>subw\<close>, \<open>mulw\<close>), option words, the
      operating system, bytes and files; \<open>include/common.h\<close> (\<open>ASSERT\<close>).
    \<^item> \<open>Mmu\<close>: \<open>include/mmu.h\<close>, \<open>mmu/*.c\<close>.  The entry \<open>ate\<close>, status bits, the doubly linked
      allocation table in an explicit store, insertion, removal, search.  The locale
      \<open>alloc_table\<close> is the contract of the table; its interpretation \<open>tbl\<close> is the store.
      From \<open>Vmm\<close> on, the table is the list \<open>a_tbl\<close> that the store represents.
    \<^item> \<open>Options\<close>: \<open>api/parse_optstr.c\<close>, the option words of \<open>include/sbma.h\<close>, and the meaning
      of option strings as the comments of \<open>include/sbma.h\<close> give it (\<open>doc_opts\<close>).
    \<^item> \<open>Swap\<close>: \<open>vmm/swap_i.c\<close>, \<open>vmm/swap_o.c\<close>, \<open>vmm/swap_x.c\<close>, with \<open>vmm_read\<close> and
      \<open>vmm_write\<close>: loading, writing back and discarding ranges of pages.
    \<^item> \<open>Ipc\<close>: \<open>include/ipc.h\<close>, \<open>ipc/*.c\<close>.  The shared segment \<open>shm\<close>, the accounts, the choice
      of a candidate and the admission loop, whose signal is a parameter.  The locale
      \<open>releasing\<close> says what admission needs of a signal.
    \<^item> \<open>Vmm\<close>: \<open>include/vmm.h\<close>, \<open>api/mcheck.c\<close>, \<open>api/mevict.c\<close>, the handler \<open>vmm_sigipc\<close> of
      \<open>vmm/init.c\<close>.  The process record \<open>vmm\<close>, the world of all processes.
    \<^item> \<open>Admission\<close>: \<open>ipc/madmit.c\<close> with the handlers of the other processes: the interpretation
      \<open>others\<close> of \<open>releasing\<close>.
    \<^item> \<open>Touch\<close>: \<open>api/mtouch.c\<close> and the handler \<open>vmm_sigsegv\<close> of \<open>vmm/init.c\<close>.
    \<^item> \<open>Program\<close>: programs of loads, stores and library calls that run on the handlers.
    \<^item> \<open>Clear\<close>: \<open>api/mclear.c\<close>.
    \<^item> \<open>Malloc\<close>: \<open>api/malloc.c\<close>, \<open>api/calloc.c\<close>, \<open>api/free.c\<close>.
    \<^item> \<open>Realloc\<close>: \<open>api/realloc.c\<close>.
    \<^item> \<open>Remap\<close>: \<open>api/remap.c\<close>.
    \<^item> \<open>Lifecycle\<close>: \<open>vmm/init.c\<close>, \<open>vmm/destroy.c\<close>, \<open>api/init.c\<close>, \<open>vinit.c\<close>, \<open>destroy.c\<close>,
      \<open>mallopt.c\<close>, \<open>mallinfo.c\<close>, \<open>mexist.c\<close>, \<open>sigon.c\<close>, \<open>sigoff.c\<close>.
    \<^item> \<open>Kl_Sizes\<close>, \<open>Klmalloc\<close>, \<open>Kl_Layout\<close>: \<open>klmalloc/klmalloc.c\<close>, the allocator that cuts blocks of
      \<open>sbma_malloc\<close> into pieces of any size.  Sizes, size classes and their tables; all its
      operations over a memory of words; the layout of its structures.
    \<^item> \<open>Kl_Chunk\<close>, \<open>Kl_Get\<close>, \<open>Kl_Brick\<close>, \<open>Kl_Alloc\<close>, \<open>Kl_Interface\<close>: the invariant of klmalloc and
      the proofs that its operations keep it: chunks and their merging, chunks cut from a block,
      bricks, both together, the functions of the interface.
    \<^item> \<open>Kl_Contract\<close>: the locale \<open>allocator\<close> is what a client expects of an allocator, its
      interpretation \<open>kl\<close> is klmalloc.  \<open>Kl_Api\<close>: the functions of the interface one by one.
    \<^item> \<open>Atomic\<close>: \<open>sbma_mtouch_atomic\<close> of \<open>api/mtouch.c\<close>, which loads several ranges at once.
    \<^item> \<open>Hooks\<close>: \<open>api/hooks.c\<close>, the functions of the C library that are replaced.
    \<^item> \<open>Lock\<close>: \<open>lock/*.c\<close> of the build with threads, the critical sections of \<open>include/vmm.h\<close> and
      \<open>include/ipc.h\<close>.
    \<^item> \<open>Timer\<close>: the timers of \<open>include/common.h\<close> and \<open>api/timeinfo.c\<close>.

  \<^bold>\<open>How state and operations correspond.\<close>  An operation of the interface takes the process record
  \<open>v\<close> (the variable \<open>_vmm_\<close>) and the world \<open>w\<close>: the shared segment, the operating system
  \<open>sys w\<close> and the other processes.  It returns its result and the new records.  \<open>None\<close> means that
  the call never returns to its caller: a failed \<open>ASSERT\<close>, \<open>FATAL_ABORT\<close>, an access outside an
  object, a semaphore that is never posted, or a loop without end.  Error returns are ordinary
  values.  An entry is passed by value and put back under its address; \<open>data\<close> is the contents of
  the application's pages, \<open>prots\<close> their access rights.  \<open>size_t\<close> values are natural numbers below
  \<open>SIZE_MOD\<close> with the wrap-around written out; status bytes and option words are machine words.

  What the operating system does is a script in the record \<open>os\<close>: which calls fail (\<open>faults\<close>), how
  many bytes a transfer moves (\<open>grants\<close>, possibly none), where mappings are placed (\<open>places\<close>), and the
  files.  Theorems that speak of every script hold whatever the system does; \<open>quiet\<close> says that no
  call fails and no transfer is short.  \<open>returns\<close> (in \<open>Prelude\<close>) keeps apart that a call returns, when
  no transfer moves nothing (\<open>moves\<close>), and what holds of its result whenever it does.

  The state of klmalloc is the record \<open>kl_mem\<close>: the variable \<open>_mem_\<close>, and the memory as a partial
  function from addresses to 64-bit words.  That this memory may be flat is what
  \<open>transparent_memory\<close> shows; that new blocks are zero and apart from others is what \<open>Malloc\<close>
  shows of \<open>sbma_malloc\<close>.  Where the next block is placed, or that there is none, comes from the
  script \<open>answers\<close>.  The functions of the C library that klmalloc and the hooks call are
  parameters; the requests that the dynamic linker makes through \<open>calloc\<close> while it looks for
  \<open>calloc\<close> are a script, and of every other name it is only said whether it is found.  The
  assertions of klmalloc are enabled.

  \<^bold>\<open>What is shown.\<close>
    \<^item> Transparency: a program of loads, stores, touches, evictions and switches between
      processes runs to its end and reads what a flat memory per process would give
      (\<open>transparent_memory\<close>).  It rests on the correctness of the two handlers.
    \<^item> Swapping keeps every byte and the invariant of the entry; whatever the system calls do, the
      only assertion that can fail is the one against a transfer that moves no byte.
    \<^item> Eviction, touching, clearing, allocation, growing, remapping and freeing: the result on
      consistent processes, the charges taken and given back, the bytes of all processes, and the
      invariant \<open>proc_ok\<close> of every process afterwards; joining establishes the invariant.  Growing
      leaves old status bytes in memory behind the old pages, so its result is stated of the state with the new
      pages wiped; with \<open>VMM_MERGE\<close> it is stated for pages that are dirty or not resident, since the
      code protects the wrong pages otherwise.
    \<^item> Admission succeeds whenever free and releasable pages suffice, and never returns when
      nobody can release anything; its candidate is the best one for the missing amount (the
      code's comment has another rule, from which it differs).
    \<^item> The allocation table refines a list, the option parser agrees with the documentation of the
      options (but for \<open>default\<close> beside \<open>admitr\<close> or \<open>admitd\<close>), the consistency check decides the
      accounting invariant.
    \<^item> A program that uses klmalloc and only touches what it owns never goes wrong: allocations
      are aligned and apart, and everything is read as it was written (\<open>programs_safe\<close>, for
      the sizes in \<open>servable\<close>: not 0, and not the 16 sizes on which the code aborts).
      Releasing, moving and clearing allocations; size classes agree with their table.
    \<^item> The replaced functions: \<open>memcpy\<close> loads both ranges together and copies, a buffer that
      the system writes is accessible all over, and looking for the original functions
      works before there is an allocator.
    \<^item> In every interleaving of threads, a thread inside a critical section can enter it again (as
      signal handlers do) and leave, because \<open>lock_init\<close> asks for a recursive mutex; the section is free again with the
      last leave.  The exclusion of other threads is that of the POSIX mutex.
    \<^item> Error exits: a failed mapping leaves the accounts as they were; and theorems about inputs
      on which the code does not do what it means to (lost short writes, ghost pages, clearing
      everything, shrinking, statistics, sizes that klmalloc cannot serve, buffers of \<open>fwrite\<close>).

  \<^bold>\<open>Bounds.\<close>  Loops over pages and entries recurse on the number that is left.  The admission loop
  is a \<open>partial_function\<close>, so a retry without end is \<open>None\<close>; that it returns is proved.  Retries
  on the result -2 never repeat in this model, since no call yields -2.  The theorems on the
  interface assume that sizes do not wrap (\<open>sized\<close>) and that the system's page size divides the
  page size of the library.

  \<^bold>\<open>Build options.\<close>  The model is that of the default build: without \<open>USE_THREAD\<close> the functions
  of \<open>lock/\<close> are the constant 0 (only theory \<open>Lock\<close> is about the other build), without
  \<open>HAVE_PREAD\<close> transfers are \<open>lseek\<close> and \<open>read\<close> or \<open>write\<close>, \<open>SBMA_FILE_RESERVE\<close> is 0,
  \<open>MEMORY_ALLOCATION_ALIGNMENT\<close> is 8.

  \<^bold>\<open>Not modelled.\<close>  The arithmetic of \<open>double\<close> in the sums of times, a parameter of \<open>Timer\<close>; file
  descriptors and signal dispositions; signals that arrive in the middle of a call (a signal is
  handled when the other process is at rest); threads elsewhere than in \<open>Lock\<close>; the code that is
  switched off by \<open>#if 0\<close>; \<open>old/\<close> and \<open>bench/\<close>, which are not part of the library.
\<close>

end
